(* ===== verification/Prelude.thy ===== *)
theory Prelude
  imports Main "HOL-Library.AList"
begin

text \<open>
  What the components of the library share: JavaScript values that several of them use
  (optional strings and their truthiness, a \<open>Map\<close> that keeps its insertion order, moving
  an element of an array), the interfaces several components have in common as locales
  (a keyed store, a queue that can be reordered, a machine driven by events, a stack whose
  pushes are disposed), and the named collections of facts that the proofs use.
\<close>

named_theorems machine_simps "equations of the state machines"
named_theorems wf_defs "definitions of the well-formedness predicates"

section \<open>Optional strings\<close>

text \<open>
  \<open>!x\<close> on an optional string: \<open>undefined\<close>, \<open>null\<close> and the empty string are falsy.
\<close>

definition truthy :: "string option \<Rightarrow> bool" where
  "truthy x \<longleftrightarrow> (case x of None \<Rightarrow> False | Some s \<Rightarrow> s \<noteq> [])"

lemma truthy_simps [simp]:
  "\<not> truthy None"
  "truthy (Some s) \<longleftrightarrow> s \<noteq> []"
  by (simp_all add: truthy_def)

section \<open>Maps that keep their insertion order\<close>

text \<open>
  \<open>new Map()\<close> as an association list in insertion order: \<open>set\<close> overwrites in place or
  appends, \<open>delete\<close> removes, iteration is the order of the list.
\<close>

type_synonym ('k, 'v) js_map = "('k \<times> 'v) list"

definition js_get :: "('k, 'v) js_map \<Rightarrow> 'k \<Rightarrow> 'v option" where
  "js_get m k = map_of m k"

definition js_set :: "'k \<Rightarrow> 'v \<Rightarrow> ('k, 'v) js_map \<Rightarrow> ('k, 'v) js_map" where
  "js_set k v m = AList.update k v m"

definition js_del :: "'k \<Rightarrow> ('k, 'v) js_map \<Rightarrow> ('k, 'v) js_map" where
  "js_del k m = filter (\<lambda>(k', _). k' \<noteq> k) m"

definition js_keys :: "('k, 'v) js_map \<Rightarrow> 'k list" where
  "js_keys m = map fst m"

definition js_has :: "('k, 'v) js_map \<Rightarrow> 'k \<Rightarrow> bool" where
  "js_has m k \<longleftrightarrow> js_get m k \<noteq> None"

locale keyed_store =
  fixes get :: "'m \<Rightarrow> 'k \<Rightarrow> 'v option"
    and put :: "'k \<Rightarrow> 'v \<Rightarrow> 'm \<Rightarrow> 'm"
    and del :: "'k \<Rightarrow> 'm \<Rightarrow> 'm"
  assumes get_put: "get (put k v m) k' = (if k' = k then Some v else get m k')"
    and get_del: "get (del k m) k' = (if k' = k then None else get m k')"
begin

lemma get_put_same: "get (put k v m) k = Some v"
  by (simp add: get_put)

lemma get_put_other: "k' \<noteq> k \<Longrightarrow> get (put k v m) k' = get m k'"
  by (simp add: get_put)

lemma get_fold_put:
  "get (fold (\<lambda>(k, v). put k v) kvs m) k =
    (case map_of (rev kvs) k of None \<Rightarrow> get m k | Some v \<Rightarrow> Some v)"
proof (induction kvs arbitrary: m)
  case Nil
  show ?case by simp
next
  case (Cons kv kvs)
  show ?case
    by (cases kv) (auto simp: Cons.IH get_put map_add_def split: option.splits)
qed

end

locale ordered_store = keyed_store +
  fixes keys :: "'m \<Rightarrow> 'k list"
  assumes keys_put: "keys (put k v m) = (if k \<in> set (keys m) then keys m else keys m @ [k])"
    and keys_del: "keys (del k m) = filter (\<lambda>k'. k' \<noteq> k) (keys m)"
    and get_keys: "get m k \<noteq> None \<longleftrightarrow> k \<in> set (keys m)"
begin

lemma distinct_put: "distinct (keys m) \<Longrightarrow> distinct (keys (put k v m))"
  by (simp add: keys_put)

lemma distinct_del: "distinct (keys m) \<Longrightarrow> distinct (keys (del k m))"
  by (simp add: keys_del)

lemma set_keys_put: "set (keys (put k v m)) = insert k (set (keys m))"
  by (auto simp: keys_put)

lemma set_keys_del: "set (keys (del k m)) = set (keys m) - {k}"
  by (auto simp: keys_del)

end

interpretation js: ordered_store js_get js_set js_del js_keys
proof
  fix k k' :: 'a and v :: 'b and m :: "('a, 'b) js_map"
  show "js_get (js_set k v m) k' = (if k' = k then Some v else js_get m k')"
    by (simp add: js_get_def js_set_def update_conv')
  show "js_get (js_del k m) k' = (if k' = k then None else js_get m k')"
    by (induction m) (auto simp: js_get_def js_del_def)
  show "js_keys (js_set k v m) = (if k \<in> set (js_keys m) then js_keys m else js_keys m @ [k])"
    by (simp add: js_keys_def js_set_def update_keys)
  show "js_keys (js_del k m) = filter (\<lambda>k'. k' \<noteq> k) (js_keys m)"
    by (induction m) (auto simp: js_keys_def js_del_def)
  show "js_get m k \<noteq> None \<longleftrightarrow> k \<in> set (js_keys m)"
    by (simp add: js_get_def js_keys_def map_of_eq_None_iff)
qed

lemmas js_get_set [simp] = js.get_put
lemmas js_get_del [simp] = js.get_del

lemma js_get_empty [simp]: "js_get [] k = None"
  by (simp add: js_get_def)

lemma js_keys_empty [simp]: "js_keys [] = []"
  by (simp add: js_keys_def)

lemma js_has_keys: "js_has m k \<longleftrightarrow> k \<in> set (js_keys m)"
  using js.get_keys by (simp add: js_has_def)

lemma js_has_simps [simp]:
  "js_has (js_set k v m) k' \<longleftrightarrow> k' = k \<or> js_has m k'"
  "js_has (js_del k m) k' \<longleftrightarrow> k' \<noteq> k \<and> js_has m k'"
  "\<not> js_has [] k"
  by (auto simp: js_has_def)

lemma js_get_SomeD: "js_get m k = Some v \<Longrightarrow> (k, v) \<in> set m"
  by (simp add: js_get_def map_of_SomeD)

lemma js_get_in_set: "distinct (js_keys m) \<Longrightarrow> (k, v) \<in> set m \<Longrightarrow> js_get m k = Some v"
  by (simp add: js_get_def js_keys_def)

lemma set_js_set: "set (js_set k v m) \<subseteq> insert (k, v) (set m)"
  unfolding js_set_def by (induction m) auto

lemma js_set_memD: "kx \<in> set (js_set p v m) \<Longrightarrow> kx = (p, v) \<or> kx \<in> set m"
  using set_js_set [of p v m] by blast

lemma set_js_del: "set (js_del k m) \<subseteq> set m"
  by (auto simp: js_del_def)

section \<open>Arrays\<close>

text \<open>
  \<open>xs.findIndex(p)\<close>: the first index whose element satisfies \<open>p\<close>; \<open>-1\<close> is \<open>None\<close>.
\<close>

fun find_index :: "('a \<Rightarrow> bool) \<Rightarrow> 'a list \<Rightarrow> nat option" where
  "find_index p [] = None"
| "find_index p (x # xs) = (if p x then Some 0 else map_option Suc (find_index p xs))"

text \<open>\<open>xs.splice(i, 0, x)\<close> and \<open>xs.splice(i, 1)\<close>.\<close>

definition insert_at :: "nat \<Rightarrow> 'a \<Rightarrow> 'a list \<Rightarrow> 'a list" where
  "insert_at i x xs = take i xs @ x # drop i xs"

definition remove_at :: "nat \<Rightarrow> 'a list \<Rightarrow> 'a list" where
  "remove_at i xs = take i xs @ drop (Suc i) xs"

lemma find_index_None: "find_index p xs = None \<longleftrightarrow> (\<forall>x\<in>set xs. \<not> p x)"
  by (induction xs) auto

lemma find_index_Some:
  "find_index p xs = Some i \<Longrightarrow> i < length xs \<and> p (xs ! i) \<and> (\<forall>j<i. \<not> p (xs ! j))"
proof (induction xs arbitrary: i)
  case Nil
  then show ?case by simp
next
  case (Cons x xs)
  show ?case
  proof (cases "p x")
    case True
    with Cons.prems show ?thesis by simp
  next
    case False
    with Cons.prems obtain j where "find_index p xs = Some j" and "i = Suc j"
      by auto
    with Cons.IH False show ?thesis
      by (auto simp: nth_Cons split: nat.splits)
  qed
qed

lemma mset_insert_at [simp]: "set (insert_at i x xs) = insert x (set xs)"
proof -
  have "set xs = set (take i xs) \<union> set (drop i xs)"
    by (metis append_take_drop_id set_append)
  then show ?thesis by (simp add: insert_at_def)
qed

lemma distinct_insert_at:
  "distinct (insert_at i x xs) \<longleftrightarrow> x \<notin> set xs \<and> distinct xs"
proof -
  have "distinct xs \<longleftrightarrow> distinct (take i xs @ drop i xs)"
    by simp
  moreover have "set xs = set (take i xs) \<union> set (drop i xs)"
    by (metis append_take_drop_id set_append)
  ultimately show ?thesis
    unfolding insert_at_def distinct_append distinct.simps set_append list.set by blast
qed

lemma length_insert_at [simp]: "length (insert_at i x xs) = Suc (length xs)"
  by (simp add: insert_at_def min_def)

lemma nth_insert_at: "i \<le> length xs \<Longrightarrow> insert_at i x xs ! i = x"
  by (simp add: insert_at_def nth_append)

lemma remove_at_find:
  "distinct xs \<Longrightarrow> find_index (\<lambda>y. y = x) xs = Some i \<Longrightarrow> remove_at i xs = filter (\<lambda>y. y \<noteq> x) xs"
proof (induction xs arbitrary: i)
  case Nil
  then show ?case by simp
next
  case (Cons y xs)
  show ?case
  proof (cases "y = x")
    case True
    with Cons.prems have "x \<notin> set xs" "i = 0" by auto
    then have "filter (\<lambda>y. y \<noteq> x) xs = xs" by (auto simp: filter_id_conv)
    with True \<open>i = 0\<close> show ?thesis by (simp add: remove_at_def)
  next
    case False
    with Cons.prems obtain j where "find_index (\<lambda>y. y = x) xs = Some j" and "i = Suc j"
      by auto
    with Cons.IH Cons.prems False show ?thesis by (simp add: remove_at_def)
  qed
qed

lemma length_filter_neq:
  "distinct xs \<Longrightarrow> x \<in> set xs \<Longrightarrow> length (filter (\<lambda>y. y \<noteq> x) xs) = length xs - 1"
proof (induction xs)
  case Nil
  then show ?case by simp
next
  case (Cons a xs)
  show ?case
  proof (cases "a = x")
    case True
    with Cons.prems have "filter (\<lambda>y. y \<noteq> x) xs = xs" by (auto simp: filter_id_conv)
    with True show ?thesis by simp
  next
    case False
    with Cons.prems have "x \<in> set xs" by simp
    then have "0 < length xs" by (cases xs) auto
    with False Cons show ?thesis by simp
  qed
qed

lemma foldl_keeps: "P s \<Longrightarrow> (\<And>s x. P s \<Longrightarrow> x \<in> set xs \<Longrightarrow> P (f s x)) \<Longrightarrow> P (foldl f s xs)"
  by (induction xs arbitrary: s) simp_all

text \<open>
  A value that some steps of a history write: it is the last one written. \<open>w k\<close> is what the step \<open>k\<close> writes.
\<close>

lemma last_write:
  assumes "v 0 = z" and "\<And>k. k < m \<Longrightarrow> v (Suc k) = (case w k of Some x \<Rightarrow> x | None \<Rightarrow> v k)" and "y \<noteq> z"
  shows "k \<le> m \<Longrightarrow> v k = y \<longleftrightarrow> (\<exists>n<k. w n = Some y \<and> (\<forall>j. n < j \<and> j < k \<longrightarrow> w j = None))"
proof (induction k)
  case 0
  then show ?case using assms(1,3) by auto
next
  case (Suc k)
  then have v: "v (Suc k) = (case w k of Some x \<Rightarrow> x | None \<Rightarrow> v k)" and IH: "v k = y \<longleftrightarrow>
      (\<exists>n<k. w n = Some y \<and> (\<forall>j. n < j \<and> j < k \<longrightarrow> w j = None))"
    using assms(2) [of k] by simp_all
  show ?case
  proof (cases "w k")
    case None
    then show ?thesis using v IH by (auto simp: less_Suc_eq)
  next
    case (Some x)
    then show ?thesis using v by (auto simp: less_Suc_eq)
  qed
qed

section \<open>Queues that can be reordered\<close>

text \<open>
  \<open>Math.max(0, Math.min(index, length))\<close> for an index that may be out of range.
\<close>

definition clamp_index :: "int \<Rightarrow> nat \<Rightarrow> nat" where
  "clamp_index i n = nat (max 0 (min i (int n)))"

lemma clamp_index_le [simp]: "clamp_index i n \<le> n"
  by (simp add: clamp_index_def)

lemma clamp_index_id: "0 \<le> i \<Longrightarrow> i \<le> int n \<Longrightarrow> clamp_index i n = nat i"
  by (simp add: clamp_index_def)

text \<open>
  What both ends of the uploader do to their queue: the contract says the order after a move,
  and the consequences follow once for both.
\<close>

locale reorderable =
  fixes order_of :: "'s \<Rightarrow> 'a list"
    and move :: "'a \<Rightarrow> int \<Rightarrow> 's \<Rightarrow> 's"
  assumes move_absent: "x \<notin> set (order_of s) \<Longrightarrow> order_of (move x i s) = order_of s"
    and move_present: "distinct (order_of s) \<Longrightarrow> x \<in> set (order_of s) \<Longrightarrow>
      order_of (move x i s) =
        insert_at (clamp_index i (length (order_of s) - 1)) x (filter (\<lambda>y. y \<noteq> x) (order_of s))"
begin

lemma move_set: "distinct (order_of s) \<Longrightarrow> set (order_of (move x i s)) = set (order_of s)"
  by (cases "x \<in> set (order_of s)") (auto simp: move_absent move_present)

lemma move_distinct: "distinct (order_of s) \<Longrightarrow> distinct (order_of (move x i s))"
  by (cases "x \<in> set (order_of s)") (auto simp: move_absent move_present distinct_insert_at)

lemma move_others:
  assumes "distinct (order_of s)"
  shows "filter (\<lambda>y. y \<noteq> x) (order_of (move x i s)) = filter (\<lambda>y. y \<noteq> x) (order_of s)"
proof (cases "x \<in> set (order_of s)")
  case False
  then show ?thesis by (simp add: move_absent)
next
  case True
  let ?ys = "filter (\<lambda>y. y \<noteq> x) (order_of s)"
  let ?i = "clamp_index i (length (order_of s) - 1)"
  have "filter (\<lambda>y. y \<noteq> x) (insert_at ?i x ?ys)
      = filter (\<lambda>y. y \<noteq> x) (take ?i ?ys @ drop ?i ?ys)"
    unfolding insert_at_def filter_append by simp
  also have "\<dots> = ?ys" by simp
  finally show ?thesis using assms True by (simp add: move_present)
qed

lemma move_at:
  assumes "distinct (order_of s)" and "x \<in> set (order_of s)"
    and "0 \<le> i" and "i < int (length (order_of s))"
  shows "order_of (move x i s) ! nat i = x"
proof -
  have one: "length (filter (\<lambda>y. y \<noteq> x) (order_of s)) = length (order_of s) - 1"
    using assms(1,2) by (rule length_filter_neq)
  then show ?thesis
    using assms by (simp add: move_present clamp_index_id nth_insert_at)
qed

end

section \<open>Machines driven by events\<close>

fun admissible :: "('s \<Rightarrow> 'e \<Rightarrow> 's) \<Rightarrow> ('s \<Rightarrow> 'e \<Rightarrow> bool) \<Rightarrow> 's \<Rightarrow> 'e list \<Rightarrow> bool" where
  "admissible step ok s [] = True"
| "admissible step ok s (e # es) = (ok s e \<and> admissible step ok (step s e) es)"

lemma admissible_append:
  "admissible step ok s (es @ fs) \<longleftrightarrow>
    admissible step ok s es \<and> admissible step ok (foldl step s es) fs"
  by (induction es arbitrary: s) auto

text \<open>Where every event may come, and where each of a list may.\<close>

lemma admissible_all: "admissible step (\<lambda>_ _. True) s es"
  by (induction es arbitrary: s) simp_all

lemma admissible_list_all: "list_all P es \<Longrightarrow> admissible step (\<lambda>_. P) s es"
  by (induction es arbitrary: s) simp_all

locale event_machine =
  fixes step :: "'s \<Rightarrow> 'e \<Rightarrow> 's"
    and ok :: "'s \<Rightarrow> 'e \<Rightarrow> bool"
    and inv :: "'s \<Rightarrow> bool"
  assumes step_inv: "inv s \<Longrightarrow> ok s e \<Longrightarrow> inv (step s e)"
begin

lemma run_inv: "inv s \<Longrightarrow> admissible step ok s es \<Longrightarrow> inv (foldl step s es)"
proof (induction es arbitrary: s)
  case Nil
  then show ?case by simp
next
  case (Cons e es)
  then show ?case by (simp add: step_inv)
qed

end

text \<open>
  A machine that waits for answers: each answer that leaves it waiting lowers a rank, so after as many answers as the
  rank says it has stopped waiting.
\<close>

locale ranked_machine = event_machine +
  fixes waits :: "'s \<Rightarrow> bool"
    and answer :: "'e \<Rightarrow> bool"
    and rank :: "'s \<Rightarrow> nat"
  assumes rank_pos: "inv s \<Longrightarrow> waits s \<Longrightarrow> 0 < rank s"
    and rank_falls: "inv s \<Longrightarrow> waits s \<Longrightarrow> ok s e \<Longrightarrow> answer e \<Longrightarrow> waits (step s e) \<Longrightarrow> rank (step s e) < rank s"
begin

lemma stops_waiting:
  assumes "inv s" and "admissible step ok s as" and "list_all answer as" and "rank s \<le> length as"
  shows "\<exists>k\<le>length as. \<not> waits (foldl step s (take k as))"
  using assms
proof (induction as arbitrary: s)
  case Nil
  then show ?case using rank_pos [of s] by auto
next
  case (Cons e as)
  show ?case
  proof (cases "waits s \<and> waits (step s e)")
    case True
    then have "rank (step s e) \<le> length as" using rank_falls [of s e] Cons.prems by simp
    then obtain k where "k \<le> length as" "\<not> waits (foldl step (step s e) (take k as))"
      using Cons.IH [of "step s e"] Cons.prems step_inv by auto
    then show ?thesis by (intro exI [of _ "Suc k"]) simp
  next
    case False
    then have "\<not> waits (foldl step s (take 0 (e # as))) \<or> \<not> waits (foldl step s (take 1 (e # as)))" by simp
    then show ?thesis by (metis One_nat_def Suc_le_mono le0 length_Cons)
  qed
qed

end

section \<open>Stacks whose pushes are disposed\<close>

text \<open>
  Handlers, levels and sources are pushed onto a list in a store; a push gives a disposer
  that removes exactly what it pushed, wherever it is by then.
\<close>

locale disposable_stack =
  fixes stack_of :: "'s \<Rightarrow> 'a list"
    and push :: "'a \<Rightarrow> 's \<Rightarrow> 's"
    and dispose :: "'a \<Rightarrow> 's \<Rightarrow> 's"
  assumes stack_push: "stack_of (push x s) = stack_of s @ [x]"
    and stack_dispose: "stack_of (dispose x s) = filter (\<lambda>y. y \<noteq> x) (stack_of s)"
begin

lemma dispose_push: "x \<notin> set (stack_of s) \<Longrightarrow> stack_of (dispose x (push x s)) = stack_of s"
  by (auto simp: stack_push stack_dispose filter_id_conv)

lemma dispose_push_other:
  "x \<noteq> y \<Longrightarrow> stack_of (dispose x (push y s)) = stack_of (dispose x s) @ [y]"
  by (simp add: stack_push stack_dispose)

lemma last_push: "last (stack_of (push x s)) = x"
  by (simp add: stack_push)

lemma distinct_push: "distinct (stack_of s) \<Longrightarrow> x \<notin> set (stack_of s) \<Longrightarrow> distinct (stack_of (push x s))"
  by (simp add: stack_push)

lemma distinct_dispose: "distinct (stack_of s) \<Longrightarrow> distinct (stack_of (dispose x s))"
  by (simp add: stack_dispose)

end

end
