(* ===== verification/Upload_Types.thy ===== *)
theory Upload_Types
  imports Prelude
begin

text \<open>
  The uploader's plain data (\<open>uploader/src/types.ts\<close>) and its error classification
  (\<open>uploader/src/errors.ts\<close> over \<open>api/src/errors.ts\<close>). A thrown value is one of the shapes
  the code tells apart: an HTTP client error with or without a response, a cancelled request,
  a DOM exception, an ordinary error, anything else. Bytes and counts are \<open>nat\<close>; unknown
  payload (\<open>params\<close>) is kept opaque as a string.
\<close>

section \<open>types.ts\<close>

datatype upload_step = Hashing | Initializing | Uploading | Verifying | Completing

datatype upload_status =
    StQueued
  | StStep upload_step
  | StPaused
  | StFailed
  | StCancelling
  | StCancelled
  | StDone

datatype upload_mode = WholeFile | Chunked | Verify

record upload_error =
  ue_code :: string
  ue_message :: string
  ue_status :: "nat option"
  ue_params :: "string option"
  ue_traceId :: "string option"
  ue_retryable :: bool

record uploaded_asset =
  ua_id :: string
  ua_name :: string
  ua_createdAt :: string

record upload_result =
  ur_asset :: uploaded_asset
  ur_mimeType :: string

record upload_snapshot =
  sn_id :: string
  sn_fileName :: string
  sn_size :: nat
  sn_status :: upload_status
  sn_step :: "upload_step option"
  sn_mode :: "upload_mode option"
  sn_hashedBytes :: nat
  sn_uploadedBytes :: nat
  sn_hash :: "string option"
  sn_error :: "upload_error option"
  sn_result :: "upload_result option"

definition isTerminal :: "upload_status \<Rightarrow> bool" where
  "isTerminal st \<longleftrightarrow> st = StDone \<or> st = StCancelled"

lemma isTerminal_simps [simp]:
  "isTerminal StDone"
  "isTerminal StCancelled"
  "\<not> isTerminal StQueued"
  "\<not> isTerminal (StStep st)"
  "\<not> isTerminal StPaused"
  "\<not> isTerminal StFailed"
  "\<not> isTerminal StCancelling"
  by (simp_all add: isTerminal_def)

section \<open>errors.ts\<close>

text \<open>
  The contract's error body, when the response's data is an object with a \<open>code\<close>; any other
  data (a proxy page, nothing) is \<open>None\<close>.
\<close>

record error_body =
  eb_status :: nat
  eb_code :: string
  eb_params :: "string option"
  eb_trace_id :: "string option"

record response =
  rs_status :: nat
  rs_data :: "error_body option"

text \<open>
  \<open>CanceledError\<close> of the HTTP client is itself one of its errors, without a response.
  \<open>TransactionMismatch\<close> is the runner's own error class.
\<close>

datatype js_error =
    AxiosError (ax_response: "response option") (ax_message: string)
  | CanceledError (ce_message: string)
  | DomException (de_name: string) (de_message: string)
  | TransactionMismatch
  | PlainError (pe_message: string)
  | ThrownValue (tv_string: string)

fun isAxiosError :: "js_error \<Rightarrow> bool" where
  "isAxiosError (AxiosError _ _) = True"
| "isAxiosError (CanceledError _) = True"
| "isAxiosError _ = False"

fun isCancel :: "js_error \<Rightarrow> bool" where
  "isCancel (CanceledError _) = True"
| "isCancel _ = False"

fun getErrorBody :: "js_error \<Rightarrow> error_body option" where
  "getErrorBody (AxiosError (Some r) _) = rs_data r"
| "getErrorBody _ = None"

definition getErrorCode :: "js_error \<Rightarrow> string option" where
  "getErrorCode e = map_option eb_code (getErrorBody e)"

fun getStatusCode :: "js_error \<Rightarrow> nat option" where
  "getStatusCode (AxiosError r _) = map_option rs_status r"
| "getStatusCode _ = None"

text \<open>\<open>error instanceof Error ? error.message : String(error)\<close>.\<close>

fun message_of :: "js_error \<Rightarrow> string" where
  "message_of (AxiosError _ m) = m"
| "message_of (CanceledError m) = m"
| "message_of (DomException _ m) = m"
| "message_of TransactionMismatch = ''The server is at another step of this upload''"
| "message_of (PlainError m) = m"
| "message_of (ThrownValue s) = s"

definition TRANSIENT_CODES :: "string list" where
  "TRANSIENT_CODES =
    [''NETWORK_ERROR'', ''TIMEOUT'', ''INTERNAL'', ''UPSTREAM_UNAVAILABLE'', ''TOO_MANY_CONCURRENT_UPLOADS'']"

definition isAbort :: "js_error \<Rightarrow> bool" where
  "isAbort e \<longleftrightarrow> isCancel e \<or> (\<exists>m. e = DomException ''AbortError'' m)"

lemma isAbort_code [code]:
  "isAbort e = (case e of CanceledError _ \<Rightarrow> True | DomException n _ \<Rightarrow> n = ''AbortError'' | _ \<Rightarrow> False)"
  by (cases e) (auto simp: isAbort_def)

definition abortError :: js_error where
  "abortError = DomException ''AbortError'' ''Aborted''"

text \<open>A status in a message, in decimal.\<close>

fun dec_digits :: "nat \<Rightarrow> string" where
  "dec_digits n =
    (if n < 10 then [char_of (48 + n)] else dec_digits (n div 10) @ [char_of (48 + n mod 10)])"

declare dec_digits.simps [simp del]

definition toUploadError :: "js_error \<Rightarrow> upload_error" where
  "toUploadError e =
    (case getErrorBody e of
      Some body \<Rightarrow>
        \<lparr>ue_code = eb_code body,
         ue_message = ''Storage answered '' @ dec_digits (eb_status body) @ '' '' @ eb_code body,
         ue_status = Some (eb_status body),
         ue_params = eb_params body,
         ue_traceId = eb_trace_id body,
         ue_retryable = (eb_code body \<in> set TRANSIENT_CODES \<or> 500 \<le> eb_status body)\<rparr>
    | None \<Rightarrow>
        (if isAxiosError e then
          (case getStatusCode e of
            None \<Rightarrow>
              \<lparr>ue_code = ''NETWORK_ERROR'', ue_message = message_of e, ue_status = None,
               ue_params = None, ue_traceId = None, ue_retryable = True\<rparr>
          | Some status \<Rightarrow>
              \<lparr>ue_code = (if 500 \<le> status then ''UPSTREAM_UNAVAILABLE'' else ''UNEXPECTED_RESPONSE''),
               ue_message = ''Storage answered '' @ dec_digits status,
               ue_status = Some status, ue_params = None, ue_traceId = None,
               ue_retryable = (500 \<le> status)\<rparr>)
        else if (case e of DomException n _ \<Rightarrow> n = ''NotReadableError'' | _ \<Rightarrow> False) then
          \<lparr>ue_code = ''FILE_UNREADABLE'', ue_message = ''The file can no longer be read'',
           ue_status = None, ue_params = None, ue_traceId = None, ue_retryable = False\<rparr>
        else
          \<lparr>ue_code = ''INTERNAL'', ue_message = message_of e, ue_status = None,
           ue_params = None, ue_traceId = None, ue_retryable = False\<rparr>))"

section \<open>What the classification promises\<close>

lemma isAbort_abortError [simp]: "isAbort abortError"
  by (simp add: isAbort_code abortError_def)

lemma getErrorBody_axios: "getErrorBody e = Some b \<Longrightarrow> isAxiosError e"
  by (cases e rule: getErrorBody.cases) auto

lemma getErrorBody_status: "getErrorBody e = Some b \<Longrightarrow> \<exists>s. getStatusCode e = Some s"
  by (cases e rule: getErrorBody.cases) auto

text \<open>
  Only errors of the transport are retried: one the client raised itself (an unreadable file,
  a broken invariant) never is, even though its code \<open>INTERNAL\<close> is a transient one of the server.
\<close>

lemma not_retryable_local: "\<not> isAxiosError e \<Longrightarrow> \<not> ue_retryable (toUploadError e)"
  using getErrorBody_axios [of e] by (auto simp: toUploadError_def split: option.splits)

lemma retryable_iff:
  "ue_retryable (toUploadError e) \<longleftrightarrow>
    isAxiosError e \<and>
    (case getErrorBody e of
      Some b \<Rightarrow> eb_code b \<in> set TRANSIENT_CODES \<or> 500 \<le> eb_status b
    | None \<Rightarrow> (case getStatusCode e of None \<Rightarrow> True | Some s \<Rightarrow> 500 \<le> s))"
  using getErrorBody_axios [of e] by (auto simp: toUploadError_def split: option.splits)

lemma toUploadError_status:
  "ue_status (toUploadError e) =
    (case getErrorBody e of Some b \<Rightarrow> Some (eb_status b) | None \<Rightarrow> getStatusCode e)"
  by (cases e rule: getErrorBody.cases) (auto simp: toUploadError_def split: option.splits)

end
