(* ===== verification/Upload_Machine.thy ===== *)
theory Upload_Machine
  imports Upload_Types
begin

text \<open>
  The upload state machine (\<open>uploader/src/machine/upload-machine.ts\<close>): the phases and the
  context as the code has them, \<open>transition\<close> with one equation per event. An event that does
  not apply returns the very same object in the code; here that is \<open>None\<close>, so that "ignored"
  and "a new object that happens to be equal" stay apart, as \<open>===\<close> keeps them apart.
  Then the automaton of the file's diagram, the invariant that ties the context to the phase,
  and what follows for whole runs.
\<close>

section \<open>State\<close>

record byte_range =
  br_start :: nat
  br_end :: nat

record upload_ctx =
  cx_hash :: "string option"
  cx_transactionId :: "string option"
  cx_mode :: "upload_mode option"
  cx_chunkSize :: "nat option"
  cx_maxConcurrentUploads :: "nat option"
  cx_ranges :: "byte_range list option"
  cx_hashedBytes :: nat
  cx_uploadedBytes :: nat

datatype upload_phase =
    Queued upload_step
  | Working upload_step
  | Paused upload_step
  | Failed upload_step upload_error
  | Cancelling
  | Cancelled
  | Done upload_result

record machine_state =
  ms_phase :: upload_phase
  ms_ctx :: upload_ctx

datatype initialized =
    InitWholeFile
  | InitChunked nat nat
  | InitVerify "byte_range list"

datatype upload_event =
    START
  | HASH_PROGRESS nat
  | HASHED string
  | INITIALIZED string initialized
  | UPLOAD_PROGRESS nat
  | UPLOADED
  | INCOMPLETE
  | COMPLETED upload_result
  | TRANSACTION_LOST
  | PAUSE
  | RESUME
  | FAIL upload_error "upload_step option"
  | RETRY
  | CANCEL
  | CANCELLED

fun status_of :: "upload_phase \<Rightarrow> upload_status" where
  "status_of (Queued _) = StQueued"
| "status_of (Working st) = StStep st"
| "status_of (Paused _) = StPaused"
| "status_of (Failed _ _) = StFailed"
| "status_of Cancelling = StCancelling"
| "status_of Cancelled = StCancelled"
| "status_of (Done _) = StDone"

fun isStep :: "upload_status \<Rightarrow> bool" where
  "isStep (StStep _) = True"
| "isStep _ = False"

definition emptyContext :: upload_ctx where
  "emptyContext =
    \<lparr>cx_hash = None, cx_transactionId = None, cx_mode = None, cx_chunkSize = None,
     cx_maxConcurrentUploads = None, cx_ranges = None, cx_hashedBytes = 0, cx_uploadedBytes = 0\<rparr>"

definition initialState :: machine_state where
  "initialState = \<lparr>ms_phase = Queued Hashing, ms_ctx = emptyContext\<rparr>"

fun contextFor :: "upload_step \<Rightarrow> upload_ctx \<Rightarrow> upload_ctx" where
  "contextFor Hashing ctx = emptyContext"
| "contextFor Initializing ctx =
    emptyContext\<lparr>cx_hash := cx_hash ctx, cx_hashedBytes := cx_hashedBytes ctx\<rparr>"
| "contextFor _ ctx = ctx"

section \<open>The transition function\<close>

definition mkState :: "upload_phase \<Rightarrow> upload_ctx \<Rightarrow> machine_state" where
  "mkState p c = \<lparr>ms_phase = p, ms_ctx = c\<rparr>"

fun initialize_ctx :: "upload_ctx \<Rightarrow> string \<Rightarrow> initialized \<Rightarrow> upload_step \<times> upload_ctx" where
  "initialize_ctx ctx t InitWholeFile =
    (Uploading, ctx\<lparr>cx_transactionId := Some t, cx_mode := Some WholeFile, cx_uploadedBytes := 0\<rparr>)"
| "initialize_ctx ctx t (InitChunked sz n) =
    (Uploading, ctx\<lparr>cx_transactionId := Some t, cx_mode := Some Chunked, cx_uploadedBytes := 0,
      cx_chunkSize := Some sz, cx_maxConcurrentUploads := Some n\<rparr>)"
| "initialize_ctx ctx t (InitVerify rs) =
    (Verifying, ctx\<lparr>cx_transactionId := Some t, cx_mode := Some Verify, cx_uploadedBytes := 0,
      cx_ranges := Some rs\<rparr>)"

definition sending :: "upload_phase \<Rightarrow> bool" where
  "sending p \<longleftrightarrow> p = Working Uploading \<or> p = Working Verifying \<or> p = Working Completing"

fun transition :: "machine_state \<Rightarrow> upload_event \<Rightarrow> machine_state option" where
  "transition s START =
    (case ms_phase s of Queued next \<Rightarrow> Some (mkState (Working next) (ms_ctx s)) | _ \<Rightarrow> None)"
| "transition s (HASH_PROGRESS n) =
    (if ms_phase s = Working Hashing
     then Some (mkState (ms_phase s) ((ms_ctx s)\<lparr>cx_hashedBytes := n\<rparr>)) else None)"
| "transition s (HASHED h) =
    (if ms_phase s = Working Hashing
     then Some (mkState (Working Initializing) ((ms_ctx s)\<lparr>cx_hash := Some h\<rparr>)) else None)"
| "transition s (INITIALIZED t i) =
    (if ms_phase s \<noteq> Working Initializing then None
     else let (st, ctx) = initialize_ctx (ms_ctx s) t i in Some (mkState (Working st) ctx))"
| "transition s (UPLOAD_PROGRESS n) =
    (if ms_phase s = Working Uploading
     then Some (mkState (ms_phase s) ((ms_ctx s)\<lparr>cx_uploadedBytes := n\<rparr>)) else None)"
| "transition s UPLOADED =
    (if ms_phase s = Working Uploading \<and> cx_mode (ms_ctx s) = Some Chunked
     then Some (mkState (Working Completing) (ms_ctx s)) else None)"
| "transition s INCOMPLETE =
    (if ms_phase s = Working Completing then Some (mkState (Working Uploading) (ms_ctx s)) else None)"
| "transition s (COMPLETED r) =
    (if sending (ms_phase s) then Some (mkState (Done r) (ms_ctx s)) else None)"
| "transition s TRANSACTION_LOST =
    (if sending (ms_phase s)
     then Some (mkState (Working Initializing) (contextFor Initializing (ms_ctx s))) else None)"
| "transition s PAUSE =
    (case ms_phase s of
      Queued next \<Rightarrow> Some (mkState (Paused next) (ms_ctx s))
    | Working st \<Rightarrow> Some (mkState (Paused st) (ms_ctx s))
    | _ \<Rightarrow> None)"
| "transition s RESUME =
    (case ms_phase s of Paused next \<Rightarrow> Some (mkState (Queued next) (ms_ctx s)) | _ \<Rightarrow> None)"
| "transition s (FAIL e next) =
    (case ms_phase s of
      Working st \<Rightarrow>
        Some (mkState (Failed (case next of None \<Rightarrow> st | Some n \<Rightarrow> n) e)
          (case next of None \<Rightarrow> ms_ctx s | Some n \<Rightarrow> contextFor n (ms_ctx s)))
    | _ \<Rightarrow> None)"
| "transition s RETRY =
    (case ms_phase s of Failed next _ \<Rightarrow> Some (mkState (Queued next) (ms_ctx s)) | _ \<Rightarrow> None)"
| "transition s CANCEL =
    (case ms_phase s of
      Done _ \<Rightarrow> None
    | Cancelled \<Rightarrow> None
    | Cancelling \<Rightarrow> None
    | _ \<Rightarrow>
        Some (if truthy (cx_transactionId (ms_ctx s))
          then mkState Cancelling (ms_ctx s) else mkState Cancelled (ms_ctx s)))"
| "transition s CANCELLED =
    (if ms_phase s = Cancelling then Some (mkState Cancelled (ms_ctx s)) else None)"

text \<open>The state after an event, whether it applied or not.\<close>

definition after :: "machine_state \<Rightarrow> upload_event \<Rightarrow> machine_state" where
  "after s e = (case transition s e of None \<Rightarrow> s | Some s' \<Rightarrow> s')"

lemma mkState_simps [simp]:
  "ms_phase (mkState p c) = p"
  "ms_ctx (mkState p c) = c"
  by (simp_all add: mkState_def)

lemma mkState_eq [simp]: "mkState (ms_phase s) (ms_ctx s) = s"
  by (simp add: mkState_def)

lemma mkState_inject [simp]: "mkState p c = mkState p' c' \<longleftrightarrow> p = p' \<and> c = c'"
  by (simp add: mkState_def)

lemma emptyContext_simps [simp]:
  "cx_hash emptyContext = None"
  "cx_transactionId emptyContext = None"
  "cx_mode emptyContext = None"
  "cx_hashedBytes emptyContext = 0"
  "cx_uploadedBytes emptyContext = 0"
  by (simp_all add: emptyContext_def)

lemma sending_simps [simp]:
  "sending (Working st) \<longleftrightarrow> st = Uploading \<or> st = Verifying \<or> st = Completing"
  "\<not> sending (Queued st)"
  "\<not> sending (Paused st)"
  "\<not> sending (Failed st e)"
  "\<not> sending Cancelling"
  "\<not> sending Cancelled"
  "\<not> sending (Done r)"
  by (auto simp: sending_def)

section \<open>The diagram of the file\<close>

text \<open>
  The edges the file's header draws, between statuses: each working step to the next one, and
  the edges for pausing, failing and cancelling. \<open>INCOMPLETE\<close> and \<open>TRANSACTION_LOST\<close> are the two
  backward edges between working steps.
\<close>

inductive edge :: "upload_status \<Rightarrow> upload_status \<Rightarrow> bool" where
  "edge StQueued (StStep st)"
| "edge (StStep Hashing) (StStep Hashing)"
| "edge (StStep Hashing) (StStep Initializing)"
| "edge (StStep Initializing) (StStep Uploading)"
| "edge (StStep Initializing) (StStep Verifying)"
| "edge (StStep Uploading) (StStep Uploading)"
| "edge (StStep Uploading) (StStep Completing)"
| "edge (StStep Completing) (StStep Uploading)"
| "st = Uploading \<or> st = Verifying \<or> st = Completing \<Longrightarrow> edge (StStep st) StDone"
| "st = Uploading \<or> st = Verifying \<or> st = Completing \<Longrightarrow> edge (StStep st) (StStep Initializing)"
| "edge StQueued StPaused"
| "edge (StStep st) StPaused"
| "edge StPaused StQueued"
| "edge (StStep st) StFailed"
| "edge StFailed StQueued"
| "\<not> isTerminal st \<Longrightarrow> st \<noteq> StCancelling \<Longrightarrow> edge st StCancelling"
| "\<not> isTerminal st \<Longrightarrow> edge st StCancelled"

inductive_simps edge_simps:
  "edge StDone st"
  "edge StCancelled st"
  "edge StCancelling st"
  "edge StFailed st"

inductive_cases edge_to_done: "edge st StDone"

lemma initialize_ctx_cases:
  assumes "initialize_ctx c t i = (st, c')"
  obtains "st = Uploading" | "st = Verifying"
  using assms by (cases i) auto

lemma edge_cancel:
  "edge StQueued StCancelling" "edge (StStep st) StCancelling"
  "edge StPaused StCancelling" "edge StFailed StCancelling"
  "edge StQueued StCancelled" "edge (StStep st) StCancelled"
  "edge StPaused StCancelled" "edge StFailed StCancelled" "edge StCancelling StCancelled"
  by (rule edge.intros; simp)+

lemma transition_edge:
  "transition s e = Some s' \<Longrightarrow> edge (status_of (ms_phase s)) (status_of (ms_phase s'))"
  by (cases e; cases "ms_phase s")
    (auto simp: sending_def split: if_splits prod.splits
      intro: edge.intros edge_cancel elim!: initialize_ctx_cases)

lemma done_only_from_sending:
  "edge st StDone \<Longrightarrow> \<exists>p. st = StStep p \<and> p \<noteq> Hashing \<and> p \<noteq> Initializing"
  by (erule edge_to_done) auto

section \<open>The invariant\<close>

text \<open>
  What the context holds for the step an upload is at, or continues with: nothing while
  hashing, the hash from then on, the transaction and what its mode needs once it was started.
\<close>

fun wf_at :: "upload_step \<Rightarrow> upload_ctx \<Rightarrow> bool" where
  "wf_at Hashing c \<longleftrightarrow> cx_hash c = None \<and> cx_transactionId c = None \<and> cx_mode c = None"
| "wf_at Initializing c \<longleftrightarrow> truthy (cx_hash c) \<and> cx_transactionId c = None \<and> cx_mode c = None"
| "wf_at Uploading c \<longleftrightarrow> truthy (cx_hash c) \<and> truthy (cx_transactionId c) \<and>
    (cx_mode c = Some WholeFile \<or>
     cx_mode c = Some Chunked \<and> cx_chunkSize c \<noteq> None \<and> cx_maxConcurrentUploads c \<noteq> None)"
| "wf_at Verifying c \<longleftrightarrow> truthy (cx_hash c) \<and> truthy (cx_transactionId c) \<and>
    cx_mode c = Some Verify \<and> cx_ranges c \<noteq> None"
| "wf_at Completing c \<longleftrightarrow> truthy (cx_hash c) \<and> truthy (cx_transactionId c) \<and>
    cx_mode c = Some Chunked \<and> cx_chunkSize c \<noteq> None \<and> cx_maxConcurrentUploads c \<noteq> None"

fun step_of :: "upload_phase \<Rightarrow> upload_step option" where
  "step_of (Queued st) = Some st"
| "step_of (Working st) = Some st"
| "step_of (Paused st) = Some st"
| "step_of (Failed st _) = Some st"
| "step_of _ = None"

definition machine_wf :: "machine_state \<Rightarrow> bool" where
  "machine_wf s \<longleftrightarrow>
    (case step_of (ms_phase s) of
      Some st \<Rightarrow> wf_at st (ms_ctx s)
    | None \<Rightarrow> ms_phase s = Cancelled \<or> truthy (cx_transactionId (ms_ctx s)))"

text \<open>
  The events the runner may report: a hash and a transaction id are not empty, a failure leads
  back to hashing, or to initializing once there is a hash, or stays at the step.
\<close>

fun event_ok :: "machine_state \<Rightarrow> upload_event \<Rightarrow> bool" where
  "event_ok s (HASHED h) = (h \<noteq> [])"
| "event_ok s (INITIALIZED t i) = (t \<noteq> [])"
| "event_ok s (FAIL e next) =
    (next = None \<or> next = Some Hashing \<or> next = Some Initializing \<and> truthy (cx_hash (ms_ctx s)))"
| "event_ok s _ = True"

lemma machine_wf_initial: "machine_wf initialState"
  by (simp add: machine_wf_def initialState_def)

lemma initialize_ctx_wf:
  "wf_at Initializing c \<Longrightarrow> t \<noteq> [] \<Longrightarrow> initialize_ctx c t i = (st, c') \<Longrightarrow> wf_at st c'"
  by (cases i) auto

lemma wf_at_transaction:
  "wf_at st c \<Longrightarrow> truthy (cx_transactionId c) \<longleftrightarrow> st = Uploading \<or> st = Verifying \<or> st = Completing"
  by (cases st) auto

lemma wf_at_hash: "wf_at st c \<Longrightarrow> st \<noteq> Hashing \<Longrightarrow> truthy (cx_hash c)"
  by (cases st) auto

lemma wf_at_lost: "wf_at st c \<Longrightarrow> st \<noteq> Hashing \<Longrightarrow> wf_at Initializing (contextFor Initializing c)"
  using wf_at_hash [of st c] by simp

lemma wf_at_progress [simp]:
  "wf_at st (c\<lparr>cx_hashedBytes := n\<rparr>) = wf_at st c"
  "wf_at st (c\<lparr>cx_uploadedBytes := n\<rparr>) = wf_at st c"
  by (cases st; simp)+

lemma machine_wf_fail:
  assumes "machine_wf s" and "event_ok s (FAIL e next)" and "transition s (FAIL e next) = Some s'"
  shows "machine_wf s'"
proof -
  obtain st where p: "ms_phase s = Working st"
    using assms(3) by (cases "ms_phase s") auto
  have wf: "wf_at st (ms_ctx s)" using assms(1) p by (simp add: machine_wf_def)
  show ?thesis
  proof (cases "next")
    case None
    then show ?thesis using assms(3) p wf by (auto simp: machine_wf_def)
  next
    case (Some n)
    have "n = Hashing \<or> n = Initializing \<and> truthy (cx_hash (ms_ctx s))"
      using assms(2) Some by auto
    moreover have "s' = mkState (Failed n e) (contextFor n (ms_ctx s))"
      using assms(3) p Some by simp
    ultimately show ?thesis by (auto simp: machine_wf_def)
  qed
qed

lemma machine_wf_initialized:
  assumes "machine_wf s" and "t \<noteq> []" and "transition s (INITIALIZED t i) = Some s'"
  shows "machine_wf s'"
proof -
  obtain st c where i: "initialize_ctx (ms_ctx s) t i = (st, c)" by fastforce
  have p: "ms_phase s = Working Initializing" and s': "s' = mkState (Working st) c"
    using assms(3) i by (auto split: if_splits)
  have "wf_at Initializing (ms_ctx s)" using assms(1) p by (simp add: machine_wf_def)
  then have "wf_at st c" using assms(2) i by (rule initialize_ctx_wf)
  then show ?thesis by (simp add: machine_wf_def s')
qed

lemma machine_wf_transition:
  assumes "machine_wf s" and "event_ok s e" and "transition s e = Some s'"
  shows "machine_wf s'"
proof (cases e)
  case (INITIALIZED t i)
  then show ?thesis using machine_wf_initialized assms by simp
next
  case (FAIL err n)
  then show ?thesis using machine_wf_fail assms by blast
qed (use assms in \<open>cases "ms_phase s";
      auto simp: machine_wf_def sending_def wf_at_transaction split: if_splits\<close>)+

lemma machine_wf_after: "machine_wf s \<Longrightarrow> event_ok s e \<Longrightarrow> machine_wf (after s e)"
  using machine_wf_transition by (auto simp: after_def split: option.splits)

interpretation upload: event_machine after event_ok machine_wf
  by unfold_locales (rule machine_wf_after)

section \<open>Runs\<close>

lemma after_terminal: "isTerminal (status_of (ms_phase s)) \<Longrightarrow> after s e = s"
  by (cases e; cases "ms_phase s") (auto simp: after_def)

lemma run_terminal: "isTerminal (status_of (ms_phase s)) \<Longrightarrow> foldl after s es = s"
  by (induction es) (simp_all add: after_terminal)

text \<open>The events that take an upload from a step to its end when nothing goes wrong.\<close>

fun finish_step :: "upload_result \<Rightarrow> upload_step \<Rightarrow> upload_event list" where
  "finish_step r Hashing = [HASHED ''h'', INITIALIZED ''t'' InitWholeFile, COMPLETED r]"
| "finish_step r Initializing = [INITIALIZED ''t'' InitWholeFile, COMPLETED r]"
| "finish_step r _ = [COMPLETED r]"

fun finish :: "upload_result \<Rightarrow> upload_phase \<Rightarrow> upload_event list" where
  "finish r (Queued st) = START # finish_step r st"
| "finish r (Working st) = finish_step r st"
| "finish r (Paused st) = RESUME # START # finish_step r st"
| "finish r (Failed st _) = RETRY # START # finish_step r st"
| "finish r _ = []"

lemma finish_step_run:
  assumes "ms_phase s = Working st"
  shows "admissible after event_ok s (finish_step r st) \<and>
    ms_phase (foldl after s (finish_step r st)) = Done r"
  using assms by (cases st) (simp_all add: after_def sending_def Let_def)

lemma finish_run:
  assumes "step_of (ms_phase s) = Some st"
  shows "admissible after event_ok s (finish r (ms_phase s)) \<and>
    ms_phase (foldl after s (finish r (ms_phase s))) = Done r"
proof (cases "ms_phase s")
  case (Queued st)
  then show ?thesis using finish_step_run [of "after s START" st] by (simp add: after_def)
next
  case (Working st)
  then show ?thesis using finish_step_run [of s st] by simp
next
  case (Paused st)
  then show ?thesis
    using finish_step_run [of "after (after s RESUME) START" st] by (simp add: after_def)
next
  case (Failed st e)
  then show ?thesis
    using finish_step_run [of "after (after s RETRY) START" st] by (simp add: after_def)
qed (use assms in auto)

section \<open>Properties\<close>

text \<open>
  C5: Whatever events the runner reports and the caller sends, starting from a new upload, the
  context always holds exactly what the current (or next) step needs: no hash or transaction
  while hashing, a hash and no transaction while initializing, a transaction with the data of
  its mode while sending, a transaction to drop while cancelling.
\<close>

theorem upload_context_fits_step:
  "admissible after event_ok initialState es \<Longrightarrow> machine_wf (foldl after initialState es)"
  by (rule upload.run_inv [OF machine_wf_initial])

theorem upload_context_fits_step_witness:
  "machine_wf (foldl after initialState
    [START, HASHED ''ab'', INITIALIZED ''t1'' (InitChunked 16 2), UPLOAD_PROGRESS 5, UPLOADED, INCOMPLETE, PAUSE])"
  by (rule upload_context_fits_step) (simp add: after_def initialState_def Let_def)



text \<open>
  From every upload that is neither finished nor being cancelled (queued, working, paused
  or failed, at whatever step), there are events the runner may report that bring it to done
  with the server's result: no such state is stuck.
\<close>

theorem upload_can_finish:
  assumes "\<not> isTerminal (status_of (ms_phase s))" and "ms_phase s \<noteq> Cancelling"
  shows "\<exists>es. admissible after event_ok s es \<and> ms_phase (foldl after s es) = Done r"
proof -
  obtain st where "step_of (ms_phase s) = Some st"
    using assms by (cases "ms_phase s") auto
  then show ?thesis using finish_run by blast
qed

theorem upload_can_finish_witness:
  "\<exists>es. admissible after event_ok initialState es \<and>
    ms_phase (foldl after initialState es) =
      Done \<lparr>ur_asset = \<lparr>ua_id = ''a'', ua_name = ''n'', ua_createdAt = ''c''\<rparr>, ur_mimeType = ''m''\<rparr>"
  by (rule upload_can_finish) (simp_all add: initialState_def)

text \<open>
  Pausing a working upload, resuming it and starting it again is back at the same step with
  the whole context kept, and cancelling it ends it: at once when the server holds nothing for
  it, through cancelling when there is a transaction to drop.
\<close>

theorem upload_pause_and_cancel:
  assumes "machine_wf s" and "ms_phase s = Working st"
  shows "foldl after s [PAUSE, RESUME, START] = s \<and>
    foldl after s [PAUSE, CANCEL, CANCELLED] = mkState Cancelled (ms_ctx s) \<and>
    ms_phase (after s CANCEL) = (if st = Hashing \<or> st = Initializing then Cancelled else Cancelling)"
proof -
  have "wf_at st (ms_ctx s)" using assms by (simp add: machine_wf_def)
  then show ?thesis
    using assms(2) by (cases st) (auto simp: after_def mkState_def)
qed

theorem upload_pause_and_cancel_witness:
  "foldl after (mkState (Working Hashing) emptyContext) [PAUSE, RESUME, START] =
    mkState (Working Hashing) emptyContext"
  using upload_pause_and_cancel [of "mkState (Working Hashing) emptyContext" Hashing]
  by (simp add: machine_wf_def)

end
