(* ===== verification/Upload_Retry.thy ===== *)
theory Upload_Retry
  imports Complex_Main Upload_Types
begin

text \<open>
  The retry policy of storage calls (\<open>uploader/src/worker/retry.ts\<close>): the backoff, the
  abortable wait, and the loop \<open>withRetry\<close>. What a try does and what happens around it is the
  environment's: for every attempt, the outcome of the task, whether the signal was aborted when
  it failed, and what ended the wait after it. The loop also returns how many times it called
  the task.
\<close>

record retry_policy =
  rp_attempts :: nat
  rp_baseDelayMs :: nat
  rp_maxDelayMs :: nat

definition DEFAULT_RETRY :: retry_policy where
  "DEFAULT_RETRY = \<lparr>rp_attempts = 8, rp_baseDelayMs = 500, rp_maxDelayMs = 15000\<rparr>"

text \<open>What comes first once the wait has begun: its timer, or the signal's abort.\<close>

datatype wake = TimerFired | AbortFired

definition sleep :: "bool \<Rightarrow> wake \<Rightarrow> js_error + unit" where
  "sleep aborted first =
    (if aborted then Inl abortError
     else (case first of TimerFired \<Rightarrow> Inr () | AbortFired \<Rightarrow> Inl abortError))"

text \<open>\<open>r\<close> is what \<open>Math.random()\<close> gives: from 0 up to, not including, 1.\<close>

definition backoffDelay :: "nat \<Rightarrow> retry_policy \<Rightarrow> real \<Rightarrow> real" where
  "backoffDelay attempt policy r =
    r * min (real (rp_maxDelayMs policy)) (real (rp_baseDelayMs policy) * 2 ^ attempt)"

record 'a attempt_env =
  at_task :: "js_error + 'a"
  at_aborted :: bool
  at_wake :: wake

function withRetry :: "retry_policy \<Rightarrow> (nat \<Rightarrow> 'a attempt_env) \<Rightarrow> nat \<Rightarrow> (js_error + 'a) \<times> nat" where
  "withRetry policy env attempt =
    (case at_task (env attempt) of
      Inr v \<Rightarrow> (Inr v, Suc attempt)
    | Inl e \<Rightarrow>
        if isAbort e \<or> at_aborted (env attempt) then (Inl e, Suc attempt)
        else if rp_attempts policy \<le> attempt + 1 \<or> \<not> ue_retryable (toUploadError e)
        then (Inl e, Suc attempt)
        else (case sleep (at_aborted (env attempt)) (at_wake (env attempt)) of
            Inl e' \<Rightarrow> (Inl e', Suc attempt)
          | Inr _ \<Rightarrow> withRetry policy env (attempt + 1)))"
  by pat_completeness auto
termination
  by (relation "measure (\<lambda>(policy, env, attempt). rp_attempts policy - attempt)") auto

declare withRetry.simps [simp del]

text \<open>An attempt the loop goes past: a retryable failure, not aborted before or in the wait.\<close>

definition passes :: "'a attempt_env \<Rightarrow> bool" where
  "passes a \<longleftrightarrow>
    (case at_task a of
      Inr _ \<Rightarrow> False
    | Inl e \<Rightarrow> \<not> isAbort e \<and> \<not> at_aborted a \<and> ue_retryable (toUploadError e) \<and> at_wake a = TimerFired)"

definition outcome_at :: "'a attempt_env \<Rightarrow> bool \<Rightarrow> js_error + 'a" where
  "outcome_at a final =
    (case at_task a of
      Inr v \<Rightarrow> Inr v
    | Inl e \<Rightarrow>
        if isAbort e \<or> at_aborted a \<or> final \<or> \<not> ue_retryable (toUploadError e) then Inl e
        else Inl abortError)"

lemma withRetry_unfold:
  "withRetry policy env k =
    (if passes (env k) \<and> k + 1 < rp_attempts policy then withRetry policy env (k + 1)
     else (outcome_at (env k) (rp_attempts policy \<le> k + 1), Suc k))"
  by (subst withRetry.simps)
    (auto simp: passes_def outcome_at_def sleep_def split: sum.splits wake.splits)

text \<open>The loop stops at the first attempt that does not pass, or at the last one allowed.\<close>

lemma withRetry_stops:
  assumes "\<forall>j. k \<le> j \<longrightarrow> j < n \<longrightarrow> passes (env j) \<and> j + 1 < rp_attempts policy" and "k \<le> n"
    and "\<not> (passes (env n) \<and> n + 1 < rp_attempts policy)"
  shows "withRetry policy env k = (outcome_at (env n) (rp_attempts policy \<le> n + 1), Suc n)"
  using assms
proof (induction "n - k" arbitrary: k)
  case 0
  then show ?case by (subst withRetry_unfold) auto
next
  case (Suc d)
  then have "passes (env k) \<and> k + 1 < rp_attempts policy" by auto
  then have "withRetry policy env k = withRetry policy env (Suc k)"
    by (subst withRetry_unfold) simp
  also have "\<dots> = (outcome_at (env n) (rp_attempts policy \<le> n + 1), Suc n)"
    using Suc by simp
  finally show ?case .
qed

lemma withRetry_calls: "snd (withRetry policy env k) \<le> max (Suc k) (rp_attempts policy)"
proof (induction policy env k rule: withRetry.induct)
  case (1 policy env k)
  show ?case
  proof (cases "passes (env k) \<and> k + 1 < rp_attempts policy")
    case True
    then obtain e where e: "at_task (env k) = Inl e" "\<not> isAbort e" "\<not> at_aborted (env k)"
      "ue_retryable (toUploadError e)" "at_wake (env k) = TimerFired"
      by (auto simp: passes_def split: sum.splits)
    have "snd (withRetry policy env (k + 1)) \<le> max (Suc (k + 1)) (rp_attempts policy)"
      using 1 [OF e(1), of "()"] e True by (simp add: sleep_def)
    then show ?thesis using True by (subst withRetry_unfold) auto
  next
    case False
    then show ?thesis by (subst withRetry_unfold) auto
  qed
qed

lemma withRetry_success:
  assumes "\<forall>j<n. passes (env j)" and "n < rp_attempts policy" and "at_task (env n) = Inr v"
  shows "withRetry policy env 0 = (Inr v, Suc n)"
proof -
  have "withRetry policy env 0 = (outcome_at (env n) (rp_attempts policy \<le> n + 1), Suc n)"
    by (rule withRetry_stops) (use assms in \<open>auto simp: passes_def\<close>)
  then show ?thesis using assms(3) by (simp add: outcome_at_def)
qed

lemma backoffDelay_bounds:
  assumes "0 \<le> r" and "r \<le> 1"
  shows "0 \<le> backoffDelay n p r \<and>
    backoffDelay n p r \<le> min (real (rp_maxDelayMs p)) (real (rp_baseDelayMs p) * 2 ^ n)"
proof -
  let ?m = "min (real (rp_maxDelayMs p)) (real (rp_baseDelayMs p) * 2 ^ n)"
  have "0 \<le> ?m" by simp
  then show ?thesis
    using assms mult_left_le_one_le [of ?m r] by (auto simp: backoffDelay_def intro: mult_nonneg_nonneg)
qed

section \<open>Properties\<close>

text \<open>
  C10: \<open>withRetry\<close> always ends, after at most \<open>attempts\<close> calls of the task (one when the policy
  allows none), and it returns the value of the first try that succeeds when every try before it
  failed in a way that is worth retrying and nothing was aborted.
\<close>

theorem withRetry_bounded_and_correct:
  "snd (withRetry policy env 0) \<le> max 1 (rp_attempts policy) \<and>
    (\<forall>n v. (\<forall>j<n. passes (env j)) \<and> n < rp_attempts policy \<and> at_task (env n) = Inr v \<longrightarrow>
      withRetry policy env 0 = (Inr v, Suc n))"
  using withRetry_calls [of policy env 0] withRetry_success [of _ env policy] by auto

theorem withRetry_bounded_and_correct_witness:
  "withRetry DEFAULT_RETRY
    (\<lambda>n. \<lparr>at_task = (if n < 2 then Inl (AxiosError None ''down'') else Inr (7::nat)),
          at_aborted = False, at_wake = TimerFired\<rparr>) 0 = (Inr 7, 3)"
proof -
  let ?env = "\<lambda>n::nat. \<lparr>at_task = (if n < 2 then Inl (AxiosError None ''down'') else Inr (7::nat)),
          at_aborted = False, at_wake = TimerFired\<rparr>"
  have "(\<forall>j<2. passes (?env j)) \<and> 2 < rp_attempts DEFAULT_RETRY \<and> at_task (?env 2) = Inr 7"
    by (simp add: passes_def isAbort_code retryable_iff DEFAULT_RETRY_def)
  then have "withRetry DEFAULT_RETRY ?env 0 = (Inr 7, Suc 2)"
    using withRetry_bounded_and_correct [of DEFAULT_RETRY ?env] by blast
  then show ?thesis by simp
qed

text \<open>
  An error that is not worth retrying, an abort, or the last allowed failure is rethrown as
  it is and the task is not called again.
\<close>

theorem withRetry_rethrows:
  assumes "\<forall>j<n. passes (env j)" and "n < rp_attempts policy" and "at_task (env n) = Inl e"
    and "isAbort e \<or> at_aborted (env n) \<or> \<not> ue_retryable (toUploadError e) \<or> n + 1 = rp_attempts policy"
  shows "withRetry policy env 0 = (Inl e, Suc n)"
proof -
  have "withRetry policy env 0 = (outcome_at (env n) (rp_attempts policy \<le> n + 1), Suc n)"
    by (rule withRetry_stops) (use assms in \<open>auto simp: passes_def\<close>)
  then show ?thesis using assms(3,4) by (auto simp: outcome_at_def)
qed

theorem withRetry_rethrows_witness:
  "withRetry DEFAULT_RETRY
    (\<lambda>n. \<lparr>at_task = Inl (PlainError ''x'') :: js_error + nat, at_aborted = False, at_wake = TimerFired\<rparr>) 0
    = (Inl (PlainError ''x''), Suc 0)"
  by (rule withRetry_rethrows) (simp_all add: DEFAULT_RETRY_def isAbort_code retryable_iff)

text \<open>
  With the default policy the waits between the eight tries add up to no more than 45.5
  seconds, whatever the jitter: inside the "about a minute" the code promises.
\<close>

theorem default_retry_total_wait:
  assumes "\<forall>k<7. 0 \<le> r k \<and> r k \<le> 1"
  shows "0 \<le> (\<Sum>k<7. backoffDelay k DEFAULT_RETRY (r k)) \<and>
    (\<Sum>k<7. backoffDelay k DEFAULT_RETRY (r k)) \<le> 45500"
proof -
  let ?m = "\<lambda>k::nat. min (15000::real) (500 * 2 ^ k)"
  have b: "0 \<le> backoffDelay k DEFAULT_RETRY (r k) \<and> backoffDelay k DEFAULT_RETRY (r k) \<le> ?m k"
    if "k < 7" for k
    using backoffDelay_bounds [of "r k" k DEFAULT_RETRY] assms that by (simp add: DEFAULT_RETRY_def)
  have "(\<Sum>k<7. backoffDelay k DEFAULT_RETRY (r k)) \<le> (\<Sum>k<7. ?m k)"
    by (rule sum_mono) (use b in auto)
  also have "\<dots> = 45500" by (simp add: eval_nat_numeral)
  finally show ?thesis using b by (auto intro!: sum_nonneg)
qed

theorem default_retry_total_wait_witness:
  "(\<Sum>k<7. backoffDelay k DEFAULT_RETRY 1) \<le> (45500::real)"
  using default_retry_total_wait [of "\<lambda>_. 1"] by simp

end
