(* ===== verification/File_Hashing.thy ===== *)
theory File_Hashing
  imports Upload_Types
begin

text \<open>
  Incremental hashing (\<open>uploader/src/hasher/file-hashing.ts\<close>). The hasher itself is compiled
  to Wasm and is a parameter: how it is created, fed and asked for the digest. So are the
  file's content and what the surroundings do: whether the signal is aborted at the head of the
  loop when the offset is \<open>o\<close>, and whether reading the slice at \<open>o\<close> fails. The loop is a
  \<^theory_text>\<open>partial_function\<close>: with a slice size of 0 it would never end, and \<open>None\<close> says so.
\<close>

type_synonym bytes = "nat list"

record 'h hasher_ops =
  ho_create :: 'h
  ho_update :: "bytes \<Rightarrow> 'h \<Rightarrow> 'h"
  ho_finalize :: "'h \<Rightarrow> string"

definition HASH_SLICE_BYTES :: nat where
  "HASH_SLICE_BYTES = 4 * 1024 * 1024"

text \<open>
  \<open>fh_created\<close> and \<open>fh_freed\<close> count the hashers created and freed: each holds memory of the
  Wasm module until it is freed.
\<close>

record 'h file_hashing =
  fh_hasher :: "'h option"
  fh_offset :: nat
  fh_created :: nat
  fh_freed :: nat

definition fh_new :: "'h file_hashing" where
  "fh_new = \<lparr>fh_hasher = None, fh_offset = 0, fh_created = 0, fh_freed = 0\<rparr>"

definition hashedBytes :: "'h file_hashing \<Rightarrow> nat" where
  "hashedBytes s = fh_offset s"

definition fh_dispose :: "'h file_hashing \<Rightarrow> 'h file_hashing" where
  "fh_dispose s =
    s\<lparr>fh_freed := (case fh_hasher s of None \<Rightarrow> fh_freed s | Some _ \<Rightarrow> Suc (fh_freed s)),
      fh_hasher := None, fh_offset := 0\<rparr>"

definition file_slice :: "nat \<Rightarrow> nat \<Rightarrow> bytes \<Rightarrow> bytes" where
  "file_slice from until content = drop from (take until content)"

record hash_env =
  he_aborted :: "nat \<Rightarrow> bool"
  he_read :: "nat \<Rightarrow> js_error option"

text \<open>How the loop ended: the error thrown, or none; the offset, the hasher, the progress reported.\<close>

partial_function (option) hash_loop ::
  "'h hasher_ops \<Rightarrow> nat \<Rightarrow> bytes \<Rightarrow> hash_env \<Rightarrow> nat \<Rightarrow> 'h \<Rightarrow> nat list \<Rightarrow>
    (js_error option \<times> nat \<times> 'h \<times> nat list) option" where
  "hash_loop ops sliceBytes content env off h progress =
    (if off < length content then
       (if he_aborted env off then Some (Some abortError, off, h, progress)
        else (case he_read env off of
          Some e \<Rightarrow> Some (Some e, off, h, progress)
        | None \<Rightarrow>
            hash_loop ops sliceBytes content env (min (off + sliceBytes) (length content))
              (ho_update ops (file_slice off (min (off + sliceBytes) (length content)) content) h)
              (progress @ [min (off + sliceBytes) (length content)])))
     else Some (None, off, h, progress))"

definition fh_run ::
  "'h hasher_ops \<Rightarrow> nat \<Rightarrow> bytes \<Rightarrow> hash_env \<Rightarrow> 'h file_hashing \<Rightarrow>
    ((js_error + string) \<times> 'h file_hashing \<times> nat list) option" where
  "fh_run ops sliceBytes content env s =
    (let h = (case fh_hasher s of None \<Rightarrow> ho_create ops | Some h \<Rightarrow> h);
         s1 = s\<lparr>fh_hasher := Some h,
           fh_created := (case fh_hasher s of None \<Rightarrow> Suc (fh_created s) | Some _ \<Rightarrow> fh_created s)\<rparr>
     in case hash_loop ops sliceBytes content env (fh_offset s) h [] of
       None \<Rightarrow> None
     | Some (Some e, off, h', progress) \<Rightarrow>
         Some (Inl e, s1\<lparr>fh_hasher := Some h', fh_offset := off\<rparr>, progress)
     | Some (None, off, h', progress) \<Rightarrow>
         Some (Inr (ho_finalize ops h'), fh_dispose (s1\<lparr>fh_hasher := Some h', fh_offset := off\<rparr>), progress))"

text \<open>
  The same upload paused and resumed: one run per environment, each continuing where the
  last one stopped, until one of them gives the hash.
\<close>

fun fh_runs ::
  "'h hasher_ops \<Rightarrow> nat \<Rightarrow> bytes \<Rightarrow> hash_env list \<Rightarrow> 'h file_hashing \<Rightarrow>
    (string option \<times> 'h file_hashing) option" where
  "fh_runs ops sliceBytes content [] s = Some (None, s)"
| "fh_runs ops sliceBytes content (env # envs) s =
    (case fh_run ops sliceBytes content env s of
      None \<Rightarrow> None
    | Some (Inr hash, s', _) \<Rightarrow> Some (Some hash, s')
    | Some (Inl _, s', _) \<Rightarrow> fh_runs ops sliceBytes content envs s')"

section \<open>The loop\<close>

text \<open>
  What the code relies on: a hasher fed in pieces is the hasher fed with their concatenation.
\<close>

definition incremental :: "'h hasher_ops \<Rightarrow> bool" where
  "incremental ops \<longleftrightarrow>
    (\<forall>xs ys h. ho_update ops ys (ho_update ops xs h) = ho_update ops (xs @ ys) h) \<and>
    (\<forall>h. ho_update ops [] h = h)"

definition whole_hash :: "'h hasher_ops \<Rightarrow> bytes \<Rightarrow> string" where
  "whole_hash ops content = ho_finalize ops (ho_update ops content (ho_create ops))"

text \<open>The hasher has absorbed exactly the bytes before the offset.\<close>

definition absorbed :: "'h hasher_ops \<Rightarrow> bytes \<Rightarrow> nat \<Rightarrow> 'h \<Rightarrow> bool" where
  "absorbed ops content off h \<longleftrightarrow>
    off \<le> length content \<and> h = ho_update ops (take off content) (ho_create ops)"

definition fh_wf :: "'h hasher_ops \<Rightarrow> bytes \<Rightarrow> 'h file_hashing \<Rightarrow> bool" where
  "fh_wf ops content s \<longleftrightarrow>
    (case fh_hasher s of
      None \<Rightarrow> fh_offset s = 0 \<and> fh_created s = fh_freed s
    | Some h \<Rightarrow> absorbed ops content (fh_offset s) h \<and> fh_created s = Suc (fh_freed s))"

lemma take_file_slice:
  "from \<le> until \<Longrightarrow> take from content @ file_slice from until content = take until content"
proof -
  assume "from \<le> until"
  then have "take from content = take from (take until content)" by (simp add: min_def)
  then show ?thesis unfolding file_slice_def by (metis append_take_drop_id)
qed

lemma absorbed_step:
  assumes "incremental ops" and "absorbed ops content off h" and "off \<le> e" and "e \<le> length content"
  shows "absorbed ops content e (ho_update ops (file_slice off e content) h)"
proof -
  have "ho_update ops (file_slice off e content) (ho_update ops (take off content) (ho_create ops))
      = ho_update ops (take off content @ file_slice off e content) (ho_create ops)"
    using assms(1) by (simp add: incremental_def)
  then show ?thesis using assms(2-4) by (simp add: absorbed_def take_file_slice)
qed

text \<open>
  The loop ends when slices are not empty; the offset only grows, the progress reported lies
  between the offsets, the hasher stays in step with it, and without an error the file is read.
\<close>

lemma hash_loop_total:
  assumes "incremental ops" and "0 < sliceBytes" and "absorbed ops content off h"
  shows "\<exists>err off' h' progress'.
    hash_loop ops sliceBytes content env off h progress = Some (err, off', h', progress @ progress') \<and>
    absorbed ops content off' h' \<and> off \<le> off' \<and>
    (err = None \<longrightarrow> off' = length content) \<and>
    sorted (off # progress') \<and>
    (err \<noteq> None \<longrightarrow> (\<exists>i. he_aborted env i \<or> he_read env i \<noteq> None))"
  using assms(3)
proof (induction "length content - off" arbitrary: off h progress rule: less_induct)
  case less
  let ?e = "min (off + sliceBytes) (length content)"
  let ?h = "ho_update ops (file_slice off ?e content) h"
  have off: "off \<le> length content" using less.prems by (simp add: absorbed_def)
  show ?case
  proof (cases "off < length content \<and> \<not> he_aborted env off \<and> he_read env off = None")
    case False
    then show ?thesis
      using off less.prems by (subst hash_loop.simps) (auto split: option.splits)
  next
    case True
    have e: "off < ?e" "?e \<le> length content" using True assms(2) by auto
    have "absorbed ops content ?e ?h"
      using assms(1) less.prems e by (intro absorbed_step) auto
    then obtain err off' h' progress' where
      r: "hash_loop ops sliceBytes content env ?e ?h (progress @ [?e]) =
          Some (err, off', h', (progress @ [?e]) @ progress')"
      and p: "absorbed ops content off' h'" "?e \<le> off'" "err = None \<longrightarrow> off' = length content"
        "sorted (?e # progress')" "err \<noteq> None \<longrightarrow> (\<exists>i. he_aborted env i \<or> he_read env i \<noteq> None)"
      using less.hyps [of ?e ?h "progress @ [?e]"] e diff_less_mono2 [of off ?e "length content"]
      by fastforce
    have "hash_loop ops sliceBytes content env off h progress =
        Some (err, off', h', progress @ (?e # progress'))"
      using True r by (subst hash_loop.simps) simp
    moreover have "sorted (off # ?e # progress')" using p(4) e(1) by auto
    ultimately show ?thesis using p e(1)
      by (intro exI [of _ err] exI [of _ off'] exI [of _ h'] exI [of _ "?e # progress'"]) auto
  qed
qed

lemma fh_wf_new: "fh_wf ops content fh_new"
  by (simp add: fh_wf_def fh_new_def)

lemma fh_wf_dispose: "fh_wf ops content s \<Longrightarrow> fh_wf ops content (fh_dispose s)"
  by (auto simp: fh_wf_def fh_dispose_def split: option.splits)

lemma fh_run_cases:
  assumes inc: "incremental ops" and sl: "0 < sliceBytes" and wf: "fh_wf ops content s"
  obtains
    (failed) e s' progress where "fh_run ops sliceBytes content env s = Some (Inl e, s', progress)"
      "fh_wf ops content s'" "fh_offset s \<le> fh_offset s'" "sorted progress"
      "\<exists>i. he_aborted env i \<or> he_read env i \<noteq> None"
  | (hashed) s' progress where
      "fh_run ops sliceBytes content env s = Some (Inr (whole_hash ops content), s', progress)"
      "fh_wf ops content s'" "fh_hasher s' = None" "sorted progress"
proof -
  define h where "h = (case fh_hasher s of None \<Rightarrow> ho_create ops | Some h \<Rightarrow> h)"
  have "absorbed ops content (fh_offset s) h"
    using wf inc by (auto simp: h_def fh_wf_def absorbed_def incremental_def split: option.splits)
  from hash_loop_total [OF inc sl this, of env "[]"] obtain err off' h' progress where
    r: "hash_loop ops sliceBytes content env (fh_offset s) h [] = Some (err, off', h', [] @ progress)"
    and p: "absorbed ops content off' h'" "fh_offset s \<le> off'" "err = None \<longrightarrow> off' = length content"
      "sorted (fh_offset s # progress)" "err \<noteq> None \<longrightarrow> (\<exists>i. he_aborted env i \<or> he_read env i \<noteq> None)"
    by blast
  define s1 where "s1 = s\<lparr>
      fh_created := (case fh_hasher s of None \<Rightarrow> Suc (fh_created s) | Some _ \<Rightarrow> fh_created s),
      fh_hasher := Some h', fh_offset := off'\<rparr>"
  have wf1: "fh_wf ops content s1"
    using wf p(1) by (auto simp: fh_wf_def s1_def split: option.splits)
  have run: "fh_run ops sliceBytes content env s =
      Some (case err of Some e \<Rightarrow> (Inl e, s1, progress)
        | None \<Rightarrow> (Inr (ho_finalize ops h'), fh_dispose s1, progress))"
    using r by (simp add: fh_run_def Let_def h_def [symmetric] s1_def split: option.splits)
  have sorted: "sorted progress" and grows: "fh_offset s \<le> fh_offset s1"
    using p(2,4) by (simp_all add: s1_def)
  show thesis
  proof (cases err)
    case (Some e)
    with run p(5) show thesis by (intro failed [OF _ wf1 grows sorted]) auto
  next
    case None
    then have "h' = ho_update ops content (ho_create ops)" using p by (simp add: absorbed_def)
    with run None have "fh_run ops sliceBytes content env s =
        Some (Inr (whole_hash ops content), fh_dispose s1, progress)"
      by (simp add: whole_hash_def)
    then show thesis
      using fh_wf_dispose [OF wf1] sorted by (intro hashed) (auto simp: fh_dispose_def)
  qed
qed

lemma fh_runs_wf:
  assumes "incremental ops" and "0 < sliceBytes" and "fh_wf ops content s"
  shows "\<exists>res s'. fh_runs ops sliceBytes content envs s = Some (res, s') \<and> fh_wf ops content s' \<and>
    (res = None \<or> res = Some (whole_hash ops content) \<and> fh_hasher s' = None) \<and>
    ((\<exists>env\<in>set envs. \<forall>i. \<not> he_aborted env i \<and> he_read env i = None) \<longrightarrow> res \<noteq> None)"
  using assms(3)
proof (induction envs arbitrary: s)
  case Nil
  then show ?case by simp
next
  case (Cons env envs)
  show ?case
    using assms(1,2) Cons.prems
  proof (cases rule: fh_run_cases [where env = env])
    case (failed e s' progress)
    then show ?thesis using Cons.IH [of s'] by fastforce
  next
    case (hashed s' progress)
    then show ?thesis by auto
  qed
qed

section \<open>Properties\<close>

text \<open>
  C11: Hashing a file in slices, stopped by aborts or failing reads any number of times and
  continued each time where it stopped, gives the hash of the whole file once a run gets
  through; it always ends, and after it the hasher is freed and none is leaked.
\<close>

theorem hashing_resumes:
  assumes "incremental ops" and "0 < sliceBytes"
    and "\<forall>i. \<not> he_aborted final i \<and> he_read final i = None"
  shows "\<exists>s'. fh_runs ops sliceBytes content (envs @ [final]) fh_new =
      Some (Some (whole_hash ops content), s') \<and>
    fh_hasher s' = None \<and> fh_offset s' = 0 \<and> fh_created s' = fh_freed s'"
proof -
  obtain res s' where r: "fh_runs ops sliceBytes content (envs @ [final]) fh_new = Some (res, s')"
    "fh_wf ops content s'" "res = None \<or> res = Some (whole_hash ops content) \<and> fh_hasher s' = None"
    "res \<noteq> None"
    using fh_runs_wf [OF assms(1,2) fh_wf_new, of content "envs @ [final]"] assms(3) by auto
  then show ?thesis by (auto simp: fh_wf_def split: option.splits)
qed

lemma whole_hash_witness:
  "whole_hash \<lparr>ho_create = [], ho_update = (\<lambda>xs h. h @ xs), ho_finalize = map (\<lambda>n. if n = 97 then CHR ''a'' else if n = 98 then CHR ''b'' else CHR ''c'')\<rparr> [97, 98, 99] = ''abc''"
  by (simp add: whole_hash_def)

theorem hashing_resumes_witness:
  "\<exists>s'. fh_runs \<lparr>ho_create = [], ho_update = (\<lambda>xs h. h @ xs), ho_finalize = map (\<lambda>n. if n = 97 then CHR ''a'' else if n = 98 then CHR ''b'' else CHR ''c'')\<rparr> 2
      [97, 98, 99] ([\<lparr>he_aborted = (\<lambda>i. i = 2), he_read = (\<lambda>_. None)\<rparr>] @
        [\<lparr>he_aborted = (\<lambda>_. False), he_read = (\<lambda>_. None)\<rparr>]) fh_new = Some (Some ''abc'', s') \<and>
    fh_hasher s' = None \<and> fh_offset s' = 0 \<and> fh_created s' = fh_freed s'"
  unfolding whole_hash_witness [symmetric]
  using hashing_resumes [of "\<lparr>ho_create = [], ho_update = (\<lambda>xs h. h @ xs), ho_finalize = map (\<lambda>n. if n = 97 then CHR ''a'' else if n = 98 then CHR ''b'' else CHR ''c'')\<rparr>" 2
      "\<lparr>he_aborted = (\<lambda>_. False), he_read = (\<lambda>_. None)\<rparr>" "[97, 98, 99]"
      "[\<lparr>he_aborted = (\<lambda>i. i = 2), he_read = (\<lambda>_. None)\<rparr>]"]
  by (simp del: fh_runs.simps append.simps add: incremental_def)

end
