(* ===== verification/Chunk_Upload.thy ===== *)
theory Chunk_Upload
  imports File_Hashing
begin

text \<open>
  Sending a file in chunks (\<open>uploadChunks\<close> of \<open>uploader/src/worker/upload-runner.ts\<close>): the
  chunks still missing are taken off a queue by a fixed number of lanes, each sending one chunk
  at a time; progress is what is confirmed plus what the requests in flight have loaded; the
  first chunk that fails stops the pool. The state is the queue, the indices in flight, the
  lanes that died, the \<open>inFlight\<close> map, and the progress reported so far. A lane runs until its
  next await, so taking its next index is part of the step that confirms the last one.
\<close>

section \<open>Chunks of a file\<close>

text \<open>\<open>Math.ceil(size / chunkSize)\<close>; the server never gives an empty chunk size.\<close>

definition chunk_count :: "nat \<Rightarrow> nat \<Rightarrow> nat" where
  "chunk_count fsize chunkSize = (fsize + (chunkSize - 1)) div chunkSize"

definition chunkLength :: "nat \<Rightarrow> nat \<Rightarrow> nat \<Rightarrow> int" where
  "chunkLength fsize chunkSize index = min (int chunkSize) (int fsize - int index * int chunkSize)"

text \<open>The bytes of a chunk and the \<open>Content-Range\<close> they are sent with (the end is exclusive).\<close>

definition chunk_bytes :: "bytes \<Rightarrow> nat \<Rightarrow> nat \<Rightarrow> bytes" where
  "chunk_bytes content chunkSize index =
    file_slice (index * chunkSize)
      (index * chunkSize + nat (chunkLength (length content) chunkSize index)) content"

definition content_range :: "bytes \<Rightarrow> nat \<Rightarrow> nat \<Rightarrow> nat \<times> nat \<times> nat" where
  "content_range content chunkSize index =
    (index * chunkSize, index * chunkSize + length (chunk_bytes content chunkSize index), length content)"

lemma chunk_count_Suc:
  assumes "0 < cs" and "i < chunk_count fsize cs"
  shows "i * cs < fsize"
proof (rule ccontr)
  assume "\<not> i * cs < fsize"
  then have "fsize + (cs - 1) < Suc i * cs" using assms(1) by simp
  then have "chunk_count fsize cs < Suc i"
    unfolding chunk_count_def using assms(1) by (simp add: less_mult_imp_div_less)
  then show False using assms(2) by simp
qed

lemma chunk_count_covers:
  assumes "0 < cs"
  shows "fsize \<le> chunk_count fsize cs * cs"
proof -
  have "fsize + (cs - 1) < (chunk_count fsize cs + 1) * cs"
    unfolding chunk_count_def using assms dividend_less_div_times [of cs "fsize + (cs - 1)"] by simp
  then show ?thesis using assms by (simp add: add_mult_distrib)
qed

lemma chunkLength_bounds:
  assumes "0 < cs" and "i < chunk_count fsize cs"
  shows "0 < chunkLength fsize cs i \<and> chunkLength fsize cs i \<le> int cs"
proof -
  have "int i * int cs < int fsize"
    using chunk_count_Suc [OF assms] by (metis of_nat_less_iff of_nat_mult)
  then show ?thesis using assms(1) by (simp add: chunkLength_def)
qed

text \<open>The chunks before an index end where it begins.\<close>

lemma chunkLength_prefix:
  assumes "0 < cs" and "n \<le> chunk_count fsize cs"
  shows "(\<Sum>i<n. chunkLength fsize cs i) = min (int fsize) (int n * int cs)"
  using assms(2)
proof (induction n)
  case 0
  then show ?case by simp
next
  case (Suc n)
  have "n * cs < fsize" using chunk_count_Suc [OF assms(1), of n fsize] Suc.prems by simp
  then have less: "int n * int cs < int fsize" by (metis of_nat_less_iff of_nat_mult)
  have "(\<Sum>i<Suc n. chunkLength fsize cs i) = int n * int cs + chunkLength fsize cs n"
    using Suc less by simp
  also have "\<dots> = min (int fsize) (int (Suc n) * int cs)"
    using less by (auto simp: chunkLength_def min_def algebra_simps)
  finally show ?case .
qed

lemma chunkLength_total:
  assumes "0 < cs"
  shows "(\<Sum>i<chunk_count fsize cs. chunkLength fsize cs i) = int fsize"
proof -
  have "int fsize \<le> int (chunk_count fsize cs) * int cs"
    using chunk_count_covers [OF assms, of fsize] by (metis of_nat_le_iff of_nat_mult)
  then show ?thesis using chunkLength_prefix [OF assms, of _ fsize] by simp
qed

lemma chunk_bytes_prefix:
  assumes "0 < cs" and "n \<le> chunk_count (length content) cs"
  shows "concat (map (chunk_bytes content cs) [0..<n]) = take (n * cs) content"
  using assms(2)
proof (induction n)
  case 0
  then show ?case by simp
next
  case (Suc n)
  let ?e = "n * cs + nat (chunkLength (length content) cs n)"
  have n: "n * cs < length content" using chunk_count_Suc [OF assms(1)] Suc.prems by simp
  have e: "?e = min (length content) (Suc n * cs)"
  proof (cases "Suc n * cs \<le> length content")
    case True
    then have "int (Suc n * cs) \<le> int (length content)" by (rule of_nat_mono)
    then have "chunkLength (length content) cs n = int cs"
      by (simp add: chunkLength_def algebra_simps)
    then show ?thesis using True by simp
  next
    case False
    then have "int (length content) < int (Suc n * cs)" by linarith
    then have len: "chunkLength (length content) cs n = int (length content - n * cs)"
      using n by (simp add: chunkLength_def of_nat_diff algebra_simps)
    show ?thesis unfolding len nat_int using False n by simp
  qed
  have "concat (map (chunk_bytes content cs) [0..<Suc n])
      = take (n * cs) content @ file_slice (n * cs) ?e content"
    using Suc by (simp add: chunk_bytes_def [of content cs n])
  also have "\<dots> = take ?e content" by (rule take_file_slice) simp
  also have "\<dots> = take (Suc n * cs) content" by (simp only: e) (simp add: min_def)
  finally show ?case .
qed

section \<open>The pool of lanes\<close>

record chunk_run =
  cu_size :: nat
  cu_chunkSize :: nat
  cu_queue :: "nat list"
  cu_sending :: "nat list"
  cu_failed :: "nat list"
  cu_confirmed :: int
  cu_inFlight :: "(nat, int) js_map"
  cu_error :: "js_error option"
  cu_reports :: "int list"

definition len_of :: "chunk_run \<Rightarrow> nat \<Rightarrow> int" where
  "len_of c = chunkLength (cu_size c) (cu_chunkSize c)"

definition uploaded_now :: "chunk_run \<Rightarrow> int" where
  "uploaded_now c = cu_confirmed c + sum_list (map snd (cu_inFlight c))"

definition report :: "chunk_run \<Rightarrow> chunk_run" where
  "report c = c\<lparr>cu_reports := cu_reports c @ [uploaded_now c]\<rparr>"

definition lane_count :: "nat \<Rightarrow> nat \<Rightarrow> nat" where
  "lane_count maxConcurrentUploads n = max 1 (min maxConcurrentUploads n)"

text \<open>All chunks of a fresh transaction; for a resumed one, those the server still misses.\<close>

definition fresh_missing :: "nat \<Rightarrow> nat \<Rightarrow> nat list" where
  "fresh_missing fsize chunkSize = [0..<chunk_count fsize chunkSize]"

definition start_chunks :: "nat \<Rightarrow> nat \<Rightarrow> nat \<Rightarrow> nat list \<Rightarrow> chunk_run" where
  "start_chunks fsize chunkSize maxConcurrentUploads missing =
    (let lanes = lane_count maxConcurrentUploads (length missing);
         c = \<lparr>cu_size = fsize, cu_chunkSize = chunkSize, cu_queue = missing, cu_sending = [],
           cu_failed = [],
           cu_confirmed = int fsize - sum_list (map (chunkLength fsize chunkSize) missing),
           cu_inFlight = [], cu_error = None, cu_reports = []\<rparr>
     in (report c)\<lparr>cu_sending := take lanes missing, cu_queue := drop lanes missing\<rparr>)"

datatype chunk_event =
    ChunkProgress nat int
  | ChunkSent nat
  | ChunkFailed nat js_error

text \<open>A lane takes its next index, or ends when the queue is empty.\<close>

definition lane_next :: "chunk_run \<Rightarrow> chunk_run" where
  "lane_next c =
    (case cu_queue c of
      [] \<Rightarrow> c
    | i # rest \<Rightarrow> c\<lparr>cu_queue := rest, cu_sending := cu_sending c @ [i]\<rparr>)"

fun chunk_step :: "chunk_run \<Rightarrow> chunk_event \<Rightarrow> chunk_run" where
  "chunk_step c (ChunkProgress i loaded) =
    (if i \<in> set (cu_sending c)
     then report (c\<lparr>cu_inFlight := js_set i loaded (cu_inFlight c)\<rparr>) else c)"
| "chunk_step c (ChunkSent i) =
    (if i \<in> set (cu_sending c)
     then lane_next (report (c\<lparr>cu_inFlight := js_del i (cu_inFlight c),
       cu_confirmed := cu_confirmed c + len_of c i,
       cu_sending := filter (\<lambda>j. j \<noteq> i) (cu_sending c)\<rparr>)) else c)"
| "chunk_step c (ChunkFailed i e) =
    (if i \<in> set (cu_sending c)
     then c\<lparr>cu_sending := filter (\<lambda>j. j \<noteq> i) (cu_sending c), cu_failed := cu_failed c @ [i],
       cu_error := (case cu_error c of None \<Rightarrow> Some e | Some e' \<Rightarrow> Some e')\<rparr> else c)"

text \<open>The requests report at most what they send.\<close>

fun chunk_event_ok :: "chunk_run \<Rightarrow> chunk_event \<Rightarrow> bool" where
  "chunk_event_ok c (ChunkProgress i loaded) = (0 \<le> loaded \<and> loaded \<le> len_of c i)"
| "chunk_event_ok c _ = True"

text \<open>\<open>Promise.all\<close>: rejected by the first failure, resolved when every lane has ended.\<close>

definition chunks_outcome :: "chunk_run \<Rightarrow> (js_error + unit) option" where
  "chunks_outcome c =
    (case cu_error c of
      Some e \<Rightarrow> Some (Inl e)
    | None \<Rightarrow> if cu_sending c = [] then Some (Inr ()) else None)"

section \<open>Conservation of bytes\<close>

definition left :: "chunk_run \<Rightarrow> nat list" where
  "left c = cu_sending c @ cu_failed c @ cu_queue c"

definition chunk_core :: "chunk_run \<Rightarrow> bool" where
  "chunk_core c \<longleftrightarrow>
    0 < cu_chunkSize c \<and>
    distinct (left c) \<and>
    set (left c) \<subseteq> {..<chunk_count (cu_size c) (cu_chunkSize c)} \<and>
    cu_confirmed c = int (cu_size c) - sum_list (map (len_of c) (left c)) \<and>
    distinct (js_keys (cu_inFlight c)) \<and>
    set (js_keys (cu_inFlight c)) \<subseteq> set (cu_sending c @ cu_failed c) \<and>
    (\<forall>(i, n)\<in>set (cu_inFlight c). 0 \<le> n \<and> n \<le> len_of c i) \<and>
    (\<forall>n\<in>set (cu_reports c). 0 \<le> n \<and> n \<le> int (cu_size c))"

text \<open>No lane is lost without an error, and lanes stay busy while there is something to send.\<close>

definition lanes_ok :: "nat \<Rightarrow> chunk_run \<Rightarrow> bool" where
  "lanes_ok lanes c \<longleftrightarrow>
    length (cu_sending c) \<le> lanes \<and>
    (cu_error c = None \<longrightarrow> cu_failed c = [] \<and> (cu_sending c = [] \<longrightarrow> cu_queue c = []))"

definition chunk_wf :: "nat \<Rightarrow> chunk_run \<Rightarrow> bool" where
  "chunk_wf lanes c \<longleftrightarrow> chunk_core c \<and> lanes_ok lanes c"

lemma sum_list_filter_out:
  fixes f :: "nat \<Rightarrow> int"
  shows "distinct xs \<Longrightarrow> i \<in> set xs \<Longrightarrow>
    sum_list (map f (filter (\<lambda>j. j \<noteq> i) xs)) = sum_list (map f xs) - f i"
proof (induction xs)
  case Nil
  then show ?case by simp
next
  case (Cons a xs)
  show ?case
  proof (cases "a = i")
    case True
    with Cons.prems have "filter (\<lambda>j. j \<noteq> i) xs = xs" by (auto simp: filter_id_conv)
    with True show ?thesis by simp
  next
    case False
    with Cons show ?thesis by simp
  qed
qed

lemma sum_inFlight_le:
  fixes f :: "nat \<Rightarrow> int"
  assumes "distinct (map fst m)" and "\<forall>(i, n)\<in>set m. 0 \<le> n \<and> n \<le> f i"
    and "set (map fst m) \<subseteq> S" and "finite S" and "\<forall>i\<in>S. 0 \<le> f i"
  shows "0 \<le> sum_list (map snd m) \<and> sum_list (map snd m) \<le> sum f S"
proof -
  have "sum_list (map snd m) \<le> sum_list (map (f \<circ> fst) m)"
    by (rule sum_list_mono) (use assms(2) in auto)
  also have "\<dots> = sum f (set (map fst m))"
    using assms(1) by (metis map_map sum_list_distinct_conv_sum_set)
  also have "\<dots> \<le> sum f S" by (rule sum_mono2) (use assms in auto)
  finally have "sum_list (map snd m) \<le> sum f S" .
  moreover have "0 \<le> sum_list (map snd m)" by (rule sum_list_nonneg) (use assms(2) in auto)
  ultimately show ?thesis by simp
qed

lemma sum_chunks_le_size:
  assumes "0 < cs" and "S \<subseteq> {..<chunk_count fsize cs}"
  shows "0 \<le> sum (chunkLength fsize cs) S \<and> sum (chunkLength fsize cs) S \<le> int fsize"
proof -
  have pos: "0 \<le> chunkLength fsize cs i" if "i < chunk_count fsize cs" for i
    using chunkLength_bounds [OF assms(1) that] by simp
  have "sum (chunkLength fsize cs) S \<le> sum (chunkLength fsize cs) {..<chunk_count fsize cs}"
    by (rule sum_mono2) (use assms pos in auto)
  then show ?thesis
    using chunkLength_total [OF assms(1), of fsize] assms(2) pos by (auto intro!: sum_nonneg)
qed

text \<open>What is reported stays between zero and the size of the file.\<close>

lemma uploaded_now_bounds:
  assumes "0 < cu_chunkSize c" and "distinct (left c)"
    and "set (left c) \<subseteq> {..<chunk_count (cu_size c) (cu_chunkSize c)}"
    and "cu_confirmed c = int (cu_size c) - sum_list (map (len_of c) (left c))"
    and "distinct (js_keys (cu_inFlight c))" and "set (js_keys (cu_inFlight c)) \<subseteq> set (left c)"
    and "\<forall>(i, n)\<in>set (cu_inFlight c). 0 \<le> n \<and> n \<le> len_of c i"
  shows "0 \<le> uploaded_now c \<and> uploaded_now c \<le> int (cu_size c)"
proof -
  have "\<forall>i\<in>set (left c). 0 \<le> len_of c i"
    using assms(1,3) chunkLength_bounds [OF assms(1), of _ "cu_size c"] by (fastforce simp: len_of_def)
  then have "0 \<le> sum_list (map snd (cu_inFlight c)) \<and>
      sum_list (map snd (cu_inFlight c)) \<le> sum (len_of c) (set (left c))"
    using assms(5-7) by (intro sum_inFlight_le) (auto simp: js_keys_def)
  moreover have "sum_list (map (len_of c) (left c)) = sum (len_of c) (set (left c))"
    using assms(2) by (rule sum_list_distinct_conv_sum_set)
  moreover have "sum (len_of c) (set (left c)) \<le> int (cu_size c)"
    using sum_chunks_le_size [OF assms(1,3)] by (simp add: len_of_def)
  ultimately show ?thesis using assms(4) by (simp add: uploaded_now_def)
qed

lemma chunk_core_report:
  assumes "chunk_core c"
  shows "chunk_core (report c)"
proof -
  have "0 \<le> uploaded_now c \<and> uploaded_now c \<le> int (cu_size c)"
    by (rule uploaded_now_bounds) (use assms in \<open>auto simp: chunk_core_def left_def\<close>)
  then show ?thesis
    using assms by (simp add: chunk_core_def report_def left_def len_of_def)
qed

lemma chunk_core_lane_next:
  assumes "chunk_core c"
  shows "chunk_core (lane_next c)"
proof (cases "cu_queue c")
  case Nil
  then show ?thesis using assms by (simp add: lane_next_def)
next
  case (Cons i rest)
  then show ?thesis
    using assms by (auto simp: chunk_core_def lane_next_def left_def len_of_def)
qed

lemma chunk_core_progress:
  assumes "chunk_core c" and "0 \<le> n" and "n \<le> len_of c i" and "i \<in> set (cu_sending c)"
  shows "chunk_core (c\<lparr>cu_inFlight := js_set i n (cu_inFlight c)\<rparr>)"
proof -
  have "\<forall>(i, n)\<in>set (js_set i n (cu_inFlight c)). 0 \<le> n \<and> n \<le> len_of c i"
    using set_js_set [of i n "cu_inFlight c"] assms by (auto simp: chunk_core_def)
  then show ?thesis
    using assms by (simp add: chunk_core_def left_def len_of_def js.distinct_put js.set_keys_put)
qed

text \<open>A request that left: its index goes from the lanes to \<open>failed\<close>, or its bytes are confirmed.\<close>

definition drop_sending :: "nat \<Rightarrow> chunk_run \<Rightarrow> chunk_run" where
  "drop_sending i c = c\<lparr>cu_sending := filter (\<lambda>j. j \<noteq> i) (cu_sending c)\<rparr>"

definition confirm :: "nat \<Rightarrow> chunk_run \<Rightarrow> chunk_run" where
  "confirm i c = c\<lparr>cu_inFlight := js_del i (cu_inFlight c),
    cu_confirmed := cu_confirmed c + len_of c i,
    cu_sending := filter (\<lambda>j. j \<noteq> i) (cu_sending c)\<rparr>"

lemma chunk_core_confirm:
  assumes "chunk_core c" and "i \<in> set (cu_sending c)"
  shows "chunk_core (confirm i c)"
proof -
  have d: "distinct (left c)" using assms(1) by (simp add: chunk_core_def)
  have l: "left (confirm i c) = filter (\<lambda>j. j \<noteq> i) (left c)"
  proof -
    have "filter (\<lambda>j. j \<noteq> i) (cu_failed c) = cu_failed c"
      using d assms(2) by (auto simp: left_def filter_id_conv)
    moreover have "filter (\<lambda>j. j \<noteq> i) (cu_queue c) = cu_queue c"
      using d assms(2) by (auto simp: left_def filter_id_conv)
    ultimately show ?thesis by (simp add: left_def confirm_def)
  qed
  have "sum_list (map (len_of c) (left (confirm i c))) =
      sum_list (map (len_of c) (left c)) - len_of c i"
    unfolding l by (rule sum_list_filter_out [OF d]) (use assms(2) in \<open>simp add: left_def\<close>)
  moreover have "len_of (confirm i c) = len_of c"
    by (simp add: len_of_def confirm_def fun_eq_iff)
  ultimately have "cu_confirmed (confirm i c) =
      int (cu_size c) - sum_list (map (len_of (confirm i c)) (left (confirm i c)))"
    using assms(1) by (simp add: chunk_core_def confirm_def)
  moreover have "\<forall>(j, n)\<in>set (js_del i (cu_inFlight c)). 0 \<le> n \<and> n \<le> len_of (confirm i c) j"
    using set_js_del [of i "cu_inFlight c"] assms(1) \<open>len_of (confirm i c) = len_of c\<close>
    by (auto simp: chunk_core_def)
  ultimately show ?thesis
    using assms(1) unfolding chunk_core_def l
    by (auto simp: confirm_def js.distinct_del js.set_keys_del)
qed

lemma chunk_core_fail:
  assumes "chunk_core c" and "i \<in> set (cu_sending c)"
  shows "chunk_core ((drop_sending i c)\<lparr>cu_failed := cu_failed c @ [i], cu_error := err\<rparr>)"
proof -
  let ?c = "(drop_sending i c)\<lparr>cu_failed := cu_failed c @ [i], cu_error := err\<rparr>"
  have d: "distinct (cu_sending c)" using assms(1) by (auto simp: chunk_core_def left_def)
  have "sum_list (map (len_of c) (left ?c)) = sum_list (map (len_of c) (left c))"
    using sum_list_filter_out [OF d assms(2), of "len_of c"] by (simp add: left_def drop_sending_def)
  moreover have "set (left ?c) = set (left c)" and "distinct (left ?c)"
    using assms by (auto simp: chunk_core_def left_def drop_sending_def)
  moreover have "len_of ?c = len_of c" by (simp add: len_of_def drop_sending_def fun_eq_iff)
  ultimately show ?thesis
    using assms unfolding chunk_core_def by (auto simp: drop_sending_def)
qed

lemma chunk_step_sent:
  "i \<in> set (cu_sending c) \<Longrightarrow> chunk_step c (ChunkSent i) = lane_next (report (confirm i c))"
  by (simp add: confirm_def)

lemma chunk_step_failed:
  "i \<in> set (cu_sending c) \<Longrightarrow> chunk_step c (ChunkFailed i e) =
    (drop_sending i c)\<lparr>cu_failed := cu_failed c @ [i],
      cu_error := (case cu_error c of None \<Rightarrow> Some e | Some e' \<Rightarrow> Some e')\<rparr>"
  by (simp add: drop_sending_def)

lemma chunk_core_step:
  assumes "chunk_core c" and "chunk_event_ok c e"
  shows "chunk_core (chunk_step c e)"
proof (cases e)
  case (ChunkProgress i n)
  then show ?thesis
    using assms by (auto intro: chunk_core_report chunk_core_progress)
next
  case (ChunkSent i)
  then show ?thesis
  proof (cases "i \<in> set (cu_sending c)")
    case True
    then show ?thesis unfolding ChunkSent chunk_step_sent [OF True]
      using assms(1) by (intro chunk_core_lane_next chunk_core_report chunk_core_confirm)
  qed (use assms ChunkSent in simp)
next
  case (ChunkFailed i err)
  then show ?thesis
  proof (cases "i \<in> set (cu_sending c)")
    case True
    then show ?thesis unfolding ChunkFailed chunk_step_failed [OF True]
      using assms(1) by (rule chunk_core_fail [rotated])
  qed (use assms ChunkFailed in simp)
qed

lemma lanes_ok_step:
  assumes "lanes_ok lanes c" and "distinct (cu_sending c)"
  shows "lanes_ok lanes (chunk_step c e)"
proof (cases e)
  case (ChunkProgress i n)
  then show ?thesis using assms(1) by (simp add: lanes_ok_def report_def)
next
  case (ChunkSent i)
  show ?thesis
  proof (cases "i \<in> set (cu_sending c)")
    case True
    then have "0 < length (cu_sending c)" by (cases "cu_sending c") auto
    then have "Suc (length (filter (\<lambda>j. j \<noteq> i) (cu_sending c))) \<le> lanes"
      using length_filter_neq [OF assms(2) True] assms(1) by (simp add: lanes_ok_def)
    then show ?thesis
      using assms(1) True ChunkSent
      by (cases "cu_queue c") (auto simp: lanes_ok_def lane_next_def report_def)
  qed (use assms ChunkSent in simp)
next
  case (ChunkFailed i err)
  have "length (filter (\<lambda>j. j \<noteq> i) (cu_sending c)) \<le> lanes"
    using assms(1) by (auto simp: lanes_ok_def intro: le_trans [OF length_filter_le])
  then show ?thesis
    using assms(1) ChunkFailed by (auto simp: lanes_ok_def split: option.splits)
qed

lemma chunk_wf_step: "chunk_wf lanes c \<Longrightarrow> chunk_event_ok c e \<Longrightarrow> chunk_wf lanes (chunk_step c e)"
proof -
  assume wf: "chunk_wf lanes c" and ok: "chunk_event_ok c e"
  then have "distinct (cu_sending c)" by (simp add: chunk_wf_def chunk_core_def left_def)
  then show ?thesis
    using wf ok lanes_ok_step [of lanes c e] chunk_core_step [of c e] unfolding chunk_wf_def by blast
qed

interpretation chunks: event_machine chunk_step chunk_event_ok "chunk_wf lanes" for lanes
  by unfold_locales (rule chunk_wf_step)

section \<open>From the start\<close>

lemma missing_wf_start:
  assumes "0 < cs" and "distinct missing" and "set missing \<subseteq> {..<chunk_count fsize cs}"
  shows "chunk_wf (lane_count lanes (length missing)) (start_chunks fsize cs lanes missing)"
proof -
  let ?c = "start_chunks fsize cs lanes missing"
  let ?l = "lane_count lanes (length missing)"
  have l: "0 < ?l" by (simp add: lane_count_def)
  have left: "left ?c = missing"
    by (simp add: start_chunks_def report_def left_def Let_def)
  have sum: "sum_list (map (chunkLength fsize cs) missing) = sum (chunkLength fsize cs) (set missing)"
    using assms(2) by (rule sum_list_distinct_conv_sum_set)
  then have b: "0 \<le> int fsize - sum_list (map (chunkLength fsize cs) missing) \<and>
      int fsize - sum_list (map (chunkLength fsize cs) missing) \<le> int fsize"
    using sum_chunks_le_size [OF assms(1,3)] by simp
  have len_of: "len_of ?c = chunkLength fsize cs"
    by (simp add: len_of_def start_chunks_def report_def Let_def fun_eq_iff)
  have "chunk_core ?c"
    unfolding chunk_core_def left len_of using assms b
    by (simp add: start_chunks_def report_def uploaded_now_def Let_def)
  moreover have "lanes_ok ?l ?c"
    using l by (auto simp: lanes_ok_def start_chunks_def report_def Let_def)
  ultimately show ?thesis by (simp add: chunk_wf_def)
qed

lemma start_chunks_size [simp]:
  "cu_size (start_chunks fsize cs lanes missing) = fsize"
  "cu_chunkSize (start_chunks fsize cs lanes missing) = cs"
  by (simp_all add: start_chunks_def report_def Let_def)

lemma chunk_step_size [simp]:
  "cu_size (chunk_step c e) = cu_size c" "cu_chunkSize (chunk_step c e) = cu_chunkSize c"
  by (cases e; simp add: report_def lane_next_def split: list.splits)+

lemma chunk_run_size [simp]:
  "cu_size (foldl chunk_step c es) = cu_size c" "cu_chunkSize (foldl chunk_step c es) = cu_chunkSize c"
  by (induction es arbitrary: c) simp_all

lemma fresh_missing_ok:
  "distinct (fresh_missing fsize cs)" "set (fresh_missing fsize cs) \<subseteq> {..<chunk_count fsize cs}"
  by (auto simp: fresh_missing_def)

lemma chunk_run_wf:
  assumes "0 < cs" and "distinct missing" and "set missing \<subseteq> {..<chunk_count fsize cs}"
    and "admissible chunk_step chunk_event_ok (start_chunks fsize cs lanes missing) es"
  shows "chunk_wf (lane_count lanes (length missing))
    (foldl chunk_step (start_chunks fsize cs lanes missing) es)"
  using chunks.run_inv [OF missing_wf_start [OF assms(1-3)] assms(4)] .

section \<open>Properties\<close>

text \<open>
  C12: The chunks of a fresh transaction are the file cut in order: put together they are its
  content, each has at least one and at most \<open>chunkSize\<close> bytes, and its \<open>Content-Range\<close> (with the
  exclusive end the server expects) starts at a multiple of the chunk size and ends inside the file.
\<close>

theorem chunks_reassemble:
  assumes "0 < cs"
  shows "concat (map (chunk_bytes content cs) (fresh_missing (length content) cs)) = content \<and>
    (\<forall>i\<in>set (fresh_missing (length content) cs).
      content_range content cs i =
        (i * cs, i * cs + nat (chunkLength (length content) cs i), length content) \<and>
      i * cs + nat (chunkLength (length content) cs i) \<le> length content \<and>
      0 < chunkLength (length content) cs i \<and> chunkLength (length content) cs i \<le> int cs)"
proof (intro conjI ballI)
  show "concat (map (chunk_bytes content cs) (fresh_missing (length content) cs)) = content"
    using chunk_bytes_prefix [OF assms, of _ content] chunk_count_covers [OF assms, of "length content"]
    by (simp add: fresh_missing_def)
next
  fix i
  assume "i \<in> set (fresh_missing (length content) cs)"
  then have i: "i < chunk_count (length content) cs" by (simp add: fresh_missing_def)
  show "0 < chunkLength (length content) cs i" and "chunkLength (length content) cs i \<le> int cs"
    using chunkLength_bounds [OF assms i] by simp_all
  have "i * cs < length content" using chunk_count_Suc [OF assms i] .
  then have "nat (chunkLength (length content) cs i) \<le> length content - i * cs"
    by (simp add: chunkLength_def nat_le_iff of_nat_diff)
  then show e: "i * cs + nat (chunkLength (length content) cs i) \<le> length content"
    using \<open>i * cs < length content\<close> by simp
  then show "content_range content cs i =
      (i * cs, i * cs + nat (chunkLength (length content) cs i), length content)"
    by (simp add: content_range_def chunk_bytes_def file_slice_def)
qed

theorem chunks_reassemble_witness:
  "concat (map (chunk_bytes [5, 6, 7, 8, 9] 2) (fresh_missing (length [5, 6, 7, 8, 9]) 2)) = [5, 6, 7, 8, 9]"
  using chunks_reassemble [of 2 "[5, 6, 7, 8, 9]"] by simp

text \<open>
  However the requests of the lanes interleave, from any set of missing chunks: every
  progress value reported lies between zero and the size of the file, what is confirmed is the
  file without the chunks still open, and at most \<open>maxConcurrentUploads\<close> (but at least one) lanes
  send at a time.
\<close>

theorem chunk_progress_conserved:
  assumes "0 < cs" and "distinct missing" and "set missing \<subseteq> {..<chunk_count fsize cs}"
    and "admissible chunk_step chunk_event_ok (start_chunks fsize cs lanes missing) es"
    and "c = foldl chunk_step (start_chunks fsize cs lanes missing) es"
  shows "(\<forall>n\<in>set (cu_reports c). 0 \<le> n \<and> n \<le> int fsize) \<and>
    cu_confirmed c = int fsize - sum_list (map (chunkLength fsize cs) (left c)) \<and>
    length (cu_sending c) \<le> lane_count lanes (length missing)"
proof -
  have "len_of c = chunkLength fsize cs" by (simp add: assms(5) len_of_def fun_eq_iff)
  moreover have "cu_size c = fsize" by (simp add: assms(5))
  moreover have "chunk_wf (lane_count lanes (length missing)) c"
    unfolding assms(5) using assms(1-4) by (rule chunk_run_wf)
  ultimately show ?thesis by (auto simp: chunk_wf_def chunk_core_def lanes_ok_def)
qed

theorem chunk_progress_conserved_witness:
  "cu_confirmed (foldl chunk_step (start_chunks 5 2 2 [0, 1, 2]) [ChunkProgress 1 1, ChunkSent 0]) = 2"
  using chunk_progress_conserved [of 2 "[0, 1, 2]" 5 2 "[ChunkProgress 1 1, ChunkSent 0]"
      "foldl chunk_step (start_chunks 5 2 2 [0, 1, 2]) [ChunkProgress 1 1, ChunkSent 0]"]
  by (simp add: chunk_count_def start_chunks_def report_def lane_next_def len_of_def lane_count_def left_def
      chunkLength_def Let_def)

text \<open>
  The pool of lanes never stops half way: as long as no chunk failed, something is being sent
  or everything is sent; and when it resolves, every byte of the file is confirmed.
\<close>

theorem chunks_resolve_complete:
  assumes "0 < cs" and "distinct missing" and "set missing \<subseteq> {..<chunk_count fsize cs}"
    and "admissible chunk_step chunk_event_ok (start_chunks fsize cs lanes missing) es"
    and "c = foldl chunk_step (start_chunks fsize cs lanes missing) es"
  shows "(chunks_outcome c = Some (Inr ()) \<longrightarrow>
      cu_confirmed c = int fsize \<and> left c = [] \<and> cu_inFlight c = []) \<and>
    (chunks_outcome c = None \<longrightarrow> cu_sending c \<noteq> [])"
proof -
  have size: "cu_size c = fsize" by (simp add: assms(5))
  have wf: "chunk_wf (lane_count lanes (length missing)) c"
    unfolding assms(5) using assms(1-4) by (rule chunk_run_wf)
  have "chunks_outcome c = Some (Inr ()) \<Longrightarrow> left c = []"
    using wf by (auto simp: chunks_outcome_def chunk_wf_def lanes_ok_def left_def split: option.splits if_splits)
  moreover have "left c = [] \<Longrightarrow> cu_confirmed c = int fsize \<and> cu_inFlight c = []"
    using wf size by (auto simp: chunk_wf_def chunk_core_def left_def js_keys_def)
  ultimately show ?thesis by (auto simp: chunks_outcome_def split: option.splits)
qed

theorem chunks_resolve_complete_witness:
  "cu_confirmed (foldl chunk_step (start_chunks 3 2 1 [0, 1]) [ChunkSent 0, ChunkSent 1]) = 3"
  using chunks_resolve_complete [of 2 "[0, 1]" 3 1 "[ChunkSent 0, ChunkSent 1]"
      "foldl chunk_step (start_chunks 3 2 1 [0, 1]) [ChunkSent 0, ChunkSent 1]"]
  by (simp add: chunk_count_def start_chunks_def report_def lane_next_def len_of_def lane_count_def
      chunkLength_def chunks_outcome_def Let_def)

end
