(* ===== verification/Upload_Runner.thy ===== *)
theory Upload_Runner
  imports Upload_Machine Upload_Retry Chunk_Upload
begin

text \<open>
  The runner of one upload (\<open>UploadRunner\<close> in \<open>uploader/src/worker/upload-runner.ts\<close>) as a machine
  driven by labels: what the host calls (start, pause, resume, retry, cancel, dispose) and what
  the surroundings answer to the step in flight (progress, responses, errors). Code between two
  awaits is one label. The active drive is the step its loop is in, with the signal of its
  controller and the await it is at; \<open>this.running\<close> chains the drives, so those waiting for the
  active one are a counter. Of \<open>FileHashing\<close> the runner needs only how far it got, and
  \<open>uploadChunks\<close> is the pool of \<open>Chunk_Upload\<close>.
\<close>

section \<open>One storage call\<close>

text \<open>
  \<open>call\<close>: a request answered with 401 invalidates the access token and is repeated once, and
  all that is what \<open>withRetry\<close> tries. The flag says whether the token was invalidated.
\<close>

record 'a request_env =
  re_first :: "js_error + 'a"
  re_second :: "js_error + 'a"
  re_aborted :: bool
  re_wake :: wake

definition authorised :: "'a request_env \<Rightarrow> (js_error + 'a) \<times> bool" where
  "authorised q =
    (case re_first q of
      Inr v \<Rightarrow> (Inr v, False)
    | Inl e \<Rightarrow> if getStatusCode e \<noteq> Some 401 then (Inl e, False) else (re_second q, True))"

definition call_env :: "(nat \<Rightarrow> 'a request_env) \<Rightarrow> nat \<Rightarrow> 'a attempt_env" where
  "call_env qs n =
    \<lparr>at_task = fst (authorised (qs n)), at_aborted = re_aborted (qs n), at_wake = re_wake (qs n)\<rparr>"

definition call :: "retry_policy \<Rightarrow> (nat \<Rightarrow> 'a request_env) \<Rightarrow> (js_error + 'a) \<times> nat" where
  "call policy qs = withRetry policy (call_env qs) 0"

definition requests_sent :: "(nat \<Rightarrow> 'a request_env) \<Rightarrow> nat \<Rightarrow> nat" where
  "requests_sent qs n = (\<Sum>k<n. if snd (authorised (qs k)) then 2 else 1)"

lemma requests_sent_le: "requests_sent qs n \<le> 2 * n"
  by (induction n) (simp_all add: requests_sent_def)

section \<open>The runner's state\<close>

text \<open>What the server answers: to the start of an upload, and to a question about its state.\<close>

datatype init_response =
    StartUploadWholeFile string
  | StartUploadChunked string nat nat
  | VerifyRanges string "byte_range list"

datatype status_response =
    CurrentComplete
  | CurrentChunked nat nat "nat list option"
  | CurrentOther

datatype work =
    AtHash
  | AtInit
  | AtWholeFile
  | AtStatus
  | AtChunks chunk_run
  | AtRanges "byte_range list"
  | AtVerify
  | AtComplete

record drive =
  dr_step :: upload_step
  dr_aborted :: bool
  dr_work :: work

text \<open>Where \<open>cancel\<close> is: waiting for the drives to unwind, or for the server to drop the transaction.\<close>

datatype cancelling = AwaitRunning "string option" | AwaitServer string

record runner =
  rn_id :: string
  rn_fileName :: string
  rn_size :: nat
  rn_state :: machine_state
  rn_hashed :: nat
  rn_token :: string
  rn_drive :: "drive option"
  rn_waiting :: nat
  rn_fresh :: bool
  rn_lost :: nat
  rn_cancel :: "cancelling option"
  rn_changes :: "upload_snapshot list"

definition MAX_LOST_TRANSACTIONS :: nat where
  "MAX_LOST_TRANSACTIONS = 2"

definition new_runner :: "string \<Rightarrow> string \<Rightarrow> nat \<Rightarrow> string \<Rightarrow> runner" where
  "new_runner rid name fsize tok =
    \<lparr>rn_id = rid, rn_fileName = name, rn_size = fsize, rn_state = initialState, rn_hashed = 0,
     rn_token = tok, rn_drive = None, rn_waiting = 0, rn_fresh = False, rn_lost = 0,
     rn_cancel = None, rn_changes = []\<rparr>"

definition rn_status :: "runner \<Rightarrow> upload_status" where
  "rn_status r = status_of (ms_phase (rn_state r))"

definition isWorking :: "runner \<Rightarrow> bool" where
  "isWorking r \<longleftrightarrow> isStep (rn_status r) \<or> rn_status r = StCancelling"

definition snapshot :: "runner \<Rightarrow> upload_snapshot" where
  "snapshot r =
    (let p = ms_phase (rn_state r); ctx = ms_ctx (rn_state r) in
     \<lparr>sn_id = rn_id r, sn_fileName = rn_fileName r, sn_size = rn_size r,
      sn_status = status_of p,
      sn_step = (case p of Queued n \<Rightarrow> Some n | Paused n \<Rightarrow> Some n | Failed n _ \<Rightarrow> Some n
        | Working st \<Rightarrow> Some st | _ \<Rightarrow> None),
      sn_mode = cx_mode ctx, sn_hashedBytes = cx_hashedBytes ctx,
      sn_uploadedBytes = (case p of Done _ \<Rightarrow> rn_size r | _ \<Rightarrow> cx_uploadedBytes ctx),
      sn_hash = cx_hash ctx,
      sn_error = (case p of Failed _ e \<Rightarrow> Some e | _ \<Rightarrow> None),
      sn_result = (case p of Done res \<Rightarrow> Some res | _ \<Rightarrow> None)\<rparr>)"

section \<open>Dispatching\<close>

definition applies :: "runner \<Rightarrow> upload_event \<Rightarrow> bool" where
  "applies r e \<longleftrightarrow> transition (rn_state r) e \<noteq> None"

definition dispatch :: "runner \<Rightarrow> upload_event \<Rightarrow> runner" where
  "dispatch r e =
    (case transition (rn_state r) e of
      None \<Rightarrow> r
    | Some s \<Rightarrow>
        (let r' = r\<lparr>rn_state := s\<rparr> in r'\<lparr>rn_changes := rn_changes r @ [snapshot r']\<rparr>))"

text \<open>\<open>emit\<close>: an event of a step whose signal was aborted is stale and dropped.\<close>

definition emit :: "drive \<Rightarrow> runner \<Rightarrow> upload_event \<Rightarrow> runner" where
  "emit d r e = (if dr_aborted d then r else dispatch r e)"

definition abort_controller :: "runner \<Rightarrow> runner" where
  "abort_controller r = r\<lparr>rn_drive := map_option (\<lambda>d. d\<lparr>dr_aborted := True\<rparr>) (rn_drive r)\<rparr>"

definition dispose_hashing :: "runner \<Rightarrow> runner" where
  "dispose_hashing r = r\<lparr>rn_hashed := 0\<rparr>"

text \<open>Decides where a failed step leads.\<close>

definition transactionLost :: "js_error \<Rightarrow> bool" where
  "transactionLost e \<longleftrightarrow>
    e = TransactionMismatch \<or> ue_code (toUploadError e) = ''NOT_FOUND'' \<or>
    ue_code (toUploadError e) = ''UPLOAD_WRONG_STEP''"

definition fail_step :: "runner \<Rightarrow> upload_step \<Rightarrow> js_error \<Rightarrow> runner" where
  "fail_step r st e =
    (let ue = toUploadError e in
     if transactionLost e \<and> st \<noteq> Initializing \<and> rn_lost r < MAX_LOST_TRANSACTIONS
     then dispatch (r\<lparr>rn_lost := Suc (rn_lost r)\<rparr>) TRANSACTION_LOST
     else if ue_code ue = ''FILE_HASH_MISMATCH'' \<or> ue_code ue = ''VERIFICATION_FAILED''
     then dispatch (dispose_hashing r) (FAIL ue (Some Hashing))
     else if ue_code ue = ''UPLOAD_TOKEN_INVALID'' then dispatch r (FAIL ue (Some Initializing))
     else dispatch r (FAIL ue None))"

section \<open>The drive loop\<close>

definition with_work :: "runner \<Rightarrow> upload_step \<Rightarrow> work \<Rightarrow> runner" where
  "with_work r st w = r\<lparr>rn_drive := Some \<lparr>dr_step = st, dr_aborted = False, dr_work = w\<rparr>\<rparr>"

text \<open>
  A step that throws before its first await (no hash, no transaction) fails at once; that error
  is the client's own, so the upload is \<open>failed\<close> and the loop is over.
\<close>

definition throw_at_start :: "runner \<Rightarrow> upload_step \<Rightarrow> string \<Rightarrow> runner" where
  "throw_at_start r st m = (fail_step r st (PlainError m))\<lparr>rn_drive := None\<rparr>"

text \<open>The chunks to send are known: the first progress is reported, the lanes start.\<close>

definition last_report :: "chunk_run \<Rightarrow> nat" where
  "last_report c = nat (last (cu_reports c))"

definition enter_chunks :: "runner \<Rightarrow> nat \<Rightarrow> nat \<Rightarrow> nat list \<Rightarrow> bool \<Rightarrow> runner" where
  "enter_chunks r chunkSize maxConcurrent missing aborted =
    (let c = start_chunks (rn_size r) chunkSize maxConcurrent missing;
         d = \<lparr>dr_step = Uploading, dr_aborted = aborted, dr_work = AtChunks c\<rparr>
     in emit d (r\<lparr>rn_fresh := False, rn_drive := Some d\<rparr>) (UPLOAD_PROGRESS (last_report c)))"

definition upload_chunks :: "runner \<Rightarrow> runner" where
  "upload_chunks r =
    (if rn_fresh r
     then (let cs = (case cx_chunkSize (ms_ctx (rn_state r)) of None \<Rightarrow> 0 | Some n \<Rightarrow> n);
               mc = (case cx_maxConcurrentUploads (ms_ctx (rn_state r)) of None \<Rightarrow> 1 | Some n \<Rightarrow> n)
           in enter_chunks r cs mc (fresh_missing (rn_size r) cs) False)
     else with_work r Uploading AtStatus)"

fun step_name :: "upload_step \<Rightarrow> string" where
  "step_name Hashing = ''hashing''"
| "step_name Initializing = ''initializing''"
| "step_name Uploading = ''uploading''"
| "step_name Verifying = ''verifying''"
| "step_name Completing = ''completing''"

definition begin_step :: "runner \<Rightarrow> upload_step \<Rightarrow> runner" where
  "begin_step r st =
    (let ctx = ms_ctx (rn_state r) in
     case st of
       Hashing \<Rightarrow> with_work r st AtHash
     | Initializing \<Rightarrow>
         if truthy (cx_hash ctx) then with_work r st AtInit
         else throw_at_start r st ''initializing without a hash''
     | _ \<Rightarrow>
         if \<not> truthy (cx_transactionId ctx) then throw_at_start r st (step_name st @ '' without a transaction'')
         else (case st of
             Uploading \<Rightarrow>
               if cx_mode ctx = Some Chunked then upload_chunks r else with_work r st AtWholeFile
           | Verifying \<Rightarrow>
               with_work r st (AtRanges (case cx_ranges ctx of None \<Rightarrow> [] | Some rs \<Rightarrow> rs))
           | _ \<Rightarrow> with_work r st AtComplete))"

definition loop :: "runner \<Rightarrow> runner" where
  "loop r = (case ms_phase (rn_state r) of Working st \<Rightarrow> begin_step r st | _ \<Rightarrow> r\<lparr>rn_drive := None\<rparr>)"

text \<open>The step rejected: after a pause or a cancel the drive returns, otherwise the step failed.\<close>

definition step_error :: "drive \<Rightarrow> runner \<Rightarrow> js_error \<Rightarrow> runner" where
  "step_error d r e =
    (if dr_aborted d \<or> isAbort e then r\<lparr>rn_drive := None\<rparr>
     else loop (fail_step r (dr_step d) e))"

section \<open>Labels\<close>

datatype label =
    Start
  | Pause
  | Resume
  | Retry "string option"
  | Cancel
  | Dispose
  | DriveNext
  | HashProgressed nat
  | Hashed string
  | Initialised init_response
  | FileProgressed nat
  | FileSent uploaded_asset string
  | StatusAnswered status_response
  | ChunkEvent chunk_event
  | ChunksSettled
  | RangesRead
  | Verified uploaded_asset string
  | Completed uploaded_asset string
  | StepRejected js_error
  | RunningSettled
  | ServerDropped

text \<open>\<open>toUploadResult\<close> of \<open>worker/storage.ts\<close>.\<close>

definition toUploadResult :: "uploaded_asset \<Rightarrow> string \<Rightarrow> upload_result" where
  "toUploadResult a mime =
    \<lparr>ur_asset = \<lparr>ua_id = ua_id a, ua_name = ua_name a, ua_createdAt = ua_createdAt a\<rparr>, ur_mimeType = mime\<rparr>"

fun initialized_event :: "init_response \<Rightarrow> upload_event" where
  "initialized_event (StartUploadWholeFile t) = INITIALIZED t InitWholeFile"
| "initialized_event (StartUploadChunked t cs n) = INITIALIZED t (InitChunked cs n)"
| "initialized_event (VerifyRanges t rs) = INITIALIZED t (InitVerify rs)"

text \<open>The commands of the host.\<close>

fun command :: "runner \<Rightarrow> label \<Rightarrow> runner" where
  "command r Start = (if applies r START then (dispatch r START)\<lparr>rn_waiting := Suc (rn_waiting r)\<rparr> else r)"
| "command r Pause = (if applies r PAUSE then abort_controller (dispatch r PAUSE) else r)"
| "command r Resume = dispatch r RESUME"
| "command r (Retry tok) =
    (if rn_status r \<noteq> StFailed then r
     else dispatch (r\<lparr>rn_token := (if truthy tok then the tok else rn_token r), rn_lost := 0\<rparr>) RETRY)"
| "command r Cancel =
    (if applies r CANCEL
     then (abort_controller (dispatch r CANCEL))\<lparr>
       rn_cancel := Some (AwaitRunning (cx_transactionId (ms_ctx (rn_state r))))\<rparr>
     else r)"
| "command r Dispose = dispose_hashing (abort_controller r)"
| "command r _ = r"

text \<open>The rest of \<open>cancel\<close> after its two awaits.\<close>

definition running_settled :: "runner \<Rightarrow> runner" where
  "running_settled r =
    (if rn_drive r \<noteq> None \<or> 0 < rn_waiting r then r
     else (case rn_cancel r of
         Some (AwaitRunning t) \<Rightarrow>
           (dispose_hashing r)\<lparr>rn_cancel :=
             (if rn_status r \<noteq> StCancelling \<or> \<not> truthy t then None else Some (AwaitServer (the t)))\<rparr>
       | _ \<Rightarrow> r))"

definition server_dropped :: "runner \<Rightarrow> runner" where
  "server_dropped r =
    (case rn_cancel r of
      Some (AwaitServer t) \<Rightarrow> (dispatch r CANCELLED)\<lparr>rn_cancel := None\<rparr>
    | _ \<Rightarrow> r)"

text \<open>
  What the step in flight does with an answer, one function per await; an answer to another
  await is not one. A rejection is the step's, except that \<open>complete\<close> catches one code.
\<close>

fun at_hash :: "drive \<Rightarrow> runner \<Rightarrow> label \<Rightarrow> runner" where
  "at_hash d r (HashProgressed n) = emit d (r\<lparr>rn_hashed := n\<rparr>) (HASH_PROGRESS n)"
| "at_hash d r (Hashed h) = loop (emit d (dispose_hashing r) (HASHED h))"
| "at_hash d r (StepRejected e) = step_error d r e"
| "at_hash d r _ = r"

fun at_init :: "drive \<Rightarrow> runner \<Rightarrow> label \<Rightarrow> runner" where
  "at_init d r (Initialised resp) = loop (emit d (r\<lparr>rn_fresh := True\<rparr>) (initialized_event resp))"
| "at_init d r (StepRejected e) = step_error d r e"
| "at_init d r _ = r"

fun at_whole_file :: "drive \<Rightarrow> runner \<Rightarrow> label \<Rightarrow> runner" where
  "at_whole_file d r (FileProgressed n) = emit d r (UPLOAD_PROGRESS n)"
| "at_whole_file d r (FileSent a m) = loop (emit d r (COMPLETED (toUploadResult a m)))"
| "at_whole_file d r (StepRejected e) = step_error d r e"
| "at_whole_file d r _ = r"

definition status_answered :: "drive \<Rightarrow> runner \<Rightarrow> status_response \<Rightarrow> runner" where
  "status_answered d r resp =
    (case resp of
      CurrentComplete \<Rightarrow> loop (emit d r UPLOADED)
    | CurrentOther \<Rightarrow> step_error d r TransactionMismatch
    | CurrentChunked cs mc missing \<Rightarrow>
        enter_chunks r cs mc (case missing of None \<Rightarrow> [] | Some m \<Rightarrow> m) (dr_aborted d))"

fun at_status :: "drive \<Rightarrow> runner \<Rightarrow> label \<Rightarrow> runner" where
  "at_status d r (StatusAnswered resp) = status_answered d r resp"
| "at_status d r (StepRejected e) = step_error d r e"
| "at_status d r _ = r"

definition chunk_event :: "drive \<Rightarrow> runner \<Rightarrow> chunk_run \<Rightarrow> chunk_event \<Rightarrow> runner" where
  "chunk_event d r c e =
    (let c' = chunk_step c e; r' = r\<lparr>rn_drive := Some (d\<lparr>dr_work := AtChunks c'\<rparr>)\<rparr> in
     if cu_reports c' \<noteq> cu_reports c then emit d r' (UPLOAD_PROGRESS (last_report c')) else r')"

definition chunks_settled :: "drive \<Rightarrow> runner \<Rightarrow> chunk_run \<Rightarrow> runner" where
  "chunks_settled d r c =
    (case chunks_outcome c of
      None \<Rightarrow> r
    | Some (Inl e) \<Rightarrow> step_error d r e
    | Some (Inr _) \<Rightarrow> loop (emit d r UPLOADED))"

fun at_chunks :: "drive \<Rightarrow> runner \<Rightarrow> chunk_run \<Rightarrow> label \<Rightarrow> runner" where
  "at_chunks d r c (ChunkEvent e) = chunk_event d r c e"
| "at_chunks d r c ChunksSettled = chunks_settled d r c"
| "at_chunks d r c _ = r"

fun at_ranges :: "drive \<Rightarrow> runner \<Rightarrow> label \<Rightarrow> runner" where
  "at_ranges d r RangesRead = r\<lparr>rn_drive := Some (d\<lparr>dr_work := AtVerify\<rparr>)\<rparr>"
| "at_ranges d r (StepRejected e) = step_error d r e"
| "at_ranges d r _ = r"

fun at_verify :: "drive \<Rightarrow> runner \<Rightarrow> label \<Rightarrow> runner" where
  "at_verify d r (Verified a m) = loop (emit d r (COMPLETED (toUploadResult a m)))"
| "at_verify d r (StepRejected e) = step_error d r e"
| "at_verify d r _ = r"

fun at_complete :: "drive \<Rightarrow> runner \<Rightarrow> label \<Rightarrow> runner" where
  "at_complete d r (Completed a m) = loop (emit d r (COMPLETED (toUploadResult a m)))"
| "at_complete d r (StepRejected e) =
    (if ue_code (toUploadError e) = ''UPLOAD_INCOMPLETE'' then loop (emit d r INCOMPLETE)
     else step_error d r e)"
| "at_complete d r _ = r"

definition answer :: "drive \<Rightarrow> runner \<Rightarrow> label \<Rightarrow> runner" where
  "answer d r l =
    (case dr_work d of
      AtHash \<Rightarrow> at_hash d r l
    | AtInit \<Rightarrow> at_init d r l
    | AtWholeFile \<Rightarrow> at_whole_file d r l
    | AtStatus \<Rightarrow> at_status d r l
    | AtChunks c \<Rightarrow> at_chunks d r c l
    | AtRanges _ \<Rightarrow> at_ranges d r l
    | AtVerify \<Rightarrow> at_verify d r l
    | AtComplete \<Rightarrow> at_complete d r l)"

definition drive_next :: "runner \<Rightarrow> runner" where
  "drive_next r =
    (if rn_drive r = None \<and> 0 < rn_waiting r then loop (r\<lparr>rn_waiting := rn_waiting r - 1\<rparr>) else r)"

fun is_command :: "label \<Rightarrow> bool" where
  "is_command Start = True"
| "is_command Pause = True"
| "is_command Resume = True"
| "is_command (Retry _) = True"
| "is_command Cancel = True"
| "is_command Dispose = True"
| "is_command _ = False"

definition runner_step :: "runner \<Rightarrow> label \<Rightarrow> runner" where
  "runner_step r l =
    (if is_command l then command r l
     else if l = DriveNext then drive_next r
     else if l = RunningSettled then running_settled r
     else if l = ServerDropped then server_dropped r
     else (case rn_drive r of None \<Rightarrow> r | Some d \<Rightarrow> answer d r l))"

section \<open>Invariant\<close>

lemma dispatch_state [simp]: "rn_state (dispatch r e) = after (rn_state r) e"
  by (simp add: dispatch_def after_def Let_def split: option.splits)

lemma dispatch_fields [simp]:
  "rn_id (dispatch r e) = rn_id r" "rn_fileName (dispatch r e) = rn_fileName r"
  "rn_size (dispatch r e) = rn_size r" "rn_hashed (dispatch r e) = rn_hashed r"
  "rn_token (dispatch r e) = rn_token r" "rn_drive (dispatch r e) = rn_drive r"
  "rn_waiting (dispatch r e) = rn_waiting r" "rn_fresh (dispatch r e) = rn_fresh r"
  "rn_lost (dispatch r e) = rn_lost r" "rn_cancel (dispatch r e) = rn_cancel r"
  by (simp_all add: dispatch_def Let_def split: option.splits)

text \<open>What holds between two steps, whatever the drive is doing.\<close>

definition snapshot_ok :: "upload_snapshot \<Rightarrow> bool" where
  "snapshot_ok s \<longleftrightarrow> sn_hashedBytes s \<le> sn_size s \<and> sn_uploadedBytes s \<le> sn_size s"

definition ctx_fits :: "nat \<Rightarrow> upload_ctx \<Rightarrow> bool" where
  "ctx_fits fsize c \<longleftrightarrow>
    cx_hashedBytes c \<le> fsize \<and> cx_uploadedBytes c \<le> fsize \<and>
    (\<forall>n. cx_chunkSize c = Some n \<longrightarrow> 0 < n)"

text \<open>A \<open>cancel\<close> that will tell the server, or is doing so.\<close>

fun cancel_pending :: "cancelling option \<Rightarrow> bool" where
  "cancel_pending None = False"
| "cancel_pending (Some (AwaitRunning t)) = truthy t"
| "cancel_pending (Some (AwaitServer t)) = True"

definition runner_core :: "runner \<Rightarrow> bool" where
  "runner_core r \<longleftrightarrow>
    machine_wf (rn_state r) \<and>
    ctx_fits (rn_size r) (ms_ctx (rn_state r)) \<and>
    rn_lost r \<le> MAX_LOST_TRANSACTIONS \<and>
    (ms_phase (rn_state r) = Cancelling \<longrightarrow> cancel_pending (rn_cancel r)) \<and>
    (\<forall>s\<in>set (rn_changes r). snapshot_ok s)"

fun work_fits :: "runner \<Rightarrow> upload_step \<Rightarrow> bool \<Rightarrow> work \<Rightarrow> bool" where
  "work_fits r st aborted AtHash = (st = Hashing)"
| "work_fits r st aborted AtInit = (st = Initializing)"
| "work_fits r st aborted AtWholeFile = (st = Uploading)"
| "work_fits r st aborted AtStatus =
    (st = Uploading \<and> (aborted \<or> cx_mode (ms_ctx (rn_state r)) = Some Chunked))"
| "work_fits r st aborted (AtChunks c) =
    (st = Uploading \<and> (aborted \<or> cx_mode (ms_ctx (rn_state r)) = Some Chunked) \<and>
     cu_size c = rn_size r \<and> chunk_core c \<and>
     (\<forall>e. cu_error c = Some e \<and> isAbort e \<longrightarrow> aborted))"
| "work_fits r st aborted (AtRanges rs) = (st = Verifying)"
| "work_fits r st aborted AtVerify = (st = Verifying)"
| "work_fits r st aborted AtComplete = (st = Completing)"

definition drive_ok :: "runner \<Rightarrow> drive \<Rightarrow> bool" where
  "drive_ok r d \<longleftrightarrow>
    work_fits r (dr_step d) (dr_aborted d) (dr_work d) \<and>
    (dr_aborted d \<or> ms_phase (rn_state r) = Working (dr_step d))"

definition live :: "runner \<Rightarrow> bool" where
  "live r \<longleftrightarrow> (\<exists>d. rn_drive r = Some d \<and> \<not> dr_aborted d)"

definition working :: "runner \<Rightarrow> bool" where
  "working r \<longleftrightarrow> (\<exists>st. ms_phase (rn_state r) = Working st)"

definition runner_wf :: "runner \<Rightarrow> bool" where
  "runner_wf r \<longleftrightarrow>
    runner_core r \<and>
    (\<forall>d. rn_drive r = Some d \<longrightarrow> drive_ok r d) \<and>
    (working r \<longrightarrow> live r \<or> 0 < rn_waiting r)"

text \<open>The answers of the surroundings: what the documented server and file give.\<close>

fun init_ok :: "init_response \<Rightarrow> bool" where
  "init_ok (StartUploadWholeFile t) = (t \<noteq> [])"
| "init_ok (StartUploadChunked t cs n) = (t \<noteq> [] \<and> 0 < cs)"
| "init_ok (VerifyRanges t rs) = (t \<noteq> [])"

fun status_ok :: "nat \<Rightarrow> status_response \<Rightarrow> bool" where
  "status_ok fsize (CurrentChunked cs n missing) =
    (0 < cs \<and> (\<forall>m. missing = Some m \<longrightarrow> distinct m \<and> set m \<subseteq> {..<chunk_count fsize cs}))"
| "status_ok fsize _ = True"

text \<open>An error that is an abort comes from a signal that was aborted.\<close>

fun chunk_answer_ok :: "drive \<Rightarrow> chunk_event \<Rightarrow> bool" where
  "chunk_answer_ok d (ChunkFailed i e) =
    (case dr_work d of
      AtChunks c \<Rightarrow> isAbort e \<longrightarrow> dr_aborted d \<or> cu_error c \<noteq> None
    | _ \<Rightarrow> True)"
| "chunk_answer_ok d e = (case dr_work d of AtChunks c \<Rightarrow> chunk_event_ok c e | _ \<Rightarrow> True)"

fun label_ok_for :: "runner \<Rightarrow> drive \<Rightarrow> label \<Rightarrow> bool" where
  "label_ok_for r d (HashProgressed n) = (n \<le> rn_size r)"
| "label_ok_for r d (Hashed h) = (h \<noteq> [])"
| "label_ok_for r d (Initialised resp) = init_ok resp"
| "label_ok_for r d (FileProgressed n) = (n \<le> rn_size r)"
| "label_ok_for r d (StatusAnswered resp) = status_ok (rn_size r) resp"
| "label_ok_for r d (ChunkEvent e) = chunk_answer_ok d e"
| "label_ok_for r d (StepRejected e) =
    ((isAbort e \<longrightarrow> dr_aborted d) \<and> (dr_work d = AtHash \<longrightarrow> \<not> isAxiosError e))"
| "label_ok_for r d _ = True"

text \<open>The host disposes an upload only after cancelling it.\<close>

definition label_ok :: "runner \<Rightarrow> label \<Rightarrow> bool" where
  "label_ok r l \<longleftrightarrow>
    (l = Dispose \<longrightarrow> \<not> working r) \<and> (\<forall>d. rn_drive r = Some d \<longrightarrow> label_ok_for r d l)"

lemma new_runner_wf: "runner_wf (new_runner rid name fsize tok)"
  by (simp add: runner_wf_def runner_core_def new_runner_def machine_wf_initial working_def)
    (simp add: initialState_def MAX_LOST_TRANSACTIONS_def ctx_fits_def emptyContext_def)

section \<open>What each operation keeps\<close>

fun event_fits :: "nat \<Rightarrow> upload_event \<Rightarrow> bool" where
  "event_fits fsize (HASH_PROGRESS n) = (n \<le> fsize)"
| "event_fits fsize (UPLOAD_PROGRESS n) = (n \<le> fsize)"
| "event_fits fsize (INITIALIZED t (InitChunked cs k)) = (0 < cs)"
| "event_fits fsize CANCEL = False"
| "event_fits fsize _ = True"

lemma ctx_fits_contextFor: "ctx_fits n c \<Longrightarrow> ctx_fits n (contextFor st c)"
  by (cases st) (auto simp: ctx_fits_def emptyContext_def)

lemma ctx_fits_init:
  "ctx_fits n c \<Longrightarrow> event_fits n (INITIALIZED t i) \<Longrightarrow> initialize_ctx c t i = (st, c') \<Longrightarrow> ctx_fits n c'"
  by (cases i) (auto simp: ctx_fits_def)

lemma ctx_fits_after:
  assumes "ctx_fits n (ms_ctx s)" and "event_fits n e \<or> e = CANCEL"
  shows "ctx_fits n (ms_ctx (after s e))"
proof (cases e)
  case (INITIALIZED t i)
  obtain st c where i: "initialize_ctx (ms_ctx s) t i = (st, c)" by fastforce
  then have "ctx_fits n c" using ctx_fits_init assms INITIALIZED by blast
  then show ?thesis using assms(1) INITIALIZED i by (simp add: after_def)
next
  case TRANSACTION_LOST
  then show ?thesis
    using assms ctx_fits_contextFor [of n "ms_ctx s" Initializing]
    by (simp add: after_def split: upload_phase.splits del: contextFor.simps)
next
  case (FAIL err nx)
  then show ?thesis
    using assms ctx_fits_contextFor
    by (auto simp: after_def split: upload_phase.splits option.splits)
qed (use assms in \<open>auto simp: after_def ctx_fits_def split: upload_phase.splits\<close>)

lemma after_cancelling: "e \<noteq> CANCEL \<Longrightarrow> ms_phase (after s e) = Cancelling \<Longrightarrow> ms_phase s = Cancelling"
  by (cases e; cases "ms_phase s")
    (auto simp: after_def split: if_splits prod.splits option.splits)

lemma snapshot_ok_snapshot: "ctx_fits (rn_size r) (ms_ctx (rn_state r)) \<Longrightarrow> snapshot_ok (snapshot r)"
  by (simp add: snapshot_ok_def snapshot_def ctx_fits_def Let_def split: upload_phase.splits)

lemma dispatch_changes:
  "set (rn_changes (dispatch r e)) \<subseteq>
    insert (snapshot (r\<lparr>rn_state := after (rn_state r) e\<rparr>)) (set (rn_changes r))"
  by (auto simp: dispatch_def after_def Let_def split: option.splits)

lemma runner_core_dispatch:
  assumes "runner_core r" and "event_ok (rn_state r) e" and "event_fits (rn_size r) e"
  shows "runner_core (dispatch r e)"
proof -
  have fits: "ctx_fits (rn_size r) (ms_ctx (after (rn_state r) e))"
    using assms by (simp add: runner_core_def ctx_fits_after)
  then have "snapshot_ok (snapshot (r\<lparr>rn_state := after (rn_state r) e\<rparr>))"
    by (simp add: snapshot_ok_snapshot)
  then have "\<forall>s\<in>set (rn_changes (dispatch r e)). snapshot_ok s"
    using dispatch_changes [of r e] assms(1) by (auto simp: runner_core_def)
  moreover have "e \<noteq> CANCEL" using assms(3) by auto
  then have "ms_phase (after (rn_state r) e) = Cancelling \<longrightarrow> ms_phase (rn_state r) = Cancelling"
    using after_cancelling by blast
  ultimately show ?thesis
    using assms(1,2) fits machine_wf_after [of "rn_state r" e] by (simp add: runner_core_def)
qed

lemma runner_core_fields [simp]:
  "runner_core (r\<lparr>rn_drive := d\<rparr>) = runner_core r"
  "runner_core (r\<lparr>rn_waiting := n\<rparr>) = runner_core r"
  "runner_core (r\<lparr>rn_fresh := b\<rparr>) = runner_core r"
  "runner_core (r\<lparr>rn_hashed := n\<rparr>) = runner_core r"
  "runner_core (r\<lparr>rn_token := tok\<rparr>) = runner_core r"
  by (simp_all add: runner_core_def)

lemma runner_core_lost: "runner_core r \<Longrightarrow> n \<le> MAX_LOST_TRANSACTIONS \<Longrightarrow> runner_core (r\<lparr>rn_lost := n\<rparr>)"
  by (simp add: runner_core_def)

lemma runner_core_helpers [simp]:
  "runner_core (abort_controller r) = runner_core r"
  "runner_core (dispose_hashing r) = runner_core r"
  by (simp_all add: abort_controller_def dispose_hashing_def)

lemma runner_core_emit:
  "runner_core r \<Longrightarrow> dr_aborted d \<or> event_ok (rn_state r) e \<Longrightarrow> dr_aborted d \<or> event_fits (rn_size r) e \<Longrightarrow>
    runner_core (emit d r e)"
  by (auto simp: emit_def runner_core_dispatch)

text \<open>A failed step leaves the invariant of the machine intact.\<close>

lemma runner_core_fail:
  assumes "runner_core r" and "ms_phase (rn_state r) = Working st"
    and "st = Hashing \<longrightarrow> \<not> isAxiosError e"
  shows "runner_core (fail_step r st e)"
proof -
  have wf: "wf_at st (ms_ctx (rn_state r))"
    using assms(1,2) by (simp add: runner_core_def machine_wf_def)
  have local: "ue_code (toUploadError e) \<noteq> ''UPLOAD_TOKEN_INVALID''" if "st = Hashing"
  proof -
    have "\<not> isAxiosError e" using assms(3) that by simp
    then have "getErrorBody e = None" using getErrorBody_axios by (cases "getErrorBody e") auto
    then show ?thesis using \<open>\<not> isAxiosError e\<close> by (simp add: toUploadError_def)
  qed
  show ?thesis
  proof (cases "ue_code (toUploadError e) = ''UPLOAD_TOKEN_INVALID''")
    case True
    with local have "st \<noteq> Hashing" by blast
    then have "truthy (cx_hash (ms_ctx (rn_state r)))" using wf wf_at_hash by blast
    then show ?thesis
      using assms(1) by (auto simp: fail_step_def Let_def runner_core_lost intro!: runner_core_dispatch)
  next
    case False
    then show ?thesis
      using assms(1) by (auto simp: fail_step_def Let_def runner_core_lost intro!: runner_core_dispatch)
  qed
qed

section \<open>The drive keeps going\<close>

lemma runner_wf_idle:
  "runner_core r \<Longrightarrow> \<not> working r \<Longrightarrow> runner_wf (r\<lparr>rn_drive := None\<rparr>)"
  by (simp add: runner_wf_def working_def)

lemma runner_wf_with_work:
  assumes "runner_core r" and "ms_phase (rn_state r) = Working st" and "work_fits r st False w"
  shows "runner_wf (with_work r st w)"
proof -
  have "work_fits (with_work r st w) st False w" using assms(3) by (cases w) (auto simp: with_work_def)
  then show ?thesis
    using assms(1,2) by (auto simp: runner_wf_def with_work_def drive_ok_def live_def)
qed

lemma last_report_bound:
  assumes "chunk_core c" and "cu_reports c \<noteq> []" and "cu_size c = n"
  shows "last_report c \<le> n"
proof -
  have "last (cu_reports c) \<in> set (cu_reports c)" using assms(2) by simp
  then show ?thesis using assms(1,3) by (auto simp: last_report_def chunk_core_def)
qed

lemma start_chunks_core:
  "0 < cs \<Longrightarrow> distinct m \<Longrightarrow> set m \<subseteq> {..<chunk_count fsize cs} \<Longrightarrow>
    chunk_core (start_chunks fsize cs lanes m)"
  using missing_wf_start by (simp add: chunk_wf_def)

lemma start_chunks_fields [simp]:
  "cu_error (start_chunks fsize cs lanes m) = None"
  "cu_reports (start_chunks fsize cs lanes m) \<noteq> []"
  by (simp_all add: start_chunks_def report_def Let_def)

text \<open>An event of a live drive that keeps the phase and the mode keeps the drive's invariant.\<close>

lemma drive_ok_cong:
  assumes "ms_phase (rn_state r') = ms_phase (rn_state r)"
    and "cx_mode (ms_ctx (rn_state r')) = cx_mode (ms_ctx (rn_state r))"
    and "rn_size r' = rn_size r"
  shows "drive_ok r' d = drive_ok r d"
  using assms by (cases "dr_work d") (simp_all add: drive_ok_def)

lemma progress_keeps [simp]:
  "ms_phase (after s (UPLOAD_PROGRESS n)) = ms_phase s"
  "ms_phase (after s (HASH_PROGRESS n)) = ms_phase s"
  "cx_mode (ms_ctx (after s (UPLOAD_PROGRESS n))) = cx_mode (ms_ctx s)"
  "cx_mode (ms_ctx (after s (HASH_PROGRESS n))) = cx_mode (ms_ctx s)"
  by (simp_all add: after_def)

lemma emit_fields [simp]:
  "rn_size (emit d r e) = rn_size r" "rn_drive (emit d r e) = rn_drive r"
  "rn_waiting (emit d r e) = rn_waiting r" "rn_lost (emit d r e) = rn_lost r"
  "rn_cancel (emit d r e) = rn_cancel r" "rn_hashed (emit d r e) = rn_hashed r"
  by (simp_all add: emit_def)

lemma emit_progress_phase [simp]:
  "ms_phase (rn_state (emit d r (UPLOAD_PROGRESS n))) = ms_phase (rn_state r)"
  "ms_phase (rn_state (emit d r (HASH_PROGRESS n))) = ms_phase (rn_state r)"
  "cx_mode (ms_ctx (rn_state (emit d r (UPLOAD_PROGRESS n)))) = cx_mode (ms_ctx (rn_state r))"
  "cx_mode (ms_ctx (rn_state (emit d r (HASH_PROGRESS n)))) = cx_mode (ms_ctx (rn_state r))"
  by (simp_all add: emit_def)

lemma working_cong: "ms_phase (rn_state r') = ms_phase (rn_state r) \<Longrightarrow> working r' = working r"
  by (simp add: working_def)

lemma runner_wf_emit_progress:
  assumes "runner_wf r" and "e = UPLOAD_PROGRESS n \<or> e = HASH_PROGRESS n" and "n \<le> rn_size r"
  shows "runner_wf (emit d r e)"
proof -
  have "runner_core (emit d r e)"
    using assms by (intro runner_core_emit) (auto simp: runner_wf_def)
  moreover have "drive_ok (emit d r e) d' = drive_ok r d'" for d'
    using assms(2) by (intro drive_ok_cong) auto
  moreover have "working (emit d r e) = working r" using assms(2) by (intro working_cong) auto
  moreover have "live (emit d r e) = live r" by (simp add: live_def)
  ultimately show ?thesis using assms(1) by (simp add: runner_wf_def)
qed

lemma runner_wf_enter_chunks:
  assumes "runner_core r" and "0 < cs" and "distinct m" and "set m \<subseteq> {..<chunk_count (rn_size r) cs}"
    and "aborted \<or> ms_phase (rn_state r) = Working Uploading \<and> cx_mode (ms_ctx (rn_state r)) = Some Chunked"
    and "aborted \<longrightarrow> working r \<longrightarrow> 0 < rn_waiting r"
  shows "runner_wf (enter_chunks r cs lanes m aborted)"
proof -
  let ?c = "start_chunks (rn_size r) cs lanes m"
  let ?d = "\<lparr>dr_step = Uploading, dr_aborted = aborted, dr_work = AtChunks ?c\<rparr>"
  let ?r = "r\<lparr>rn_fresh := False, rn_drive := Some ?d\<rparr>"
  have core: "chunk_core ?c" using assms(2-4) by (rule start_chunks_core)
  have "drive_ok ?r ?d" using assms(5) core by (auto simp: drive_ok_def)
  moreover have "working ?r = working r" by (simp add: working_def)
  moreover have "\<not> aborted \<longrightarrow> live ?r" by (simp add: live_def)
  ultimately have "runner_wf ?r" using assms(1,6) by (auto simp: runner_wf_def)
  then show ?thesis
    unfolding enter_chunks_def Let_def
    by (rule runner_wf_emit_progress) (use last_report_bound [OF core] in auto)
qed

lemma runner_wf_begin_step:
  assumes "runner_core r" and "ms_phase (rn_state r) = Working st"
  shows "runner_wf (begin_step r st)"
proof -
  let ?ctx = "ms_ctx (rn_state r)"
  have wf: "wf_at st ?ctx" using assms by (simp add: runner_core_def machine_wf_def)
  have t: "truthy (cx_transactionId ?ctx) \<longleftrightarrow> st = Uploading \<or> st = Verifying \<or> st = Completing"
    using wf by (rule wf_at_transaction)
  show ?thesis
  proof (cases "st = Uploading \<and> cx_mode ?ctx = Some Chunked")
    case False
    then show ?thesis
      using assms wf t
      by (cases st) (auto simp: begin_step_def Let_def intro!: runner_wf_with_work)
  next
    case True
    then obtain cs where cs: "cx_chunkSize ?ctx = Some cs" using wf by auto
    then have pos: "0 < cs" using assms(1) by (auto simp: runner_core_def ctx_fits_def)
    have "begin_step r st = upload_chunks r" using True t by (simp add: begin_step_def Let_def)
    moreover have "runner_wf (upload_chunks r)"
      using assms True cs pos
      by (auto simp: upload_chunks_def Let_def fresh_missing_ok(1)
          intro!: runner_wf_with_work runner_wf_enter_chunks dest: subsetD [OF fresh_missing_ok(2)])
    ultimately show ?thesis by simp
  qed
qed

lemma runner_wf_loop: "runner_core r \<Longrightarrow> runner_wf (loop r)"
  unfolding loop_def
  by (auto intro: runner_wf_begin_step runner_wf_idle simp: working_def split: upload_phase.splits)

lemma runner_wf_coreD: "runner_wf r \<Longrightarrow> runner_core r"
  by (simp add: runner_wf_def)

lemma runner_wf_step_error:
  assumes "runner_wf r" and "rn_drive r = Some d"
    and "isAbort e \<longrightarrow> dr_aborted d" and "dr_step d = Hashing \<longrightarrow> \<not> isAxiosError e"
  shows "runner_wf (step_error d r e)"
proof (cases "dr_aborted d")
  case True
  then have "working r \<longrightarrow> 0 < rn_waiting r" using assms(1,2) by (auto simp: runner_wf_def live_def)
  then show ?thesis using True assms(1) by (simp add: step_error_def runner_wf_def working_def)
next
  case False
  then have "ms_phase (rn_state r) = Working (dr_step d)"
    using assms(1,2) by (auto simp: runner_wf_def drive_ok_def)
  then have "runner_core (fail_step r (dr_step d) e)"
    using assms(1,4) by (intro runner_core_fail) (auto simp: runner_wf_def)
  then show ?thesis using False assms(3) by (simp add: step_error_def runner_wf_loop)
qed

text \<open>An answer after which the step is over.\<close>

lemma runner_wf_loop_emit:
  assumes "runner_wf r" and "rn_drive r = Some d"
    and "ms_phase (rn_state r) = Working (dr_step d) \<Longrightarrow> event_ok (rn_state r) e"
    and "event_fits (rn_size r) e"
  shows "runner_wf (loop (emit d r e))"
proof -
  have "dr_aborted d \<or> ms_phase (rn_state r) = Working (dr_step d)"
    using assms(1,2) by (auto simp: runner_wf_def drive_ok_def)
  then have "runner_core (emit d r e)"
    using assms by (intro runner_core_emit) (auto simp: runner_wf_def)
  then show ?thesis by (rule runner_wf_loop)
qed

lemma runner_wf_fields [simp]:
  "runner_wf (r\<lparr>rn_hashed := n\<rparr>) = runner_wf r"
  "runner_wf (r\<lparr>rn_fresh := b\<rparr>) = runner_wf r"
  "runner_wf (dispose_hashing r) = runner_wf r"
proof -
  have a: "runner_wf (r\<lparr>rn_hashed := n\<rparr>) = runner_wf r" for n
    using drive_ok_cong [of "r\<lparr>rn_hashed := n\<rparr>" r] by (simp add: runner_wf_def working_def live_def)
  then show "runner_wf (r\<lparr>rn_hashed := n\<rparr>) = runner_wf r" .
  show "runner_wf (r\<lparr>rn_fresh := b\<rparr>) = runner_wf r"
    using drive_ok_cong [of "r\<lparr>rn_fresh := b\<rparr>" r] by (simp add: runner_wf_def working_def live_def)
  show "runner_wf (dispose_hashing r) = runner_wf r" by (simp add: dispose_hashing_def a)
qed

lemma dispose_hashing_drive [simp]:
  "rn_drive (dispose_hashing r) = rn_drive r" "rn_state (dispose_hashing r) = rn_state r"
  "rn_size (dispose_hashing r) = rn_size r" "rn_waiting (dispose_hashing r) = rn_waiting r"
  "rn_cancel (dispose_hashing r) = rn_cancel r" "rn_lost (dispose_hashing r) = rn_lost r"
  by (simp_all add: dispose_hashing_def)

section \<open>Every label keeps the invariant\<close>

lemma runner_wf_keep_drive:
  assumes "runner_wf r" and "rn_drive r = Some d" and "work_fits r (dr_step d) (dr_aborted d) w"
  shows "runner_wf (r\<lparr>rn_drive := Some (d\<lparr>dr_work := w\<rparr>)\<rparr>)"
proof -
  let ?r = "r\<lparr>rn_drive := Some (d\<lparr>dr_work := w\<rparr>)\<rparr>"
  have "drive_ok ?r (d\<lparr>dr_work := w\<rparr>) = drive_ok r (d\<lparr>dr_work := w\<rparr>)" by (rule drive_ok_cong) simp_all
  then show ?thesis
    using assms by (auto simp: runner_wf_def drive_ok_def working_def live_def)
qed

lemma chunk_step_error:
  assumes "\<forall>e. cu_error c = Some e \<and> isAbort e \<longrightarrow> aborted"
    and "\<forall>i x. e = ChunkFailed i x \<and> isAbort x \<longrightarrow> aborted \<or> cu_error c \<noteq> None"
  shows "\<forall>e'. cu_error (chunk_step c e) = Some e' \<and> isAbort e' \<longrightarrow> aborted"
  using assms
  by (cases e) (auto simp: report_def lane_next_def split: list.splits if_splits option.splits)

lemma chunk_step_reports:
  "cu_reports (chunk_step c e) \<noteq> cu_reports c \<Longrightarrow> cu_reports (chunk_step c e) \<noteq> []"
  by (cases e) (auto simp: report_def lane_next_def split: list.splits if_splits)

lemma runner_wf_chunk_event:
  assumes wf: "runner_wf r" and d: "rn_drive r = Some d" and w: "dr_work d = AtChunks c"
    and ok: "chunk_answer_ok d e"
  shows "runner_wf (chunk_event d r c e)"
proof -
  let ?c = "chunk_step c e"
  have fits: "work_fits r (dr_step d) (dr_aborted d) (AtChunks c)"
    using wf d w by (auto simp: runner_wf_def drive_ok_def)
  have eok: "chunk_event_ok c e" using ok w by (cases e) auto
  then have core: "chunk_core ?c" using fits by (simp add: chunk_core_step)
  have err: "\<forall>e'. cu_error ?c = Some e' \<and> isAbort e' \<longrightarrow> dr_aborted d"
    using fits ok w by (intro chunk_step_error) auto
  have "runner_wf (r\<lparr>rn_drive := Some (d\<lparr>dr_work := AtChunks ?c\<rparr>)\<rparr>)"
    using wf d fits core err by (intro runner_wf_keep_drive) auto
  moreover have "cu_reports ?c \<noteq> cu_reports c \<Longrightarrow> last_report ?c \<le> rn_size r"
    using core chunk_step_reports [of c e] fits by (intro last_report_bound) auto
  ultimately show ?thesis
    by (auto simp: chunk_event_def Let_def intro: runner_wf_emit_progress)
qed

lemma runner_wf_answer:
  assumes wf: "runner_wf r" and d: "rn_drive r = Some d" and ok: "label_ok_for r d l"
  shows "runner_wf (answer d r l)"
proof -
  have fits: "work_fits r (dr_step d) (dr_aborted d) (dr_work d)"
    and at: "dr_aborted d \<or> ms_phase (rn_state r) = Working (dr_step d)"
    using wf d by (auto simp: runner_wf_def drive_ok_def)
  have err: "runner_wf (step_error d r e)" if "l = StepRejected e" for e
  proof (rule runner_wf_step_error [OF wf d])
    show "isAbort e \<longrightarrow> dr_aborted d" using ok that by simp
    have "dr_step d = Hashing \<Longrightarrow> dr_work d = AtHash" using fits by (cases "dr_work d") auto
    then show "dr_step d = Hashing \<longrightarrow> \<not> isAxiosError e" using ok that by simp
  qed
  have fin: "runner_wf (loop (emit d r e))" if "event_ok (rn_state r) e" "event_fits (rn_size r) e" for e
    using wf d that by (intro runner_wf_loop_emit) auto
  show ?thesis
  proof (cases "dr_work d")
    case AtHash
    then show ?thesis
      using wf d ok err
      by (cases l) (auto simp: answer_def intro!: runner_wf_emit_progress runner_wf_loop_emit)
  next
    case AtInit
    show ?thesis
    proof (cases "\<exists>resp. l = Initialised resp")
      case True
      then obtain resp where l: "l = Initialised resp" by blast
      then show ?thesis
        using wf d ok AtInit
        by (cases resp) (auto simp: answer_def intro!: runner_wf_loop_emit)
    next
      case False
      then show ?thesis using wf err AtInit by (cases l) (auto simp: answer_def)
    qed
  next
    case AtWholeFile
    then show ?thesis
      using wf ok err fin by (cases l) (auto simp: answer_def intro!: runner_wf_emit_progress)
  next
    case AtStatus
    show ?thesis
    proof (cases "\<exists>resp. l = StatusAnswered resp")
      case False
      then show ?thesis using wf err AtStatus by (cases l) (auto simp: answer_def)
    next
      case True
      then obtain resp where l: "l = StatusAnswered resp" by blast
      show ?thesis
      proof (cases resp)
        case CurrentComplete
        then show ?thesis using fin AtStatus l by (simp add: answer_def status_answered_def)
      next
        case CurrentOther
        have "runner_wf (step_error d r TransactionMismatch)"
          using wf d by (rule runner_wf_step_error) (simp_all add: isAbort_code)
        then show ?thesis using CurrentOther AtStatus l by (simp add: answer_def status_answered_def)
      next
        case (CurrentChunked cs mc missing)
        have "dr_aborted d \<longrightarrow> working r \<longrightarrow> 0 < rn_waiting r"
          using wf d by (auto simp: runner_wf_def live_def)
        then have "runner_wf (enter_chunks r cs mc (case missing of None \<Rightarrow> [] | Some m \<Rightarrow> m) (dr_aborted d))"
          using ok l CurrentChunked at fits AtStatus runner_wf_coreD [OF wf]
          by (intro runner_wf_enter_chunks) (auto split: option.splits)
        then show ?thesis using CurrentChunked AtStatus l by (simp add: answer_def status_answered_def)
      qed
    qed
  next
    case (AtChunks c)
    have "runner_wf (chunks_settled d r c)"
    proof (cases "chunks_outcome c")
      case (Some res)
      then show ?thesis
        using wf d fin fits AtChunks
        by (cases res) (auto simp: chunks_settled_def chunks_outcome_def split: option.splits if_splits
            intro!: runner_wf_step_error)
    qed (use wf in \<open>simp add: chunks_settled_def\<close>)
    then show ?thesis
      using wf d ok AtChunks
      by (cases l) (auto simp: answer_def intro: runner_wf_chunk_event)
  next
    case (AtRanges rs)
    then show ?thesis
      using wf d err fits by (cases l) (auto simp: answer_def intro!: runner_wf_keep_drive)
  next
    case AtVerify
    then show ?thesis using wf err fin by (cases l) (auto simp: answer_def)
  next
    case AtComplete
    then show ?thesis using wf err fin by (cases l) (auto simp: answer_def)
  qed
qed

lemma abort_controller_simps [simp]:
  "rn_state (abort_controller r) = rn_state r" "rn_size (abort_controller r) = rn_size r"
  "rn_waiting (abort_controller r) = rn_waiting r" "rn_cancel (abort_controller r) = rn_cancel r"
  "rn_lost (abort_controller r) = rn_lost r" "rn_changes (abort_controller r) = rn_changes r"
  "\<not> live (abort_controller r)"
  by (auto simp: abort_controller_def live_def)

lemma work_fits_aborted: "work_fits r st a w \<Longrightarrow> work_fits r' st True w" if "rn_size r' = rn_size r"
  using that by (cases w) auto

text \<open>Outside a working phase the drive, if there is one, was aborted; its invariant is then stable.\<close>

lemma drives_aborted:
  "\<forall>d. rn_drive r = Some d \<longrightarrow> drive_ok r d \<Longrightarrow> rn_size r' = rn_size r \<Longrightarrow>
    rn_drive (abort_controller r) = Some d' \<Longrightarrow> drive_ok r' d'"
  by (auto simp: abort_controller_def drive_ok_def intro: work_fits_aborted)

lemma not_working_aborted:
  "runner_wf r \<Longrightarrow> \<not> working r \<Longrightarrow> rn_drive r = Some d \<Longrightarrow> dr_aborted d"
  by (auto simp: runner_wf_def drive_ok_def working_def)

lemma drive_ok_aborted:
  "drive_ok r d \<Longrightarrow> dr_aborted d \<Longrightarrow> rn_size r' = rn_size r \<Longrightarrow> drive_ok r' d"
  using work_fits_aborted [of r' r "dr_step d" "dr_aborted d" "dr_work d"] by (simp add: drive_ok_def)

lemma runner_wf_idle_dispatch:
  assumes "runner_wf r" and "\<not> working r" and "runner_core r'" and "rn_size r' = rn_size r"
    and "rn_drive r' = rn_drive r" and "working r' \<longrightarrow> 0 < rn_waiting r'"
  shows "runner_wf r'"
proof -
  have "drive_ok r' d" if "rn_drive r = Some d" for d
  proof (rule drive_ok_aborted [of r])
    show "drive_ok r d" using assms(1) that by (simp add: runner_wf_def)
    show "dr_aborted d" using not_working_aborted [OF assms(1,2) that] .
  qed (rule assms(4))
  then have "\<forall>d. rn_drive r' = Some d \<longrightarrow> drive_ok r' d" unfolding assms(5) by blast
  then show ?thesis using assms(3,6) by (simp add: runner_wf_def)
qed

lemma runner_core_cancel:
  assumes "runner_core r" and "applies r CANCEL"
  shows "runner_core ((dispatch r CANCEL)\<lparr>
    rn_cancel := Some (AwaitRunning (cx_transactionId (ms_ctx (rn_state r))))\<rparr>)"
proof -
  have fits: "ctx_fits (rn_size r) (ms_ctx (after (rn_state r) CANCEL))"
    using assms(1) by (intro ctx_fits_after) (simp_all add: runner_core_def)
  then have "snapshot_ok (snapshot (r\<lparr>rn_state := after (rn_state r) CANCEL\<rparr>))"
    by (simp add: snapshot_ok_snapshot)
  then have "\<forall>s\<in>set (rn_changes (dispatch r CANCEL)). snapshot_ok s"
    using dispatch_changes [of r CANCEL] assms(1) by (auto simp: runner_core_def)
  moreover have "machine_wf (after (rn_state r) CANCEL)"
    using assms(1) by (intro machine_wf_after) (simp_all add: runner_core_def)
  moreover have "ms_phase (after (rn_state r) CANCEL) = Cancelling \<Longrightarrow>
      truthy (cx_transactionId (ms_ctx (rn_state r)))"
    using assms(2) by (auto simp: applies_def after_def split: upload_phase.splits if_splits)
  ultimately show ?thesis using assms(1) fits by (simp add: runner_core_def)
qed

lemma cancel_leaves_work: "applies r CANCEL \<Longrightarrow> \<not> working (dispatch r CANCEL)"
  by (auto simp: applies_def working_def after_def split: upload_phase.splits if_splits)

lemma runner_wf_command:
  assumes wf: "runner_wf r" and ok: "label_ok r l"
  shows "runner_wf (command r l)"
proof (cases l)
  case Start
  show ?thesis
  proof (cases "applies r START")
    case True
    have "\<not> working r"
      using True by (auto simp: applies_def working_def split: upload_phase.splits)
    moreover have "runner_core (dispatch r START)"
      using runner_wf_coreD [OF wf] by (rule runner_core_dispatch) simp_all
    ultimately have "runner_wf ((dispatch r START)\<lparr>rn_waiting := Suc (rn_waiting r)\<rparr>)"
      using wf by - (rule runner_wf_idle_dispatch [of r], simp_all)
    then show ?thesis using Start True by simp
  qed (use wf Start in simp)
next
  case Pause
  show ?thesis
  proof (cases "applies r PAUSE")
    case True
    let ?r = "dispatch r PAUSE"
    have "runner_core ?r" using wf by (intro runner_core_dispatch) (auto simp: runner_wf_def)
    moreover have "\<not> working ?r"
      using True by (auto simp: applies_def working_def after_def split: upload_phase.splits)
    moreover have "drive_ok (abort_controller ?r) d'" if "rn_drive (abort_controller ?r) = Some d'" for d'
      using wf that by - (rule drives_aborted [of r], auto simp: runner_wf_def abort_controller_def)
    ultimately show ?thesis
      using Pause True by (simp add: runner_wf_def working_def)
  qed (use wf Pause in simp)
next
  case Resume
  show ?thesis
  proof (cases "applies r RESUME")
    case True
    then have "\<not> working r" by (auto simp: applies_def working_def split: upload_phase.splits)
    moreover have "\<not> working (dispatch r RESUME)"
      using True by (auto simp: applies_def working_def after_def split: upload_phase.splits)
    moreover have "runner_core (dispatch r RESUME)"
      using runner_wf_coreD [OF wf] by (rule runner_core_dispatch) simp_all
    ultimately have "runner_wf (dispatch r RESUME)"
      using wf by - (rule runner_wf_idle_dispatch [of r], simp_all)
    then show ?thesis using Resume by simp
  qed (use wf Resume in \<open>simp add: applies_def dispatch_def\<close>)
next
  case (Retry tok)
  show ?thesis
  proof (cases "rn_status r = StFailed")
    case True
    then obtain st e where p: "ms_phase (rn_state r) = Failed st e"
      by (cases "ms_phase (rn_state r)") (auto simp: rn_status_def)
    let ?r = "r\<lparr>rn_token := (if truthy tok then the tok else rn_token r), rn_lost := 0\<rparr>"
    have "runner_core ?r" using wf by (simp add: runner_wf_def runner_core_lost)
    then have "runner_core (dispatch ?r RETRY)" by (rule runner_core_dispatch) simp_all
    moreover have "\<not> working r" using p by (simp add: working_def)
    moreover have "\<not> working (dispatch ?r RETRY)" using p by (simp add: working_def after_def)
    ultimately have "runner_wf (dispatch ?r RETRY)"
      using wf by - (rule runner_wf_idle_dispatch [of r], simp_all)
    then show ?thesis using Retry True by simp
  qed (use wf Retry in simp)
next
  case Cancel
  show ?thesis
  proof (cases "applies r CANCEL")
    case True
    let ?r = "(dispatch r CANCEL)\<lparr>
      rn_cancel := Some (AwaitRunning (cx_transactionId (ms_ctx (rn_state r))))\<rparr>"
    have eq: "command r Cancel = abort_controller ?r"
      using True by (simp add: abort_controller_def)
    have "runner_core ?r" using wf True by (intro runner_core_cancel) (simp_all add: runner_wf_def)
    moreover have "\<not> working ?r" using cancel_leaves_work [OF True] by (simp add: working_def)
    moreover have "drive_ok (abort_controller ?r) d'" if "rn_drive (abort_controller ?r) = Some d'" for d'
      using wf that by - (rule drives_aborted [of r], auto simp: runner_wf_def abort_controller_def)
    ultimately have "runner_wf (abort_controller ?r)" by (simp add: runner_wf_def working_def)
    then show ?thesis using Cancel eq by simp
  qed (use wf Cancel in simp)
next
  case Dispose
  have "\<not> working r" using ok Dispose by (simp add: label_ok_def)
  moreover have "drive_ok (abort_controller r) d'" if "rn_drive (abort_controller r) = Some d'" for d'
    using wf that by - (rule drives_aborted [of r], auto simp: runner_wf_def)
  ultimately have "runner_wf (abort_controller r)"
    using wf by (simp add: runner_wf_def working_def)
  then show ?thesis using Dispose by simp
qed (use wf in simp_all)

lemma runner_wf_running_settled: "runner_wf r \<Longrightarrow> runner_wf (running_settled r)"
proof -
  assume wf: "runner_wf r"
  have drive: "drive_ok (r\<lparr>rn_hashed := n, rn_cancel := c\<rparr>) d = drive_ok r d" for n c d
    by (rule drive_ok_cong) simp_all
  show ?thesis
  proof (cases "rn_drive r = None \<and> rn_waiting r = 0 \<and> (\<exists>t. rn_cancel r = Some (AwaitRunning t))")
    case False
    then show ?thesis using wf
      by (auto simp: running_settled_def split: option.splits cancelling.splits)
  next
    case True
    then obtain t where t: "rn_cancel r = Some (AwaitRunning t)" by blast
    have "ms_phase (rn_state r) = Cancelling \<Longrightarrow> truthy t"
      using wf t by (simp add: runner_wf_def runner_core_def)
    moreover have "rn_status r \<noteq> StCancelling \<Longrightarrow> ms_phase (rn_state r) \<noteq> Cancelling"
      by (auto simp: rn_status_def)
    ultimately show ?thesis
      using True t wf drive
      by (auto simp: running_settled_def runner_wf_def runner_core_def dispose_hashing_def working_def live_def)
  qed
qed

lemma runner_wf_server_dropped: "runner_wf r \<Longrightarrow> runner_wf (server_dropped r)"
proof -
  assume wf: "runner_wf r"
  have core: "runner_core (dispatch r CANCELLED)"
    using runner_wf_coreD [OF wf] by (rule runner_core_dispatch) simp_all
  have not: "ms_phase (after (rn_state r) CANCELLED) \<noteq> Cancelling" by (auto simp: after_def)
  then have "runner_core ((dispatch r CANCELLED)\<lparr>rn_cancel := None\<rparr>)"
    using core by (simp add: runner_core_def)
  moreover have "working (dispatch r CANCELLED) = working r"
    by (auto simp: working_def after_def)
  moreover have "drive_ok ((dispatch r CANCELLED)\<lparr>rn_cancel := None\<rparr>) d" if "rn_drive r = Some d" for d
  proof (cases "ms_phase (rn_state r) = Cancelling")
    case True
    then have "dr_aborted d" using not_working_aborted [OF wf _ that] by (simp add: working_def)
    then show ?thesis using wf that by - (rule drive_ok_aborted [of r], auto simp: runner_wf_def)
  next
    case False
    then have "after (rn_state r) CANCELLED = rn_state r" by (simp add: after_def)
    then have "drive_ok ((dispatch r CANCELLED)\<lparr>rn_cancel := None\<rparr>) d = drive_ok r d"
      by (intro drive_ok_cong) simp_all
    then show ?thesis using wf that by (simp add: runner_wf_def)
  qed
  ultimately show ?thesis
    using wf by (auto simp: server_dropped_def runner_wf_def working_def live_def
        split: option.splits cancelling.splits)
qed

lemma runner_wf_drive_next: "runner_wf r \<Longrightarrow> runner_wf (drive_next r)"
  using runner_wf_loop [of "r\<lparr>rn_waiting := rn_waiting r - 1\<rparr>"] by (auto simp: drive_next_def dest: runner_wf_coreD)

lemma runner_wf_step: "runner_wf r \<Longrightarrow> label_ok r l \<Longrightarrow> runner_wf (runner_step r l)"
  by (auto simp: runner_step_def label_ok_def intro: runner_wf_command runner_wf_drive_next
      runner_wf_running_settled runner_wf_server_dropped runner_wf_answer split: option.splits)

interpretation runner: event_machine runner_step label_ok runner_wf
  by unfold_locales (rule runner_wf_step)

lemma runner_wf_run:
  "admissible runner_step label_ok (new_runner rid name fsize tok) ls \<Longrightarrow>
    runner_wf (foldl runner_step (new_runner rid name fsize tok) ls)"
  by (rule runner.run_inv [OF new_runner_wf])

section \<open>Phases and the count of lost transactions\<close>

lemma begin_step_phase:
  assumes "runner_core r" and "ms_phase (rn_state r) = Working st"
  shows "ms_phase (rn_state (begin_step r st)) = Working st"
proof -
  have wf: "wf_at st (ms_ctx (rn_state r))" using assms by (simp add: runner_core_def machine_wf_def)
  then show ?thesis
    using assms(2) wf_at_transaction [OF wf]
    by (cases st) (auto simp: begin_step_def with_work_def upload_chunks_def enter_chunks_def Let_def)
qed

lemma loop_phase: "runner_core r \<Longrightarrow> ms_phase (rn_state (loop r)) = ms_phase (rn_state r)"
  using begin_step_phase by (auto simp: loop_def split: upload_phase.splits)

lemma enter_chunks_fields [simp]:
  "rn_lost (enter_chunks r cs mc m a) = rn_lost r"
  "ms_phase (rn_state (enter_chunks r cs mc m a)) = ms_phase (rn_state r)"
  by (simp_all add: enter_chunks_def Let_def)

lemma emit_aborted [simp]: "dr_aborted d \<Longrightarrow> emit d r e = r"
  by (simp add: emit_def)

lemma fail_step_lost_le: "rn_lost r \<le> rn_lost (fail_step r st e)"
  by (simp add: fail_step_def Let_def dispose_hashing_def)

lemma loop_lost_le: "rn_lost r \<le> rn_lost (loop r)"
  using fail_step_lost_le
  by (auto simp: loop_def begin_step_def throw_at_start_def with_work_def upload_chunks_def Let_def
      split: upload_phase.splits upload_step.splits)

lemma step_error_lost_le: "rn_lost r \<le> rn_lost (step_error d r e)"
  using le_trans [OF fail_step_lost_le loop_lost_le] by (simp add: step_error_def)

lemma loop_emit_lost_le: "rn_lost r \<le> rn_lost (loop (emit d r e))"
  using loop_lost_le [of "emit d r e"] by simp

lemma answer_lost_le: "rn_lost r \<le> rn_lost (answer d r l)"
proof -
  note le = step_error_lost_le loop_emit_lost_le
  have h: "rn_lost r \<le> rn_lost (loop (emit d (dispose_hashing r) e))" for e
    using loop_emit_lost_le [of "dispose_hashing r" d e] by simp
  have i: "rn_lost r \<le> rn_lost (loop (emit d (r\<lparr>rn_fresh := True\<rparr>) e))" for e
    using loop_emit_lost_le [of "r\<lparr>rn_fresh := True\<rparr>" d e] by simp
  have s: "rn_lost r \<le> rn_lost (status_answered d r resp)" for resp
    using le by (cases resp) (simp_all add: status_answered_def)
  have c: "rn_lost r \<le> rn_lost (chunks_settled d r ch)" for ch
    using le by (simp add: chunks_settled_def split: option.splits sum.splits)
  show ?thesis
    using le h i s c
    by (cases "dr_work d"; cases l) (simp_all add: answer_def chunk_event_def Let_def)
qed

lemma command_lost_le: "\<forall>tok. l \<noteq> Retry tok \<Longrightarrow> rn_lost r \<le> rn_lost (command r l)"
  by (cases l) simp_all

lemma step_lost_le: "\<forall>tok. l \<noteq> Retry tok \<Longrightarrow> rn_lost r \<le> rn_lost (runner_step r l)"
  using command_lost_le answer_lost_le loop_lost_le [of "r\<lparr>rn_waiting := rn_waiting r - 1\<rparr>"]
  by (auto simp: runner_step_def drive_next_def running_settled_def server_dropped_def
      split: option.splits cancelling.splits)

lemma run_lost_le: "\<forall>tok. Retry tok \<notin> set ls \<Longrightarrow> rn_lost r \<le> rn_lost (foldl runner_step r ls)"
proof (induction ls arbitrary: r)
  case Nil
  then show ?case by simp
next
  case (Cons l ls)
  then have "rn_lost r \<le> rn_lost (runner_step r l)" by (intro step_lost_le) auto
  also have "\<dots> \<le> rn_lost (foldl runner_step (runner_step r l) ls)" using Cons by simp
  finally show ?case by simp
qed

section \<open>Properties\<close>

text \<open>
  C2: Whatever order the host's commands and the answers of the server and the file come in,
  the machine's context fits its step, every snapshot the page is sent shows progress within the
  size of the file, and an upload being cancelled has a \<open>cancel\<close> that will finish it.
\<close>

theorem runner_reports_consistent:
  assumes "admissible runner_step label_ok (new_runner rid name fsize tok) ls"
    and "r = foldl runner_step (new_runner rid name fsize tok) ls"
  shows "machine_wf (rn_state r) \<and> (\<forall>s\<in>set (rn_changes r). snapshot_ok s) \<and>
    (rn_status r = StCancelling \<longrightarrow> cancel_pending (rn_cancel r))"
proof -
  have "runner_core r" using runner_wf_run [OF assms(1)] assms(2) by (simp add: runner_wf_def)
  moreover have "rn_status r = StCancelling \<Longrightarrow> ms_phase (rn_state r) = Cancelling"
    by (cases "ms_phase (rn_state r)") (auto simp: rn_status_def)
  ultimately show ?thesis by (auto simp: runner_core_def)
qed

lemmas run_simps = runner_step_def command.simps applies_def dispatch_def new_runner_def initialState_def
  drive_next_def loop_def begin_step_def with_work_def answer_def emit_def abort_controller_def
  dispose_hashing_def label_ok_def working_def Let_def

theorem runner_reports_consistent_witness:
  "machine_wf (rn_state (foldl runner_step (new_runner ''u1'' ''a.txt'' 3 ''tok'')
    [Start, DriveNext, HashProgressed 2, Hashed ''h'', Initialised (StartUploadWholeFile ''t''), FileProgressed 1, Pause]))"
  using runner_reports_consistent [of "''u1''" "''a.txt''" 3 "''tok''"
      "[Start, DriveNext, HashProgressed 2, Hashed ''h'', Initialised (StartUploadWholeFile ''t''), FileProgressed 1, Pause]"]
  by (simp add: run_simps)

text \<open>
  C7: A working upload always has a drive that is alive or one waiting to begin, as long as
  errors that are aborts come from aborted signals: no upload takes a slot with nothing running.
\<close>

theorem runner_never_stuck:
  assumes "admissible runner_step label_ok (new_runner rid name fsize tok) ls"
    and "r = foldl runner_step (new_runner rid name fsize tok) ls"
    and "isStep (rn_status r)"
  shows "(\<exists>d. rn_drive r = Some d \<and> \<not> dr_aborted d \<and> rn_status r = StStep (dr_step d)) \<or>
    0 < rn_waiting r"
proof -
  have wf: "runner_wf r" using runner_wf_run [OF assms(1)] assms(2) by simp
  have "working r"
    using assms(3) by (cases "ms_phase (rn_state r)") (auto simp: working_def rn_status_def)
  then have "live r \<or> 0 < rn_waiting r" using wf by (simp add: runner_wf_def)
  then show ?thesis using wf by (auto simp: live_def runner_wf_def drive_ok_def rn_status_def)
qed

theorem runner_never_stuck_witness:
  "(\<exists>d. rn_drive (foldl runner_step (new_runner ''u1'' ''a.txt'' 3 ''tok'') [Start, DriveNext]) = Some d \<and>
      \<not> dr_aborted d) \<or>
    0 < rn_waiting (foldl runner_step (new_runner ''u1'' ''a.txt'' 3 ''tok'') [Start, DriveNext])"
  using runner_never_stuck [of "''u1''" "''a.txt''" 3 "''tok''" "[Start, DriveNext]"]
  by (simp add: run_simps rn_status_def)

text \<open>
  C8: Once a pause or a cancel aborted the step in flight, nothing that step still reports
  (progress, a response, an error) moves the upload: its phase stays what the command made it.
\<close>

theorem runner_drops_stale_answers:
  assumes "admissible runner_step label_ok (new_runner rid name fsize tok) ls"
    and "r = foldl runner_step (new_runner rid name fsize tok) ls"
    and "rn_drive r = Some d" and "dr_aborted d"
  shows "ms_phase (rn_state (answer d r l)) = ms_phase (rn_state r)"
proof -
  have core: "runner_core r" using runner_wf_run [OF assms(1)] assms(2) by (simp add: runner_wf_def)
  have loops: "ms_phase (rn_state (loop r)) = ms_phase (rn_state r)"
    "ms_phase (rn_state (loop (dispose_hashing r))) = ms_phase (rn_state r)"
    "ms_phase (rn_state (loop (r\<lparr>rn_fresh := True\<rparr>))) = ms_phase (rn_state r)"
    using loop_phase [of r] loop_phase [of "dispose_hashing r"] loop_phase [of "r\<lparr>rn_fresh := True\<rparr>"] core
    by simp_all
  have e: "ms_phase (rn_state (step_error d r x)) = ms_phase (rn_state r)" for x
    using assms(4) by (simp add: step_error_def)
  have s: "ms_phase (rn_state (status_answered d r resp)) = ms_phase (rn_state r)" for resp
    using assms(4) loops e by (cases resp) (simp_all add: status_answered_def)
  have c: "ms_phase (rn_state (chunks_settled d r ch)) = ms_phase (rn_state r)" for ch
    using assms(4) loops e by (simp add: chunks_settled_def split: option.splits sum.splits)
  show ?thesis
    using assms(4) loops e s c
    by (cases "dr_work d"; cases l) (simp_all add: answer_def chunk_event_def Let_def)
qed

theorem runner_drops_stale_answers_witness:
  "ms_phase (rn_state (answer \<lparr>dr_step = Hashing, dr_aborted = True, dr_work = AtHash\<rparr>
      (foldl runner_step (new_runner ''u1'' ''a.txt'' 3 ''tok'') [Start, DriveNext, Pause]) (Hashed ''h''))) =
    Paused Hashing"
  using runner_drops_stale_answers [of "''u1''" "''a.txt''" 3 "''tok''" "[Start, DriveNext, Pause]" _
      "\<lparr>dr_step = Hashing, dr_aborted = True, dr_work = AtHash\<rparr>" "Hashed ''h''"]
  by (simp add: run_simps)



text \<open>
  One storage call sends at most two requests a try and at most \<open>attempts\<close> tries, and when
  the access token is rejected once and the repeated request succeeds, the call returns its value
  after exactly two requests.
\<close>

theorem call_bounded:
  "requests_sent qs (snd (call policy qs)) \<le> 2 * max 1 (rp_attempts policy) \<and>
    (\<forall>e v. re_first (qs 0) = Inl e \<and> getStatusCode e = Some 401 \<and> re_second (qs 0) = Inr v \<longrightarrow>
      call policy qs = (Inr v, 1) \<and> requests_sent qs 1 = 2)"
proof -
  have "snd (call policy qs) \<le> max 1 (rp_attempts policy)"
    using withRetry_calls [of policy "call_env qs" 0] by (simp add: call_def)
  then have "requests_sent qs (snd (call policy qs)) \<le> 2 * max 1 (rp_attempts policy)"
    using requests_sent_le [of qs "snd (call policy qs)"] by linarith
  moreover have "call policy qs = (Inr v, 1) \<and> requests_sent qs 1 = 2"
    if "re_first (qs 0) = Inl e" "getStatusCode e = Some 401" "re_second (qs 0) = Inr v" for e v
    using that by (simp add: call_def call_env_def authorised_def requests_sent_def withRetry.simps)
  ultimately show ?thesis by blast
qed

theorem call_bounded_witness:
  "call DEFAULT_RETRY (\<lambda>_. \<lparr>re_first = Inl (AxiosError (Some \<lparr>rs_status = 401, rs_data = None\<rparr>) ''m''),
    re_second = Inr (5::nat), re_aborted = False, re_wake = TimerFired\<rparr>) = (Inr 5, 1)"
  using call_bounded [of "\<lambda>_. \<lparr>re_first = Inl (AxiosError (Some \<lparr>rs_status = 401, rs_data = None\<rparr>) ''m''),
    re_second = Inr (5::nat), re_aborted = False, re_wake = TimerFired\<rparr>" DEFAULT_RETRY]
  by simp

end
