(* ===== verification/Upload_Messages.thy ===== *)
theory Upload_Messages
  imports Upload_Types
begin

text \<open>
  What the page and the upload worker say to each other (\<open>uploader/src/worker/messages.ts\<close>). A
  file is its name and its size.
\<close>

datatype to_worker =
    Configure string int
  | Add string string nat string
  | PauseMsg string
  | ResumeMsg string
  | CancelMsg string
  | RetryMsg string "string option"
  | RemoveMsg string
  | ReorderMsg string int
  | PauseAll
  | ResumeAll
  | CancelAll
  | TokenMsg nat "string option" "string option"

datatype from_worker =
    Snapshot upload_snapshot
  | Removed string
  | TokenRequest nat bool

end
