(* ===== verification/Upload_Host.thy ===== *)
theory Upload_Host
  imports Upload_Runner Upload_Messages
begin

text \<open>
  The worker side of the uploader (\<open>uploader/src/worker/upload-host.ts\<close>): the access token asked
  from the page, the runners in queue order, the scheduler that keeps at most \<open>maxParallelUploads\<close> of them working, and the throttle that
  coalesces progress. Time is a counter of milliseconds; a timer and a queued microtask are
  entries of the state that a label fires. A forgotten upload whose \<open>cancel\<close> is still waiting
  for the server keeps reporting through the closure it was given: it is kept in \<open>ho_gone\<close>.
\<close>

section \<open>The access token\<close>

text \<open>\<open>tk_pending\<close> is the request the shared promise waits for, \<open>tk_waiting\<close> the requests unanswered.\<close>

record token_source =
  tk_token :: "string option"
  tk_pending :: "nat option"
  tk_stale :: bool
  tk_nextRequestId :: nat
  tk_waiting :: "nat list"

datatype token_promise = HasToken string | AwaitsRequest nat

datatype token_settled = TokenResolved string | TokenRejected string

definition new_tokens :: token_source where
  "new_tokens = \<lparr>tk_token = None, tk_pending = None, tk_stale = False, tk_nextRequestId = 0, tk_waiting = []\<rparr>"

definition tk_request :: "token_source \<Rightarrow> token_source \<times> nat \<times> from_worker" where
  "tk_request t =
    (let n = tk_nextRequestId t in
     (t\<lparr>tk_nextRequestId := Suc n, tk_stale := False, tk_waiting := tk_waiting t @ [n]\<rparr>, n,
      TokenRequest n (tk_stale t)))"

definition tk_get :: "token_source \<Rightarrow> token_source \<times> token_promise \<times> from_worker list" where
  "tk_get t =
    (if truthy (tk_token t) then (t, HasToken (the (tk_token t)), [])
     else (case tk_pending t of
         Some n \<Rightarrow> (t, AwaitsRequest n, [])
       | None \<Rightarrow>
           (let (t', n, msg) = tk_request t in (t'\<lparr>tk_pending := Some n\<rparr>, AwaitsRequest n, [msg]))))"

definition tk_invalidate :: "token_source \<Rightarrow> token_source" where
  "tk_invalidate t = t\<lparr>tk_token := None, tk_stale := True\<rparr>"

definition tk_receive ::
  "token_source \<Rightarrow> nat \<Rightarrow> string option \<Rightarrow> string option \<Rightarrow> token_source \<times> token_settled option" where
  "tk_receive t n tok err =
    (if n \<notin> set (tk_waiting t) then (t, None)
     else (let t' = t\<lparr>tk_waiting := filter (\<lambda>m. m \<noteq> n) (tk_waiting t)\<rparr> in
       if truthy tok then (t'\<lparr>tk_token := tok\<rparr>, Some (TokenResolved (the tok)))
       else (t', Some (TokenRejected (case err of None \<Rightarrow> ''No access token'' | Some e \<Rightarrow> e)))))"

text \<open>The \<open>finally\<close> of the shared promise, once its request was answered.\<close>

definition tk_settle :: "token_source \<Rightarrow> token_source" where
  "tk_settle t =
    (case tk_pending t of
      Some n \<Rightarrow> if n \<in> set (tk_waiting t) then t else t\<lparr>tk_pending := None\<rparr>
    | None \<Rightarrow> t)"

datatype token_event = TkGet | TkInvalidate | TkReceive nat "string option" "string option" | TkSettle

fun token_step :: "token_source \<Rightarrow> token_event \<Rightarrow> token_source" where
  "token_step t TkGet = fst (tk_get t)"
| "token_step t TkInvalidate = tk_invalidate t"
| "token_step t (TkReceive n tok err) = fst (tk_receive t n tok err)"
| "token_step t TkSettle = tk_settle t"

definition token_wf :: "token_source \<Rightarrow> bool" where
  "token_wf t \<longleftrightarrow>
    (tk_waiting t = [] \<or> (\<exists>n. tk_waiting t = [n] \<and> tk_pending t = Some n)) \<and>
    (\<forall>n. tk_pending t = Some n \<longrightarrow> n < tk_nextRequestId t)"

lemma token_wf_step: "token_wf t \<Longrightarrow> token_wf (token_step t e)"
proof (cases e)
  case TkGet
  moreover assume "token_wf t"
  ultimately show ?thesis
    by (auto simp: token_wf_def tk_get_def tk_request_def Let_def split: option.splits)
next
  case (TkReceive n tok err)
  moreover assume "token_wf t"
  ultimately show ?thesis by (auto simp: token_wf_def tk_receive_def Let_def)
qed (auto simp: token_wf_def tk_invalidate_def tk_settle_def split: option.splits)

interpretation tokens: event_machine token_step "\<lambda>_ _. True" token_wf
  by unfold_locales (rule token_wf_step)

lemma token_run_wf: "token_wf (foldl token_step new_tokens es)"
proof -
  have adm: "admissible token_step (\<lambda>_ _. True) t es" for t by (induction es arbitrary: t) simp_all
  show ?thesis by (rule tokens.run_inv [OF _ adm]) (simp add: token_wf_def new_tokens_def)
qed

section \<open>The host\<close>

definition PROGRESS_INTERVAL_MS :: nat where
  "PROGRESS_INTERVAL_MS = 100"

record host =
  ho_runners :: "(string, runner) js_map"
  ho_order :: "string list"
  ho_maxParallel :: nat
  ho_tokens :: token_source
  ho_lastSent :: "(string, nat \<times> upload_status) js_map"
  ho_trailing :: "(string, nat) js_map"
  ho_gone :: "(string, runner) js_map"
  ho_removing :: "(string \<times> bool) list"
  ho_pumps :: nat
  ho_now :: nat
  ho_out :: "from_worker list"

definition new_host :: "nat \<Rightarrow> host" where
  "new_host now =
    \<lparr>ho_runners = [], ho_order = [], ho_maxParallel = 2, ho_tokens = new_tokens, ho_lastSent = [],
     ho_trailing = [], ho_gone = [], ho_removing = [], ho_pumps = 0, ho_now = now, ho_out = []\<rparr>"

definition post :: "from_worker \<Rightarrow> host \<Rightarrow> host" where
  "post m h = h\<lparr>ho_out := ho_out h @ [m]\<rparr>"

text \<open>
  \<open>send\<close>: a snapshot that only moves the progress within the interval is held back, and a timer
  sends the latest one when the interval is over.
\<close>

definition progress_only :: "host \<Rightarrow> upload_snapshot \<Rightarrow> bool \<Rightarrow> bool" where
  "progress_only h sn force \<longleftrightarrow>
    \<not> force \<and> map_option snd (js_get (ho_lastSent h) (sn_id sn)) = Some (sn_status sn)"

definition sent_at :: "host \<Rightarrow> string \<Rightarrow> nat" where
  "sent_at h i = (case js_get (ho_lastSent h) i of None \<Rightarrow> 0 | Some (sent, _) \<Rightarrow> sent)"

definition send :: "host \<Rightarrow> upload_snapshot \<Rightarrow> bool \<Rightarrow> host" where
  "send h sn force =
    (if progress_only h sn force \<and> ho_now h - sent_at h (sn_id sn) < PROGRESS_INTERVAL_MS
     then (if js_has (ho_trailing h) (sn_id sn) then h
       else h\<lparr>ho_trailing := js_set (sn_id sn)
         (ho_now h + (PROGRESS_INTERVAL_MS - (ho_now h - sent_at h (sn_id sn)))) (ho_trailing h)\<rparr>)
     else post (Snapshot sn) (h\<lparr>ho_trailing := js_del (sn_id sn) (ho_trailing h),
       ho_lastSent := js_set (sn_id sn) (ho_now h, sn_status sn) (ho_lastSent h)\<rparr>))"

text \<open>\<open>changed\<close>: the runner reported a change; a pump is queued as a microtask.\<close>

definition changed :: "host \<Rightarrow> upload_snapshot \<Rightarrow> host" where
  "changed h sn = (let h' = send h sn False in h'\<lparr>ho_pumps := Suc (ho_pumps h')\<rparr>)"

definition news :: "runner \<Rightarrow> runner \<Rightarrow> upload_snapshot list" where
  "news r r' = drop (length (rn_changes r)) (rn_changes r')"

text \<open>A label of a runner the host knows, and of one it has forgotten.\<close>

definition at_runner :: "string \<Rightarrow> label \<Rightarrow> host \<Rightarrow> host" where
  "at_runner i l h =
    (case js_get (ho_runners h) i of
      None \<Rightarrow> h
    | Some r \<Rightarrow>
        (let r' = runner_step r l in
         foldl changed (h\<lparr>ho_runners := js_set i r' (ho_runners h)\<rparr>) (news r r')))"

definition at_gone :: "string \<Rightarrow> label \<Rightarrow> host \<Rightarrow> host" where
  "at_gone i l h =
    (case js_get (ho_gone h) i of
      None \<Rightarrow> h
    | Some r \<Rightarrow>
        (let r' = runner_step r l in
         foldl changed (h\<lparr>ho_gone := js_set i r' (ho_gone h)\<rparr>) (news r r')))"

section \<open>Scheduling\<close>

definition working_count :: "host \<Rightarrow> nat" where
  "working_count h = length (filter (\<lambda>(_, r). isWorking r) (ho_runners h))"

definition queued :: "host \<Rightarrow> string \<Rightarrow> bool" where
  "queued h i \<longleftrightarrow> (\<exists>r. js_get (ho_runners h) i = Some r \<and> rn_status r = StQueued)"

lemma queued_code [code]:
  "queued h i = (case js_get (ho_runners h) i of None \<Rightarrow> False | Some r \<Rightarrow> rn_status r = StQueued)"
  by (simp add: queued_def split: option.splits)

fun pump_list :: "string list \<Rightarrow> nat \<Rightarrow> host \<Rightarrow> host" where
  "pump_list [] busy h = h"
| "pump_list (i # is) busy h =
    (if ho_maxParallel h \<le> busy then h
     else if queued h i then pump_list is (Suc busy) (at_runner i Start h)
     else pump_list is busy h)"

definition pump :: "host \<Rightarrow> host" where
  "pump h = pump_list (ho_order h) (working_count h) h"

definition reorder :: "string \<Rightarrow> int \<Rightarrow> host \<Rightarrow> host" where
  "reorder i index h =
    (case find_index (\<lambda>j. j = i) (ho_order h) of
      None \<Rightarrow> h
    | Some from \<Rightarrow>
        (let rest = remove_at from (ho_order h) in
         pump (h\<lparr>ho_order := insert_at (clamp_index index (length rest)) i rest\<rparr>)))"

definition add_upload :: "string \<Rightarrow> string \<Rightarrow> nat \<Rightarrow> string \<Rightarrow> host \<Rightarrow> host" where
  "add_upload i name fsize tok h =
    (if js_has (ho_runners h) i then h
     else (let r = new_runner i name fsize tok in
       pump (send (h\<lparr>ho_runners := js_set i r (ho_runners h), ho_order := ho_order h @ [i]\<rparr>)
         (snapshot r) True)))"

text \<open>
  \<open>remove\<close> up to its await: \<open>cancel\<close> resolves at once when there is nothing to cancel (or it is
  being cancelled already), otherwise when the cancelling is over.
\<close>

definition remove_start :: "string \<Rightarrow> host \<Rightarrow> host" where
  "remove_start i h =
    (case js_get (ho_runners h) i of
      None \<Rightarrow> h
    | Some r \<Rightarrow>
        (let h' = at_runner i Cancel h in
         h'\<lparr>ho_removing := ho_removing h' @ [(i, applies r CANCEL)]\<rparr>))"

text \<open>After the await: the upload is forgotten and the page is told.\<close>

definition forget :: "string \<Rightarrow> bool \<Rightarrow> host \<Rightarrow> host" where
  "forget i waits h = post (Removed i) (h\<lparr>
     ho_gone := (case js_get (ho_runners h) i of
         None \<Rightarrow> ho_gone h | Some r \<Rightarrow> js_set i (runner_step r Dispose) (ho_gone h)),
     ho_runners := js_del i (ho_runners h),
     ho_order := filter (\<lambda>j. j \<noteq> i) (ho_order h),
     ho_trailing := js_del i (ho_trailing h),
     ho_lastSent := js_del i (ho_lastSent h),
     ho_removing := remove1 (i, waits) (ho_removing h)\<rparr>)"

definition remove_end :: "string \<Rightarrow> bool \<Rightarrow> host \<Rightarrow> host" where
  "remove_end i waits h =
    (if \<not> (i, waits) \<in> set (ho_removing h) then h
     else if waits \<and> (case js_get (ho_runners h) i of None \<Rightarrow> False | Some r \<Rightarrow> rn_cancel r \<noteq> None) then h
     else forget i waits h)"

definition at_all :: "label \<Rightarrow> host \<Rightarrow> host" where
  "at_all l h = fold (\<lambda>i. at_runner i l) (js_keys (ho_runners h)) h"

fun handle :: "host \<Rightarrow> to_worker \<Rightarrow> host" where
  "handle h (Configure url n) = pump (h\<lparr>ho_maxParallel := nat (max 1 n)\<rparr>)"
| "handle h (Add i name fsize tok) = add_upload i name fsize tok h"
| "handle h (PauseMsg i) = at_runner i Pause h"
| "handle h (ResumeMsg i) = at_runner i Resume h"
| "handle h (CancelMsg i) = at_runner i Cancel h"
| "handle h (RetryMsg i tok) = at_runner i (Retry tok) h"
| "handle h (RemoveMsg i) = remove_start i h"
| "handle h (ReorderMsg i index) = reorder i index h"
| "handle h PauseAll = at_all Pause h"
| "handle h ResumeAll = at_all Resume h"
| "handle h CancelAll = at_all Cancel h"
| "handle h (TokenMsg n tok err) = h\<lparr>ho_tokens := fst (tk_receive (ho_tokens h) n tok err)\<rparr>"

text \<open>The tasks of the host's own: a queued pump, a timer, the rest of a \<open>remove\<close>, time passing.\<close>

definition run_pump :: "host \<Rightarrow> host" where
  "run_pump h = (if 0 < ho_pumps h then pump (h\<lparr>ho_pumps := ho_pumps h - 1\<rparr>) else h)"

definition timer_fired :: "string \<Rightarrow> host \<Rightarrow> host" where
  "timer_fired i h =
    (case js_get (ho_trailing h) i of
      None \<Rightarrow> h
    | Some due \<Rightarrow>
        if ho_now h < due then h
        else (let h' = h\<lparr>ho_trailing := js_del i (ho_trailing h)\<rparr> in
          case js_get (ho_runners h) i of None \<Rightarrow> h' | Some r \<Rightarrow> send h' (snapshot r) True))"

datatype host_label =
    Message to_worker
  | RunnerLabel string label
  | GoneLabel string label
  | PumpTask
  | Timer string
  | RemoveEnd string bool
  | TokenEvent token_event
  | Tick nat

definition token_task :: "token_event \<Rightarrow> host \<Rightarrow> host" where
  "token_task e h =
    (let h' = h\<lparr>ho_tokens := token_step (ho_tokens h) e\<rparr> in
     if e = TkGet then h'\<lparr>ho_out := ho_out h @ snd (snd (tk_get (ho_tokens h)))\<rparr> else h')"

fun host_step :: "host \<Rightarrow> host_label \<Rightarrow> host" where
  "host_step h (Message m) = handle h m"
| "host_step h (RunnerLabel i l) = at_runner i l h"
| "host_step h (GoneLabel i l) = at_gone i l h"
| "host_step h PumpTask = run_pump h"
| "host_step h (Timer i) = timer_fired i h"
| "host_step h (RemoveEnd i waits) = remove_end i waits h"
| "host_step h (TokenEvent e) = token_task e h"
| "host_step h (Tick n) = h\<lparr>ho_now := ho_now h + n\<rparr>"

section \<open>What a label of a runner may do\<close>

text \<open>
  Everything but \<open>start\<close> leaves an upload that is not at work where it is not at work, reports
  every change of the machine, and ends with the snapshot it reported last.
\<close>

definition closing :: "runner \<Rightarrow> bool" where
  "closing r \<longleftrightarrow> rn_status r = StDone \<or> rn_status r = StCancelled \<or> rn_status r = StCancelling"

definition quiet :: "runner \<Rightarrow> runner \<Rightarrow> bool" where
  "quiet r r' \<longleftrightarrow>
    rn_id r' = rn_id r \<and> (working r' \<longrightarrow> working r) \<and> (closing r \<longrightarrow> closing r') \<and>
    (\<exists>ys. rn_changes r' = rn_changes r @ ys \<and>
      (if ys = [] then snapshot r' = snapshot r \<and> rn_state r' = rn_state r
       else last ys = snapshot r') \<and> (\<forall>sn\<in>set ys. sn_id sn = rn_id r))"

lemma snapshot_id [simp]: "sn_id (snapshot r) = rn_id r"
  by (simp add: snapshot_def Let_def)

lemma snapshot_status [simp]: "sn_status (snapshot r) = rn_status r"
  by (simp add: snapshot_def rn_status_def Let_def)

lemma quiet_refl: "quiet r r"
  by (simp add: quiet_def)

lemma quietE:
  assumes "quiet r r'"
  obtains ys where "rn_id r' = rn_id r" "working r' \<longrightarrow> working r" "closing r \<longrightarrow> closing r'" "rn_changes r' = rn_changes r @ ys"
    "if ys = [] then snapshot r' = snapshot r \<and> rn_state r' = rn_state r else last ys = snapshot r'"
    "\<forall>sn\<in>set ys. sn_id sn = rn_id r"
  using assms unfolding quiet_def by blast

lemma quiet_trans:
  assumes "quiet r r'" and "quiet r' r''"
  shows "quiet r r''"
proof -
  obtain ys where ys: "rn_id r' = rn_id r" "working r' \<longrightarrow> working r" "closing r \<longrightarrow> closing r'" "rn_changes r' = rn_changes r @ ys"
    "if ys = [] then snapshot r' = snapshot r \<and> rn_state r' = rn_state r else last ys = snapshot r'"
    "\<forall>sn\<in>set ys. sn_id sn = rn_id r" using assms(1) by (rule quietE)
  obtain zs where zs: "rn_id r'' = rn_id r'" "working r'' \<longrightarrow> working r'" "closing r' \<longrightarrow> closing r''" "rn_changes r'' = rn_changes r' @ zs"
    "if zs = [] then snapshot r'' = snapshot r' \<and> rn_state r'' = rn_state r' else last zs = snapshot r''"
    "\<forall>sn\<in>set zs. sn_id sn = rn_id r'" using assms(2) by (rule quietE)
  have "rn_changes r'' = rn_changes r @ (ys @ zs)" using ys(4) zs(4) by simp
  moreover have "if ys @ zs = [] then snapshot r'' = snapshot r \<and> rn_state r'' = rn_state r
      else last (ys @ zs) = snapshot r''"
    using ys(5) zs(5) by (cases "zs = []") simp_all
  moreover have "\<forall>sn\<in>set (ys @ zs). sn_id sn = rn_id r" using ys(1,6) zs(6) by auto
  ultimately show ?thesis unfolding quiet_def using ys(1-3) zs(1-3) by metis
qed

lemma snapshot_cong:
  "rn_state r' = rn_state r \<Longrightarrow> rn_id r' = rn_id r \<Longrightarrow> rn_fileName r' = rn_fileName r \<Longrightarrow>
    rn_size r' = rn_size r \<Longrightarrow> snapshot r' = snapshot r"
  by (cases "ms_phase (rn_state r)") (simp_all add: snapshot_def Let_def)

lemma quiet_same:
  "rn_changes r' = rn_changes r \<Longrightarrow> rn_state r' = rn_state r \<Longrightarrow> rn_id r' = rn_id r \<Longrightarrow>
    rn_fileName r' = rn_fileName r \<Longrightarrow> rn_size r' = rn_size r \<Longrightarrow> quiet r r'"
  using snapshot_cong [of r' r] by (simp add: quiet_def working_def closing_def rn_status_def)

lemma after_working: "e \<noteq> START \<Longrightarrow> ms_phase (after s e) = Working st \<Longrightarrow> \<exists>st'. ms_phase s = Working st'"
  by (cases e; cases "ms_phase s")
    (auto simp: after_def sending_def split: if_splits prod.splits option.splits)

lemma after_closing:
  "ms_phase s = Cancelled \<or> ms_phase s = Cancelling \<or> (\<exists>x. ms_phase s = Done x) \<Longrightarrow>
    ms_phase (after s e) = Cancelled \<or> ms_phase (after s e) = Cancelling \<or> (\<exists>x. ms_phase (after s e) = Done x)"
  by (cases e; cases "ms_phase s") (auto simp: after_def)

lemma closing_iff:
  "closing r \<longleftrightarrow> ms_phase (rn_state r) = Cancelled \<or> ms_phase (rn_state r) = Cancelling \<or>
    (\<exists>x. ms_phase (rn_state r) = Done x)"
  by (cases "ms_phase (rn_state r)") (auto simp: closing_def rn_status_def)

lemma quiet_dispatch:
  assumes "e \<noteq> START"
  shows "quiet r (dispatch r e)"
proof (cases "transition (rn_state r) e")
  case None
  then show ?thesis by (simp add: dispatch_def quiet_refl)
next
  case (Some s)
  let ?r = "r\<lparr>rn_state := s\<rparr>"
  have d: "dispatch r e = ?r\<lparr>rn_changes := rn_changes r @ [snapshot ?r]\<rparr>"
    using Some by (simp add: dispatch_def Let_def)
  have "snapshot (dispatch r e) = snapshot ?r" unfolding d by (rule snapshot_cong) simp_all
  moreover have "working (dispatch r e) \<longrightarrow> working r"
    using after_working [OF assms, of "rn_state r"] by (auto simp: working_def)
  moreover have "closing r \<longrightarrow> closing (dispatch r e)"
    using after_closing [of "rn_state r" e] by (simp add: closing_iff)
  ultimately show ?thesis unfolding quiet_def by (simp add: d)
qed

lemma quiet_emit: "e \<noteq> START \<Longrightarrow> quiet r (emit d r e)"
  by (simp add: emit_def quiet_refl quiet_dispatch)

lemma quiet_fail_step: "quiet r (fail_step r st e)"
proof -
  have a: "quiet r (r\<lparr>rn_lost := n\<rparr>)" "quiet r (dispose_hashing r)" for n
    by (rule quiet_same; simp add: dispose_hashing_def)+
  show ?thesis
    using quiet_trans [OF a(1) quiet_dispatch] quiet_trans [OF a(2) quiet_dispatch]
    by (auto simp: fail_step_def Let_def quiet_dispatch)
qed

lemma quiet_enter_chunks: "quiet r (enter_chunks r cs mc m a)"
  unfolding enter_chunks_def Let_def
  by (rule quiet_trans [OF _ quiet_emit]) (auto intro: quiet_same)

lemma quiet_drive: "quiet r r' \<Longrightarrow> quiet r (r'\<lparr>rn_drive := d\<rparr>)"
  by (erule quiet_trans) (simp add: quiet_same)

lemma quiet_begin_step: "quiet r (begin_step r st)"
  by (auto simp: begin_step_def with_work_def throw_at_start_def upload_chunks_def Let_def
      intro: quiet_same quiet_enter_chunks quiet_drive quiet_fail_step split: upload_step.splits)

lemma quiet_loop: "quiet r (loop r)"
  by (auto simp: loop_def intro: quiet_begin_step quiet_same split: upload_phase.splits)

lemma quiet_loop_after: "quiet r r' \<Longrightarrow> quiet r (loop r')"
  using quiet_trans quiet_loop by blast

lemma quiet_step_error: "quiet r (step_error d r e)"
  by (auto simp: step_error_def intro: quiet_same quiet_loop_after quiet_fail_step)

lemma quiet_emit_after: "quiet r r' \<Longrightarrow> e \<noteq> START \<Longrightarrow> quiet r (emit d r' e)"
  using quiet_trans quiet_emit by blast

lemma initialized_not_start [simp]: "initialized_event resp \<noteq> START"
  by (cases resp) simp_all

lemma quiet_answer: "quiet r (answer d r l)"
proof -
  have s: "quiet r (status_answered d r resp)" for resp
    by (cases resp) (auto simp: status_answered_def
        intro: quiet_loop_after quiet_emit quiet_step_error quiet_enter_chunks)
  have c: "quiet r (chunks_settled d r c)" for c
    by (auto simp: chunks_settled_def intro: quiet_refl quiet_loop_after quiet_emit quiet_step_error
        split: option.splits sum.splits)
  have e: "quiet r (chunk_event d r c ev)" for c ev
    using quiet_emit_after [OF quiet_same]
    by (simp add: chunk_event_def Let_def quiet_same)
  have h: "quiet r (emit d (r\<lparr>rn_hashed := n\<rparr>) ev)" if "ev \<noteq> START" for n ev
    by (rule quiet_emit_after [OF quiet_same that]) simp_all
  have f: "quiet r (emit d (r\<lparr>rn_fresh := b\<rparr>) ev)" if "ev \<noteq> START" for b ev
    by (rule quiet_emit_after [OF quiet_same that]) simp_all
  have i: "quiet r (loop (emit d (r\<lparr>rn_fresh := True\<rparr>) (initialized_event resp)))" for resp
    by (rule quiet_loop_after [OF f]) simp
  show ?thesis
    using s c e i
    by (cases "dr_work d"; cases l)
      (auto simp: answer_def dispose_hashing_def
        intro: quiet_refl quiet_loop_after quiet_emit h f quiet_step_error quiet_same)
qed

lemma quiet_abort: "quiet r r' \<Longrightarrow> quiet r (abort_controller r')"
  by (erule quiet_trans) (simp add: quiet_same abort_controller_def)

lemma quiet_command: "l \<noteq> Start \<Longrightarrow> quiet r (command r l)"
proof (cases l)
  case (Retry tok)
  have "quiet r (r\<lparr>rn_token := (if truthy tok then the tok else rn_token r), rn_lost := 0\<rparr>)"
    by (simp add: quiet_same)
  then show ?thesis
    using Retry quiet_trans quiet_dispatch [of RETRY] quiet_refl by auto
next
  case Cancel
  have "quiet r (abort_controller (dispatch r CANCEL))" by (simp add: quiet_abort quiet_dispatch)
  then have "quiet r ((abort_controller (dispatch r CANCEL))\<lparr>rn_cancel := c\<rparr>)" for c
    by (rule quiet_trans) (simp add: quiet_same)
  then show ?thesis using Cancel by (auto intro: quiet_refl)
next
  case Dispose
  show ?thesis unfolding Dispose by (simp add: quiet_same dispose_hashing_def abort_controller_def)
qed (auto intro: quiet_refl quiet_dispatch quiet_abort)

lemma quiet_running_settled: "quiet r (running_settled r)"
  by (auto simp: running_settled_def dispose_hashing_def intro: quiet_same quiet_refl
      split: option.splits cancelling.splits)

lemma quiet_server_dropped: "quiet r (server_dropped r)"
  by (auto simp: server_dropped_def intro: quiet_refl quiet_trans [OF quiet_dispatch quiet_same]
      split: option.splits cancelling.splits)

lemma quiet_drive_next: "quiet r (drive_next r)"
  by (auto simp: drive_next_def intro: quiet_refl quiet_trans [OF quiet_same quiet_loop])

lemma quiet_step: "l \<noteq> Start \<Longrightarrow> quiet r (runner_step r l)"
  by (auto simp: runner_step_def intro: quiet_command quiet_drive_next quiet_running_settled
      quiet_server_dropped quiet_answer quiet_refl split: option.splits)

text \<open>Every label, \<open>start\<close> included, reports what it changes.\<close>

definition reports :: "runner \<Rightarrow> runner \<Rightarrow> bool" where
  "reports r r' \<longleftrightarrow>
    rn_id r' = rn_id r \<and> rn_changes r' = rn_changes r @ news r r' \<and>
    (if news r r' = [] then snapshot r' = snapshot r else last (news r r') = snapshot r') \<and>
    (\<forall>sn\<in>set (news r r'). sn_id sn = rn_id r)"

lemma reportsI:
  assumes "rn_id r' = rn_id r" and "rn_changes r' = rn_changes r @ ys"
    and "if ys = [] then snapshot r' = snapshot r else last ys = snapshot r'"
    and "\<forall>sn\<in>set ys. sn_id sn = rn_id r"
  shows "reports r r'"
proof -
  have "news r r' = ys" using assms(2) by (simp add: news_def)
  then show ?thesis using assms by (simp add: reports_def)
qed

lemma quiet_reports: "quiet r r' \<Longrightarrow> reports r r'"
  by (erule quietE) (rule reportsI, auto split: if_splits)

lemma start_step:
  assumes "rn_status r = StQueued"
  shows "reports r (runner_step r Start)" and "working (runner_step r Start)"
    and "news r (runner_step r Start) \<noteq> []"
proof -
  obtain n where n: "ms_phase (rn_state r) = Queued n"
    using assms by (cases "ms_phase (rn_state r)") (auto simp: rn_status_def)
  let ?s = "mkState (Working n) (ms_ctx (rn_state r))"
  let ?r = "r\<lparr>rn_state := ?s, rn_changes := rn_changes r @ [snapshot (r\<lparr>rn_state := ?s\<rparr>)],
    rn_waiting := Suc (rn_waiting r)\<rparr>"
  have step: "runner_step r Start = ?r"
    using n by (simp add: runner_step_def applies_def dispatch_def Let_def)
  have "snapshot ?r = snapshot (r\<lparr>rn_state := ?s\<rparr>)" by (rule snapshot_cong) simp_all
  then show "reports r (runner_step r Start)"
    unfolding step by (intro reportsI [of _ _ "[snapshot (r\<lparr>rn_state := ?s\<rparr>)]"]) simp_all
  show "working (runner_step r Start)" unfolding step by (simp add: working_def)
  show "news r (runner_step r Start) \<noteq> []" unfolding step by (simp add: news_def)
qed

lemma start_ignored: "rn_status r \<noteq> StQueued \<Longrightarrow> runner_step r Start = r"
  by (cases "ms_phase (rn_state r)") (simp_all add: runner_step_def applies_def rn_status_def)

lemma reports_step: "reports r (runner_step r l)"
proof (cases "l = Start")
  case True
  then show ?thesis
    using start_step(1) [of r] start_ignored [of r] quiet_reports [OF quiet_refl, of r]
    by (cases "rn_status r = StQueued") simp_all
next
  case False
  then show ?thesis by (intro quiet_reports quiet_step)
qed

section \<open>The throttle\<close>

text \<open>The last snapshot the page was sent for an upload.\<close>

fun last_posted :: "from_worker list \<Rightarrow> string \<Rightarrow> upload_snapshot option" where
  "last_posted [] i = None"
| "last_posted (m # ms) i =
    (case last_posted ms i of
      Some sn \<Rightarrow> Some sn
    | None \<Rightarrow> (case m of Snapshot sn \<Rightarrow> if sn_id sn = i then Some sn else None | _ \<Rightarrow> None))"

lemma last_posted_append:
  "last_posted (xs @ ys) i = (case last_posted ys i of Some sn \<Rightarrow> Some sn | None \<Rightarrow> last_posted xs i)"
  by (induction xs) (simp_all split: option.splits)

text \<open>
  What the host remembers of an upload's last snapshot is what it sent, and a timer that is set
  is due within the interval after it.
\<close>

definition sent_ok :: "host \<Rightarrow> string \<Rightarrow> bool" where
  "sent_ok h i \<longleftrightarrow>
    (case js_get (ho_lastSent h) i of
      None \<Rightarrow> \<not> js_has (ho_trailing h) i
    | Some (t, st) \<Rightarrow>
        t \<le> ho_now h \<and> map_option sn_status (last_posted (ho_out h) i) = Some st \<and>
        (\<forall>due. js_get (ho_trailing h) i = Some due \<longrightarrow> due \<le> t + PROGRESS_INTERVAL_MS))"

lemma sent_ok_cong:
  assumes "js_get (ho_lastSent h') i = js_get (ho_lastSent h) i"
    and "js_get (ho_trailing h') i = js_get (ho_trailing h) i"
    and "last_posted (ho_out h') i = last_posted (ho_out h) i" and "ho_now h' = ho_now h"
  shows "sent_ok h' i = sent_ok h i"
  using assms by (cases "js_get (ho_lastSent h) i") (auto simp: sent_ok_def js_has_def)

text \<open>The page shows the snapshot, or shows its status and will be sent it by a timer.\<close>

definition page_shows :: "host \<Rightarrow> upload_snapshot \<Rightarrow> bool" where
  "page_shows h sn \<longleftrightarrow>
    js_has (ho_lastSent h) (sn_id sn) \<and>
    (last_posted (ho_out h) (sn_id sn) = Some sn \<or>
     map_option sn_status (last_posted (ho_out h) (sn_id sn)) = Some (sn_status sn) \<and>
       js_has (ho_trailing h) (sn_id sn))"

lemma send_other:
  "i \<noteq> sn_id sn \<Longrightarrow> last_posted (ho_out (send h sn f)) i = last_posted (ho_out h) i"
  "i \<noteq> sn_id sn \<Longrightarrow> js_get (ho_lastSent (send h sn f)) i = js_get (ho_lastSent h) i"
  "i \<noteq> sn_id sn \<Longrightarrow> js_get (ho_trailing (send h sn f)) i = js_get (ho_trailing h) i"
  by (auto simp: send_def post_def last_posted_append)

lemma send_fields [simp]:
  "ho_runners (send h sn f) = ho_runners h" "ho_order (send h sn f) = ho_order h"
  "ho_maxParallel (send h sn f) = ho_maxParallel h" "ho_gone (send h sn f) = ho_gone h"
  "ho_now (send h sn f) = ho_now h" "ho_pumps (send h sn f) = ho_pumps h"
  "ho_removing (send h sn f) = ho_removing h" "ho_tokens (send h sn f) = ho_tokens h"
  by (simp_all add: send_def post_def)

lemma send_sent_ok:
  assumes "\<forall>i. sent_ok h i"
  shows "\<forall>i. sent_ok (send h sn f) i"
proof
  fix i
  show "sent_ok (send h sn f) i"
  proof (cases "i = sn_id sn")
    case False
    then have "sent_ok (send h sn f) i = sent_ok h i" by (intro sent_ok_cong) (simp_all add: send_other)
    then show ?thesis using assms by simp
  next
    case True
    have "sent_ok h i" using assms by simp
    then show ?thesis
      unfolding True
      by (auto simp: sent_ok_def send_def post_def progress_only_def sent_at_def last_posted_append js_has_def
          split: option.splits)
  qed
qed

lemma send_shows:
  assumes "sent_ok h (sn_id sn)"
  shows "page_shows (send h sn f) sn"
proof (cases "progress_only h sn f \<and> ho_now h - sent_at h (sn_id sn) < PROGRESS_INTERVAL_MS")
  case True
  then obtain t where "js_get (ho_lastSent h) (sn_id sn) = Some (t, sn_status sn)"
    by (auto simp: progress_only_def)
  then show ?thesis
    using assms True by (auto simp: send_def page_shows_def sent_ok_def js_has_def)
next
  case False
  then show ?thesis by (auto simp: send_def page_shows_def post_def last_posted_append)
qed

lemma send_shows_other: "sn_id sn' \<noteq> sn_id sn \<Longrightarrow> page_shows (send h sn f) sn' = page_shows h sn'"
  by (simp add: page_shows_def js_has_def send_other)

lemma changed_fields [simp]:
  "ho_runners (changed h sn) = ho_runners h" "ho_order (changed h sn) = ho_order h"
  "ho_maxParallel (changed h sn) = ho_maxParallel h" "ho_gone (changed h sn) = ho_gone h"
  "ho_now (changed h sn) = ho_now h" "ho_pumps (changed h sn) = Suc (ho_pumps h)"
  by (simp_all add: changed_def Let_def)

lemma sent_ok_pumps [simp]: "sent_ok (h\<lparr>ho_pumps := n\<rparr>) i = sent_ok h i"
  by (rule sent_ok_cong) simp_all

lemma shows_pumps [simp]: "page_shows (h\<lparr>ho_pumps := n\<rparr>) sn = page_shows h sn"
  by (simp add: page_shows_def)

lemma changes_fields [simp]:
  "ho_runners (foldl changed h sns) = ho_runners h" "ho_order (foldl changed h sns) = ho_order h"
  "ho_maxParallel (foldl changed h sns) = ho_maxParallel h" "ho_gone (foldl changed h sns) = ho_gone h"
  "ho_now (foldl changed h sns) = ho_now h" "ho_pumps (foldl changed h sns) = ho_pumps h + length sns"
  by (induction sns arbitrary: h) simp_all

lemma changes_sent_ok: "\<forall>i. sent_ok h i \<Longrightarrow> \<forall>i. sent_ok (foldl changed h sns) i"
proof (induction sns arbitrary: h)
  case (Cons sn sns)
  have "\<forall>i. sent_ok (changed h sn) i" using send_sent_ok [OF Cons.prems] by (simp add: changed_def Let_def)
  then show ?case using Cons.IH by simp
qed simp

lemma changes_shows_other:
  "\<forall>sn'\<in>set sns. sn_id sn' \<noteq> sn_id sn \<Longrightarrow> page_shows (foldl changed h sns) sn = page_shows h sn"
proof (induction sns arbitrary: h)
  case (Cons sn' sns)
  then have "sn_id sn \<noteq> sn_id sn'" by auto
  then have "page_shows (changed h sn') sn = page_shows h sn"
    by (simp add: changed_def Let_def send_shows_other)
  then show ?case using Cons by simp
qed simp

lemma changes_shows:
  assumes "\<forall>i. sent_ok h i" and "sns \<noteq> []"
  shows "page_shows (foldl changed h sns) (last sns)"
proof -
  obtain xs sn where sns: "sns = xs @ [sn]" using assms(2) by (meson rev_exhaust)
  have "sent_ok (foldl changed h xs) (sn_id sn)" using changes_sent_ok [OF assms(1)] by blast
  then show ?thesis unfolding sns by (simp add: changed_def Let_def send_shows)
qed

section \<open>The host's invariant\<close>

definition steps_count :: "host \<Rightarrow> nat" where
  "steps_count h = length (filter (\<lambda>(_, r). working r) (ho_runners h))"

definition store_ok :: "host \<Rightarrow> bool" where
  "store_ok h \<longleftrightarrow>
    distinct (js_keys (ho_runners h)) \<and> distinct (ho_order h) \<and>
    set (ho_order h) = set (js_keys (ho_runners h)) \<and>
    (\<forall>i r. js_get (ho_runners h) i = Some r \<longrightarrow> rn_id r = i) \<and>
    (\<forall>i r. js_get (ho_gone h) i = Some r \<longrightarrow> rn_id r = i \<and> \<not> js_has (ho_runners h) i)"

definition page_ok :: "host \<Rightarrow> bool" where
  "page_ok h \<longleftrightarrow>
    (\<forall>i. sent_ok h i) \<and>
    (\<forall>i r. js_get (ho_runners h) i = Some r \<longrightarrow> page_shows h (snapshot r))"

text \<open>Nothing queued while a slot is free.\<close>

definition slots_used :: "host \<Rightarrow> bool" where
  "slots_used h \<longleftrightarrow> ho_maxParallel h \<le> working_count h \<or> (\<forall>i\<in>set (ho_order h). \<not> queued h i)"

definition cancelling_gone :: "host \<Rightarrow> bool" where
  "cancelling_gone h \<longleftrightarrow> (\<exists>i r. js_get (ho_gone h) i = Some r \<and> rn_status r = StCancelling)"

definition host_wf :: "host \<Rightarrow> bool" where
  "host_wf h \<longleftrightarrow>
    store_ok h \<and> page_ok h \<and> steps_count h \<le> ho_maxParallel h \<and>
    (0 < ho_pumps h \<or> slots_used h \<or> cancelling_gone h)"

lemma count_js_set:
  assumes "distinct (js_keys m)" and "js_get m i = Some r"
  shows "length (filter (\<lambda>(_, r). P r) (js_set i r' m)) + (if P r then 1 else 0) =
    length (filter (\<lambda>(_, r). P r) m) + (if P r' then 1 else 0)"
  using assms
proof (induction m)
  case Nil
  then show ?case by simp
next
  case (Cons kv m)
  obtain k v where kv: "kv = (k, v)" by fastforce
  show ?case
  proof (cases "k = i")
    case True
    then show ?thesis using Cons.prems kv by (auto simp: js_set_def js_get_def)
  next
    case False
    then have "js_get m i = Some r" and "distinct (js_keys m)"
      using Cons.prems kv by (auto simp: js_get_def js_keys_def)
    then show ?thesis using Cons.IH False kv by (simp add: js_set_def)
  qed
qed

lemma count_js_del:
  "length (filter (\<lambda>(_, r). P r) (js_del i m)) \<le> length (filter (\<lambda>(_, r). P r) m)"
  unfolding js_del_def by (induction m) auto

lemma working_isWorking: "working r \<Longrightarrow> isWorking r"
  by (auto simp: working_def isWorking_def rn_status_def)

lemma steps_le_working: "steps_count h \<le> working_count h"
proof -
  have "length (filter (\<lambda>(_, r). working r) m) \<le> length (filter (\<lambda>(_, r). isWorking r) m)"
    for m :: "(string \<times> runner) list"
    by (induction m) (auto simp: working_isWorking)
  then show ?thesis by (simp add: steps_count_def working_count_def)
qed

lemma counts_cong:
  "ho_runners h' = ho_runners h \<Longrightarrow> working_count h' = working_count h"
  "ho_runners h' = ho_runners h \<Longrightarrow> steps_count h' = steps_count h"
  "ho_runners h' = ho_runners h \<Longrightarrow> queued h' i = queued h i"
  by (simp_all add: working_count_def steps_count_def queued_def)

lemma slots_used_cong:
  "ho_runners h' = ho_runners h \<Longrightarrow> ho_order h' = ho_order h \<Longrightarrow> ho_maxParallel h' = ho_maxParallel h \<Longrightarrow>
    slots_used h' = slots_used h"
  by (simp add: slots_used_def working_count_def queued_def)

section \<open>A label of a runner\<close>

lemma at_runner_runners:
  assumes "js_get (ho_runners h) i = Some r"
  shows "ho_runners (at_runner i l h) = js_set i (runner_step r l) (ho_runners h)"
  using assms by (simp add: at_runner_def Let_def)

lemma at_runner_fields [simp]:
  "ho_order (at_runner i l h) = ho_order h" "ho_maxParallel (at_runner i l h) = ho_maxParallel h"
  "ho_gone (at_runner i l h) = ho_gone h" "ho_now (at_runner i l h) = ho_now h"
  by (simp_all add: at_runner_def Let_def split: option.splits)

lemma at_runner_keys [simp]: "js_keys (ho_runners (at_runner i l h)) = js_keys (ho_runners h)"
proof (cases "js_get (ho_runners h) i")
  case (Some r)
  then have "i \<in> set (js_keys (ho_runners h))" using js.get_keys [of "ho_runners h" i] by simp
  then show ?thesis using Some by (simp add: at_runner_runners js.keys_put)
qed (simp add: at_runner_def)

lemma at_runner_get:
  "js_get (ho_runners (at_runner i l h)) j =
    (if j = i then map_option (\<lambda>r. runner_step r l) (js_get (ho_runners h) i) else js_get (ho_runners h) j)"
  by (cases "js_get (ho_runners h) i") (simp_all add: at_runner_runners, simp_all add: at_runner_def)

lemma step_id [simp]: "rn_id (runner_step r l) = rn_id r"
  using reports_step [of r l] by (simp add: reports_def)

lemma at_runner_has [simp]: "js_has (ho_runners (at_runner i l h)) j = js_has (ho_runners h) j"
  by (simp add: js_has_keys)

lemma at_runner_store: "store_ok h \<Longrightarrow> store_ok (at_runner i l h)"
  unfolding store_ok_def by (auto simp: at_runner_get split: if_splits)

lemma page_shows_cong:
  "ho_lastSent h' = ho_lastSent h \<Longrightarrow> ho_trailing h' = ho_trailing h \<Longrightarrow> ho_out h' = ho_out h \<Longrightarrow>
    page_shows h' sn = page_shows h sn"
  by (simp add: page_shows_def)

lemma page_changes:
  assumes wf: "\<forall>j. sent_ok h j" and rep: "reports r r'" and shown: "page_shows h (snapshot r)"
  shows "page_shows (foldl changed h (news r r')) (snapshot r')"
proof (cases "news r r' = []")
  case True
  then show ?thesis using rep shown by (simp add: reports_def)
next
  case False
  then have "last (news r r') = snapshot r'" using rep by (simp add: reports_def)
  then show ?thesis using changes_shows [OF wf False] by simp
qed

lemma at_runner_page:
  assumes "store_ok h" and "page_ok h"
  shows "page_ok (at_runner i l h)"
proof (cases "js_get (ho_runners h) i")
  case None
  then show ?thesis using assms by (simp add: at_runner_def)
next
  case (Some r)
  let ?r = "runner_step r l"
  let ?h = "h\<lparr>ho_runners := js_set i ?r (ho_runners h)\<rparr>"
  have at: "at_runner i l h = foldl changed ?h (news r ?r)" using Some by (simp add: at_runner_def Let_def)
  have rep: "reports r ?r" by (rule reports_step)
  have sent: "\<forall>j. sent_ok ?h j" using assms(2) sent_ok_cong [of ?h _ h] by (simp add: page_ok_def)
  have id: "rn_id r = i" using assms(1) Some by (simp add: store_ok_def)
  have shown: "page_shows ?h sn = page_shows h sn" for sn by (rule page_shows_cong) simp_all
  have "page_shows (at_runner i l h) (snapshot r')" if "js_get (ho_runners (at_runner i l h)) j = Some r'" for j r'
  proof (cases "j = i")
    case True
    then have "r' = ?r" using that Some by (simp add: at_runner_get)
    moreover have "page_shows h (snapshot r)" using assms(2) Some by (simp add: page_ok_def)
    ultimately show ?thesis unfolding at using page_changes [OF sent rep] shown by simp
  next
    case False
    then have j: "js_get (ho_runners h) j = Some r'" using that by (simp add: at_runner_get)
    then have "rn_id r' = j" using assms(1) by (simp add: store_ok_def)
    then have "\<forall>sn\<in>set (news r ?r). sn_id sn \<noteq> sn_id (snapshot r')"
      using rep False id by (auto simp: reports_def)
    then have "page_shows (at_runner i l h) (snapshot r') = page_shows ?h (snapshot r')"
      unfolding at by (rule changes_shows_other)
    then show ?thesis using assms(2) j shown by (simp add: page_ok_def)
  qed
  moreover have "\<forall>j. sent_ok (at_runner i l h) j" unfolding at by (rule changes_sent_ok [OF sent])
  ultimately show ?thesis by (simp add: page_ok_def)
qed

lemma news_nil_status: "news r (runner_step r l) = [] \<Longrightarrow> rn_status (runner_step r l) = rn_status r"
proof -
  assume "news r (runner_step r l) = []"
  then have "snapshot (runner_step r l) = snapshot r" using reports_step [of r l] by (simp add: reports_def)
  then show ?thesis by (metis snapshot_status)
qed

lemma closing_step: "closing r \<Longrightarrow> closing (runner_step r l)"
proof (cases "l = Start")
  case True
  moreover assume "closing r"
  ultimately show ?thesis using start_ignored [of r] by (auto simp: closing_def)
next
  case False
  moreover assume "closing r"
  ultimately show ?thesis using quiet_step [of l r] by (simp add: quiet_def)
qed

lemma working_step: "l \<noteq> Start \<Longrightarrow> working (runner_step r l) \<Longrightarrow> working r"
  using quiet_step [of l r] by (simp add: quiet_def)

lemma at_runner_steps:
  assumes "store_ok h" and "l \<noteq> Start"
  shows "steps_count (at_runner i l h) \<le> steps_count h"
proof (cases "js_get (ho_runners h) i")
  case (Some r)
  then show ?thesis
    using count_js_set [of "ho_runners h" i r working "runner_step r l"] assms working_step [OF assms(2), of r]
    by (auto simp: steps_count_def at_runner_runners store_ok_def split: if_splits)
qed (simp add: at_runner_def)

lemma at_runner_pumps:
  "ho_pumps (at_runner i l h) =
    ho_pumps h + (case js_get (ho_runners h) i of None \<Rightarrow> 0 | Some r \<Rightarrow> length (news r (runner_step r l)))"
  by (simp add: at_runner_def Let_def split: option.splits)

lemma at_runner_slots:
  assumes "store_ok h" and "slots_used h"
  shows "0 < ho_pumps (at_runner i l h) \<or> slots_used (at_runner i l h)"
proof (cases "js_get (ho_runners h) i")
  case None
  then show ?thesis using assms(2) by (simp add: at_runner_def)
next
  case (Some r)
  show ?thesis
  proof (cases "news r (runner_step r l) = []")
    case False
    then show ?thesis using Some by (simp add: at_runner_pumps)
  next
    case True
    then have st: "rn_status (runner_step r l) = rn_status r" by (rule news_nil_status)
    then have "working_count (at_runner i l h) = working_count h"
      using count_js_set [of "ho_runners h" i r isWorking "runner_step r l"] assms(1) Some
      by (simp add: working_count_def at_runner_runners store_ok_def isWorking_def)
    moreover have "queued (at_runner i l h) j = queued h j" for j
      using Some st by (auto simp: queued_def at_runner_get)
    ultimately show ?thesis using assms(2) by (simp add: slots_used_def)
  qed
qed

section \<open>The pump\<close>

lemma start_counts:
  assumes "store_ok h" and "queued h i"
  shows "working_count (at_runner i Start h) = Suc (working_count h)"
    and "steps_count (at_runner i Start h) = Suc (steps_count h)"
    and "\<not> queued (at_runner i Start h) i"
proof -
  obtain r where r: "js_get (ho_runners h) i = Some r" "rn_status r = StQueued"
    using assms(2) by (auto simp: queued_def)
  have w: "working (runner_step r Start)" using start_step(2) [OF r(2)] .
  have nw: "\<not> isWorking r" "\<not> working r"
    using r(2) working_isWorking [of r] by (auto simp: isWorking_def)
  have d: "distinct (js_keys (ho_runners h))" using assms(1) by (simp add: store_ok_def)
  show "working_count (at_runner i Start h) = Suc (working_count h)"
    using count_js_set [OF d r(1), of isWorking "runner_step r Start"] nw w r(1)
    by (simp add: working_count_def at_runner_runners working_isWorking)
  show "steps_count (at_runner i Start h) = Suc (steps_count h)"
    using count_js_set [OF d r(1), of working "runner_step r Start"] nw w r(1)
    by (simp add: steps_count_def at_runner_runners)
  show "\<not> queued (at_runner i Start h) i"
    using w r(1) by (auto simp: queued_def at_runner_get working_def rn_status_def)
qed

lemma queued_start: "queued (at_runner i Start h) j \<Longrightarrow> queued h j"
proof (cases "j = i \<and> \<not> queued h i")
  case True
  moreover assume "queued (at_runner i Start h) j"
  ultimately show ?thesis using start_ignored by (auto simp: queued_def at_runner_get)
next
  case False
  moreover assume "queued (at_runner i Start h) j"
  ultimately show ?thesis by (auto simp: queued_def at_runner_get split: if_splits)
qed

lemma pump_list_fields [simp]:
  "ho_order (pump_list is w h) = ho_order h" "ho_maxParallel (pump_list is w h) = ho_maxParallel h"
  "ho_gone (pump_list is w h) = ho_gone h"
  "js_keys (ho_runners (pump_list is w h)) = js_keys (ho_runners h)"
  by (induction "is" w h rule: pump_list.induct) simp_all

lemma pump_list_queued: "queued (pump_list is w h) j \<Longrightarrow> queued h j"
  by (induction "is" w h rule: pump_list.induct) (auto split: if_splits dest: queued_start)

lemma pump_list_wf:
  assumes "store_ok h" and "page_ok h" and "steps_count h \<le> ho_maxParallel h" and "w = working_count h"
  shows "store_ok (pump_list is w h) \<and> page_ok (pump_list is w h) \<and>
    steps_count (pump_list is w h) \<le> ho_maxParallel h \<and>
    (ho_maxParallel h \<le> working_count (pump_list is w h) \<or> (\<forall>i\<in>set is. \<not> queued (pump_list is w h) i))"
  using assms
proof (induction "is" arbitrary: w h)
  case Nil
  then show ?case by simp
next
  case (Cons i "is")
  show ?case
  proof (cases "ho_maxParallel h \<le> w")
    case True
    then show ?thesis using Cons.prems by simp
  next
    case False
    show ?thesis
    proof (cases "queued h i")
      case nq: False
      then have "\<not> queued (pump_list is w h) i" using pump_list_queued by blast
      then show ?thesis using Cons.IH [OF Cons.prems] False nq by simp
    next
      case True
      let ?h = "at_runner i Start h"
      note c = start_counts [OF Cons.prems(1) True]
      have "steps_count ?h \<le> ho_maxParallel ?h"
        using c(2) steps_le_working [of h] False Cons.prems(4) by simp
      then have ih: "store_ok (pump_list is (Suc w) ?h) \<and> page_ok (pump_list is (Suc w) ?h) \<and>
          steps_count (pump_list is (Suc w) ?h) \<le> ho_maxParallel h \<and>
          (ho_maxParallel h \<le> working_count (pump_list is (Suc w) ?h) \<or>
            (\<forall>i\<in>set is. \<not> queued (pump_list is (Suc w) ?h) i))"
        using Cons.IH [of ?h "Suc w"] at_runner_store at_runner_page Cons.prems c(1) by simp
      moreover have "\<not> queued (pump_list is (Suc w) ?h) i" using c(3) pump_list_queued by blast
      ultimately show ?thesis using False True by simp
    qed
  qed
qed

lemma pump_list_fifo:
  assumes "is = pre @ j # rest" and "distinct is" and "queued h j"
    and "\<not> queued (pump_list is w h) j" and "store_ok h"
  shows "\<forall>i\<in>set pre. \<not> queued (pump_list is w h) i"
  using assms
proof (induction pre arbitrary: "is" w h)
  case Nil
  then show ?case by simp
next
  case (Cons a pre)
  let ?is = "pre @ j # rest"
  have d: "distinct ?is" "a \<noteq> j" using Cons.prems(1,2) by auto
  have busy: "\<not> ho_maxParallel h \<le> w"
  proof
    assume "ho_maxParallel h \<le> w"
    then have "pump_list is w h = h" using Cons.prems(1) by simp
    then show False using Cons.prems(3,4) by simp
  qed
  show ?case
  proof (cases "queued h a")
    case False
    then have step: "pump_list is w h = pump_list ?is w h" using Cons.prems(1) busy by simp
    have "\<forall>i\<in>set pre. \<not> queued (pump_list ?is w h) i"
      by (rule Cons.IH [OF refl d(1) Cons.prems(3) _ Cons.prems(5)]) (use Cons.prems(4) step in simp)
    moreover have "\<not> queued (pump_list ?is w h) a" using False pump_list_queued by blast
    ultimately show ?thesis unfolding step by simp
  next
    case True
    let ?h = "at_runner a Start h"
    have step: "pump_list is w h = pump_list ?is (Suc w) ?h" using Cons.prems(1) busy True by simp
    have "queued ?h j" using Cons.prems(3) d(2) by (auto simp: queued_def at_runner_get)
    then have "\<forall>i\<in>set pre. \<not> queued (pump_list ?is (Suc w) ?h) i"
      by (rule Cons.IH [OF refl d(1) _ _ at_runner_store [OF Cons.prems(5)]])
        (use Cons.prems(4) step in simp)
    moreover have "\<not> queued (pump_list ?is (Suc w) ?h) a"
      using start_counts(3) [OF Cons.prems(5) True] pump_list_queued by blast
    ultimately show ?thesis unfolding step by simp
  qed
qed

lemma pump_wf:
  assumes "store_ok h" and "page_ok h" and "steps_count h \<le> ho_maxParallel h"
  shows "host_wf (pump h)"
  using pump_list_wf [OF assms refl, of "ho_order h"]
  by (auto simp: host_wf_def pump_def slots_used_def)

section \<open>Every label of the host\<close>

definition removing_ok :: "host \<Rightarrow> bool" where
  "removing_ok h \<longleftrightarrow>
    (\<forall>i w. (i, w) \<in> set (ho_removing h) \<longrightarrow>
      (\<forall>r. js_get (ho_runners h) i = Some r \<longrightarrow> closing r) \<and>
      (js_has (ho_runners h) i \<or> js_has (ho_gone h) i))"

definition host_inv :: "host \<Rightarrow> bool" where
  "host_inv h \<longleftrightarrow> host_wf h \<and> removing_ok h"

text \<open>
  What the page and the runners may do: ids are not reused after a removal (they are random),
  the limit is not lowered below what is at work, and runners are started by the pump alone.
\<close>

fun host_label_ok :: "host \<Rightarrow> host_label \<Rightarrow> bool" where
  "host_label_ok h (Message (Add i name fsize tok)) = (\<not> js_has (ho_gone h) i)"
| "host_label_ok h (Message (Configure url n)) = (steps_count h \<le> nat (max 1 n))"
| "host_label_ok h (RunnerLabel i l) = (l \<noteq> Start)"
| "host_label_ok h _ = True"

lemma host_wf_cong:
  assumes "ho_runners h' = ho_runners h" and "ho_order h' = ho_order h" and "ho_gone h' = ho_gone h"
    and "ho_maxParallel h' = ho_maxParallel h" and "ho_pumps h' = ho_pumps h" and "page_ok h'"
  shows "host_wf h \<Longrightarrow> host_wf h'"
  using assms slots_used_cong [of h' h]
  by (simp add: host_wf_def store_ok_def steps_count_def cancelling_gone_def)

lemma at_runner_removing [simp]: "ho_removing (at_runner i l h) = ho_removing h"
proof -
  have "ho_removing (foldl changed h sns) = ho_removing h" for h sns
    by (induction sns arbitrary: h) (simp_all add: changed_def Let_def)
  then show ?thesis by (simp add: at_runner_def Let_def split: option.splits)
qed

lemma removing_at_runner: "removing_ok h \<Longrightarrow> removing_ok (at_runner i l h)"
  unfolding removing_ok_def by (auto simp: at_runner_get closing_step split: if_splits)

lemma host_wf_at_runner: "host_wf h \<Longrightarrow> l \<noteq> Start \<Longrightarrow> host_wf (at_runner i l h)"
proof -
  assume wf: "host_wf h" and l: "l \<noteq> Start"
  then have st: "store_ok h" by (simp add: host_wf_def)
  have "0 < ho_pumps h \<Longrightarrow> 0 < ho_pumps (at_runner i l h)" by (simp add: at_runner_pumps)
  moreover have "cancelling_gone (at_runner i l h) = cancelling_gone h" by (simp add: cancelling_gone_def)
  ultimately show ?thesis
    using wf at_runner_steps [OF st l, of i] at_runner_store [OF st, of i l] at_runner_page [OF st, of i l]
      at_runner_slots [OF st, of i l]
    unfolding host_wf_def by (metis at_runner_fields(2) le_trans)
qed

lemma host_inv_at_runner: "host_inv h \<Longrightarrow> l \<noteq> Start \<Longrightarrow> host_inv (at_runner i l h)"
  by (simp add: host_inv_def host_wf_at_runner removing_at_runner)

lemma host_inv_at_all: "host_inv h \<Longrightarrow> l \<noteq> Start \<Longrightarrow> host_inv (at_all l h)"
proof -
  assume l: "l \<noteq> Start"
  have "host_inv h \<Longrightarrow> host_inv (fold (\<lambda>i. at_runner i l) is h)" for "is" h
    by (induction "is" arbitrary: h) (simp_all add: host_inv_at_runner [OF _ l])
  then show "host_inv h \<Longrightarrow> host_inv (at_all l h)" by (simp add: at_all_def)
qed

lemma pump_list_removing: "removing_ok h \<Longrightarrow> removing_ok (pump_list is w h)"
  by (induction "is" w h rule: pump_list.induct) (simp_all add: removing_at_runner)

lemma host_inv_pump:
  "store_ok h \<Longrightarrow> page_ok h \<Longrightarrow> steps_count h \<le> ho_maxParallel h \<Longrightarrow> removing_ok h \<Longrightarrow> host_inv (pump h)"
  using pump_wf by (simp add: host_inv_def pump_list_removing pump_def)

lemma page_ok_cong:
  assumes "ho_runners h' = ho_runners h" and "ho_lastSent h' = ho_lastSent h"
    and "ho_trailing h' = ho_trailing h" and "ho_now h \<le> ho_now h'"
    and "\<And>i. last_posted (ho_out h') i = last_posted (ho_out h) i"
  shows "page_ok h \<Longrightarrow> page_ok h'"
proof -
  assume ok: "page_ok h"
  have "sent_ok h i \<Longrightarrow> sent_ok h' i" for i
    using assms by (cases "js_get (ho_lastSent h) i") (auto simp: sent_ok_def)
  moreover have "page_shows h' sn = page_shows h sn" for sn
    using assms by (simp add: page_shows_def)
  ultimately show ?thesis using ok assms(1) by (simp add: page_ok_def)
qed

lemma store_ok_cong:
  "ho_runners h' = ho_runners h \<Longrightarrow> ho_order h' = ho_order h \<Longrightarrow> ho_gone h' = ho_gone h \<Longrightarrow>
    store_ok h' = store_ok h"
  by (simp add: store_ok_def)

lemma host_inv_configure:
  assumes "host_inv h" and "steps_count h \<le> n"
  shows "host_inv (pump (h\<lparr>ho_maxParallel := n\<rparr>))"
proof (rule host_inv_pump)
  show "store_ok (h\<lparr>ho_maxParallel := n\<rparr>)"
    using assms(1) store_ok_cong [of "h\<lparr>ho_maxParallel := n\<rparr>" h] by (simp add: host_inv_def host_wf_def)
  show "page_ok (h\<lparr>ho_maxParallel := n\<rparr>)"
    using assms(1) page_ok_cong [of "h\<lparr>ho_maxParallel := n\<rparr>" h] by (simp add: host_inv_def host_wf_def)
  show "steps_count (h\<lparr>ho_maxParallel := n\<rparr>) \<le> ho_maxParallel (h\<lparr>ho_maxParallel := n\<rparr>)"
    using assms(2) by (simp add: steps_count_def)
  show "removing_ok (h\<lparr>ho_maxParallel := n\<rparr>)"
    using assms(1) by (simp add: host_inv_def removing_ok_def)
qed

lemma host_inv_run_pump: "host_inv h \<Longrightarrow> host_inv (run_pump h)"
proof -
  assume inv: "host_inv h"
  let ?h = "h\<lparr>ho_pumps := ho_pumps h - 1\<rparr>"
  have "store_ok ?h" using inv store_ok_cong [of ?h h] by (simp add: host_inv_def host_wf_def)
  moreover have "page_ok ?h" using inv page_ok_cong [of ?h h] by (simp add: host_inv_def host_wf_def)
  moreover have "steps_count ?h \<le> ho_maxParallel ?h"
    using inv by (simp add: host_inv_def host_wf_def steps_count_def)
  moreover have "removing_ok ?h" using inv by (simp add: host_inv_def removing_ok_def)
  ultimately show ?thesis using inv host_inv_pump by (simp add: run_pump_def)
qed

section \<open>The queue\<close>

lemma reorder_order:
  assumes "distinct (ho_order h)"
  shows "ho_order (reorder i n h) =
    (if i \<in> set (ho_order h)
     then insert_at (clamp_index n (length (ho_order h) - 1)) i (filter (\<lambda>j. j \<noteq> i) (ho_order h))
     else ho_order h)"
proof (cases "find_index (\<lambda>j. j = i) (ho_order h)")
  case None
  then have "i \<notin> set (ho_order h)" by (auto simp: find_index_None)
  then show ?thesis using None by (simp add: reorder_def)
next
  case (Some k)
  have "k < length (ho_order h)" and "ho_order h ! k = i"
    using find_index_Some [OF Some] by simp_all
  then have m: "i \<in> set (ho_order h)" by (metis nth_mem)
  have r: "remove_at k (ho_order h) = filter (\<lambda>j. j \<noteq> i) (ho_order h)"
    using remove_at_find [OF assms Some] .
  show ?thesis using Some r m length_filter_neq [OF assms m] by (simp add: reorder_def pump_def Let_def)
qed

lemma reorder_absent: "i \<notin> set (ho_order h) \<Longrightarrow> reorder i n h = h"
  using find_index_None [of "\<lambda>j. j = i" "ho_order h"] by (auto simp: reorder_def)

interpretation host_queue: reorderable ho_order reorder
  by unfold_locales (simp_all add: reorder_absent reorder_order)

lemma host_inv_reorder: "host_inv h \<Longrightarrow> host_inv (reorder i n h)"
proof -
  assume inv: "host_inv h"
  then have d: "distinct (ho_order h)" by (simp add: host_inv_def host_wf_def store_ok_def)
  show ?thesis
  proof (cases "find_index (\<lambda>j. j = i) (ho_order h)")
    case None
    then show ?thesis using inv by (simp add: reorder_def)
  next
    case (Some k)
    let ?order = "insert_at (clamp_index n (length (remove_at k (ho_order h)))) i (remove_at k (ho_order h))"
    let ?h = "h\<lparr>ho_order := ?order\<rparr>"
    have r: "reorder i n h = pump ?h" using Some by (simp add: reorder_def Let_def)
    have o: "ho_order (reorder i n h) = ?order" unfolding r by (simp add: pump_def)
    have "set ?order = set (ho_order h)" and "distinct ?order"
      using host_queue.move_set [OF d, of i n] host_queue.move_distinct [OF d, of i n] unfolding o by simp_all
    then have "store_ok ?h" using inv by (simp add: host_inv_def host_wf_def store_ok_def)
    moreover have "page_ok ?h" using inv page_ok_cong [of ?h h] by (simp add: host_inv_def host_wf_def)
    moreover have "steps_count ?h \<le> ho_maxParallel ?h"
      using inv by (simp add: host_inv_def host_wf_def steps_count_def)
    moreover have "removing_ok ?h" using inv by (simp add: host_inv_def removing_ok_def)
    ultimately show ?thesis unfolding r by (rule host_inv_pump)
  qed
qed

section \<open>Adding and removing\<close>

lemma js_set_absent: "i \<notin> set (js_keys m) \<Longrightarrow> js_set i v m = m @ [(i, v)]"
  unfolding js_set_def js_keys_def by (induction m) auto

lemma new_runner_facts [simp]:
  "rn_id (new_runner i name n tok) = i" "\<not> working (new_runner i name n tok)"
  by (simp_all add: new_runner_def working_def initialState_def)

lemma host_inv_add:
  assumes inv: "host_inv h" and fresh: "\<not> js_has (ho_gone h) i"
  shows "host_inv (add_upload i name fsize tok h)"
proof (cases "js_has (ho_runners h) i")
  case True
  then show ?thesis using inv by (simp add: add_upload_def)
next
  case False
  let ?r = "new_runner i name fsize tok"
  let ?h = "h\<lparr>ho_runners := js_set i ?r (ho_runners h), ho_order := ho_order h @ [i]\<rparr>"
  have st: "store_ok h" and pg: "page_ok h" using inv by (simp_all add: host_inv_def host_wf_def)
  have absent: "i \<notin> set (js_keys (ho_runners h))" using False by (simp add: js_has_keys)
  have "store_ok ?h"
    using st absent fresh
    by (auto simp: store_ok_def js.distinct_put js.set_keys_put js_has_simps js_has_def)
  then have "store_ok (send ?h (snapshot ?r) True)"
    using store_ok_cong [of "send ?h (snapshot ?r) True" ?h] by simp
  moreover have sent: "\<forall>j. sent_ok ?h j"
    using pg sent_ok_cong [of ?h _ h] by (simp add: page_ok_def)
  have "page_ok (send ?h (snapshot ?r) True)"
    unfolding page_ok_def
  proof (intro conjI allI impI)
    fix j show "sent_ok (send ?h (snapshot ?r) True) j" using send_sent_ok [OF sent] by blast
  next
    fix j r assume r: "js_get (ho_runners (send ?h (snapshot ?r) True)) j = Some r"
    show "page_shows (send ?h (snapshot ?r) True) (snapshot r)"
    proof (cases "j = i")
      case True
      then show ?thesis using r sent by (simp add: send_shows)
    next
      case False
      then have j: "js_get (ho_runners h) j = Some r" using r by simp
      then have "rn_id r = j" using st by (simp add: store_ok_def)
      then have "page_shows (send ?h (snapshot ?r) True) (snapshot r) = page_shows ?h (snapshot r)"
        using False by (intro send_shows_other) simp
      also have "\<dots> = page_shows h (snapshot r)" by (rule page_shows_cong) simp_all
      finally show ?thesis using pg j by (simp add: page_ok_def)
    qed
  qed
  moreover have "steps_count (send ?h (snapshot ?r) True) \<le> ho_maxParallel (send ?h (snapshot ?r) True)"
    using inv absent by (simp add: steps_count_def js_set_absent host_inv_def host_wf_def)
  moreover have "removing_ok (send ?h (snapshot ?r) True)"
    using inv False fresh by (auto simp: host_inv_def removing_ok_def)
  ultimately have "host_inv (pump (send ?h (snapshot ?r) True))" by (intro host_inv_pump)
  then show ?thesis using False by (simp add: add_upload_def Let_def)
qed

lemma cancel_closes: "closing (runner_step r Cancel)"
proof (cases "applies r CANCEL")
  case True
  then have "closing (dispatch r CANCEL)"
    by (auto simp: closing_iff applies_def after_def split: upload_phase.splits)
  then show ?thesis using True by (simp add: runner_step_def closing_iff)
next
  case False
  then have "closing r" by (auto simp: closing_iff applies_def split: upload_phase.splits)
  then show ?thesis using False by (simp add: runner_step_def)
qed

lemma host_inv_remove_start: "host_inv h \<Longrightarrow> host_inv (remove_start i h)"
proof -
  assume inv: "host_inv h"
  show ?thesis
  proof (cases "js_get (ho_runners h) i")
    case None
    then show ?thesis using inv by (simp add: remove_start_def)
  next
    case (Some r)
    let ?h = "at_runner i Cancel h"
    let ?h' = "?h\<lparr>ho_removing := ho_removing ?h @ [(i, applies r CANCEL)]\<rparr>"
    have i: "host_inv ?h" using inv by (rule host_inv_at_runner) simp
    then have "page_ok ?h'" using page_ok_cong [of ?h' ?h] by (simp add: host_inv_def host_wf_def)
    then have "host_wf ?h'" using i by (intro host_wf_cong [of ?h' ?h]) (simp_all add: host_inv_def)
    moreover have "removing_ok ?h'"
      using i Some cancel_closes
      by (auto simp: host_inv_def removing_ok_def at_runner_get js_has_def)
    ultimately show ?thesis using Some by (simp add: remove_start_def host_inv_def Let_def)
  qed
qed

lemma last_posted_removed [simp]: "last_posted (ms @ [Removed i]) j = last_posted ms j"
  by (simp add: last_posted_append)

lemma closing_idle: "closing r \<Longrightarrow> rn_status r \<noteq> StCancelling \<Longrightarrow> \<not> isWorking r \<and> rn_status r \<noteq> StQueued"
  by (auto simp: closing_def isWorking_def)

lemma count_js_del_other:
  "(\<forall>r. (i, r) \<in> set m \<longrightarrow> \<not> P r) \<Longrightarrow>
    length (filter (\<lambda>(_, r). P r) (js_del i m)) = length (filter (\<lambda>(_, r). P r) m)"
  unfolding js_del_def by (induction m) auto

lemma forget_fields [simp]:
  "ho_runners (forget i w h) = js_del i (ho_runners h)"
  "ho_order (forget i w h) = filter (\<lambda>j. j \<noteq> i) (ho_order h)"
  "ho_maxParallel (forget i w h) = ho_maxParallel h" "ho_pumps (forget i w h) = ho_pumps h"
  "ho_now (forget i w h) = ho_now h"
  "ho_trailing (forget i w h) = js_del i (ho_trailing h)"
  "ho_lastSent (forget i w h) = js_del i (ho_lastSent h)"
  "ho_removing (forget i w h) = remove1 (i, w) (ho_removing h)"
  "ho_gone (forget i w h) = (case js_get (ho_runners h) i of
         None \<Rightarrow> ho_gone h | Some r \<Rightarrow> js_set i (runner_step r Dispose) (ho_gone h))"
  "last_posted (ho_out (forget i w h)) j = last_posted (ho_out h) j"
  by (simp_all add: forget_def post_def)

lemma dispose_status [simp]: "rn_status (runner_step r Dispose) = rn_status r"
  by (simp add: runner_step_def rn_status_def)

lemma forget_page: "store_ok h \<Longrightarrow> page_ok h \<Longrightarrow> page_ok (forget i w h)"
  unfolding page_ok_def
proof (intro conjI allI impI; elim conjE)
  fix j assume "\<forall>j. sent_ok h j"
  then show "sent_ok (forget i w h) j"
    using sent_ok_cong [of "forget i w h" j h] by (cases "j = i") (simp_all add: sent_ok_def)
next
  fix j r
  assume st: "store_ok h" and r: "js_get (ho_runners (forget i w h)) j = Some r"
    and ok: "\<forall>i r. js_get (ho_runners h) i = Some r \<longrightarrow> page_shows h (snapshot r)"
  have j: "j \<noteq> i" "js_get (ho_runners h) j = Some r" using r by (auto split: if_splits)
  then have "rn_id r = j" using st by (simp add: store_ok_def)
  then have "page_shows (forget i w h) (snapshot r) = page_shows h (snapshot r)"
    using j(1) by (simp add: page_shows_def js_has_def)
  then show "page_shows (forget i w h) (snapshot r)" using ok j(2) by simp
qed

lemma forget_store: "store_ok h \<Longrightarrow> store_ok (forget i w h)"
  by (auto simp: store_ok_def js.distinct_del js.set_keys_del js_has_def split: option.splits if_splits)

lemma forget_slots:
  assumes "store_ok h" and "\<forall>r. js_get (ho_runners h) i = Some r \<longrightarrow> closing r" and "slots_used h"
  shows "slots_used (forget i w h) \<or> cancelling_gone (forget i w h)"
proof (cases "\<exists>r. js_get (ho_runners h) i = Some r \<and> rn_status r = StCancelling")
  case True
  then obtain r where "js_get (ho_runners h) i = Some r" "rn_status r = StCancelling" by blast
  then have "js_get (ho_gone (forget i w h)) i = Some (runner_step r Dispose)"
    and "rn_status (runner_step r Dispose) = StCancelling" by simp_all
  then show ?thesis unfolding cancelling_gone_def by blast
next
  case False
  have "\<not> isWorking r" if "(i, r) \<in> set (ho_runners h)" for r
    using that assms(1,2) False closing_idle by (auto simp: store_ok_def dest: js_get_in_set)
  then have "working_count (forget i w h) = working_count h"
    unfolding working_count_def forget_fields by (intro count_js_del_other) blast
  moreover have "queued (forget i w h) j \<Longrightarrow> queued h j" for j by (auto simp: queued_def split: if_splits)
  ultimately show ?thesis using assms(3) by (auto simp: slots_used_def)
qed

lemma cancelling_gone_forget:
  assumes "store_ok h" and "cancelling_gone h"
  shows "cancelling_gone (forget i w h)"
proof -
  obtain j r where j: "js_get (ho_gone h) j = Some r" "rn_status r = StCancelling"
    using assms(2) by (auto simp: cancelling_gone_def)
  then have "\<not> js_has (ho_runners h) j" using assms(1) by (simp add: store_ok_def)
  then have "js_get (ho_runners h) i = None \<or> j \<noteq> i" by (auto simp: js_has_def)
  then have "js_get (ho_gone (forget i w h)) j = Some r" using j(1) by (auto split: option.splits)
  then show ?thesis using j(2) by (auto simp: cancelling_gone_def)
qed

lemma host_inv_forget:
  assumes inv: "host_inv h" and mem: "(i, w) \<in> set (ho_removing h)"
  shows "host_inv (forget i w h)"
proof -
  have st: "store_ok h" and pg: "page_ok h" and rm: "removing_ok h" using inv by (simp_all add: host_inv_def host_wf_def)
  have c: "\<forall>r. js_get (ho_runners h) i = Some r \<longrightarrow> closing r" using rm mem by (auto simp: removing_ok_def)
  have "steps_count (forget i w h) \<le> steps_count h"
    by (simp add: steps_count_def count_js_del)
  then have "steps_count (forget i w h) \<le> ho_maxParallel (forget i w h)"
    using inv by (simp add: host_inv_def host_wf_def)
  moreover have "0 < ho_pumps (forget i w h) \<or> slots_used (forget i w h) \<or> cancelling_gone (forget i w h)"
    using inv forget_slots [OF st c] cancelling_gone_forget [OF st, of i w] by (auto simp: host_inv_def host_wf_def)
  moreover have "removing_ok (forget i w h)"
    unfolding removing_ok_def
  proof (intro allI impI)
    fix j w'
    assume "(j, w') \<in> set (ho_removing (forget i w h))"
    then have "(j, w') \<in> set (ho_removing h)" using set_remove1_subset by fastforce
    then have "\<forall>r. js_get (ho_runners h) j = Some r \<longrightarrow> closing r" and "js_has (ho_runners h) j \<or> js_has (ho_gone h) j"
      using rm unfolding removing_ok_def by blast+
    then show "(\<forall>r. js_get (ho_runners (forget i w h)) j = Some r \<longrightarrow> closing r) \<and>
        (js_has (ho_runners (forget i w h)) j \<or> js_has (ho_gone (forget i w h)) j)"
      by (auto simp: js_has_def split: option.splits)
  qed
  ultimately show ?thesis using forget_page [OF st pg] forget_store [OF st] by (simp add: host_inv_def host_wf_def)
qed

lemma host_inv_remove_end: "host_inv h \<Longrightarrow> host_inv (remove_end i w h)"
proof -
  assume inv: "host_inv h"
  have "remove_end i w h = h \<or> (i, w) \<in> set (ho_removing h) \<and> remove_end i w h = forget i w h"
    by (simp add: remove_end_def)
  then show ?thesis using inv host_inv_forget by auto
qed

section \<open>The other tasks\<close>

lemma host_inv_at_gone: "host_inv h \<Longrightarrow> host_inv (at_gone i l h)"
proof -
  assume inv: "host_inv h"
  show ?thesis
  proof (cases "js_get (ho_gone h) i")
    case None
    then show ?thesis using inv by (simp add: at_gone_def)
  next
    case (Some r)
    let ?r = "runner_step r l"
    let ?h = "h\<lparr>ho_gone := js_set i ?r (ho_gone h)\<rparr>"
    let ?h' = "foldl changed ?h (news r ?r)"
    have at: "at_gone i l h = ?h'" using Some by (simp add: at_gone_def Let_def)
    have st: "store_ok h" and pg: "page_ok h" and rm: "removing_ok h"
      using inv by (simp_all add: host_inv_def host_wf_def)
    have id: "rn_id r = i" and na: "\<not> js_has (ho_runners h) i" using st Some by (auto simp: store_ok_def)
    have "store_ok ?h'" using st id na by (auto simp: store_ok_def)
    moreover have sent: "\<forall>j. sent_ok ?h j" using pg sent_ok_cong [of ?h _ h] by (simp add: page_ok_def)
    have "page_ok ?h'"
      unfolding page_ok_def
    proof (intro conjI allI impI)
      fix j show "sent_ok ?h' j" using changes_sent_ok [OF sent] by blast
    next
      fix j r' assume "js_get (ho_runners ?h') j = Some r'"
      then have j: "js_get (ho_runners h) j = Some r'" by simp
      then have "rn_id r' = j" and "j \<noteq> i" using st na by (auto simp: store_ok_def js_has_def)
      then have "\<forall>sn\<in>set (news r ?r). sn_id sn \<noteq> sn_id (snapshot r')"
        using reports_step [of r l] id by (simp add: reports_def)
      then have "page_shows ?h' (snapshot r') = page_shows ?h (snapshot r')" by (rule changes_shows_other)
      also have "\<dots> = page_shows h (snapshot r')" by (rule page_shows_cong) simp_all
      finally show "page_shows ?h' (snapshot r')" using pg j by (simp add: page_ok_def)
    qed
    moreover have "0 < ho_pumps ?h' \<or> slots_used ?h' \<or> cancelling_gone ?h'"
    proof (cases "news r ?r = []")
      case False
      then show ?thesis by simp
    next
      case True
      then have "rn_status ?r = rn_status r" by (rule news_nil_status)
      then have "cancelling_gone h \<Longrightarrow> cancelling_gone ?h"
        unfolding cancelling_gone_def using Some by (metis (no_types, lifting) host.select_convs(7) host.update_convs(7) host.surjective js_get_set option.inject)
      moreover have "slots_used ?h = slots_used h" by (rule slots_used_cong) simp_all
      ultimately show ?thesis using inv True by (auto simp: host_inv_def host_wf_def)
    qed
    moreover have "steps_count ?h' \<le> ho_maxParallel ?h'"
      using inv by (simp add: host_inv_def host_wf_def steps_count_def)
    moreover have "removing_ok ?h'"
    proof -
      have "ho_removing (foldl changed h sns) = ho_removing h" for h sns
        by (induction sns arbitrary: h) (simp_all add: changed_def Let_def)
      then show ?thesis using rm by (auto simp: removing_ok_def)
    qed
    ultimately show ?thesis unfolding at by (simp add: host_inv_def host_wf_def)
  qed
qed

lemma sent_ok_untimed: "sent_ok h j \<Longrightarrow> sent_ok (h\<lparr>ho_trailing := js_del i (ho_trailing h)\<rparr>) j"
  by (cases "js_get (ho_lastSent h) j") (auto simp: sent_ok_def)

lemma host_inv_timer: "host_inv h \<Longrightarrow> host_inv (timer_fired i h)"
proof -
  assume inv: "host_inv h"
  show ?thesis
  proof (cases "\<exists>due r. js_get (ho_trailing h) i = Some due \<and> due \<le> ho_now h \<and> js_get (ho_runners h) i = Some r")
    case False
    have st: "store_ok h" and pg: "page_ok h" using inv by (simp_all add: host_inv_def host_wf_def)
    let ?h = "h\<lparr>ho_trailing := js_del i (ho_trailing h)\<rparr>"
    have "page_ok ?h" if na: "js_get (ho_runners h) i = None"
      unfolding page_ok_def
    proof (intro conjI allI impI)
      fix j show "sent_ok ?h j"
        using pg sent_ok_untimed by (simp add: page_ok_def)
    next
      fix j r assume "js_get (ho_runners ?h) j = Some r"
      then have j: "js_get (ho_runners h) j = Some r" by simp
      then have "rn_id r \<noteq> i" using st na by (auto simp: store_ok_def)
      then have "page_shows ?h (snapshot r) = page_shows h (snapshot r)" by (simp add: page_shows_def)
      then show "page_shows ?h (snapshot r)" using pg j by (simp add: page_ok_def)
    qed
    then have "host_inv ?h" if "js_get (ho_runners h) i = None"
      using inv that host_wf_cong [of ?h h] by (simp add: host_inv_def removing_ok_def)
    then show ?thesis using inv False by (auto simp: timer_fired_def not_less Let_def split: option.splits)
  next
    case True
    then obtain due r where d: "js_get (ho_trailing h) i = Some due" "due \<le> ho_now h" "js_get (ho_runners h) i = Some r"
      by blast
    let ?h = "h\<lparr>ho_trailing := js_del i (ho_trailing h)\<rparr>"
    let ?h' = "send ?h (snapshot r) True"
    have t: "timer_fired i h = ?h'" using d by (simp add: timer_fired_def Let_def)
    have st: "store_ok h" and pg: "page_ok h" using inv by (simp_all add: host_inv_def host_wf_def)
    have id: "rn_id r = i" using st d(3) by (simp add: store_ok_def)
    have sent: "\<forall>j. sent_ok ?h j"
    proof
      fix j show "sent_ok ?h j"
        using pg sent_ok_untimed by (simp add: page_ok_def)
    qed
    have "page_ok ?h'"
      unfolding page_ok_def
    proof (intro conjI allI impI)
      fix j show "sent_ok ?h' j" using send_sent_ok [OF sent] by blast
    next
      fix j r' assume "js_get (ho_runners ?h') j = Some r'"
      then have j: "js_get (ho_runners h) j = Some r'" by simp
      show "page_shows ?h' (snapshot r')"
      proof (cases "j = i")
        case True
        then have "r' = r" using j d(3) by simp
        then show ?thesis using sent by (simp add: send_shows)
      next
        case False
        then have ne: "rn_id r' \<noteq> i" using j st by (simp add: store_ok_def)
        then have "page_shows ?h' (snapshot r') = page_shows ?h (snapshot r')"
          using id by (intro send_shows_other) simp
        also have "\<dots> = page_shows h (snapshot r')" using ne by (simp add: page_shows_def)
        finally show ?thesis using pg j by (simp add: page_ok_def)
      qed
    qed
    then have "host_wf ?h'" using inv by (intro host_wf_cong [of ?h' h]) (simp_all add: host_inv_def)
    then show ?thesis unfolding t using inv by (simp add: host_inv_def removing_ok_def)
  qed
qed

lemma host_inv_output:
  assumes "host_inv h" and "\<forall>m\<in>set ms. \<forall>sn. m \<noteq> Snapshot sn"
  shows "host_inv (h\<lparr>ho_tokens := t, ho_out := ho_out h @ ms\<rparr>)"
proof -
  let ?h = "h\<lparr>ho_tokens := t, ho_out := ho_out h @ ms\<rparr>"
  have "last_posted ms i = None" for i
    using assms(2) by (induction ms) (auto split: from_worker.splits)
  then have "last_posted (ho_out ?h) i = last_posted (ho_out h) i" for i by (simp add: last_posted_append)
  then have "page_ok ?h" using assms(1) page_ok_cong [of ?h h] by (simp add: host_inv_def host_wf_def)
  then have "host_wf ?h" using assms(1) by (intro host_wf_cong [of ?h h]) (simp_all add: host_inv_def)
  then show ?thesis using assms(1) by (simp add: host_inv_def removing_ok_def)
qed

lemma host_inv_tokens: "host_inv h \<Longrightarrow> host_inv (h\<lparr>ho_tokens := t\<rparr>)"
  using host_inv_output [of h "[]" t] by simp

lemma host_inv_token_task: "host_inv h \<Longrightarrow> host_inv (token_task e h)"
proof -
  assume inv: "host_inv h"
  have "\<forall>m\<in>set (snd (snd (tk_get t))). \<forall>sn. m \<noteq> Snapshot sn" for t
    by (auto simp: tk_get_def tk_request_def Let_def split: option.splits)
  then show ?thesis
    using host_inv_output [OF inv] host_inv_tokens [OF inv] by (simp add: token_task_def Let_def)
qed

lemma host_inv_tick: "host_inv h \<Longrightarrow> host_inv (h\<lparr>ho_now := ho_now h + n\<rparr>)"
proof -
  assume inv: "host_inv h"
  let ?h = "h\<lparr>ho_now := ho_now h + n\<rparr>"
  have "page_ok ?h" using inv page_ok_cong [of ?h h] by (simp add: host_inv_def host_wf_def)
  then have "host_wf ?h" using inv by (intro host_wf_cong [of ?h h]) (simp_all add: host_inv_def)
  then show ?thesis using inv by (simp add: host_inv_def removing_ok_def)
qed

lemma host_inv_handle: "host_inv h \<Longrightarrow> host_label_ok h (Message m) \<Longrightarrow> host_inv (handle h m)"
  by (cases m) (simp_all add: host_inv_configure host_inv_add host_inv_at_runner host_inv_remove_start
      host_inv_reorder host_inv_at_all host_inv_tokens)

lemma host_inv_step: "host_inv h \<Longrightarrow> host_label_ok h l \<Longrightarrow> host_inv (host_step h l)"
  by (cases l) (auto simp: host_inv_at_runner host_inv_at_gone host_inv_run_pump host_inv_timer
      host_inv_remove_end host_inv_token_task host_inv_tick host_inv_handle)

interpretation host: event_machine host_step host_label_ok host_inv
  by unfold_locales (rule host_inv_step)

lemma host_inv_new: "host_inv (new_host now)"
  by (simp add: host_inv_def host_wf_def new_host_def store_ok_def page_ok_def sent_ok_def steps_count_def
      slots_used_def removing_ok_def)

lemma host_inv_run:
  "admissible host_step host_label_ok (new_host now) ls \<Longrightarrow> host_inv (foldl host_step (new_host now) ls)"
  by (rule host.run_inv [OF host_inv_new])

section \<open>Properties\<close>


lemmas host_simps = add_upload_def pump_def working_count_def queued_def at_runner_def changed_def
  send_def progress_only_def post_def news_def snapshot_def isWorking_def rn_status_def new_host_def
  js_set_def js_get_def js_has_def js_del_def js_keys_def


text \<open>
  The scheduler is first come, first served in queue order: when a pump starts an upload,
  none before it in the queue is left queued.
\<close>

theorem host_pump_fifo:
  assumes "store_ok h" and "ho_order h = pre @ j # rest" and "queued h j" and "\<not> queued (pump h) j"
  shows "\<forall>i\<in>set pre. \<not> queued (pump h) i"
proof -
  have "distinct (ho_order h)" using assms(1) by (simp add: store_ok_def)
  then show ?thesis
    using pump_list_fifo [OF assms(2) _ assms(3) _ assms(1)] assms(4) by (simp add: pump_def)
qed

definition two_queued :: host where
  "two_queued = (new_host 0)\<lparr>ho_runners := [(''a'', new_runner ''a'' ''a.txt'' 1 ''t''), (''b'', new_runner ''b'' ''b.txt'' 1 ''t'')],
    ho_order := [''b'', ''a'']\<rparr>"

theorem host_pump_fifo_witness: "\<not> queued (pump two_queued) ''b''"
proof -
  have st: "store_ok two_queued"
    by (auto simp: two_queued_def store_ok_def new_host_def js_keys_def js_get_def js_has_def split: if_splits)
  have order: "ho_order two_queued = [''b''] @ ''a'' # []" by (simp add: two_queued_def)
  have q: "queued two_queued ''a''" by code_simp
  have nq: "\<not> queued (pump two_queued) ''a''" by code_simp
  from host_pump_fifo [OF st order q nq] show ?thesis by simp
qed



text \<open>
  The access token is asked for once at a time: however many calls want it, at most one
  request to the page is unanswered, all of them wait for that one, and a token that was rejected
  makes the next request a refresh.
\<close>

theorem token_single_flight:
  assumes "t = foldl token_step new_tokens es"
  shows "length (tk_waiting t) \<le> 1 \<and>
    (tk_waiting t \<noteq> [] \<and> \<not> truthy (tk_token t) \<longrightarrow>
      tk_get t = (t, AwaitsRequest (hd (tk_waiting t)), [])) \<and>
    (tk_pending t = None \<longrightarrow>
      snd (snd (tk_get (tk_invalidate t))) = [TokenRequest (tk_nextRequestId t) True])"
proof -
  have "token_wf t" using assms token_run_wf by simp
  then show ?thesis
    by (auto simp: token_wf_def tk_get_def tk_invalidate_def tk_request_def Let_def)
qed

theorem token_single_flight_witness:
  "length (tk_waiting (foldl token_step new_tokens [TkGet, TkGet, TkInvalidate, TkGet])) \<le> 1"
  using token_single_flight [OF refl, of "[TkGet, TkGet, TkInvalidate, TkGet]"] by blast

text \<open>
  Moving an upload puts it at the index asked for (clamped to the queue) and keeps the order
  of all the others; the queue keeps every upload exactly once.
\<close>

theorem host_reorder_moves:
  assumes "distinct (ho_order h)" and "i \<in> set (ho_order h)"
  shows "(0 \<le> n \<and> n < int (length (ho_order h)) \<longrightarrow> ho_order (reorder i n h) ! nat n = i) \<and>
    filter (\<lambda>j. j \<noteq> i) (ho_order (reorder i n h)) = filter (\<lambda>j. j \<noteq> i) (ho_order h) \<and>
    set (ho_order (reorder i n h)) = set (ho_order h) \<and> distinct (ho_order (reorder i n h))"
  using host_queue.move_at [OF assms] host_queue.move_others [OF assms(1)]
    host_queue.move_set [OF assms(1)] host_queue.move_distinct [OF assms(1)] by simp

theorem host_reorder_moves_witness: "ho_order (reorder ''a'' 0 two_queued) ! 0 = ''a''"
  using host_reorder_moves [of two_queued "''a''" 0] by (simp add: two_queued_def new_host_def)

end
