(* ===== verification/Uploader_Client.thy ===== *)
theory Uploader_Client
  imports Upload_Messages
begin

text \<open>
  The page side of the uploader (\<open>Uploader\<close> in \<open>uploader/src/client/uploader.ts\<close>): the snapshots
  the worker reported, the queue order, the array handed to React, the callers waiting for an
  upload to finish, and what was posted to the worker. A promise of \<open>finished\<close> is a number;
  \<open>cl_settled\<close> lists the promises settled so far with what they were settled with (\<open>None\<close> is
  the \<open>UploadCancelledError\<close>).
\<close>

section \<open>State and operations\<close>

record client =
  cl_uploads :: "(string, upload_snapshot) js_map"
  cl_order :: "string list"
  cl_list :: "upload_snapshot list"
  cl_waiters :: "(string, nat list) js_map"
  cl_nextWaiter :: nat
  cl_settled :: "(nat \<times> upload_result option) list"
  cl_posted :: "to_worker list"
  cl_notified :: nat

definition cl_post :: "to_worker \<Rightarrow> client \<Rightarrow> client" where
  "cl_post m c = c\<lparr>cl_posted := cl_posted c @ [m]\<rparr>"

definition new_client :: "string \<Rightarrow> int option \<Rightarrow> client" where
  "new_client url maxParallel = cl_post (Configure url (case maxParallel of None \<Rightarrow> 2 | Some n \<Rightarrow> n))
    \<lparr>cl_uploads = [], cl_order = [], cl_list = [], cl_waiters = [], cl_nextWaiter = 0, cl_settled = [],
     cl_posted = [], cl_notified = 0\<rparr>"

definition shown_list :: "(string, upload_snapshot) js_map \<Rightarrow> string list \<Rightarrow> upload_snapshot list" where
  "shown_list uploads order =
    concat (map (\<lambda>i. case js_get uploads i of Some sn \<Rightarrow> [sn] | None \<Rightarrow> []) order)"

definition publish :: "client \<Rightarrow> client" where
  "publish c = c\<lparr>cl_list := shown_list (cl_uploads c) (cl_order c), cl_notified := Suc (cl_notified c)\<rparr>"

definition update :: "upload_snapshot \<Rightarrow> client \<Rightarrow> client" where
  "update sn c =
    (let c' = (if js_has (cl_uploads c) (sn_id sn) then c else c\<lparr>cl_order := cl_order c @ [sn_id sn]\<rparr>) in
     publish (c'\<lparr>cl_uploads := js_set (sn_id sn) sn (cl_uploads c')\<rparr>))"

text \<open>The snapshot shown until the worker's first one comes.\<close>

definition first_snapshot :: "string \<Rightarrow> string \<Rightarrow> nat \<Rightarrow> upload_snapshot" where
  "first_snapshot i name fsize =
    \<lparr>sn_id = i, sn_fileName = name, sn_size = fsize, sn_status = StQueued, sn_step = Some Hashing,
     sn_mode = None, sn_hashedBytes = 0, sn_uploadedBytes = 0, sn_hash = None, sn_error = None,
     sn_result = None\<rparr>"

definition upload :: "string \<Rightarrow> string \<Rightarrow> nat \<Rightarrow> string \<Rightarrow> client \<Rightarrow> client" where
  "upload i name fsize tok c =
    (if js_has (cl_uploads c) i then c
     else cl_post (Add i name fsize tok) (update (first_snapshot i name fsize) c))"

definition cl_reorder :: "string \<Rightarrow> int \<Rightarrow> client \<Rightarrow> client" where
  "cl_reorder i index c =
    (case find_index (\<lambda>j. j = i) (cl_order c) of
      None \<Rightarrow> c
    | Some k \<Rightarrow>
        (let rest = remove_at k (cl_order c) in
         cl_post (ReorderMsg i index)
           (publish (c\<lparr>cl_order := insert_at (clamp_index index (length rest)) i rest\<rparr>))))"

text \<open>\<open>finished\<close>: settled at once when the outcome is known, otherwise a caller that waits.\<close>

datatype finished_promise = FinishedWith upload_result | FinishedCancelled | FinishedLater nat

definition done_result :: "upload_snapshot \<Rightarrow> upload_result option" where
  "done_result sn = (if sn_status sn = StDone then sn_result sn else None)"

definition finished :: "string \<Rightarrow> client \<Rightarrow> client \<times> finished_promise" where
  "finished i c =
    (case js_get (cl_uploads c) i of
      None \<Rightarrow> (c, FinishedCancelled)
    | Some sn \<Rightarrow>
        (case done_result sn of
          Some res \<Rightarrow> (c, FinishedWith res)
        | None \<Rightarrow>
            if sn_status sn = StCancelled then (c, FinishedCancelled)
            else (c\<lparr>cl_waiters := js_set i
                  ((case js_get (cl_waiters c) i of None \<Rightarrow> [] | Some ws \<Rightarrow> ws) @ [cl_nextWaiter c]) (cl_waiters c),
                cl_nextWaiter := Suc (cl_nextWaiter c)\<rparr>, FinishedLater (cl_nextWaiter c))))"

definition settle :: "string \<Rightarrow> upload_snapshot option \<Rightarrow> client \<Rightarrow> client" where
  "settle i sn c =
    (case js_get (cl_waiters c) i of
      None \<Rightarrow> c
    | Some ws \<Rightarrow>
        c\<lparr>cl_waiters := js_del i (cl_waiters c),
          cl_settled := cl_settled c @
            map (\<lambda>w. (w, case sn of None \<Rightarrow> None | Some s \<Rightarrow> done_result s)) ws\<rparr>)"

definition destroy :: "client \<Rightarrow> client" where
  "destroy c = fold (\<lambda>i. settle i None) (js_keys (cl_waiters c)) c"

fun receive :: "client \<Rightarrow> from_worker \<Rightarrow> client" where
  "receive c (Snapshot sn) =
    (let c' = update sn c in if isTerminal (sn_status sn) then settle (sn_id sn) (Some sn) c' else c')"
| "receive c (Removed i) =
    publish (settle i None (c\<lparr>cl_uploads := js_del i (cl_uploads c),
      cl_order := filter (\<lambda>j. j \<noteq> i) (cl_order c)\<rparr>))"
| "receive c (TokenRequest n refresh) = c"

text \<open>\<open>answerToken\<close>: the token of the app, or the error it failed with.\<close>

definition answerToken :: "nat \<Rightarrow> string + string \<Rightarrow> client \<Rightarrow> client" where
  "answerToken n outcome c =
    cl_post (case outcome of Inr tok \<Rightarrow> TokenMsg n (Some tok) None | Inl e \<Rightarrow> TokenMsg n None (Some e)) c"

datatype client_label =
    Upload string string nat string
  | Tell to_worker
  | Reorder string int
  | Finished string
  | Receive from_worker
  | AnswerToken nat "string + string"
  | Destroy

text \<open>The commands that only post: pause, resume, cancel, retry, remove and the ones for all.\<close>

fun client_step :: "client \<Rightarrow> client_label \<Rightarrow> client" where
  "client_step c (Upload i name fsize tok) = upload i name fsize tok c"
| "client_step c (Tell m) = cl_post m c"
| "client_step c (Reorder i n) = cl_reorder i n c"
| "client_step c (Finished i) = fst (finished i c)"
| "client_step c (Receive m) = receive c m"
| "client_step c (AnswerToken n r) = answerToken n r c"
| "client_step c Destroy = destroy c"

section \<open>Invariant\<close>

text \<open>
  The list is the uploads in queue order, each once; every promise given out waits for one upload
  that has not ended or was settled, never both and never twice.
\<close>

definition pending :: "client \<Rightarrow> nat list" where
  "pending c = concat (map snd (cl_waiters c))"

definition view_ok :: "client \<Rightarrow> bool" where
  "view_ok c \<longleftrightarrow>
    distinct (cl_order c) \<and> distinct (js_keys (cl_uploads c)) \<and>
    set (cl_order c) = set (js_keys (cl_uploads c)) \<and>
    (\<forall>i sn. js_get (cl_uploads c) i = Some sn \<longrightarrow> sn_id sn = i) \<and>
    cl_list c = shown_list (cl_uploads c) (cl_order c)"

definition waiters_ok :: "client \<Rightarrow> bool" where
  "waiters_ok c \<longleftrightarrow>
    distinct (js_keys (cl_waiters c)) \<and>
    distinct (pending c @ map fst (cl_settled c)) \<and>
    set (pending c @ map fst (cl_settled c)) = {..<cl_nextWaiter c}"

definition client_wf :: "client \<Rightarrow> bool" where
  "client_wf c \<longleftrightarrow> view_ok c \<and> waiters_ok c"

lemma update_fields [simp]:
  "cl_waiters (update sn c) = cl_waiters c" "cl_nextWaiter (update sn c) = cl_nextWaiter c"
  "cl_settled (update sn c) = cl_settled c"
  "cl_uploads (update sn c) = js_set (sn_id sn) sn (cl_uploads c)"
  "cl_order (update sn c) = (if js_has (cl_uploads c) (sn_id sn) then cl_order c else cl_order c @ [sn_id sn])"
  by (simp_all add: update_def publish_def Let_def)

lemma settle_fields [simp]:
  "cl_uploads (settle i sn c) = cl_uploads c" "cl_order (settle i sn c) = cl_order c"
  "cl_list (settle i sn c) = cl_list c" "cl_nextWaiter (settle i sn c) = cl_nextWaiter c"
  by (simp_all add: settle_def split: option.splits)

lemma update_list [simp]: "cl_list (update sn c) = shown_list (cl_uploads (update sn c)) (cl_order (update sn c))"
  by (simp add: update_def publish_def Let_def)

lemma view_update: "view_ok c \<Longrightarrow> view_ok (update sn c)"
  unfolding view_ok_def update_list
  by (auto simp: js_has_keys js.distinct_put js.set_keys_put)

lemma js_del_split:
  assumes "distinct (js_keys m)" and "js_get m i = Some ws"
  obtains xs ys where "m = xs @ (i, ws) # ys" and "js_del i m = xs @ ys"
proof -
  obtain xs ys where m: "m = xs @ (i, ws) # ys"
    using js_get_SomeD [OF assms(2)] by (meson split_list)
  then have "i \<notin> set (js_keys xs)" and "i \<notin> set (js_keys ys)" using assms(1) by (auto simp: js_keys_def)
  then have "js_del i xs = xs" and "js_del i ys = ys"
    by (force simp: js_del_def js_keys_def filter_id_conv)+
  then have "js_del i m = xs @ ys" unfolding m by (simp add: js_del_def)
  with m show thesis by (rule that)
qed

lemma waiters_settle: "waiters_ok c \<Longrightarrow> waiters_ok (settle i sn c)"
proof -
  assume ok: "waiters_ok c"
  show ?thesis
  proof (cases "js_get (cl_waiters c) i")
    case None
    then show ?thesis using ok by (simp add: settle_def)
  next
    case (Some ws)
    obtain xs ys where w: "cl_waiters c = xs @ (i, ws) # ys" "js_del i (cl_waiters c) = xs @ ys"
      using js_del_split [OF _ Some] ok by (auto simp: waiters_ok_def)
    have p: "pending (settle i sn c) = concat (map snd xs) @ concat (map snd ys)"
      using Some w(2) by (simp add: pending_def settle_def)
    have f: "map fst (cl_settled (settle i sn c)) = map fst (cl_settled c) @ ws"
      using Some by (simp add: settle_def comp_def)
    have pc: "pending c = concat (map snd xs) @ ws @ concat (map snd ys)" using w(1) by (simp add: pending_def)
    have "distinct (pending (settle i sn c) @ map fst (cl_settled (settle i sn c)))"
      using ok unfolding waiters_ok_def p f pc by auto
    moreover have "set (pending (settle i sn c) @ map fst (cl_settled (settle i sn c))) = {..<cl_nextWaiter c}"
      using ok unfolding waiters_ok_def p f pc by auto
    moreover have "distinct (js_keys (cl_waiters (settle i sn c)))"
      using ok Some by (simp add: waiters_ok_def settle_def js.distinct_del)
    ultimately show ?thesis by (simp add: waiters_ok_def)
  qed
qed

lemma view_settle: "view_ok (settle i sn c) = view_ok c"
  by (simp add: view_ok_def)

lemma view_publish:
  assumes "distinct (cl_order c)" and "distinct (js_keys (cl_uploads c))"
    and "set (cl_order c) = set (js_keys (cl_uploads c))"
    and "\<forall>i sn. js_get (cl_uploads c) i = Some sn \<longrightarrow> sn_id sn = i"
  shows "view_ok (publish c)"
  using assms by (simp add: view_ok_def publish_def)

lemma waiters_publish [simp]: "waiters_ok (publish c) = waiters_ok c"
  by (simp add: waiters_ok_def pending_def publish_def)

lemma waiters_update [simp]: "waiters_ok (update sn c) = waiters_ok c"
  by (simp add: waiters_ok_def pending_def)

lemma client_wf_receive: "client_wf c \<Longrightarrow> client_wf (receive c m)"
proof (cases m)
  case (Snapshot sn)
  moreover assume "client_wf c"
  ultimately show ?thesis
    by (simp add: client_wf_def view_update view_settle waiters_settle Let_def)
next
  case (Removed i)
  moreover assume wf: "client_wf c"
  let ?c = "c\<lparr>cl_uploads := js_del i (cl_uploads c), cl_order := filter (\<lambda>j. j \<noteq> i) (cl_order c)\<rparr>"
  have "view_ok (publish (settle i None ?c))"
    using wf by (intro view_publish) (auto simp: client_wf_def view_ok_def js.distinct_del js.set_keys_del)
  moreover have "waiters_ok ?c" using wf by (simp add: client_wf_def waiters_ok_def pending_def)
  ultimately show ?thesis by (simp add: client_wf_def waiters_settle)
qed simp

lemma client_wf_post: "client_wf (cl_post m c) = client_wf c"
  by (simp add: client_wf_def view_ok_def waiters_ok_def pending_def cl_post_def)

lemma cl_post_fields [simp]:
  "cl_order (cl_post m c) = cl_order c" "cl_uploads (cl_post m c) = cl_uploads c"
  by (simp_all add: cl_post_def)

lemma cl_reorder_order:
  assumes "distinct (cl_order c)"
  shows "cl_order (cl_reorder i n c) =
    (if i \<in> set (cl_order c)
     then insert_at (clamp_index n (length (cl_order c) - 1)) i (filter (\<lambda>j. j \<noteq> i) (cl_order c))
     else cl_order c)"
proof (cases "find_index (\<lambda>j. j = i) (cl_order c)")
  case None
  then have "i \<notin> set (cl_order c)" by (auto simp: find_index_None)
  then show ?thesis using None by (simp add: cl_reorder_def)
next
  case (Some k)
  have "k < length (cl_order c)" and "cl_order c ! k = i" using find_index_Some [OF Some] by simp_all
  then have m: "i \<in> set (cl_order c)" by (metis nth_mem)
  have r: "remove_at k (cl_order c) = filter (\<lambda>j. j \<noteq> i) (cl_order c)" using remove_at_find [OF assms Some] .
  show ?thesis using Some r m length_filter_neq [OF assms m] by (simp add: cl_reorder_def publish_def Let_def)
qed

lemma cl_reorder_absent: "i \<notin> set (cl_order c) \<Longrightarrow> cl_reorder i n c = c"
  using find_index_None [of "\<lambda>j. j = i" "cl_order c"] by (auto simp: cl_reorder_def)

interpretation client_queue: reorderable cl_order cl_reorder
  by unfold_locales (simp_all add: cl_reorder_absent cl_reorder_order)

lemma client_wf_reorder: "client_wf c \<Longrightarrow> client_wf (cl_reorder i n c)"
proof -
  assume wf: "client_wf c"
  then have d: "distinct (cl_order c)" by (simp add: client_wf_def view_ok_def)
  show ?thesis
  proof (cases "find_index (\<lambda>j. j = i) (cl_order c)")
    case None
    then show ?thesis using wf by (simp add: cl_reorder_def)
  next
    case (Some k)
    let ?rest = "remove_at k (cl_order c)"
    let ?c = "c\<lparr>cl_order := insert_at (clamp_index n (length ?rest)) i ?rest\<rparr>"
    have r: "cl_reorder i n c = cl_post (ReorderMsg i n) (publish ?c)"
      using Some by (simp add: cl_reorder_def Let_def)
    have o: "cl_order ?c = cl_order (cl_reorder i n c)" unfolding r by (simp add: publish_def)
    have "set (cl_order ?c) = set (cl_order c)" and "distinct (cl_order ?c)"
      unfolding o using client_queue.move_set [OF d] client_queue.move_distinct [OF d] by simp_all
    then have "view_ok (publish ?c)"
      using wf by (intro view_publish) (simp_all add: client_wf_def view_ok_def)
    moreover have "waiters_ok ?c" using wf by (simp add: client_wf_def waiters_ok_def pending_def)
    ultimately show ?thesis unfolding r client_wf_post by (simp add: client_wf_def)
  qed
qed

lemma pending_finished:
  assumes "distinct (js_keys m)"
  shows "distinct (concat (map snd (js_set i ((case js_get m i of None \<Rightarrow> [] | Some ws \<Rightarrow> ws) @ [w]) m))) \<longleftrightarrow>
      distinct (w # concat (map snd m))"
    and "set (concat (map snd (js_set i ((case js_get m i of None \<Rightarrow> [] | Some ws \<Rightarrow> ws) @ [w]) m))) =
      insert w (set (concat (map snd m)))"
  using assms
proof (induction m)
  case Nil
  { case 1 show ?case by (simp add: js_set_def) }
  { case 2 show ?case by (simp add: js_set_def) }
next
  case (Cons kv m)
  obtain k v where kv: "kv = (k, v)" by fastforce
  { case 1
    then show ?case using Cons kv by (cases "k = i") (auto simp: js_set_def js_get_def js_keys_def) }
  { case 2
    then show ?case using Cons kv by (cases "k = i") (auto simp: js_set_def js_get_def js_keys_def) }
qed

lemma client_wf_finished: "client_wf c \<Longrightarrow> client_wf (fst (finished i c))"
proof -
  assume wf: "client_wf c"
  let ?ws = "(case js_get (cl_waiters c) i of None \<Rightarrow> [] | Some ws \<Rightarrow> ws) @ [cl_nextWaiter c]"
  let ?c = "c\<lparr>cl_waiters := js_set i ?ws (cl_waiters c), cl_nextWaiter := Suc (cl_nextWaiter c)\<rparr>"
  have d: "distinct (js_keys (cl_waiters c))" using wf by (simp add: client_wf_def waiters_ok_def)
  have new: "cl_nextWaiter c \<notin> set (pending c @ map fst (cl_settled c))"
    using wf by (simp add: client_wf_def waiters_ok_def)
  have "distinct (pending ?c @ map fst (cl_settled ?c))"
    using pending_finished [OF d, of i "cl_nextWaiter c"] wf new
    by (auto simp: client_wf_def waiters_ok_def pending_def)
  moreover have "set (pending ?c @ map fst (cl_settled ?c)) = {..<Suc (cl_nextWaiter c)}"
    using pending_finished(2) [OF d, of i "cl_nextWaiter c"] wf
    by (auto simp: client_wf_def waiters_ok_def pending_def)
  ultimately have "client_wf ?c" using wf
    by (simp add: client_wf_def view_ok_def waiters_ok_def js.distinct_put)
  then show ?thesis using wf by (simp add: finished_def split: option.splits)
qed

lemma client_wf_upload: "client_wf c \<Longrightarrow> client_wf (upload i name n tok c)"
  by (simp add: upload_def client_wf_post) (simp add: client_wf_def view_update)

lemma client_wf_destroy: "client_wf c \<Longrightarrow> client_wf (destroy c)"
proof -
  have "client_wf c \<Longrightarrow> client_wf (fold (\<lambda>i. settle i None) is c)" for "is" c
    by (induction "is" arbitrary: c) (simp_all add: client_wf_def view_settle waiters_settle)
  then show "client_wf c \<Longrightarrow> client_wf (destroy c)" by (simp add: destroy_def)
qed

lemma client_wf_step: "client_wf c \<Longrightarrow> client_wf (client_step c l)"
  by (cases l) (simp_all add: client_wf_upload client_wf_post client_wf_reorder client_wf_finished
      client_wf_receive client_wf_destroy answerToken_def)

interpretation client: event_machine client_step "\<lambda>_ _. True" client_wf
  by unfold_locales (rule client_wf_step)

lemma client_wf_new: "client_wf (new_client url n)"
  unfolding new_client_def client_wf_post
  by (simp add: client_wf_def view_ok_def waiters_ok_def pending_def shown_list_def)

lemma client_run_wf: "client_wf (foldl client_step (new_client url n) ls)"
proof -
  have "admissible client_step (\<lambda>_ _. True) c ls" for c by (rule admissible_all)
  then show ?thesis by (rule client.run_inv [OF client_wf_new])
qed

section \<open>Promises end with their upload\<close>

definition waits_ok :: "client \<Rightarrow> bool" where
  "waits_ok c \<longleftrightarrow>
    (\<forall>i ws. js_get (cl_waiters c) i = Some ws \<longrightarrow>
      (\<exists>sn. js_get (cl_uploads c) i = Some sn \<and> \<not> isTerminal (sn_status sn)))"

text \<open>A snapshot of the worker says the result of an upload that is done.\<close>

fun client_label_ok :: "client \<Rightarrow> client_label \<Rightarrow> bool" where
  "client_label_ok c (Receive (Snapshot sn)) = (sn_status sn = StDone \<longrightarrow> sn_result sn \<noteq> None)"
| "client_label_ok c _ = True"

definition results_known :: "client \<Rightarrow> bool" where
  "results_known c \<longleftrightarrow>
    (\<forall>i sn. js_get (cl_uploads c) i = Some sn \<and> sn_status sn = StDone \<longrightarrow> sn_result sn \<noteq> None)"

definition client_inv :: "client \<Rightarrow> bool" where
  "client_inv c \<longleftrightarrow> client_wf c \<and> waits_ok c \<and> results_known c"

lemma settle_waiters: "js_get (cl_waiters (settle i sn c)) j = (if j = i then None else js_get (cl_waiters c) j)"
  by (auto simp: settle_def split: option.splits)

lemma waits_receive:
  assumes "waits_ok c"
  shows "waits_ok (receive c m)"
proof (cases m)
  case (Snapshot sn)
  show ?thesis
  proof (cases "isTerminal (sn_status sn)")
    case True
    then show ?thesis using assms Snapshot by (auto simp: waits_ok_def settle_waiters Let_def)
  next
    case False
    then show ?thesis using assms Snapshot by (auto simp: waits_ok_def Let_def)
  qed
next
  case (Removed i)
  then show ?thesis using assms by (auto simp: waits_ok_def settle_waiters publish_def)
qed (use assms in simp)

lemma results_known_cong: "cl_uploads c' = cl_uploads c \<Longrightarrow> results_known c' = results_known c"
  by (simp add: results_known_def)

lemma results_receive:
  "results_known c \<Longrightarrow> client_label_ok c (Receive m) \<Longrightarrow> results_known (receive c m)"
  by (cases m) (auto simp: results_known_def publish_def Let_def)

lemma waits_finished:
  assumes "waits_ok c" and "results_known c"
  shows "waits_ok (fst (finished i c))"
proof (cases "js_get (cl_uploads c) i")
  case None
  then show ?thesis using assms(1) by (simp add: finished_def)
next
  case (Some sn)
  show ?thesis
  proof (cases "isTerminal (sn_status sn)")
    case True
    have "sn_status sn = StDone \<Longrightarrow> \<exists>res. sn_result sn = Some res"
      using Some assms(2) unfolding results_known_def by blast
    then have "fst (finished i c) = c"
      using Some True by (auto simp: finished_def isTerminal_def done_result_def split: option.splits)
    then show ?thesis using assms(1) by simp
  next
    case False
    then have "sn_status sn \<noteq> StCancelled" and "done_result sn = None" by (auto simp: done_result_def)
    then show ?thesis using assms(1) Some False by (auto simp: finished_def waits_ok_def)
  qed
qed

lemma fold_settle_waiters: "js_get (cl_waiters (fold (\<lambda>i. settle i None) is c)) j =
    (if j \<in> set is then None else js_get (cl_waiters c) j)"
  by (induction "is" arbitrary: c) (auto simp: settle_waiters)

lemma destroy_waiters: "js_get (cl_waiters (destroy c)) j = None"
  using js.get_keys [of "cl_waiters c" j] by (auto simp: destroy_def fold_settle_waiters)

lemma destroy_uploads [simp]: "cl_uploads (destroy c) = cl_uploads c"
proof -
  have "cl_uploads (fold (\<lambda>i. settle i None) is c) = cl_uploads c" for "is"
    by (induction "is" arbitrary: c) simp_all
  then show ?thesis by (simp add: destroy_def)
qed

lemma client_inv_step: "client_inv c \<Longrightarrow> client_label_ok c l \<Longrightarrow> client_inv (client_step c l)"
proof -
  assume inv: "client_inv c" and ok: "client_label_ok c l"
  then have w: "waits_ok c" and r: "results_known c" by (simp_all add: client_inv_def)
  have "waits_ok (client_step c l) \<and> results_known (client_step c l)"
  proof (cases l)
    case (Upload i name n tok)
    then show ?thesis using w r
      by (auto simp: upload_def waits_ok_def results_known_def cl_post_def first_snapshot_def)
  next
    case (Tell m)
    then show ?thesis using w r by (simp add: waits_ok_def results_known_def cl_post_def)
  next
    case (Reorder i n)
    have "cl_waiters (cl_reorder i n c) = cl_waiters c" and "cl_uploads (cl_reorder i n c) = cl_uploads c"
      by (simp_all add: cl_reorder_def cl_post_def publish_def Let_def split: option.splits)
    then show ?thesis using w r Reorder by (simp add: waits_ok_def results_known_def)
  next
    case (Finished i)
    have "cl_uploads (fst (finished i c)) = cl_uploads c"
      by (simp add: finished_def split: option.splits)
    then have "results_known (fst (finished i c)) = results_known c" by (rule results_known_cong)
    then show ?thesis using w r Finished waits_finished by simp
  next
    case (Receive m)
    then show ?thesis using w r ok waits_receive results_receive by simp
  next
    case (AnswerToken n t)
    then show ?thesis using w r by (simp add: answerToken_def waits_ok_def results_known_def cl_post_def)
  next
    case Destroy
    then show ?thesis using r by (simp add: waits_ok_def results_known_def destroy_waiters)
  qed
  then show ?thesis using inv client_wf_step by (simp add: client_inv_def)
qed

interpretation client_live: event_machine client_step client_label_ok client_inv
  by unfold_locales (rule client_inv_step)

lemma client_inv_new: "client_inv (new_client url n)"
  by (simp add: client_inv_def client_wf_new) (simp add: waits_ok_def results_known_def new_client_def cl_post_def)

section \<open>Properties\<close>

text \<open>
  Whatever is called and received, in any order, the array handed to React is the uploads in
  queue order, each exactly once, and an upload's snapshot is stored under its own id.
\<close>

theorem client_list_is_queue:
  assumes "c = foldl client_step (new_client url n) ls"
  shows "cl_list c = map (\<lambda>i. the (js_get (cl_uploads c) i)) (cl_order c) \<and>
    map sn_id (cl_list c) = cl_order c \<and> distinct (cl_order c) \<and>
    set (cl_order c) = set (js_keys (cl_uploads c))"
proof -
  have v: "view_ok c" using assms client_run_wf by (simp add: client_wf_def)
  have "shown_list (cl_uploads c) is = map (\<lambda>i. the (js_get (cl_uploads c) i)) is \<and>
      map sn_id (shown_list (cl_uploads c) is) = is" if "set is \<subseteq> set (js_keys (cl_uploads c))" for "is"
    using that
  proof (induction "is")
    case (Cons i "is")
    obtain sn where "js_get (cl_uploads c) i = Some sn" using Cons.prems js.get_keys [of "cl_uploads c" i] by auto
    moreover have "sn_id sn = i" using v calculation by (simp add: view_ok_def)
    moreover have eq: "shown_list (cl_uploads c) (i # is) = sn # shown_list (cl_uploads c) is"
      using calculation(1) by (simp add: shown_list_def)
    have "set is \<subseteq> set (js_keys (cl_uploads c))" using Cons.prems by simp
    note ih = Cons.IH [OF this]
    show ?case
      unfolding eq list.map conjunct2 [OF ih] using conjunct1 [OF ih] calculation by simp
  qed (simp add: shown_list_def)
  note shown = this [of "cl_order c"]
  have "cl_list c = shown_list (cl_uploads c) (cl_order c)" and
    q: "distinct (cl_order c)" "set (cl_order c) = set (js_keys (cl_uploads c))"
    using v by (simp_all add: view_ok_def)
  then show ?thesis using shown by (metis order_refl)
qed

theorem client_list_is_queue_witness:
  "map sn_id (cl_list (foldl client_step (new_client ''u'' None)
      [Upload ''a'' ''a.txt'' 1 ''t'', Upload ''b'' ''b.txt'' 2 ''t'', Reorder ''b'' 0])) =
    cl_order (foldl client_step (new_client ''u'' None)
      [Upload ''a'' ''a.txt'' 1 ''t'', Upload ''b'' ''b.txt'' 2 ''t'', Reorder ''b'' 0])"
  using client_list_is_queue [OF refl, of "''u''" None
      "[Upload ''a'' ''a.txt'' 1 ''t'', Upload ''b'' ''b.txt'' 2 ''t'', Reorder ''b'' 0]"] by blast

text \<open>
  C15: Every promise of \<open>finished\<close> is settled exactly once or still waits, and none waits for an
  upload that is done, cancelled or forgotten.
\<close>

theorem client_promises_settle_once:
  assumes "admissible client_step client_label_ok (new_client url n) ls"
    and "c = foldl client_step (new_client url n) ls"
  shows "distinct (pending c @ map fst (cl_settled c)) \<and>
    set (pending c @ map fst (cl_settled c)) = {..<cl_nextWaiter c} \<and>
    (\<forall>i ws. js_get (cl_waiters c) i = Some ws \<longrightarrow>
      (\<exists>sn. js_get (cl_uploads c) i = Some sn \<and> \<not> isTerminal (sn_status sn)))"
proof -
  have "client_inv c" unfolding assms(2) by (rule client_live.run_inv [OF client_inv_new assms(1)])
  then show ?thesis by (simp add: client_inv_def client_wf_def waiters_ok_def waits_ok_def)
qed

theorem client_promises_settle_once_witness:
  "distinct (map fst (cl_settled (foldl client_step (new_client ''u'' None)
    [Upload ''a'' ''a.txt'' 1 ''t'', Finished ''a'', Finished ''a'', Receive (Removed ''a'')])))"
  using client_promises_settle_once [OF _ refl, of "''u''" None
    "[Upload ''a'' ''a.txt'' 1 ''t'', Finished ''a'', Finished ''a'', Receive (Removed ''a'')]"]
  by simp

end
