(* ===== verification/Upload_System.thy ===== *)
theory Upload_System
  imports Upload_Host Uploader_Client
begin

text \<open>
  The page and the worker together: what the page shows after reading everything the worker
  posted, and what happens when an upload is removed while it is being cancelled.
\<close>

section \<open>The page after reading the worker's messages\<close>

definition page_of :: "host \<Rightarrow> client" where
  "page_of h = foldl receive (new_client ''https://storage.example.com'' None) (ho_out h)"

text \<open>
  An upload is cancelled while it sends its file (the server holds a transaction), and removed
  before the server has answered: \<open>remove\<close> finds nothing left to cancel, forgets the upload and
  says so; then the answer comes and the forgotten runner reports that it is cancelled.
\<close>

definition removed_while_cancelling :: "host_label list" where
  "removed_while_cancelling =
    [Message (Add ''a'' ''a.txt'' 3 ''token''),
     RunnerLabel ''a'' DriveNext,
     RunnerLabel ''a'' (Hashed ''h''),
     RunnerLabel ''a'' (Initialised (StartUploadWholeFile ''t'')),
     Message (CancelMsg ''a''),
     RunnerLabel ''a'' (StepRejected abortError),
     RunnerLabel ''a'' RunningSettled,
     Message (RemoveMsg ''a''),
     RemoveEnd ''a'' False,
     GoneLabel ''a'' ServerDropped]"

definition after_removal :: host where
  "after_removal = foldl host_step (new_host 0) removed_while_cancelling"

section \<open>What was said to be removed is forgotten\<close>

definition removed_ids :: "host \<Rightarrow> string set" where
  "removed_ids h = {i. Removed i \<in> set (ho_out h)}"

definition removed_gone :: "host \<Rightarrow> bool" where
  "removed_gone h \<longleftrightarrow> (\<forall>i\<in>removed_ids h. js_has (ho_gone h) i)"

lemma removed_send [simp]: "removed_ids (send h sn f) = removed_ids h"
  by (auto simp: removed_ids_def send_def post_def)

lemma removed_changes [simp]: "removed_ids (foldl changed h sns) = removed_ids h"
proof (induction sns arbitrary: h)
  case (Cons sn sns)
  have "removed_ids (changed h sn) = removed_ids (send h sn False)"
    by (simp add: removed_ids_def changed_def Let_def)
  then show ?case using Cons by simp
qed simp

lemma removed_at_runner [simp]: "removed_ids (at_runner i l h) = removed_ids h"
  by (simp add: at_runner_def Let_def split: option.splits) (simp add: removed_ids_def)

lemma removed_pump_list [simp]: "removed_ids (pump_list is w h) = removed_ids h"
  by (induction "is" w h rule: pump_list.induct) simp_all

lemma removed_gone_cong:
  "removed_ids h' = removed_ids h \<Longrightarrow> ho_gone h' = ho_gone h \<Longrightarrow> removed_gone h' = removed_gone h"
  by (simp add: removed_gone_def)

lemma removed_gone_pump [simp]: "removed_gone (pump h) = removed_gone h"
  by (rule removed_gone_cong) (simp_all add: pump_def)

lemma removed_gone_fields [simp]:
  "removed_gone (h\<lparr>ho_runners := a\<rparr>) = removed_gone h" "removed_gone (h\<lparr>ho_order := b\<rparr>) = removed_gone h"
  "removed_gone (h\<lparr>ho_maxParallel := n\<rparr>) = removed_gone h" "removed_gone (h\<lparr>ho_pumps := n\<rparr>) = removed_gone h"
  "removed_gone (h\<lparr>ho_tokens := t\<rparr>) = removed_gone h" "removed_gone (h\<lparr>ho_now := n\<rparr>) = removed_gone h"
  "removed_gone (h\<lparr>ho_trailing := tr\<rparr>) = removed_gone h" "removed_gone (h\<lparr>ho_removing := rm\<rparr>) = removed_gone h"
  by (rule removed_gone_cong; simp add: removed_ids_def)+

lemma removed_gone_send [simp]: "removed_gone (send h sn f) = removed_gone h"
  by (rule removed_gone_cong) simp_all

lemma removed_gone_at_runner [simp]: "removed_gone (at_runner i l h) = removed_gone h"
  by (rule removed_gone_cong) simp_all

lemma removed_gone_at_all [simp]: "removed_gone (at_all l h) = removed_gone h"
proof -
  have "removed_gone (fold (\<lambda>i. at_runner i l) is h) = removed_gone h" for "is"
    by (induction "is" arbitrary: h) simp_all
  then show ?thesis by (simp add: at_all_def)
qed

lemma removed_gone_forget:
  assumes "removed_gone h" and "removing_ok h" and "(i, w) \<in> set (ho_removing h)"
  shows "removed_gone (forget i w h)"
proof -
  have "js_has (ho_runners h) i \<or> js_has (ho_gone h) i" using assms(2,3) by (auto simp: removing_ok_def)
  then have "js_has (ho_gone (forget i w h)) i" by (auto simp: js_has_def split: option.splits)
  moreover have "js_has (ho_gone h) j \<Longrightarrow> js_has (ho_gone (forget i w h)) j" for j
    by (auto simp: js_has_def split: option.splits)
  moreover have "removed_ids (forget i w h) = insert i (removed_ids h)"
    by (auto simp: removed_ids_def forget_def post_def)
  ultimately show ?thesis using assms(1) by (auto simp: removed_gone_def)
qed

lemma removed_gone_handle: "removed_gone h \<Longrightarrow> removed_gone (handle h m)"
  by (cases m) (auto simp: add_upload_def remove_start_def reorder_def Let_def split: option.splits)

lemma removed_gone_at_gone: "removed_gone h \<Longrightarrow> removed_gone (at_gone i l h)"
  by (auto simp: at_gone_def removed_gone_def Let_def split: option.splits)
    (auto simp: removed_ids_def)

lemma removed_gone_token: "removed_gone h \<Longrightarrow> removed_gone (token_task e h)"
proof -
  have "Removed i \<notin> set (snd (snd (tk_get t)))" for i t
    by (auto simp: tk_get_def tk_request_def Let_def split: option.splits)
  then have "removed_ids (token_task e h) = removed_ids h"
    by (auto simp: removed_ids_def token_task_def Let_def)
  moreover have "ho_gone (token_task e h) = ho_gone h" by (simp add: token_task_def Let_def)
  ultimately show "removed_gone h \<Longrightarrow> removed_gone (token_task e h)" using removed_gone_cong by blast
qed

definition system_inv :: "host \<Rightarrow> bool" where
  "system_inv h \<longleftrightarrow> host_inv h \<and> removed_gone h"

lemma removed_gone_step:
  assumes "host_inv h" and "removed_gone h"
  shows "removed_gone (host_step h l)"
proof (cases l)
  case (RemoveEnd i w)
  have "removing_ok h" using assms(1) by (simp add: host_inv_def)
  then show ?thesis using assms(2) RemoveEnd removed_gone_forget by (simp add: remove_end_def)
next
  case (Timer i)
  then show ?thesis using assms(2) by (simp add: timer_fired_def Let_def split: option.splits)
qed (use assms(2) in \<open>simp_all add: removed_gone_handle removed_gone_at_gone run_pump_def removed_gone_token\<close>)

interpretation system: event_machine host_step host_label_ok system_inv
  by unfold_locales (simp add: system_inv_def host_inv_step removed_gone_step)

lemma system_inv_new: "system_inv (new_host now)"
  by (simp add: system_inv_def host_inv_new removed_gone_def removed_ids_def) (simp add: new_host_def)

lemma page_reads:
  "Removed i \<notin> set ms \<Longrightarrow> js_get (cl_uploads (foldl receive c ms)) i =
    (case last_posted ms i of Some sn \<Rightarrow> Some sn | None \<Rightarrow> js_get (cl_uploads c) i)"
proof (induction ms rule: rev_induct)
  case (snoc m ms)
  then show ?case
    by (cases m) (auto simp: last_posted_append publish_def Let_def split: option.splits)
qed simp

section \<open>Properties\<close>




end
