(* ===== verification/Storage_Double.thy ===== *)
theory Storage_Double
  imports Upload_Runner "HOL-Library.Multiset"
begin

text \<open>
  The storage the uploader is tested against (\<open>uploader/src/testing/fake-storage.ts\<close>): transactions
  and blobs in memory, deduplication by hash, chunks of a fixed size with a limit on the requests in
  flight, and the checks of the hash. A request that waits (a chunk, the body of a whole file) holds
  its transaction object: it goes on with it after the transaction was cancelled, so it is kept here
  with what it took from it. When a waiting request ends is the environment's event, which is what
  \<open>hold\<close> and \<open>release\<close> move in time. The hash of the bytes is a parameter (\<open>blake3Hex\<close>, a WebAssembly
  module). Last, the double is put behind the uploader's pool of lanes.
\<close>

section \<open>Errors\<close>

definition storageError :: "nat \<Rightarrow> string \<Rightarrow> string option \<Rightarrow> js_error" where
  "storageError status code params =
    AxiosError (Some \<lparr>rs_status = status,
        rs_data = Some \<lparr>eb_status = status, eb_code = code, eb_params = params, eb_trace_id = None\<rparr>\<rparr>)
      (dec_digits status @ '' '' @ code)"

definition networkError :: js_error where
  "networkError = AxiosError None ''Network Error''"

definition canceledError :: js_error where
  "canceledError = CanceledError ''canceled''"

section \<open>State\<close>

datatype tx_kind = WholeFileTx | ChunkedTx | VerifyTx

text \<open>
  The set of chunks holds \<open>start / chunkSize\<close>, as numbers; kept here by their starts, so that the chunk
  of an index is held when \<open>index * chunkSize\<close> is one of them.
\<close>

record transaction =
  tx_hash :: string
  tx_size :: nat
  tx_name :: string
  tx_kind :: tx_kind
  tx_bytes :: bytes
  tx_starts :: "nat list"
  tx_ranges :: "byte_range list"
  tx_inFlight :: nat

datatype storage_method =
  UploadInit | UploadStatus | UploadWholeFile | UploadChunk | UploadVerify | UploadComplete | UploadCancel

text \<open>The requests that wait; \<open>cq_room\<close> is the length of the array of the transaction they hold.\<close>

record chunk_request =
  cq_tx :: string
  cq_start :: nat
  cq_body :: bytes
  cq_room :: nat

record body_request =
  bq_tx :: string
  bq_hash :: string
  bq_name :: string
  bq_body :: bytes

record storage =
  sg_chunkSize :: nat
  sg_max :: nat
  sg_tokens :: "(string, string) js_map"
  sg_blobs :: "(string, bytes) js_map"
  sg_transactions :: "(string, transaction) js_map"
  sg_calls :: "(storage_method \<times> string option) list"
  sg_peak :: nat
  sg_nextId :: nat
  sg_failures :: "(storage_method \<times> js_error) list"
  sg_pending :: "chunk_request list"
  sg_bodies :: "body_request list"

definition new_storage :: "nat option \<Rightarrow> nat option \<Rightarrow> (string, string) js_map option \<Rightarrow> storage" where
  "new_storage chunkSize maxConcurrentUploads tokens =
    \<lparr>sg_chunkSize = (case chunkSize of None \<Rightarrow> 16 | Some n \<Rightarrow> n),
     sg_max = (case maxConcurrentUploads of None \<Rightarrow> 2 | Some n \<Rightarrow> n),
     sg_tokens = (case tokens of None \<Rightarrow> [(''token-1'', ''file.bin'')] | Some t \<Rightarrow> t),
     sg_blobs = [], sg_transactions = [], sg_calls = [], sg_peak = 0, sg_nextId = 0, sg_failures = [],
     sg_pending = [], sg_bodies = []\<rparr>"

definition failNext :: "storage \<Rightarrow> storage_method \<Rightarrow> js_error \<Rightarrow> storage" where
  "failNext s m e = s\<lparr>sg_failures := sg_failures s @ [(m, e)]\<rparr>"

definition callsOf :: "storage \<Rightarrow> storage_method \<Rightarrow> (storage_method \<times> string option) list" where
  "callsOf s m = filter (\<lambda>c. fst c = m) (sg_calls s)"

section \<open>Entering a call\<close>

fun take_failure ::
  "storage_method \<Rightarrow> (storage_method \<times> js_error) list \<Rightarrow>
    (js_error \<times> (storage_method \<times> js_error) list) option" where
  "take_failure m [] = None"
| "take_failure m (f # fs) =
    (if fst f = m then Some (snd f, fs)
     else map_option (\<lambda>r. (fst r, f # snd r)) (take_failure m fs))"

text \<open>The call is recorded, an aborted one ends, a scripted failure is used up; then the transaction.\<close>

definition enter_call :: "storage \<Rightarrow> storage_method \<Rightarrow> string option \<Rightarrow> bool \<Rightarrow> storage \<times> js_error option" where
  "enter_call s m t aborted =
    (let s1 = s\<lparr>sg_calls := sg_calls s @ [(m, t)]\<rparr>
     in if aborted then (s1, Some canceledError)
        else case take_failure m (sg_failures s) of
          Some (e, rest) \<Rightarrow> (s1\<lparr>sg_failures := rest\<rparr>, Some e)
        | None \<Rightarrow> (s1, None))"

definition enter :: "storage \<Rightarrow> storage_method \<Rightarrow> string \<Rightarrow> bool \<Rightarrow> storage \<times> (js_error + transaction)" where
  "enter s m t aborted =
    (case enter_call s m (Some t) aborted of
      (s1, Some e) \<Rightarrow> (s1, Inl e)
    | (s1, None) \<Rightarrow>
        (case js_get (sg_transactions s1) t of
          None \<Rightarrow> (s1, Inl (storageError 404 ''NOT_FOUND'' None))
        | Some tx \<Rightarrow> (s1, Inr tx)))"

definition missingChunks :: "storage \<Rightarrow> transaction \<Rightarrow> nat list" where
  "missingChunks s tx =
    filter (\<lambda>i. i * sg_chunkSize s \<notin> set (tx_starts tx)) [0..<chunk_count (tx_size tx) (sg_chunkSize s)]"

definition storage_result :: "string \<Rightarrow> string \<Rightarrow> uploaded_asset \<times> string" where
  "storage_result t name =
    (\<lparr>ua_id = ''asset-of-'' @ t, ua_name = name, ua_createdAt = ''2026-10-02T00:00:00Z''\<rparr>,
     ''application/octet-stream'')"

definition drop_tx :: "string \<Rightarrow> storage \<Rightarrow> storage" where
  "drop_tx t s = s\<lparr>sg_transactions := js_del t (sg_transactions s)\<rparr>"

definition store_blob :: "string \<Rightarrow> string \<Rightarrow> bytes \<Rightarrow> storage \<Rightarrow> storage" where
  "store_blob t h bs s = (drop_tx t s)\<lparr>sg_blobs := js_set h bs (sg_blobs s)\<rparr>"

section \<open>The calls\<close>

definition tx_id :: "nat \<Rightarrow> string" where
  "tx_id n = ''tx-'' @ dec_digits n"

definition init_tx :: "storage \<Rightarrow> string \<Rightarrow> nat \<Rightarrow> string \<Rightarrow> transaction \<times> init_response" where
  "init_tx s h len name =
    (let t = tx_id (Suc (sg_nextId s));
         base = \<lparr>tx_hash = h, tx_size = len, tx_name = name, tx_kind = VerifyTx, tx_bytes = [],
           tx_starts = [], tx_ranges = [], tx_inFlight = 0\<rparr>
     in if js_has (sg_blobs s) h
        then let rs = [\<lparr>br_start = 0, br_end = min len 8\<rparr>] in (base\<lparr>tx_ranges := rs\<rparr>, VerifyRanges t rs)
        else if sg_chunkSize s * 3 < len
        then (base\<lparr>tx_kind := ChunkedTx, tx_bytes := replicate len 0\<rparr>,
              StartUploadChunked t (sg_chunkSize s) (sg_max s))
        else (base\<lparr>tx_kind := WholeFileTx, tx_bytes := replicate len 0\<rparr>, StartUploadWholeFile t))"

definition uploadInit ::
  "storage \<Rightarrow> string \<Rightarrow> nat \<Rightarrow> string \<Rightarrow> bool \<Rightarrow> storage \<times> (js_error + init_response)" where
  "uploadInit s h len token aborted =
    (case enter_call s UploadInit None aborted of
      (s1, Some e) \<Rightarrow> (s1, Inl e)
    | (s1, None) \<Rightarrow>
        (case js_get (sg_tokens s1) token of
          None \<Rightarrow> (s1, Inl (storageError 401 ''UPLOAD_TOKEN_INVALID'' None))
        | Some name \<Rightarrow>
            if name = [] then (s1, Inl (storageError 401 ''UPLOAD_TOKEN_INVALID'' None))
            else (s1\<lparr>sg_nextId := Suc (sg_nextId s1),
                    sg_transactions := js_set (tx_id (Suc (sg_nextId s1))) (fst (init_tx s1 h len name))
                      (sg_transactions s1)\<rparr>,
                  Inr (snd (init_tx s1 h len name)))))"

text \<open>What the status answers, and what the runner reads in it.\<close>

datatype status_answer =
    AtWholeFileStep
  | AtVerifyStep "byte_range list"
  | AtCompleteStep
  | AtChunkedStep "nat list" nat nat

definition status_of :: "storage \<Rightarrow> transaction \<Rightarrow> status_answer" where
  "status_of s tx =
    (case tx_kind tx of
      WholeFileTx \<Rightarrow> AtWholeFileStep
    | VerifyTx \<Rightarrow> AtVerifyStep (tx_ranges tx)
    | ChunkedTx \<Rightarrow>
        if missingChunks s tx = [] then AtCompleteStep
        else AtChunkedStep (missingChunks s tx) (sg_chunkSize s) (sg_max s))"

definition uploadStatus :: "storage \<Rightarrow> string \<Rightarrow> bool \<Rightarrow> storage \<times> (js_error + status_answer)" where
  "uploadStatus s t aborted =
    (case enter s UploadStatus t aborted of
      (s1, Inl e) \<Rightarrow> (s1, Inl e)
    | (s1, Inr tx) \<Rightarrow> (s1, Inr (status_of s1 tx)))"

fun read_status :: "status_answer \<Rightarrow> status_response" where
  "read_status AtCompleteStep = CurrentComplete"
| "read_status (AtChunkedStep missing cs m) = CurrentChunked cs m (Some missing)"
| "read_status AtWholeFileStep = CurrentOther"
| "read_status (AtVerifyStep _) = CurrentOther"

text \<open>The body of a whole file is awaited: the request waits with the transaction it found.\<close>

definition whole_file_begin :: "storage \<Rightarrow> string \<Rightarrow> bytes \<Rightarrow> bool \<Rightarrow> storage \<times> js_error option" where
  "whole_file_begin s t body aborted =
    (case enter s UploadWholeFile t aborted of
      (s1, Inl e) \<Rightarrow> (s1, Some e)
    | (s1, Inr tx) \<Rightarrow>
        (s1\<lparr>sg_bodies := sg_bodies s1 @
          [\<lparr>bq_tx = t, bq_hash = tx_hash tx, bq_name = tx_name tx, bq_body = body\<rparr>]\<rparr>, None))"

definition whole_file_end ::
  "(bytes \<Rightarrow> string) \<Rightarrow> body_request \<Rightarrow> storage \<Rightarrow> storage \<times> (js_error + uploaded_asset \<times> string)" where
  "whole_file_end blake3Hex q s =
    (let s1 = s\<lparr>sg_bodies := remove1 q (sg_bodies s)\<rparr>
     in if blake3Hex (bq_body q) \<noteq> bq_hash q then (s1, Inl (storageError 400 ''FILE_HASH_MISMATCH'' None))
        else (store_blob (bq_tx q) (bq_hash q) (bq_body q) s1, Inr (storage_result (bq_tx q) (bq_name q))))"

text \<open>
  A chunk, until it waits. The header is given as its three numbers, \<open>None\<close> when it does not match. The
  answer is the error, or what it reports as loaded.
\<close>

definition set_tx :: "string \<Rightarrow> transaction \<Rightarrow> storage \<Rightarrow> storage" where
  "set_tx t tx s = s\<lparr>sg_transactions := js_set t tx (sg_transactions s)\<rparr>"

definition chunk_begin ::
  "storage \<Rightarrow> string \<Rightarrow> (nat \<times> nat \<times> nat) option \<Rightarrow> bytes \<Rightarrow> bool \<Rightarrow> storage \<times> (js_error + nat)" where
  "chunk_begin s t header body aborted =
    (case enter s UploadChunk t aborted of
      (s1, Inl e) \<Rightarrow> (s1, Inl e)
    | (s1, Inr tx) \<Rightarrow>
        (case header of
          None \<Rightarrow> (s1, Inl (storageError 400 ''MALFORMED_REQUEST'' None))
        | Some (start, until, _) \<Rightarrow>
            if int until - int start \<noteq> int (length body) \<or> sg_chunkSize s1 < length body
            then (s1, Inl (storageError 400 ''INVALID_CHUNK_SIZE'' None))
            else if sg_max s1 \<le> tx_inFlight tx
            then (s1, Inl (storageError 429 ''TOO_MANY_CONCURRENT_UPLOADS''
                (Some (''max_concurrent='' @ dec_digits (sg_max s1)))))
            else ((set_tx t (tx\<lparr>tx_inFlight := Suc (tx_inFlight tx)\<rparr>) s1)
                \<lparr>sg_peak := max (sg_peak s1) (Suc (tx_inFlight tx)),
                 sg_pending := sg_pending s1 @
                   [\<lparr>cq_tx = t, cq_start = start, cq_body = body, cq_room = length (tx_bytes tx)\<rparr>]\<rparr>,
              Inr (length body div 2))))"

definition set_bytes :: "bytes \<Rightarrow> nat \<Rightarrow> bytes \<Rightarrow> bytes" where
  "set_bytes bs start ys = take start bs @ ys @ drop (start + length ys) bs"

text \<open>
  The wait ends: aborted, or with the bytes written and the chunk noted. \<open>Uint8Array.set\<close> throws when they
  do not fit; in every case the request is no longer in flight.
\<close>

definition write_chunk :: "chunk_request \<Rightarrow> transaction \<Rightarrow> transaction" where
  "write_chunk q tx = tx\<lparr>tx_bytes := set_bytes (tx_bytes tx) (cq_start q) (cq_body q),
    tx_starts := tx_starts tx @ [cq_start q]\<rparr>"

definition chunk_fits :: "chunk_request \<Rightarrow> bool" where
  "chunk_fits q \<longleftrightarrow> cq_start q + length (cq_body q) \<le> cq_room q"

definition chunk_end :: "storage \<Rightarrow> chunk_request \<Rightarrow> bool \<Rightarrow> storage \<times> (js_error + unit)" where
  "chunk_end s q aborted =
    (let s1 = s\<lparr>sg_pending := remove1 q (sg_pending s)\<rparr>;
         left_flight = (\<lambda>tx. tx\<lparr>tx_inFlight := tx_inFlight tx - 1\<rparr>);
         update = (\<lambda>f. case js_get (sg_transactions s1) (cq_tx q) of
           None \<Rightarrow> s1 | Some tx \<Rightarrow> set_tx (cq_tx q) (f tx) s1)
     in if aborted then (update left_flight, Inl canceledError)
        else if \<not> chunk_fits q then (update left_flight, Inl (PlainError ''offset is out of bounds''))
        else (update (\<lambda>tx. left_flight (write_chunk q tx)), Inr ()))"

text \<open>Every range is sent, byte by byte; a byte past the stored ones is \<open>undefined\<close> and equals none.\<close>

definition range_matches :: "bytes \<Rightarrow> byte_range \<Rightarrow> bytes \<Rightarrow> bool" where
  "range_matches stored r sent \<longleftrightarrow>
    int (length sent) = int (br_end r) - int (br_start r) \<and>
    list_all (\<lambda>k. br_start r + k < length stored \<and> sent ! k = stored ! (br_start r + k)) [0..<length sent]"

definition ranges_match :: "bytes \<Rightarrow> byte_range list \<Rightarrow> bytes list \<Rightarrow> bool" where
  "ranges_match stored rs sent \<longleftrightarrow>
    list_all (\<lambda>k. range_matches stored (rs ! k) (if k < length sent then sent ! k else [])) [0..<length rs]"

definition uploadVerify ::
  "storage \<Rightarrow> string \<Rightarrow> bytes list \<Rightarrow> bool \<Rightarrow> storage \<times> (js_error + uploaded_asset \<times> string)" where
  "uploadVerify s t sent aborted =
    (case enter s UploadVerify t aborted of
      (s1, Inl e) \<Rightarrow> (s1, Inl e)
    | (s1, Inr tx) \<Rightarrow>
        (let stored = (case js_get (sg_blobs s1) (tx_hash tx) of None \<Rightarrow> [] | Some bs \<Rightarrow> bs)
         in (drop_tx t s1,
             if ranges_match stored (tx_ranges tx) sent then Inr (storage_result t (tx_name tx))
             else Inl (storageError 400 ''VERIFICATION_FAILED'' None))))"

definition uploadComplete ::
  "(bytes \<Rightarrow> string) \<Rightarrow> storage \<Rightarrow> string \<Rightarrow> bool \<Rightarrow> storage \<times> (js_error + uploaded_asset \<times> string)" where
  "uploadComplete blake3Hex s t aborted =
    (case enter s UploadComplete t aborted of
      (s1, Inl e) \<Rightarrow> (s1, Inl e)
    | (s1, Inr tx) \<Rightarrow>
        if missingChunks s1 tx \<noteq> [] then (s1, Inl (storageError 400 ''UPLOAD_INCOMPLETE'' None))
        else if blake3Hex (tx_bytes tx) \<noteq> tx_hash tx
        then (drop_tx t s1, Inl (storageError 400 ''FILE_HASH_MISMATCH'' None))
        else (store_blob t (tx_hash tx) (tx_bytes tx) s1, Inr (storage_result t (tx_name tx))))"

definition uploadCancel :: "storage \<Rightarrow> string \<Rightarrow> bool \<Rightarrow> storage \<times> js_error option" where
  "uploadCancel s t aborted =
    (case enter s UploadCancel t aborted of
      (s1, Inl e) \<Rightarrow> (s1, Some e)
    | (s1, Inr tx) \<Rightarrow> (drop_tx t s1, None))"

text \<open>A file with a recognisable pattern.\<close>

definition makeFile :: "nat \<Rightarrow> nat \<Rightarrow> bytes" where
  "makeFile len seed = map (\<lambda>i. (i * 31 + seed) mod 251) [0..<len]"

section \<open>What happens to the double\<close>

datatype storage_event =
    SFail storage_method js_error
  | SInit string nat string bool
  | SStatus string bool
  | SBody string bytes bool
  | SBodyEnd body_request
  | SChunk string "(nat \<times> nat \<times> nat) option" bytes bool
  | SChunkEnd chunk_request bool
  | SVerify string "bytes list" bool
  | SComplete string bool
  | SCancel string bool

fun storage_step :: "(bytes \<Rightarrow> string) \<Rightarrow> storage \<Rightarrow> storage_event \<Rightarrow> storage" where
  "storage_step hx s (SFail m e) = failNext s m e"
| "storage_step hx s (SInit h len token ab) = fst (uploadInit s h len token ab)"
| "storage_step hx s (SStatus t ab) = fst (uploadStatus s t ab)"
| "storage_step hx s (SBody t body ab) = fst (whole_file_begin s t body ab)"
| "storage_step hx s (SBodyEnd q) = fst (whole_file_end hx q s)"
| "storage_step hx s (SChunk t header body ab) = fst (chunk_begin s t header body ab)"
| "storage_step hx s (SChunkEnd q ab) = fst (chunk_end s q ab)"
| "storage_step hx s (SVerify t sent ab) = fst (uploadVerify s t sent ab)"
| "storage_step hx s (SComplete t ab) = fst (uploadComplete hx s t ab)"
| "storage_step hx s (SCancel t ab) = fst (uploadCancel s t ab)"

text \<open>A request ends only after it began.\<close>

fun storage_event_ok :: "storage \<Rightarrow> storage_event \<Rightarrow> bool" where
  "storage_event_ok s (SBodyEnd q) = (q \<in> set (sg_bodies s))"
| "storage_event_ok s (SChunkEnd q _) = (q \<in> set (sg_pending s))"
| "storage_event_ok s _ = True"

section \<open>What stays true of the double\<close>

text \<open>Decimal digits tell numbers apart, so a transaction gets an id of its own.\<close>

definition digits_value :: "string \<Rightarrow> nat" where
  "digits_value ds = foldl (\<lambda>n c. n * 10 + (of_char c - 48)) 0 ds"

lemma digits_value_dec [simp]: "digits_value (dec_digits n) = n"
proof (induction n rule: dec_digits.induct)
  case (1 n)
  show ?case
  proof (cases "n < 10")
    case True
    then show ?thesis by (simp add: dec_digits.simps [of n] digits_value_def)
  next
    case False
    then have "digits_value (dec_digits (n div 10)) = n div 10" by (rule 1)
    then show ?thesis using False by (simp add: dec_digits.simps [of n] digits_value_def)
  qed
qed

lemma tx_id_inject [simp]: "tx_id m = tx_id n \<longleftrightarrow> m = n"
  unfolding tx_id_def by (metis digits_value_dec same_append_eq)

text \<open>
  Every blob is kept under its own hash; a transaction counts the chunk requests that wait on it, and
  they hold its array; no more of them than allowed, ever; ids not given yet name nothing.
\<close>

definition blobs_hashed :: "(bytes \<Rightarrow> string) \<Rightarrow> storage \<Rightarrow> bool" where
  "blobs_hashed hx s \<longleftrightarrow> (\<forall>h bs. js_get (sg_blobs s) h = Some bs \<longrightarrow> hx bs = h)"

definition waiting_on :: "string \<Rightarrow> chunk_request list \<Rightarrow> chunk_request list" where
  "waiting_on t qs = filter (\<lambda>q. cq_tx q = t) qs"

definition tx_counted :: "nat \<Rightarrow> chunk_request list \<Rightarrow> string \<Rightarrow> transaction \<Rightarrow> bool" where
  "tx_counted limit qs t tx \<longleftrightarrow> tx_inFlight tx = length (waiting_on t qs) \<and> tx_inFlight tx \<le> limit \<and>
    (\<forall>q\<in>set (waiting_on t qs). cq_room q = length (tx_bytes tx))"

definition flights_counted :: "storage \<Rightarrow> bool" where
  "flights_counted s \<longleftrightarrow>
    (\<forall>t tx. js_get (sg_transactions s) t = Some tx \<longrightarrow> tx_counted (sg_max s) (sg_pending s) t tx)"

definition ids_fresh :: "storage \<Rightarrow> bool" where
  "ids_fresh s \<longleftrightarrow>
    (\<forall>n>sg_nextId s. js_get (sg_transactions s) (tx_id n) = None \<and> waiting_on (tx_id n) (sg_pending s) = [])"

definition storage_inv :: "(bytes \<Rightarrow> string) \<Rightarrow> storage \<Rightarrow> bool" where
  "storage_inv hx s \<longleftrightarrow> blobs_hashed hx s \<and> flights_counted s \<and> sg_peak s \<le> sg_max s \<and> ids_fresh s"

lemmas storage_inv_defs = storage_inv_def blobs_hashed_def flights_counted_def ids_fresh_def

lemma storage_inv_log [simp]:
  "storage_inv hx (s\<lparr>sg_calls := cs\<rparr>) = storage_inv hx s"
  "storage_inv hx (s\<lparr>sg_failures := fs\<rparr>) = storage_inv hx s"
  "storage_inv hx (s\<lparr>sg_bodies := qs\<rparr>) = storage_inv hx s"
  by (simp_all add: storage_inv_defs)

lemma enter_call_frame:
  obtains cs fs where "fst (enter_call s m t ab) = s\<lparr>sg_calls := cs, sg_failures := fs\<rparr>"
proof (cases "ab \<or> take_failure m (sg_failures s) = None")
  case True
  then have "fst (enter_call s m t ab) =
      s\<lparr>sg_calls := sg_calls s @ [(m, t)], sg_failures := sg_failures s\<rparr>"
    by (auto simp: enter_call_def Let_def)
  then show ?thesis by (rule that)
next
  case False
  then obtain e rest where "\<not> ab" "take_failure m (sg_failures s) = Some (e, rest)" by auto
  then have "fst (enter_call s m t ab) = s\<lparr>sg_calls := sg_calls s @ [(m, t)], sg_failures := rest\<rparr>"
    by (simp add: enter_call_def Let_def)
  then show ?thesis by (rule that)
qed

lemma enter_frame:
  assumes "enter s m t ab = (s1, r)"
  obtains cs fs where "s1 = s\<lparr>sg_calls := cs, sg_failures := fs\<rparr>"
    and "\<forall>tx. r = Inr tx \<longrightarrow> js_get (sg_transactions s) t = Some tx"
proof -
  obtain cs fs where f: "fst (enter_call s m (Some t) ab) = s\<lparr>sg_calls := cs, sg_failures := fs\<rparr>"
    by (rule enter_call_frame)
  have "s1 = fst (enter_call s m (Some t) ab)" and
    "\<forall>tx. r = Inr tx \<longrightarrow> js_get (sg_transactions s1) t = Some tx"
    using assms by (auto simp: enter_def split: prod.splits option.splits)
  then show ?thesis using that [OF _] f by auto
qed

lemma inv_drop_tx: "storage_inv hx s \<Longrightarrow> storage_inv hx (drop_tx t s)"
  by (simp add: storage_inv_defs drop_tx_def)

lemma inv_store_blob:
  assumes "storage_inv hx s" and "hx bs = h"
  shows "storage_inv hx (store_blob t h bs s)"
  using inv_drop_tx [OF assms(1), of t] assms(2)
  by (simp add: storage_inv_defs store_blob_def drop_tx_def)

lemma enter_cases:
  assumes "storage_inv hx s"
  obtains (refused) s1 e where "enter s m t ab = (s1, Inl e)" and "storage_inv hx s1"
  | (entered) s1 tx where "enter s m t ab = (s1, Inr tx)" and "storage_inv hx s1"
      and "js_get (sg_transactions s1) t = Some tx"
proof (cases "enter s m t ab")
  case (Pair s1 r)
  then obtain cs fs where "s1 = s\<lparr>sg_calls := cs, sg_failures := fs\<rparr>"
    and "\<forall>tx. r = Inr tx \<longrightarrow> js_get (sg_transactions s) t = Some tx"
    by (rule enter_frame)
  then show ?thesis using that Pair assms by (cases r) auto
qed

lemma init_tx_idle [simp]: "tx_inFlight (fst (init_tx s h len name)) = 0"
  by (simp add: init_tx_def Let_def)

lemma inv_init:
  assumes inv: "storage_inv hx s" and idle: "tx_inFlight tx = 0"
  shows "storage_inv hx (s\<lparr>sg_nextId := Suc (sg_nextId s),
    sg_transactions := js_set (tx_id (Suc (sg_nextId s))) tx (sg_transactions s)\<rparr>)" (is "storage_inv hx ?s")
proof -
  have "waiting_on (tx_id (Suc (sg_nextId s))) (sg_pending s) = []"
    using inv by (simp add: storage_inv_defs)
  then have "tx_counted (sg_max s) (sg_pending s) (tx_id (Suc (sg_nextId s))) tx"
    using idle by (simp add: tx_counted_def)
  then show ?thesis using inv by (simp add: storage_inv_defs)
qed

lemma inv_uploadInit:
  assumes "storage_inv hx s"
  shows "storage_inv hx (fst (uploadInit s h len token ab))"
proof -
  obtain cs fs where f: "fst (enter_call s UploadInit None ab) = s\<lparr>sg_calls := cs, sg_failures := fs\<rparr>"
    by (rule enter_call_frame)
  have "storage_inv hx (fst (enter_call s UploadInit None ab))" unfolding f using assms by simp
  then show ?thesis
    using inv_init by (auto simp: uploadInit_def split: prod.splits option.splits)
qed

text \<open>A request more, or one less, on a transaction that is there.\<close>

lemma inv_more_waiting:
  assumes inv: "storage_inv hx s" and tx: "js_get (sg_transactions s) (cq_tx q) = Some tx"
    and room: "tx_inFlight tx < sg_max s" "cq_room q = length (tx_bytes tx)"
  shows "storage_inv hx ((set_tx (cq_tx q) (tx\<lparr>tx_inFlight := Suc (tx_inFlight tx)\<rparr>) s)
    \<lparr>sg_peak := max (sg_peak s) (Suc (tx_inFlight tx)), sg_pending := sg_pending s @ [q]\<rparr>)"
    (is "storage_inv hx ?s")
proof -
  let ?qs = "sg_pending s @ [q]" and ?tx = "tx\<lparr>tx_inFlight := Suc (tx_inFlight tx)\<rparr>"
  have w: "waiting_on t ?qs = waiting_on t (sg_pending s) @ (if cq_tx q = t then [q] else [])" for t
    by (simp add: waiting_on_def)
  have "tx_counted (sg_max s) (sg_pending s) (cq_tx q) tx" using inv tx by (simp add: storage_inv_defs)
  then have "tx_counted (sg_max s) ?qs (cq_tx q) ?tx"
    using room unfolding tx_counted_def w by simp
  moreover have "tx_counted (sg_max s) ?qs t tx' = tx_counted (sg_max s) (sg_pending s) t tx'"
    if "t \<noteq> cq_tx q" for t tx'
    using that unfolding tx_counted_def w by auto
  moreover have "\<forall>n>sg_nextId s. cq_tx q \<noteq> tx_id n"
    using inv tx by (force simp: storage_inv_defs)
  ultimately show ?thesis
    using inv room(1) unfolding storage_inv_defs by (auto simp: set_tx_def w)
qed

lemma inv_chunk_begin:
  assumes "storage_inv hx s"
  shows "storage_inv hx (fst (chunk_begin s t header body ab))"
  using assms
proof (cases rule: enter_cases [where m = UploadChunk and t = t and ab = ab])
  case (refused s1 e)
  then show ?thesis by (simp add: chunk_begin_def)
next
  case (entered s1 tx)
  let ?q = "\<lambda>start. \<lparr>cq_tx = t, cq_start = start, cq_body = body, cq_room = length (tx_bytes tx)\<rparr>"
  have "storage_inv hx ((set_tx t (tx\<lparr>tx_inFlight := Suc (tx_inFlight tx)\<rparr>) s1)
      \<lparr>sg_peak := max (sg_peak s1) (Suc (tx_inFlight tx)), sg_pending := sg_pending s1 @ [?q start]\<rparr>)"
    if "tx_inFlight tx < sg_max s1" for start
    using inv_more_waiting [of hx s1 "?q start"] entered that by simp
  then show ?thesis using entered by (auto simp: chunk_begin_def split: option.splits)
qed

lemma inv_less_waiting:
  assumes inv: "storage_inv hx s" and q: "q \<in> set (sg_pending s)"
    and f: "\<And>tx. tx_inFlight (f tx) = tx_inFlight tx - 1"
      "\<And>tx. length (tx_bytes tx) = cq_room q \<Longrightarrow> length (tx_bytes (f tx)) = length (tx_bytes tx)"
  shows "storage_inv hx (case js_get (sg_transactions s) (cq_tx q) of
      None \<Rightarrow> s\<lparr>sg_pending := remove1 q (sg_pending s)\<rparr>
    | Some tx \<Rightarrow> set_tx (cq_tx q) (f tx) (s\<lparr>sg_pending := remove1 q (sg_pending s)\<rparr>))"
proof -
  let ?qs = "remove1 q (sg_pending s)"
  have w: "waiting_on t ?qs = (if cq_tx q = t then remove1 q (waiting_on t (sg_pending s))
      else waiting_on t (sg_pending s))" for t
    by (auto simp: waiting_on_def filter_remove1 remove1_idem)
  have mem: "q \<in> set (waiting_on (cq_tx q) (sg_pending s))" using q by (simp add: waiting_on_def)
  have same: "tx_counted (sg_max s) ?qs (cq_tx q) (f tx)"
    if "tx_counted (sg_max s) (sg_pending s) (cq_tx q) tx" for tx
    using that mem f(1) [of tx] f(2) [of tx] unfolding tx_counted_def w
    by (auto simp: length_remove1 dest: notin_set_remove1 set_remove1_subset [THEN subsetD])
  have other: "tx_counted (sg_max s) ?qs t tx = tx_counted (sg_max s) (sg_pending s) t tx"
    if "t \<noteq> cq_tx q" for t tx
    using that unfolding tx_counted_def w by auto
  show ?thesis
  proof (cases "js_get (sg_transactions s) (cq_tx q)")
    case None
    then have "js_get (sg_transactions s) t = Some tx \<Longrightarrow> t \<noteq> cq_tx q" for t tx by auto
    then show ?thesis using None inv other unfolding storage_inv_defs by (simp add: w)
  next
    case (Some tx)
    then show ?thesis using inv same other unfolding storage_inv_defs by (auto simp: set_tx_def w)
  qed
qed

lemma length_set_bytes: "start + length ys \<le> length bs \<Longrightarrow> length (set_bytes bs start ys) = length bs"
  by (simp add: set_bytes_def)

lemma inv_chunk_end:
  assumes "storage_inv hx s" and "q \<in> set (sg_pending s)"
  shows "storage_inv hx (fst (chunk_end s q ab))"
proof -
  have "storage_inv hx (case js_get (sg_transactions s) (cq_tx q) of
      None \<Rightarrow> s\<lparr>sg_pending := remove1 q (sg_pending s)\<rparr>
    | Some tx \<Rightarrow> set_tx (cq_tx q) (tx\<lparr>tx_inFlight := tx_inFlight tx - 1\<rparr>)
        (s\<lparr>sg_pending := remove1 q (sg_pending s)\<rparr>))"
    using inv_less_waiting [OF assms, of "\<lambda>tx. tx\<lparr>tx_inFlight := tx_inFlight tx - 1\<rparr>"] by simp
  moreover have "storage_inv hx (case js_get (sg_transactions s) (cq_tx q) of
      None \<Rightarrow> s\<lparr>sg_pending := remove1 q (sg_pending s)\<rparr>
    | Some tx \<Rightarrow> set_tx (cq_tx q)
        ((write_chunk q tx)\<lparr>tx_inFlight := tx_inFlight (write_chunk q tx) - 1\<rparr>)
        (s\<lparr>sg_pending := remove1 q (sg_pending s)\<rparr>))" if "chunk_fits q"
    using inv_less_waiting [OF assms,
        of "\<lambda>tx. (write_chunk q tx)\<lparr>tx_inFlight := tx_inFlight (write_chunk q tx) - 1\<rparr>"] that
    by (simp add: write_chunk_def chunk_fits_def length_set_bytes)
  ultimately show ?thesis by (auto simp: chunk_end_def Let_def cong: option.case_cong)
qed

lemma inv_whole_file_end: "storage_inv hx s \<Longrightarrow> storage_inv hx (fst (whole_file_end hx q s))"
  by (simp add: whole_file_end_def Let_def inv_store_blob)

lemma inv_uploadStatus:
  assumes "storage_inv hx s"
  shows "storage_inv hx (fst (uploadStatus s t ab))"
  by (cases rule: enter_cases [OF assms, where m = UploadStatus and t = t and ab = ab])
    (simp_all add: uploadStatus_def)

lemma inv_whole_file_begin:
  assumes "storage_inv hx s"
  shows "storage_inv hx (fst (whole_file_begin s t body ab))"
  by (cases rule: enter_cases [OF assms, where m = UploadWholeFile and t = t and ab = ab])
    (simp_all add: whole_file_begin_def)

lemma inv_uploadVerify:
  assumes "storage_inv hx s"
  shows "storage_inv hx (fst (uploadVerify s t sent ab))"
  by (cases rule: enter_cases [OF assms, where m = UploadVerify and t = t and ab = ab])
    (simp_all add: uploadVerify_def Let_def inv_drop_tx)

lemma inv_uploadComplete:
  assumes "storage_inv hx s"
  shows "storage_inv hx (fst (uploadComplete hx s t ab))"
  by (cases rule: enter_cases [OF assms, where m = UploadComplete and t = t and ab = ab])
    (simp_all add: uploadComplete_def inv_drop_tx inv_store_blob)

lemma inv_uploadCancel:
  assumes "storage_inv hx s"
  shows "storage_inv hx (fst (uploadCancel s t ab))"
  by (cases rule: enter_cases [OF assms, where m = UploadCancel and t = t and ab = ab])
    (simp_all add: uploadCancel_def inv_drop_tx)

lemmas storage_inv_calls = inv_uploadInit inv_uploadStatus inv_whole_file_begin inv_whole_file_end
  inv_chunk_begin inv_chunk_end inv_uploadVerify inv_uploadComplete inv_uploadCancel

interpretation storage_double: event_machine "storage_step hx" storage_event_ok "storage_inv hx" for hx
proof
  fix s e
  assume "storage_inv hx s" "storage_event_ok s e"
  then show "storage_inv hx (storage_step hx s e)"
    by (cases e) (simp_all add: storage_inv_calls failNext_def)
qed

lemma storage_inv_new: "storage_inv hx (new_storage cs n tokens)"
  by (simp add: storage_inv_defs new_storage_def waiting_on_def)

text \<open>
  Whatever is called, in any order, aborted or failing: a blob is kept under its own hash, never more
  chunk requests of a transaction are in flight than allowed, each of them is counted, and when none waits
  the transaction counts none (no slot leaks through an abort or an error).
\<close>

theorem storage_keeps_its_word:
  assumes "admissible (storage_step hx) storage_event_ok (new_storage cs n tokens) es"
    and "s = foldl (storage_step hx) (new_storage cs n tokens) es"
  shows "(\<forall>h bs. js_get (sg_blobs s) h = Some bs \<longrightarrow> hx bs = h) \<and> sg_peak s \<le> sg_max s \<and>
    (\<forall>t tx. js_get (sg_transactions s) t = Some tx \<longrightarrow>
      tx_inFlight tx = length (filter (\<lambda>q. cq_tx q = t) (sg_pending s)) \<and> tx_inFlight tx \<le> sg_max s)"
proof -
  have "storage_inv hx s"
    using storage_double.run_inv [OF storage_inv_new assms(1)] assms(2) by simp
  then show ?thesis unfolding storage_inv_defs tx_counted_def waiting_on_def by blast
qed

section \<open>A chunked upload to the double\<close>

text \<open>
  The chunks of a file are sent to a transaction. The array has what was received of them; a place counts
  as received when it lies in a chunk whose start is noted.
\<close>

definition chunk_req :: "bytes \<Rightarrow> nat \<Rightarrow> string \<Rightarrow> nat \<Rightarrow> chunk_request" where
  "chunk_req content cs t i = \<lparr>cq_tx = t, cq_start = i * cs, cq_body = chunk_bytes content cs i,
    cq_room = length content\<rparr>"

definition received_so :: "bytes \<Rightarrow> nat \<Rightarrow> nat set \<Rightarrow> transaction \<Rightarrow> bool" where
  "received_so content cs held tx \<longleftrightarrow>
    tx_kind tx = ChunkedTx \<and> tx_size tx = length content \<and> length (tx_bytes tx) = length content \<and>
    set (tx_starts tx) = (\<lambda>i. i * cs) ` held \<and>
    (\<forall>p<length content. p div cs \<in> held \<longrightarrow> tx_bytes tx ! p = content ! p)"

lemma chunk_bytes_facts:
  assumes "0 < cs" and "i < chunk_count (length content) cs"
  shows "length (chunk_bytes content cs i) = min cs (length content - i * cs)"
    and "i * cs + length (chunk_bytes content cs i) \<le> length content"
    and "k < length (chunk_bytes content cs i) \<Longrightarrow> chunk_bytes content cs i ! k = content ! (i * cs + k)"
    and "int (length (chunk_bytes content cs i)) = chunkLength (length content) cs i"
proof -
  have lt: "i * cs < length content" using chunk_count_Suc [OF assms] .
  have len: "nat (chunkLength (length content) cs i) = min cs (length content - i * cs)"
  proof -
    have "int (length content) - int i * int cs = int (length content - i * cs)"
      using lt by (simp add: of_nat_diff)
    then have "chunkLength (length content) cs i = int (min cs (length content - i * cs))"
      by (simp only: chunkLength_def of_nat_min)
    then show ?thesis by simp
  qed
  show L: "length (chunk_bytes content cs i) = min cs (length content - i * cs)"
    using lt unfolding chunk_bytes_def file_slice_def len by auto
  show "i * cs + length (chunk_bytes content cs i) \<le> length content" using L lt by simp
  show "chunk_bytes content cs i ! k = content ! (i * cs + k)" if "k < length (chunk_bytes content cs i)"
    using that lt unfolding chunk_bytes_def file_slice_def len by auto
  show "int (length (chunk_bytes content cs i)) = chunkLength (length content) cs i"
    using chunkLength_bounds [OF assms] unfolding L using len by linarith
qed

lemma nth_set_bytes:
  assumes "start + length ys \<le> length bs" and "p < length bs"
  shows "set_bytes bs start ys ! p =
    (if start \<le> p \<and> p < start + length ys then ys ! (p - start) else bs ! p)"
  using assms by (auto simp: set_bytes_def nth_append min_def)

lemma received_write:
  assumes cs: "0 < cs" and i: "i < chunk_count (length content) cs" and r: "received_so content cs held tx"
  shows "received_so content cs (insert i held) (write_chunk (chunk_req content cs t i) tx)"
proof -
  let ?ys = "chunk_bytes content cs i"
  note f = chunk_bytes_facts [OF cs i]
  have len: "length (tx_bytes tx) = length content" using r by (simp add: received_so_def)
  have "set_bytes (tx_bytes tx) (i * cs) ?ys ! p = content ! p"
    if p: "p < length content" "p div cs \<in> insert i held" for p
  proof (cases "i * cs \<le> p \<and> p < i * cs + length ?ys")
    case True
    then have "?ys ! (p - i * cs) = content ! p" using f(3) [of "p - i * cs"] by auto
    then show ?thesis using True f(2) p(1) len by (simp add: nth_set_bytes)
  next
    case False
    have "p div cs \<noteq> i"
    proof
      assume "p div cs = i"
      then have "i * cs \<le> p" "p < i * cs + cs"
        using cs div_times_less_eq_dividend [of p cs] dividend_less_div_times [of cs p] by auto
      then show False using False f(1) p(1) by auto
    qed
    then show ?thesis using False f(2) p r len by (auto simp: nth_set_bytes received_so_def)
  qed
  then show ?thesis
    using r f(2) len
    by (auto simp: received_so_def write_chunk_def chunk_req_def length_set_bytes)
qed

text \<open>Everything held: nothing is missing, and the array is the file.\<close>

lemma received_all:
  assumes cs: "0 < cs" and r: "received_so content cs held tx"
    and all: "{..<chunk_count (length content) cs} \<subseteq> held"
  shows "tx_bytes tx = content" and "sg_chunkSize s = cs \<Longrightarrow> missingChunks s tx = []"
proof -
  show "tx_bytes tx = content"
  proof (rule nth_equalityI)
    fix p
    assume p: "p < length (tx_bytes tx)"
    then have "p < length content" using r by (simp add: received_so_def)
    moreover have "p < chunk_count (length content) cs * cs"
      using chunk_count_covers [OF cs, of "length content"] calculation by linarith
    then have "p div cs < chunk_count (length content) cs" by (rule less_mult_imp_div_less)
    ultimately show "tx_bytes tx ! p = content ! p" using r all by (auto simp: received_so_def)
  qed (use r in \<open>simp add: received_so_def\<close>)
  show "missingChunks s tx = []" if "sg_chunkSize s = cs"
    using that r all by (auto simp: missingChunks_def received_so_def filter_empty_conv)
qed

text \<open>The double while it receives a file: what waits is what is sent, and nothing is scripted to fail.\<close>

definition receiving ::
  "bytes \<Rightarrow> string \<Rightarrow> string \<Rightarrow> nat list \<Rightarrow> nat set \<Rightarrow> storage \<Rightarrow> bool" where
  "receiving content h t sent held s \<longleftrightarrow>
    sg_failures s = [] \<and> sg_peak s \<le> sg_max s \<and>
    mset (waiting_on t (sg_pending s)) = mset (map (chunk_req content (sg_chunkSize s) t) sent) \<and>
    (\<exists>tx. js_get (sg_transactions s) t = Some tx \<and> tx_hash tx = h \<and> tx_inFlight tx = length sent \<and>
      received_so content (sg_chunkSize s) held tx)"

lemma enter_clean:
  assumes "sg_failures s = []" and "js_get (sg_transactions s) t = Some tx"
  shows "enter s m t False = (s\<lparr>sg_calls := sg_calls s @ [(m, Some t)]\<rparr>, Inr tx)"
  using assms by (simp add: enter_def enter_call_def)

lemma chunk_begin_accepted:
  assumes r: "receiving content h t sent held s" and cs: "0 < sg_chunkSize s"
    and i: "i < chunk_count (length content) (sg_chunkSize s)" and room: "length sent < sg_max s"
  obtains s' where
    "chunk_begin s t (Some (content_range content (sg_chunkSize s) i))
      (chunk_bytes content (sg_chunkSize s) i) False =
      (s', Inr (length (chunk_bytes content (sg_chunkSize s) i) div 2))"
    and "receiving content h t (sent @ [i]) held s'"
    and "sg_chunkSize s' = sg_chunkSize s" and "sg_max s' = sg_max s" and "sg_blobs s' = sg_blobs s"
proof -
  obtain tx where tx: "js_get (sg_transactions s) t = Some tx" "tx_hash tx = h"
    "tx_inFlight tx = length sent" "received_so content (sg_chunkSize s) held tx"
    using r by (auto simp: receiving_def)
  note f = chunk_bytes_facts [OF cs i]
  have len: "length (tx_bytes tx) = length content" using tx(4) by (simp add: received_so_def)
  let ?s = "(set_tx t (tx\<lparr>tx_inFlight := Suc (tx_inFlight tx)\<rparr>)
      (s\<lparr>sg_calls := sg_calls s @ [(UploadChunk, Some t)]\<rparr>))
    \<lparr>sg_peak := max (sg_peak s) (Suc (tx_inFlight tx)),
     sg_pending := sg_pending s @ [chunk_req content (sg_chunkSize s) t i]\<rparr>"
  have c: "chunk_begin s t (Some (content_range content (sg_chunkSize s) i))
      (chunk_bytes content (sg_chunkSize s) i) False =
      (?s, Inr (length (chunk_bytes content (sg_chunkSize s) i) div 2))"
    using r enter_clean [of s t tx UploadChunk] tx room f(1) len
    by (simp add: chunk_begin_def receiving_def content_range_def chunk_req_def)
  have "receiving content h t (sent @ [i]) held ?s"
    using r tx room unfolding receiving_def
    by (simp add: waiting_on_def chunk_req_def set_tx_def received_so_def)
  then show ?thesis using that [OF c] by (simp add: set_tx_def)
qed

lemma chunk_end_written:
  assumes r: "receiving content h t sent held s" and cs: "0 < sg_chunkSize s"
    and i: "i < chunk_count (length content) (sg_chunkSize s)" and sent: "i \<in> set sent"
  obtains s' where "chunk_end s (chunk_req content (sg_chunkSize s) t i) False = (s', Inr ())"
    and "receiving content h t (remove1 i sent) (insert i held) s'"
    and "sg_chunkSize s' = sg_chunkSize s" and "sg_max s' = sg_max s" and "sg_blobs s' = sg_blobs s"
proof -
  let ?q = "chunk_req content (sg_chunkSize s) t i"
  obtain tx where tx: "js_get (sg_transactions s) t = Some tx" "tx_hash tx = h"
    "tx_inFlight tx = length sent" "received_so content (sg_chunkSize s) held tx"
    using r by (auto simp: receiving_def)
  note f = chunk_bytes_facts [OF cs i]
  let ?tx = "(write_chunk ?q tx)\<lparr>tx_inFlight := tx_inFlight tx - 1\<rparr>"
  let ?s = "set_tx t ?tx (s\<lparr>sg_pending := remove1 ?q (sg_pending s)\<rparr>)"
  have q: "cq_tx ?q = t" by (simp add: chunk_req_def)
  have c: "chunk_end s ?q False = (?s, Inr ())"
    using tx(1) f(2) by (simp add: chunk_end_def Let_def chunk_fits_def q write_chunk_def)
      (simp add: chunk_req_def)
  have "mset (waiting_on t (remove1 ?q (sg_pending s))) =
      mset (waiting_on t (sg_pending s)) - {#?q#}"
    by (simp add: waiting_on_def q flip: filter_remove1)
  also have "\<dots> = mset (map (chunk_req content (sg_chunkSize s) t) (remove1 i sent))"
    using r sent by (simp add: receiving_def image_mset_Diff)
  finally have "receiving content h t (remove1 i sent) (insert i held) ?s"
    using r tx sent received_write [OF cs i tx(4), of t] unfolding receiving_def
    by (simp add: set_tx_def length_remove1 received_so_def write_chunk_def)
  then show ?thesis using that [OF c] by (simp add: set_tx_def)
qed

section \<open>The pool of lanes against the double\<close>

text \<open>
  Each index a lane takes is sent to the double; the answer to a chunk confirms it and the lane sends the next
  of the queue. A request the double refused counts as failed here (the runner would try some of them again
  first): none is refused.
\<close>

definition pool_send :: "bytes \<Rightarrow> string \<Rightarrow> nat \<Rightarrow> chunk_run \<times> storage \<Rightarrow> chunk_run \<times> storage" where
  "pool_send content t i w =
    (case chunk_begin (snd w) t (Some (content_range content (cu_chunkSize (fst w)) i))
        (chunk_bytes content (cu_chunkSize (fst w)) i) False of
      (s', Inl e) \<Rightarrow> (chunk_step (fst w) (ChunkFailed i e), s')
    | (s', Inr loaded) \<Rightarrow> (chunk_step (fst w) (ChunkProgress i (int loaded)), s'))"

definition pool_open :: "bytes \<Rightarrow> string \<Rightarrow> chunk_run \<Rightarrow> storage \<Rightarrow> chunk_run \<times> storage" where
  "pool_open content t c s = fold (pool_send content t) (cu_sending c) (c, s)"

definition pool_answer :: "bytes \<Rightarrow> string \<Rightarrow> chunk_run \<times> storage \<Rightarrow> nat \<Rightarrow> chunk_run \<times> storage" where
  "pool_answer content t w i =
    (case chunk_end (snd w) (chunk_req content (cu_chunkSize (fst w)) t i) False of
      (s', Inl e) \<Rightarrow> (chunk_step (fst w) (ChunkFailed i e), s')
    | (s', Inr _) \<Rightarrow>
        (case cu_queue (fst w) of
          [] \<Rightarrow> (chunk_step (fst w) (ChunkSent i), s')
        | j # _ \<Rightarrow> pool_send content t j (chunk_step (fst w) (ChunkSent i), s')))"

definition pool_ok :: "chunk_run \<times> storage \<Rightarrow> nat \<Rightarrow> bool" where
  "pool_ok w i \<longleftrightarrow> i \<in> set (cu_sending (fst w))"

text \<open>What the lanes know and what the double has, while \<open>sent\<close> is on the way.\<close>

definition pool_match ::
  "bytes \<Rightarrow> string \<Rightarrow> string \<Rightarrow> nat \<Rightarrow> nat list \<Rightarrow> nat set \<Rightarrow> chunk_run \<times> storage \<Rightarrow> bool" where
  "pool_match content h t lanes sent held w \<longleftrightarrow>
    chunk_wf lanes (fst w) \<and> lanes \<le> sg_max (snd w) \<and> cu_error (fst w) = None \<and>
    cu_size (fst w) = length content \<and> cu_chunkSize (fst w) = sg_chunkSize (snd w) \<and>
    receiving content h t sent held (snd w) \<and>
    {..<chunk_count (length content) (cu_chunkSize (fst w))} \<subseteq> held \<union> set (left (fst w))"

lemma pool_match_index:
  assumes "pool_match content h t lanes sent held w" and "i \<in> set (cu_sending (fst w))"
  shows "0 < sg_chunkSize (snd w)" and "i < chunk_count (length content) (sg_chunkSize (snd w))"
  using assms by (auto simp: pool_match_def chunk_wf_def chunk_core_def left_def)

lemma chunk_progress_keeps:
  "cu_sending (chunk_step c (ChunkProgress i n)) = cu_sending c"
  "cu_queue (chunk_step c (ChunkProgress i n)) = cu_queue c"
  "cu_error (chunk_step c (ChunkProgress i n)) = cu_error c"
  "left (chunk_step c (ChunkProgress i n)) = left c"
  by (simp_all add: report_def left_def)

lemma pool_send_matches:
  assumes p: "pool_match content h t lanes sent held w" and i: "i \<in> set (cu_sending (fst w))"
    and room: "length sent < lanes"
  shows "pool_match content h t lanes (sent @ [i]) held (pool_send content t i w)"
    and "cu_sending (fst (pool_send content t i w)) = cu_sending (fst w)"
    and "cu_queue (fst (pool_send content t i w)) = cu_queue (fst w)"
proof -
  note ix = pool_match_index [OF p i]
  have r: "receiving content h t sent held (snd w)" and cs: "cu_chunkSize (fst w) = sg_chunkSize (snd w)"
    and m: "length sent < sg_max (snd w)" using p room by (auto simp: pool_match_def)
  obtain s' where s': "chunk_begin (snd w) t (Some (content_range content (sg_chunkSize (snd w)) i))
      (chunk_bytes content (sg_chunkSize (snd w)) i) False =
      (s', Inr (length (chunk_bytes content (sg_chunkSize (snd w)) i) div 2))"
    and r': "receiving content h t (sent @ [i]) held s'"
    and k: "sg_chunkSize s' = sg_chunkSize (snd w)" "sg_max s' = sg_max (snd w)"
    using chunk_begin_accepted [OF r ix m] by blast
  let ?e = "ChunkProgress i (int (length (chunk_bytes content (sg_chunkSize (snd w)) i) div 2))"
  have eq: "pool_send content t i w = (chunk_step (fst w) ?e, s')"
    by (simp only: pool_send_def cs s' prod.case sum.case)
  have "chunk_event_ok (fst w) ?e"
    using chunk_bytes_facts(4) [OF ix] p by (simp add: len_of_def pool_match_def)
  then have "chunk_wf lanes (chunk_step (fst w) ?e)"
    using chunk_wf_step [of lanes "fst w" ?e] p unfolding pool_match_def by blast
  then show "pool_match content h t lanes (sent @ [i]) held (pool_send content t i w)"
    using p r' k unfolding eq pool_match_def fst_conv snd_conv chunk_progress_keeps chunk_step_size
    by (auto simp del: chunk_step.simps)
  show "cu_sending (fst (pool_send content t i w)) = cu_sending (fst w)"
    and "cu_queue (fst (pool_send content t i w)) = cu_queue (fst w)"
    unfolding eq fst_conv by (rule chunk_progress_keeps)+
qed

lemma pool_sends_match:
  assumes "pool_match content h t lanes sent held w" and "set is \<subseteq> set (cu_sending (fst w))"
    and "length sent + length is \<le> lanes"
  shows "pool_match content h t lanes (sent @ is) held (fold (pool_send content t) is w) \<and>
    cu_sending (fst (fold (pool_send content t) is w)) = cu_sending (fst w) \<and>
    cu_queue (fst (fold (pool_send content t) is w)) = cu_queue (fst w)"
  using assms
proof (induction "is" arbitrary: sent w)
  case Nil
  then show ?case by simp
next
  case (Cons i "is")
  have "i \<in> set (cu_sending (fst w))" "length sent < lanes" using Cons.prems by auto
  note s = pool_send_matches [OF Cons.prems(1) this]
  have "set is \<subseteq> set (cu_sending (fst (pool_send content t i w)))"
    and "length (sent @ [i]) + length is \<le> lanes" using Cons.prems s(2) by auto
  from Cons.IH [OF s(1) this] show ?case using s(2,3) by simp
qed

text \<open>The lanes and the double agree on what is in flight.\<close>

definition pool_agrees :: "bytes \<Rightarrow> string \<Rightarrow> string \<Rightarrow> nat \<Rightarrow> chunk_run \<times> storage \<Rightarrow> bool" where
  "pool_agrees content h t lanes w \<longleftrightarrow>
    (\<exists>held. pool_match content h t lanes (cu_sending (fst w)) held w)"

definition to_send :: "chunk_run \<times> storage \<Rightarrow> nat" where
  "to_send w = length (cu_sending (fst w)) + length (cu_queue (fst w))"

lemma chunk_sent_lists:
  assumes "distinct (cu_sending c)" and "i \<in> set (cu_sending c)"
  shows "cu_sending (chunk_step c (ChunkSent i)) = remove1 i (cu_sending c) @ take 1 (cu_queue c)"
    and "cu_queue (chunk_step c (ChunkSent i)) = drop 1 (cu_queue c)"
    and "cu_error (chunk_step c (ChunkSent i)) = cu_error c"
    and "set (left c) \<subseteq> insert i (set (left (chunk_step c (ChunkSent i))))"
proof -
  have "filter (\<lambda>j. j \<noteq> i) (cu_sending c) = remove1 i (cu_sending c)"
    using assms(1) by (simp add: distinct_remove1_removeAll removeAll_filter_not_eq neq_commute)
  then show "cu_sending (chunk_step c (ChunkSent i)) = remove1 i (cu_sending c) @ take 1 (cu_queue c)"
    and "cu_queue (chunk_step c (ChunkSent i)) = drop 1 (cu_queue c)"
    and "cu_error (chunk_step c (ChunkSent i)) = cu_error c"
    using assms(2) by (simp_all add: lane_next_def report_def split: list.splits)
  show "set (left c) \<subseteq> insert i (set (left (chunk_step c (ChunkSent i))))"
    using assms(2) by (auto simp: left_def lane_next_def report_def split: list.splits)
qed

lemma pool_answer_agrees:
  assumes a: "pool_agrees content h t lanes w" and i: "pool_ok w i"
  shows "pool_agrees content h t lanes (pool_answer content t w i) \<and>
    Suc (to_send (pool_answer content t w i)) = to_send w"
proof -
  obtain held where p: "pool_match content h t lanes (cu_sending (fst w)) held w"
    using a by (auto simp: pool_agrees_def)
  have i': "i \<in> set (cu_sending (fst w))" using i by (simp add: pool_ok_def)
  note ix = pool_match_index [OF p i']
  have r: "receiving content h t (cu_sending (fst w)) held (snd w)"
    and cs: "cu_chunkSize (fst w) = sg_chunkSize (snd w)" using p by (auto simp: pool_match_def)
  obtain s' where s': "chunk_end (snd w) (chunk_req content (sg_chunkSize (snd w)) t i) False = (s', Inr ())"
    and r': "receiving content h t (remove1 i (cu_sending (fst w))) (insert i held) s'"
    and k: "sg_chunkSize s' = sg_chunkSize (snd w)" "sg_max s' = sg_max (snd w)"
    using chunk_end_written [OF r ix i'] by blast
  let ?c = "chunk_step (fst w) (ChunkSent i)"
  have d: "distinct (cu_sending (fst w))"
    using p by (simp add: pool_match_def chunk_wf_def chunk_core_def left_def)
  note l = chunk_sent_lists [OF d i']
  have wf: "chunk_wf lanes ?c" using chunk_wf_step [of lanes "fst w" "ChunkSent i"] p
    by (simp add: pool_match_def)
  have m: "pool_match content h t lanes (remove1 i (cu_sending (fst w))) (insert i held) (?c, s')"
    using p r' k wf l(3,4) unfolding pool_match_def fst_conv snd_conv chunk_step_size
    by (auto simp del: chunk_step.simps)
  have pos: "0 < length (cu_sending (fst w))" using i' by (cases "cu_sending (fst w)") auto
  show ?thesis
  proof (cases "cu_queue (fst w)")
    case Nil
    then have "pool_answer content t w i = (?c, s')" by (simp add: pool_answer_def cs s')
    then show ?thesis using m l(1,2) Nil pos i'
      by (auto simp: pool_agrees_def to_send_def length_remove1)
  next
    case (Cons j js)
    then have eq: "pool_answer content t w i = pool_send content t j (?c, s')"
      by (simp add: pool_answer_def cs s')
    have j: "j \<in> set (cu_sending (fst (?c, s')))" using l(1) Cons by simp
    have "length (cu_sending (fst w)) \<le> lanes"
      using p by (simp add: pool_match_def chunk_wf_def lanes_ok_def)
    moreover have "length (remove1 i (cu_sending (fst w))) = length (cu_sending (fst w)) - 1"
      using i' by (simp add: length_remove1)
    ultimately have "length (remove1 i (cu_sending (fst w))) < lanes" using pos by linarith
    note ps = pool_send_matches [OF m j this]
    have "cu_sending ?c = remove1 i (cu_sending (fst w)) @ [j]" using l(1) Cons by simp
    then show ?thesis using ps l(2) Cons pos i' unfolding eq
      by (auto simp: pool_agrees_def to_send_def length_remove1)
  qed
qed

interpretation pool: event_machine "pool_answer content t" pool_ok "pool_agrees content h t lanes"
  for content h t lanes
  by unfold_locales (simp add: pool_answer_agrees)

section \<open>Properties\<close>

lemma admissible_pool_counts:
  assumes "pool_agrees content h t lanes w" and "admissible (pool_answer content t) pool_ok w is"
  shows "pool_agrees content h t lanes (foldl (pool_answer content t) w is) \<and>
    to_send (foldl (pool_answer content t) w is) + length is = to_send w"
  using assms
proof (induction "is" arbitrary: w)
  case Nil
  then show ?case by simp
next
  case (Cons i "is")
  then have "pool_agrees content h t lanes (pool_answer content t w i)"
    and "Suc (to_send (pool_answer content t w i)) = to_send w"
    using pool_answer_agrees [of content h t lanes w i] by auto
  with Cons show ?case by fastforce
qed

text \<open>A fresh transaction, and the lanes' first requests to it.\<close>

lemma fresh_transaction:
  assumes inv: "storage_inv hx s" and clean: "sg_failures s = []" and name: "js_get (sg_tokens s) token = Some name"
    and big: "sg_chunkSize s * 3 < length content" and new: "js_get (sg_blobs s) h = None" and ne: "name \<noteq> []"
  obtains s1 t where "uploadInit s h (length content) token False =
      (s1, Inr (StartUploadChunked t (sg_chunkSize s) (sg_max s)))"
    and "receiving content h t [] {} s1" and "sg_chunkSize s1 = sg_chunkSize s" and "sg_max s1 = sg_max s"
    and "map_option tx_name (js_get (sg_transactions s1) t) = Some name"
proof -
  let ?t = "tx_id (Suc (sg_nextId s))"
  let ?s = "s\<lparr>sg_calls := sg_calls s @ [(UploadInit, None)]\<rparr>"
  let ?s1 = "?s\<lparr>sg_nextId := Suc (sg_nextId s),
    sg_transactions := js_set ?t (fst (init_tx ?s h (length content) name)) (sg_transactions s)\<rparr>"
  have "uploadInit s h (length content) token False =
      (?s1, Inr (StartUploadChunked ?t (sg_chunkSize s) (sg_max s)))"
    using assms by (simp add: uploadInit_def enter_call_def init_tx_def Let_def js_has_def)
  moreover have "waiting_on ?t (sg_pending s) = []" and "sg_peak s \<le> sg_max s"
    using inv by (simp_all add: storage_inv_defs)
  then have "receiving content h ?t [] {} ?s1"
    using clean big new by (simp add: receiving_def received_so_def init_tx_def Let_def js_has_def)
  moreover have "map_option tx_name (js_get (sg_transactions ?s1) ?t) = Some name"
    by (simp add: init_tx_def Let_def)
  ultimately show ?thesis by (intro that [of ?s1 ?t]) simp_all
qed

lemma pool_opens:
  assumes r: "receiving content h t [] {} s" and cs: "0 < sg_chunkSize s" and m: "0 < sg_max s"
    and c: "c = start_chunks (length content) (sg_chunkSize s) (sg_max s)
      (fresh_missing (length content) (sg_chunkSize s))"
    and l: "lanes = lane_count (sg_max s) (length (fresh_missing (length content) (sg_chunkSize s)))"
  shows "pool_agrees content h t lanes (pool_open content t c s) \<and>
    to_send (pool_open content t c s) = chunk_count (length content) (sg_chunkSize s)"
proof -
  let ?missing = "fresh_missing (length content) (sg_chunkSize s)"
  have wf: "chunk_wf lanes c"
    unfolding c l by (rule missing_wf_start [OF cs fresh_missing_ok])
  have lanes: "lanes \<le> sg_max s" using m unfolding l by (simp add: lane_count_def)
  have f: "cu_error c = None" "cu_sending c = take lanes ?missing" "cu_queue c = drop lanes ?missing"
    "left c = ?missing"
    by (simp_all add: c l start_chunks_def report_def left_def Let_def)
  have "pool_match content h t lanes [] {} (c, s)"
    using wf lanes f r by (auto simp: pool_match_def c fresh_missing_def)
  from pool_sends_match [OF this, of "cu_sending c"] show ?thesis
    using f by (auto simp: pool_open_def pool_agrees_def to_send_def fresh_missing_def)
qed

text \<open>When every lane has ended, the double has the file.\<close>

lemma pool_complete:
  assumes a: "pool_agrees content h t lanes w" and over: "to_send w = 0" and h: "hx content = h"
  shows "chunks_outcome (fst w) = Some (Inr ()) \<and>
    (\<exists>s2 r. uploadComplete hx (snd w) t False = (s2, Inr r) \<and> js_get (sg_blobs s2) h = Some content \<and>
      js_get (sg_transactions s2) t = None)"
proof -
  obtain held where p: "pool_match content h t lanes (cu_sending (fst w)) held w"
    using a by (auto simp: pool_agrees_def)
  have none: "cu_sending (fst w) = []" "cu_queue (fst w) = []" using over by (simp_all add: to_send_def)
  then have "left (fst w) = []"
    using p by (simp add: pool_match_def chunk_wf_def lanes_ok_def left_def)
  then have all: "{..<chunk_count (length content) (sg_chunkSize (snd w))} \<subseteq> held"
    using p by (auto simp: pool_match_def)
  have cs: "0 < sg_chunkSize (snd w)"
    using p by (simp add: pool_match_def chunk_wf_def chunk_core_def)
  obtain tx where tx: "js_get (sg_transactions (snd w)) t = Some tx" "tx_hash tx = h"
      "received_so content (sg_chunkSize (snd w)) held tx"
    and clean: "sg_failures (snd w) = []"
    using p by (auto simp: pool_match_def receiving_def)
  have "uploadComplete hx (snd w) t False =
      (store_blob t h content ((snd w)\<lparr>sg_calls := sg_calls (snd w) @ [(UploadComplete, Some t)]\<rparr>),
       Inr (storage_result t (tx_name tx)))"
    using enter_clean [OF clean tx(1), of UploadComplete] received_all [OF cs tx(3) all] tx(2) h
    by (simp add: uploadComplete_def)
  then show ?thesis
    using p none by (simp add: chunks_outcome_def pool_match_def store_blob_def drop_tx_def)
qed

text \<open>
  C13: A file sent in chunks arrives. Its transaction opened at a double that is in order, the lanes opened on
  it, and the answers in any order: no request is ever refused for the limit, none fails, some request is on
  the way until each chunk was answered once, and then the pool resolves and the completed upload is, under
  its hash, the file byte by byte.
\<close>

theorem chunked_upload_arrives:
  assumes "storage_inv hx s" and "sg_failures s = []" and "0 < sg_chunkSize s" and "0 < sg_max s"
    and "js_get (sg_tokens s) token = Some name" and "name \<noteq> []"
    and "js_get (sg_blobs s) (hx content) = None"
    and "uploadInit s (hx content) (length content) token False = (s1, Inr (StartUploadChunked t cs n))"
    and "w0 = pool_open content t (start_chunks (length content) cs n (fresh_missing (length content) cs)) s1"
    and "admissible (pool_answer content t) pool_ok w0 answers"
    and "w = foldl (pool_answer content t) w0 answers"
  shows "cu_error (fst w) = None \<and> sg_peak (snd w) \<le> sg_max (snd w) \<and>
    length answers \<le> chunk_count (length content) cs \<and>
    (length answers < chunk_count (length content) cs \<longrightarrow> cu_sending (fst w) \<noteq> []) \<and>
    (length answers = chunk_count (length content) cs \<longrightarrow> chunks_outcome (fst w) = Some (Inr ()) \<and>
      (\<exists>s2 r. uploadComplete hx (snd w) t False = (s2, Inr r) \<and>
        js_get (sg_blobs s2) (hx content) = Some content \<and> js_get (sg_transactions s2) t = None))"
proof -
  have big: "sg_chunkSize s * 3 < length content"
    using assms(2,5-8) by (auto simp: uploadInit_def enter_call_def init_tx_def Let_def js_has_def split: if_splits)
  obtain s1' t' where i: "uploadInit s (hx content) (length content) token False =
      (s1', Inr (StartUploadChunked t' (sg_chunkSize s) (sg_max s)))"
    and r: "receiving content (hx content) t' [] {} s1'"
    and k: "sg_chunkSize s1' = sg_chunkSize s" "sg_max s1' = sg_max s"
    by (rule fresh_transaction [OF assms(1,2,5) big assms(7,6)])
  then have eq: "s1' = s1" "t' = t" "cs = sg_chunkSize s1" "n = sg_max s1" using assms(8) by simp_all
  let ?lanes = "lane_count n (length (fresh_missing (length content) cs))"
  have "pool_agrees content (hx content) t ?lanes w0 \<and> to_send w0 = chunk_count (length content) cs"
    using pool_opens [OF r _ _ refl refl] assms(3,4,9) k eq by simp
  with admissible_pool_counts [OF _ assms(10)] assms(11)
  have a: "pool_agrees content (hx content) t ?lanes w"
    and left: "to_send w + length answers = chunk_count (length content) cs" by auto
  obtain held where p: "pool_match content (hx content) t ?lanes (cu_sending (fst w)) held w"
    using a by (auto simp: pool_agrees_def)
  have "cu_sending (fst w) = [] \<Longrightarrow> to_send w = 0"
    using p by (simp add: pool_match_def chunk_wf_def lanes_ok_def to_send_def)
  then show ?thesis
    using p left pool_complete [OF a, of hx] by (auto simp: pool_match_def receiving_def)
qed

text \<open>Inputs for the witnesses: a hash one can compute, and a file of four bytes in chunks of one.\<close>

definition sum_hash :: "bytes \<Rightarrow> string" where
  "sum_hash bs = dec_digits (sum_list bs)"

definition small_storage :: storage where
  "small_storage = new_storage (Some 1) (Some 2) None"

definition small_init :: "storage \<times> (js_error + init_response)" where
  "small_init = uploadInit small_storage ''8'' 4 ''token-1'' False"

definition small_pool :: "chunk_run \<times> storage" where
  "small_pool = pool_open [1, 2, 3, 2] ''tx-1'' (start_chunks 4 1 2 (fresh_missing 4 1)) (fst small_init)"

theorem chunked_upload_arrives_witness:
  "\<exists>s2 r. uploadComplete sum_hash (snd (foldl (pool_answer [1, 2, 3, 2] ''tx-1'') small_pool [1, 0, 3, 2]))
      ''tx-1'' False = (s2, Inr r) \<and>
    js_get (sg_blobs s2) ''8'' = Some [1, 2, 3, 2]"
proof -
  have l: "length [1, 2, 3, 2 :: nat] = 4" by simp
  have clean: "sg_failures small_storage = []" "0 < sg_chunkSize small_storage" "0 < sg_max small_storage"
    "js_get (sg_tokens small_storage) ''token-1'' = Some ''file.bin''" "''file.bin'' \<noteq> []"
    "js_get (sg_blobs small_storage) (sum_hash [1, 2, 3, 2]) = None" by code_simp+
  have i: "uploadInit small_storage (sum_hash [1, 2, 3, 2]) (length [1, 2, 3, 2 :: nat]) ''token-1'' False =
      (fst small_init, Inr (StartUploadChunked ''tx-1'' 1 2))" by code_simp
  have adm: "admissible (pool_answer [1, 2, 3, 2] ''tx-1'') pool_ok small_pool [1, 0, 3, 2]" by code_simp
  have p: "small_pool = pool_open [1, 2, 3, 2] ''tx-1'' (start_chunks (length [1, 2, 3, 2 :: nat]) 1 2
      (fresh_missing (length [1, 2, 3, 2 :: nat]) 1)) (fst small_init)"
    unfolding l by (rule small_pool_def)
  have n: "chunk_count (length [1, 2, 3, 2 :: nat]) 1 = length [1, 0, 3, 2 :: nat]" by code_simp
  have h: "sum_hash [1, 2, 3, 2] = ''8''" by code_simp
  have inv: "storage_inv sum_hash small_storage" unfolding small_storage_def by (rule storage_inv_new)
  show ?thesis
    using chunked_upload_arrives [OF inv clean i p adm refl] unfolding n h by blast
qed

text \<open>A chunk waits, a second one is refused, the first is aborted.\<close>

definition small_events :: "storage_event list" where
  "small_events = [SInit ''8'' 4 ''token-1'' False, SChunk ''tx-1'' (Some (0, 1, 4)) [1] False,
    SChunk ''tx-1'' (Some (1, 2, 4)) [2] False, SChunk ''tx-1'' (Some (2, 3, 4)) [3] False,
    SChunkEnd \<lparr>cq_tx = ''tx-1'', cq_start = 0, cq_body = [1], cq_room = 4\<rparr> True]"

theorem storage_keeps_its_word_witness:
  "admissible (storage_step sum_hash) storage_event_ok small_storage small_events \<and>
    sg_peak (foldl (storage_step sum_hash) small_storage small_events) \<le>
      sg_max (foldl (storage_step sum_hash) small_storage small_events)"
proof -
  have adm: "admissible (storage_step sum_hash) storage_event_ok small_storage small_events" by code_simp
  then show ?thesis
    using storage_keeps_its_word [OF adm [unfolded small_storage_def] refl] by (simp add: small_storage_def)
qed

text \<open>The same file again is not sent: the double asks for its first bytes, and the file's own pass.\<close>

theorem stored_file_is_not_sent_again:
  assumes "sg_failures s = []" and "js_get (sg_tokens s) token = Some name" and "name \<noteq> []"
    and "js_get (sg_blobs s) h = Some content"
  shows "\<exists>s1 s2 t rs. uploadInit s h (length content) token False = (s1, Inr (VerifyRanges t rs)) \<and>
    uploadVerify s1 t (map (\<lambda>r. file_slice (br_start r) (br_end r) content) rs) False =
      (s2, Inr (storage_result t name))"
  using assms
  by (auto simp: uploadInit_def uploadVerify_def enter_def enter_call_def init_tx_def Let_def js_has_def
      ranges_match_def range_matches_def file_slice_def list_all_iff)

end
