(* ===== verification/Inbox_Cache.thy ===== *)
theory Inbox_Cache
  imports Prelude "HOL-Library.List_Lexorder" "HOL-Library.Char_ord"
begin

text \<open>
  The Inbox cache of the app (\<open>apps/frontend/src/shared/inbox/cache.ts\<close> with \<open>sortDate.ts\<close>,
  \<open>remoteFlash.ts\<close> and the keys of \<open>shared/constants/queryKeys.ts\<close>): optimistic patches of the
  cached lists, pinned groups and unread counts with their rollbacks, and what the socket's
  \<open>inbox.updated\<close> does to them. The query cache is the state: its entries in the order of the
  cache, the data of an entry possibly not loaded. \<open>Date.parse\<close> is a parameter (instants in
  milliseconds), since only the order of the server's timestamps matters here. A notification's
  \<open>null\<close> and \<open>undefined\<close> fields are both \<open>None\<close>; what the cache does not look at is its payload.
\<close>

section \<open>Data\<close>

record notification =
  nt_id :: string
  nt_workspaceId :: "string option"
  nt_readAt :: "string option"
  nt_archivedAt :: "string option"
  nt_updatedAt :: string
  nt_payload :: string

datatype inbox_view = ViewAll | ViewUnread | ViewArchived

record notification_page =
  pg_data :: "notification list"
  pg_nextCursor :: "string option"

record inbox_data =
  in_pages :: "notification_page list"
  in_pageParams :: "string option list"

record inbox_summary =
  sm_accountUnread :: int
  sm_byWorkspace :: "(string, int) js_map"

text \<open>The keys \<open>['inbox', 'list', workspace, view]\<close> and \<open>['inbox', 'pinned', view]\<close>.\<close>

type_synonym list_key = "string \<times> inbox_view"

record inbox =
  ib_lists :: "(list_key, inbox_data option) js_map"
  ib_pinned :: "(inbox_view, notification list option) js_map"
  ib_summary :: "inbox_summary option"
  ib_inFlight :: "(string, nat) js_map"
  ib_summaryBehind :: bool
  ib_summaryFetches :: nat
  ib_flash :: "(string, nat) js_map"
  ib_nextFlash :: nat

definition VIEWS :: "inbox_view list" where
  "VIEWS = [ViewAll, ViewUnread, ViewArchived]"

text \<open>What the summary counts: neither read nor archived.\<close>

definition isUnread :: "notification \<Rightarrow> bool" where
  "isUnread n \<longleftrightarrow> \<not> truthy (nt_readAt n) \<and> \<not> truthy (nt_archivedAt n)"

definition rows :: "inbox_data \<Rightarrow> notification list" where
  "rows d = concat (map pg_data (in_pages d))"

definition list_rows :: "inbox_data option \<Rightarrow> notification list" where
  "list_rows d = (case d of None \<Rightarrow> [] | Some x \<Rightarrow> rows x)"

definition pinned_rows :: "notification list option \<Rightarrow> notification list" where
  "pinned_rows d = (case d of None \<Rightarrow> [] | Some ns \<Rightarrow> ns)"

definition cached :: "inbox \<Rightarrow> notification list" where
  "cached s = concat (map (list_rows \<circ> snd) (ib_lists s)) @ concat (map (pinned_rows \<circ> snd) (ib_pinned s))"

definition cachedNotification :: "inbox \<Rightarrow> string \<Rightarrow> notification option" where
  "cachedNotification s i = find (\<lambda>n. nt_id n = i) (cached s)"

section \<open>Snapshots and the summary\<close>

text \<open>\<open>setQueryData\<close>: writing \<open>undefined\<close> changes nothing.\<close>

definition set_data :: "'k \<Rightarrow> 'd option \<Rightarrow> ('k, 'd option) js_map \<Rightarrow> ('k, 'd option) js_map" where
  "set_data k d m = (case d of None \<Rightarrow> m | Some x \<Rightarrow> js_set k (Some x) m)"

record rollback =
  rb_lists :: "(list_key, inbox_data option) js_map"
  rb_pinned :: "(inbox_view, notification list option) js_map"
  rb_summary :: "inbox_summary option"

definition previous_or :: "'a option \<Rightarrow> 'a option \<Rightarrow> 'a option" where
  "previous_or previous now = (case previous of None \<Rightarrow> now | Some x \<Rightarrow> Some x)"

definition restore :: "rollback \<Rightarrow> inbox \<Rightarrow> inbox" where
  "restore rb s = s\<lparr>
    ib_lists := fold (\<lambda>(k, d). set_data k d) (rb_lists rb) (ib_lists s),
    ib_pinned := fold (\<lambda>(k, d). set_data k d) (rb_pinned rb) (ib_pinned s),
    ib_summary := previous_or (rb_summary rb) (ib_summary s)\<rparr>"

definition unread_delta :: "notification \<Rightarrow> notification \<Rightarrow> int" where
  "unread_delta before after = of_bool (isUnread after) - of_bool (isUnread before)"

definition summary_change :: "inbox_summary \<Rightarrow> notification \<times> notification \<Rightarrow> inbox_summary" where
  "summary_change sm = (\<lambda>(before, after).
    let delta = unread_delta before after in
    if delta = 0 then sm
    else if truthy (nt_workspaceId after) then
      (let w = the (nt_workspaceId after);
           n = (case js_get (sm_byWorkspace sm) w of None \<Rightarrow> 0 | Some c \<Rightarrow> c)
       in sm\<lparr>sm_byWorkspace := js_set w (max 0 (n + delta)) (sm_byWorkspace sm)\<rparr>)
    else sm\<lparr>sm_accountUnread := max 0 (sm_accountUnread sm + delta)\<rparr>)"

text \<open>The counts after a change; \<open>None\<close> when there is no summary, or nothing to count.\<close>

definition summary_after ::
  "inbox_summary option \<Rightarrow> (notification \<times> notification) list \<Rightarrow> inbox_summary option" where
  "summary_after sm changes =
    (case sm of
      None \<Rightarrow> None
    | Some previous \<Rightarrow>
        if \<forall>(b, a)\<in>set changes. unread_delta b a = 0 then None
        else Some (foldl summary_change previous changes))"

definition patchSummary :: "inbox \<Rightarrow> (notification \<times> notification) list \<Rightarrow> inbox \<times> inbox_summary option" where
  "patchSummary s changes =
    (case summary_after (ib_summary s) changes of
      None \<Rightarrow> (s, None)
    | Some next \<Rightarrow> (s\<lparr>ib_summary := Some next\<rparr>, ib_summary s))"

text \<open>The summary (and the pinned groups) asked from the server again.\<close>

definition refreshSummary :: "inbox \<Rightarrow> inbox" where
  "refreshSummary s = s\<lparr>ib_summaryFetches := Suc (ib_summaryFetches s)\<rparr>"

section \<open>Changes on their way\<close>

definition hold_one :: "string \<Rightarrow> (string, nat) js_map \<Rightarrow> (string, nat) js_map" where
  "hold_one i m = js_set i (Suc (case js_get m i of None \<Rightarrow> 0 | Some n \<Rightarrow> n)) m"

definition release_one :: "string \<Rightarrow> (string, nat) js_map \<Rightarrow> (string, nat) js_map" where
  "release_one i m =
    (let held = (case js_get m i of None \<Rightarrow> 1 | Some n \<Rightarrow> n) - 1 in
     if 0 < held then js_set i held m else js_del i m)"

definition hold :: "string list \<Rightarrow> inbox \<Rightarrow> inbox" where
  "hold ids s = s\<lparr>ib_inFlight := fold hold_one ids (ib_inFlight s)\<rparr>"

definition release :: "string list \<Rightarrow> inbox \<Rightarrow> inbox" where
  "release ids s =
    (let s' = s\<lparr>ib_inFlight := fold release_one ids (ib_inFlight s)\<rparr> in
     if ib_inFlight s' = [] \<and> ib_summaryBehind s' then refreshSummary (s'\<lparr>ib_summaryBehind := False\<rparr>)
     else s')"

definition held :: "inbox \<Rightarrow> string \<Rightarrow> bool" where
  "held s i \<longleftrightarrow> js_has (ib_inFlight s) i"

section \<open>Placing\<close>

fun belongsTo :: "inbox_view \<Rightarrow> notification \<Rightarrow> bool" where
  "belongsTo v n =
    (if nt_workspaceId n = None \<and> isUnread n then False
     else (case v of
         ViewUnread \<Rightarrow> \<not> truthy (nt_readAt n) \<and> \<not> truthy (nt_archivedAt n)
       | ViewAll \<Rightarrow> \<not> truthy (nt_archivedAt n)
       | ViewArchived \<Rightarrow> truthy (nt_archivedAt n)))"

text \<open>\<open>sortDateOf\<close> of \<open>sortDate.ts\<close>, as an instant.\<close>

definition sortDateOf :: "(string \<Rightarrow> int) \<Rightarrow> inbox_view \<Rightarrow> notification \<Rightarrow> int" where
  "sortDateOf ms v n =
    ms (if v = ViewArchived then (case nt_archivedAt n of None \<Rightarrow> nt_updatedAt n | Some t \<Rightarrow> t)
        else nt_updatedAt n)"

definition comesBefore :: "(string \<Rightarrow> int) \<Rightarrow> inbox_view \<Rightarrow> notification \<Rightarrow> notification \<Rightarrow> bool" where
  "comesBefore ms v a b \<longleftrightarrow>
    (if sortDateOf ms v a \<noteq> sortDateOf ms v b then sortDateOf ms v b < sortDateOf ms v a
     else nt_id b < nt_id a)"

text \<open>The loop over the pages: the first row the notification comes before, on the first page with one.\<close>

fun insert_in_pages ::
  "(notification \<Rightarrow> bool) \<Rightarrow> notification \<Rightarrow> notification_page list \<Rightarrow> notification_page list option" where
  "insert_in_pages p n [] = None"
| "insert_in_pages p n (pg # pgs) =
    (case find_index p (pg_data pg) of
      Some i \<Rightarrow> Some (pg\<lparr>pg_data := insert_at i n (pg_data pg)\<rparr> # pgs)
    | None \<Rightarrow> map_option ((#) pg) (insert_in_pages p n pgs))"

definition push_last :: "notification \<Rightarrow> notification_page list \<Rightarrow> notification_page list" where
  "push_last n pgs =
    (if pgs = [] \<or> truthy (pg_nextCursor (last pgs)) then pgs
     else butlast pgs @ [(last pgs)\<lparr>pg_data := pg_data (last pgs) @ [n]\<rparr>])"

definition without :: "string \<Rightarrow> notification_page list \<Rightarrow> notification_page list" where
  "without i = map (\<lambda>pg. pg\<lparr>pg_data := filter (\<lambda>n. nt_id n \<noteq> i) (pg_data pg)\<rparr>)"

definition place :: "(string \<Rightarrow> int) \<Rightarrow> inbox_view \<Rightarrow> inbox_data \<Rightarrow> notification \<Rightarrow> inbox_data" where
  "place ms v d n =
    (let pgs = without (nt_id n) (in_pages d) in
     if \<not> belongsTo v n then d\<lparr>in_pages := pgs\<rparr>
     else (case insert_in_pages (comesBefore ms v n) n pgs of
         Some pgs' \<Rightarrow> d\<lparr>in_pages := pgs'\<rparr>
       | None \<Rightarrow> d\<lparr>in_pages := push_last n pgs\<rparr>))"

text \<open>\<open>setQueriesData\<close>: every entry that is loaded, by a function of its key.\<close>

definition map_data :: "('k \<Rightarrow> 'd \<Rightarrow> 'd) \<Rightarrow> ('k, 'd option) js_map \<Rightarrow> ('k, 'd option) js_map" where
  "map_data f = map (\<lambda>(k, d). (k, map_option (f k) d))"

definition placeInLists :: "(string \<Rightarrow> int) \<Rightarrow> notification \<Rightarrow> inbox_view list \<Rightarrow> inbox \<Rightarrow> inbox" where
  "placeInLists ms n views s = s\<lparr>ib_lists := map_data
    (\<lambda>(workspace, v) d.
      if (Some workspace = nt_workspaceId n \<or> nt_workspaceId n = None) \<and> v \<in> set views
      then place ms v d n else d) (ib_lists s)\<rparr>"

section \<open>Optimistic patches\<close>

definition patch_rows :: "(notification \<Rightarrow> notification) \<Rightarrow> inbox_data \<Rightarrow> inbox_data" where
  "patch_rows f d = d\<lparr>in_pages := map (\<lambda>pg. pg\<lparr>pg_data := map f (pg_data pg)\<rparr>) (in_pages d)\<rparr>"

definition with_read :: "string option \<Rightarrow> notification \<Rightarrow> notification" where
  "with_read readAt n = n\<lparr>nt_readAt := readAt\<rparr>"

text \<open>
  One pinned group: in the All tab what is read leaves it for the lists, in the others it is
  patched where it is.
\<close>

definition patch_pinned :: "string list \<Rightarrow> string option \<Rightarrow> inbox_view \<Rightarrow> notification list \<Rightarrow>
    notification list \<times> notification list" where
  "patch_pinned ids readAt v ns =
    (let leaves = (\<lambda>n. nt_id n \<in> set ids \<and> v = ViewAll \<and> \<not> isUnread (with_read readAt n)) in
     (map (\<lambda>n. if nt_id n \<in> set ids then with_read readAt n else n) (filter (\<lambda>n. \<not> leaves n) ns),
      map (with_read readAt) (filter leaves ns)))"

definition patch_pinned_group :: "(string \<Rightarrow> int) \<Rightarrow> string list \<Rightarrow> string option \<Rightarrow>
    inbox_view \<times> notification list option \<Rightarrow> inbox \<Rightarrow> inbox" where
  "patch_pinned_group ms ids readAt = (\<lambda>(k, d) s.
    case d of
      None \<Rightarrow> s
    | Some ns \<Rightarrow>
        (let (stay, moving) = patch_pinned ids readAt k ns in
         fold (\<lambda>n. placeInLists ms n [ViewAll]) moving
           (s\<lparr>ib_pinned := js_set k (Some stay) (ib_pinned s)\<rparr>)))"

definition read_changes :: "inbox \<Rightarrow> string list \<Rightarrow> string option \<Rightarrow> (notification \<times> notification) list" where
  "read_changes s ids readAt =
    concat (map (\<lambda>i. case cachedNotification s i of None \<Rightarrow> [] | Some b \<Rightarrow> [(b, with_read readAt b)]) ids)"

definition snapshotInbox :: "inbox \<Rightarrow> inbox_summary option \<Rightarrow> rollback" where
  "snapshotInbox s sm = \<lparr>rb_lists = ib_lists s, rb_pinned = ib_pinned s, rb_summary = sm\<rparr>"

definition patchReadNotification ::
  "(string \<Rightarrow> int) \<Rightarrow> string list \<Rightarrow> string option \<Rightarrow> inbox \<Rightarrow> inbox \<times> rollback" where
  "patchReadNotification ms ids readAt s =
    (let (s1, sm) = patchSummary s (read_changes s ids readAt);
         s2 = s1\<lparr>ib_lists := map_data (\<lambda>_. patch_rows
           (\<lambda>n. if nt_id n \<in> set ids then with_read readAt n else n)) (ib_lists s1)\<rparr>
     in (fold (patch_pinned_group ms ids readAt) (ib_pinned s2) s2, snapshotInbox s sm))"

definition read_by :: "(string \<Rightarrow> int) \<Rightarrow> string \<Rightarrow> string \<Rightarrow> notification \<Rightarrow> bool" where
  "read_by ms workspace before n \<longleftrightarrow>
    (nt_workspaceId n = Some workspace \<or> nt_workspaceId n = None) \<and>
    nt_readAt n = None \<and> nt_archivedAt n = None \<and> ms (nt_updatedAt n) \<le> ms before"

definition read_all_ids :: "(string \<Rightarrow> int) \<Rightarrow> string \<Rightarrow> string \<Rightarrow> inbox \<Rightarrow> string list" where
  "read_all_ids ms workspace before s =
    remdups (map nt_id (filter (read_by ms workspace before)
      (concat (map (\<lambda>((w, v), d). if w = workspace then list_rows d else []) (ib_lists s)) @
       concat (map (\<lambda>(v, d). pinned_rows d) (ib_pinned s)))))"

definition patchReadAll ::
  "(string \<Rightarrow> int) \<Rightarrow> string \<Rightarrow> string \<Rightarrow> string \<Rightarrow> inbox \<Rightarrow> string list \<times> inbox \<times> rollback" where
  "patchReadAll ms workspace before readAt s =
    (let ids = read_all_ids ms workspace before s in (ids, patchReadNotification ms ids (Some readAt) s))"

definition archived_as :: "string option \<Rightarrow> notification \<Rightarrow> notification" where
  "archived_as archivedAt n = n\<lparr>nt_archivedAt := archivedAt,
    nt_readAt := (if truthy archivedAt
      then (case nt_readAt n of None \<Rightarrow> archivedAt | Some t \<Rightarrow> Some t) else nt_readAt n)\<rparr>"

definition patchArchiveNotification ::
  "(string \<Rightarrow> int) \<Rightarrow> notification \<Rightarrow> string option \<Rightarrow> inbox \<Rightarrow> inbox \<times> rollback" where
  "patchArchiveNotification ms n archivedAt s =
    (let current = (case cachedNotification s (nt_id n) of None \<Rightarrow> n | Some c \<Rightarrow> c);
         next = archived_as archivedAt current;
         (s1, sm) = patchSummary s [(current, next)];
         s2 = placeInLists ms next VIEWS s1
     in (s2\<lparr>ib_pinned := map_data (\<lambda>_. filter (\<lambda>m. nt_id m \<noteq> nt_id next)) (ib_pinned s2)\<rparr>,
         snapshotInbox s sm))"

section \<open>The socket's updates\<close>

text \<open>\<open>sort\<close> with the comparator of the pinned groups: newest first, then by id.\<close>

definition pinned_before :: "(string \<Rightarrow> int) \<Rightarrow> notification \<Rightarrow> notification \<Rightarrow> bool" where
  "pinned_before ms a b \<longleftrightarrow>
    (if ms (nt_updatedAt a) \<noteq> ms (nt_updatedAt b) then ms (nt_updatedAt b) < ms (nt_updatedAt a)
     else \<not> nt_id a < nt_id b)"

fun insert_by :: "('a \<Rightarrow> 'a \<Rightarrow> bool) \<Rightarrow> 'a \<Rightarrow> 'a list \<Rightarrow> 'a list" where
  "insert_by le x [] = [x]"
| "insert_by le x (y # ys) = (if le x y then x # y # ys else y # insert_by le x ys)"

definition sort_by :: "('a \<Rightarrow> 'a \<Rightarrow> bool) \<Rightarrow> 'a list \<Rightarrow> 'a list" where
  "sort_by le xs = foldr (insert_by le) xs []"

definition placeInPinned :: "(string \<Rightarrow> int) \<Rightarrow> notification \<Rightarrow> inbox \<Rightarrow> inbox" where
  "placeInPinned ms n s = s\<lparr>ib_pinned := map_data
    (\<lambda>_ ns. let rest = filter (\<lambda>m. nt_id m \<noteq> nt_id n) ns in
      if nt_workspaceId n = None \<and> isUnread n then sort_by (pinned_before ms) (n # rest) else rest)
    (ib_pinned s)\<rparr>"

definition replaceInPlace :: "notification list \<Rightarrow> inbox \<Rightarrow> inbox" where
  "replaceInPlace changed s =
    (let byId = map_of (map (\<lambda>n. (nt_id n, n)) (rev changed));
         swap = (\<lambda>n. case byId (nt_id n) of None \<Rightarrow> n | Some m \<Rightarrow> m)
     in s\<lparr>ib_lists := map_data (\<lambda>_. patch_rows swap) (ib_lists s),
          ib_pinned := map_data (\<lambda>_. map swap) (ib_pinned s)\<rparr>)"

record read_all_update =
  ra_workspace :: string
  ra_before :: string
  ra_readAt :: string

definition readAllInPlace :: "(string \<Rightarrow> int) \<Rightarrow> read_all_update \<Rightarrow> inbox \<Rightarrow> inbox" where
  "readAllInPlace ms u s =
    (let read = (\<lambda>n. if read_by ms (ra_workspace u) (ra_before u) n \<and> \<not> held s (nt_id n)
           then with_read (Some (ra_readAt u)) n else n)
     in s\<lparr>ib_lists := map_data (\<lambda>_. patch_rows read) (ib_lists s),
          ib_pinned := map_data (\<lambda>_. map read) (ib_pinned s)\<rparr>)"

definition flash :: "string list \<Rightarrow> inbox \<Rightarrow> inbox" where
  "flash ids s = fold (\<lambda>i s. s\<lparr>ib_nextFlash := Suc (ib_nextFlash s),
    ib_flash := js_set i (Suc (ib_nextFlash s)) (ib_flash s)\<rparr>) ids s"

record inbox_updated =
  iu_upserted :: "notification list"
  iu_readAll :: "read_all_update option"
  iu_summary :: inbox_summary

text \<open>One notification of the update: skipped, changed in place, or placed; what arrived, what stays in place.\<close>

definition receive_one :: "(string \<Rightarrow> int) \<Rightarrow> notification \<Rightarrow>
    inbox \<times> string list \<times> notification list \<Rightarrow> inbox \<times> string list \<times> notification list" where
  "receive_one ms n = (\<lambda>(s, arrived, inPlace).
    if held s (nt_id n) then (s\<lparr>ib_summaryBehind := True\<rparr>, arrived, inPlace)
    else (let known = cachedNotification s (nt_id n) in
      if known \<noteq> None \<and> nt_archivedAt (the known) = nt_archivedAt n
      then (s, arrived, inPlace @ [n])
      else (placeInLists ms n VIEWS (placeInPinned ms n s),
        (if known = None then arrived @ [nt_id n] else arrived), inPlace)))"

definition receiveInboxUpdate :: "(string \<Rightarrow> int) \<Rightarrow> inbox_updated \<Rightarrow> inbox \<Rightarrow> inbox" where
  "receiveInboxUpdate ms u s =
    (let (s1, arrived, inPlace) = fold (receive_one ms) (iu_upserted u) (s, [], []);
         s2 = replaceInPlace inPlace s1;
         s3 = (case iu_readAll u of None \<Rightarrow> s2 | Some r \<Rightarrow> readAllInPlace ms r s2);
         s4 = (if ib_inFlight s3 \<noteq> [] then s3\<lparr>ib_summaryBehind := True\<rparr>
               else s3\<lparr>ib_summary := Some (iu_summary u)\<rparr>)
     in if arrived = [] then s4 else flash arrived s4)"

section \<open>The actions of the Inbox page\<close>

text \<open>
  The mutations of \<open>pages/Inbox/hooks/useNotificationQueries.ts\<close>: what \<open>onMutate\<close> does and
  returns as its context, and what the server's answer does (\<open>onError\<close> or \<open>onSuccess\<close>, then
  \<open>onSettled\<close>).
\<close>

record action_context =
  ac_ids :: "string list"
  ac_uncounted :: bool
  ac_rollback :: rollback

definition mutate_read ::
  "(string \<Rightarrow> int) \<Rightarrow> string list \<Rightarrow> string option \<Rightarrow> inbox \<Rightarrow> inbox \<times> action_context" where
  "mutate_read ms ids readAt s =
    (let s1 = hold ids s; (s2, rb) = patchReadNotification ms ids readAt s1 in
     (s2, \<lparr>ac_ids = ids, ac_uncounted = (\<not> (\<forall>i\<in>set ids. cachedNotification s1 i \<noteq> None)), ac_rollback = rb\<rparr>))"

definition settled_read :: "action_context \<Rightarrow> inbox \<Rightarrow> inbox" where
  "settled_read c s = (let s' = release (ac_ids c) s in if ac_uncounted c then refreshSummary s' else s')"

definition failed_read :: "action_context \<Rightarrow> inbox \<Rightarrow> inbox" where
  "failed_read c s = settled_read c (restore (ac_rollback c) s)"

definition mutate_read_all ::
  "(string \<Rightarrow> int) \<Rightarrow> string \<Rightarrow> string \<Rightarrow> string \<Rightarrow> inbox \<Rightarrow> inbox \<times> action_context" where
  "mutate_read_all ms workspace before readAt s =
    (let (ids, s1, rb) = patchReadAll ms workspace before readAt s in
     (hold ids s1, \<lparr>ac_ids = ids, ac_uncounted = False, ac_rollback = rb\<rparr>))"

definition settled_read_all :: "action_context \<Rightarrow> inbox \<Rightarrow> inbox" where
  "settled_read_all c s = refreshSummary (release (ac_ids c) s)"

definition succeeded_read_all :: "(string \<Rightarrow> int) \<Rightarrow> string list \<Rightarrow> action_context \<Rightarrow> inbox \<Rightarrow> inbox" where
  "succeeded_read_all ms affected c s =
    (let notRead = filter (\<lambda>i. i \<notin> set affected) (ac_ids c) in
     settled_read_all c (if notRead = [] then s else fst (patchReadNotification ms notRead None s)))"

definition failed_read_all :: "action_context \<Rightarrow> inbox \<Rightarrow> inbox" where
  "failed_read_all c s = settled_read_all c (restore (ac_rollback c) s)"

definition mutate_archive ::
  "(string \<Rightarrow> int) \<Rightarrow> notification \<Rightarrow> string option \<Rightarrow> inbox \<Rightarrow> inbox \<times> action_context" where
  "mutate_archive ms n archivedAt s =
    (let (s', rb) = patchArchiveNotification ms n archivedAt (hold [nt_id n] s) in
     (s', \<lparr>ac_ids = [nt_id n], ac_uncounted = False, ac_rollback = rb\<rparr>))"

definition settled_archive :: "action_context \<Rightarrow> inbox \<Rightarrow> inbox" where
  "settled_archive c s = release (ac_ids c) s"

definition failed_archive :: "action_context \<Rightarrow> inbox \<Rightarrow> inbox" where
  "failed_archive c s = settled_archive c (restore (ac_rollback c) s)"

section \<open>Rollbacks\<close>

text \<open>A patch keeps the entries of the cache, and leaves alone those that are not loaded.\<close>

definition same_entries :: "('k, 'd option) js_map \<Rightarrow> ('k, 'd option) js_map \<Rightarrow> bool" where
  "same_entries m m' \<longleftrightarrow>
    map fst m' = map fst m \<and> (\<forall>k. js_get m k = Some None \<longrightarrow> js_get m' k = Some None)"

lemma assoc_eqI:
  "map fst xs = map fst ys \<Longrightarrow> distinct (map fst xs) \<Longrightarrow> (\<And>k. js_get xs k = js_get ys k) \<Longrightarrow> xs = ys"
proof (induction xs arbitrary: ys)
  case Nil
  then show ?case by simp
next
  case (Cons x xs)
  obtain y ys' where ys: "ys = y # ys'" using Cons.prems(1) by (cases ys) auto
  obtain k v where x: "x = (k, v)" by fastforce
  obtain v' where y: "y = (k, v')" using Cons.prems(1) ys x by (cases y) auto
  have "v = v'" using Cons.prems(3) [of k] ys x y by (simp add: js_get_def)
  moreover have "xs = ys'"
  proof (rule Cons.IH)
    show "map fst xs = map fst ys'" and "distinct (map fst xs)" using Cons.prems ys by auto
    fix k'
    show "js_get xs k' = js_get ys' k'"
    proof (cases "k' = k")
      case True
      have "k \<notin> set (map fst xs)" and "k \<notin> set (map fst ys')" using Cons.prems ys x y by auto
      then have "map_of xs k = None" and "map_of ys' k = None" by (simp_all add: map_of_eq_None_iff)
      then show ?thesis using True by (simp add: js_get_def)
    next
      case False
      then show ?thesis using Cons.prems(3) [of k'] ys x y by (simp add: js_get_def)
    qed
  qed
  ultimately show ?case using ys x y by simp
qed

lemma set_data_keys: "k \<in> set (js_keys m) \<Longrightarrow> js_keys (set_data k d m) = js_keys m"
  by (cases d) (simp_all add: set_data_def js.keys_put)

lemma fold_set_data_keys:
  "set (map fst kds) \<subseteq> set (js_keys m) \<Longrightarrow> js_keys (fold (\<lambda>(k, d). set_data k d) kds m) = js_keys m"
proof (induction kds arbitrary: m)
  case (Cons kd kds)
  then show ?case by (cases kd) (simp add: set_data_keys)
qed simp

lemma fold_set_data_get:
  "distinct (map fst kds) \<Longrightarrow> js_get (fold (\<lambda>(k, d). set_data k d) kds m) k =
    (case map_of kds k of Some (Some d) \<Rightarrow> Some (Some d) | _ \<Rightarrow> js_get m k)"
proof (induction kds arbitrary: m)
  case (Cons kd kds)
  obtain k' d where kd: "kd = (k', d)" by fastforce
  have "k' \<notin> set (map fst kds)" using Cons.prems kd by simp
  then have "map_of kds k' = None" by (simp add: map_of_eq_None_iff)
  then show ?case
    using Cons kd by (cases "k = k'") (auto simp: set_data_def split: option.splits)
qed simp

lemma restore_data:
  assumes "same_entries m m'" and "distinct (js_keys m)"
  shows "fold (\<lambda>(k, d). set_data k d) m m' = m"
proof (rule assoc_eqI)
  have keys: "js_keys m' = js_keys m" using assms(1) by (simp add: same_entries_def js_keys_def)
  have "set (map fst m) \<subseteq> set (js_keys m')" unfolding keys by (simp add: js_keys_def)
  then have "js_keys (fold (\<lambda>(k, d). set_data k d) m m') = js_keys m"
    using fold_set_data_keys keys by metis
  then show "map fst (fold (\<lambda>(k, d). set_data k d) m m') = map fst m"
    and "distinct (map fst (fold (\<lambda>(k, d). set_data k d) m m'))"
    using assms(2) by (simp_all add: js_keys_def)
  fix k
  have g: "js_get (fold (\<lambda>(k, d). set_data k d) m m') k =
      (case map_of m k of Some (Some d) \<Rightarrow> Some (Some d) | _ \<Rightarrow> js_get m' k)"
    using assms(2) by (intro fold_set_data_get) (simp add: js_keys_def)
  have "js_get m k = None \<Longrightarrow> js_get m' k = None"
    using keys js.get_keys [of m k] js.get_keys [of m' k] by auto
  moreover have "js_get m k = Some None \<Longrightarrow> js_get m' k = Some None"
    using assms(1) by (simp add: same_entries_def)
  ultimately show "js_get (fold (\<lambda>(k, d). set_data k d) m m') k = js_get m k"
    unfolding g by (auto simp: js_get_def split: option.splits)
qed

lemma same_entries_refl: "same_entries m m"
  by (simp add: same_entries_def)

lemma same_entries_trans: "same_entries m m' \<Longrightarrow> same_entries m' m'' \<Longrightarrow> same_entries m m''"
proof -
  assume a: "same_entries m m'" and b: "same_entries m' m''"
  have "map fst m'' = map fst m" using a b by (simp add: same_entries_def)
  moreover have "js_get m'' k = Some None" if "js_get m k = Some None" for k
  proof -
    have "js_get m' k = Some None" using a that unfolding same_entries_def by blast
    then show ?thesis using b unfolding same_entries_def by blast
  qed
  ultimately show ?thesis unfolding same_entries_def by blast
qed

lemma map_data_get: "js_get (map_data f m) k = map_option (map_option (f k)) (js_get m k)"
  unfolding map_data_def js_get_def by (induction m) auto

lemma map_data_keys: "map fst (map_data f m) = map fst m"
  by (induction m) (auto simp: map_data_def)

lemma same_entries_map_data: "same_entries m (map_data f m)"
  by (simp add: same_entries_def map_data_keys map_data_get)

lemma same_entries_set:
  "js_get m k = Some (Some d) \<Longrightarrow> same_entries m (js_set k (Some d') m)"
proof -
  assume k: "js_get m k = Some (Some d)"
  then have "k \<in> set (js_keys m)" using js.get_keys [of m k] by simp
  then have "js_keys (js_set k (Some d') m) = js_keys m" by (simp add: js.keys_put)
  then show ?thesis using k by (simp add: same_entries_def js_keys_def)
qed

text \<open>A state whose entries and counters are those of another one, with other data.\<close>

definition patched :: "inbox \<Rightarrow> inbox \<Rightarrow> bool" where
  "patched s s' \<longleftrightarrow>
    same_entries (ib_lists s) (ib_lists s') \<and> same_entries (ib_pinned s) (ib_pinned s')"

lemma patched_refl: "patched s s"
  by (simp add: patched_def same_entries_refl)

lemma patched_trans: "patched s s' \<Longrightarrow> patched s' s'' \<Longrightarrow> patched s s''"
  using same_entries_trans [of "ib_lists s" "ib_lists s'" "ib_lists s''"]
    same_entries_trans [of "ib_pinned s" "ib_pinned s'" "ib_pinned s''"]
  unfolding patched_def by blast

lemma patched_place: "patched s (placeInLists ms n views s)"
  by (simp add: patched_def placeInLists_def same_entries_map_data same_entries_refl)

lemma patched_fold_place: "patched s (fold (\<lambda>n. placeInLists ms n views) ns s)"
proof (induction ns arbitrary: s)
  case (Cons n ns)
  show ?case using patched_trans [OF patched_place Cons.IH] by simp
qed (simp add: patched_refl)

lemma fold_place_pinned [simp]: "ib_pinned (fold (\<lambda>n. placeInLists ms n views) ns s) = ib_pinned s"
  by (induction ns arbitrary: s) (simp_all add: placeInLists_def)

lemma fold_place_summary [simp]: "ib_summary (fold (\<lambda>n. placeInLists ms n views) ns s) = ib_summary s"
  by (induction ns arbitrary: s) (simp_all add: placeInLists_def)

lemma patched_group:
  assumes "js_get (ib_pinned s) k = Some d' \<and> (d = None \<or> d' \<noteq> None)"
  shows "patched s (patch_pinned_group ms ids readAt (k, d) s)"
proof (cases d)
  case None
  then show ?thesis by (simp add: patch_pinned_group_def patched_refl)
next
  case (Some ns)
  obtain stay moving where p: "patch_pinned ids readAt k ns = (stay, moving)" by fastforce
  let ?s = "s\<lparr>ib_pinned := js_set k (Some stay) (ib_pinned s)\<rparr>"
  have "patched s ?s"
    using assms Some same_entries_set [of "ib_pinned s" k _ stay]
    by (auto simp: patched_def same_entries_refl)
  then show ?thesis
    using patched_trans [OF _ patched_fold_place] Some p by (simp add: patch_pinned_group_def)
qed

lemma group_summary [simp]: "ib_summary (patch_pinned_group ms ids readAt kd s) = ib_summary s"
  by (cases kd) (auto simp: patch_pinned_group_def split: option.splits prod.splits)

lemma patched_groups:
  assumes "\<forall>(k, d)\<in>set kds. \<exists>d'. js_get (ib_pinned s) k = Some d' \<and> (d = None \<or> d' \<noteq> None)"
  shows "patched s (fold (patch_pinned_group ms ids readAt) kds s)"
  using assms
proof (induction kds arbitrary: s)
  case Nil
  then show ?case by (simp add: patched_refl)
next
  case (Cons kd kds)
  obtain k d where kd: "kd = (k, d)" by fastforce
  let ?s = "patch_pinned_group ms ids readAt kd s"
  have p: "patched s ?s" using Cons.prems kd by (auto intro: patched_group)
  have "\<forall>(k, d)\<in>set kds. \<exists>d'. js_get (ib_pinned ?s) k = Some d' \<and> (d = None \<or> d' \<noteq> None)"
  proof clarify
    fix k' d'' assume "(k', d'') \<in> set kds"
    then obtain d' where d': "js_get (ib_pinned s) k' = Some d'" "d'' = None \<or> d' \<noteq> None"
      using Cons.prems by fastforce
    show "\<exists>d'. js_get (ib_pinned ?s) k' = Some d' \<and> (d'' = None \<or> d' \<noteq> None)"
      using d' kd by (cases "k' = k") (auto simp: patch_pinned_group_def split: option.splits prod.splits)
  qed
  then show ?case using patched_trans [OF p Cons.IH] kd by simp
qed

definition cache_wf :: "inbox \<Rightarrow> bool" where
  "cache_wf s \<longleftrightarrow> distinct (js_keys (ib_lists s)) \<and> distinct (js_keys (ib_pinned s))"

lemma patchSummary_frame:
  assumes "patchSummary s cs = (s', sm)"
  shows "ib_lists s' = ib_lists s" and "ib_pinned s' = ib_pinned s"
    and "previous_or sm (ib_summary s') = ib_summary s"
  using assms
  by (auto simp: patchSummary_def summary_after_def previous_or_def split: option.splits if_splits)

lemma pinned_entries:
  "cache_wf s \<Longrightarrow> \<forall>(k, d)\<in>set (ib_pinned s). \<exists>d'. js_get (ib_pinned s) k = Some d' \<and> (d = None \<or> d' \<noteq> None)"
  by (auto simp: cache_wf_def dest: js_get_in_set)

lemma patched_read:
  assumes "cache_wf s" and "patchReadNotification ms ids readAt s = (s', rb)"
  shows "patched s s'" and "rb_lists rb = ib_lists s" and "rb_pinned rb = ib_pinned s"
    and "previous_or (rb_summary rb) (ib_summary s') = ib_summary s"
proof -
  obtain s1 sm where p: "patchSummary s (read_changes s ids readAt) = (s1, sm)" by fastforce
  note f = patchSummary_frame [OF p]
  let ?s2 = "s1\<lparr>ib_lists := map_data (\<lambda>_. patch_rows
      (\<lambda>n. if nt_id n \<in> set ids then with_read readAt n else n)) (ib_lists s1)\<rparr>"
  have s': "s' = fold (patch_pinned_group ms ids readAt) (ib_pinned ?s2) ?s2"
    and rb: "rb = snapshotInbox s sm"
    using assms(2) p by (auto simp: patchReadNotification_def Let_def)
  have "patched s ?s2" using f(1,2) by (simp add: patched_def same_entries_map_data same_entries_refl)
  moreover have "patched ?s2 s'"
    unfolding s' using pinned_entries [OF assms(1)] f(2) by (intro patched_groups) simp
  ultimately show "patched s s'" by (rule patched_trans)
  show "rb_lists rb = ib_lists s" and "rb_pinned rb = ib_pinned s" using rb by (simp_all add: snapshotInbox_def)
  have "ib_summary (fold (patch_pinned_group ms ids readAt) kds x) = ib_summary x" for kds x
    by (induction kds arbitrary: x) simp_all
  then show "previous_or (rb_summary rb) (ib_summary s') = ib_summary s"
    using f(3) rb s' by (simp add: snapshotInbox_def)
qed

lemma patched_archive:
  assumes "patchArchiveNotification ms n archivedAt s = (s', rb)"
  shows "patched s s'" and "rb_lists rb = ib_lists s" and "rb_pinned rb = ib_pinned s"
    and "previous_or (rb_summary rb) (ib_summary s') = ib_summary s"
proof -
  let ?c = "case cachedNotification s (nt_id n) of None \<Rightarrow> n | Some c \<Rightarrow> c"
  obtain s1 sm where p: "patchSummary s [(?c, archived_as archivedAt ?c)] = (s1, sm)" by fastforce
  note f = patchSummary_frame [OF p]
  note defs = patchArchiveNotification_def Let_def snapshotInbox_def patched_def placeInLists_def
    same_entries_map_data
  show "patched s s'" using assms p f(1,2) by (auto simp: defs)
  show "rb_lists rb = ib_lists s" and "rb_pinned rb = ib_pinned s" using assms p by (auto simp: defs)
  show "previous_or (rb_summary rb) (ib_summary s') = ib_summary s" using assms p f(3) by (auto simp: defs)
qed

lemma restore_patched:
  assumes "cache_wf s" and "patched s s'" and "rb_lists rb = ib_lists s" and "rb_pinned rb = ib_pinned s"
    and "previous_or (rb_summary rb) (ib_summary s') = ib_summary s"
  shows "ib_lists (restore rb s') = ib_lists s \<and> ib_pinned (restore rb s') = ib_pinned s \<and>
    ib_summary (restore rb s') = ib_summary s"
  using assms by (simp add: restore_def restore_data cache_wf_def patched_def)

section \<open>Placing in a sorted list\<close>

text \<open>The rows of a list, newest first by the tab's date, no notification twice.\<close>

definition list_sorted :: "(string \<Rightarrow> int) \<Rightarrow> inbox_view \<Rightarrow> notification list \<Rightarrow> bool" where
  "list_sorted ms v ns \<longleftrightarrow> sorted_wrt (comesBefore ms v) ns"

lemma comesBefore_trans: "comesBefore ms v a b \<Longrightarrow> comesBefore ms v b c \<Longrightarrow> comesBefore ms v a c"
  by (auto simp: comesBefore_def split: if_splits)

lemma comesBefore_total: "nt_id a \<noteq> nt_id b \<Longrightarrow> comesBefore ms v a b \<or> comesBefore ms v b a"
  by (auto simp: comesBefore_def)

lemma comesBefore_irrefl: "\<not> comesBefore ms v a a"
  by (simp add: comesBefore_def)

lemma rows_without: "concat (map pg_data (without i pgs)) = filter (\<lambda>n. nt_id n \<noteq> i) (concat (map pg_data pgs))"
  by (induction pgs) (simp_all add: without_def)

lemma insert_in_pages_rows:
  "insert_in_pages p n pgs = Some pgs' \<Longrightarrow>
    \<exists>xs ys. concat (map pg_data pgs) = xs @ ys \<and> concat (map pg_data pgs') = xs @ n # ys \<and>
      (\<forall>x\<in>set xs. \<not> p x) \<and> ys \<noteq> [] \<and> p (hd ys)"
proof (induction pgs arbitrary: pgs')
  case Nil
  then show ?case by simp
next
  case (Cons pg pgs)
  show ?case
  proof (cases "find_index p (pg_data pg)")
    case None
    then obtain pgs'' where r: "insert_in_pages p n pgs = Some pgs''" "pgs' = pg # pgs''"
      using Cons.prems by auto
    obtain xs ys where "concat (map pg_data pgs) = xs @ ys" "concat (map pg_data pgs'') = xs @ n # ys"
      "\<forall>x\<in>set xs. \<not> p x" "ys \<noteq> []" "p (hd ys)" using Cons.IH [OF r(1)] by blast
    then show ?thesis
      using None r(2) by (intro exI [of _ "pg_data pg @ xs"] exI [of _ ys]) (auto simp: find_index_None)
  next
    case (Some i)
    note f = find_index_Some [OF Some]
    have e: "pgs' = pg\<lparr>pg_data := insert_at i n (pg_data pg)\<rparr> # pgs" using Cons.prems Some by simp
    have "\<forall>x\<in>set (take i (pg_data pg)). \<not> p x"
      using f by (auto simp: in_set_conv_nth)
    moreover have "drop i (pg_data pg) \<noteq> []" and "hd (drop i (pg_data pg)) = pg_data pg ! i"
      using f by (simp_all add: hd_drop_conv_nth)
    ultimately show ?thesis
      using f e
      by (intro exI [of _ "take i (pg_data pg)"] exI [of _ "drop i (pg_data pg) @ concat (map pg_data pgs)"])
        (simp add: insert_at_def)
  qed
qed

lemma insert_in_pages_None:
  "insert_in_pages p n pgs = None \<Longrightarrow> \<forall>x\<in>set (concat (map pg_data pgs)). \<not> p x"
  by (induction pgs) (auto simp: find_index_None split: option.splits)

lemma push_last_rows:
  "concat (map pg_data (push_last n pgs)) =
    concat (map pg_data pgs) @ (if pgs = [] \<or> truthy (pg_nextCursor (last pgs)) then [] else [n])"
proof (cases "pgs = []")
  case False
  then obtain xs x where "pgs = xs @ [x]" by (meson rev_exhaust)
  then show ?thesis by (simp add: push_last_def)
qed (simp add: push_last_def)

lemma place_cases:
  obtains
    (out) "\<not> belongsTo v n" "rows (place ms v d n) = filter (\<lambda>m. nt_id m \<noteq> nt_id n) (rows d)"
  | (amid) xs ys where "belongsTo v n" "filter (\<lambda>m. nt_id m \<noteq> nt_id n) (rows d) = xs @ ys"
      "rows (place ms v d n) = xs @ n # ys" "\<forall>x\<in>set xs. \<not> comesBefore ms v n x"
      "ys \<noteq> []" "comesBefore ms v n (hd ys)"
  | (after) "belongsTo v n" "\<forall>x\<in>set (filter (\<lambda>m. nt_id m \<noteq> nt_id n) (rows d)). \<not> comesBefore ms v n x"
      "rows (place ms v d n) = filter (\<lambda>m. nt_id m \<noteq> nt_id n) (rows d) @
        (if in_pages d = [] \<or> truthy (pg_nextCursor (last (in_pages d))) then [] else [n])"
proof -
  let ?pgs = "without (nt_id n) (in_pages d)"
  have r: "concat (map pg_data ?pgs) = filter (\<lambda>m. nt_id m \<noteq> nt_id n) (rows d)"
    by (simp add: rows_without rows_def)
  have l: "(?pgs = [] \<or> truthy (pg_nextCursor (last ?pgs))) =
      (in_pages d = [] \<or> truthy (pg_nextCursor (last (in_pages d))))"
    by (cases "in_pages d = []") (simp_all add: without_def last_map)
  show thesis
  proof (cases "belongsTo v n")
    case False
    then show thesis using r by (intro out) (simp_all add: place_def rows_def Let_def)
  next
    case True
    show thesis
    proof (cases "insert_in_pages (comesBefore ms v n) n ?pgs")
      case None
      then have e: "place ms v d n = d\<lparr>in_pages := push_last n ?pgs\<rparr>"
        using True by (simp add: place_def Let_def del: belongsTo.simps)
      show thesis
      proof (rule after [OF True])
        show "\<forall>x\<in>set (filter (\<lambda>m. nt_id m \<noteq> nt_id n) (rows d)). \<not> comesBefore ms v n x"
          using insert_in_pages_None [OF None] unfolding r .
        show "rows (place ms v d n) = filter (\<lambda>m. nt_id m \<noteq> nt_id n) (rows d) @
            (if in_pages d = [] \<or> truthy (pg_nextCursor (last (in_pages d))) then [] else [n])"
          unfolding e using push_last_rows [of n ?pgs] r l by (simp add: rows_def)
      qed
    next
      case (Some pgs')
      then have e: "place ms v d n = d\<lparr>in_pages := pgs'\<rparr>"
        using True by (simp add: place_def Let_def del: belongsTo.simps)
      obtain xs ys where "concat (map pg_data ?pgs) = xs @ ys" "concat (map pg_data pgs') = xs @ n # ys"
        "\<forall>x\<in>set xs. \<not> comesBefore ms v n x" "ys \<noteq> []" "comesBefore ms v n (hd ys)"
        using insert_in_pages_rows [OF Some] by blast
      then show thesis using r e True by (intro amid [of xs ys]) (simp_all add: rows_def)
    qed
  qed
qed

lemma place_sorted:
  assumes "list_sorted ms v (rows d)"
  shows "list_sorted ms v (rows (place ms v d n))"
proof -
  let ?rest = "filter (\<lambda>m. nt_id m \<noteq> nt_id n) (rows d)"
  have rest: "sorted_wrt (comesBefore ms v) ?rest"
    using assms by (simp add: list_sorted_def sorted_wrt_filter)
  have flip: "comesBefore ms v x n" if "x \<in> set ?rest" "\<not> comesBefore ms v n x" for x
    using comesBefore_total [of x n ms v] that by auto
  show ?thesis
  proof (cases rule: place_cases [of v n ms d])
    case out
    then show ?thesis using rest by (simp add: list_sorted_def)
  next
    case (amid xs ys)
    have s: "sorted_wrt (comesBefore ms v) xs" "sorted_wrt (comesBefore ms v) ys"
      "\<forall>x\<in>set xs. \<forall>y\<in>set ys. comesBefore ms v x y"
      using rest unfolding amid(2) by (simp_all add: sorted_wrt_append)
    have "comesBefore ms v n y" if "y \<in> set ys" for y
    proof (cases "y = hd ys")
      case False
      then have "y \<in> set (tl ys)" using that amid(5) by (cases ys) auto
      then have "comesBefore ms v (hd ys) y" using s(2) amid(5) by (cases ys) auto
      then show ?thesis using amid(6) comesBefore_trans by blast
    qed (use amid(6) in simp)
    moreover have "comesBefore ms v x n" if "x \<in> set xs" for x
    proof (rule flip)
      have "set xs \<subseteq> set ?rest" unfolding amid(2) by simp
      then show "x \<in> set ?rest" using that by blast
    qed (use amid(4) that in blast)
    ultimately show ?thesis using s by (simp add: list_sorted_def amid(3) sorted_wrt_append)
  next
    case after
    have "comesBefore ms v x n" if "x \<in> set ?rest" for x using flip [OF that] after(2) that by blast
    then show ?thesis using rest after(3) by (auto simp: list_sorted_def sorted_wrt_append)
  qed
qed

section \<open>Counting what is on its way\<close>

definition held_count :: "(string, nat) js_map \<Rightarrow> string \<Rightarrow> nat" where
  "held_count m i = (case js_get m i of None \<Rightarrow> 0 | Some n \<Rightarrow> n)"

definition counts_positive :: "(string, nat) js_map \<Rightarrow> bool" where
  "counts_positive m \<longleftrightarrow> (\<forall>i. js_get m i \<noteq> Some 0)"

lemma hold_one_count: "held_count (hold_one i m) j = held_count m j + (if j = i then 1 else 0)"
  by (simp add: held_count_def hold_one_def split: option.splits)

lemma release_one_count: "held_count (release_one i m) j = held_count m j - (if j = i then 1 else 0)"
  by (auto simp: held_count_def release_one_def Let_def split: option.splits)

lemma hold_one_positive: "counts_positive m \<Longrightarrow> counts_positive (hold_one i m)"
  by (simp add: counts_positive_def hold_one_def)

lemma release_one_positive: "counts_positive m \<Longrightarrow> counts_positive (release_one i m)"
  by (simp add: counts_positive_def release_one_def Let_def split: option.splits)

lemma hold_count: "held_count (fold hold_one ids m) j = held_count m j + count_list ids j"
  by (induction ids arbitrary: m) (simp_all add: hold_one_count)

lemma release_count: "held_count (fold release_one ids m) j = held_count m j - count_list ids j"
  by (induction ids arbitrary: m) (auto simp: release_one_count)

lemma hold_positive: "counts_positive m \<Longrightarrow> counts_positive (fold hold_one ids m)"
  by (induction ids arbitrary: m) (simp_all add: hold_one_positive)

lemma release_positive: "counts_positive m \<Longrightarrow> counts_positive (fold release_one ids m)"
  by (induction ids arbitrary: m) (simp_all add: release_one_positive)

lemma get_by_count:
  assumes "counts_positive m"
  shows "js_get m i = (if held_count m i = 0 then None else Some (held_count m i))"
proof (cases "js_get m i")
  case None
  then show ?thesis by (simp add: held_count_def)
next
  case (Some n)
  then have "n \<noteq> 0" using assms unfolding counts_positive_def by metis
  then show ?thesis using Some by (simp add: held_count_def)
qed

lemma release_hold:
  assumes "counts_positive m"
  shows "js_get (fold release_one ids (fold hold_one ids m)) i = js_get m i"
  using assms
  by (simp add: get_by_count release_positive hold_positive release_count hold_count)

section \<open>What a socket update leaves alone\<close>

text \<open>The cached copies of a notification, by entry.\<close>

definition of_id :: "string \<Rightarrow> notification list \<Rightarrow> notification set" where
  "of_id i ns = {n \<in> set ns. nt_id n = i}"

definition entry_copies ::
  "('d option \<Rightarrow> notification list) \<Rightarrow> string \<Rightarrow> ('k, 'd option) js_map \<Rightarrow> ('k \<times> notification set) list" where
  "entry_copies g i m = map (\<lambda>(k, d). (k, of_id i (g d))) m"

definition list_copies :: "inbox \<Rightarrow> string \<Rightarrow> (list_key \<times> notification set) list" where
  "list_copies s i = entry_copies list_rows i (ib_lists s)"

definition pinned_copies :: "inbox \<Rightarrow> string \<Rightarrow> (inbox_view \<times> notification set) list" where
  "pinned_copies s i = entry_copies pinned_rows i (ib_pinned s)"

definition copies_kept :: "string \<Rightarrow> inbox \<Rightarrow> inbox \<Rightarrow> bool" where
  "copies_kept i s s' \<longleftrightarrow>
    list_copies s' i = list_copies s i \<and> pinned_copies s' i = pinned_copies s i \<and>
    ib_inFlight s' = ib_inFlight s"

lemma copies_kept_refl: "copies_kept i s s"
  by (simp add: copies_kept_def)

lemma copies_kept_trans: "copies_kept i s s' \<Longrightarrow> copies_kept i s' s'' \<Longrightarrow> copies_kept i s s''"
  by (simp add: copies_kept_def)

lemma set_insert_by: "set (insert_by le x ys) = insert x (set ys)"
  by (induction ys) auto

lemma set_sort_by: "set (sort_by le xs) = set xs"
  unfolding sort_by_def by (induction xs) (simp_all add: set_insert_by)

lemma of_id_rest: "j \<noteq> i \<Longrightarrow> of_id i (filter (\<lambda>m. nt_id m \<noteq> j) ns) = of_id i ns"
  by (auto simp: of_id_def)

lemma of_id_other: "nt_id n \<noteq> i \<Longrightarrow> of_id i (xs @ n # ys) = of_id i (xs @ ys)"
  by (auto simp: of_id_def)

lemma place_copies:
  assumes "nt_id n \<noteq> i"
  shows "of_id i (rows (place ms v d n)) = of_id i (rows d)"
proof (cases rule: place_cases [of v n ms d])
  case out
  then show ?thesis using assms by (simp add: of_id_rest)
next
  case (amid xs ys)
  have "of_id i (xs @ ys) = of_id i (rows d)" unfolding amid(2) [symmetric] using assms by (rule of_id_rest)
  then show ?thesis unfolding amid(3) using assms by (simp add: of_id_other)
next
  case after
  then show ?thesis using assms of_id_rest [OF assms, of "rows d"] by (simp add: of_id_other)
qed

lemma entry_copies_map_data:
  assumes "\<And>k d. of_id i (g (Some (f k d))) = of_id i (g (Some d))"
  shows "entry_copies g i (map_data f m) = entry_copies g i m"
proof (induction m)
  case (Cons kd m)
  obtain k d where "kd = (k, d)" by fastforce
  then show ?case using Cons assms by (cases d) (simp_all add: entry_copies_def map_data_def)
qed (simp add: entry_copies_def map_data_def)

lemma copies_place: "nt_id n \<noteq> i \<Longrightarrow> copies_kept i s (placeInLists ms n views s)"
  by (simp add: copies_kept_def list_copies_def pinned_copies_def placeInLists_def)
    (rule entry_copies_map_data, simp add: list_rows_def place_copies split: prod.splits)

lemma of_id_pinned:
  "nt_id n \<noteq> i \<Longrightarrow> of_id i (sort_by le (n # filter (\<lambda>m. nt_id m \<noteq> nt_id n) ns)) = of_id i ns"
  by (auto simp: of_id_def set_sort_by)

lemma copies_pinned: "nt_id n \<noteq> i \<Longrightarrow> copies_kept i s (placeInPinned ms n s)"
  by (simp add: copies_kept_def list_copies_def pinned_copies_def placeInPinned_def)
    (rule entry_copies_map_data, simp add: pinned_rows_def of_id_pinned of_id_rest Let_def)

lemma rows_patch: "rows (patch_rows f d) = map f (rows d)"
  by (simp add: rows_def patch_rows_def comp_def map_concat)

lemma of_id_map:
  assumes "\<And>n. nt_id (f n) = nt_id n" and "\<And>n. nt_id n = i \<Longrightarrow> f n = n"
  shows "of_id i (map f ns) = of_id i ns"
proof (induction ns)
  case (Cons a ns)
  have "nt_id a = i \<Longrightarrow> f a = a" by (rule assms(2))
  then show ?case using Cons assms(1) [of a] by (cases "nt_id a = i") (auto simp: of_id_def)
qed simp

lemma copies_rows:
  assumes "\<And>n. nt_id (f n) = nt_id n" and "\<And>n. nt_id n = i \<Longrightarrow> f n = n"
  shows "copies_kept i s (s\<lparr>ib_lists := map_data (\<lambda>_. patch_rows f) (ib_lists s),
    ib_pinned := map_data (\<lambda>_. map f) (ib_pinned s)\<rparr>)"
proof -
  have "entry_copies list_rows i (map_data (\<lambda>_. patch_rows f) (ib_lists s)) = entry_copies list_rows i (ib_lists s)"
    by (rule entry_copies_map_data) (simp add: list_rows_def rows_patch of_id_map [OF assms])
  moreover have "entry_copies pinned_rows i (map_data (\<lambda>_. map f) (ib_pinned s)) = entry_copies pinned_rows i (ib_pinned s)"
    by (rule entry_copies_map_data) (simp add: pinned_rows_def of_id_map [OF assms])
  ultimately show ?thesis by (simp add: copies_kept_def list_copies_def pinned_copies_def)
qed

lemma copies_replace:
  fixes changed :: "notification list"
  assumes "\<forall>n\<in>set changed. nt_id n \<noteq> i"
  shows "copies_kept i s (replaceInPlace changed s)"
proof -
  let ?m = "map_of (map (\<lambda>n. (nt_id n, n)) (rev changed))"
  have id: "nt_id m = k" if "?m k = Some m" for k m
    using map_of_SomeD [OF that] by auto
  have none: "?m i = None" using assms by (auto simp: map_of_eq_None_iff)
  show ?thesis
    unfolding replaceInPlace_def Let_def
  proof (rule copies_rows)
    fix n :: notification
    show "nt_id (case ?m (nt_id n) of None \<Rightarrow> n | Some m \<Rightarrow> m) = nt_id n"
    proof (cases "?m (nt_id n)")
      case (Some m)
      then show ?thesis using id [OF Some] by (simp only: option.case)
    qed (simp only: option.case)
  next
    fix n :: notification
    assume "nt_id n = i"
    then show "(case ?m (nt_id n) of None \<Rightarrow> n | Some m \<Rightarrow> m) = n" using none by (simp only: option.case)
  qed
qed

lemma copies_read_all:
  assumes "held s i"
  shows "copies_kept i s (readAllInPlace ms u s)"
  unfolding readAllInPlace_def Let_def
  by (rule copies_rows) (use assms in \<open>auto simp: with_read_def\<close>)

lemma receive_one_kept:
  assumes "held s i" and "\<forall>m\<in>set inPlace. nt_id m \<noteq> i"
    and "receive_one ms n (s, arrived, inPlace) = (s', arrived', inPlace')"
  shows "copies_kept i s s' \<and> (\<forall>m\<in>set inPlace'. nt_id m \<noteq> i)"
proof (cases "nt_id n = i")
  case True
  then show ?thesis
    using assms by (auto simp: receive_one_def copies_kept_def list_copies_def pinned_copies_def)
next
  case False
  have "copies_kept i s (placeInLists ms n VIEWS (placeInPinned ms n s))"
    by (rule copies_kept_trans [OF copies_pinned copies_place]) (use False in simp_all)
  moreover have "copies_kept i s (s\<lparr>ib_summaryBehind := b\<rparr>)" for b
    by (simp add: copies_kept_def list_copies_def pinned_copies_def)
  ultimately show ?thesis
    using assms False copies_kept_refl [of i s]
    by (auto simp: receive_one_def Let_def split: if_splits)
qed

lemma receive_kept:
  assumes "held s i" and "\<forall>m\<in>set inPlace. nt_id m \<noteq> i"
    and "fold (receive_one ms) ns (s, arrived, inPlace) = (s', arrived', inPlace')"
  shows "copies_kept i s s' \<and> (\<forall>m\<in>set inPlace'. nt_id m \<noteq> i)"
  using assms
proof (induction ns arbitrary: s arrived inPlace)
  case Nil
  then show ?case by (simp add: copies_kept_refl)
next
  case (Cons n ns)
  obtain s1 a1 p1 where r: "receive_one ms n (s, arrived, inPlace) = (s1, a1, p1)"
    by (cases "receive_one ms n (s, arrived, inPlace)") auto
  have k: "copies_kept i s s1" "\<forall>m\<in>set p1. nt_id m \<noteq> i" using receive_one_kept [OF Cons.prems(1,2) r] by auto
  then have "held s1 i" using Cons.prems(1) by (simp add: held_def copies_kept_def)
  then show ?case using Cons.IH [of s1 p1 a1] Cons.prems(3) k r copies_kept_trans [OF k(1)] by auto
qed

lemma copies_flash: "copies_kept i s (flash ids s)"
proof -
  have "ib_lists (flash ids s) = ib_lists s \<and> ib_pinned (flash ids s) = ib_pinned s \<and>
      ib_inFlight (flash ids s) = ib_inFlight s"
    unfolding flash_def by (induction ids arbitrary: s) auto
  then show ?thesis by (simp add: copies_kept_def list_copies_def pinned_copies_def)
qed

lemma copies_fields [simp]:
  "copies_kept i s (s'\<lparr>ib_summaryBehind := b\<rparr>) = copies_kept i s s'"
  "copies_kept i s (s'\<lparr>ib_summary := sm\<rparr>) = copies_kept i s s'"
  by (simp_all add: copies_kept_def list_copies_def pinned_copies_def)

section \<open>Skipped summaries\<close>

text \<open>What touches the changes on their way: taking and giving up a hold, and updates.\<close>

datatype hold_event = HoldEv "string list" | ReleaseEv "string list" | UpdateEv inbox_updated

fun hold_step :: "(string \<Rightarrow> int) \<Rightarrow> inbox \<Rightarrow> hold_event \<Rightarrow> inbox" where
  "hold_step ms s (HoldEv ids) = hold ids s"
| "hold_step ms s (ReleaseEv ids) = release ids s"
| "hold_step ms s (UpdateEv u) = receiveInboxUpdate ms u s"

definition behind_ok :: "inbox \<Rightarrow> bool" where
  "behind_ok s \<longleftrightarrow> (ib_summaryBehind s \<longrightarrow> ib_inFlight s \<noteq> [])"

lemma hold_nonempty: "m \<noteq> [] \<Longrightarrow> fold hold_one ids m \<noteq> []"
proof (induction ids arbitrary: m)
  case (Cons i ids)
  have "js_keys (hold_one i m) \<noteq> []" by (auto simp: hold_one_def js.keys_put)
  then have "hold_one i m \<noteq> []" by auto
  then show ?case using Cons.IH by simp
qed simp

lemma receive_one_counters:
  assumes "receive_one ms n (s, arrived, inPlace) = (s', arrived', inPlace')"
  shows "ib_inFlight s' = ib_inFlight s \<and> ib_summaryFetches s' = ib_summaryFetches s \<and>
    (ib_summaryBehind s \<longrightarrow> ib_summaryBehind s') \<and>
    (ib_summaryBehind s' \<longrightarrow> ib_summaryBehind s \<or> ib_inFlight s \<noteq> [])"
proof -
  have "held s i \<Longrightarrow> ib_inFlight s \<noteq> []" for i by (auto simp: held_def)
  then show ?thesis
    using assms by (auto simp: receive_one_def placeInLists_def placeInPinned_def Let_def split: if_splits)
qed

lemma receive_fold_counters:
  assumes "fold (receive_one ms) ns (s, arrived, inPlace) = (s', arrived', inPlace')"
  shows "ib_inFlight s' = ib_inFlight s \<and> ib_summaryFetches s' = ib_summaryFetches s \<and>
    (ib_summaryBehind s \<longrightarrow> ib_summaryBehind s') \<and>
    (ib_summaryBehind s' \<longrightarrow> ib_summaryBehind s \<or> ib_inFlight s \<noteq> [])"
  using assms
proof (induction ns arbitrary: s arrived inPlace)
  case (Cons n ns)
  obtain s1 a1 p1 where r: "receive_one ms n (s, arrived, inPlace) = (s1, a1, p1)"
    by (cases "receive_one ms n (s, arrived, inPlace)") auto
  then show ?case using Cons.IH [of s1 a1 p1] Cons.prems receive_one_counters [OF r] by auto
qed simp

lemma flash_counters [simp]:
  "ib_inFlight (flash ids s) = ib_inFlight s" "ib_summaryFetches (flash ids s) = ib_summaryFetches s"
  "ib_summaryBehind (flash ids s) = ib_summaryBehind s" "ib_summary (flash ids s) = ib_summary s"
  unfolding flash_def by (induction ids arbitrary: s) auto

lemma receive_counters:
  "ib_inFlight (receiveInboxUpdate ms u s) = ib_inFlight s"
  "ib_summaryFetches (receiveInboxUpdate ms u s) = ib_summaryFetches s"
  "ib_summaryBehind s \<Longrightarrow> ib_summaryBehind (receiveInboxUpdate ms u s)"
  "behind_ok s \<Longrightarrow> behind_ok (receiveInboxUpdate ms u s)"
  "ib_inFlight s \<noteq> [] \<Longrightarrow> ib_summaryBehind (receiveInboxUpdate ms u s) \<and>
    ib_summary (receiveInboxUpdate ms u s) = ib_summary s"
proof -
  obtain s1 a p where f: "fold (receive_one ms) (iu_upserted u) (s, [], []) = (s1, a, p)"
    by (cases "fold (receive_one ms) (iu_upserted u) (s, [], [])") auto
  note c = receive_fold_counters [OF f]
  have frame: "ib_inFlight (replaceInPlace p s1) = ib_inFlight s1"
    "ib_summaryFetches (replaceInPlace p s1) = ib_summaryFetches s1"
    "ib_summaryBehind (replaceInPlace p s1) = ib_summaryBehind s1"
    by (simp_all add: replaceInPlace_def Let_def)
  have frame2: "ib_inFlight (readAllInPlace ms r x) = ib_inFlight x"
    "ib_summaryFetches (readAllInPlace ms r x) = ib_summaryFetches x"
    "ib_summaryBehind (readAllInPlace ms r x) = ib_summaryBehind x"
    "ib_summary (readAllInPlace ms r x) = ib_summary x" for r x
    by (simp_all add: readAllInPlace_def Let_def)
  note defs = receiveInboxUpdate_def f Let_def frame frame2
  show "ib_inFlight (receiveInboxUpdate ms u s) = ib_inFlight s"
    using c by (auto simp: defs split: option.splits)
  show "ib_summaryFetches (receiveInboxUpdate ms u s) = ib_summaryFetches s"
    using c by (auto simp: defs split: option.splits)
  show "ib_summaryBehind s \<Longrightarrow> ib_summaryBehind (receiveInboxUpdate ms u s)"
    using c by (auto simp: defs split: option.splits)
  show "behind_ok s \<Longrightarrow> behind_ok (receiveInboxUpdate ms u s)"
    using c by (auto simp: defs behind_ok_def split: option.splits)
  have sum: "ib_summary s1 = ib_summary s" using f
  proof -
    have one: "receive_one ms n (x, a1, p1) = (y, a2, p2) \<Longrightarrow> ib_summary y = ib_summary x" for n x a1 p1 y a2 p2
      by (auto simp: receive_one_def placeInLists_def placeInPinned_def Let_def split: if_splits)
    have "fold (receive_one ms) ns (x, a1, p1) = (y, a2, p2) \<Longrightarrow> ib_summary y = ib_summary x" for ns x a1 p1 y a2 p2
    proof (induction ns arbitrary: x a1 p1)
      case (Cons n ns)
      obtain x1 a3 p3 where r: "receive_one ms n (x, a1, p1) = (x1, a3, p3)"
        by (cases "receive_one ms n (x, a1, p1)") auto
      then show ?case using Cons.IH [of x1 a3 p3] Cons.prems one [OF r] by simp
    qed simp
    then show ?thesis using f by blast
  qed
  have "ib_summary (replaceInPlace p s1) = ib_summary s1" by (simp add: replaceInPlace_def Let_def)
  then show "ib_inFlight s \<noteq> [] \<Longrightarrow> ib_summaryBehind (receiveInboxUpdate ms u s) \<and>
    ib_summary (receiveInboxUpdate ms u s) = ib_summary s"
    using c sum by (auto simp: defs split: option.splits)
qed

lemma release_counters:
  "behind_ok s \<Longrightarrow> behind_ok (release ids s)"
  "ib_summaryFetches s \<le> ib_summaryFetches (release ids s)"
  "ib_summaryBehind s \<Longrightarrow> ib_summaryBehind (release ids s) \<or> ib_summaryFetches s < ib_summaryFetches (release ids s)"
  by (auto simp: release_def behind_ok_def refreshSummary_def Let_def)

lemma hold_step_keeps:
  assumes "behind_ok s"
  shows "behind_ok (hold_step ms s e) \<and> ib_summaryFetches s \<le> ib_summaryFetches (hold_step ms s e) \<and>
    (ib_summaryBehind s \<longrightarrow> ib_summaryBehind (hold_step ms s e) \<or>
      ib_summaryFetches s < ib_summaryFetches (hold_step ms s e))"
proof (cases e)
  case (HoldEv ids)
  then show ?thesis using assms by (auto simp: hold_def behind_ok_def hold_nonempty)
next
  case (ReleaseEv ids)
  then show ?thesis using release_counters [of s ids] assms by auto
next
  case (UpdateEv u)
  then show ?thesis using receive_counters(2) [of ms u s] receive_counters(3) [of s ms u]
      receive_counters(4) [of s ms u] assms by auto
qed

lemma hold_run_keeps:
  "behind_ok s \<Longrightarrow> behind_ok (foldl (hold_step ms) s es) \<and>
    ib_summaryFetches s \<le> ib_summaryFetches (foldl (hold_step ms) s es) \<and>
    (ib_summaryBehind s \<longrightarrow> ib_summaryBehind (foldl (hold_step ms) s es) \<or>
      ib_summaryFetches s < ib_summaryFetches (foldl (hold_step ms) s es))"
proof (induction es arbitrary: s)
  case (Cons e es)
  have k: "behind_ok (hold_step ms s e)" "ib_summaryFetches s \<le> ib_summaryFetches (hold_step ms s e)"
    "ib_summaryBehind s \<longrightarrow> ib_summaryBehind (hold_step ms s e) \<or>
      ib_summaryFetches s < ib_summaryFetches (hold_step ms s e)"
    using hold_step_keeps [OF Cons.prems, of ms e] by simp_all
  show ?case using Cons.IH [OF k(1)] k(2,3) by auto
qed simp

section \<open>Exact counts\<close>

text \<open>
  The server's notifications, by id; a summary is exact for them when it counts the unread ones of
  the account and of every workspace.
\<close>

definition unread_in :: "(string \<rightharpoonup> notification) \<Rightarrow> string option \<Rightarrow> string set" where
  "unread_in u w = {i. \<exists>n. u i = Some n \<and> isUnread n \<and> nt_workspaceId n = w}"

definition exact :: "inbox_summary \<Rightarrow> (string \<rightharpoonup> notification) \<Rightarrow> bool" where
  "exact sm u \<longleftrightarrow>
    finite (dom u) \<and> (\<forall>i n. u i = Some n \<longrightarrow> nt_workspaceId n \<noteq> Some []) \<and>
    sm_accountUnread sm = int (card (unread_in u None)) \<and>
    (\<forall>w. (case js_get (sm_byWorkspace sm) w of None \<Rightarrow> 0 | Some c \<Rightarrow> c) = int (card (unread_in u (Some w))))"

lemma unread_in_finite: "finite (dom u) \<Longrightarrow> finite (unread_in u w)"
  by (rule finite_subset [of _ "dom u"]) (auto simp: unread_in_def)

lemma unread_in_upd:
  assumes "u i = Some b" and "nt_workspaceId a = nt_workspaceId b"
  shows "unread_in (u(i \<mapsto> a)) w =
    (if nt_workspaceId b \<noteq> w then unread_in u w
     else if isUnread a then insert i (unread_in u w) else unread_in u w - {i})"
  using assms by (auto simp: unread_in_def split: if_splits)

lemma card_upd:
  assumes "finite (dom u)" and "u i = Some b" and "nt_workspaceId a = nt_workspaceId b"
  shows "int (card (unread_in (u(i \<mapsto> a)) w)) =
    int (card (unread_in u w)) + (if nt_workspaceId b = w then unread_delta b a else 0)"
proof (cases "nt_workspaceId b = w")
  case False
  then show ?thesis using unread_in_upd [of u i b a w] assms(2,3) by simp
next
  case True
  have fin: "finite (unread_in u w)" using assms(1) by (rule unread_in_finite)
  have mem: "i \<in> unread_in u w \<longleftrightarrow> isUnread b" using assms(2) True by (auto simp: unread_in_def)
  show ?thesis
  proof (cases "isUnread a")
    case u: True
    then show ?thesis using True fin mem unread_in_upd [of u i b a w] assms(2,3)
      by (auto simp: unread_delta_def card_insert_if)
  next
    case r: False
    have "isUnread b \<Longrightarrow> 0 < card (unread_in u w)" using fin mem by (auto simp: card_gt_0_iff)
    then show ?thesis using True r fin mem unread_in_upd [of u i b a w] assms(2,3)
      by (cases "isUnread b") (auto simp: unread_delta_def card_Diff_singleton_if)
  qed
qed

lemma exact_change:
  assumes ex: "exact sm u" and b: "u i = Some b" and w: "nt_workspaceId a = nt_workspaceId b"
  shows "exact (summary_change sm (b, a)) (u(i \<mapsto> a))"
proof -
  have fin: "finite (dom u)" and named: "nt_workspaceId b \<noteq> Some []" using ex b by (auto simp: exact_def)
  note c = card_upd [OF fin b w]
  have nn: "0 \<le> int (card (unread_in u v)) + (if nt_workspaceId b = v then unread_delta b a else 0)" for v
    using c [of v] by linarith
  have named': "\<forall>j n. (u(i \<mapsto> a)) j = Some n \<longrightarrow> nt_workspaceId n \<noteq> Some []"
    using ex w named by (auto simp: exact_def)
  show ?thesis
  proof (cases "unread_delta b a = 0")
    case True
    then have "summary_change sm (b, a) = sm" by (simp add: summary_change_def Let_def)
    then show ?thesis using ex c True fin named' by (simp add: exact_def)
  next
    case d: False
    show ?thesis
    proof (cases "nt_workspaceId b")
      case None
      then have "summary_change sm (b, a) =
          sm\<lparr>sm_accountUnread := max 0 (sm_accountUnread sm + unread_delta b a)\<rparr>"
        using d w by (simp add: summary_change_def Let_def)
      then show ?thesis using ex c fin named' None nn [of None] by (simp add: exact_def)
    next
      case (Some v)
      let ?n = "case js_get (sm_byWorkspace sm) v of None \<Rightarrow> 0 | Some c \<Rightarrow> c"
      have "v \<noteq> []" using named Some by simp
      then have "summary_change sm (b, a) =
          sm\<lparr>sm_byWorkspace := js_set v (max 0 (?n + unread_delta b a)) (sm_byWorkspace sm)\<rparr>"
        using d w Some by (simp add: summary_change_def Let_def)
      moreover have "?n = int (card (unread_in u (Some v)))" using ex by (simp add: exact_def)
      ultimately show ?thesis using ex c fin named' Some nn [of "Some v"] by (auto simp: exact_def)
    qed
  qed
qed

text \<open>The server's notifications after they were read (or unread).\<close>

definition read_on_server :: "string list \<Rightarrow> string option \<Rightarrow> (string \<rightharpoonup> notification) \<Rightarrow> (string \<rightharpoonup> notification)" where
  "read_on_server ids readAt u = (\<lambda>i. if i \<in> set ids then map_option (with_read readAt) (u i) else u i)"

lemma exact_changes:
  assumes "exact sm u" and "distinct ids" and "\<forall>i\<in>set ids. u i \<noteq> None"
  shows "exact (foldl summary_change sm (map (\<lambda>i. (the (u i), with_read readAt (the (u i)))) ids))
    (read_on_server ids readAt u)"
  using assms
proof (induction ids arbitrary: sm u)
  case Nil
  then show ?case by (simp add: read_on_server_def)
next
  case (Cons i ids)
  then obtain b where b: "u i = Some b" by auto
  let ?u = "u(i \<mapsto> with_read readAt b)"
  have ex: "exact (summary_change sm (b, with_read readAt b)) ?u"
    using Cons.prems(1) b by (rule exact_change) (simp add: with_read_def)
  have same: "map (\<lambda>j. (the (?u j), with_read readAt (the (?u j)))) ids = map (\<lambda>j. (the (u j), with_read readAt (the (u j)))) ids"
    using Cons.prems(2) by auto
  have eq: "read_on_server ids readAt ?u = read_on_server (i # ids) readAt u"
    using Cons.prems(2) b by (auto simp: read_on_server_def fun_eq_iff)
  have "exact (foldl summary_change (summary_change sm (b, with_read readAt b))
      (map (\<lambda>j. (the (?u j), with_read readAt (the (?u j)))) ids)) (read_on_server ids readAt ?u)"
    by (rule Cons.IH [OF ex]) (use Cons.prems in auto)
  then show ?case unfolding same eq using b by simp
qed

section \<open>Properties\<close>

text \<open>
  C18: An action of the Inbox that fails with nothing in between leaves no trace: the cached lists,
  the pinned groups, the unread counts and the changes on their way are what they were before it,
  for reading, unreading and archiving alike.
\<close>

theorem inbox_failed_action_undone:
  assumes "cache_wf s" and "counts_positive (ib_inFlight s)"
    and "(s', c) = mutate_read ms ids readAt s \<and> s'' = failed_read c s' \<or>
      (s', c) = mutate_archive ms n archivedAt s \<and> s'' = failed_archive c s'"
  shows "ib_lists s'' = ib_lists s \<and> ib_pinned s'' = ib_pinned s \<and> ib_summary s'' = ib_summary s \<and>
    (\<forall>i. js_get (ib_inFlight s'') i = js_get (ib_inFlight s) i)"
proof -
  have frame: "ib_lists (release js x) = ib_lists x" "ib_pinned (release js x) = ib_pinned x"
    "ib_summary (release js x) = ib_summary x" "ib_inFlight (release js x) = fold release_one js (ib_inFlight x)" for js x
    by (simp_all add: release_def refreshSummary_def Let_def)
  have frame': "ib_lists (refreshSummary x) = ib_lists x" "ib_pinned (refreshSummary x) = ib_pinned x"
    "ib_summary (refreshSummary x) = ib_summary x" "ib_inFlight (refreshSummary x) = ib_inFlight x" for x
    by (simp_all add: refreshSummary_def)
  have wf: "cache_wf (hold js s)" for js using assms(1) by (simp add: cache_wf_def hold_def)
  have undone: "ib_lists s'' = ib_lists (hold js s) \<and> ib_pinned s'' = ib_pinned (hold js s) \<and>
      ib_summary s'' = ib_summary (hold js s) \<and>
      ib_inFlight s'' = fold release_one js (ib_inFlight s')"
    if p: "patched (hold js s) s'" "rb_lists (ac_rollback c) = ib_lists (hold js s)"
      "rb_pinned (ac_rollback c) = ib_pinned (hold js s)"
      "previous_or (rb_summary (ac_rollback c)) (ib_summary s') = ib_summary (hold js s)"
      and e: "s'' = release js (restore (ac_rollback c) s') \<or>
        s'' = refreshSummary (release js (restore (ac_rollback c) s'))" for js
  proof -
    have "ib_inFlight (restore (ac_rollback c) s') = ib_inFlight s'" by (simp add: restore_def)
    then show ?thesis using restore_patched [OF wf p] e by (auto simp: frame frame')
  qed
  have flight: "ib_inFlight s' = ib_inFlight (hold js s)"
    if "(s', rb) = patchReadNotification ms ids readAt (hold js s) \<or> (s', rb) = patchArchiveNotification ms n archivedAt (hold js s)" for js rb
  proof -
    have g: "ib_inFlight (fold (patch_pinned_group ms ids readAt) kds x) = ib_inFlight x" for kds x
    proof (induction kds arbitrary: x)
      case (Cons kd kds)
      have "ib_inFlight (fold (\<lambda>n. placeInLists ms n [ViewAll]) ns y) = ib_inFlight y" for ns y
        by (induction ns arbitrary: y) (simp_all add: placeInLists_def)
      then have "ib_inFlight (patch_pinned_group ms ids readAt kd x) = ib_inFlight x"
        by (cases kd) (auto simp: patch_pinned_group_def split: option.splits prod.splits)
      then show ?case using Cons by simp
    qed simp
    have "patchSummary x cs = (y, sm) \<Longrightarrow> ib_inFlight y = ib_inFlight x" for x cs y sm
      by (auto simp: patchSummary_def split: option.splits)
    then show ?thesis using that g
      by (auto simp: patchReadNotification_def patchArchiveNotification_def placeInLists_def Let_def split: prod.splits)
  qed
  from assms(3) show ?thesis
  proof
    assume a: "(s', c) = mutate_read ms ids readAt s \<and> s'' = failed_read c s'"
    then obtain rb where p: "patchReadNotification ms ids readAt (hold ids s) = (s', rb)"
      and c: "ac_rollback c = rb" "ac_ids c = ids"
      by (auto simp: mutate_read_def Let_def split: prod.splits)
    have "s'' = release ids (restore rb s') \<or> s'' = refreshSummary (release ids (restore rb s'))"
      using a c by (auto simp: failed_read_def settled_read_def Let_def)
    then show ?thesis
      using undone [of ids] patched_read [OF wf p] c flight [of rb ids] p release_hold [OF assms(2)]
      by (simp add: hold_def)
  next
    assume a: "(s', c) = mutate_archive ms n archivedAt s \<and> s'' = failed_archive c s'"
    then obtain rb where p: "patchArchiveNotification ms n archivedAt (hold [nt_id n] s) = (s', rb)"
      and c: "ac_rollback c = rb" "ac_ids c = [nt_id n]"
      by (auto simp: mutate_archive_def split: prod.splits)
    have "s'' = release [nt_id n] (restore rb s')"
      using a c by (simp add: failed_archive_def settled_archive_def)
    then show ?thesis
      using undone [of "[nt_id n]"] patched_archive [OF p] c flight [of rb "[nt_id n]"] p
        release_hold [OF assms(2), of "[nt_id n]"]
      by (simp add: hold_def)
  qed
qed

text \<open>A small cache: one workspace with its All tab, a pinned group, a summary.\<close>

definition plain :: "string \<Rightarrow> string option \<Rightarrow> string \<Rightarrow> notification" where
  "plain i w t = \<lparr>nt_id = i, nt_workspaceId = w, nt_readAt = None, nt_archivedAt = None,
    nt_updatedAt = t, nt_payload = []\<rparr>"

definition small_cache :: inbox where
  "small_cache = \<lparr>
    ib_lists = [((''w'', ViewAll), Some \<lparr>in_pages = [\<lparr>pg_data = [plain ''b'' (Some ''w'') ''2'', plain ''a'' (Some ''w'') ''1''],
      pg_nextCursor = None\<rparr>], in_pageParams = [None]\<rparr>)],
    ib_pinned = [(ViewAll, Some [plain ''p'' None ''3''])],
    ib_summary = Some \<lparr>sm_accountUnread = 1, sm_byWorkspace = [(''w'', 2)]\<rparr>,
    ib_inFlight = [], ib_summaryBehind = False, ib_summaryFetches = 0, ib_flash = [], ib_nextFlash = 0\<rparr>"

definition first_char :: "string \<Rightarrow> int" where
  "first_char t = (case t of [] \<Rightarrow> 0 | c # _ \<Rightarrow> int (of_char c :: nat))"

lemma small_cache_wf: "cache_wf small_cache" "counts_positive (ib_inFlight small_cache)"
  by (simp_all add: small_cache_def cache_wf_def js_keys_def counts_positive_def)

theorem inbox_failed_action_undone_witness:
  "ib_lists (failed_read (snd (mutate_read first_char [''a'', ''p''] (Some ''t'') small_cache))
    (fst (mutate_read first_char [''a'', ''p''] (Some ''t'') small_cache))) = ib_lists small_cache"
  using inbox_failed_action_undone [OF small_cache_wf, of "fst (mutate_read first_char [''a'', ''p''] (Some ''t'') small_cache)"
      "snd (mutate_read first_char [''a'', ''p''] (Some ''t'') small_cache)" first_char "[''a'', ''p'']" "Some ''t''"
      "failed_read (snd (mutate_read first_char [''a'', ''p''] (Some ''t'') small_cache))
        (fst (mutate_read first_char [''a'', ''p''] (Some ''t'') small_cache))"]
  by (metis prod.collapse)

text \<open>
  C3: Putting a notification into a loaded list keeps the list in the order of its tab and every
  other notification where it was; it is in the list exactly when it belongs to the tab and its
  place is within the loaded pages, and then once.
\<close>

theorem inbox_place_correct:
  assumes "list_sorted ms v (rows d)"
  shows "list_sorted ms v (rows (place ms v d n)) \<and>
    filter (\<lambda>m. nt_id m \<noteq> nt_id n) (rows (place ms v d n)) = filter (\<lambda>m. nt_id m \<noteq> nt_id n) (rows d) \<and>
    filter (\<lambda>m. nt_id m = nt_id n) (rows (place ms v d n)) =
      (if belongsTo v n \<and>
          ((\<exists>m\<in>set (rows d). nt_id m \<noteq> nt_id n \<and> comesBefore ms v n m) \<or>
           in_pages d \<noteq> [] \<and> \<not> truthy (pg_nextCursor (last (in_pages d))))
       then [n] else [])"
proof -
  let ?rest = "filter (\<lambda>m. nt_id m \<noteq> nt_id n) (rows d)"
  have own: "filter (\<lambda>m. nt_id m = nt_id n) ?rest = []" by (simp add: filter_False)
  have keep: "filter (\<lambda>m. nt_id m \<noteq> nt_id n) ?rest = ?rest" by simp
  have "filter (\<lambda>m. nt_id m \<noteq> nt_id n) (rows (place ms v d n)) = ?rest \<and>
    filter (\<lambda>m. nt_id m = nt_id n) (rows (place ms v d n)) =
      (if belongsTo v n \<and>
          ((\<exists>m\<in>set (rows d). nt_id m \<noteq> nt_id n \<and> comesBefore ms v n m) \<or>
           in_pages d \<noteq> [] \<and> \<not> truthy (pg_nextCursor (last (in_pages d))))
       then [n] else [])"
  proof (cases rule: place_cases [of v n ms d])
    case out
    then show ?thesis using own keep by (simp del: belongsTo.simps)
  next
    case (amid xs ys)
    have "hd ys \<in> set ?rest" unfolding amid(2) using amid(5) by simp
    then have "\<exists>m\<in>set (rows d). nt_id m \<noteq> nt_id n \<and> comesBefore ms v n m" using amid(6) by auto
    moreover have "filter (\<lambda>m. nt_id m = nt_id n) xs = [] \<and> filter (\<lambda>m. nt_id m = nt_id n) ys = []"
      using own unfolding amid(2) by simp
    moreover have "filter (\<lambda>m. nt_id m \<noteq> nt_id n) xs @ filter (\<lambda>m. nt_id m \<noteq> nt_id n) ys = ?rest"
      using keep unfolding amid(2) by simp
    ultimately show ?thesis using amid(1,3) by (simp del: belongsTo.simps)
  next
    case after
    have "\<not> (\<exists>m\<in>set (rows d). nt_id m \<noteq> nt_id n \<and> comesBefore ms v n m)" using after(2) by auto
    then show ?thesis using after(1,3) own keep by (auto simp del: belongsTo.simps)
  qed
  then show ?thesis using place_sorted [OF assms] by blast
qed

theorem inbox_place_correct_witness:
  "list_sorted first_char ViewAll (rows (place first_char ViewAll
    \<lparr>in_pages = [\<lparr>pg_data = [plain ''b'' (Some ''w'') ''2'', plain ''a'' (Some ''w'') ''1''], pg_nextCursor = None\<rparr>],
     in_pageParams = [None]\<rparr> (plain ''c'' (Some ''w'') ''3'')))"
  using inbox_place_correct [of first_char ViewAll
    "\<lparr>in_pages = [\<lparr>pg_data = [plain ''b'' (Some ''w'') ''2'', plain ''a'' (Some ''w'') ''1''], pg_nextCursor = None\<rparr>],
     in_pageParams = [None]\<rparr>" "plain ''c'' (Some ''w'') ''3''"]
  by (simp add: list_sorted_def rows_def comesBefore_def sortDateOf_def plain_def first_char_def)

text \<open>
  C19: A socket update never touches a notification whose own change is on its way: every cached
  copy of it, in every list and pinned group, stays as the page shows it, whatever the update
  carries (a new version of it, other notifications, a read-all).
\<close>

theorem inbox_update_respects_holds:
  assumes "held s i"
  shows "copies_kept i s (receiveInboxUpdate ms u s)"
proof -
  obtain s1 a p where f: "fold (receive_one ms) (iu_upserted u) (s, [], []) = (s1, a, p)"
    by (cases "fold (receive_one ms) (iu_upserted u) (s, [], [])") auto
  have k: "copies_kept i s s1" "\<forall>m\<in>set p. nt_id m \<noteq> i" using receive_kept [OF assms _ f] by auto
  then have k2: "copies_kept i s (replaceInPlace p s1)" using copies_kept_trans copies_replace by blast
  then have h2: "held (replaceInPlace p s1) i" using assms by (simp add: held_def copies_kept_def)
  have k3: "copies_kept i s (readAllInPlace ms r (replaceInPlace p s1))" for r
    using copies_kept_trans [OF k2 copies_read_all [OF h2]] .
  show ?thesis
    using k2 k3 copies_kept_trans [OF _ copies_flash]
    by (auto simp: receiveInboxUpdate_def f Let_def split: option.splits)
qed

theorem inbox_update_respects_holds_witness:
  "copies_kept ''a'' (hold [''a''] small_cache) (receiveInboxUpdate first_char
    \<lparr>iu_upserted = [(plain ''a'' (Some ''w'') ''9'')\<lparr>nt_readAt := Some ''t''\<rparr>], iu_readAll = None,
     iu_summary = \<lparr>sm_accountUnread = 0, sm_byWorkspace = []\<rparr>\<rparr> (hold [''a''] small_cache))"
  by (rule inbox_update_respects_holds)
    (simp add: held_def hold_def hold_one_def small_cache_def)

text \<open>
  A server summary that was skipped because changes were on their way is always made up for:
  while it is, something is in flight; and when nothing is in flight any more, the summary has been
  asked from the server since.
\<close>

theorem inbox_skipped_summary_fetched:
  assumes "behind_ok s" and "ib_inFlight s \<noteq> []"
    and "s' = foldl (hold_step ms) s (UpdateEv u # es)" and "ib_inFlight s' = []"
  shows "\<not> ib_summaryBehind s' \<and> ib_summaryFetches s < ib_summaryFetches s'"
proof -
  let ?s = "receiveInboxUpdate ms u s"
  have "ib_summaryBehind ?s" and "behind_ok ?s" and "ib_summaryFetches ?s = ib_summaryFetches s"
    using receive_counters(2) [of ms u s] receive_counters(4) [OF assms(1)] receive_counters(5) [OF assms(2)]
    by simp_all
  then show ?thesis using hold_run_keeps [of ?s ms es] assms(3,4) by (auto simp: behind_ok_def)
qed

theorem inbox_skipped_summary_fetched_witness:
  "0 < ib_summaryFetches (foldl (hold_step first_char) (hold [''a''] small_cache)
    [UpdateEv \<lparr>iu_upserted = [], iu_readAll = None, iu_summary = \<lparr>sm_accountUnread = 0, sm_byWorkspace = []\<rparr>\<rparr>,
     ReleaseEv [''a'']])"
  using inbox_skipped_summary_fetched [OF _ _ refl, of "hold [''a''] small_cache" first_char
      "\<lparr>iu_upserted = [], iu_readAll = None, iu_summary = \<lparr>sm_accountUnread = 0, sm_byWorkspace = []\<rparr>\<rparr>" "[ReleaseEv [''a'']]"]
  by (simp add: behind_ok_def small_cache_def hold_def hold_one_def receiveInboxUpdate_def replaceInPlace_def
      release_def release_one_def refreshSummary_def js_set_def js_get_def js_del_def Let_def)

text \<open>
  C4: The unread counts patched optimistically are exact: when the summary counted the server's
  notifications exactly and every one to be read (or unread) is in the cache as the server has it,
  the patched summary counts exactly what the server will have after the change, for the account
  and for every workspace.
\<close>

theorem inbox_counts_exact:
  assumes "ib_summary s = Some sm" and "exact sm u" and "distinct ids"
    and "\<forall>i\<in>set ids. cachedNotification s i \<noteq> None \<and> cachedNotification s i = u i"
  shows "\<exists>sm'. ib_summary (fst (patchReadNotification ms ids readAt s)) = Some sm' \<and>
    exact sm' (read_on_server ids readAt u)"
proof -
  let ?cs = "map (\<lambda>i. (the (u i), with_read readAt (the (u i)))) ids"
  have changes: "read_changes s ids readAt = ?cs"
  proof -
    have "concat (map (\<lambda>i. case cachedNotification s i of None \<Rightarrow> [] | Some b \<Rightarrow> [(b, with_read readAt b)]) js) =
        map (\<lambda>i. (the (u i), with_read readAt (the (u i)))) js" if "set js \<subseteq> set ids" for js
      using that
    proof (induction js)
      case (Cons i js)
      then obtain b where "cachedNotification s i = Some b" "u i = Some b" using assms(4) by fastforce
      then show ?case using Cons by simp
    qed simp
    then show ?thesis by (simp add: read_changes_def)
  qed
  have ex: "exact (foldl summary_change sm ?cs) (read_on_server ids readAt u)"
  proof (rule exact_changes)
    show "\<forall>i\<in>set ids. u i \<noteq> None" using assms(4) by metis
  qed (rule assms(2), rule assms(3))
  have same: "foldl summary_change sm cs = sm" if "\<forall>(b, a)\<in>set cs. unread_delta b a = 0" for cs
    using that by (induction cs) (auto simp: summary_change_def Let_def)
  obtain s1 r where p: "patchSummary s ?cs = (s1, r)" by fastforce
  have "ib_summary s1 = Some (foldl summary_change sm ?cs)"
    using p same [of ?cs] assms(1) by (auto simp: patchSummary_def summary_after_def split: if_splits)
  moreover have "ib_summary (fold (patch_pinned_group ms ids readAt) kds x) = ib_summary x" for kds x
    by (induction kds arbitrary: x) simp_all
  ultimately have "ib_summary (fst (patchReadNotification ms ids readAt s)) = Some (foldl summary_change sm ?cs)"
    using p by (simp add: patchReadNotification_def changes Let_def)
  then show ?thesis using ex by blast
qed

definition small_server :: "string \<rightharpoonup> notification" where
  "small_server = [''a'' \<mapsto> plain ''a'' (Some ''w'') ''1'', ''b'' \<mapsto> plain ''b'' (Some ''w'') ''2'', ''p'' \<mapsto> plain ''p'' None ''3'']"

lemma small_server_unread: "unread_in small_server w = (if w = None then {''p''} else if w = Some ''w'' then {''a'', ''b''} else {})"
  by (auto simp: unread_in_def small_server_def plain_def isUnread_def split: if_splits)

theorem inbox_counts_exact_witness:
  "\<exists>sm'. ib_summary (fst (patchReadNotification first_char [''a''] (Some ''t'') small_cache)) = Some sm' \<and>
    exact sm' (read_on_server [''a''] (Some ''t'') small_server)"
proof (rule inbox_counts_exact)
  show "ib_summary small_cache = Some \<lparr>sm_accountUnread = 1, sm_byWorkspace = [(''w'', 2)]\<rparr>"
    by (simp add: small_cache_def)
  show "exact \<lparr>sm_accountUnread = 1, sm_byWorkspace = [(''w'', 2)]\<rparr> small_server"
    by (auto simp: exact_def small_server_unread js_get_def) (auto simp: small_server_def plain_def split: if_splits)
  show "\<forall>i\<in>set [''a'']. cachedNotification small_cache i \<noteq> None \<and> cachedNotification small_cache i = small_server i"
    by (simp add: cachedNotification_def cached_def small_cache_def small_server_def list_rows_def rows_def plain_def)
qed simp

text \<open>
  A rollback takes the whole cache back, not only its own change: a notification that arrived
  by the socket while a failing action was on its way is gone from the list after the rollback, and
  nothing asks for the lists again (only the summary and the pinned groups are fetched).
\<close>

theorem inbox_rollback_loses_arrivals:
  "(let (s1, c) = mutate_read first_char [''a''] (Some ''t'') small_cache;
        s2 = receiveInboxUpdate first_char \<lparr>iu_upserted = [plain ''n'' (Some ''w'') ''9''], iu_readAll = None,
          iu_summary = \<lparr>sm_accountUnread = 1, sm_byWorkspace = [(''w'', 2)]\<rparr>\<rparr> s1;
        s3 = failed_read c s2
    in cachedNotification s2 ''n'' = Some (plain ''n'' (Some ''w'') ''9'') \<and>
       cachedNotification s3 ''n'' = None \<and> ib_inFlight s3 = [])"
  by (simp add: small_cache_def mutate_read_def failed_read_def settled_read_def receiveInboxUpdate_def
      hold_def hold_one_def patchReadNotification_def patchSummary_def summary_after_def read_changes_def
      cachedNotification_def cached_def list_rows_def rows_def pinned_rows_def plain_def js_get_def js_set_def
      js_del_def js_has_def unread_delta_def isUnread_def with_read_def summary_change_def map_data_def patch_rows_def
      patch_pinned_group_def patch_pinned_def snapshotInbox_def receive_one_def held_def placeInPinned_def
      placeInLists_def VIEWS_def place_def without_def belongsTo.simps comesBefore_def sortDateOf_def first_char_def
      insert_at_def replaceInPlace_def release_def release_one_def restore_def previous_or_def set_data_def
      flash_def refreshSummary_def Let_def)

end
