(* ===== verification/Inbox_Grouping.thy ===== *)
theory Inbox_Grouping
  imports Inbox_Cache
begin

text \<open>
  The Inbox list as it is shown (\<open>pages/Inbox/utils/grouping.ts\<close>) and where the highlight goes
  when a row leaves it (\<open>pages/Inbox/utils/cursor.ts\<close>). Local dates are a calendar: the civil day
  of an instant and the instant a day begins, in the user's time zone; days are counted from
  1970-01-01, a Thursday, as \<open>getDay\<close> needs.
\<close>

section \<open>Groups\<close>

record calendar =
  cal_day :: "int \<Rightarrow> int"
  cal_midnight :: "int \<Rightarrow> int"

definition startOfDay :: "calendar \<Rightarrow> int \<Rightarrow> int" where
  "startOfDay c t = cal_midnight c (cal_day c t)"

definition addDays :: "calendar \<Rightarrow> int \<Rightarrow> int \<Rightarrow> int" where
  "addDays c t days = cal_midnight c (cal_day c t + days)"

text \<open>0 is Sunday.\<close>

definition getDay :: "calendar \<Rightarrow> int \<Rightarrow> int" where
  "getDay c t = (cal_day c t + 4) mod 7"

datatype inbox_group = GrpAccount | GrpToday | GrpYesterday | GrpWeek | GrpEarlier

definition groupOf :: "calendar \<Rightarrow> int \<Rightarrow> int \<Rightarrow> int \<Rightarrow> inbox_group" where
  "groupOf c date now weekStart =
    (let today = startOfDay c now in
     if today \<le> date then GrpToday
     else if addDays c today (- 1) \<le> date then GrpYesterday
     else (let daysIntoWeek = (getDay c today - weekStart mod 7 + 7) mod 7 in
       if addDays c today (- daysIntoWeek) \<le> date then GrpWeek else GrpEarlier))"

datatype inbox_entry = EntryGroup inbox_group | EntryRow notification | EntryPinnedError

text \<open>The loop over the list, with the group of the row before.\<close>

fun group_rows :: "(notification \<Rightarrow> inbox_group) \<Rightarrow> inbox_group option \<Rightarrow> notification list \<Rightarrow> inbox_entry list" where
  "group_rows g current [] = []"
| "group_rows g current (n # ns) =
    (if Some (g n) \<noteq> current then [EntryGroup (g n), EntryRow n] else [EntryRow n]) @
    group_rows g (Some (g n)) ns"

definition groupEntries ::
  "calendar \<Rightarrow> (string \<Rightarrow> int) \<Rightarrow> notification list \<Rightarrow> inbox_view \<Rightarrow> int \<Rightarrow> int \<Rightarrow>
    notification list \<Rightarrow> bool \<Rightarrow> inbox_entry list" where
  "groupEntries c ms ns v now weekStart pinned pinnedFailed =
    (if pinned \<noteq> [] \<or> pinnedFailed then EntryGroup GrpAccount # map EntryRow pinned else []) @
    (if pinnedFailed then [EntryPinnedError] else []) @
    group_rows (\<lambda>n. groupOf c (sortDateOf ms v n) now weekStart) None ns"

definition headers :: "inbox_entry list \<Rightarrow> inbox_group list" where
  "headers es = concat (map (\<lambda>e. case e of EntryGroup g \<Rightarrow> [g] | _ \<Rightarrow> []) es)"

text \<open>Each row with the header it stands under.\<close>

fun under :: "inbox_group option \<Rightarrow> inbox_entry list \<Rightarrow> (inbox_group option \<times> notification) list" where
  "under u [] = []"
| "under u (EntryGroup g # es) = under (Some g) es"
| "under u (EntryRow n # es) = (u, n) # under u es"
| "under u (EntryPinnedError # es) = under u es"

section \<open>Groups do not interleave\<close>

definition rank :: "inbox_group \<Rightarrow> nat" where
  "rank g = (case g of GrpAccount \<Rightarrow> 0 | GrpToday \<Rightarrow> 1 | GrpYesterday \<Rightarrow> 2 | GrpWeek \<Rightarrow> 3 | GrpEarlier \<Rightarrow> 4)"

lemma rank_inject: "rank g = rank h \<longleftrightarrow> g = h"
  by (cases g; cases h) (simp_all add: rank_def)

lemma groupOf_mono:
  assumes "s \<le> t"
  shows "rank (groupOf c t now w) \<le> rank (groupOf c s now w)"
  using assms by (auto simp: groupOf_def rank_def Let_def)

lemma groupOf_not_account: "groupOf c t now w \<noteq> GrpAccount"
  by (simp add: groupOf_def Let_def)

lemma under_group_rows:
  "cur = None \<or> u = cur \<Longrightarrow> under u (group_rows g cur ns) = map (\<lambda>n. (Some (g n), n)) ns"
  by (induction ns arbitrary: cur u) auto

lemma under_map_rows: "under u (map EntryRow xs @ es) = map (\<lambda>n. (u, n)) xs @ under u es"
  by (induction xs) simp_all

lemma rank_account: "g \<noteq> GrpAccount \<Longrightarrow> rank GrpAccount < rank g"
  by (cases g) (simp_all add: rank_def)

lemma headers_simps:
  "headers [] = []" "headers (xs @ ys) = headers xs @ headers ys"
  "headers (EntryGroup g # xs) = g # headers xs" "headers (EntryRow n # xs) = headers xs"
  "headers (EntryPinnedError # xs) = headers xs" "headers (map EntryRow ns) = []"
proof -
  show "headers (map EntryRow ns) = []" by (induction ns) (simp_all add: headers_def)
qed (simp_all add: headers_def)

lemma group_rows_headers:
  assumes "sorted (map (rank \<circ> g) ns)" and "\<forall>n\<in>set ns. (case cur of None \<Rightarrow> True | Some h \<Rightarrow> rank h \<le> rank (g n))"
  shows "sorted_wrt (\<lambda>a b. rank a < rank b) (headers (group_rows g cur ns)) \<and>
    (\<forall>h\<in>set (headers (group_rows g cur ns)). (case cur of None \<Rightarrow> True | Some c \<Rightarrow> rank c < rank h) \<and>
      (\<exists>n\<in>set ns. h = g n))"
  using assms
proof (induction ns arbitrary: cur)
  case Nil
  then show ?case by (simp add: headers_def)
next
  case (Cons n ns)
  have "\<forall>m\<in>set ns. rank (g n) \<le> rank (g m)" using Cons.prems(1) by simp
  then have ih: "sorted_wrt (\<lambda>a b. rank a < rank b) (headers (group_rows g (Some (g n)) ns))"
    "\<forall>h\<in>set (headers (group_rows g (Some (g n)) ns)). rank (g n) < rank h \<and> (\<exists>m\<in>set ns. h = g m)"
    using Cons.IH [of "Some (g n)"] Cons.prems(1) by simp_all
  have hd: "headers (group_rows g cur (n # ns)) =
      (if Some (g n) \<noteq> cur then [g n] else []) @ headers (group_rows g (Some (g n)) ns)"
    by (simp add: headers_def)
  show ?case
  proof (cases "Some (g n) = cur")
    case True
    then show ?thesis using ih hd by auto
  next
    case False
    have "case cur of None \<Rightarrow> True | Some c \<Rightarrow> rank c < rank (g n)"
      using Cons.prems(2) False by (auto simp: rank_inject [symmetric] split: option.splits)
    then show ?thesis using ih hd False by (fastforce split: option.splits)
  qed
qed

lemma comesBefore_date: "comesBefore ms v a b \<Longrightarrow> sortDateOf ms v b \<le> sortDateOf ms v a"
  by (auto simp: comesBefore_def split: if_splits)

lemma sorted_ranks:
  assumes "list_sorted ms v ns"
  shows "sorted (map (rank \<circ> (\<lambda>n. groupOf c (sortDateOf ms v n) now w)) ns)"
  using assms unfolding list_sorted_def
proof (induction ns)
  case (Cons n ns)
  have "rank (groupOf c (sortDateOf ms v n) now w) \<le> rank (groupOf c (sortDateOf ms v m) now w)"
    if "m \<in> set ns" for m
    using Cons.prems that comesBefore_date [of ms v n m] groupOf_mono by simp
  then show ?case using Cons by simp
qed simp

section \<open>The highlight\<close>

text \<open>\<open>neighbourOf\<close>: the next row, the previous one for the last, nothing for the only one.\<close>

definition neighbourOf :: "'row list \<Rightarrow> ('row \<Rightarrow> string) \<Rightarrow> string \<Rightarrow> 'row option" where
  "neighbourOf rs key i =
    (case find_index (\<lambda>r. key r = i) rs of
      None \<Rightarrow> None
    | Some k \<Rightarrow>
        if Suc k < length rs then Some (rs ! Suc k)
        else if 0 < k then Some (rs ! (k - 1)) else None)"

text \<open>The cursor store of the kit is one optional id.\<close>

definition stepCursorOff :: "'row list \<Rightarrow> ('row \<Rightarrow> string) \<Rightarrow> string \<Rightarrow> string option \<Rightarrow> string option" where
  "stepCursorOff rs key i cursor =
    (if cursor = Some i then map_option key (neighbourOf rs key i) else cursor)"

lemma neighbour_stays:
  assumes "distinct (map key rs)" and "neighbourOf rs key i = Some r"
  shows "r \<in> set (filter (\<lambda>r. key r \<noteq> i) rs)"
proof -
  obtain k where k: "find_index (\<lambda>r. key r = i) rs = Some k"
    using assms(2) by (auto simp: neighbourOf_def split: option.splits)
  note f = find_index_Some [OF k]
  obtain j where j: "j < length rs" "j \<noteq> k" "r = rs ! j"
  proof (cases "Suc k < length rs")
    case True
    then show ?thesis using that [of "Suc k"] assms(2) k by (simp add: neighbourOf_def)
  next
    case False
    then show ?thesis using that [of "k - 1"] assms(2) k f by (simp add: neighbourOf_def split: if_splits)
  qed
  have "key (rs ! j) \<noteq> key (rs ! k)"
    using assms(1) j f nth_eq_iff_index_eq [of "map key rs" j k] by simp
  then show ?thesis using j f by auto
qed

lemma neighbour_none:
  assumes "distinct (map key rs)" and "i \<in> set (map key rs)" and "neighbourOf rs key i = None"
  shows "filter (\<lambda>r. key r \<noteq> i) rs = []"
proof -
  obtain k where k: "find_index (\<lambda>r. key r = i) rs = Some k"
    using assms(2) find_index_None [of "\<lambda>r. key r = i" rs] by (cases "find_index (\<lambda>r. key r = i) rs") auto
  note f = find_index_Some [OF k]
  have "k = 0" and "\<not> Suc k < length rs" using assms(3) k by (simp_all add: neighbourOf_def split: if_splits)
  then have "length rs = 1" using f by linarith
  then obtain r where "rs = [r]" by (auto simp: length_Suc_conv)
  then show ?thesis using f \<open>k = 0\<close> by simp
qed

section \<open>Properties\<close>

text \<open>
  The Inbox list, sorted as its tab is, is shown with the Account group first and then the
  time groups from today to earlier, each with one header: a group never comes twice, no row is
  lost, added or moved, every pinned row stands under Account and every other row under the
  header of its own time group.
\<close>

theorem inbox_groups_never_repeat:
  assumes "list_sorted ms v ns"
  shows "sorted_wrt (\<lambda>a b. rank a < rank b) (headers (groupEntries c ms ns v now weekStart pinned failed)) \<and>
    under None (groupEntries c ms ns v now weekStart pinned failed) =
      map (\<lambda>n. (Some GrpAccount, n)) pinned @
      map (\<lambda>n. (Some (groupOf c (sortDateOf ms v n) now weekStart), n)) ns"
proof
  let ?g = "\<lambda>n. groupOf c (sortDateOf ms v n) now weekStart"
  have h: "sorted_wrt (\<lambda>a b. rank a < rank b) (headers (group_rows ?g None ns))"
    "\<forall>h\<in>set (headers (group_rows ?g None ns)). \<exists>n\<in>set ns. h = ?g n"
    using group_rows_headers [where cur = None, OF sorted_ranks [OF assms, of c now weekStart]] by simp_all
  have "rank GrpAccount < rank h" if "h \<in> set (headers (group_rows ?g None ns))" for h
    using h(2) that groupOf_not_account rank_account by metis
  then show "sorted_wrt (\<lambda>a b. rank a < rank b) (headers (groupEntries c ms ns v now weekStart pinned failed))"
    using h(1) by (simp add: groupEntries_def headers_simps)
  show "under None (groupEntries c ms ns v now weekStart pinned failed) =
      map (\<lambda>n. (Some GrpAccount, n)) pinned @ map (\<lambda>n. (Some (?g n), n)) ns"
    by (auto simp: groupEntries_def under_map_rows under_group_rows)
qed

definition utc_days :: calendar where
  "utc_days = \<lparr>cal_day = (\<lambda>t. t), cal_midnight = (\<lambda>d. d)\<rparr>"

theorem inbox_groups_never_repeat_witness:
  "under None (groupEntries utc_days first_char [plain ''b'' (Some ''w'') ''2'', plain ''a'' (Some ''w'') ''1'']
    ViewAll 50 1 [plain ''p'' None ''3''] False) =
    [(Some GrpAccount, plain ''p'' None ''3''), (Some GrpToday, plain ''b'' (Some ''w'') ''2''),
     (Some GrpYesterday, plain ''a'' (Some ''w'') ''1'')]"
  using inbox_groups_never_repeat [of first_char ViewAll "[plain ''b'' (Some ''w'') ''2'', plain ''a'' (Some ''w'') ''1'']"
      utc_days 50 1 "[plain ''p'' None ''3'']" False]
  by (simp add: list_sorted_def comesBefore_def sortDateOf_def plain_def first_char_def utc_days_def groupOf_def
      startOfDay_def addDays_def)

end
