(* ===== verification/View_State.thy ===== *)
theory View_State
  imports Prelude
begin

text \<open>
  The view in the URL (\<open>shared/utils/view-state/viewState.ts\<close>, \<open>shared/hooks/useSearchParam.ts\<close>):
  search parameters as the list of pairs a \<open>URLSearchParams\<close> is (decoding and encoding of the text
  is the browser's), the view read from them and written back. The filters are an object, whose
  keys keep the order they were added in.
\<close>

section \<open>Search parameters\<close>

type_synonym params = "(string \<times> string) list"

definition usp_get :: "params \<Rightarrow> string \<Rightarrow> string option" where
  "usp_get ps k = map_of ps k"

definition usp_delete :: "string \<Rightarrow> params \<Rightarrow> params" where
  "usp_delete k ps = filter (\<lambda>(k', _). k' \<noteq> k) ps"

text \<open>\<open>set\<close> replaces the first pair of that name, drops the others, or appends.\<close>

fun usp_set :: "string \<Rightarrow> string \<Rightarrow> params \<Rightarrow> params" where
  "usp_set k v [] = [(k, v)]"
| "usp_set k v ((k', v') # ps) = (if k' = k then (k, v) # usp_delete k ps else (k', v') # usp_set k v ps)"

lemma usp_set_new: "k \<notin> fst ` set ps \<Longrightarrow> usp_set k v ps = ps @ [(k, v)]"
  by (induction ps) auto

text \<open>\<open>split(',')\<close> and \<open>join(',')\<close>.\<close>

fun split_comma :: "string \<Rightarrow> string list" where
  "split_comma [] = [[]]"
| "split_comma (c # cs) =
    (if c = CHR '','' then [] # split_comma cs
     else (case split_comma cs of [] \<Rightarrow> [[c]] | p # ps \<Rightarrow> (c # p) # ps))"

fun join_comma :: "string list \<Rightarrow> string" where
  "join_comma [] = []"
| "join_comma [x] = x"
| "join_comma (x # xs) = x @ CHR '','' # join_comma xs"

lemma split_comma_plain: "CHR '','' \<notin> set x \<Longrightarrow> split_comma x = [x]"
  by (induction x) auto

lemma split_comma_append: "CHR '','' \<notin> set x \<Longrightarrow> split_comma (x @ CHR '','' # y) = x # split_comma y"
  by (induction x) auto

lemma split_join: "xs \<noteq> [] \<Longrightarrow> \<forall>x\<in>set xs. CHR '','' \<notin> set x \<Longrightarrow> split_comma (join_comma xs) = xs"
  by (induction xs rule: join_comma.induct) (auto simp: split_comma_plain split_comma_append)

lemma join_nonempty: "xs \<noteq> [] \<Longrightarrow> \<forall>x\<in>set xs. x \<noteq> [] \<Longrightarrow> join_comma xs \<noteq> []"
  by (induction xs rule: join_comma.induct) auto

section \<open>The view\<close>

datatype view_kind = BoardView | TableView
datatype group_by = GroupStatus | GroupAssignee | GroupPriority | GroupNone

record view_state =
  vs_view :: view_kind
  vs_group :: group_by
  vs_sort :: "string option"
  vs_filters :: "(string, string list) js_map"
  vs_task :: "string option"

definition DEFAULT_VIEW_STATE :: view_state where
  "DEFAULT_VIEW_STATE =
    \<lparr>vs_view = BoardView, vs_group = GroupStatus, vs_sort = None, vs_filters = [], vs_task = None\<rparr>"

fun view_name :: "view_kind \<Rightarrow> string" where
  "view_name BoardView = ''board''"
| "view_name TableView = ''table''"

fun group_name :: "group_by \<Rightarrow> string" where
  "group_name GroupStatus = ''status''"
| "group_name GroupAssignee = ''assignee''"
| "group_name GroupPriority = ''priority''"
| "group_name GroupNone = ''none''"

definition VIEW_KINDS :: "view_kind list" where
  "VIEW_KINDS = [BoardView, TableView]"

definition GROUP_BYS :: "group_by list" where
  "GROUP_BYS = [GroupStatus, GroupAssignee, GroupPriority, GroupNone]"

definition FILTER_PREFIX :: string where
  "FILTER_PREFIX = ''f.''"

definition KNOWN_KEYS :: "string list" where
  "KNOWN_KEYS = [''view'', ''group'', ''sort'', ''task'']"

definition as_view_kind :: "string option \<Rightarrow> view_kind option" where
  "as_view_kind v = List.find (\<lambda>k. Some (view_name k) = v) VIEW_KINDS"

definition as_group_by :: "string option \<Rightarrow> group_by option" where
  "as_group_by v = List.find (\<lambda>g. Some (group_name g) = v) GROUP_BYS"

definition isFilterKey :: "string \<Rightarrow> bool" where
  "isFilterKey k \<longleftrightarrow> take (length FILTER_PREFIX) k = FILTER_PREFIX"

definition nonempty :: "string option \<Rightarrow> string option" where
  "nonempty x = (if truthy x then x else None)"

definition add_filter :: "(string, string list) js_map \<Rightarrow> string \<times> string \<Rightarrow> (string, string list) js_map" where
  "add_filter fs kv =
    (let (key, value) = kv in
     if \<not> isFilterKey key \<or> value = [] then fs
     else (let name = drop (length FILTER_PREFIX) key; values = filter (\<lambda>v. v \<noteq> []) (split_comma value) in
       if values \<noteq> [] then js_set name values fs else fs))"

definition parseViewState :: "params \<Rightarrow> view_state" where
  "parseViewState ps =
    \<lparr>vs_view = (case as_view_kind (usp_get ps ''view'') of None \<Rightarrow> vs_view DEFAULT_VIEW_STATE | Some v \<Rightarrow> v),
     vs_group = (case as_group_by (usp_get ps ''group'') of None \<Rightarrow> vs_group DEFAULT_VIEW_STATE | Some g \<Rightarrow> g),
     vs_sort = nonempty (usp_get ps ''sort''),
     vs_filters = foldl add_filter [] ps,
     vs_task = nonempty (usp_get ps ''task'')\<rparr>"

definition owned :: "string \<Rightarrow> bool" where
  "owned k \<longleftrightarrow> k \<in> set KNOWN_KEYS \<or> isFilterKey k"

definition drop_owned :: "params \<Rightarrow> params" where
  "drop_owned ps = fold (\<lambda>k qs. if owned k then usp_delete k qs else qs) (map fst ps) ps"

definition set_if :: "bool \<Rightarrow> string \<Rightarrow> string \<Rightarrow> params \<Rightarrow> params" where
  "set_if b k v ps = (if b then usp_set k v ps else ps)"

definition set_filter :: "params \<Rightarrow> string \<times> string list \<Rightarrow> params" where
  "set_filter ps nv = (let (name, values) = nv in set_if (values \<noteq> []) (FILTER_PREFIX @ name) (join_comma values) ps)"

definition value_or_empty :: "string option \<Rightarrow> string" where
  "value_or_empty x = (case x of None \<Rightarrow> [] | Some s \<Rightarrow> s)"

definition serializeViewState :: "view_state \<Rightarrow> params \<Rightarrow> params" where
  "serializeViewState s base =
    (let p0 = drop_owned base;
         p1 = set_if (vs_view s \<noteq> vs_view DEFAULT_VIEW_STATE) ''view'' (view_name (vs_view s)) p0;
         p2 = set_if (vs_group s \<noteq> vs_group DEFAULT_VIEW_STATE) ''group'' (group_name (vs_group s)) p1;
         p3 = set_if (truthy (vs_sort s)) ''sort'' (value_or_empty (vs_sort s)) p2;
         p4 = foldl set_filter p3 (vs_filters s)
     in set_if (truthy (vs_task s)) ''task'' (value_or_empty (vs_task s)) p4)"

section \<open>One parameter\<close>

text \<open>
  \<open>useSearchParam\<close>: the value of one parameter under a parser, and setting it; the search a set
  starts from is the latest one, not the rendered one. \<open>None\<close> of the second: nothing to navigate to.
\<close>

definition oneOf :: "string list \<Rightarrow> string \<Rightarrow> string option" where
  "oneOf values raw = (if raw \<in> set values then Some raw else None)"

definition param_value :: "(string \<Rightarrow> string option) \<Rightarrow> string \<Rightarrow> params \<Rightarrow> string option" where
  "param_value parse name search = Option.bind (usp_get search name) parse"

definition setValue :: "string \<Rightarrow> string option \<Rightarrow> params \<Rightarrow> params option" where
  "setValue name v search =
    (if usp_get search name = v then None
     else Some (case v of None \<Rightarrow> usp_delete name search | Some x \<Rightarrow> usp_set name x search))"

lemma usp_get_delete: "usp_get (usp_delete k ps) k' = (if k' = k then None else usp_get ps k')"
  by (induction ps) (auto simp: usp_get_def usp_delete_def)

lemma usp_get_set: "usp_get (usp_set k v ps) k' = (if k' = k then Some v else usp_get ps k')"
  using usp_get_delete by (induction k v ps rule: usp_set.induct) (auto simp: usp_get_def)

interpretation search_params: keyed_store usp_get usp_set usp_delete
  by unfold_locales (simp_all add: usp_get_set usp_get_delete)

lemma setValue_others:
  assumes "setValue name v search = Some search'"
  shows "usp_get search' name = v" "k \<noteq> name \<Longrightarrow> usp_get search' k = usp_get search k"
  using assms search_params.get_put_same search_params.get_put_other search_params.get_del
  by (auto simp: setValue_def split: if_splits option.splits)

section \<open>Reading what was written\<close>

definition view_ok :: "view_state \<Rightarrow> bool" where
  "view_ok s \<longleftrightarrow> vs_sort s \<noteq> Some [] \<and> vs_task s \<noteq> Some [] \<and> distinct (map fst (vs_filters s)) \<and>
    (\<forall>nv\<in>set (vs_filters s). snd nv \<noteq> [] \<and> (\<forall>x\<in>set (snd nv). x \<noteq> [] \<and> CHR '','' \<notin> set x))"

lemma fold_delete_owned:
  "fold (\<lambda>k qs. if owned k then usp_delete k qs else qs) ks qs =
    filter (\<lambda>(k, _). \<not> (owned k \<and> k \<in> set ks)) qs"
proof (induction ks arbitrary: qs)
  case Nil
  show ?case by (simp add: case_prod_beta')
next
  case (Cons a ks)
  show ?case by (auto simp: Cons.IH usp_delete_def intro!: filter_cong)
qed

lemma drop_owned_filter: "drop_owned ps = filter (\<lambda>(k, _). \<not> owned k) ps"
  unfolding drop_owned_def fold_delete_owned by (intro filter_cong) (auto simp: image_iff intro: rev_bexI)

lemma filter_key [simp]: "isFilterKey (FILTER_PREFIX @ n)"
  by (simp add: isFilterKey_def)

lemma known_not_filter [simp]:
  "\<not> isFilterKey ''view''" "\<not> isFilterKey ''group''" "\<not> isFilterKey ''sort''" "\<not> isFilterKey ''task''"
  by (simp_all add: isFilterKey_def FILTER_PREFIX_def)

lemma known_owned [simp]: "owned ''view''" "owned ''group''" "owned ''sort''" "owned ''task''" "owned (FILTER_PREFIX @ n)"
  by (simp_all add: owned_def KNOWN_KEYS_def)

definition opt_param :: "bool \<Rightarrow> string \<Rightarrow> string \<Rightarrow> params" where
  "opt_param b k v = (if b then [(k, v)] else [])"

lemma set_if_new: "k \<notin> fst ` set ps \<Longrightarrow> set_if b k v ps = ps @ opt_param b k v"
  by (simp add: set_if_def opt_param_def usp_set_new)

definition filter_params :: "(string, string list) js_map \<Rightarrow> params" where
  "filter_params fs = map (\<lambda>(n, vs). (FILTER_PREFIX @ n, join_comma vs)) fs"

lemma set_filters:
  assumes "distinct (map fst fs)" and "\<forall>nv\<in>set fs. snd nv \<noteq> []" and "\<forall>k\<in>fst ` set ps. \<forall>n\<in>fst ` set fs. k \<noteq> FILTER_PREFIX @ n"
  shows "foldl set_filter ps fs = ps @ filter_params fs"
  using assms
proof (induction fs arbitrary: ps)
  case Nil
  show ?case by (simp add: filter_params_def)
next
  case (Cons nv fs)
  obtain n vs where nv: "nv = (n, vs)" by (cases nv)
  have "FILTER_PREFIX @ n \<notin> fst ` set ps" using Cons.prems(3) nv by auto
  then have "set_filter ps nv = ps @ [(FILTER_PREFIX @ n, join_comma vs)]"
    using Cons.prems(2) nv by (simp add: set_filter_def set_if_def usp_set_new)
  moreover have "foldl set_filter (ps @ [(FILTER_PREFIX @ n, join_comma vs)]) fs =
      (ps @ [(FILTER_PREFIX @ n, join_comma vs)]) @ filter_params fs"
    by (rule Cons.IH) (use Cons.prems nv in \<open>auto\<close>)
  ultimately show ?case using nv by (simp add: filter_params_def)
qed

lemma keys_unowned: "owned k \<Longrightarrow> k \<notin> fst ` set (filter (\<lambda>(k, _). \<not> owned k) base)"
  by auto

lemma keys_other: "k \<noteq> k' \<Longrightarrow> k \<notin> fst ` set (opt_param b k' v)"
  by (cases b) (simp_all add: opt_param_def)

lemma serialize_parts:
  assumes "view_ok s"
  shows "serializeViewState s base =
    filter (\<lambda>(k, _). \<not> owned k) base @
    opt_param (vs_view s \<noteq> BoardView) ''view'' (view_name (vs_view s)) @
    opt_param (vs_group s \<noteq> GroupStatus) ''group'' (group_name (vs_group s)) @
    opt_param (truthy (vs_sort s)) ''sort'' (value_or_empty (vs_sort s)) @
    filter_params (vs_filters s) @
    opt_param (truthy (vs_task s)) ''task'' (value_or_empty (vs_task s))"
proof -
  let ?B = "filter (\<lambda>(k, _). \<not> owned k) base"
  let ?V = "opt_param (vs_view s \<noteq> BoardView) ''view'' (view_name (vs_view s))"
  let ?G = "opt_param (vs_group s \<noteq> GroupStatus) ''group'' (group_name (vs_group s))"
  let ?S = "opt_param (truthy (vs_sort s)) ''sort'' (value_or_empty (vs_sort s))"
  let ?p1 = "?B @ ?V" and ?p2 = "?B @ ?V @ ?G" and ?p3 = "?B @ ?V @ ?G @ ?S"
  note new_key = keys_unowned keys_other
  have new: "''view'' \<notin> fst ` set ?B" "''group'' \<notin> fst ` set ?p1" "''sort'' \<notin> fst ` set ?p2"
    "''task'' \<notin> fst ` set ?p3"
    unfolding set_append image_Un Un_iff de_Morgan_disj by (intro conjI new_key; simp)+
  have names: "FILTER_PREFIX @ n \<notin> fst ` set ?p3" for n
    unfolding set_append image_Un Un_iff de_Morgan_disj by (intro conjI new_key; simp add: FILTER_PREFIX_def owned_def isFilterKey_def)
  have F: "foldl set_filter ?p3 (vs_filters s) = ?p3 @ filter_params (vs_filters s)"
  proof (rule set_filters)
    show "\<forall>k\<in>fst ` set ?p3. \<forall>n\<in>fst ` set (vs_filters s). k \<noteq> FILTER_PREFIX @ n" using names by metis
  qed (use assms in \<open>simp_all add: view_ok_def\<close>)
  have "''task'' \<notin> fst ` set (filter_params (vs_filters s))"
    by (auto simp: filter_params_def FILTER_PREFIX_def)
  then have T: "''task'' \<notin> fst ` set (?p3 @ filter_params (vs_filters s))"
    using new(4) unfolding set_append image_Un Un_iff by blast
  have "serializeViewState s base = (?p3 @ filter_params (vs_filters s)) @
      opt_param (truthy (vs_task s)) ''task'' (value_or_empty (vs_task s))"
    unfolding serializeViewState_def Let_def drop_owned_filter DEFAULT_VIEW_STATE_def view_state.simps
      set_if_new [OF new(1)] append_assoc set_if_new [OF new(2), unfolded append_assoc]
      set_if_new [OF new(3), unfolded append_assoc] F set_if_new [OF T, unfolded append_assoc] ..
  then show ?thesis by simp
qed

lemma js_set_new: "k \<notin> fst ` set m \<Longrightarrow> js_set k v m = m @ [(k, v)]"
  unfolding js_set_def by (induction m) auto

lemma add_filters_skip: "\<forall>kv\<in>set ps. \<not> isFilterKey (fst kv) \<Longrightarrow> foldl add_filter fs ps = fs"
  by (induction ps arbitrary: fs) (auto simp: add_filter_def Let_def)

lemma add_filter_param:
  assumes "vs \<noteq> []" and "\<forall>x\<in>set vs. x \<noteq> [] \<and> CHR '','' \<notin> set x" and "n \<notin> fst ` set fs"
  shows "add_filter fs (FILTER_PREFIX @ n, join_comma vs) = fs @ [(n, vs)]"
proof -
  have "filter (\<lambda>v. v \<noteq> []) (split_comma (join_comma vs)) = vs"
    using assms split_join [of vs] by (auto simp: filter_id_conv)
  moreover have "join_comma vs \<noteq> []" using assms join_nonempty by blast
  ultimately show ?thesis using assms by (simp add: add_filter_def Let_def js_set_new)
qed

lemma add_filter_params:
  assumes "distinct (map fst (acc @ fs))"
    and "\<forall>nv\<in>set fs. snd nv \<noteq> [] \<and> (\<forall>x\<in>set (snd nv). x \<noteq> [] \<and> CHR '','' \<notin> set x)"
  shows "foldl add_filter acc (filter_params fs) = acc @ fs"
  using assms
proof (induction fs arbitrary: acc)
  case Nil
  show ?case by (simp add: filter_params_def)
next
  case (Cons nv fs)
  obtain n vs where nv: "nv = (n, vs)" by (cases nv)
  have "add_filter acc (FILTER_PREFIX @ n, join_comma vs) = acc @ [(n, vs)]"
    using Cons.prems nv by (intro add_filter_param) auto
  moreover have "foldl add_filter (acc @ [(n, vs)]) (filter_params fs) = (acc @ [(n, vs)]) @ fs"
    using Cons.prems nv by (intro Cons.IH) auto
  ultimately show ?case using nv by (simp add: filter_params_def)
qed

lemma get_parts:
  "usp_get (ps @ qs) k = (case usp_get ps k of None \<Rightarrow> usp_get qs k | Some v \<Rightarrow> Some v)"
  "usp_get (opt_param b k' v) k = (if b \<and> k = k' then Some v else None)"
  by (auto simp: usp_get_def opt_param_def map_add_def split: option.splits)

lemma get_other_parts:
  assumes "k \<in> set KNOWN_KEYS"
  shows "usp_get (filter (\<lambda>(k, _). \<not> owned k) base) k = None" "usp_get (filter_params fs) k = None"
proof -
  show "usp_get (filter (\<lambda>(k, _). \<not> owned k) base) k = None"
    using assms by (auto simp: usp_get_def map_of_eq_None_iff owned_def)
  have "\<not> isFilterKey k" using assms by (auto simp: KNOWN_KEYS_def)
  then have "k \<notin> fst ` set (filter_params fs)" by (auto simp: filter_params_def)
  then show "usp_get (filter_params fs) k = None" by (simp add: usp_get_def map_of_eq_None_iff)
qed

lemma find_kind: "as_view_kind (if v \<noteq> BoardView then Some (view_name v) else None) = (if v \<noteq> BoardView then Some v else None)"
  by (cases v) (simp_all add: as_view_kind_def VIEW_KINDS_def)

lemma find_group: "as_group_by (if g \<noteq> GroupStatus then Some (group_name g) else None) = (if g \<noteq> GroupStatus then Some g else None)"
  by (cases g) (simp_all add: as_group_by_def GROUP_BYS_def)

lemma nonempty_value: "x \<noteq> Some [] \<Longrightarrow> nonempty (if truthy x then Some (value_or_empty x) else None) = x"
  by (cases x) (simp_all add: nonempty_def value_or_empty_def)

lemma parse_serialize:
  assumes "view_ok s"
  shows "parseViewState (serializeViewState s base) = s"
proof -
  let ?B = "filter (\<lambda>(k, _). \<not> owned k) base"
  let ?V = "opt_param (vs_view s \<noteq> BoardView) ''view'' (view_name (vs_view s))"
  let ?G = "opt_param (vs_group s \<noteq> GroupStatus) ''group'' (group_name (vs_group s))"
  let ?S = "opt_param (truthy (vs_sort s)) ''sort'' (value_or_empty (vs_sort s))"
  let ?T = "opt_param (truthy (vs_task s)) ''task'' (value_or_empty (vs_task s))"
  let ?ps = "?B @ ?V @ ?G @ ?S @ filter_params (vs_filters s) @ ?T"
  have known: "''view'' \<in> set KNOWN_KEYS" "''group'' \<in> set KNOWN_KEYS" "''sort'' \<in> set KNOWN_KEYS" "''task'' \<in> set KNOWN_KEYS"
    by (simp_all add: KNOWN_KEYS_def)
  have get: "usp_get ?ps ''view'' = (if vs_view s \<noteq> BoardView then Some (view_name (vs_view s)) else None)"
    "usp_get ?ps ''group'' = (if vs_group s \<noteq> GroupStatus then Some (group_name (vs_group s)) else None)"
    "usp_get ?ps ''sort'' = (if truthy (vs_sort s) then Some (value_or_empty (vs_sort s)) else None)"
    "usp_get ?ps ''task'' = (if truthy (vs_task s) then Some (value_or_empty (vs_task s)) else None)"
    by (simp_all add: get_parts get_other_parts known)
  have "foldl add_filter [] (?B @ ?V @ ?G @ ?S) = []"
    by (rule add_filters_skip) (auto simp: opt_param_def owned_def split: if_splits)
  moreover have "foldl add_filter [] (filter_params (vs_filters s)) = vs_filters s"
    using assms add_filter_params [of "[]" "vs_filters s"] by (simp add: view_ok_def)
  moreover have "foldl add_filter fs ?T = fs" for fs
    by (rule add_filters_skip) (simp add: opt_param_def)
  ultimately have filters: "foldl add_filter [] ?ps = vs_filters s" by (simp only: foldl_append)
  have texts: "vs_sort s \<noteq> Some []" "vs_task s \<noteq> Some []" using assms unfolding view_ok_def by blast+
  have "(case as_view_kind (usp_get ?ps ''view'') of None \<Rightarrow> vs_view DEFAULT_VIEW_STATE | Some v \<Rightarrow> v) = vs_view s"
    unfolding get find_kind by (simp add: DEFAULT_VIEW_STATE_def)
  moreover have "(case as_group_by (usp_get ?ps ''group'') of None \<Rightarrow> vs_group DEFAULT_VIEW_STATE | Some g \<Rightarrow> g) = vs_group s"
    unfolding get find_group by (simp add: DEFAULT_VIEW_STATE_def)
  moreover have "nonempty (usp_get ?ps ''sort'') = vs_sort s" "nonempty (usp_get ?ps ''task'') = vs_task s"
    unfolding get nonempty_value [OF texts(1)] nonempty_value [OF texts(2)] by (rule refl)+
  ultimately have "parseViewState ?ps = \<lparr>vs_view = vs_view s, vs_group = vs_group s, vs_sort = vs_sort s,
      vs_filters = vs_filters s, vs_task = vs_task s\<rparr>"
    unfolding parseViewState_def filters by (simp only:)
  then show ?thesis unfolding serialize_parts [OF assms] by (cases s) (simp only: view_state.simps)
qed

section \<open>What is read is well-formed\<close>

lemma split_no_comma: "x \<in> set (split_comma s) \<Longrightarrow> CHR '','' \<notin> set x"
proof (induction s arbitrary: x)
  case (Cons c cs)
  then show ?case by (cases "split_comma cs") (auto split: if_splits)
qed simp

definition filters_ok :: "(string, string list) js_map \<Rightarrow> bool" where
  "filters_ok fs \<longleftrightarrow> distinct (map fst fs) \<and>
    (\<forall>nv\<in>set fs. snd nv \<noteq> [] \<and> (\<forall>x\<in>set (snd nv). x \<noteq> [] \<and> CHR '','' \<notin> set x))"

lemma add_filter_ok: "filters_ok fs \<Longrightarrow> filters_ok (add_filter fs kv)"
proof -
  assume fs: "filters_ok fs"
  obtain k v where kv: "kv = (k, v)" by (cases kv)
  let ?n = "drop (length FILTER_PREFIX) k" and ?vs = "filter (\<lambda>v. v \<noteq> []) (split_comma v)"
  have vs: "\<forall>x\<in>set ?vs. x \<noteq> [] \<and> CHR '','' \<notin> set x" using split_no_comma by auto
  have "filters_ok (js_set ?n ?vs fs)" if "?vs \<noteq> []"
  proof -
    have "distinct (map fst (js_set ?n ?vs fs))"
      using fs js.distinct_put [of fs ?n ?vs] by (simp add: filters_ok_def js_keys_def)
    moreover have "nv = (?n, ?vs) \<or> nv \<in> set fs" if "nv \<in> set (js_set ?n ?vs fs)" for nv
      using that set_js_set [of ?n ?vs fs] by blast
    moreover have "snd nv \<noteq> [] \<and> (\<forall>x\<in>set (snd nv). x \<noteq> [] \<and> CHR '','' \<notin> set x)"
      if "nv = (?n, ?vs) \<or> nv \<in> set fs" for nv
      using that
    proof
      assume "nv = (?n, ?vs)"
      then show ?thesis using vs \<open>?vs \<noteq> []\<close> by (simp only: snd_conv) blast
    next
      assume "nv \<in> set fs"
      then show ?thesis using fs unfolding filters_ok_def by blast
    qed
    ultimately show ?thesis unfolding filters_ok_def by blast
  qed
  then show ?thesis using fs kv by (simp add: add_filter_def Let_def)
qed

lemma nonempty_not_empty: "nonempty x \<noteq> Some []"
  by (cases x) (simp_all add: nonempty_def)

lemma add_filters_ok: "filters_ok fs \<Longrightarrow> filters_ok (foldl add_filter fs ps)"
  by (induction ps arbitrary: fs) (simp_all only: foldl.simps add_filter_ok)

lemma parse_ok: "view_ok (parseViewState ps)"
proof -
  have "filters_ok (foldl add_filter [] ps)" by (rule add_filters_ok) (simp add: filters_ok_def)
  then show ?thesis
    unfolding view_ok_def filters_ok_def parseViewState_def view_state.simps by (intro conjI nonempty_not_empty; elim conjE)
qed

section \<open>Properties\<close>

text \<open>
  C28: The view survives the URL: what was read from a link is well-formed, a well-formed view
  written over any search and read back is the same view (kind, grouping, sort, filters in their
  order, open task), and every parameter that is not the view's stays as it was.
\<close>

theorem view_state_round_trip:
  assumes "view_ok s"
  shows "parseViewState (serializeViewState s base) = s \<and>
    filter (\<lambda>(k, _). \<not> owned k) (serializeViewState s base) = filter (\<lambda>(k, _). \<not> owned k) base \<and>
    view_ok (parseViewState base)"
proof (intro conjI)
  show "filter (\<lambda>(k, _). \<not> owned k) (serializeViewState s base) = filter (\<lambda>(k, _). \<not> owned k) base"
    unfolding serialize_parts [OF assms] by (auto simp: opt_param_def filter_params_def filter_empty_conv)
qed (use assms parse_serialize parse_ok in blast)+

theorem view_state_round_trip_witness:
  "parseViewState (serializeViewState \<lparr>vs_view = TableView, vs_group = GroupNone, vs_sort = Some ''-due'',
      vs_filters = [(''assignee'', [''me'', ''you''])], vs_task = None\<rparr> [(''x'', ''1''), (''task'', ''T'')]) =
    \<lparr>vs_view = TableView, vs_group = GroupNone, vs_sort = Some ''-due'',
      vs_filters = [(''assignee'', [''me'', ''you''])], vs_task = None\<rparr>"
  using view_state_round_trip [of "\<lparr>vs_view = TableView, vs_group = GroupNone, vs_sort = Some ''-due'',
      vs_filters = [(''assignee'', [''me'', ''you''])], vs_task = None\<rparr>" "[(''x'', ''1''), (''task'', ''T'')]"]
  by (simp add: view_ok_def)

end
