(* ===== verification/Inbox_Screen.thy ===== *)
theory Inbox_Screen
  imports Inbox_Grouping View_State
begin

text \<open>
  The Inbox page (\<open>pages/Inbox/Inbox.tsx\<close>, \<open>ui/InboxList.tsx\<close>, \<open>ui/InboxRow.tsx\<close>,
  \<open>hooks/useRegisterKeyboardHandlers.ts\<close>, \<open>utils/constants.ts\<close>): what is on screen, where the cursor is, and what the
  hotkeys and a row's actions call; and the inbox's own subscription (\<open>shared/inbox/useInboxRealtime.ts\<close>). The
  queries' answers come with a render; what the actions do to the cache is \<open>Inbox_Cache\<close>.
\<close>

section \<open>The views\<close>

fun view_key :: "inbox_view \<Rightarrow> string" where
  "view_key ViewAll = ''all''"
| "view_key ViewUnread = ''unread''"
| "view_key ViewArchived = ''archived''"

definition VIEW_OPTIONS :: "inbox_view list" where
  "VIEW_OPTIONS = [ViewAll, ViewUnread, ViewArchived]"

fun VIEW_KEYS :: "inbox_view \<Rightarrow> string" where
  "VIEW_KEYS ViewAll = ''g>a''"
| "VIEW_KEYS ViewUnread = ''g>u''"
| "VIEW_KEYS ViewArchived = ''g>e''"

definition viewValidation :: "string \<Rightarrow> inbox_view option" where
  "viewValidation v = (case oneOf (map view_key VIEW_OPTIONS) v of Some w \<Rightarrow> find (\<lambda>x. view_key x = w) VIEW_OPTIONS | None \<Rightarrow> None)"

section \<open>What the page shows\<close>

text \<open>What the hook's queries answer at a render.\<close>

record inbox_queries =
  iq_notifications :: "notification list"
  iq_firstLoading :: bool
  iq_error :: bool
  iq_pinned :: "notification list option"
  iq_pinnedLoading :: bool
  iq_pinnedError :: bool

definition currentView :: "inbox_view option \<Rightarrow> inbox_view" where
  "currentView v = (case v of Some x \<Rightarrow> x | None \<Rightarrow> ViewAll)"

definition pinned_of :: "inbox_view option \<Rightarrow> inbox_queries \<Rightarrow> notification list" where
  "pinned_of v q = (if v = Some ViewArchived then [] else (case iq_pinned q of Some ns \<Rightarrow> ns | None \<Rightarrow> []))"

definition isPinnedError :: "inbox_view option \<Rightarrow> inbox_queries \<Rightarrow> bool" where
  "isPinnedError v q \<longleftrightarrow> v \<noteq> Some ViewArchived \<and> iq_pinnedError q \<and> iq_pinned q = None"

definition feed_of :: "inbox_view option \<Rightarrow> inbox_queries \<Rightarrow> notification list" where
  "feed_of v q = filter (\<lambda>n. nt_id n \<notin> nt_id ` set (pinned_of v q)) (iq_notifications q)"

definition visible_of :: "inbox_view option \<Rightarrow> inbox_queries \<Rightarrow> notification list" where
  "visible_of v q = pinned_of v q @ feed_of v q"

definition entries_of :: "calendar \<Rightarrow> (string \<Rightarrow> int) \<Rightarrow> int \<Rightarrow> int \<Rightarrow> inbox_view option \<Rightarrow> inbox_queries \<Rightarrow> inbox_entry list" where
  "entries_of c ms now weekStart v q =
    groupEntries c ms (feed_of v q) (currentView v) now weekStart (pinned_of v q) (isPinnedError v q)"

datatype inbox_content = ContentSkeleton | ContentError | ContentErrorList | ContentEmpty inbox_view | ContentList

definition content_of :: "inbox_view option \<Rightarrow> inbox_queries \<Rightarrow> inbox_content" where
  "content_of v q =
    (let listFailed = iq_error q \<and> iq_notifications q = [] in
     if iq_firstLoading q \<or> iq_pinnedLoading q then ContentSkeleton
     else if listFailed \<and> pinned_of v q = [] then ContentError
     else if listFailed then ContentErrorList
     else if visible_of v q = [] \<and> \<not> isPinnedError v q then ContentEmpty (currentView v)
     else ContentList)"

definition list_shown :: "inbox_content \<Rightarrow> bool" where
  "list_shown c \<longleftrightarrow> c = ContentErrorList \<or> c = ContentList"

section \<open>The cursor of the list\<close>

text \<open>\<open>InboxList\<close>: the rows the cursor walks, headers left out.\<close>

definition items_in :: "inbox_entry list \<Rightarrow> notification list" where
  "items_in es = concat (map (\<lambda>e. case e of EntryRow n \<Rightarrow> [n] | _ \<Rightarrow> []) es)"

definition cursor_layout :: "notification list \<Rightarrow> string option \<Rightarrow> string option" where
  "cursor_layout items cursor =
    (if \<exists>n\<in>set items. Some (nt_id n) = cursor then cursor
     else (case items of [] \<Rightarrow> None | n # _ \<Rightarrow> Some (nt_id n)))"

definition move_cursor :: "int \<Rightarrow> notification list \<Rightarrow> string option \<Rightarrow> string option" where
  "move_cursor delta items cursor =
    (let index = (case find_index (\<lambda>n. Some (nt_id n) = cursor) items of Some k \<Rightarrow> int k | None \<Rightarrow> - 1);
         target = min (max (index + delta) 0) (int (length items) - 1)
     in if 0 \<le> target then Some (nt_id (items ! nat target)) else cursor)"

definition list_keydown :: "string \<Rightarrow> bool \<Rightarrow> notification list \<Rightarrow> string option \<Rightarrow> string option" where
  "list_keydown key modified items cursor =
    (if modified then cursor
     else if key = ''Home'' then move_cursor (- int (length items)) items cursor
     else if key = ''End'' then move_cursor (int (length items)) items cursor
     else cursor)"

definition ROW_ID_PREFIX :: string where
  "ROW_ID_PREFIX = ''inbox-row-''"

definition inboxRowId :: "string \<Rightarrow> string" where
  "inboxRowId i = ROW_ID_PREFIX @ i"

definition row_pressed :: "string option \<Rightarrow> string option \<Rightarrow> string option" where
  "row_pressed domId cursor =
    (case domId of
      Some d \<Rightarrow> if take (length ROW_ID_PREFIX) d = ROW_ID_PREFIX then Some (drop (length ROW_ID_PREFIX) d) else cursor
    | None \<Rightarrow> cursor)"

section \<open>The page\<close>

datatype inbox_effect =
  ReadAllCalled
| MarkRead "string list"
| MarkUnread "string list"
| ArchiveCalled notification
| UnarchiveCalled notification
| ViewSet inbox_view

record inbox_page =
  ip_view :: "inbox_view option"
  ip_queries :: inbox_queries
  ip_cursor :: "string option"

definition ip_visible :: "inbox_page \<Rightarrow> notification list" where
  "ip_visible s = visible_of (ip_view s) (ip_queries s)"

definition archive_row :: "notification \<Rightarrow> inbox_page \<Rightarrow> inbox_page \<times> inbox_effect list" where
  "archive_row n s = (s\<lparr>ip_cursor := stepCursorOff (ip_visible s) nt_id (nt_id n) (ip_cursor s)\<rparr>, [ArchiveCalled n])"

definition unarchive_row :: "notification \<Rightarrow> inbox_page \<Rightarrow> inbox_page \<times> inbox_effect list" where
  "unarchive_row n s = (s\<lparr>ip_cursor := stepCursorOff (ip_visible s) nt_id (nt_id n) (ip_cursor s)\<rparr>, [UnarchiveCalled n])"

definition readAllDisabled :: "inbox_page \<Rightarrow> bool" where
  "readAllDisabled s \<longleftrightarrow> currentView (ip_view s) = ViewArchived"

definition highlighted :: "inbox_page \<Rightarrow> notification option" where
  "highlighted s = find (\<lambda>n. Some (nt_id n) = ip_cursor s) (ip_visible s)"

datatype inbox_hotkey = KeyReadAll | KeyRead | KeyArchive | KeyGo inbox_view

definition inbox_hotkey :: "inbox_hotkey \<Rightarrow> inbox_page \<Rightarrow> inbox_page \<times> inbox_effect list" where
  "inbox_hotkey k s =
    (case k of
      KeyReadAll \<Rightarrow> (s, if readAllDisabled s then [] else [ReadAllCalled])
    | KeyRead \<Rightarrow>
        (case highlighted s of
          Some n \<Rightarrow> (s, [if truthy (nt_readAt n) then MarkUnread [nt_id n] else MarkRead [nt_id n]])
        | None \<Rightarrow> (s, []))
    | KeyArchive \<Rightarrow>
        (case highlighted s of
          Some n \<Rightarrow> if truthy (nt_archivedAt n) then unarchive_row n s else archive_row n s
        | None \<Rightarrow> (s, []))
    | KeyGo v \<Rightarrow> (s, [ViewSet v]))"

text \<open>The actions a row offers: read or unread, archive or back.\<close>

datatype row_action = RowRead | RowArchive

definition row_action :: "row_action \<Rightarrow> notification \<Rightarrow> inbox_page \<Rightarrow> inbox_page \<times> inbox_effect list" where
  "row_action a n s =
    (case a of
      RowRead \<Rightarrow> (s, [if truthy (nt_readAt n) then MarkUnread [nt_id n] else MarkRead [nt_id n]])
    | RowArchive \<Rightarrow> if truthy (nt_archivedAt n) then unarchive_row n s else archive_row n s)"

text \<open>
  A render and its effects. The list's layout effect runs first; a change of the view then clears the cursor, and
  the render this causes runs the layout effect again.
\<close>

definition page_rendered :: "inbox_view option \<Rightarrow> inbox_queries \<Rightarrow> inbox_page \<Rightarrow> inbox_page" where
  "page_rendered v q s =
    (let shown = list_shown (content_of v q);
         layout = (\<lambda>c. if shown then cursor_layout (visible_of v q) c else c);
         c1 = layout (ip_cursor s);
         c2 = (if v \<noteq> ip_view s then layout None else c1)
     in \<lparr>ip_view = v, ip_queries = q, ip_cursor = c2\<rparr>)"

datatype page_event =
  PageRendered "inbox_view option" inbox_queries
| HotkeyPressed inbox_hotkey
| RowAction row_action notification
| CursorMoved int
| ListKey string bool
| RowPressed "string option"

text \<open>The list reads the cursor from its store: a change renders the list again, and its layout effect runs.\<close>

definition cursor_seen :: "inbox_page \<Rightarrow> inbox_page \<Rightarrow> inbox_page" where
  "cursor_seen s s' =
    (if ip_cursor s' \<noteq> ip_cursor s \<and> list_shown (content_of (ip_view s') (ip_queries s'))
     then s'\<lparr>ip_cursor := cursor_layout (ip_visible s') (ip_cursor s')\<rparr> else s')"

text \<open>The cursor's own keys are registered by the list: they are there while it is shown.\<close>

definition handle_event :: "inbox_page \<Rightarrow> page_event \<Rightarrow> inbox_page \<times> inbox_effect list" where
  "handle_event s e =
    (let shown = list_shown (content_of (ip_view s) (ip_queries s)) in
     case e of
       PageRendered v q \<Rightarrow> (page_rendered v q s, [])
     | HotkeyPressed k \<Rightarrow> inbox_hotkey k s
     | RowAction a n \<Rightarrow> row_action a n s
     | CursorMoved d \<Rightarrow> (if shown then s\<lparr>ip_cursor := move_cursor d (ip_visible s) (ip_cursor s)\<rparr> else s, [])
     | ListKey key modified \<Rightarrow>
         (if shown then s\<lparr>ip_cursor := list_keydown key modified (ip_visible s) (ip_cursor s)\<rparr> else s, [])
     | RowPressed domId \<Rightarrow> (if shown then s\<lparr>ip_cursor := row_pressed domId (ip_cursor s)\<rparr> else s, []))"

definition page_step :: "inbox_page \<Rightarrow> page_event \<Rightarrow> inbox_page \<times> inbox_effect list" where
  "page_step s e = (case handle_event s e of (s', effects) \<Rightarrow> (cursor_seen s s', effects))"

section \<open>The inbox's own subscription\<close>

text \<open>A rejoin refetches; the first join does not. The state is \<open>joinedBefore\<close>.\<close>

definition inbox_joined :: "bool \<Rightarrow> bool \<times> bool" where
  "inbox_joined joinedBefore = (True, joinedBefore)"

section \<open>The rows on screen are the rows acted on\<close>

lemma items_in_append [simp]: "items_in (xs @ ys) = items_in xs @ items_in ys"
  by (simp add: items_in_def)

lemma items_in_simps [simp]:
  "items_in [] = []" "items_in (EntryRow n # es) = n # items_in es" "items_in (EntryGroup g # es) = items_in es"
  "items_in (EntryPinnedError # es) = items_in es"
  by (simp_all add: items_in_def)

lemma items_in_rows [simp]: "items_in (map EntryRow ns) = ns"
  by (induction ns) simp_all

lemma items_in_groups [simp]: "items_in (group_rows g current ns) = ns"
  by (induction ns arbitrary: current) simp_all

lemma rows_on_screen: "items_in (entries_of c ms now weekStart v q) = visible_of v q"
  by (simp add: entries_of_def groupEntries_def visible_of_def)

definition ids_of :: "notification list \<Rightarrow> string list" where
  "ids_of ns = map nt_id ns"

lemma cursor_layout_on:
  "(case cursor_layout items c of Some i \<Rightarrow> i \<in> set (ids_of items) | None \<Rightarrow> items = [])"
  by (auto simp: cursor_layout_def ids_of_def split: list.split option.split)

lemma cursor_layout_same: "c \<in> Some ` set (ids_of items) \<Longrightarrow> cursor_layout items c = c"
  by (auto simp: cursor_layout_def ids_of_def)

lemma move_cursor_on: "items \<noteq> [] \<Longrightarrow> move_cursor d items c \<in> Some ` set (ids_of items)"
proof -
  assume "items \<noteq> []"
  let ?t = "min (max ((case find_index (\<lambda>n. Some (nt_id n) = c) items of Some k \<Rightarrow> int k | None \<Rightarrow> - 1) + d) 0) (int (length items) - 1)"
  have "0 < length items" using \<open>items \<noteq> []\<close> by simp
  then have t: "0 \<le> ?t" "?t < int (length items)" by linarith+
  then have "nat ?t < length items" by (simp only: nat_less_iff)
  with t show ?thesis by (simp add: move_cursor_def Let_def ids_of_def del: min_less_iff_disj)
qed

lemma inboxRowId_pressed [simp]: "row_pressed (Some (inboxRowId i)) c = Some i"
  by (simp add: row_pressed_def inboxRowId_def)

section \<open>The cursor stays on the screen\<close>

definition on_list :: "inbox_page \<Rightarrow> bool" where
  "on_list s \<longleftrightarrow> list_shown (content_of (ip_view s) (ip_queries s))"

definition page_ok :: "inbox_page \<Rightarrow> bool" where
  "page_ok s \<longleftrightarrow> (on_list s \<longrightarrow>
    (case ip_cursor s of Some i \<Rightarrow> i \<in> set (ids_of (ip_visible s)) | None \<Rightarrow> ip_visible s = []))"

lemma cursor_seen_ok:
  assumes "page_ok s" and "ip_view s' = ip_view s" and "ip_queries s' = ip_queries s"
  shows "page_ok (cursor_seen s s')"
  using assms cursor_layout_on [of "ip_visible s" "ip_cursor s'"]
  by (auto simp: cursor_seen_def page_ok_def on_list_def ip_visible_def split: option.splits)

lemma page_rendered_ok: "page_ok (page_rendered v q s)"
  using cursor_layout_on [of "visible_of v q" None] cursor_layout_on [of "visible_of v q" "ip_cursor s"]
  by (auto simp: page_rendered_def page_ok_def on_list_def ip_visible_def Let_def split: option.splits)

lemma cursor_seen_rendered: "cursor_seen s (page_rendered v q s) = page_rendered v q s"
proof -
  have "cursor_layout items (cursor_layout items c) = cursor_layout items c" for items c
    by (auto simp: cursor_layout_def split: list.split)
  then show ?thesis by (simp add: cursor_seen_def page_rendered_def Let_def ip_visible_def)
qed

lemma handle_event_view:
  "(\<And>v q. e \<noteq> PageRendered v q) \<Longrightarrow>
    ip_view (fst (handle_event s e)) = ip_view s \<and> ip_queries (fst (handle_event s e)) = ip_queries s"
  by (cases e) (auto simp: handle_event_def Let_def inbox_hotkey_def row_action_def archive_row_def unarchive_row_def
      split: inbox_hotkey.split option.split row_action.split)

lemma page_step_ok:
  assumes "page_ok s"
  shows "page_ok (fst (page_step s e))"
proof (cases "\<exists>v q. e = PageRendered v q")
  case True
  then show ?thesis by (auto simp: page_step_def handle_event_def Let_def cursor_seen_rendered page_rendered_ok)
next
  case False
  then have "ip_view (fst (handle_event s e)) = ip_view s \<and> ip_queries (fst (handle_event s e)) = ip_queries s"
    by (intro handle_event_view) blast
  then show ?thesis using cursor_seen_ok [OF assms] by (simp add: page_step_def split_beta)
qed

interpretation inbox_screen: event_machine "\<lambda>s e. fst (page_step s e)" "\<lambda>_ _. True" page_ok
  by unfold_locales (rule page_step_ok)

definition page_run :: "page_event list \<Rightarrow> inbox_page \<Rightarrow> inbox_page" where
  "page_run es s = foldl (\<lambda>s e. fst (page_step s e)) s es"

definition closed_page :: inbox_page where
  "closed_page = \<lparr>ip_view = None, ip_queries = \<lparr>iq_notifications = [], iq_firstLoading = True, iq_error = False, iq_pinned = None,
    iq_pinnedLoading = True, iq_pinnedError = False\<rparr>, ip_cursor = None\<rparr>"

lemma page_run_ok: "page_ok (page_run es closed_page)"
proof -
  have "admissible (\<lambda>s e. fst (page_step s e)) (\<lambda>_ _. True) s es" for s by (rule admissible_all)
  moreover have "page_ok closed_page"
    by (simp add: page_ok_def closed_page_def on_list_def content_of_def list_shown_def Let_def)
  ultimately show ?thesis unfolding page_run_def by (intro inbox_screen.run_inv)
qed

section \<open>The highlight keeps its place\<close>

lemma visible_distinct:
  assumes "distinct (ids_of (iq_notifications q))" and "distinct (ids_of (pinned_of v q))"
  shows "distinct (ids_of (visible_of v q))"
proof -
  have "distinct (ids_of (feed_of v q))" using assms(1) by (simp add: feed_of_def ids_of_def distinct_map_filter)
  moreover have "set (ids_of (pinned_of v q)) \<inter> set (ids_of (feed_of v q)) = {}"
    by (auto simp: feed_of_def ids_of_def) (metis imageI)
  ultimately show ?thesis using assms(2) by (simp add: visible_of_def ids_of_def)
qed

lemma find_at: "f x \<notin> f ` set xs \<Longrightarrow> find (\<lambda>y. Some (f y) = Some (f x)) (xs @ x # ys) = Some x"
  by (induction xs) auto

lemma find_index_at: "f x \<notin> f ` set xs \<Longrightarrow> find_index (\<lambda>y. f y = f x) (xs @ x # ys) = Some (length xs)"
  by (induction xs) auto

lemma neighbour_at:
  assumes "f x \<notin> f ` set xs" and "xs \<noteq> [] \<or> ys \<noteq> []"
  shows "neighbourOf (xs @ x # ys) f (f x) = Some (case ys of y # _ \<Rightarrow> y | [] \<Rightarrow> last xs)"
  using assms by (auto simp: neighbourOf_def find_index_at nth_append last_conv_nth split: list.split)

lemma archived_cursor:
  assumes "ip_visible s = before @ n # after" and "nt_id n \<notin> nt_id ` set before" and "ip_cursor s = Some (nt_id n)"
    and "before \<noteq> [] \<or> after \<noteq> []"
  shows "inbox_hotkey KeyArchive s =
    (s\<lparr>ip_cursor := Some (nt_id (case after of x # _ \<Rightarrow> x | [] \<Rightarrow> last before))\<rparr>,
     [if truthy (nt_archivedAt n) then UnarchiveCalled n else ArchiveCalled n])"
  using assms find_at [of nt_id n before after] neighbour_at [of nt_id n before after]
  by (simp add: inbox_hotkey_def highlighted_def archive_row_def unarchive_row_def stepCursorOff_def)

text \<open>
  C36: Archiving from the keyboard acts on the row on screen and keeps the place. When the list is shown with the
  cursor on one of several rows and the key archives it, the app archives exactly that row (or takes it back, if
  it was archived), and once it is gone from the list the cursor is on the row that stood after it, or before
  it if it was the last.
\<close>

theorem inbox_archive_keeps_place:
  assumes "distinct (ids_of (ip_visible s))" and "ip_visible s = before @ n # after" and "ip_cursor s = Some (nt_id n)"
    and "before \<noteq> [] \<or> after \<noteq> []"
    and "page_step s (HotkeyPressed KeyArchive) = (s1, effects)"
    and "visible_of (ip_view s) q = before @ after" and "list_shown (content_of (ip_view s) q)"
  shows "effects = [if truthy (nt_archivedAt n) then UnarchiveCalled n else ArchiveCalled n] \<and>
    ip_cursor (fst (page_step s1 (PageRendered (ip_view s) q))) =
      Some (nt_id (case after of x # _ \<Rightarrow> x | [] \<Rightarrow> last before))"
proof -
  let ?r = "case after of x # _ \<Rightarrow> x | [] \<Rightarrow> last before"
  have r: "?r \<in> set (before @ after)" using assms(4) by (auto split: list.split)
  then have on: "Some (nt_id ?r) \<in> Some ` set (ids_of (before @ after))" by (auto simp: ids_of_def)
  then have on_old: "Some (nt_id ?r) \<in> Some ` set (ids_of (ip_visible s))" using assms(2) by (auto simp: ids_of_def)
  have "nt_id n \<notin> nt_id ` set before" using assms(1,2) by (auto simp: ids_of_def)
  note key = archived_cursor [OF assms(2) this assms(3,4)]
  let ?s1 = "s\<lparr>ip_cursor := Some (nt_id ?r)\<rparr>"
  have "cursor_seen s ?s1 = ?s1"
    using cursor_layout_same [OF on_old] by (simp add: cursor_seen_def ip_visible_def)
  then have s1: "s1 = ?s1" "effects = [if truthy (nt_archivedAt n) then UnarchiveCalled n else ArchiveCalled n]"
    using assms(5) key by (simp_all add: page_step_def handle_event_def)
  have "ip_cursor (page_rendered (ip_view s) q s1) = Some (nt_id ?r)"
    using cursor_layout_same [OF on] assms(6,7) s1(1) by (simp add: page_rendered_def Let_def)
  then show ?thesis using s1(2) by (simp add: page_step_def handle_event_def cursor_seen_rendered)
qed

definition note_of :: "string \<Rightarrow> notification" where
  "note_of i = \<lparr>nt_id = i, nt_workspaceId = Some ''w'', nt_readAt = None, nt_archivedAt = None, nt_updatedAt = i, nt_payload = []\<rparr>"

definition answered :: "string list \<Rightarrow> inbox_queries" where
  "answered is = \<lparr>iq_notifications = map note_of is, iq_firstLoading = False, iq_error = False, iq_pinned = Some [],
    iq_pinnedLoading = False, iq_pinnedError = False\<rparr>"

definition on_middle :: inbox_page where
  "on_middle = page_run [PageRendered None (answered [''a'', ''b'', ''c'']), CursorMoved 1] closed_page"

lemma on_middle_eq: "on_middle = \<lparr>ip_view = None, ip_queries = answered [''a'', ''b'', ''c''], ip_cursor = Some ''b''\<rparr>"
  by code_simp

theorem inbox_archive_keeps_place_witness:
  "ip_cursor (fst (page_step (fst (page_step on_middle (HotkeyPressed KeyArchive))) (PageRendered None (answered [''a'', ''c''])))) =
    Some ''c''"
proof -
  have "ip_visible on_middle = [note_of ''a''] @ note_of ''b'' # [note_of ''c'']"
    "visible_of None (answered [''a'', ''c'']) = [note_of ''a''] @ [note_of ''c'']"
    "list_shown (content_of None (answered [''a'', ''c'']))"
    by (simp_all add: on_middle_eq ip_visible_def answered_def visible_of_def feed_of_def pinned_of_def content_of_def list_shown_def Let_def)
  then show ?thesis
    using inbox_archive_keeps_place [of on_middle "[note_of ''a'']" "note_of ''b''" "[note_of ''c'']"
        "fst (page_step on_middle (HotkeyPressed KeyArchive))" "snd (page_step on_middle (HotkeyPressed KeyArchive))" "answered [''a'', ''c'']"]
    by (simp add: on_middle_eq ids_of_def note_of_def)
qed

text \<open>The list's cursor is always on one of its rows, and a key acts on that row alone.\<close>

lemma cursor_on_screen:
  assumes "on_list (page_run es closed_page)" and "ip_visible (page_run es closed_page) \<noteq> []"
  shows "\<exists>n\<in>set (ip_visible (page_run es closed_page)). highlighted (page_run es closed_page) = Some n \<and>
    ip_cursor (page_run es closed_page) = Some (nt_id n)"
proof -
  let ?s = "page_run es closed_page"
  obtain i where i: "ip_cursor ?s = Some i" "i \<in> nt_id ` set (ip_visible ?s)"
    using page_run_ok [of es] assms by (auto simp: page_ok_def ids_of_def split: option.splits)
  then obtain n where "find (\<lambda>n. Some (nt_id n) = Some i) (ip_visible ?s) = Some n"
    using find_None_iff [of "\<lambda>n. Some (nt_id n) = Some i" "ip_visible ?s"] by (cases "find (\<lambda>n. Some (nt_id n) = Some i) (ip_visible ?s)") auto
  then have "highlighted ?s = Some n" "n \<in> set (ip_visible ?s)" "nt_id n = i"
    using i by (auto simp: highlighted_def find_Some_iff in_set_conv_nth)
  then show ?thesis using i by blast
qed

lemma read_all_not_in_archive:
  "ReadAllCalled \<in> set (snd (page_step s e)) \<Longrightarrow> ip_view s \<noteq> Some ViewArchived"
  by (cases e) (auto simp: page_step_def handle_event_def Let_def inbox_hotkey_def row_action_def archive_row_def unarchive_row_def
      readAllDisabled_def currentView_def split: inbox_hotkey.splits option.splits row_action.splits if_splits prod.splits)

text \<open>"Nothing here" is said only when everything was loaded and nothing failed that it would have shown.\<close>

lemma empty_is_known:
  assumes "content_of v q = ContentEmpty w"
  shows "\<not> iq_firstLoading q \<and> \<not> iq_pinnedLoading q \<and> \<not> iq_error q \<and> visible_of v q = [] \<and> \<not> isPinnedError v q \<and> w = currentView v"
proof -
  have "iq_notifications q = []" if "visible_of v q = []" using that by (auto simp: visible_of_def feed_of_def)
  then show ?thesis using assms by (auto simp: content_of_def Let_def split: if_splits)
qed

lemma viewValidation_key: "viewValidation (view_key v) = Some v" "viewValidation s = Some v \<Longrightarrow> s = view_key v"
  by (cases v; auto simp: viewValidation_def oneOf_def VIEW_OPTIONS_def split: if_splits)+

end
