(* ===== verification/Tree_Model.thy ===== *)
theory Tree_Model
  imports Prelude
begin

text \<open>
  The page tree of the kit (\<open>ui-kit/src/components/Tree/model.ts\<close> and \<open>types.ts\<close>): where each
  node sits, what is on screen, what a keyboard move and a drop mean. A node's icon is drawn by
  the app and has no part in any of it. \<open>ancestorsOf\<close> climbs until a node has no parent, which in
  an index with a cycle never ends, so its result is an option; for the index of a tree whose ids
  are unique it always ends, as shown below.
\<close>

section \<open>Nodes\<close>

datatype tree_node =
  TreeNode (tn_id: string) (tn_label: string) (tn_hasChildren: bool) (tn_children: "tree_node list option")
    (tn_canContain: "bool option") (tn_disabledReason: "string option") (tn_href: "string option")

record node_place =
  np_node :: tree_node
  np_parentId :: "string option"
  np_index :: nat
  np_depth :: nat

type_synonym tree_index = "(string, node_place) js_map"

datatype load_state = LoadPending | LoadFailed

record node_row =
  nr_node :: tree_node
  nr_depth :: nat
  nr_parentId :: "string option"
  nr_index :: nat
  nr_setSize :: nat
  nr_expanded :: bool

datatype note_kind = NoteLoading | NoteFailed | NoteEmpty

datatype tree_row = RowNode node_row | RowNote note_kind string nat

definition isExpandable :: "tree_node \<Rightarrow> bool" where
  "isExpandable n \<longleftrightarrow> tn_hasChildren n \<and> tn_disabledReason n = None"

definition canContain :: "tree_node \<Rightarrow> bool" where
  "canContain n \<longleftrightarrow>
    (case tn_canContain n of None \<Rightarrow> tn_hasChildren n | Some b \<Rightarrow> b) \<and> tn_disabledReason n = None"

section \<open>The index\<close>

text \<open>\<open>walk\<close> of \<open>indexTree\<close>: position, parent and depth of every node, parents before children.\<close>

fun index_walk :: "string option \<Rightarrow> nat \<Rightarrow> nat \<Rightarrow> tree_node list \<Rightarrow> tree_index \<Rightarrow> tree_index" where
  "index_walk par depth pos [] ix = ix"
| "index_walk par depth pos (TreeNode i l h cs cc dis hr # ns) ix =
    (let ix' = js_set i \<lparr>np_node = TreeNode i l h cs cc dis hr, np_parentId = par,
           np_index = pos, np_depth = depth\<rparr> ix
     in index_walk par depth (Suc pos) ns
       (case cs of None \<Rightarrow> ix' | Some ks \<Rightarrow> index_walk (Some i) (Suc depth) 0 ks ix'))"

definition indexTree :: "tree_node list \<Rightarrow> tree_index" where
  "indexTree nodes = index_walk None 0 0 nodes []"

definition childrenOf :: "tree_node list \<Rightarrow> tree_index \<Rightarrow> string option \<Rightarrow> tree_node list" where
  "childrenOf nodes ix parentId =
    (case parentId of
      None \<Rightarrow> nodes
    | Some i \<Rightarrow> (case Option.bind (js_get ix i) (tn_children \<circ> np_node) of None \<Rightarrow> [] | Some cs \<Rightarrow> cs))"

text \<open>The parent an index knows of an id: \<open>index.get(id)?.parentId ?? null\<close>.\<close>

definition parent_in :: "tree_index \<Rightarrow> string \<Rightarrow> string option" where
  "parent_in ix i = Option.bind (js_get ix i) np_parentId"

partial_function (option) climb :: "tree_index \<Rightarrow> string option \<Rightarrow> string list \<Rightarrow> string list option" where
  "climb ix parentId ancestors =
    (case parentId of
      None \<Rightarrow> Some ancestors
    | Some i \<Rightarrow> climb ix (parent_in ix i) (i # ancestors))"

definition ancestorsOf :: "tree_index \<Rightarrow> string \<Rightarrow> string list option" where
  "ancestorsOf ix i = climb ix (parent_in ix i) []"

definition isWithin :: "tree_index \<Rightarrow> string \<Rightarrow> string \<Rightarrow> bool option" where
  "isWithin ix i ancestorId =
    (if i = ancestorId then Some True
     else map_option (\<lambda>as. ancestorId \<in> set as) (ancestorsOf ix i))"

lemma climb_simps [simp]:
  "climb ix None as = Some as"
  "climb ix (Some i) as = climb ix (parent_in ix i) (i # as)"
  by (subst climb.simps, simp)+

section \<open>What is on screen\<close>

fun visible_walk ::
  "(string \<Rightarrow> bool) \<Rightarrow> (string \<Rightarrow> load_state option) \<Rightarrow> string option \<Rightarrow> nat \<Rightarrow> nat \<Rightarrow> nat \<Rightarrow> tree_node list \<Rightarrow> tree_row list" where
  "visible_walk expanded loads par depth count pos [] = []"
| "visible_walk expanded loads par depth count pos (TreeNode i l h cs cc dis hr # ns) =
    (let n = TreeNode i l h cs cc dis hr; opened = isExpandable n \<and> expanded i in
     RowNode \<lparr>nr_node = n, nr_depth = depth, nr_parentId = par, nr_index = pos, nr_setSize = count,
       nr_expanded = opened\<rparr> #
     (if \<not> opened then []
      else (case cs of
          None \<Rightarrow> [RowNote (if loads i = Some LoadFailed then NoteFailed else NoteLoading) i (Suc depth)]
        | Some ks \<Rightarrow>
            if ks = [] then [RowNote NoteEmpty i (Suc depth)]
            else visible_walk expanded loads (Some i) (Suc depth) (length ks) 0 ks)) @
     visible_walk expanded loads par depth count (Suc pos) ns)"

definition visibleRows ::
  "tree_node list \<Rightarrow> (string \<Rightarrow> bool) \<Rightarrow> (string \<Rightarrow> load_state option) \<Rightarrow> tree_row list" where
  "visibleRows nodes expanded loads = visible_walk expanded loads None 0 (length nodes) 0 nodes"

definition node_rows :: "tree_row list \<Rightarrow> node_row list" where
  "node_rows rs = concat (map (\<lambda>r. case r of RowNode n \<Rightarrow> [n] | _ \<Rightarrow> []) rs)"

section \<open>Moves from the keyboard\<close>

datatype keyboard_move = MoveUp | MoveDown | MoveIn | MoveOut

record move_target =
  mt_parentId :: "string option"
  mt_index :: nat
  mt_expand :: "string option"

definition to_place :: "string option \<Rightarrow> nat \<Rightarrow> string option \<Rightarrow> move_target option" where
  "to_place par i ex = Some \<lparr>mt_parentId = par, mt_index = i, mt_expand = ex\<rparr>"

definition children_count :: "tree_node \<Rightarrow> nat" where
  "children_count n = (case tn_children n of None \<Rightarrow> 0 | Some cs \<Rightarrow> length cs)"

definition keyboardMove :: "tree_node list \<Rightarrow> tree_index \<Rightarrow> string \<Rightarrow> keyboard_move \<Rightarrow> move_target option" where
  "keyboardMove nodes ix i mv =
    (case js_get ix i of
      None \<Rightarrow> None
    | Some p \<Rightarrow>
        if tn_disabledReason (np_node p) \<noteq> None then None
        else (let siblings = childrenOf nodes ix (np_parentId p) in
          case mv of
            MoveUp \<Rightarrow> if 0 < np_index p then to_place (np_parentId p) (np_index p - 1) None else None
          | MoveDown \<Rightarrow>
              if np_index p + 1 < length siblings then to_place (np_parentId p) (np_index p + 1) None else None
          | MoveIn \<Rightarrow>
              if 0 < np_index p \<and> np_index p - 1 < length siblings \<and> canContain (siblings ! (np_index p - 1))
              then (let previous = siblings ! (np_index p - 1) in
                to_place (Some (tn_id previous)) (children_count previous) (Some (tn_id previous)))
              else None
          | MoveOut \<Rightarrow>
              (case Option.bind (np_parentId p) (js_get ix) of
                None \<Rightarrow> None
              | Some parent \<Rightarrow> to_place (np_parentId parent) (np_index parent + 1) None)))"

section \<open>Drops\<close>

text \<open>What the hitbox library reads under the pointer; of an instruction only these parts are used.\<close>

datatype instruction = ReorderAbove | ReorderBelow | MakeChild | Reparent nat | InstructionBlocked

datatype row_mode = ModeStandard | ModeExpanded | ModeLastInGroup

definition rowMode :: "node_row \<Rightarrow> row_mode" where
  "rowMode r =
    (if nr_expanded r \<and> 0 < children_count (nr_node r) then ModeExpanded
     else if nr_index r + 1 = nr_setSize r then ModeLastInGroup else ModeStandard)"

definition blockedOn :: "tree_index \<Rightarrow> node_row \<Rightarrow> instruction list" where
  "blockedOn ix r =
    (if canContain (nr_node r) then [] else [MakeChild]) @
    (case Option.bind (nr_parentId r) (js_get ix) of
      None \<Rightarrow> []
    | Some p \<Rightarrow> if canContain (np_node p) then [] else [ReorderAbove, ReorderBelow])"

datatype edge_side = EdgeTop | EdgeBottom

record drop_target =
  dt_parentId :: "string option"
  dt_index :: nat
  dt_rowId :: string
  dt_line :: "(edge_side \<times> nat) option"
  dt_onto :: "string option"

text \<open>\<open>at\<close>: siblings after the dragged one move up by one once it is taken out.\<close>

definition taken_out :: "node_place option \<Rightarrow> string option \<Rightarrow> nat \<Rightarrow> nat" where
  "taken_out dragged parentId position =
    (case dragged of
      None \<Rightarrow> position
    | Some p \<Rightarrow> if np_parentId p = parentId \<and> np_index p < position then position - 1 else position)"

definition holds_nodes :: "tree_index \<Rightarrow> string option \<Rightarrow> bool" where
  "holds_nodes ix parentId =
    (case parentId of
      None \<Rightarrow> True
    | Some i \<Rightarrow> (case js_get ix i of None \<Rightarrow> False | Some p \<Rightarrow> canContain (np_node p)))"

definition drop_after :: "tree_index \<Rightarrow> node_row \<Rightarrow> node_place option \<Rightarrow> nat \<Rightarrow> string list \<Rightarrow> drop_target option" where
  "drop_after ix r dragged level ancestors =
    (if \<not> level < length ancestors then None
     else (case js_get ix (ancestors ! level) of
        None \<Rightarrow> None
      | Some a \<Rightarrow>
          if \<not> holds_nodes ix (np_parentId a) then None
          else Some \<lparr>dt_parentId = np_parentId a, dt_index = taken_out dragged (np_parentId a) (np_index a + 1),
            dt_rowId = tn_id (nr_node r), dt_line = Some (EdgeBottom, level), dt_onto = None\<rparr>))"

text \<open>The switch over the instruction; the outer option is \<open>ancestorsOf\<close>'s.\<close>

definition drop_place ::
  "tree_index \<Rightarrow> node_row \<Rightarrow> instruction \<Rightarrow> node_place option \<Rightarrow> drop_target option option" where
  "drop_place ix r ins dragged =
    (let rowId = tn_id (nr_node r); n = nr_node r in
     case ins of
       MakeChild \<Rightarrow> Some
         (if \<not> canContain n then None
          else if nr_expanded r \<and> 0 < children_count n
          then Some \<lparr>dt_parentId = Some rowId, dt_index = taken_out dragged (Some rowId) 0, dt_rowId = rowId,
            dt_line = Some (EdgeBottom, nr_depth r + 1), dt_onto = None\<rparr>
          else Some \<lparr>dt_parentId = Some rowId, dt_index = taken_out dragged (Some rowId) (children_count n),
            dt_rowId = rowId, dt_line = None, dt_onto = Some rowId\<rparr>)
     | ReorderAbove \<Rightarrow> Some
         (if \<not> holds_nodes ix (nr_parentId r) then None
          else Some \<lparr>dt_parentId = nr_parentId r, dt_index = taken_out dragged (nr_parentId r) (nr_index r),
            dt_rowId = rowId, dt_line = Some (EdgeTop, nr_depth r), dt_onto = None\<rparr>)
     | ReorderBelow \<Rightarrow> Some
         (if \<not> holds_nodes ix (nr_parentId r) then None
          else Some \<lparr>dt_parentId = nr_parentId r, dt_index = taken_out dragged (nr_parentId r) (nr_index r + 1),
            dt_rowId = rowId, dt_line = Some (EdgeBottom, nr_depth r), dt_onto = None\<rparr>)
     | Reparent level \<Rightarrow> map_option (drop_after ix r dragged level) (ancestorsOf ix rowId)
     | InstructionBlocked \<Rightarrow> Some None)"

definition unchanged :: "node_place option \<Rightarrow> drop_target \<Rightarrow> bool" where
  "unchanged dragged t =
    (case dragged of
      None \<Rightarrow> False
    | Some p \<Rightarrow> dt_parentId t = np_parentId p \<and> dt_index t = np_index p)"

definition dropTarget ::
  "tree_index \<Rightarrow> node_row \<Rightarrow> instruction \<Rightarrow> string option \<Rightarrow> drop_target option option" where
  "dropTarget ix r ins draggedId =
    (if ins = InstructionBlocked then Some None
     else (let dragged = Option.bind draggedId (js_get ix) in
       if draggedId \<noteq> None \<and> dragged = None then Some None
       else (case (case draggedId of None \<Rightarrow> Some False | Some d \<Rightarrow> isWithin ix (tn_id (nr_node r)) d) of
           None \<Rightarrow> None
         | Some True \<Rightarrow> Some None
         | Some False \<Rightarrow>
             (case drop_place ix r ins dragged of
               None \<Rightarrow> None
             | Some None \<Rightarrow> Some None
             | Some (Some t) \<Rightarrow> Some (if unchanged dragged t then None else Some t)))))"

section \<open>Typing a letter\<close>

text \<open>
  The next visible node whose label starts with the letter, after the cursor and round; lower
  casing is the browser's. \<open>from\<close> is -1 when the cursor is on no row.
\<close>

definition starts_with :: "string \<Rightarrow> string \<Rightarrow> bool" where
  "starts_with p s \<longleftrightarrow> take (length p) s = p"

definition nextByLetter :: "(string \<Rightarrow> string) \<Rightarrow> tree_row list \<Rightarrow> string option \<Rightarrow> string \<Rightarrow> string option" where
  "nextByLetter lower rs cursor letter =
    (let nrs = node_rows rs; n = length nrs;
         start = (case find_index (\<lambda>r. Some (tn_id (nr_node r)) = cursor) nrs of None \<Rightarrow> - 1 | Some k \<Rightarrow> int k);
         row = (\<lambda>step. nrs ! nat ((start + int step + int n) mod int n))
     in map_option (\<lambda>k. tn_id (nr_node (row (Suc k))))
       (find_index (\<lambda>step. starts_with (lower letter) (lower (tn_label (nr_node (row step))))) [1..<Suc n]))"

section \<open>The index of a tree\<close>

text \<open>Every node with its place, in the order \<open>indexTree\<close> meets them.\<close>

fun places_of :: "string option \<Rightarrow> nat \<Rightarrow> nat \<Rightarrow> tree_node list \<Rightarrow> (string \<times> node_place) list" where
  "places_of par depth pos [] = []"
| "places_of par depth pos (TreeNode i l h cs cc dis hr # ns) =
    (i, \<lparr>np_node = TreeNode i l h cs cc dis hr, np_parentId = par, np_index = pos, np_depth = depth\<rparr>) #
    (case cs of None \<Rightarrow> [] | Some ks \<Rightarrow> places_of (Some i) (Suc depth) 0 ks) @
    places_of par depth (Suc pos) ns"

definition unique_ids :: "tree_node list \<Rightarrow> bool" where
  "unique_ids nodes \<longleftrightarrow> distinct (map fst (places_of None 0 0 nodes))"

lemma index_walk_fold:
  "index_walk par d pos ns ix = fold (\<lambda>(k, v). js_set k v) (places_of par d pos ns) ix"
  by (induction par d pos ns ix rule: index_walk.induct) (auto simp: Let_def split: option.splits)

lemma index_get:
  assumes "unique_ids nodes"
  shows "js_get (indexTree nodes) i = Some p \<longleftrightarrow> (i, p) \<in> set (places_of None 0 0 nodes)"
proof -
  have "js_get (indexTree nodes) i = map_of (rev (places_of None 0 0 nodes)) i"
    unfolding indexTree_def index_walk_fold js.get_fold_put by (simp split: option.splits)
  moreover have "distinct (map fst (rev (places_of None 0 0 nodes)))"
    using assms by (simp add: unique_ids_def rev_map [symmetric])
  ultimately show ?thesis by simp
qed

lemma places_of_self:
  "k < length ns \<Longrightarrow>
    (tn_id (ns ! k), \<lparr>np_node = ns ! k, np_parentId = par, np_index = pos + k, np_depth = d\<rparr>) \<in> set (places_of par d pos ns)"
proof (induction par d pos ns arbitrary: k rule: places_of.induct)
  case (2 par d pos i l h cs cc dis hr ns)
  then show ?case by (cases k) auto
qed simp

lemma places_of_child:
  "(j, q) \<in> set (places_of par d pos ns) \<Longrightarrow> tn_children (np_node q) = Some cs \<Longrightarrow> k < length cs \<Longrightarrow>
    (tn_id (cs ! k), \<lparr>np_node = cs ! k, np_parentId = Some j, np_index = k, np_depth = Suc (np_depth q)\<rparr>)
      \<in> set (places_of par d pos ns)"
proof (induction par d pos ns rule: places_of.induct)
  case (2 par d pos i l h cs' cc dis hr ns)
  then show ?case using places_of_self [of k cs "Some i" 0 "Suc d"] by (auto split: option.splits)
qed simp

definition place_fits :: "string option \<Rightarrow> nat \<Rightarrow> nat \<Rightarrow> tree_node list \<Rightarrow> (string \<times> node_place) set \<Rightarrow> node_place \<Rightarrow> bool" where
  "place_fits par d pos ns S p \<longleftrightarrow>
    np_parentId p = par \<and> np_depth p = d \<and> pos \<le> np_index p \<and> np_index p < pos + length ns \<and>
      ns ! (np_index p - pos) = np_node p \<or>
    (\<exists>j q cs. np_parentId p = Some j \<and> (j, q) \<in> S \<and> tn_children (np_node q) = Some cs \<and>
      np_depth p = Suc (np_depth q) \<and> np_index p < length cs \<and> cs ! np_index p = np_node p)"

lemma place_fits_mono: "place_fits par d pos ns S p \<Longrightarrow> S \<subseteq> T \<Longrightarrow> place_fits par d pos ns T p"
  unfolding place_fits_def by blast

lemma place_fits_later:
  "place_fits par d (Suc pos) ns S p \<Longrightarrow> place_fits par d pos (n # ns) S p"
  unfolding place_fits_def by (auto simp: nth_Cons')

lemma place_fits_below:
  assumes "place_fits (Some j) (Suc (np_depth q)) 0 ks S p" and "(j, q) \<in> S" and "tn_children (np_node q) = Some ks"
  shows "place_fits par d pos ns S p"
proof -
  have "\<exists>j q cs. np_parentId p = Some j \<and> (j, q) \<in> S \<and> tn_children (np_node q) = Some cs \<and>
      np_depth p = Suc (np_depth q) \<and> np_index p < length cs \<and> cs ! np_index p = np_node p"
    using assms(1) unfolding place_fits_def
  proof
    assume a: "np_parentId p = Some j \<and> np_depth p = Suc (np_depth q) \<and> 0 \<le> np_index p \<and>
      np_index p < 0 + length ks \<and> ks ! (np_index p - 0) = np_node p"
    show ?thesis by (rule exI [of _ j], rule exI [of _ q], rule exI [of _ ks]) (use a assms in simp)
  qed
  then show ?thesis unfolding place_fits_def by (rule disjI2)
qed

lemma places_of_fits:
  "(i, p) \<in> set (places_of par d pos ns) \<Longrightarrow>
    tn_id (np_node p) = i \<and> place_fits par d pos ns (set (places_of par d pos ns)) p"
proof (induction par d pos ns rule: places_of.induct)
  case (2 par d pos j l h cs cc dis hr ns)
  let ?n = "TreeNode j l h cs cc dis hr"
  let ?S = "set (places_of par d pos (?n # ns))"
  let ?here = "\<lparr>np_node = ?n, np_parentId = par, np_index = pos, np_depth = d\<rparr>"
  let ?below = "case cs of None \<Rightarrow> [] | Some ks \<Rightarrow> places_of (Some j) (Suc d) 0 ks"
  have S: "?S = insert (j, ?here) (set ?below \<union> set (places_of par d (Suc pos) ns))" by simp
  consider "(i, p) = (j, ?here)" | "(i, p) \<in> set ?below" | "(i, p) \<in> set (places_of par d (Suc pos) ns)"
    using 2(3) unfolding S by blast
  then show ?case
  proof cases
    case 1
    then show ?thesis by (simp add: place_fits_def)
  next
    case 2
    then obtain ks where ks: "cs = Some ks" and m: "(i, p) \<in> set (places_of (Some j) (Suc d) 0 ks)"
      by (cases cs) auto
    have fits: "tn_id (np_node p) = i" "place_fits (Some j) (Suc d) 0 ks (set (places_of (Some j) (Suc d) 0 ks)) p"
      using 2(1) "2.IH"(1) [OF ks m] by simp_all
    have "set (places_of (Some j) (Suc d) 0 ks) \<subseteq> ?S" unfolding S using ks by auto
    then have "place_fits (Some j) (Suc (np_depth ?here)) 0 ks ?S p"
      using place_fits_mono [OF fits(2)] by simp
    moreover have "(j, ?here) \<in> ?S" unfolding S by simp
    moreover have "tn_children (np_node ?here) = Some ks" using ks by simp
    ultimately have "place_fits par d pos (?n # ns) ?S p" by (rule place_fits_below)
    with fits(1) show ?thesis by simp
  next
    case 3
    have fits: "tn_id (np_node p) = i" "place_fits par d (Suc pos) ns (set (places_of par d (Suc pos) ns)) p"
      using "2.IH"(2) [OF 3] by simp_all
    have "set (places_of par d (Suc pos) ns) \<subseteq> ?S" unfolding S by blast
    then have "place_fits par d pos (?n # ns) ?S p"
      by (rule place_fits_later [OF place_fits_mono [OF fits(2)]])
    with fits(1) show ?thesis by simp
  qed
qed simp

lemma visible_walk_Cons:
  assumes "RowNode r \<in> set (visible_walk expanded loads par d count pos (TreeNode i l h cs cc dis hr # ns))"
  obtains "nr_node r = TreeNode i l h cs cc dis hr" "nr_parentId r = par" "nr_index r = pos" "nr_depth r = d"
  | ks where "cs = Some ks" "ks \<noteq> []" "isExpandable (TreeNode i l h cs cc dis hr)" "expanded i"
      "RowNode r \<in> set (visible_walk expanded loads (Some i) (Suc d) (length ks) 0 ks)"
  | "RowNode r \<in> set (visible_walk expanded loads par d count (Suc pos) ns)"
  using assms by (cases cs) (auto simp: Let_def split: if_splits)

lemma visible_rows_placed:
  "RowNode r \<in> set (visible_walk expanded loads par d count pos ns) \<Longrightarrow>
    (tn_id (nr_node r), \<lparr>np_node = nr_node r, np_parentId = nr_parentId r, np_index = nr_index r, np_depth = nr_depth r\<rparr>)
      \<in> set (places_of par d pos ns)"
proof (induction expanded loads par d count pos ns rule: visible_walk.induct)
  case (2 expanded loads par d count pos i l h cs cc dis hr ns)
  from 2(3) show ?case
  proof (cases rule: visible_walk_Cons)
    case 1
    then show ?thesis by simp
  next
    case (2 ks)
    then show ?thesis using "2.IH"(1) [OF refl refl _ 2(1)] by simp
  next
    case 3
    then show ?thesis using "2.IH"(2) [OF refl refl] by simp
  qed
qed simp

lemma place_get:
  assumes "unique_ids nodes" and "js_get (indexTree nodes) i = Some p"
  shows "tn_id (np_node p) = i \<and>
    np_index p < length (childrenOf nodes (indexTree nodes) (np_parentId p)) \<and>
    childrenOf nodes (indexTree nodes) (np_parentId p) ! np_index p = np_node p \<and>
    (case np_parentId p of None \<Rightarrow> np_depth p = 0
      | Some j \<Rightarrow> \<exists>q. js_get (indexTree nodes) j = Some q \<and> np_depth p = Suc (np_depth q))"
proof -
  have m: "(i, p) \<in> set (places_of None 0 0 nodes)" using assms index_get by blast
  note fits = places_of_fits [OF m]
  from fits have "place_fits None 0 0 nodes (set (places_of None 0 0 nodes)) p" ..
  then show ?thesis
  proof (unfold place_fits_def, elim disjE exE conjE)
    assume "np_parentId p = None" "np_depth p = 0" "np_index p < 0 + length nodes" "nodes ! (np_index p - 0) = np_node p"
    then show ?thesis using fits by (simp add: childrenOf_def)
  next
    fix j q cs
    assume a: "np_parentId p = Some j" "(j, q) \<in> set (places_of None 0 0 nodes)" "tn_children (np_node q) = Some cs"
      "np_depth p = Suc (np_depth q)" "np_index p < length cs" "cs ! np_index p = np_node p"
    have "js_get (indexTree nodes) j = Some q" using a(2) index_get [OF assms(1)] by blast
    then show ?thesis using fits a by (simp add: childrenOf_def)
  qed
qed

lemma child_get:
  assumes "unique_ids nodes" and "k < length (childrenOf nodes (indexTree nodes) par)"
  shows "\<exists>p. js_get (indexTree nodes) (tn_id (childrenOf nodes (indexTree nodes) par ! k)) = Some p \<and>
    np_parentId p = par \<and> np_index p = k"
proof (cases par)
  case None
  then have "childrenOf nodes (indexTree nodes) par = nodes" by (simp add: childrenOf_def)
  then show ?thesis using assms None places_of_self [of k nodes None 0 0] index_get [OF assms(1)] by fastforce
next
  case (Some j)
  then obtain q cs where q: "js_get (indexTree nodes) j = Some q" "tn_children (np_node q) = Some cs"
    using assms(2) by (cases "js_get (indexTree nodes) j") (auto simp: childrenOf_def split: option.splits)
  then have "childrenOf nodes (indexTree nodes) par = cs" using Some by (simp add: childrenOf_def)
  moreover have "(j, q) \<in> set (places_of None 0 0 nodes)" using q index_get [OF assms(1)] by blast
  ultimately show ?thesis
    using assms Some places_of_child [OF _ q(2), of j None 0 0 nodes k] index_get [OF assms(1)] by fastforce
qed

lemma distinct_children:
  assumes "unique_ids nodes"
  shows "distinct (map tn_id (childrenOf nodes (indexTree nodes) par))"
proof -
  have inj: "k = l" if "k < length (childrenOf nodes (indexTree nodes) par)" "l < length (childrenOf nodes (indexTree nodes) par)"
    "tn_id (childrenOf nodes (indexTree nodes) par ! k) = tn_id (childrenOf nodes (indexTree nodes) par ! l)" for k l
    using child_get [OF assms that(1)] child_get [OF assms that(2)] unfolding that(3)
    by (metis option.inject)
  show ?thesis unfolding distinct_conv_nth
  proof (intro allI impI notI)
    fix k l
    assume "k < length (map tn_id (childrenOf nodes (indexTree nodes) par))"
      "l < length (map tn_id (childrenOf nodes (indexTree nodes) par))" "k \<noteq> l"
      "map tn_id (childrenOf nodes (indexTree nodes) par) ! k = map tn_id (childrenOf nodes (indexTree nodes) par) ! l"
    then show False using inj [of k l] by simp
  qed
qed

lemma row_get:
  assumes "unique_ids nodes" and "RowNode r \<in> set (visibleRows nodes expanded loads)"
  shows "js_get (indexTree nodes) (tn_id (nr_node r)) =
    Some \<lparr>np_node = nr_node r, np_parentId = nr_parentId r, np_index = nr_index r, np_depth = nr_depth r\<rparr>"
  using visible_rows_placed assms index_get unfolding visibleRows_def by blast

section \<open>The climb\<close>

lemma climb_from_place:
  assumes "unique_ids nodes"
  shows "js_get (indexTree nodes) i = Some p \<Longrightarrow>
    \<exists>as. (\<forall>acc. climb (indexTree nodes) (np_parentId p) acc = Some (as @ acc)) \<and> length as = np_depth p"
proof (induction "np_depth p" arbitrary: i p)
  case 0
  then have "np_parentId p = None" using place_get [OF assms 0(2)] by (auto split: option.splits)
  then show ?case using 0 by simp
next
  case (Suc n)
  then obtain j q where j: "np_parentId p = Some j" "js_get (indexTree nodes) j = Some q" "np_depth p = Suc (np_depth q)"
    using place_get [OF assms Suc(3)] by (auto split: option.splits)
  then obtain as where as: "\<forall>acc. climb (indexTree nodes) (np_parentId q) acc = Some (as @ acc)" "length as = np_depth q"
    using Suc(1) [OF _ j(2)] Suc(2) by auto
  have "climb (indexTree nodes) (np_parentId p) acc = Some ((as @ [j]) @ acc)" for acc
    using j as(1) by (simp add: parent_in_def)
  then show ?case using j as(2) by (metis length_append_singleton)
qed

lemma ancestors_end:
  assumes "unique_ids nodes" and "js_get (indexTree nodes) i = Some p"
  shows "\<exists>as. ancestorsOf (indexTree nodes) i = Some as \<and> length as = np_depth p"
  using climb_from_place [OF assms] assms(2) by (force simp: ancestorsOf_def parent_in_def)

lemma ancestors_step:
  assumes "unique_ids nodes" and "js_get (indexTree nodes) i = Some p"
  shows "(case np_parentId p of None \<Rightarrow> ancestorsOf (indexTree nodes) i = Some []
    | Some j \<Rightarrow> \<exists>as. ancestorsOf (indexTree nodes) j = Some as \<and> ancestorsOf (indexTree nodes) i = Some (as @ [j]))"
proof (cases "np_parentId p")
  case None
  then show ?thesis using assms(2) by (simp add: ancestorsOf_def parent_in_def)
next
  case (Some j)
  then obtain q where q: "js_get (indexTree nodes) j = Some q" using place_get [OF assms] by auto
  obtain as where "\<forall>acc. climb (indexTree nodes) (np_parentId q) acc = Some (as @ acc)"
    using climb_from_place [OF assms(1) q] by blast
  then show ?thesis using Some q assms(2) by (simp add: ancestorsOf_def parent_in_def)
qed

lemma ancestors_prefix:
  assumes "unique_ids nodes"
  shows "js_get (indexTree nodes) i = Some p \<Longrightarrow> ancestorsOf (indexTree nodes) i = Some as \<Longrightarrow> k < length as \<Longrightarrow>
    \<exists>q. js_get (indexTree nodes) (as ! k) = Some q \<and> ancestorsOf (indexTree nodes) (as ! k) = Some (take k as)"
proof (induction "length as" arbitrary: i p as)
  case (Suc n)
  obtain j as' where j: "np_parentId p = Some j" "ancestorsOf (indexTree nodes) j = Some as'" "as = as' @ [j]"
    using ancestors_step [OF assms Suc(3)] Suc(4,5) by (auto split: option.splits)
  obtain q where q: "js_get (indexTree nodes) j = Some q" using place_get [OF assms Suc(3)] j by auto
  show ?case
  proof (cases "k < length as'")
    case True
    then show ?thesis using Suc(1) [OF _ q j(2)] Suc(2) j by (simp add: nth_append)
  next
    case False
    then have "k = length as'" using Suc(5) j by simp
    then show ?thesis using q j by simp
  qed
qed simp

lemma ancestors_chain:
  assumes "unique_ids nodes"
  shows "js_get (indexTree nodes) i = Some p \<Longrightarrow> ancestorsOf (indexTree nodes) i = Some as \<Longrightarrow>
    parent_in (indexTree nodes) ((as @ [i]) ! 0) = None \<and>
    (\<forall>k<length as. parent_in (indexTree nodes) ((as @ [i]) ! Suc k) = Some (as ! k))"
proof (induction "length as" arbitrary: i p as)
  case 0
  then show ?case using ancestors_step [OF assms 0(2)] by (auto simp: parent_in_def split: option.splits)
next
  case (Suc n)
  obtain j as' where j: "np_parentId p = Some j" "ancestorsOf (indexTree nodes) j = Some as'" "as = as' @ [j]"
    using ancestors_step [OF assms Suc(3)] Suc(2,4) by (auto split: option.splits)
  obtain q where q: "js_get (indexTree nodes) j = Some q" using place_get [OF assms Suc(3)] j by auto
  have ih: "parent_in (indexTree nodes) ((as' @ [j]) ! 0) = None"
    "\<forall>k<length as'. parent_in (indexTree nodes) ((as' @ [j]) ! Suc k) = Some (as' ! k)"
    using Suc(1) [OF _ q j(2)] Suc(2) j by simp_all
  have i: "parent_in (indexTree nodes) i = Some j" using Suc(3) j by (simp add: parent_in_def)
  have "parent_in (indexTree nodes) ((as @ [i]) ! Suc k) = Some (as ! k)" if "k < length as" for k
  proof (cases "k < length as'")
    case True
    then have "(as @ [i]) ! Suc k = (as' @ [j]) ! Suc k" using j(3) by (auto simp: nth_append not_less_eq less_Suc_eq)
    then show ?thesis using ih(2) True j(3) by (simp only: nth_append if_True)
  next
    case False
    then have "k = length as'" using that j by simp
    then show ?thesis using i j by (simp add: nth_append)
  qed
  moreover have "(as @ [i]) ! 0 = (as' @ [j]) ! 0" using j(3) by (cases as') simp_all
  ultimately show ?case using ih(1) by (simp only:) blast
qed

section \<open>Where a drop lands\<close>

definition sibling_ids :: "tree_node list \<Rightarrow> string option \<Rightarrow> string list" where
  "sibling_ids nodes par = map tn_id (childrenOf nodes (indexTree nodes) par)"

text \<open>The children of the new parent once the app has put the node at the index it was given.\<close>

definition moved_to :: "tree_node list \<Rightarrow> string \<Rightarrow> string option \<Rightarrow> nat \<Rightarrow> string list" where
  "moved_to nodes d par i = insert_at i d (filter (\<lambda>x. x \<noteq> d) (sibling_ids nodes par))"

lemma insert_at_gap:
  "insert_at (length (filter P (take m xs))) d (filter P xs) = filter P (take m xs) @ d # filter P (drop m xs)"
proof -
  have "filter P xs = filter P (take m xs) @ filter P (drop m xs)"
    by (metis append_take_drop_id filter_append)
  then show ?thesis by (simp add: insert_at_def)
qed

lemma sibling_at:
  assumes "unique_ids nodes" and "js_get (indexTree nodes) i = Some p"
  shows "np_index p < length (sibling_ids nodes (np_parentId p))" "sibling_ids nodes (np_parentId p) ! np_index p = i"
  using place_get [OF assms] by (simp_all add: sibling_ids_def)

lemma sibling_parent:
  assumes "unique_ids nodes" and "i \<in> set (sibling_ids nodes par)"
  shows "\<exists>p. js_get (indexTree nodes) i = Some p \<and> np_parentId p = par"
  using assms child_get [OF assms(1)] by (fastforce simp: sibling_ids_def in_set_conv_nth)

lemma distinct_sibling_ids: "unique_ids nodes \<Longrightarrow> distinct (sibling_ids nodes par)"
  by (simp add: sibling_ids_def distinct_children)

lemma taken_out_gap:
  assumes "unique_ids nodes" and "js_get (indexTree nodes) d = Some p" and "m \<le> length (sibling_ids nodes par)"
  shows "taken_out (Some p) par m = length (filter (\<lambda>x. x \<noteq> d) (take m (sibling_ids nodes par)))"
proof (cases "np_parentId p = par")
  case True
  let ?ids = "sibling_ids nodes par"
  have d: "np_index p < length ?ids" "?ids ! np_index p = d" "distinct ?ids"
    using sibling_at [OF assms(1,2)] True distinct_sibling_ids [OF assms(1)] by auto
  show ?thesis
  proof (cases "np_index p < m")
    case True
    then have "d \<in> set (take m ?ids)" using d by (metis in_set_conv_nth length_take min_less_iff_conj nth_take)
    then have "length (filter (\<lambda>x. x \<noteq> d) (take m ?ids)) = length (take m ?ids) - 1"
      using d(3) by (simp add: length_filter_neq)
    then show ?thesis using True \<open>np_parentId p = par\<close> assms(3) by (simp add: taken_out_def)
  next
    case False
    have "d \<notin> set (take m ?ids)"
    proof
      assume "d \<in> set (take m ?ids)"
      then obtain k where "k < m" "k < length ?ids" "?ids ! k = d" by (auto simp: in_set_conv_nth)
      then show False using d False nth_eq_iff_index_eq [of ?ids k "np_index p"] by simp
    qed
    then have "filter (\<lambda>x. x \<noteq> d) (take m ?ids) = take m ?ids" by (auto simp: filter_id_conv)
    then show ?thesis using False assms(3) by (simp add: taken_out_def)
  qed
next
  case False
  then have "d \<notin> set (sibling_ids nodes par)" using sibling_parent [OF assms(1)] assms(2) by fastforce
  then have "filter (\<lambda>x. x \<noteq> d) (take m (sibling_ids nodes par)) = take m (sibling_ids nodes par)"
    by (auto simp: filter_id_conv dest: in_set_takeD)
  then show ?thesis using False assms(3) by (simp add: taken_out_def)
qed

lemma moved_gap:
  assumes "unique_ids nodes" and "js_get (indexTree nodes) d = Some p" and "m \<le> length (sibling_ids nodes par)"
  shows "moved_to nodes d par (taken_out (Some p) par m) =
    filter (\<lambda>x. x \<noteq> d) (take m (sibling_ids nodes par)) @ d # filter (\<lambda>x. x \<noteq> d) (drop m (sibling_ids nodes par))"
  unfolding moved_to_def taken_out_gap [OF assms] by (rule insert_at_gap)

lemma moved_before:
  assumes "unique_ids nodes" and "js_get (indexTree nodes) d = Some p" and "js_get (indexTree nodes) x = Some q" and "x \<noteq> d"
  shows "\<exists>xs ys. moved_to nodes d (np_parentId q) (taken_out (Some p) (np_parentId q) (np_index q)) = xs @ d # x # ys"
proof -
  note q = sibling_at [OF assms(1,3)]
  have "drop (np_index q) (sibling_ids nodes (np_parentId q)) =
      x # drop (Suc (np_index q)) (sibling_ids nodes (np_parentId q))"
    using q by (simp add: Cons_nth_drop_Suc [symmetric])
  then show ?thesis using assms(4) q(1) by (simp add: moved_gap [OF assms(1,2)]) blast
qed

lemma moved_after:
  assumes "unique_ids nodes" and "js_get (indexTree nodes) d = Some p" and "js_get (indexTree nodes) x = Some q" and "x \<noteq> d"
  shows "\<exists>xs ys. moved_to nodes d (np_parentId q) (taken_out (Some p) (np_parentId q) (np_index q + 1)) = xs @ x # d # ys"
proof -
  note q = sibling_at [OF assms(1,3)]
  have "take (np_index q + 1) (sibling_ids nodes (np_parentId q)) = take (np_index q) (sibling_ids nodes (np_parentId q)) @ [x]"
    using q by (simp add: take_Suc_conv_app_nth)
  then show ?thesis using assms(4) q(1) by (simp add: moved_gap [OF assms(1,2)]) blast
qed

lemma children_ids:
  assumes "js_get (indexTree nodes) i = Some p"
  shows "length (sibling_ids nodes (Some i)) = children_count (np_node p)"
  using assms by (simp add: sibling_ids_def childrenOf_def children_count_def split: option.splits)

text \<open>Where the instruction says a drop goes, on the list of the new siblings.\<close>

definition lands :: "tree_node list \<Rightarrow> node_row \<Rightarrow> string \<Rightarrow> instruction \<Rightarrow> drop_target \<Rightarrow> bool" where
  "lands nodes r d ins t \<longleftrightarrow>
    (let x = tn_id (nr_node r); moved = moved_to nodes d (dt_parentId t) (dt_index t) in
     case ins of
       ReorderAbove \<Rightarrow> dt_parentId t = nr_parentId r \<and> (\<exists>xs ys. moved = xs @ d # x # ys)
     | ReorderBelow \<Rightarrow> dt_parentId t = nr_parentId r \<and> (\<exists>xs ys. moved = xs @ x # d # ys)
     | MakeChild \<Rightarrow> dt_parentId t = Some x \<and>
         (if dt_onto t = None then \<exists>ys. moved = d # ys else \<exists>xs. moved = xs @ [d])
     | Reparent level \<Rightarrow>
         (case ancestorsOf (indexTree nodes) x of
           None \<Rightarrow> False
         | Some as \<Rightarrow> level < length as \<and> dt_parentId t = parent_in (indexTree nodes) (as ! level) \<and>
             (\<exists>xs ys. moved = xs @ as ! level # d # ys))
     | InstructionBlocked \<Rightarrow> False)"

lemma within_outside:
  assumes "isWithin ix x d = Some False"
  shows "x \<noteq> d" "ancestorsOf ix x = Some as \<Longrightarrow> d \<notin> set as"
  using assms by (auto simp: isWithin_def split: if_splits)

lemma drop_place_lands:
  assumes "unique_ids nodes" and "ix = indexTree nodes"
    and "js_get ix (tn_id (nr_node r)) =
      Some \<lparr>np_node = nr_node r, np_parentId = nr_parentId r, np_index = nr_index r, np_depth = nr_depth r\<rparr>"
    and "js_get ix d = Some p" and "isWithin ix (tn_id (nr_node r)) d = Some False"
    and "drop_place ix r ins (Some p) = Some (Some t)"
  shows "lands nodes r d ins t"
proof (cases ins)
  case ReorderAbove
  then show ?thesis
    using assms(6) moved_before [OF assms(1) assms(4,3) [unfolded assms(2)]] within_outside(1) [OF assms(5)]
    by (fastforce simp: drop_place_def lands_def Let_def split: if_splits)
next
  case ReorderBelow
  then show ?thesis
    using assms(6) moved_after [OF assms(1) assms(4,3) [unfolded assms(2)]] within_outside(1) [OF assms(5)]
    by (fastforce simp: drop_place_def lands_def Let_def split: if_splits)
next
  case MakeChild
  let ?x = "tn_id (nr_node r)"
  have len: "length (sibling_ids nodes (Some ?x)) = children_count (nr_node r)"
    using children_ids [OF assms(3) [unfolded assms(2)]] by simp
  have "moved_to nodes d (Some ?x) (taken_out (Some p) (Some ?x) 0) = d # filter (\<lambda>x. x \<noteq> d) (sibling_ids nodes (Some ?x))"
    using moved_gap [OF assms(1) assms(4) [unfolded assms(2)], of 0 "Some ?x"] by simp
  moreover have "moved_to nodes d (Some ?x) (taken_out (Some p) (Some ?x) (children_count (nr_node r))) =
      filter (\<lambda>x. x \<noteq> d) (sibling_ids nodes (Some ?x)) @ [d]"
    using moved_gap [OF assms(1) assms(4) [unfolded assms(2)], of "children_count (nr_node r)" "Some ?x"] len by simp
  ultimately show ?thesis
    using assms(6) MakeChild by (auto simp: drop_place_def lands_def Let_def split: if_splits)
next
  case (Reparent level)
  then obtain as where as: "ancestorsOf ix (tn_id (nr_node r)) = Some as" "drop_after ix r (Some p) level as = Some t"
    using assms(6) by (auto simp: drop_place_def Let_def)
  then obtain a where a: "level < length as" "js_get ix (as ! level) = Some a" "dt_parentId t = np_parentId a"
    "dt_index t = taken_out (Some p) (np_parentId a) (np_index a + 1)"
    by (auto simp: drop_after_def split: if_splits option.splits)
  have "as ! level \<noteq> d" using within_outside(2) [OF assms(5) as(1)] a(1) by auto
  then show ?thesis
    using Reparent as(1) a moved_after [OF assms(1) assms(4) [unfolded assms(2)] a(2) [unfolded assms(2)]]
    by (simp add: lands_def Let_def parent_in_def assms(2))
next
  case InstructionBlocked
  then show ?thesis using assms(6) by (simp add: drop_place_def Let_def)
qed

text \<open>What a drop is put into can hold nodes and is not inside what is dragged.\<close>

lemma isWithin_take:
  assumes "ancestorsOf ix q = Some (take k as)" and "d \<notin> set as" and "q \<noteq> d"
  shows "isWithin ix q d = Some False"
  using assms by (auto simp: isWithin_def dest: in_set_takeD)

lemma parent_outside:
  assumes "unique_ids nodes" and "js_get (indexTree nodes) x = Some q" and "isWithin (indexTree nodes) x d = Some False"
    and "np_parentId q = Some j"
  shows "isWithin (indexTree nodes) j d = Some False"
proof -
  obtain as where as: "ancestorsOf (indexTree nodes) j = Some as" "ancestorsOf (indexTree nodes) x = Some (as @ [j])"
    using ancestors_step [OF assms(1,2)] assms(4) by auto
  then show ?thesis using within_outside(2) [OF assms(3) as(2)] by (auto simp: isWithin_def)
qed

lemma drop_place_outside:
  assumes "unique_ids nodes" and "ix = indexTree nodes"
    and "js_get ix (tn_id (nr_node r)) =
      Some \<lparr>np_node = nr_node r, np_parentId = nr_parentId r, np_index = nr_index r, np_depth = nr_depth r\<rparr>"
    and "isWithin ix (tn_id (nr_node r)) d = Some False"
    and "drop_place ix r ins dragged = Some (Some t)" and "dt_parentId t = Some q"
  shows "isWithin ix q d = Some False \<and> holds_nodes ix (Some q)"
proof (cases "ins = MakeChild")
  case True
  then have "q = tn_id (nr_node r)" "canContain (nr_node r)"
    using assms(5,6) by (auto simp: drop_place_def Let_def split: if_splits)
  then show ?thesis using assms(3,4) by (simp add: holds_nodes_def)
next
  case False
  show ?thesis
  proof (cases ins)
    case (Reparent level)
    then obtain as where as: "ancestorsOf ix (tn_id (nr_node r)) = Some as" "drop_after ix r dragged level as = Some t"
      using assms(5) by (auto simp: drop_place_def Let_def)
    then obtain a where a: "level < length as" "js_get ix (as ! level) = Some a" "np_parentId a = Some q" "holds_nodes ix (Some q)"
      using assms(6) by (auto simp: drop_after_def split: if_splits option.splits)
    have "ancestorsOf ix (as ! level) = Some (take level as)"
      using ancestors_prefix [OF assms(1) assms(3) [unfolded assms(2)] as(1) [unfolded assms(2)] a(1)] assms(2) by simp
    moreover have "d \<notin> set as" by (rule within_outside(2) [OF assms(4) as(1)])
    ultimately have "isWithin ix (as ! level) d = Some False"
      using isWithin_take a(1) by (metis nth_mem)
    then show ?thesis using parent_outside [OF assms(1)] a assms(2) by simp
  next
    case ReorderAbove
    then have "nr_parentId r = Some q" "holds_nodes ix (Some q)"
      using assms(5,6) by (auto simp: drop_place_def Let_def split: if_splits)
    then show ?thesis using parent_outside [OF assms(1) assms(3) [unfolded assms(2)]] assms(4) assms(2) by simp
  next
    case ReorderBelow
    then have "nr_parentId r = Some q" "holds_nodes ix (Some q)"
      using assms(5,6) by (auto simp: drop_place_def Let_def split: if_splits)
    then show ?thesis using parent_outside [OF assms(1) assms(3) [unfolded assms(2)]] assms(4) assms(2) by simp
  qed (use False assms(5) in \<open>simp_all add: drop_place_def Let_def\<close>)
qed

lemma drop_place_changes:
  assumes "unique_ids nodes" and "js_get (indexTree nodes) d = Some p" and "dt_parentId t = np_parentId p"
    and "m \<le> length (sibling_ids nodes (dt_parentId t))"
    and "dt_index t = taken_out (Some p) (dt_parentId t) m" and "\<not> unchanged (Some p) t"
  shows "moved_to nodes d (dt_parentId t) (dt_index t) \<noteq> sibling_ids nodes (dt_parentId t)"
proof
  let ?ids = "sibling_ids nodes (dt_parentId t)"
  assume eq: "moved_to nodes d (dt_parentId t) (dt_index t) = ?ids"
  have len: "dt_index t \<le> length (filter (\<lambda>x. x \<noteq> d) ?ids)"
  proof -
    have "filter (\<lambda>x. x \<noteq> d) ?ids = filter (\<lambda>x. x \<noteq> d) (take m ?ids) @ filter (\<lambda>x. x \<noteq> d) (drop m ?ids)"
      by (metis append_take_drop_id filter_append)
    then show ?thesis using taken_out_gap [OF assms(1,2,4)] assms(5) by simp
  qed
  have at: "np_index p < length ?ids" "?ids ! np_index p = d"
    using sibling_at [OF assms(1,2)] assms(3) by simp_all
  have "?ids ! dt_index t = d" using nth_insert_at [OF len, of d] eq by (simp add: moved_to_def)
  moreover have "length ?ids = Suc (length (filter (\<lambda>x. x \<noteq> d) ?ids))"
    using arg_cong [OF eq, of length] by (simp add: moved_to_def)
  ultimately have "dt_index t = np_index p"
    using at len nth_eq_iff_index_eq [OF distinct_sibling_ids [OF assms(1)], of "dt_index t" "dt_parentId t" "np_index p"] by simp
  then show False using assms(3,6) by (simp add: unchanged_def)
qed

lemma drop_place_gap:
  assumes "unique_ids nodes" and "ix = indexTree nodes"
    and "js_get ix (tn_id (nr_node r)) =
      Some \<lparr>np_node = nr_node r, np_parentId = nr_parentId r, np_index = nr_index r, np_depth = nr_depth r\<rparr>"
    and "drop_place ix r ins dragged = Some (Some t)"
  shows "\<exists>m. m \<le> length (sibling_ids nodes (dt_parentId t)) \<and> dt_index t = taken_out dragged (dt_parentId t) m"
proof -
  have own: "nr_index r < length (sibling_ids nodes (nr_parentId r))"
    using sibling_at(1) [OF assms(1) assms(3) [unfolded assms(2)]] by simp
  have len: "length (sibling_ids nodes (Some (tn_id (nr_node r)))) = children_count (nr_node r)"
    using children_ids [OF assms(3) [unfolded assms(2)]] by simp
  show ?thesis
  proof (cases ins)
    case (Reparent level)
    then obtain as a where a: "js_get ix (as ! level) = Some a" "dt_parentId t = np_parentId a"
      "dt_index t = taken_out dragged (np_parentId a) (np_index a + 1)"
      using assms(4) by (auto simp: drop_place_def drop_after_def Let_def split: if_splits option.splits)
    then have "np_index a + 1 \<le> length (sibling_ids nodes (dt_parentId t))"
      using sibling_at(1) [OF assms(1) a(1) [unfolded assms(2)]] by simp
    then show ?thesis using a by auto
  next
    case ReorderAbove
    then have "dt_parentId t = nr_parentId r" "dt_index t = taken_out dragged (nr_parentId r) (nr_index r)"
      using assms(4) by (auto simp: drop_place_def Let_def split: if_splits)
    then show ?thesis using own by (intro exI [of _ "nr_index r"]) simp
  next
    case ReorderBelow
    then have "dt_parentId t = nr_parentId r" "dt_index t = taken_out dragged (nr_parentId r) (nr_index r + 1)"
      using assms(4) by (auto simp: drop_place_def Let_def split: if_splits)
    then show ?thesis using own by (intro exI [of _ "nr_index r + 1"]) simp
  next
    case MakeChild
    then have "dt_parentId t = Some (tn_id (nr_node r))"
      "dt_index t = taken_out dragged (dt_parentId t) 0 \<or> dt_index t = taken_out dragged (dt_parentId t) (children_count (nr_node r))"
      using assms(4) by (auto simp: drop_place_def Let_def split: if_splits)
    then show ?thesis using len by auto
  next
    case InstructionBlocked
    then show ?thesis using assms(4) by (simp add: drop_place_def Let_def)
  qed
qed

lemma dropTarget_Some:
  assumes "dropTarget ix r ins (Some d) = Some (Some t)"
  obtains p where "js_get ix d = Some p" "isWithin ix (tn_id (nr_node r)) d = Some False"
    "drop_place ix r ins (Some p) = Some (Some t)" "\<not> unchanged (Some p) t"
  using assms
  by (auto simp: dropTarget_def Let_def split: if_splits option.splits bool.splits)

section \<open>Where a keyboard move lands\<close>

definition keyboard_lands :: "tree_node list \<Rightarrow> string \<Rightarrow> keyboard_move \<Rightarrow> move_target \<Rightarrow> bool" where
  "keyboard_lands nodes i mv t \<longleftrightarrow>
    (let par = parent_in (indexTree nodes) i; ids = sibling_ids nodes par;
         moved = moved_to nodes i (mt_parentId t) (mt_index t) in
     case mv of
       MoveUp \<Rightarrow> mt_parentId t = par \<and> (\<exists>xs a ys. ids = xs @ a # i # ys \<and> moved = xs @ i # a # ys)
     | MoveDown \<Rightarrow> mt_parentId t = par \<and> (\<exists>xs a ys. ids = xs @ i # a # ys \<and> moved = xs @ a # i # ys)
     | MoveIn \<Rightarrow> (\<exists>xs a ys. ids = xs @ a # i # ys \<and> mt_parentId t = Some a \<and> mt_expand t = Some a \<and>
         holds_nodes (indexTree nodes) (Some a) \<and> moved = sibling_ids nodes (Some a) @ [i])
     | MoveOut \<Rightarrow> (\<exists>a xs ys. par = Some a \<and> mt_parentId t = parent_in (indexTree nodes) a \<and>
         moved = xs @ a # i # ys))"

lemma split_pair:
  assumes "Suc k < length xs"
  shows "\<exists>ys zs. xs = ys @ xs ! k # xs ! Suc k # zs \<and> length ys = k"
proof (intro exI conjI)
  show "xs = take k xs @ xs ! k # xs ! Suc k # drop (Suc (Suc k)) xs"
    using assms by (metis Cons_nth_drop_Suc Suc_lessD append_take_drop_id)
  show "length (take k xs) = k" using assms by simp
qed

lemma filter_other:
  assumes "distinct (xs @ i # ys)"
  shows "filter (\<lambda>x. x \<noteq> i) (xs @ i # ys) = xs @ ys"
proof -
  have "filter (\<lambda>x. x \<noteq> i) xs = xs" "filter (\<lambda>x. x \<noteq> i) ys = ys" using assms by (auto simp: filter_id_conv)
  then show ?thesis by simp
qed

lemma parent_not_self:
  assumes "unique_ids nodes" and "js_get (indexTree nodes) a = Some q"
  shows "np_parentId q \<noteq> Some a"
  using place_get [OF assms] assms(2) by (auto split: option.splits)

lemma move_among_siblings:
  assumes "unique_ids nodes" and "js_get (indexTree nodes) i = Some p"
  shows "0 < np_index p \<Longrightarrow> keyboard_lands nodes i MoveUp
      \<lparr>mt_parentId = np_parentId p, mt_index = np_index p - 1, mt_expand = ex\<rparr>"
    and "np_index p + 1 < length (sibling_ids nodes (np_parentId p)) \<Longrightarrow> keyboard_lands nodes i MoveDown
      \<lparr>mt_parentId = np_parentId p, mt_index = np_index p + 1, mt_expand = ex\<rparr>"
proof -
  let ?ids = "sibling_ids nodes (np_parentId p)"
  note at = sibling_at [OF assms] and dist = distinct_sibling_ids [OF assms(1), of "np_parentId p"]
  have par: "parent_in (indexTree nodes) i = np_parentId p" using assms(2) by (simp add: parent_in_def)
  show "keyboard_lands nodes i MoveUp \<lparr>mt_parentId = np_parentId p, mt_index = np_index p - 1, mt_expand = ex\<rparr>"
    if "0 < np_index p"
  proof -
    note pos = that
    obtain k where "np_index p = Suc k" using pos by (cases "np_index p") auto
    then obtain xs a ys where s: "?ids = xs @ a # i # ys" "length xs = np_index p - 1"
      using split_pair [of k ?ids] at by auto
    have "filter (\<lambda>x. x \<noteq> i) ?ids = xs @ a # ys" using filter_other [of "xs @ [a]" i ys] dist s(1) by simp
    then have "moved_to nodes i (np_parentId p) (length xs) = xs @ i # a # ys" by (simp add: moved_to_def insert_at_def)
    then show ?thesis using s par by (simp add: keyboard_lands_def Let_def) blast
  qed
  show "keyboard_lands nodes i MoveDown \<lparr>mt_parentId = np_parentId p, mt_index = np_index p + 1, mt_expand = ex\<rparr>"
    if "np_index p + 1 < length ?ids"
  proof -
    have "Suc (np_index p) < length ?ids" using that by simp
    then obtain xs a ys where s: "?ids = xs @ i # a # ys" "length xs = np_index p"
      using split_pair [of "np_index p" ?ids] at(2) by auto
    have "filter (\<lambda>x. x \<noteq> i) ?ids = xs @ a # ys" using filter_other [of xs i "a # ys"] dist s(1) by simp
    then have "moved_to nodes i (np_parentId p) (Suc (length xs)) = xs @ a # i # ys"
      by (simp add: moved_to_def insert_at_def)
    then show ?thesis using s par by (simp add: keyboard_lands_def Let_def) blast
  qed
qed

lemma move_into_previous:
  assumes "unique_ids nodes" and "js_get (indexTree nodes) i = Some p" and "0 < np_index p"
    and "previous = childrenOf nodes (indexTree nodes) (np_parentId p) ! (np_index p - 1)" and "canContain previous"
  shows "keyboard_lands nodes i MoveIn
    \<lparr>mt_parentId = Some (tn_id previous), mt_index = children_count previous, mt_expand = Some (tn_id previous)\<rparr>"
proof -
  let ?ids = "sibling_ids nodes (np_parentId p)" and ?a = "tn_id previous"
  note at = sibling_at [OF assms(1,2)]
  have k: "np_index p - 1 < length (childrenOf nodes (indexTree nodes) (np_parentId p))"
    using at(1) by (simp add: sibling_ids_def)
  obtain q where q: "js_get (indexTree nodes) ?a = Some q" "np_parentId q = np_parentId p" "np_index q = np_index p - 1"
    using child_get [OF assms(1) k] assms(4) by auto
  have node: "np_node q = previous" using place_get [OF assms(1) q(1)] unfolding q(2,3) assms(4) by metis
  obtain m where m: "np_index p = Suc m" using assms(3) by (cases "np_index p") auto
  have "?ids ! m = ?a" using sibling_at(2) [OF assms(1) q(1)] q m by simp
  then have s: "\<exists>xs ys. ?ids = xs @ ?a # i # ys" using split_pair [of m ?ids] at m by auto
  have "i \<notin> set (sibling_ids nodes (Some ?a))"
    using sibling_parent [OF assms(1)] assms(2) q(2) parent_not_self [OF assms(1) q(1)] by fastforce
  then have "filter (\<lambda>x. x \<noteq> i) (sibling_ids nodes (Some ?a)) = sibling_ids nodes (Some ?a)"
    by (auto simp: filter_id_conv)
  then have "moved_to nodes i (Some ?a) (children_count previous) = sibling_ids nodes (Some ?a) @ [i]"
    using children_ids [OF q(1)] node by (simp add: moved_to_def insert_at_def)
  moreover have "holds_nodes (indexTree nodes) (Some ?a)" using q(1) node assms(5) by (simp add: holds_nodes_def)
  ultimately show ?thesis using s assms(2) by (auto simp: keyboard_lands_def parent_in_def Let_def)
qed

lemma move_out_of_parent:
  assumes "unique_ids nodes" and "js_get (indexTree nodes) i = Some p" and "np_parentId p = Some a"
    and "js_get (indexTree nodes) a = Some q"
  shows "keyboard_lands nodes i MoveOut
    \<lparr>mt_parentId = np_parentId q, mt_index = np_index q + 1, mt_expand = ex\<rparr>"
proof -
  have "a \<noteq> i" using parent_not_self [OF assms(1,2)] assms(3) by auto
  moreover have "taken_out (Some p) (np_parentId q) (np_index q + 1) = np_index q + 1"
    using parent_not_self [OF assms(1,4)] assms(3) by (simp add: taken_out_def)
  ultimately show ?thesis
    using moved_after [OF assms(1,2,4)] assms(2-4) by (simp add: keyboard_lands_def parent_in_def Let_def)
qed

section \<open>Properties\<close>

text \<open>
  In the index of a tree whose ids are unique the climb of \<open>ancestorsOf\<close> always ends, and it
  gives the path from the top level down to the node's parent: as many ids as the node is deep,
  each the parent of the one after it and the first without a parent.
\<close>

theorem tree_ancestors_end:
  assumes "unique_ids nodes" and "js_get (indexTree nodes) i = Some p"
  shows "\<exists>as. ancestorsOf (indexTree nodes) i = Some as \<and> length as = np_depth p \<and>
    parent_in (indexTree nodes) ((as @ [i]) ! 0) = None \<and>
    (\<forall>k<length as. parent_in (indexTree nodes) ((as @ [i]) ! Suc k) = Some (as ! k))"
  using ancestors_end [OF assms] ancestors_chain [OF assms] by blast

definition leaf :: "string \<Rightarrow> tree_node" where
  "leaf i = TreeNode i i False (Some []) (Some True) None None"

definition branch :: "string \<Rightarrow> tree_node list \<Rightarrow> tree_node" where
  "branch i ns = TreeNode i i True (Some ns) (Some True) None None"

definition small_tree :: "tree_node list" where
  "small_tree = [branch ''a'' [leaf ''b'', leaf ''c''], leaf ''e'']"

lemmas small_tree_simps = small_tree_def branch_def leaf_def unique_ids_def indexTree_def js_get_def js_set_def
  visibleRows_def isExpandable_def

theorem tree_ancestors_end_witness:
  "\<exists>as. ancestorsOf (indexTree small_tree) ''c'' = Some as \<and> length as = 1"
  using tree_ancestors_end [of small_tree "''c''"
      "\<lparr>np_node = leaf ''c'', np_parentId = Some ''a'', np_index = 1, np_depth = 1\<rparr>"]
  by (simp add: small_tree_simps) blast



text \<open>
  A move from the keyboard does what its key says: mod with the up or down arrow swaps the
  node with its neighbour, mod and right puts it last inside the previous sibling, which is one
  that can hold it and is opened, and mod and left puts it right after its parent.
\<close>

theorem keyboard_move_lands:
  assumes "unique_ids nodes" and "keyboardMove nodes (indexTree nodes) i mv = Some t"
  shows "keyboard_lands nodes i mv t"
proof -
  obtain p where p: "js_get (indexTree nodes) i = Some p"
    using assms(2) by (auto simp: keyboardMove_def split: option.splits)
  have len: "length (sibling_ids nodes par) = length (childrenOf nodes (indexTree nodes) par)" for par
    by (simp add: sibling_ids_def)
  show ?thesis
  proof (cases mv)
    case MoveUp
    then show ?thesis using assms(2) p move_among_siblings(1) [OF assms(1) p]
      by (auto simp: keyboardMove_def to_place_def split: if_splits)
  next
    case MoveDown
    then show ?thesis using assms(2) p move_among_siblings(2) [OF assms(1) p] len
      by (auto simp: keyboardMove_def to_place_def split: if_splits)
  next
    case MoveIn
    then show ?thesis using assms(2) p move_into_previous [OF assms(1) p _ refl]
      by (auto simp: keyboardMove_def to_place_def Let_def split: if_splits)
  next
    case MoveOut
    then show ?thesis using assms(2) p move_out_of_parent [OF assms(1) p]
      by (cases "np_parentId p") (auto simp: keyboardMove_def to_place_def split: if_splits option.splits)
  qed
qed

theorem keyboard_move_lands_witness:
  "keyboard_lands small_tree ''e'' MoveIn \<lparr>mt_parentId = Some ''a'', mt_index = 2, mt_expand = Some ''a''\<rparr>"
  using keyboard_move_lands [of small_tree "''e''" MoveIn
      "\<lparr>mt_parentId = Some ''a'', mt_index = 2, mt_expand = Some ''a''\<rparr>"]
  by (simp add: small_tree_simps keyboardMove_def childrenOf_def canContain_def to_place_def children_count_def)

end
