(* ===== verification/Drag_Drop.thy ===== *)
theory Drag_Drop
  imports Complex_Main Tree_Model
begin

text \<open>
  Dragging rows (\<open>ui-kit/src/components/Tree/useTreeDnd.ts\<close>, \<open>VirtualList/useListDnd.ts\<close>, \<open>VirtualList/dnd.ts\<close>) and the
  rows a virtual list keeps (\<open>VirtualList.tsx\<close>). pragmatic-drag-and-drop is outside: an event brings what it read,
  the source's data and the innermost drop target with the hitbox's instruction. What it monitors, the ghost
  and the scrolling are not modelled. The keys that say whether a drag's state changed are the tuples of what
  the code joins with bars, since ids hold none.
\<close>

section \<open>Dragging over a tree\<close>

record dnd_place =
  pl_parentId :: "string option"
  pl_index :: nat
  pl_onto :: "string option"

definition placeOf :: "drop_target \<Rightarrow> dnd_place" where
  "placeOf t = \<lparr>pl_parentId = dt_parentId t, pl_index = dt_index t, pl_onto = dt_onto t\<rparr>"

type_synonym tree_key = "string \<times> string option \<times> nat \<times> (edge_side \<times> nat) option"

definition keyOf :: "drop_target option \<Rightarrow> tree_key option" where
  "keyOf t = map_option (\<lambda>t. (dt_rowId t, dt_parentId t, dt_index t, dt_line t)) t"

text \<open>
  The options of the last render. The source's own data is a number to the tree, and \<open>accept\<close> says whether a place
  may take it.
\<close>

record dnd_options =
  do_rowById :: "(string, node_row) js_map"
  do_index :: tree_index
  do_canMove :: bool
  do_accept :: "(nat \<Rightarrow> dnd_place \<Rightarrow> bool) option"

record drop_record =
  rd_tree :: "string option"
  rd_row :: string
  rd_instruction :: "instruction option"

record dnd_payload =
  dp_item :: "(string \<times> string) option"
  dp_data :: nat
  dp_record :: "drop_record option"

record dnd_read =
  rr_own :: bool
  rr_sourceId :: "string option"
  rr_row :: "node_row option"
  rr_target :: "drop_target option"
  rr_takes :: bool

text \<open>\<open>read\<close>; the outer option is \<open>dropTarget\<close>'s, whose climb would not end on a cycle.\<close>

definition tree_read :: "string \<Rightarrow> dnd_options \<Rightarrow> dnd_payload \<Rightarrow> dnd_read option" where
  "tree_read treeId opts p =
    (let own = (map_option fst (dp_item p) = Some treeId);
         row = (case dp_record p of
            Some rec \<Rightarrow> if rd_tree rec = Some treeId then js_get (do_rowById opts) (rd_row rec) else None
          | None \<Rightarrow> None);
         ins = Option.bind (dp_record p) rd_instruction;
         sourceId = (if own then map_option snd (dp_item p) else None);
         result = (\<lambda>t. \<lparr>rr_own = own, rr_sourceId = sourceId, rr_row = row, rr_target = t,
           rr_takes = (if own then do_canMove opts else do_accept opts \<noteq> None)\<rparr>)
     in case (row, ins) of
          (Some r, Some i) \<Rightarrow>
            if own \<and> do_canMove opts then map_option result (dropTarget (do_index opts) r i sourceId)
            else (case (own, do_accept opts) of
              (False, Some canDrop) \<Rightarrow>
                map_option (\<lambda>place. result (case place of
                    Some t \<Rightarrow> if canDrop (dp_data p) (placeOf t) then Some t else None | None \<Rightarrow> None))
                  (dropTarget (do_index opts) r i None)
            | _ \<Rightarrow> Some (result None))
        | _ \<Rightarrow> Some (result None))"

record drag_state =
  dg_sourceId :: "string option"
  dg_target :: "drop_target option"

text \<open>\<open>dn_timer\<close> is the collapsed node the pointer rests on, and when it opens.\<close>

record tree_dnd =
  dn_options :: dnd_options
  dn_now :: int
  dn_drag :: "drag_state option"
  dn_hoverId :: "string option"
  dn_timer :: "(string \<times> int) option"
  dn_targetKey :: "(string option \<times> tree_key option) option"

definition tree_hover_expand :: int where
  "tree_hover_expand = 600"

definition hover_row :: "dnd_read \<Rightarrow> tree_dnd \<Rightarrow> tree_dnd" where
  "hover_row r s =
    (let rowId = map_option (\<lambda>row. tn_id (nr_node row)) (rr_row r) in
     if rowId = dn_hoverId s then s
     else (let s1 = s\<lparr>dn_timer := None, dn_hoverId := rowId\<rparr> in
       case rr_row r of
         Some row \<Rightarrow>
           if rr_takes r \<and> isExpandable (nr_node row) \<and> \<not> nr_expanded row
           then s1\<lparr>dn_timer := Some (tn_id (nr_node row), dn_now s + tree_hover_expand)\<rparr> else s1
       | None \<Rightarrow> s1))"

text \<open>What the drag should show: one from outside only matters while it is over the tree.\<close>

definition drag_of :: "dnd_read \<Rightarrow> drag_state option" where
  "drag_of r =
    (if rr_own r \<or> rr_row r \<noteq> None then Some \<lparr>dg_sourceId = rr_sourceId r, dg_target = rr_target r\<rparr> else None)"

definition drag_key :: "drag_state option \<Rightarrow> (string option \<times> tree_key option) option" where
  "drag_key d = map_option (\<lambda>d. (dg_sourceId d, keyOf (dg_target d))) d"

definition update_drag :: "dnd_read \<Rightarrow> tree_dnd \<Rightarrow> tree_dnd" where
  "update_drag r s =
    (let s1 = hover_row r s; drag = drag_of r; key = drag_key drag in
     if key \<noteq> dn_targetKey s1 then s1\<lparr>dn_targetKey := key, dn_drag := drag\<rparr> else s1)"

definition stop_drag :: "tree_dnd \<Rightarrow> tree_dnd" where
  "stop_drag s = s\<lparr>dn_timer := None, dn_hoverId := None, dn_targetKey := None, dn_drag := None\<rparr>"

datatype dnd_effect = NodeMoved string drop_target | DropAccepted nat dnd_place | NodeExpanded string

definition drop_effects :: "nat \<Rightarrow> dnd_read \<Rightarrow> dnd_effect list" where
  "drop_effects data r =
    (case rr_target r of
      None \<Rightarrow> []
    | Some t \<Rightarrow>
        (case (rr_own r, rr_sourceId r) of
          (True, Some i) \<Rightarrow> [NodeMoved i t]
        | _ \<Rightarrow> [DropAccepted data (placeOf t)]))"

datatype dnd_event = DndRendered dnd_options | DragMoves dnd_payload | DragDrops dnd_payload | DndTicks nat | HoverTimer

text \<open>A step, which does not return where \<open>read\<close> does not.\<close>

definition tree_dnd_step :: "string \<Rightarrow> tree_dnd \<Rightarrow> dnd_event \<Rightarrow> (tree_dnd \<times> dnd_effect list) option" where
  "tree_dnd_step treeId s e =
    (case e of
      DndRendered opts \<Rightarrow> Some (s\<lparr>dn_options := opts\<rparr>, [])
    | DragMoves p \<Rightarrow> map_option (\<lambda>r. (update_drag r s, [])) (tree_read treeId (dn_options s) p)
    | DragDrops p \<Rightarrow> map_option (\<lambda>r. (stop_drag s, drop_effects (dp_data p) r)) (tree_read treeId (dn_options s) p)
    | DndTicks n \<Rightarrow> Some (s\<lparr>dn_now := dn_now s + int n\<rparr>, [])
    | HoverTimer \<Rightarrow>
        (case dn_timer s of
          Some (i, t) \<Rightarrow> if t \<le> dn_now s then Some (s\<lparr>dn_timer := None\<rparr>, [NodeExpanded i]) else Some (s, [])
        | None \<Rightarrow> Some (s, [])))"

fun tree_dnd_run :: "string \<Rightarrow> tree_dnd \<Rightarrow> dnd_event list \<Rightarrow> (tree_dnd \<times> dnd_effect list) option" where
  "tree_dnd_run treeId s [] = Some (s, [])"
| "tree_dnd_run treeId s (e # es) =
    (case tree_dnd_step treeId s e of
      Some (s', effects) \<Rightarrow> map_option (\<lambda>(s'', more). (s'', effects @ more)) (tree_dnd_run treeId s' es)
    | None \<Rightarrow> None)"

definition new_dnd :: "dnd_options \<Rightarrow> int \<Rightarrow> tree_dnd" where
  "new_dnd opts now = \<lparr>dn_options = opts, dn_now = now, dn_drag = None, dn_hoverId = None, dn_timer = None, dn_targetKey = None\<rparr>"

section \<open>Dragging in a list\<close>

datatype list_operation = ReorderBefore | ReorderAfter | Combine

record list_drop =
  lp_index :: nat
  lp_edge :: edge_side
  lp_to :: nat

definition reorderTarget :: "nat \<Rightarrow> nat \<Rightarrow> list_operation \<Rightarrow> list_drop option" where
  "reorderTarget from_index over op =
    (if op = Combine then None
     else (let before = (op = ReorderBefore);
               place = (if before then over else over + 1);
               to = (if from_index < place then place - 1 else place)
       in if to = from_index then None
          else Some \<lparr>lp_index = over, lp_edge = (if before then EdgeTop else EdgeBottom), lp_to = to\<rparr>))"

datatype list_key = KeyText string | KeyNumber int

text \<open>A list's rows, where a hole is a row not loaded, and how an item gives its key.\<close>

record 'a list_rows =
  lr_data :: "'a option list"
  lr_getKey :: "('a \<Rightarrow> list_key) option"
  lr_reorderable :: bool

definition list_indexOf :: "'a list_rows \<Rightarrow> list_key \<Rightarrow> nat option" where
  "list_indexOf l key =
    (case lr_getKey l of
      Some getKey \<Rightarrow> find_index (\<lambda>x. map_option getKey x = Some key) (lr_data l)
    | None \<Rightarrow>
        (case key of
          KeyNumber i \<Rightarrow> if 0 \<le> i \<and> nat i < length (lr_data l) \<and> lr_data l ! nat i \<noteq> None then Some (nat i) else None
        | KeyText _ \<Rightarrow> None))"

definition list_keyOf :: "'a list_rows \<Rightarrow> nat \<Rightarrow> list_key" where
  "list_keyOf l i =
    (case (lr_getKey l, if i < length (lr_data l) then lr_data l ! i else None) of
      (Some getKey, Some x) \<Rightarrow> getKey x
    | _ \<Rightarrow> KeyNumber (int i))"

text \<open>The source's list and key; the row pointed at, the operation, and whether it is blocked.\<close>

record list_payload =
  lq_item :: "(string \<times> list_key) option"
  lq_over :: "(string option \<times> nat) option"
  lq_instruction :: "(list_operation \<times> bool) option"

record list_drag =
  lg_sourceKey :: list_key
  lg_target :: "list_drop option"

definition list_read :: "string \<Rightarrow> 'a list_rows \<Rightarrow> list_payload \<Rightarrow> list_drag option" where
  "list_read listId l p =
    (case lq_item p of
      None \<Rightarrow> None
    | Some (list, key) \<Rightarrow>
        if list \<noteq> listId then None
        else Some \<lparr>lg_sourceKey = key, lg_target =
          (case (list_indexOf l key, lq_over p, lq_instruction p) of
            (Some i, Some (overList, over), Some (op, blocked)) \<Rightarrow>
              if lr_reorderable l \<and> overList = Some listId \<and> \<not> blocked then reorderTarget i over op else None
          | _ \<Rightarrow> None)\<rparr>)"

record list_dnd =
  ld_drag :: "list_drag option"
  ld_key :: "(list_key \<times> (nat \<times> edge_side) option) option"

definition list_drag_key :: "list_drag option \<Rightarrow> (list_key \<times> (nat \<times> edge_side) option) option" where
  "list_drag_key d = map_option (\<lambda>d. (lg_sourceKey d, map_option (\<lambda>t. (lp_index t, lp_edge t)) (lg_target d))) d"

definition list_update :: "string \<Rightarrow> 'a list_rows \<Rightarrow> list_payload \<Rightarrow> list_dnd \<Rightarrow> list_dnd" where
  "list_update listId l p s =
    (let drag = list_read listId l p; key = list_drag_key drag in
     if key \<noteq> ld_key s then s\<lparr>ld_key := key, ld_drag := drag\<rparr> else s)"

text \<open>The drop: what \<open>reorder\<close> is called with.\<close>

definition list_drop_step :: "string \<Rightarrow> 'a list_rows \<Rightarrow> list_payload \<Rightarrow> list_dnd \<Rightarrow> list_dnd \<times> (list_key \<times> nat) option" where
  "list_drop_step listId l p s =
    (s\<lparr>ld_key := None, ld_drag := None\<rparr>,
     (case list_read listId l p of
       Some d \<Rightarrow> map_option (\<lambda>t. (lg_sourceKey d, lp_to t)) (lg_target d)
     | None \<Rightarrow> None))"

section \<open>The rows that stay\<close>

text \<open>The rows in view come from the library's extractor; the cursor's row and the dragged one are pinned.\<close>

definition pin_row :: "nat list \<Rightarrow> nat option \<Rightarrow> nat list" where
  "pin_row indexes pinned =
    (case pinned of Some i \<Rightarrow> if i \<in> set indexes then indexes else indexes @ [i] | None \<Rightarrow> indexes)"

definition rangeExtractor :: "nat list \<Rightarrow> nat option \<Rightarrow> nat option \<Rightarrow> nat list" where
  "rangeExtractor indexes cursorIndex sourceIndex = sort (foldl pin_row indexes [cursorIndex, sourceIndex])"

text \<open>The effect that reports the end of what is loaded: the length reported last, and whether it reports.\<close>

definition reach_end :: "nat \<Rightarrow> int \<Rightarrow> int \<Rightarrow> nat \<Rightarrow> int \<Rightarrow> int \<times> bool" where
  "reach_end row_count end_index endThreshold loaded reported =
    (if row_count = 0 \<or> end_index < int loaded - 1 - endThreshold then (reported, False)
     else if reported = int loaded then (reported, False)
     else (int loaded, True))"

section \<open>A drop in a list\<close>

lemma remove_at_nth:
  assumes "i < length xs" and "j < length xs" and "j \<noteq> i"
  shows "remove_at i xs ! (if i < j then j - 1 else j) = xs ! j" "(if i < j then j - 1 else j) < length (remove_at i xs)"
  using assms by (auto simp: remove_at_def nth_append min_def)

lemma insert_around:
  assumes "k < length ys"
  shows "insert_at k x ys = take k ys @ x # ys ! k # drop (Suc k) ys"
    and "insert_at (Suc k) x ys = take k ys @ ys ! k # x # drop (Suc k) ys"
  using assms by (simp_all add: insert_at_def Cons_nth_drop_Suc take_Suc_conv_app_nth)

text \<open>The row stands right before or right after the one pointed at, and it was not there before.\<close>

definition lands_beside :: "'a list \<Rightarrow> nat \<Rightarrow> list_drop \<Rightarrow> bool" where
  "lands_beside xs i t \<longleftrightarrow>
    lp_to t \<noteq> i \<and> lp_to t < length xs \<and>
    (\<exists>before after. remove_at i xs = before @ xs ! lp_index t # after \<and>
      insert_at (lp_to t) (xs ! i) (remove_at i xs) =
        (if lp_edge t = EdgeTop then before @ xs ! i # xs ! lp_index t # after
         else before @ xs ! lp_index t # xs ! i # after))"

lemma reorder_lands:
  assumes "reorderTarget i over op = Some t" and "i < length xs" and "over < length xs"
  shows "lands_beside xs i t"
proof -
  let ?ys = "remove_at i xs" and ?k = "if i < over then over - 1 else over"
  have ne: "over \<noteq> i" using assms(1) by (auto simp: reorderTarget_def Let_def split: if_splits)
  have t: "lp_index t = over" "lp_to t \<noteq> i" "lp_to t = (if lp_edge t = EdgeTop then ?k else Suc ?k)" "lp_to t < length xs"
    using assms ne by (auto simp: reorderTarget_def Let_def split: if_splits)
  note k = remove_at_nth [OF assms(2,3) ne]
  have "?ys = take ?k ?ys @ ?ys ! ?k # drop (Suc ?k) ?ys" using k(2) by (rule id_take_nth_drop)
  then show ?thesis
    unfolding lands_beside_def t(1) t(3) [folded t(1)]
    using t insert_around [OF k(2), of "xs ! i"] k(1)
    by (intro conjI exI [of _ "take ?k ?ys"] exI [of _ "drop (Suc ?k) ?ys"]) (simp_all split: if_splits)
qed

text \<open>Every state a drag goes through: the rows may change between its events.\<close>

definition list_drag_run :: "string \<Rightarrow> ('a list_rows \<times> list_payload) list \<Rightarrow> list_dnd" where
  "list_drag_run listId es = foldl (\<lambda>s (l, p). list_update listId l p s) \<lparr>ld_drag = None, ld_key = None\<rparr> es"

lemma list_drag_key: "ld_key (list_drag_run listId es) = list_drag_key (ld_drag (list_drag_run listId es))"
  by (induction es rule: rev_induct)
     (auto simp: list_drag_run_def list_drag_key_def list_update_def Let_def split: prod.split)

lemma list_update_key:
  assumes "ld_key s = list_drag_key (ld_drag s)"
  shows "list_drag_key (ld_drag (list_update listId l p s)) = list_drag_key (list_read listId l p)"
  using assms by (auto simp: list_update_def Let_def)

text \<open>
  A drop in a list does what it shows. When the last event of a drag and the drop say the same, the drop calls
  the app only if a line is on screen, for the dragged row; and the row taken out and put back at the index
  that the app is given then stands right before or right after the row with the line, at the line's edge,
  where it was not before.
\<close>

theorem list_drop_lands:
  assumes "s = list_drag_run listId (es @ [(l, p)])" and "snd (list_drop_step listId l p s) = Some (key, to)"
    and "\<And>over. lq_over p = Some (Some listId, over) \<Longrightarrow> over < length (lr_data l)"
    and "list_indexOf l key = Some i" and "i < length (lr_data l)"
  shows "\<exists>d t. ld_drag s = Some d \<and> lg_sourceKey d = key \<and> lg_target d = Some t \<and>
    lands_beside (lr_data l) i (t\<lparr>lp_to := to\<rparr>)"
proof -
  have "list_drag_key (ld_drag s) = list_drag_key (list_read listId l p)"
    using list_update_key [OF list_drag_key] assms(1) by (simp add: list_drag_run_def)
  moreover obtain d t' where read: "list_read listId l p = Some d" "lg_sourceKey d = key" "lg_target d = Some t'" "lp_to t' = to"
    using assms(2) by (auto simp: list_drop_step_def split: option.splits)
  ultimately obtain d' t where shown: "ld_drag s = Some d'" "lg_sourceKey d' = key" "lg_target d' = Some t"
      "lp_index t = lp_index t'" "lp_edge t = lp_edge t'"
    by (auto simp: list_drag_key_def)
  obtain over op where "lq_over p = Some (Some listId, over)" "reorderTarget i over op = Some t'"
    using read assms(4) by (auto simp: list_read_def split: option.splits prod.splits if_splits)
  then have "lands_beside (lr_data l) i t'" using reorder_lands assms(3,5) by blast
  moreover have "t\<lparr>lp_to := to\<rparr> = t'" using shown read by simp
  ultimately show ?thesis using shown by blast
qed

definition three_rows :: "string list_rows" where
  "three_rows = \<lparr>lr_data = [Some ''a'', Some ''b'', None, Some ''c''], lr_getKey = Some KeyText, lr_reorderable = True\<rparr>"

definition a_over_c :: list_payload where
  "a_over_c = \<lparr>lq_item = Some (''r1'', KeyText ''a''), lq_over = Some (Some ''r1'', 3), lq_instruction = Some (ReorderBefore, False)\<rparr>"

theorem list_drop_lands_witness:
  "\<exists>t. lands_beside (lr_data three_rows) 0 (t\<lparr>lp_to := 2\<rparr>)"
  using list_drop_lands [of "list_drag_run ''r1'' ([] @ [(three_rows, a_over_c)])" "''r1''" "[]" three_rows a_over_c "KeyText ''a''" 2 0]
  by (auto simp: list_drop_step_def list_read_def three_rows_def a_over_c_def list_indexOf_def reorderTarget_def)

section \<open>A drop in a tree\<close>

lemma drop_place_onto:
  "drop_place ix r ins dragged = Some (Some t) \<Longrightarrow> dt_onto t = (if dt_line t = None then Some (dt_rowId t) else None)"
  by (auto simp: drop_place_def drop_after_def Let_def split: instruction.splits if_splits option.splits)

lemma dropTarget_onto:
  "dropTarget ix r ins d = Some (Some t) \<Longrightarrow> dt_onto t = (if dt_line t = None then Some (dt_rowId t) else None)"
  by (auto simp: dropTarget_def Let_def split: if_splits option.splits bool.splits dest: drop_place_onto)

lemma keyOf_inj:
  assumes "keyOf (Some t) = keyOf (Some t')"
    and "dt_onto t = (if dt_line t = None then Some (dt_rowId t) else None)"
    and "dt_onto t' = (if dt_line t' = None then Some (dt_rowId t') else None)"
  shows "t = t'"
  using assms by (intro drop_target.equality) (simp_all add: keyOf_def)

definition target_ok :: "drop_target option \<Rightarrow> bool" where
  "target_ok t \<longleftrightarrow> (\<forall>u. t = Some u \<longrightarrow> dt_onto u = (if dt_line u = None then Some (dt_rowId u) else None))"

lemma keyOf_same: "keyOf t = keyOf t' \<Longrightarrow> target_ok t \<Longrightarrow> target_ok t' \<Longrightarrow> t = t'"
  using keyOf_inj by (cases t; cases t') (auto simp: target_ok_def keyOf_def)

lemma tree_read_ok: "tree_read treeId opts p = Some r \<Longrightarrow> target_ok (rr_target r)"
  unfolding target_ok_def using dropTarget_onto
  by (auto simp: tree_read_def Let_def split: option.splits if_splits bool.splits)

lemma tree_read_source: "tree_read treeId opts p = Some r \<Longrightarrow> rr_own r \<longleftrightarrow> rr_sourceId r \<noteq> None"
  by (auto simp: tree_read_def Let_def split: option.splits if_splits bool.splits)

lemma tree_read_row: "tree_read treeId opts p = Some r \<Longrightarrow> rr_target r \<noteq> None \<Longrightarrow> rr_row r \<noteq> None"
  by (auto simp: tree_read_def Let_def split: option.splits if_splits bool.splits)

definition drag_shown_ok :: "drag_state option \<Rightarrow> bool" where
  "drag_shown_ok d \<longleftrightarrow> (\<forall>x. d = Some x \<longrightarrow> target_ok (dg_target x))"

lemma drag_key_same: "drag_key d = drag_key d' \<Longrightarrow> drag_shown_ok d \<Longrightarrow> drag_shown_ok d' \<Longrightarrow> d = d'"
  using keyOf_same by (cases d; cases d') (fastforce simp: drag_key_def drag_shown_ok_def intro: drag_state.equality)+

definition dnd_ok :: "tree_dnd \<Rightarrow> bool" where
  "dnd_ok s \<longleftrightarrow> dn_targetKey s = drag_key (dn_drag s) \<and> drag_shown_ok (dn_drag s) \<and>
    (\<forall>i t. dn_timer s = Some (i, t) \<longrightarrow> dn_hoverId s = Some i)"

lemma hover_fields [simp]: "dn_drag (hover_row r s) = dn_drag s" "dn_targetKey (hover_row r s) = dn_targetKey s"
  by (simp_all add: hover_row_def Let_def split: option.split)

lemma hover_timer:
  "\<forall>i t. dn_timer s = Some (i, t) \<longrightarrow> dn_hoverId s = Some i \<Longrightarrow>
    \<forall>i t. dn_timer (hover_row r s) = Some (i, t) \<longrightarrow> dn_hoverId (hover_row r s) = Some i"
  by (auto simp: hover_row_def Let_def split: option.splits)

lemma update_drag_shows:
  assumes "dnd_ok s" and "target_ok (rr_target r)"
  shows "dn_drag (update_drag r s) = drag_of r" "dnd_ok (update_drag r s)"
proof -
  have "drag_shown_ok (drag_of r)" using assms(2) by (simp add: drag_of_def drag_shown_ok_def)
  then show "dn_drag (update_drag r s) = drag_of r"
    using assms(1) drag_key_same by (auto simp: update_drag_def Let_def dnd_ok_def)
  show "dnd_ok (update_drag r s)"
    using assms(1) \<open>drag_shown_ok (drag_of r)\<close> hover_timer [of s r] by (auto simp: update_drag_def Let_def dnd_ok_def)
qed

lemma tree_dnd_step_ok: "dnd_ok s \<Longrightarrow> tree_dnd_step treeId s e = Some (s', effects) \<Longrightarrow> dnd_ok s'"
  by (cases e)
     (auto simp: tree_dnd_step_def stop_drag_def drag_key_def drag_shown_ok_def dnd_ok_def split: option.splits if_splits
       dest!: tree_read_ok update_drag_shows(2) [rotated])

lemma tree_dnd_run_ok: "tree_dnd_run treeId s es = Some (s', effects) \<Longrightarrow> dnd_ok s \<Longrightarrow> dnd_ok s'"
proof (induction es arbitrary: s effects)
  case Nil
  then show ?case by simp
next
  case (Cons e es)
  then show ?case using tree_dnd_step_ok by (fastforce split: option.splits)
qed

lemma tree_dnd_run_snoc:
  "tree_dnd_run treeId s (es @ [e]) = Some (s', effects) \<longleftrightarrow>
    (\<exists>s1 first more. tree_dnd_run treeId s es = Some (s1, first) \<and> tree_dnd_step treeId s1 e = Some (s', more) \<and> effects = first @ more)"
  by (induction es arbitrary: s effects) (fastforce split: option.splits)+

lemma new_dnd_ok: "dnd_ok (new_dnd opts now)"
  by (simp add: dnd_ok_def new_dnd_def drag_key_def drag_shown_ok_def)

text \<open>What the drag on screen says a drop would do.\<close>

definition shown_effects :: "nat \<Rightarrow> drag_state option \<Rightarrow> dnd_effect list" where
  "shown_effects data drag =
    (case drag of
      Some d \<Rightarrow>
        (case (dg_target d, dg_sourceId d) of
          (Some t, Some i) \<Rightarrow> [NodeMoved i t]
        | (Some t, None) \<Rightarrow> [DropAccepted data (placeOf t)]
        | _ \<Rightarrow> [])
    | None \<Rightarrow> [])"

text \<open>
  C35: A drop in a tree does what it shows. After any history of renders, drags, drops and time, when the pointer
  moved and the drop says the same, the drop moves the dragged row to exactly the place the line or the lit
  row shows, or hands it to the app for that place, and does nothing when nothing is shown; and then nothing is
  shown, nothing opens later, and the drag has left no state.
\<close>

theorem tree_drop_does_what_shows:
  assumes "tree_dnd_run treeId (new_dnd opts now) (es @ [DragMoves p]) = Some (s, before)"
    and "tree_dnd_step treeId s (DragDrops p) = Some (s', effects)"
  shows "effects = shown_effects (dp_data p) (dn_drag s) \<and>
    dn_drag s' = None \<and> dn_hoverId s' = None \<and> dn_timer s' = None \<and> dn_targetKey s' = None"
proof -
  obtain s1 first where s1: "tree_dnd_run treeId (new_dnd opts now) es = Some (s1, first)"
      "tree_dnd_step treeId s1 (DragMoves p) = Some (s, [])"
    using assms(1) unfolding tree_dnd_run_snoc by (auto simp: tree_dnd_step_def)
  have ok: "dnd_ok s1" by (rule tree_dnd_run_ok [OF s1(1) new_dnd_ok])
  obtain r where r: "tree_read treeId (dn_options s1) p = Some r" "s = update_drag r s1"
    using s1(2) by (auto simp: tree_dnd_step_def)
  have drag: "dn_drag s = drag_of r" using update_drag_shows(1) [OF ok tree_read_ok [OF r(1)]] r(2) by simp
  have "dn_options s = dn_options s1"
    by (simp add: r(2) update_drag_def hover_row_def Let_def split: option.split)
  then have step: "s' = stop_drag s" "effects = drop_effects (dp_data p) r"
    using assms(2) r(1) by (auto simp: tree_dnd_step_def)
  have "drop_effects (dp_data p) r = shown_effects (dp_data p) (drag_of r)"
    using tree_read_source [OF r(1)] tree_read_row [OF r(1)]
    by (auto simp: drop_effects_def shown_effects_def drag_of_def split: option.split)
  then show ?thesis using step drag by (simp add: stop_drag_def)
qed

definition c_over_e :: dnd_payload where
  "c_over_e = \<lparr>dp_item = Some (''t'', ''c''), dp_data = 0,
    dp_record = Some \<lparr>rd_tree = Some ''t'', rd_row = ''e'', rd_instruction = Some ReorderAbove\<rparr>\<rparr>"

definition small_options :: dnd_options where
  "small_options = \<lparr>do_rowById = [(''e'', \<lparr>nr_node = leaf ''e'', nr_depth = 0, nr_parentId = None, nr_index = 1, nr_setSize = 2,
      nr_expanded = False\<rparr>)], do_index = indexTree small_tree, do_canMove = True, do_accept = None\<rparr>"

lemma small_drag:
  "tree_read ''t'' small_options c_over_e = Some \<lparr>rr_own = True, rr_sourceId = Some ''c'',
    rr_row = js_get (do_rowById small_options) ''e'',
    rr_target = Some \<lparr>dt_parentId = None, dt_index = 1, dt_rowId = ''e'', dt_line = Some (EdgeTop, 0), dt_onto = None\<rparr>,
    rr_takes = True\<rparr>"
  by (simp add: tree_read_def c_over_e_def small_options_def Let_def small_tree_simps dropTarget_def isWithin_def ancestorsOf_def
      parent_in_def drop_place_def holds_nodes_def canContain_def taken_out_def unchanged_def climb.simps)

theorem tree_drop_does_what_shows_witness:
  "\<exists>s s'. tree_dnd_step ''t'' s (DragDrops c_over_e) = Some (s', [NodeMoved ''c''
      \<lparr>dt_parentId = None, dt_index = 1, dt_rowId = ''e'', dt_line = Some (EdgeTop, 0), dt_onto = None\<rparr>]) \<and>
    shown_effects 0 (dn_drag s) = [NodeMoved ''c''
      \<lparr>dt_parentId = None, dt_index = 1, dt_rowId = ''e'', dt_line = Some (EdgeTop, 0), dt_onto = None\<rparr>]"
proof -
  obtain s where run: "tree_dnd_run ''t'' (new_dnd small_options 0) ([] @ [DragMoves c_over_e]) = Some (s, [])"
      and "dn_options s = small_options"
    by (simp add: tree_dnd_step_def small_drag new_dnd_def update_drag_def hover_row_def Let_def split: option.split)
  then obtain s' where step: "tree_dnd_step ''t'' s (DragDrops c_over_e) = Some (s', [NodeMoved ''c''
      \<lparr>dt_parentId = None, dt_index = 1, dt_rowId = ''e'', dt_line = Some (EdgeTop, 0), dt_onto = None\<rparr>])"
    by (simp add: tree_dnd_step_def small_drag drop_effects_def)
  then show ?thesis using tree_drop_does_what_shows [OF run step] by (auto simp: c_over_e_def)
qed

section \<open>A drag always gets its answer\<close>

lemma dropTarget_ends:
  assumes "unique_ids nodes" and "RowNode r \<in> set (visibleRows nodes expanded loads)"
  shows "dropTarget (indexTree nodes) r ins d \<noteq> None"
proof -
  obtain as where "ancestorsOf (indexTree nodes) (tn_id (nr_node r)) = Some as"
    using ancestors_end [OF assms(1) row_get [OF assms]] by blast
  then have "\<forall>i. \<exists>w. isWithin (indexTree nodes) (tn_id (nr_node r)) i = Some w"
      "\<forall>dragged. \<exists>p. drop_place (indexTree nodes) r ins dragged = Some p"
    by (auto simp: isWithin_def drop_place_def Let_def split: instruction.split)
  then obtain w p where "\<And>i. isWithin (indexTree nodes) (tn_id (nr_node r)) i = Some (w i)"
      "\<And>dragged. drop_place (indexTree nodes) r ins dragged = Some (p dragged)"
    by metis
  then show ?thesis by (simp add: dropTarget_def Let_def split: option.split bool.split)
qed

text \<open>The options of a tree: its index, and its rows on screen by their ids.\<close>

definition options_of :: "tree_node list \<Rightarrow> dnd_options \<Rightarrow> bool" where
  "options_of nodes opts \<longleftrightarrow>
    unique_ids nodes \<and> do_index opts = indexTree nodes \<and>
    (\<exists>expanded loads. \<forall>i r. js_get (do_rowById opts) i = Some r \<longrightarrow> RowNode r \<in> set (visibleRows nodes expanded loads))"

lemma tree_read_returns: "options_of nodes opts \<Longrightarrow> \<exists>r. tree_read treeId opts p = Some r"
  using dropTarget_ends
  by (fastforce simp: options_of_def tree_read_def Let_def split: option.splits bool.splits)

lemma tree_dnd_step_returns:
  assumes "options_of nodes (dn_options s)" and "\<And>opts. e = DndRendered opts \<Longrightarrow> \<exists>nodes. options_of nodes opts"
  shows "\<exists>s' effects nodes'. tree_dnd_step treeId s e = Some (s', effects) \<and> options_of nodes' (dn_options s')"
proof -
  have "dn_options (update_drag r s) = dn_options s" "dn_options (stop_drag s) = dn_options s" for r
    by (simp_all add: update_drag_def hover_row_def stop_drag_def Let_def split: option.split)
  then show ?thesis
    using assms tree_read_returns [OF assms(1), of treeId]
    by (cases e) (fastforce simp: tree_dnd_step_def split: option.split)+
qed

text \<open>Over trees whose ids are unique, no drag ever hangs.\<close>

theorem tree_drag_returns:
  assumes "options_of nodes (dn_options s)" and "\<And>opts. DndRendered opts \<in> set es \<Longrightarrow> \<exists>nodes. options_of nodes opts"
  shows "\<exists>s' effects. tree_dnd_run treeId s es = Some (s', effects)"
  using assms
proof (induction es arbitrary: s nodes)
  case Nil
  then show ?case by simp
next
  case (Cons e es)
  have "\<And>opts. e = DndRendered opts \<Longrightarrow> \<exists>nodes. options_of nodes opts" using Cons.prems(2) by simp
  then obtain s1 effects nodes1 where s1: "tree_dnd_step treeId s e = Some (s1, effects)" "options_of nodes1 (dn_options s1)"
    using tree_dnd_step_returns [OF Cons.prems(1), of e treeId] by blast
  obtain s' more where "tree_dnd_run treeId s1 es = Some (s', more)"
    using Cons.IH [OF s1(2)] Cons.prems(2) by auto
  then show ?case using s1(1) by simp
qed

section \<open>The rows of a virtual list\<close>

lemma pin_row_set: "set (pin_row indexes pinned) = set indexes \<union> set_option pinned"
  by (auto simp: pin_row_def split: option.split)

lemma pin_row_distinct: "distinct indexes \<Longrightarrow> distinct (pin_row indexes pinned)"
  by (simp add: pin_row_def split: option.split)

text \<open>In order, each once: the rows in view, the cursor's and the dragged one.\<close>

lemma range_pins:
  assumes "distinct indexes"
  shows "sorted (rangeExtractor indexes c d)" "distinct (rangeExtractor indexes c d)"
    "set (rangeExtractor indexes c d) = set indexes \<union> set_option c \<union> set_option d"
  using assms by (auto simp: rangeExtractor_def pin_row_set pin_row_distinct)

text \<open>The end is reported once per length: a report changes what was reported last, and the next at that length is silent.\<close>

lemma reach_end_once:
  assumes "reach_end n e th loaded reported = (reported', True)"
  shows "reported' = int loaded" "reported \<noteq> int loaded" "\<not> snd (reach_end n' e' th' loaded reported')"
  using assms by (auto simp: reach_end_def split: if_splits)

end
