(* ===== verification/Inbox_Paging.thy ===== *)
theory Inbox_Paging
  imports Inbox_Screen Drag_Drop
begin

text \<open>
  The Inbox loads as it is scrolled: the virtual list reports the end of what is loaded (\<open>reach_end\<close> of
  \<open>Drag_Drop\<close>), the page asks its query for the next page, the footer says what comes of it
  (\<open>pages/Inbox/ui/InboxList.tsx\<close>, \<open>ui/InboxListFooter.tsx\<close>, \<open>hooks/useNotificationQueries.ts\<close>). A tab is its number of
  rows (\<open>entries.length\<close>, headers included) and the flags of its infinite query. One list is on screen: the element
  has the same place and type in every tab, so its state goes on from tab to tab, and starts again only when
  something else was shown in between.
\<close>

section \<open>Pages\<close>

text \<open>\<open>getNextPageParam\<close> and \<open>select\<close>: the cursor of the next page and the list, from the pages so far.\<close>

record inbox_page_data =
  pd_rows :: "notification list"
  pd_nextCursor :: "string option"

definition next_cursor :: "inbox_page_data list \<Rightarrow> string option" where
  "next_cursor pages = (if pages = [] then None else pd_nextCursor (last pages))"

definition hasNextPage :: "inbox_page_data list \<Rightarrow> bool" where
  "hasNextPage pages \<longleftrightarrow> next_cursor pages \<noteq> None"

definition notifications_of :: "inbox_page_data list \<Rightarrow> notification list" where
  "notifications_of pages = concat (map pd_rows pages)"

record inbox_tab =
  tb_loaded :: bool
  tb_rows :: nat
  tb_hasNext :: bool
  tb_busy :: bool
  tb_failed :: bool

datatype footer = NoFooter | FooterLoading | FooterFailed

definition footer_of :: "inbox_tab \<Rightarrow> footer" where
  "footer_of t = (if \<not> tb_busy t \<and> \<not> tb_failed t then NoFooter else if tb_failed t then FooterFailed else FooterLoading)"

definition endThreshold :: int where
  "endThreshold = 10"

section \<open>The list over the tabs\<close>

text \<open>\<open>pg_reported\<close> is the list's ref, \<open>pg_end\<close> the last row in view; both \<open>-1\<close> in a fresh list.\<close>

record paging =
  pg_tab :: inbox_view
  pg_tabs :: "inbox_view \<Rightarrow> inbox_tab"
  pg_end :: int
  pg_reported :: int

definition tab_now :: "paging \<Rightarrow> inbox_tab" where
  "tab_now p = pg_tabs p (pg_tab p)"

definition set_tab :: "(inbox_tab \<Rightarrow> inbox_tab) \<Rightarrow> paging \<Rightarrow> paging" where
  "set_tab f p = p\<lparr>pg_tabs := (pg_tabs p)(pg_tab p := f (tab_now p))\<rparr>"

text \<open>\<open>fetchNextPage\<close>: without a next page there is nothing to fetch.\<close>

definition fetch_next :: "inbox_tab \<Rightarrow> inbox_tab" where
  "fetch_next t = (if tb_hasNext t then t\<lparr>tb_busy := True, tb_failed := False\<rparr> else t)"

text \<open>The list's effect; \<open>count\<close> is the length of what is loaded.\<close>

definition end_effect :: "paging \<Rightarrow> paging" where
  "end_effect p =
    (let rows = tb_rows (tab_now p); (reported, ask) = reach_end rows (pg_end p) endThreshold rows (pg_reported p);
         p1 = p\<lparr>pg_reported := reported\<rparr>
     in if ask then set_tab fetch_next p1 else p1)"

text \<open>
  Another tab: a tab that is loaded and has rows takes over the list as it is, else a skeleton or the empty
  state stands there and the list is gone.
\<close>

definition choose_tab :: "inbox_view \<Rightarrow> paging \<Rightarrow> paging" where
  "choose_tab v p =
    (let t = pg_tabs p v in
     if tb_loaded t \<and> 0 < tb_rows t then p\<lparr>pg_tab := v\<rparr> else p\<lparr>pg_tab := v, pg_end := -1, pg_reported := -1\<rparr>)"

datatype paging_event =
  EndAt int
| PageArrived nat bool
| PageFailed
| RetryPage
| RowsAre nat
| TabChosen inbox_view

definition paging_change :: "paging \<Rightarrow> paging_event \<Rightarrow> paging" where
  "paging_change p e =
    (case e of
      EndAt i \<Rightarrow> p\<lparr>pg_end := i\<rparr>
    | PageArrived n hasMore \<Rightarrow>
        set_tab (\<lambda>t. t\<lparr>tb_rows := tb_rows t + n, tb_hasNext := hasMore, tb_busy := False, tb_failed := False\<rparr>) p
    | PageFailed \<Rightarrow> set_tab (\<lambda>t. t\<lparr>tb_busy := False, tb_failed := True\<rparr>) p
    | RetryPage \<Rightarrow> if footer_of (tab_now p) = FooterFailed then set_tab fetch_next p else p
    | RowsAre n \<Rightarrow> set_tab (\<lambda>t. t\<lparr>tb_rows := n\<rparr>) p
    | TabChosen v \<Rightarrow> choose_tab v p)"

definition paging_step :: "paging \<Rightarrow> paging_event \<Rightarrow> paging" where
  "paging_step p e = end_effect (paging_change p e)"

definition paging_run :: "paging_event list \<Rightarrow> paging \<Rightarrow> paging" where
  "paging_run es p = foldl paging_step p es"

section \<open>The end is asked for\<close>

definition end_in_view :: "paging \<Rightarrow> bool" where
  "end_in_view p \<longleftrightarrow> 0 < tb_rows (tab_now p) \<and> int (tb_rows (tab_now p)) - 1 - endThreshold \<le> pg_end p"

text \<open>More is on its way, or the footer offers to try again, or there is no more.\<close>

definition provided_for :: "inbox_tab \<Rightarrow> bool" where
  "provided_for t \<longleftrightarrow> tb_hasNext t \<longrightarrow> tb_busy t \<or> tb_failed t"

text \<open>
  What the list relies on: a page that is not the last brings at least one row, and the number of rows never becomes
  the number last reported, neither by rows that come or go nor in another tab.
\<close>

definition rows_after :: "paging \<Rightarrow> paging_event \<Rightarrow> int" where
  "rows_after p e = int (tb_rows (tab_now (paging_change p e)))"

definition length_news :: "paging \<Rightarrow> paging_event \<Rightarrow> bool" where
  "length_news p e =
    (case e of
      PageArrived n hasMore \<Rightarrow> hasMore \<longrightarrow> rows_after p e \<noteq> pg_reported p
    | RowsAre n \<Rightarrow> n = tb_rows (tab_now p) \<or> rows_after p e \<noteq> pg_reported p
    | TabChosen v \<Rightarrow> v = pg_tab p \<or> rows_after p e \<noteq> pg_reported (paging_change p e)
    | _ \<Rightarrow> True)"

definition paging_ok :: "paging \<Rightarrow> bool" where
  "paging_ok p \<longleftrightarrow>
    (end_in_view p \<longrightarrow> pg_reported p = int (tb_rows (tab_now p))) \<and>
    (pg_reported p = int (tb_rows (tab_now p)) \<longrightarrow> provided_for (tab_now p))"

lemma set_tab_now [simp]:
  "tab_now (set_tab f p) = f (tab_now p)" "pg_reported (set_tab f p) = pg_reported p" "pg_end (set_tab f p) = pg_end p"
  "pg_tab (set_tab f p) = pg_tab p"
  by (simp_all add: set_tab_def tab_now_def)

lemma tab_now_update [simp]:
  "tab_now (p\<lparr>pg_reported := r\<rparr>) = tab_now p" "tab_now (p\<lparr>pg_end := i\<rparr>) = tab_now p"
  by (simp_all add: tab_now_def)

lemma fetch_next_fields [simp]: "tb_rows (fetch_next t) = tb_rows t" "provided_for (fetch_next t)"
  by (simp_all add: fetch_next_def provided_for_def)

text \<open>After the effect all is well if it was before, for the length last reported.\<close>

lemma end_effect_ok:
  assumes "pg_reported p = int (tb_rows (tab_now p)) \<longrightarrow> provided_for (tab_now p)"
  shows "paging_ok (end_effect p)"
proof (cases "snd (reach_end (tb_rows (tab_now p)) (pg_end p) endThreshold (tb_rows (tab_now p)) (pg_reported p))")
  case True
  then have "end_effect p = set_tab fetch_next (p\<lparr>pg_reported := int (tb_rows (tab_now p))\<rparr>)"
    by (simp add: end_effect_def reach_end_def Let_def split: if_splits)
  then show ?thesis by (simp add: paging_ok_def)
next
  case False
  then have "end_effect p = p" "end_in_view p \<longrightarrow> pg_reported p = int (tb_rows (tab_now p))"
    by (auto simp: end_effect_def reach_end_def end_in_view_def Let_def split: if_splits)
  then show ?thesis using assms by (simp add: paging_ok_def)
qed

lemma change_keeps:
  assumes "paging_ok p" and "length_news p e"
  shows "pg_reported (paging_change p e) = int (tb_rows (tab_now (paging_change p e))) \<longrightarrow>
    provided_for (tab_now (paging_change p e))"
proof (cases e)
  case (TabChosen v)
  show ?thesis
  proof (cases "v = pg_tab p")
    case True
    then show ?thesis using TabChosen assms(1)
      by (auto simp: paging_change_def choose_tab_def paging_ok_def tab_now_def Let_def)
  next
    case False
    then show ?thesis using TabChosen assms(2) by (simp add: length_news_def rows_after_def)
  qed
qed (use assms in \<open>auto simp: paging_change_def length_news_def rows_after_def paging_ok_def provided_for_def fetch_next_def\<close>)

interpretation paging: event_machine paging_step length_news paging_ok
  by unfold_locales (simp add: paging_step_def end_effect_ok change_keeps)


definition start_paging :: "(inbox_view \<Rightarrow> inbox_tab) \<Rightarrow> inbox_view \<Rightarrow> paging" where
  "start_paging tabs v = end_effect \<lparr>pg_tab = v, pg_tabs = tabs, pg_end = -1, pg_reported = -1\<rparr>"

lemma start_paging_ok: "paging_ok (start_paging tabs v)"
  unfolding start_paging_def by (rule end_effect_ok) simp


definition tab_of :: "nat \<Rightarrow> inbox_tab" where
  "tab_of n = \<lparr>tb_loaded = True, tb_rows = n, tb_hasNext = True, tb_busy = False, tb_failed = False\<rparr>"

definition scrolled_down :: "paging_event list" where
  "scrolled_down = [EndAt 12, EndAt 29, PageArrived 20 True, EndAt 45]"


text \<open>
  The length does come back: from a tab whose end was reported to another loaded tab with as many rows. Its
  end is not asked for, however far it is scrolled: there is more, and neither a request nor a footer.
\<close>

lemma equal_tabs_stall:
  assumes "pg_reported p = int (tb_rows (pg_tabs p v))" and "tb_loaded (pg_tabs p v)" and "0 < tb_rows (pg_tabs p v)"
  shows "tab_now (paging_run (TabChosen v # map EndAt ends) p) = pg_tabs p v"
proof -
  define q where "q = paging_step p (TabChosen v)"
  have q: "q = p\<lparr>pg_tab := v\<rparr>"
    using assms by (simp add: q_def paging_step_def paging_change_def choose_tab_def end_effect_def reach_end_def tab_now_def Let_def)
  have stay: "tab_now (paging_run (map EndAt ends) q) = tab_now q" if "pg_reported q = int (tb_rows (tab_now q))" for q
    using that
  proof (induction ends arbitrary: q)
    case Nil
    then show ?case by (simp add: paging_run_def)
  next
    case (Cons i ends)
    then have "paging_step q (EndAt i) = q\<lparr>pg_end := i\<rparr>"
      by (simp add: paging_step_def paging_change_def end_effect_def reach_end_def Let_def)
    then show ?case using Cons by (simp add: paging_run_def)
  qed
  show ?thesis using stay [of q] q assms by (simp add: paging_run_def q_def [symmetric] tab_now_def)
qed

lemma equal_tabs_happen:
  "pg_reported (paging_run [EndAt 29] (start_paging (\<lambda>_. tab_of 30) ViewAll)) = int (tb_rows (tab_of 30))"
  "footer_of (tab_now (paging_run [EndAt 29, TabChosen ViewArchived, EndAt 29] (start_paging (\<lambda>_. tab_of 30) ViewAll))) = NoFooter"
  by code_simp+

section \<open>Pages in order\<close>

lemma notifications_of_next: "notifications_of (pages @ [p]) = notifications_of pages @ pd_rows p"
  "hasNextPage (pages @ [p]) \<longleftrightarrow> pd_nextCursor p \<noteq> None"
  by (simp_all add: notifications_of_def hasNextPage_def next_cursor_def)

end
