(* ===== verification/Keyboard.thy ===== *)
theory Keyboard
  imports Prelude "HOL-Library.Char_ord" "HOL-Library.List_Lexorder"
begin

text \<open>
  The keyboard of the kit: the hotkey registry, combinations and sequences (\<open>interaction/hotkeys\<close>),
  keys by their written notation (\<open>Kbd/matchKeys.ts\<close>, \<open>Kbd/formatKeys.ts\<close>) and the Esc ladder
  (\<open>interaction/escape\<close>). Characters are those of Latin-1, on which the case functions and the
  classes \<open>\p{L}\<close> and \<open>\s\<close> are written out; a letter of another script behaves as the Latin-1 letters
  outside a to z do. A registration is the config object it was made with, numbered: its callback is
  called by that number. What a handler of the ladder answers is an argument.
\<close>

section \<open>Keys\<close>

definition char_code :: "char \<Rightarrow> nat" where
  "char_code c = of_char c"

definition ascii_letter :: "char \<Rightarrow> bool" where
  "ascii_letter c \<longleftrightarrow> 65 \<le> char_code c \<and> char_code c \<le> 90 \<or> 97 \<le> char_code c \<and> char_code c \<le> 122"

text \<open>Whether the lower and the upper case of a character differ.\<close>

definition cased :: "char \<Rightarrow> bool" where
  "cased c \<longleftrightarrow> ascii_letter c \<or> char_code c = 181 \<or> 192 \<le> char_code c \<and> char_code c \<noteq> 215 \<and> char_code c \<noteq> 247"

definition letter :: "char \<Rightarrow> bool" where
  "letter c \<longleftrightarrow> cased c \<or> char_code c = 170 \<or> char_code c = 186"

definition lower_char :: "char \<Rightarrow> char" where
  "lower_char c = (let n = char_code c in
    if 65 \<le> n \<and> n \<le> 90 \<or> 192 \<le> n \<and> n \<le> 222 \<and> n \<noteq> 215 then char_of (n + 32) else c)"

definition to_lower :: "string \<Rightarrow> string" where
  "to_lower s = map lower_char s"

definition blank :: "char \<Rightarrow> bool" where
  "blank c \<longleftrightarrow> 9 \<le> char_code c \<and> char_code c \<le> 13 \<or> char_code c = 32 \<or> char_code c = 160"

record key_event =
  ke_key :: string
  ke_code :: "string option"
  ke_meta :: bool
  ke_ctrl :: bool
  ke_alt :: bool
  ke_shift :: bool

text \<open>\<open>LETTER_KEY.exec\<close>: the letter of a code like \<open>KeyB\<close>.\<close>

definition letter_of_code :: "string \<Rightarrow> char option" where
  "letter_of_code code =
    (if length code = 4 \<and> take 3 code = ''Key'' \<and> 65 \<le> char_code (code ! 3) \<and> char_code (code ! 3) \<le> 90
     then Some (code ! 3) else None)"

definition latinKey :: "string \<Rightarrow> string option \<Rightarrow> string" where
  "latinKey key code =
    (let foreignLetter = (case key of [c] \<Rightarrow> letter c \<and> \<not> ascii_letter c | _ \<Rightarrow> False);
         physical = (if foreignLetter \<and> truthy code then letter_of_code (the code) else None)
     in (case physical of Some c \<Rightarrow> [lower_char c] | None \<Rightarrow> key))"

section \<open>Combinations\<close>

definition HOTKEY_KEY_SEPARATOR :: string where
  "HOTKEY_KEY_SEPARATOR = '' + ''"

definition HOTKEY_SEQUENCE_SEPARATOR :: string where
  "HOTKEY_SEQUENCE_SEPARATOR = '' > ''"

definition HOTKEY_CHORD_WINDOW_MS :: int where
  "HOTKEY_CHORD_WINDOW_MS = 1000"

fun join :: "string \<Rightarrow> string list \<Rightarrow> string" where
  "join sep [] = []"
| "join sep [x] = x"
| "join sep (x # y # ys) = x @ sep @ join sep (y # ys)"

record hotkey_config =
  hk_key :: string
  hk_shift :: bool
  hk_ctrl :: bool
  hk_alt :: bool
  hk_meta :: bool

record hotkey_handler_config = hotkey_config +
  hk_chord :: "hotkey_config option"

definition applyLayerKeys :: "string list \<Rightarrow> hotkey_config \<Rightarrow> string list" where
  "applyLayerKeys keys c = keys @ (if hk_ctrl c then [''Control''] else []) @ (if hk_shift c then [''Shift''] else []) @
    (if hk_alt c then [''Alt''] else []) @ (if hk_meta c then [''Meta''] else [])"

definition normalizeStep :: "hotkey_config \<Rightarrow> hotkey_config" where
  "normalizeStep step =
    (case hk_key step of
      [c] \<Rightarrow> if c = CHR '' '' then step
             else if cased c then step\<lparr>hk_key := [lower_char c]\<rparr>
             else step\<lparr>hk_shift := False\<rparr>
    | _ \<Rightarrow> step)"

definition combineKeys :: "string list \<Rightarrow> string" where
  "combineKeys keys = join HOTKEY_KEY_SEPARATOR (sort keys)"

definition stepToString :: "hotkey_config \<Rightarrow> string" where
  "stepToString config = (let step = normalizeStep config in combineKeys (applyLayerKeys [] step @ [hk_key step]))"

definition event_config :: "key_event \<Rightarrow> hotkey_config" where
  "event_config e = \<lparr>hk_key = latinKey (ke_key e) (ke_code e), hk_shift = ke_shift e, hk_ctrl = ke_ctrl e,
    hk_alt = ke_alt e, hk_meta = ke_meta e\<rparr>"

definition parseEventToHotkey :: "key_event \<Rightarrow> string list" where
  "parseEventToHotkey e = (let step = normalizeStep (event_config e) in applyLayerKeys [] step @ [hk_key step])"

definition getEventHotkeyString :: "key_event \<Rightarrow> string" where
  "getEventHotkeyString e = combineKeys (parseEventToHotkey e)"

definition getHotkeyCombinationString :: "hotkey_handler_config \<Rightarrow> string" where
  "getHotkeyCombinationString c =
    (let finalStep = stepToString (hotkey_config.truncate c)
     in (case hk_chord c of
          None \<Rightarrow> finalStep
        | Some chord \<Rightarrow> stepToString chord @ HOTKEY_SEQUENCE_SEPARATOR @ finalStep))"

section \<open>The registry\<close>

datatype hotkey_name = OneKey string | KeyList "string list"

record hotkeys_state =
  hs_hotkeys :: "(string, nat list) js_map"
  hs_activeChord :: "string option"

definition normalizeHotkey :: "hotkey_name \<Rightarrow> string" where
  "normalizeHotkey n = (case n of OneKey k \<Rightarrow> k | KeyList ks \<Rightarrow> join HOTKEY_KEY_SEPARATOR (sort ks))"

definition registrations :: "string \<Rightarrow> hotkeys_state \<Rightarrow> nat list" where
  "registrations k s = (case js_get (hs_hotkeys s) k of None \<Rightarrow> [] | Some rs \<Rightarrow> rs)"

definition registerHotkey :: "hotkey_name \<Rightarrow> nat \<Rightarrow> hotkeys_state \<Rightarrow> hotkeys_state" where
  "registerHotkey n r s =
    (let k = normalizeHotkey n in s\<lparr>hs_hotkeys := js_set k (registrations k s @ [r]) (hs_hotkeys s)\<rparr>)"

definition unregisterHotkey :: "hotkey_name \<Rightarrow> nat option \<Rightarrow> hotkeys_state \<Rightarrow> hotkeys_state" where
  "unregisterHotkey n config s =
    (let k = normalizeHotkey n
     in (case js_get (hs_hotkeys s) k of
          None \<Rightarrow> s
        | Some rs \<Rightarrow>
            (case config of
              None \<Rightarrow> s\<lparr>hs_hotkeys := js_del k (hs_hotkeys s)\<rparr>
            | Some r \<Rightarrow>
                (let rest = filter (\<lambda>x. x \<noteq> r) rs
                 in s\<lparr>hs_hotkeys := (if rest = [] then js_del k (hs_hotkeys s) else js_set k rest (hs_hotkeys s))\<rparr>))))"

definition getHotkeyHandler :: "hotkey_name \<Rightarrow> hotkeys_state \<Rightarrow> nat option" where
  "getHotkeyHandler n s =
    (let rs = registrations (normalizeHotkey n) s in if rs = [] then None else Some (last rs))"

definition setActiveChord :: "string option \<Rightarrow> hotkeys_state \<Rightarrow> hotkeys_state" where
  "setActiveChord c s = s\<lparr>hs_activeChord := c\<rparr>"

section \<open>Sequences\<close>

record chord_state =
  cs_prefix :: "string option"
  cs_armedAt :: int

definition IDLE_CHORD_STATE :: chord_state where
  "IDLE_CHORD_STATE = \<lparr>cs_prefix = None, cs_armedAt = 0\<rparr>"

datatype chord_action = ChordNone | ChordArm | ChordFire string

definition chordKey :: "string \<Rightarrow> string \<Rightarrow> string" where
  "chordKey p step = p @ HOTKEY_SEQUENCE_SEPARATOR @ step"

text \<open>\<open>key.indexOf(separator)\<close> and the part before it.\<close>

fun before_sep :: "string \<Rightarrow> string \<Rightarrow> string option" where
  "before_sep sep [] = (if sep = [] then Some [] else None)"
| "before_sep sep (c # cs) =
    (if take (length sep) (c # cs) = sep then Some [] else map_option (\<lambda>p. c # p) (before_sep sep cs))"

definition getChordPrefixes :: "string list \<Rightarrow> string list" where
  "getChordPrefixes ks =
    fold (\<lambda>k ps. case before_sep HOTKEY_SEQUENCE_SEPARATOR k of None \<Rightarrow> ps | Some p \<Rightarrow> List.insert p ps) ks []"

definition reduceChord ::
  "chord_state \<Rightarrow> string \<Rightarrow> int \<Rightarrow> int \<Rightarrow> (string \<Rightarrow> bool) \<Rightarrow> (string \<Rightarrow> bool) \<Rightarrow> chord_state \<times> chord_action" where
  "reduceChord s step now windowMs isPrefix hasChord =
    (let fresh = (if isPrefix step then (\<lparr>cs_prefix = Some step, cs_armedAt = now\<rparr>, ChordArm) else (IDLE_CHORD_STATE, ChordNone))
     in (case cs_prefix s of
          None \<Rightarrow> fresh
        | Some p \<Rightarrow>
            if now - cs_armedAt s \<le> windowMs \<and> hasChord (chordKey p step)
            then (IDLE_CHORD_STATE, ChordFire (chordKey p step)) else fresh))"

section \<open>Listening\<close>

record hotkey_listener =
  hl_count :: int
  hl_attached :: bool
  hl_chord :: chord_state
  hl_store :: hotkeys_state
  hl_called :: "nat list"

record key_press =
  kp_event :: key_event
  kp_typing :: bool
  kp_prevented :: bool
  kp_now :: int

definition syncActiveChord :: "string option \<Rightarrow> hotkeys_state \<Rightarrow> hotkeys_state" where
  "syncActiveChord p s = (if hs_activeChord s \<noteq> p then setActiveChord p s else s)"

definition resetChord :: "hotkey_listener \<Rightarrow> hotkey_listener" where
  "resetChord l = l\<lparr>hl_chord := IDLE_CHORD_STATE, hl_store := syncActiveChord None (hl_store l)\<rparr>"

definition press_step :: "key_press \<Rightarrow> string" where
  "press_step e = getEventHotkeyString (kp_event e)"

definition press_action :: "key_press \<Rightarrow> hotkey_listener \<Rightarrow> chord_state \<times> chord_action" where
  "press_action e l =
    reduceChord (hl_chord l) (press_step e) (kp_now e) HOTKEY_CHORD_WINDOW_MS
      (\<lambda>p. p \<in> set (getChordPrefixes (js_keys (hs_hotkeys (hl_store l)))))
      (\<lambda>k. getHotkeyHandler (OneKey k) (hl_store l) \<noteq> None)"

text \<open>The listener after a press, and whether the press was taken (\<open>preventDefault\<close>).\<close>

definition handleKeydown :: "key_press \<Rightarrow> hotkey_listener \<Rightarrow> hotkey_listener \<times> bool" where
  "handleKeydown e l =
    (if kp_typing e \<or> kp_prevented e then (l, False)
     else (let (cs, action) = press_action e l;
               l' = l\<lparr>hl_chord := cs, hl_store := syncActiveChord (cs_prefix cs) (hl_store l)\<rparr>
           in (case action of
                ChordArm \<Rightarrow> (l', True)
              | _ \<Rightarrow>
                  (case getHotkeyHandler (OneKey (case action of ChordFire k \<Rightarrow> k | _ \<Rightarrow> press_step e)) (hl_store l) of
                    None \<Rightarrow> (l', False)
                  | Some r \<Rightarrow> (l'\<lparr>hl_called := hl_called l' @ [r]\<rparr>, True)))))"

definition mount_listener :: "hotkey_listener \<Rightarrow> hotkey_listener" where
  "mount_listener l =
    (let l' = l\<lparr>hl_count := hl_count l + 1\<rparr>
     in if 1 < hl_count l' then l' else (resetChord l')\<lparr>hl_attached := True\<rparr>)"

definition handleUnmount :: "hotkey_listener \<Rightarrow> hotkey_listener" where
  "handleUnmount l =
    (let l' = l\<lparr>hl_count := hl_count l - 1\<rparr> in if hl_count l' = 0 then l'\<lparr>hl_attached := False\<rparr> else l')"

definition isAppHotkey :: "key_event \<Rightarrow> hotkeys_state \<Rightarrow> bool" where
  "isAppHotkey e s \<longleftrightarrow>
    (let step = getEventHotkeyString e
     in getHotkeyHandler (OneKey step) s \<noteq> None \<or> step \<in> set (getChordPrefixes (js_keys (hs_hotkeys s))))"

section \<open>Keys as they are written\<close>

datatype key_platform = PlatformMac | PlatformOther

datatype key_flag = FlagMeta | FlagCtrl | FlagAlt | FlagShift

definition KEY_ALIASES :: "(string \<times> string) list" where
  "KEY_ALIASES = [(''esc'', ''escape''), (''return'', ''enter''), (''space'', '' ''), (''del'', ''delete''),
    (''up'', ''arrowup''), (''down'', ''arrowdown''), (''left'', ''arrowleft''), (''right'', ''arrowright''),
    (''plus'', ''+'')]"

definition flagOf :: "string \<Rightarrow> key_platform \<Rightarrow> key_flag option" where
  "flagOf token platform =
    (if token = ''mod'' \<or> token = ''cmd'' then Some (if platform = PlatformMac then FlagMeta else FlagCtrl)
     else if token = ''meta'' then Some FlagMeta
     else if token = ''ctrl'' then Some FlagCtrl
     else if token = ''alt'' \<or> token = ''option'' then Some FlagAlt
     else if token = ''shift'' then Some FlagShift
     else None)"

fun split_by :: "(char \<Rightarrow> bool) \<Rightarrow> string \<Rightarrow> string list" where
  "split_by sep [] = [[]]"
| "split_by sep (c # cs) =
    (if sep c then [] # split_by sep cs
     else (case split_by sep cs of [] \<Rightarrow> [[c]] | w # ws \<Rightarrow> (c # w) # ws))"

definition parts :: "(char \<Rightarrow> bool) \<Rightarrow> string \<Rightarrow> string list" where
  "parts sep s = filter (\<lambda>w. w \<noteq> []) (split_by sep s)"

definition parse_step :: "string \<Rightarrow> string list" where
  "parse_step step =
    (let lower = to_lower step; plus = (\<lambda>c. c = CHR ''+'')
     in if lower = ''+'' then [''+'']
        else if 2 \<le> length lower \<and> drop (length lower - 2) lower = ''++''
        then parts plus (take (length lower - 2) lower) @ [''+'']
        else parts plus lower)"

definition parseKeys :: "string \<Rightarrow> string list list" where
  "parseKeys keys = filter (\<lambda>step. step \<noteq> []) (map parse_step (parts blank keys))"

record wanted_keys =
  wk_flags :: "key_flag list"
  wk_key :: "string option"

definition wanted_token :: "key_platform \<Rightarrow> wanted_keys \<Rightarrow> string \<Rightarrow> wanted_keys" where
  "wanted_token platform w token =
    (case flagOf token platform of
      Some f \<Rightarrow> w\<lparr>wk_flags := f # wk_flags w\<rparr>
    | None \<Rightarrow> w\<lparr>wk_key := Some (case map_of KEY_ALIASES token of None \<Rightarrow> token | Some a \<Rightarrow> a)\<rparr>)"

definition matchKeys :: "string \<Rightarrow> key_event \<Rightarrow> key_platform \<Rightarrow> bool" where
  "matchKeys keys e platform =
    (case parseKeys keys of
      [step] \<Rightarrow>
        (let w = foldl (wanted_token platform) \<lparr>wk_flags = [], wk_key = None\<rparr> step
         in (case wk_key w of
              None \<Rightarrow> False
            | Some key \<Rightarrow>
                (let pressed = to_lower (latinKey (ke_key e) (ke_code e));
                     shiftMatters = 1 < length key \<or> list_ex (\<lambda>c. 97 \<le> char_code c \<and> char_code c \<le> 122) key
                 in pressed = key \<and> ke_meta e = (FlagMeta \<in> set (wk_flags w)) \<and>
                    ke_ctrl e = (FlagCtrl \<in> set (wk_flags w)) \<and> ke_alt e = (FlagAlt \<in> set (wk_flags w)) \<and>
                    (shiftMatters \<longrightarrow> ke_shift e = (FlagShift \<in> set (wk_flags w))))))
    | _ \<Rightarrow> False)"

section \<open>The Esc ladder\<close>

definition push_escape :: "nat \<Rightarrow> nat list \<Rightarrow> nat list" where
  "push_escape h stack = stack @ [h]"

definition dispose_escape :: "nat \<Rightarrow> nat list \<Rightarrow> nat list" where
  "dispose_escape h stack = filter (\<lambda>x. x \<noteq> h) stack"

text \<open>The handlers called, from the top, and whether one of them took the press.\<close>

fun ladder :: "(nat \<Rightarrow> bool) \<Rightarrow> nat list \<Rightarrow> nat list \<times> bool" where
  "ladder takes [] = ([], False)"
| "ladder takes (h # hs) = (if takes h then ([h], True) else (let (called, taken) = ladder takes hs in (h # called, taken)))"

definition handleEscape :: "(nat \<Rightarrow> bool) \<Rightarrow> nat list \<Rightarrow> nat list \<times> bool" where
  "handleEscape takes stack = ladder takes (rev stack)"

definition escape_keydown :: "(nat \<Rightarrow> bool) \<Rightarrow> key_press \<Rightarrow> nat list \<Rightarrow> nat list \<times> bool" where
  "escape_keydown takes e stack =
    (if ke_key (kp_event e) \<noteq> ''Escape'' \<or> kp_prevented e then ([], False) else handleEscape takes stack)"

section \<open>Stacks\<close>

interpretation escape: disposable_stack id push_escape dispose_escape
  by unfold_locales (simp_all add: push_escape_def dispose_escape_def)

lemma registrations_register:
  "registrations k (registerHotkey n r s) = (if k = normalizeHotkey n then registrations k s @ [r] else registrations k s)"
  by (simp add: registrations_def registerHotkey_def Let_def)

lemma registrations_unregister:
  "registrations k (unregisterHotkey n (Some r) s) =
    (if k = normalizeHotkey n then filter (\<lambda>x. x \<noteq> r) (registrations k s) else registrations k s)"
  by (auto simp: registrations_def unregisterHotkey_def Let_def split: option.split)

interpretation hotkey: disposable_stack "registrations (normalizeHotkey n)" "registerHotkey n"
    "\<lambda>r. unregisterHotkey n (Some r)" for n
  by unfold_locales (simp_all add: registrations_register registrations_unregister)

lemma handler_registrations:
  "getHotkeyHandler n s = (if registrations (normalizeHotkey n) s = [] then None else Some (last (registrations (normalizeHotkey n) s)))"
  by (simp add: getHotkeyHandler_def Let_def)

text \<open>The latest registration has the key; its disposer gives the key back to the one before.\<close>

lemma register_takes_key: "getHotkeyHandler n (registerHotkey n r s) = Some r"
  using hotkey.last_push [of n r s] by (simp add: handler_registrations registrations_register)

lemma dispose_gives_back:
  "r \<notin> set (registrations (normalizeHotkey n) s) \<Longrightarrow>
    getHotkeyHandler m (unregisterHotkey n (Some r) (registerHotkey n r s)) = getHotkeyHandler m s"
  using hotkey.dispose_push [of r n s]
  by (auto simp: handler_registrations registrations_register registrations_unregister)

lemma dispose_under_another:
  "r \<noteq> q \<Longrightarrow> getHotkeyHandler n (unregisterHotkey n (Some r) (registerHotkey n q s)) = Some q"
  using hotkey.dispose_push_other [of r q n s] by (simp add: handler_registrations registrations_register registrations_unregister)

text \<open>On the Esc ladder one press is one step: the topmost level that takes it, and none below.\<close>

lemma ladder_spec:
  "ladder takes hs = (case dropWhile (\<lambda>h. \<not> takes h) hs of
      [] \<Rightarrow> (hs, False) | h # _ \<Rightarrow> (takeWhile (\<lambda>h. \<not> takes h) hs @ [h], True))"
proof (induction hs)
  case (Cons h hs)
  moreover have "\<exists>x\<in>set hs. takes x" if "dropWhile (\<lambda>h. \<not> takes h) hs = a # l" for a l
    using that by (metis dropWhile_eq_Nil_conv list.distinct(1))
  ultimately show ?case by (cases "takes h") (auto split: list.split)
qed simp

section \<open>Combinations never collide\<close>

text \<open>A key's own name: one printed sign, the space, or a name without spaces that is no modifier's.\<close>

definition plain_token :: "string \<Rightarrow> bool" where
  "plain_token t \<longleftrightarrow> t = '' '' \<or> t \<noteq> [] \<and> CHR '' '' \<notin> set t"

definition key_name :: "string \<Rightarrow> bool" where
  "key_name k \<longleftrightarrow> plain_token k \<and> k \<notin> {''Control'', ''Shift'', ''Alt'', ''Meta''}"

lemma split_by_words: "\<forall>w\<in>set (split_by sep s). \<forall>c\<in>set w. \<not> sep c"
  by (induction s) (auto split: list.splits)

lemma token_split:
  assumes "plain_token t" and "plain_token u" and "t @ r = u @ q"
    and "r = [] \<or> (\<exists>z. r = CHR '' '' # z)" and "q = [] \<or> (\<exists>z. q = CHR '' '' # z)"
  shows "t = u \<and> r = q"
proof -
  have word: "takeWhile (\<lambda>c. c \<noteq> CHR '' '') (t @ r) = t"
    if "CHR '' '' \<notin> set t" "r = [] \<or> (\<exists>z. r = CHR '' '' # z)" for t r :: string
    using that by (induction t) auto
  show ?thesis
  proof (cases "t = '' ''")
    case True
    then have "hd (u @ q) = CHR '' ''" using assms(3) [symmetric] by simp
    then have "u = '' ''" using assms(2) by (cases u) (auto simp: plain_token_def)
    then show ?thesis using True assms(3) by simp
  next
    case False
    then have t: "CHR '' '' \<notin> set t" "t \<noteq> []" using assms(1) by (auto simp: plain_token_def)
    have "hd (u @ q) \<noteq> CHR '' ''" using assms(3) [symmetric] t by (cases t) auto
    then have "CHR '' '' \<notin> set u" using assms(2) by (auto simp: plain_token_def)
    then have "t = u" using word [OF t(1) assms(4)] word [OF _ assms(5), of u] assms(3) by simp
    then show ?thesis using assms(3) by simp
  qed
qed

lemma join_tail: "join HOTKEY_KEY_SEPARATOR (x # xs) = x @ (if xs = [] then [] else HOTKEY_KEY_SEPARATOR @ join HOTKEY_KEY_SEPARATOR xs)"
  by (cases xs) simp_all

lemma join_inj:
  "\<forall>x\<in>set xs \<union> set ys. plain_token x \<Longrightarrow> xs \<noteq> [] \<Longrightarrow> ys \<noteq> [] \<Longrightarrow>
    join HOTKEY_KEY_SEPARATOR xs = join HOTKEY_KEY_SEPARATOR ys \<Longrightarrow> xs = ys"
proof (induction xs arbitrary: ys)
  case (Cons x xs)
  then obtain y ys' where ys: "ys = y # ys'" by (cases ys) auto
  let ?r = "\<lambda>zs. if zs = [] then [] else HOTKEY_KEY_SEPARATOR @ join HOTKEY_KEY_SEPARATOR zs"
  have "x @ ?r xs = y @ ?r ys'" using Cons.prems(4) unfolding ys join_tail .
  moreover have "?r zs = [] \<or> (\<exists>z. ?r zs = CHR '' '' # z)" for zs by (simp add: HOTKEY_KEY_SEPARATOR_def)
  ultimately have eq: "x = y" "?r xs = ?r ys'"
    using token_split [of x y "?r xs" "?r ys'"] Cons.prems(1) ys by auto
  show ?case
  proof (cases "xs = [] \<or> ys' = []")
    case True
    then show ?thesis using eq ys by (auto simp: HOTKEY_KEY_SEPARATOR_def split: if_splits)
  next
    case False
    then have "join HOTKEY_KEY_SEPARATOR xs = join HOTKEY_KEY_SEPARATOR ys'" using eq(2) by simp
    then show ?thesis using Cons.IH [of ys'] Cons.prems(1) False ys eq(1) by simp
  qed
qed simp

text \<open>The keys of one step: its modifiers, then its key.\<close>

definition step_keys :: "hotkey_config \<Rightarrow> string list" where
  "step_keys c = applyLayerKeys [] c @ [hk_key c]"

definition same_step :: "hotkey_config \<Rightarrow> hotkey_config \<Rightarrow> bool" where
  "same_step c d \<longleftrightarrow> hk_key c = hk_key d \<and> hk_shift c = hk_shift d \<and> hk_ctrl c = hk_ctrl d \<and>
    hk_alt c = hk_alt d \<and> hk_meta c = hk_meta d"

lemma step_keys_set:
  assumes "key_name (hk_key c)"
  shows "''Control'' \<in> set (step_keys c) \<longleftrightarrow> hk_ctrl c" "''Shift'' \<in> set (step_keys c) \<longleftrightarrow> hk_shift c"
    "''Alt'' \<in> set (step_keys c) \<longleftrightarrow> hk_alt c" "''Meta'' \<in> set (step_keys c) \<longleftrightarrow> hk_meta c"
    "set (step_keys c) - {''Control'', ''Shift'', ''Alt'', ''Meta''} = {hk_key c}"
    "\<forall>t\<in>set (step_keys c). plain_token t" "step_keys c \<noteq> []"
  using assms by (auto simp: step_keys_def applyLayerKeys_def key_name_def plain_token_def)

lemma combine_same:
  assumes "key_name (hk_key c)" and "key_name (hk_key d)"
  shows "combineKeys (step_keys c) = combineKeys (step_keys d) \<longleftrightarrow> same_step c d"
proof
  assume "combineKeys (step_keys c) = combineKeys (step_keys d)"
  then have "sort (step_keys c) = sort (step_keys d)"
    unfolding combineKeys_def
  proof (rule join_inj [rotated 3])
    show "\<forall>x\<in>set (sort (step_keys c)) \<union> set (sort (step_keys d)). plain_token x"
      unfolding set_sort using step_keys_set(6) assms by blast
    show "sort (step_keys c) \<noteq> []" "sort (step_keys d) \<noteq> []"
      using step_keys_set(7) assms by (metis length_0_conv length_sort)+
  qed
  then have s: "set (step_keys c) = set (step_keys d)" by (metis set_sort)
  then have "{hk_key c} = {hk_key d}" using step_keys_set(5) [OF assms(1)] step_keys_set(5) [OF assms(2)] by simp
  then show "same_step c d"
    using s step_keys_set(1-4) [OF assms(1)] step_keys_set(1-4) [OF assms(2)] by (simp add: same_step_def)
next
  assume "same_step c d"
  then have "step_keys c = step_keys d" by (simp add: same_step_def step_keys_def applyLayerKeys_def)
  then show "combineKeys (step_keys c) = combineKeys (step_keys d)" by simp
qed

lemma normal_key_name: "key_name (hk_key c) \<Longrightarrow> key_name (hk_key (normalizeStep c))"
proof -
  assume k: "key_name (hk_key c)"
  have ns: "lower_char x \<noteq> CHR '' ''" if "x \<noteq> CHR '' ''" for x
  proof
    assume l: "lower_char x = CHR '' ''"
    show False
    proof (cases "lower_char x = x")
      case False
      then have "lower_char x = char_of (char_code x + 32)" "char_code x \<le> 222" "65 \<le> char_code x"
        by (auto simp: lower_char_def Let_def split: if_splits)
      then have "of_char (lower_char x) = char_code x + 32" by (simp add: of_char_of)
      then show False using l \<open>65 \<le> char_code x\<close> by simp
    qed (use l that in simp)
  qed
  have one: "key_name [lower_char x]" if "x \<noteq> CHR '' ''" for x
    using ns [OF that] by (auto simp: key_name_def plain_token_def)
  show ?thesis
  proof (cases "\<exists>x. hk_key c = [x]")
    case True
    then obtain x where x: "hk_key c = [x]" by blast
    have "hk_key (normalizeStep c) = [x] \<or> x \<noteq> CHR '' '' \<and> hk_key (normalizeStep c) = [lower_char x]"
      by (simp add: normalizeStep_def x)
    then show ?thesis using k x one by metis
  next
    case False
    then have "normalizeStep c = c" by (simp add: normalizeStep_def split: list.split)
    then show ?thesis using k by simp
  qed
qed

section \<open>When a sequence fires\<close>

definition handled :: "key_press \<Rightarrow> bool" where
  "handled e \<longleftrightarrow> \<not> kp_typing e \<and> \<not> kp_prevented e"

datatype listen_event = Pressed key_press | Blurred

fun listen_step :: "hotkey_listener \<Rightarrow> listen_event \<Rightarrow> hotkey_listener" where
  "listen_step l (Pressed e) = fst (handleKeydown e l)"
| "listen_step l Blurred = resetChord l"

definition listen :: "hotkey_listener \<Rightarrow> listen_event list \<Rightarrow> hotkey_listener" where
  "listen l es = foldl listen_step l es"

text \<open>The last press the listener took part in armed the prefix \<open>p\<close> at \<open>t\<close>, and nothing reset it since.\<close>

definition armed_by :: "hotkey_listener \<Rightarrow> listen_event list \<Rightarrow> string \<Rightarrow> int \<Rightarrow> bool" where
  "armed_by l es p t \<longleftrightarrow> (\<exists>es1 e es2. es = es1 @ Pressed e # es2 \<and> handled e \<and>
    (\<forall>x\<in>set es2. \<exists>d. x = Pressed d \<and> \<not> handled d) \<and> snd (press_action e (listen l es1)) = ChordArm \<and>
    press_step e = p \<and> kp_now e = t)"

lemma armed_snoc:
  "armed_by l (es @ [x]) p t \<longleftrightarrow>
    (\<exists>d. x = Pressed d \<and> \<not> handled d) \<and> armed_by l es p t \<or>
    (\<exists>e. x = Pressed e \<and> handled e \<and> snd (press_action e (listen l es)) = ChordArm \<and> press_step e = p \<and> kp_now e = t)"
  (is "?L \<longleftrightarrow> ?A \<or> ?B")
proof
  assume ?L
  then obtain es1 e es2 where a: "es @ [x] = es1 @ Pressed e # es2" "handled e"
    "\<forall>y\<in>set es2. \<exists>d. y = Pressed d \<and> \<not> handled d" "snd (press_action e (listen l es1)) = ChordArm"
    "press_step e = p" "kp_now e = t" unfolding armed_by_def by blast
  show "?A \<or> ?B"
  proof (cases es2 rule: rev_cases)
    case Nil
    then show ?thesis using a by auto
  next
    case (snoc ys y)
    then have "es = es1 @ Pressed e # ys" "x = y" using a(1) by simp_all
    moreover have "armed_by l (es1 @ Pressed e # ys) p t"
      unfolding armed_by_def using a snoc by (intro exI [of _ es1] exI [of _ e] exI [of _ ys]) auto
    ultimately show ?thesis using a(3) snoc by auto
  qed
next
  assume "?A \<or> ?B"
  then show ?L
  proof
    assume ?A
    then obtain es1 e es2 where "es = es1 @ Pressed e # es2" "handled e"
      "\<forall>y\<in>set es2. \<exists>d. y = Pressed d \<and> \<not> handled d" "snd (press_action e (listen l es1)) = ChordArm"
      "press_step e = p" "kp_now e = t" "\<exists>d. x = Pressed d \<and> \<not> handled d" unfolding armed_by_def by blast
    then show ?L unfolding armed_by_def by (intro exI [of _ es1] exI [of _ e] exI [of _ "es2 @ [x]"]) auto
  next
    assume ?B
    then show ?L unfolding armed_by_def by fastforce
  qed
qed

lemma chord_after:
  "hl_chord (fst (handleKeydown e l)) = (if handled e then fst (press_action e l) else hl_chord l)"
  by (auto simp: handleKeydown_def handled_def Let_def split: prod.split chord_action.split option.split)

lemma registry_after: "hs_hotkeys (hl_store (listen l es)) = hs_hotkeys (hl_store l)"
proof (induction es rule: rev_induct)
  case (snoc x es)
  have "hs_hotkeys (hl_store (listen_step k x)) = hs_hotkeys (hl_store k)" for k
    by (cases x) (auto simp: handleKeydown_def resetChord_def syncActiveChord_def setActiveChord_def Let_def
        split: prod.split chord_action.split option.split)
  then show ?case using snoc by (simp add: listen_def)
qed (simp add: listen_def)

lemma handler_after: "getHotkeyHandler n (hl_store (listen l es)) = getHotkeyHandler n (hl_store l)"
  using registry_after [of l es] by (simp add: getHotkeyHandler_def registrations_def)

lemma action_arms:
  "cs_prefix (fst (press_action e l)) = Some p \<and> cs_armedAt (fst (press_action e l)) = t \<longleftrightarrow>
    snd (press_action e l) = ChordArm \<and> press_step e = p \<and> kp_now e = t"
  by (auto simp: press_action_def reduceChord_def Let_def IDLE_CHORD_STATE_def split: option.split)

lemma armed_iff:
  assumes "hl_chord l = IDLE_CHORD_STATE"
  shows "cs_prefix (hl_chord (listen l es)) = Some p \<and> cs_armedAt (hl_chord (listen l es)) = t \<longleftrightarrow> armed_by l es p t"
proof (induction es rule: rev_induct)
  case Nil
  show ?case using assms by (simp add: listen_def IDLE_CHORD_STATE_def armed_by_def)
next
  case (snoc x es)
  have run: "listen l (es @ [x]) = listen_step (listen l es) x" by (simp add: listen_def)
  show ?case
  proof (cases x)
    case (Pressed e)
    then have c: "hl_chord (listen l (es @ [x])) =
        (if handled e then fst (press_action e (listen l es)) else hl_chord (listen l es))"
      unfolding run by (simp add: chord_after)
    show ?thesis
    proof (cases "handled e")
      case True
      then show ?thesis unfolding c armed_snoc using Pressed action_arms [of e "listen l es" p t] by simp
    next
      case False
      then show ?thesis unfolding c armed_snoc using Pressed snoc by simp
    qed
  next
    case Blurred
    then have c: "hl_chord (listen l (es @ [x])) = IDLE_CHORD_STATE" unfolding run by (simp add: resetChord_def)
    then show ?thesis unfolding c armed_snoc using Blurred by (simp add: IDLE_CHORD_STATE_def)
  qed
qed

section \<open>Properties\<close>

text \<open>
  C24: A sequence fires exactly when its first step was the last press the listener took part in, not
  more than the window of a second ago: for a press outside a field, the handler of \<open>p > q\<close> is
  called as a sequence if and only if that earlier press armed \<open>p\<close>, this press is \<open>q\<close> and the
  sequence is registered; a press in between, or a window that lost its focus, ends the wait, while
  what is typed into a field does not.
\<close>

theorem sequence_fires_exactly:
  assumes "hl_chord l = IDLE_CHORD_STATE" and "handled e"
  shows "(snd (press_action e (listen l es)) = ChordFire k \<and>
      hl_called (fst (handleKeydown e (listen l es))) = hl_called (listen l es) @ [r]) \<longleftrightarrow>
    (\<exists>p t. armed_by l es p t \<and> kp_now e - t \<le> 1000 \<and> k = chordKey p (press_step e)) \<and>
      getHotkeyHandler (OneKey k) (hl_store l) = Some r"
proof -
  let ?s = "listen l es"
  have has: "getHotkeyHandler n (hl_store ?s) = getHotkeyHandler n (hl_store l)" for n by (rule handler_after)
  have fire: "snd (press_action e ?s) = ChordFire k \<longleftrightarrow>
      (\<exists>p. cs_prefix (hl_chord ?s) = Some p \<and> kp_now e - cs_armedAt (hl_chord ?s) \<le> 1000 \<and> k = chordKey p (press_step e)) \<and>
      getHotkeyHandler (OneKey k) (hl_store l) \<noteq> None"
    by (auto simp: press_action_def reduceChord_def Let_def HOTKEY_CHORD_WINDOW_MS_def has split: option.split)
  have wait: "(\<exists>p. cs_prefix (hl_chord ?s) = Some p \<and> kp_now e - cs_armedAt (hl_chord ?s) \<le> 1000 \<and> k = chordKey p (press_step e))
      \<longleftrightarrow> (\<exists>p t. armed_by l es p t \<and> kp_now e - t \<le> 1000 \<and> k = chordKey p (press_step e))"
    unfolding armed_iff [OF assms(1), symmetric] by blast
  have called: "hl_called (fst (handleKeydown e ?s)) = hl_called ?s @ [r] \<longleftrightarrow>
      getHotkeyHandler (OneKey k) (hl_store l) = Some r" if f: "snd (press_action e ?s) = ChordFire k"
  proof -
    obtain cs where "press_action e ?s = (cs, ChordFire k)" using f by (metis prod.collapse)
    moreover have "\<not> kp_typing e" "\<not> kp_prevented e" using assms(2) by (simp_all add: handled_def)
    ultimately show ?thesis by (simp add: handleKeydown_def has Let_def split: option.split)
  qed
  show ?thesis using fire wait called by auto
qed

definition a_press :: "string \<Rightarrow> int \<Rightarrow> key_press" where
  "a_press k t = \<lparr>kp_event = \<lparr>ke_key = k, ke_code = None, ke_meta = False, ke_ctrl = False, ke_alt = False, ke_shift = False\<rparr>,
    kp_typing = False, kp_prevented = False, kp_now = t\<rparr>"

definition go_board :: hotkey_listener where
  "go_board = \<lparr>hl_count = 1, hl_attached = True, hl_chord = IDLE_CHORD_STATE,
    hl_store = registerHotkey (OneKey ''g > b'') 7 \<lparr>hs_hotkeys = [], hs_activeChord = None\<rparr>, hl_called = []\<rparr>"

lemmas press_run = a_press_def press_step_def press_action_def getEventHotkeyString_def parseEventToHotkey_def event_config_def latinKey_def
  normalizeStep_def combineKeys_def applyLayerKeys_def cased_def letter_def ascii_letter_def char_code_def lower_char_def
  reduceChord_def getChordPrefixes_def HOTKEY_SEQUENCE_SEPARATOR_def

lemma press_step_letter: "press_step (a_press ''g'' t) = ''g''" "press_step (a_press ''b'' t) = ''b''"
  by (simp_all add: press_run)

lemma go_board_arms: "snd (press_action (a_press ''g'' t) go_board) = ChordArm"
  unfolding press_action_def press_step_letter
  by (simp add: reduceChord_def getChordPrefixes_def HOTKEY_SEQUENCE_SEPARATOR_def go_board_def registerHotkey_def
      registrations_def normalizeHotkey_def js_set_def js_keys_def IDLE_CHORD_STATE_def)

theorem sequence_fires_exactly_witness:
  "snd (press_action (a_press ''b'' 900) (listen go_board [Pressed (a_press ''g'' 100)])) = ChordFire ''g > b''"
proof -
  have "handled (a_press ''b'' 900)" "handled (a_press ''g'' 100)" by (simp_all add: a_press_def handled_def)
  moreover have "hl_chord go_board = IDLE_CHORD_STATE" by (simp add: go_board_def)
  moreover have "armed_by go_board [Pressed (a_press ''g'' 100)] ''g'' 100"
    unfolding armed_by_def
    by (intro exI [of _ "[]"] exI [of _ "a_press ''g'' 100"])
      (simp add: go_board_arms listen_def press_step_letter handled_def, simp add: a_press_def)
  moreover have "getHotkeyHandler (OneKey ''g > b'') (hl_store go_board) = Some 7"
    using register_takes_key by (simp add: go_board_def)
  moreover have "''g > b'' = chordKey ''g'' (press_step (a_press ''b'' 900))"
    unfolding press_step_letter by (simp add: chordKey_def HOTKEY_SEQUENCE_SEPARATOR_def)
  moreover have "kp_now (a_press ''b'' 900) - 100 \<le> 1000" by (simp add: a_press_def)
  ultimately show ?thesis
    using sequence_fires_exactly [of go_board "a_press ''b'' 900" "[Pressed (a_press ''g'' 100)]" "''g > b''" 7] by blast
qed

text \<open>
  The written form of a combination is its keys and nothing else: a press finds what was
  registered under a combination if and only if both have the same key and the same modifiers,
  once the case of a letter and the Shift of a printed sign are left out, as long as a key's name
  has no space in it, the space bar apart, and is not a modifier's.
\<close>

theorem combination_is_its_keys:
  assumes "key_name (hk_key c)" and "key_name (latinKey (ke_key e) (ke_code e))"
  shows "getEventHotkeyString e = stepToString c \<longleftrightarrow> same_step (normalizeStep (event_config e)) (normalizeStep c)"
proof -
  have "key_name (hk_key (normalizeStep (event_config e)))" using assms(2) by (intro normal_key_name) (simp add: event_config_def)
  moreover have "key_name (hk_key (normalizeStep c))" by (rule normal_key_name [OF assms(1)])
  ultimately show ?thesis using combine_same
    by (simp add: getEventHotkeyString_def parseEventToHotkey_def stepToString_def Let_def step_keys_def)
qed

theorem combination_is_its_keys_witness:
  "getEventHotkeyString (kp_event (a_press ''?'' 0)) =
    stepToString \<lparr>hk_key = ''?'', hk_shift = True, hk_ctrl = False, hk_alt = False, hk_meta = False\<rparr>"
  using combination_is_its_keys [of "\<lparr>hk_key = ''?'', hk_shift = True, hk_ctrl = False, hk_alt = False, hk_meta = False\<rparr>"
      "kp_event (a_press ''?'' 0)"]
  by (simp add: press_run key_name_def plain_token_def same_step_def Let_def)

end
