(* ===== verification/Label_Search.thy ===== *)
theory Label_Search
  imports Keyboard "HOL-Library.Sublist" "HOL-Library.Multiset" "HOL-Library.Product_Lexorder"
begin

text \<open>
  How a label matches what is typed (\<open>ui-kit/src/components/CommandPalette/matchLabel.ts\<close>): the score, the
  parts of the label to mark, and the ranking of items. Characters are those of Latin-1, as in
  \<open>Keyboard\<close>: there a character is one UTF-16 unit and lower case keeps the length.
\<close>

section \<open>Matching\<close>

record match_segment =
  ms_text :: string
  ms_match :: bool

record label_match =
  lm_score :: nat
  lm_segments :: "match_segment list"

text \<open>One turn of the loop: the character goes on with the last segment or begins a new one.\<close>

definition add_unit :: "match_segment list \<Rightarrow> char \<times> bool \<Rightarrow> match_segment list" where
  "add_unit segments cm =
    (if segments \<noteq> [] \<and> ms_match (last segments) = snd cm
     then butlast segments @ [(last segments)\<lparr>ms_text := ms_text (last segments) @ [fst cm]\<rparr>]
     else segments @ [\<lparr>ms_text = [fst cm], ms_match = snd cm\<rparr>])"

definition toSegments :: "string \<Rightarrow> bool list \<Rightarrow> match_segment list" where
  "toSegments label marked = foldl add_unit [] (zip label marked)"

text \<open>\<open>\p{N}\<close>: the digits, the raised ones and the fractions.\<close>

definition number_char :: "char \<Rightarrow> bool" where
  "number_char c \<longleftrightarrow> 48 \<le> char_code c \<and> char_code c \<le> 57 \<or> char_code c \<in> {178, 179, 185, 188, 189, 190}"

definition isBoundary :: "char option \<Rightarrow> bool" where
  "isBoundary c = (case c of None \<Rightarrow> True | Some d \<Rightarrow> \<not> (letter d \<or> number_char d))"

definition trim :: "string \<Rightarrow> string" where
  "trim s = rev (dropWhile blank (rev (dropWhile blank s)))"

definition occurs_at :: "string \<Rightarrow> string \<Rightarrow> nat \<Rightarrow> bool" where
  "occurs_at needle text i \<longleftrightarrow> i + length needle \<le> length text \<and> take (length needle) (drop i text) = needle"

text \<open>\<open>text.indexOf(needle, start)\<close>; \<open>-1\<close> is \<open>None\<close>.\<close>

definition index_of :: "string \<Rightarrow> string \<Rightarrow> nat \<Rightarrow> nat option" where
  "index_of needle text start = find (occurs_at needle text) [start..<Suc (length text)]"

text \<open>\<open>text[index - 1]\<close>.\<close>

definition char_before :: "string \<Rightarrow> nat \<Rightarrow> char option" where
  "char_before text i = (if i = 0 then None else Some (text ! (i - 1)))"

lemma index_of_bounds: "index_of needle text start = Some i \<Longrightarrow> start \<le> i \<and> i \<le> length text"
  by (auto simp: index_of_def find_Some_iff nth_append split: if_splits)

function word_start_from :: "string \<Rightarrow> string \<Rightarrow> nat \<Rightarrow> nat option" where
  "word_start_from needle text start =
    (case index_of needle text start of
      None \<Rightarrow> None
    | Some i \<Rightarrow> if isBoundary (char_before text i) then Some i else word_start_from needle text (Suc i))"
  by pat_completeness auto
termination
  by (relation "measure (\<lambda>(_, text, start). Suc (length text) - start)") (auto dest!: index_of_bounds)

declare word_start_from.simps [simp del]

definition findWordStart :: "string \<Rightarrow> string \<Rightarrow> nat option" where
  "findWordStart text needle = word_start_from needle text 0"

definition range_of :: "string \<Rightarrow> nat \<Rightarrow> nat \<Rightarrow> bool list" where
  "range_of label start n = map (\<lambda>i. start \<le> i \<and> i < start + n) [0..<length label]"

text \<open>The letters in order: what is marked, and what of the needle is left over.\<close>

fun in_order :: "string \<Rightarrow> string \<Rightarrow> bool list \<times> string" where
  "in_order [] needle = ([], needle)"
| "in_order (h # hs) [] = (map (\<lambda>_. False) (h # hs), [])"
| "in_order (h # hs) (c # cs) =
    (if h = c then (let (marked, rest) = in_order hs cs in (True # marked, rest))
     else (let (marked, rest) = in_order hs (c # cs) in (False # marked, rest)))"

definition matchLabel :: "string \<Rightarrow> string \<Rightarrow> label_match" where
  "matchLabel label query =
    (let needle = to_lower (trim query); haystack = to_lower label in
     if needle = [] then \<lparr>lm_score = 3, lm_segments = [\<lparr>ms_text = label, ms_match = False\<rparr>]\<rparr>
     else (case findWordStart haystack needle of
        Some i \<Rightarrow> \<lparr>lm_score = 3, lm_segments = toSegments label (range_of label i (length needle))\<rparr>
      | None \<Rightarrow> (case index_of needle haystack 0 of
          Some i \<Rightarrow> \<lparr>lm_score = 2, lm_segments = toSegments label (range_of label i (length needle))\<rparr>
        | None \<Rightarrow> (let (marked, rest) = in_order haystack needle in
            if rest = [] then \<lparr>lm_score = 1, lm_segments = toSegments label marked\<rparr>
            else \<lparr>lm_score = 0, lm_segments = [\<lparr>ms_text = label, ms_match = False\<rparr>]\<rparr>))))"

text \<open>Best first, equal scores in the source's order; the comparison is by score downwards, then by index.\<close>

definition filterByLabel :: "('a \<Rightarrow> string) \<Rightarrow> 'a list \<Rightarrow> string \<Rightarrow> 'a list" where
  "filterByLabel label_of items query =
    map fst (sort_key (\<lambda>(item, index, score). (- int score, index))
      (filter (\<lambda>(item, index, score). 0 < score)
        (map (\<lambda>(index, item). (item, index, lm_score (matchLabel (label_of item) query)))
          (zip [0..<length items] items))))"

section \<open>Where the query is found\<close>

text \<open>The reference: the query stands in the label at the start of a word.\<close>

definition starts_word :: "string \<Rightarrow> string \<Rightarrow> bool" where
  "starts_word needle text \<longleftrightarrow>
    (\<exists>before after. text = before @ needle @ after \<and> (before = [] \<or> isBoundary (Some (last before))))"

lemma occurs_at_split: "occurs_at needle text i \<longleftrightarrow> (\<exists>before after. text = before @ needle @ after \<and> length before = i)"
proof
  assume o: "occurs_at needle text i"
  have "text = take i text @ take (length needle) (drop i text) @ drop (length needle) (drop i text)"
    by (simp only: append_take_drop_id)
  then have "text = take i text @ needle @ drop (length needle) (drop i text)"
    using o by (simp only: occurs_at_def)
  moreover have "length (take i text) = i" using o by (simp add: occurs_at_def)
  ultimately show "\<exists>before after. text = before @ needle @ after \<and> length before = i" by blast
next
  assume "\<exists>before after. text = before @ needle @ after \<and> length before = i"
  then show "occurs_at needle text i" by (auto simp: occurs_at_def)
qed

lemma char_before_split: "isBoundary (char_before (before @ text) (length before)) \<longleftrightarrow>
    before = [] \<or> isBoundary (Some (last before))"
  by (cases before rule: rev_cases) (auto simp: char_before_def isBoundary_def nth_append)

lemma starts_word_at: "starts_word needle text \<longleftrightarrow>
    (\<exists>i. occurs_at needle text i \<and> isBoundary (char_before text i))"
  unfolding starts_word_def occurs_at_split using char_before_split by metis

lemma index_of_None: "index_of needle text start = None \<longleftrightarrow> (\<forall>i\<ge>start. \<not> occurs_at needle text i)"
  by (auto simp: index_of_def find_None_iff occurs_at_def)

lemma index_of_Some:
  "index_of needle text start = Some i \<Longrightarrow>
    start \<le> i \<and> occurs_at needle text i \<and> (\<forall>j. start \<le> j \<and> j < i \<longrightarrow> \<not> occurs_at needle text j)"
proof -
  assume "index_of needle text start = Some i"
  then obtain k where k: "k < length [start..<Suc (length text)]" "occurs_at needle text ([start..<Suc (length text)] ! k)"
    "i = [start..<Suc (length text)] ! k" "\<forall>j<k. \<not> occurs_at needle text ([start..<Suc (length text)] ! j)"
    unfolding index_of_def find_Some_iff by blast
  from k(1) have len: "start + k \<le> length text" by (auto split: if_splits)
  then have i: "i = start + k" using k(3) nth_upt [of start k "Suc (length text)"] by (simp del: upt_Suc)
  have "\<not> occurs_at needle text j" if "start \<le> j" "j < i" for j
  proof -
    have "j - start < k" using that i by simp
    then have "\<not> occurs_at needle text ([start..<Suc (length text)] ! (j - start))" using k(4) by blast
    moreover have "[start..<Suc (length text)] ! (j - start) = j"
      using that i len by (simp del: upt_Suc)
    ultimately show ?thesis by simp
  qed
  then show ?thesis using k(2,3) i by auto
qed

lemma word_start_from_Some:
  "word_start_from n t start = Some i \<Longrightarrow> occurs_at n t i \<and> isBoundary (char_before t i)"
proof (induction n t start rule: word_start_from.induct)
  case (1 n t start)
  then show ?case
    by (subst (asm) (2) word_start_from.simps) (auto split: option.splits if_splits dest: index_of_Some)
qed

lemma word_start_from_None:
  "word_start_from n t start = None \<longleftrightarrow>
    (\<forall>i\<ge>start. occurs_at n t i \<longrightarrow> \<not> isBoundary (char_before t i))"
proof (induction n t start rule: word_start_from.induct)
  case (1 n t start)
  show ?case
  proof (cases "index_of n t start")
    case None
    then have "word_start_from n t start = None" by (subst word_start_from.simps) simp
    with None show ?thesis by (simp add: index_of_None)
  next
    case (Some i)
    note here = index_of_Some [OF Some]
    show ?thesis
    proof (cases "isBoundary (char_before t i)")
      case True
      with Some here show ?thesis by (subst word_start_from.simps) auto
    next
      case False
      have "word_start_from n t start = word_start_from n t (Suc i)"
        using Some False by (subst word_start_from.simps) simp
      moreover have "(\<forall>k\<ge>Suc i. occurs_at n t k \<longrightarrow> \<not> isBoundary (char_before t k)) \<longleftrightarrow>
          (\<forall>k\<ge>start. occurs_at n t k \<longrightarrow> \<not> isBoundary (char_before t k))"
        using here False by (metis Suc_leI le_less_linear le_trans not_less_eq_eq order_le_less)
      ultimately show ?thesis using 1 Some False by simp
    qed
  qed
qed

lemma findWordStart_None: "findWordStart text needle = None \<longleftrightarrow> \<not> starts_word needle text"
  by (auto simp: findWordStart_def word_start_from_None starts_word_at)

lemma sublist_at: "sublist needle text \<longleftrightarrow> (\<exists>i. occurs_at needle text i)"
  by (auto simp: sublist_def occurs_at_split)

lemma in_order_rest: "snd (in_order hs needle) = [] \<longleftrightarrow> subseq needle hs"
  by (induction hs needle rule: in_order.induct) (auto split: prod.splits)

lemma score_by_search:
  "lm_score (matchLabel label query) =
    (let needle = to_lower (trim query); haystack = to_lower label in
     if needle = [] \<or> findWordStart haystack needle \<noteq> None then 3
     else if index_of needle haystack 0 \<noteq> None then 2
     else if snd (in_order haystack needle) = [] then 1 else 0)"
  by (simp add: matchLabel_def Let_def case_prod_beta split: option.split)

lemma label_score_bounds: "lm_score (matchLabel label query) \<le> 3"
  by (simp add: score_by_search Let_def)

text \<open>
  C30: The score says exactly how the label matches, the comparison ignoring case and the query's outer
  blanks: 3 when a word of the label starts with the query (or nothing was typed), 2 when the query is
  elsewhere in it, 1 when only its letters occur in order, 0 when not even that. The search of
  \<open>findWordStart\<close> from one occurrence to the next misses none, and the greedy walk through the letters finds a
  way whenever there is one.
\<close>

theorem label_score_exact:
  "lm_score (matchLabel label query) =
    (let needle = to_lower (trim query); text = to_lower label in
     if starts_word needle text then 3 else if sublist needle text then 2 else if subseq needle text then 1 else 0)"
proof -
  have "starts_word [] t" for t by (auto simp: starts_word_def)
  then show ?thesis
    by (auto simp: score_by_search Let_def findWordStart_None index_of_None sublist_at in_order_rest)
qed

section \<open>What is marked\<close>

definition units_of :: "match_segment list \<Rightarrow> (char \<times> bool) list" where
  "units_of segments = concat (map (\<lambda>s. map (\<lambda>c. (c, ms_match s)) (ms_text s)) segments)"

definition marked_text :: "match_segment list \<Rightarrow> string" where
  "marked_text segments = concat (map ms_text (filter ms_match segments))"

lemma units_of_append: "units_of (xs @ ys) = units_of xs @ units_of ys"
  by (simp add: units_of_def)

lemma units_of_text: "map fst (units_of segments) = concat (map ms_text segments)"
  by (induction segments) (auto simp: units_of_def comp_def)

lemma units_of_marked: "map fst (filter snd (units_of segments)) = marked_text segments"
  by (induction segments) (auto simp: units_of_def marked_text_def comp_def)

lemma add_unit_units: "units_of (add_unit segments cm) = units_of segments @ [cm]"
  by (cases segments rule: rev_cases) (auto simp: add_unit_def units_of_def)

lemma foldl_units: "units_of (foldl add_unit segments cms) = units_of segments @ cms"
  by (induction cms arbitrary: segments) (simp_all add: add_unit_units)

lemma toSegments_units: "units_of (toSegments label marked) = zip label marked"
  by (simp add: toSegments_def foldl_units) (simp add: units_of_def)

lemma add_unit_alternates:
  "successively (\<lambda>a b. ms_match a \<noteq> ms_match b) segments \<Longrightarrow>
    successively (\<lambda>a b. ms_match a \<noteq> ms_match b) (add_unit segments cm)"
  by (cases segments rule: rev_cases) (auto simp: add_unit_def successively_append_iff)

lemma toSegments_alternates: "successively (\<lambda>a b. ms_match a \<noteq> ms_match b) (toSegments label marked)"
proof -
  have "successively (\<lambda>a b. ms_match a \<noteq> ms_match b) segs \<Longrightarrow>
      successively (\<lambda>a b. ms_match a \<noteq> ms_match b) (foldl add_unit segs cms)" for segs cms
    by (induction cms arbitrary: segs) (simp_all only: foldl_Nil foldl_Cons add_unit_alternates)
  then show ?thesis by (simp add: toSegments_def)
qed

lemma range_of_split:
  "range_of (before @ found @ after) (length before) (length found) =
    replicate (length before) False @ replicate (length found) True @ replicate (length after) False"
  by (rule nth_equalityI) (auto simp: range_of_def nth_append)

lemma marked_middle:
  "map fst (filter snd (zip (before @ found @ after)
    (range_of (before @ found @ after) (length before) (length found)))) = found"
  by (simp add: range_of_split zip_replicate2 filter_map comp_def)

lemma range_of_marked:
  assumes "occurs_at needle (to_lower label) i"
  shows "to_lower (map fst (filter snd (zip label (range_of label i (length needle))))) = needle"
proof -
  let ?m = "take (length needle) (drop i label)"
  have len: "i + length needle \<le> length label" and hit: "to_lower ?m = needle"
    using assms by (auto simp: occurs_at_def to_lower_def take_map drop_map)
  have split: "take i label @ ?m @ drop (length needle) (drop i label) = label"
    by (simp only: append_take_drop_id)
  have lens: "length (take i label) = i" "length ?m = length needle" using len by auto
  show ?thesis
    using marked_middle [of "take i label" ?m "drop (length needle) (drop i label)"]
    unfolding split lens using hit by simp
qed

lemma in_order_length: "length (fst (in_order hs needle)) = length hs"
  by (induction hs needle rule: in_order.induct) (auto split: prod.splits)

lemma in_order_marked:
  "snd (in_order hs needle) = [] \<Longrightarrow> map fst (filter snd (zip hs (fst (in_order hs needle)))) = needle"
proof (induction hs needle rule: in_order.induct)
  case (2 h hs)
  have "filter snd (zip xs (map (\<lambda>_. False) xs)) = []" for xs :: string
    by (induction xs) auto
  then show ?case by simp
qed (auto split: prod.splits)

lemma marked_lower:
  "map fst (filter snd (zip (to_lower label) marked)) = to_lower (map fst (filter snd (zip label marked)))"
  by (induction label marked rule: list_induct2') (auto simp: to_lower_def)

lemma marked_of_toSegments: "marked_text (toSegments label marked) = map fst (filter snd (zip label marked))"
  by (simp add: units_of_marked [symmetric] toSegments_units)

lemma text_of_toSegments: "length marked = length label \<Longrightarrow> concat (map ms_text (toSegments label marked)) = label"
  by (simp add: units_of_text [symmetric] toSegments_units)

lemma matchLabel_cases:
  obtains "lm_segments (matchLabel label query) = [\<lparr>ms_text = label, ms_match = False\<rparr>]"
    "lm_score (matchLabel label query) = 0 \<or> to_lower (trim query) = []"
  | marked where "lm_segments (matchLabel label query) = toSegments label marked" "length marked = length label"
    "0 < lm_score (matchLabel label query)"
    "to_lower (map fst (filter snd (zip label marked))) = to_lower (trim query)"
proof -
  let ?n = "to_lower (trim query)"
  let ?t = "to_lower label"
  have lens: "length (range_of label i n) = length label" for i n by (simp add: range_of_def)
  consider (none) "?n = []"
    | (word) i where "?n \<noteq> []" "findWordStart ?t ?n = Some i"
    | (mid) i where "?n \<noteq> []" "findWordStart ?t ?n = None" "index_of ?n ?t 0 = Some i"
    | (letters) "?n \<noteq> []" "findWordStart ?t ?n = None" "index_of ?n ?t 0 = None"
    by (cases "findWordStart ?t ?n"; cases "index_of ?n ?t 0") blast+
  then show thesis
  proof cases
    case none
    show thesis by (rule that(1)) (simp_all add: matchLabel_def none)
  next
    case (word i)
    then have "occurs_at ?n ?t i" using word_start_from_Some by (auto simp: findWordStart_def)
    then show thesis using word
      by (intro that(2) [of "range_of label i (length ?n)"]) (simp_all add: matchLabel_def lens range_of_marked)
  next
    case (mid i)
    then have "occurs_at ?n ?t i" using index_of_Some by blast
    then show thesis using mid
      by (intro that(2) [of "range_of label i (length ?n)"]) (simp_all add: matchLabel_def lens range_of_marked)
  next
    case letters
    show thesis
    proof (cases "snd (in_order ?t ?n) = []")
      case True
      have "length (fst (in_order ?t ?n)) = length label"
        by (simp add: in_order_length) (simp add: to_lower_def)
      then show thesis using letters True in_order_marked [OF True]
        by (intro that(2) [of "fst (in_order ?t ?n)"])
           (simp_all add: matchLabel_def Let_def case_prod_beta marked_lower)
    next
      case False
      then show thesis using letters
        by (intro that(1)) (simp_all add: matchLabel_def Let_def case_prod_beta)
    qed
  qed
qed

text \<open>
  What is shown of a label: its segments put together are the label, a marked one and an unmarked one take
  turns, and the marked text is, apart from case, exactly what was typed; without a match nothing is marked.
\<close>

theorem label_segments_spell:
  "concat (map ms_text (lm_segments (matchLabel label query))) = label \<and>
   successively (\<lambda>a b. ms_match a \<noteq> ms_match b) (lm_segments (matchLabel label query)) \<and>
   to_lower (marked_text (lm_segments (matchLabel label query))) =
     (if 0 < lm_score (matchLabel label query) then to_lower (trim query) else [])"
proof (cases rule: matchLabel_cases [of label query])
  case 1
  then show ?thesis by (auto simp: marked_text_def to_lower_def)
next
  case (2 marked)
  then show ?thesis by (simp only: text_of_toSegments toSegments_alternates marked_of_toSegments) simp
qed

section \<open>The ranking\<close>

definition ranked_entries :: "('a \<Rightarrow> string) \<Rightarrow> 'a list \<Rightarrow> string \<Rightarrow> ('a \<times> nat \<times> nat) list" where
  "ranked_entries label_of items query =
    map (\<lambda>(index, item). (item, index, lm_score (matchLabel (label_of item) query))) (zip [0..<length items] items)"

definition entry_key :: "'a \<times> nat \<times> nat \<Rightarrow> int \<times> nat" where
  "entry_key e = (- int (snd (snd e)), fst (snd e))"

lemma filterByLabel_entries:
  "filterByLabel label_of items query =
    map fst (sort_key entry_key (filter (\<lambda>e. 0 < snd (snd e)) (ranked_entries label_of items query)))"
  by (simp add: filterByLabel_def ranked_entries_def entry_key_def [abs_def] case_prod_unfold)

lemma entries_indices: "map (\<lambda>e. fst (snd e)) (ranked_entries label_of items query) = [0..<length items]"
  by (simp add: ranked_entries_def comp_def case_prod_unfold)

lemma entries_items:
  "map fst (filter (\<lambda>e. P (snd (snd e))) (ranked_entries label_of items query)) =
    filter (\<lambda>item. P (lm_score (matchLabel (label_of item) query))) items"
proof -
  have each: "map fst (filter (\<lambda>e. P (snd (snd e)))
      (map (\<lambda>(index, item). (item, index, lm_score (matchLabel (label_of item) query))) (zip is xs))) =
    filter (\<lambda>item. P (lm_score (matchLabel (label_of item) query))) xs"
    if "length is = length xs" for "is" xs
    using that by (induction "is" xs rule: list_induct2) auto
  show ?thesis unfolding ranked_entries_def by (rule each) simp
qed

lemma entries_score:
  "e \<in> set (ranked_entries label_of items query) \<Longrightarrow> snd (snd e) \<le> 3"
  by (auto simp: ranked_entries_def label_score_bounds)

lemma key_inj: "inj_on entry_key (set (filter P (ranked_entries label_of items query)))"
proof (rule inj_onI)
  fix a b
  assume "a \<in> set (filter P (ranked_entries label_of items query))"
    and "b \<in> set (filter P (ranked_entries label_of items query))" and same: "entry_key a = entry_key b"
  then have ab: "a \<in> set (ranked_entries label_of items query)" "b \<in> set (ranked_entries label_of items query)"
    by auto
  have "distinct (map (\<lambda>e. fst (snd e)) (ranked_entries label_of items query))"
    by (simp add: entries_indices)
  moreover have "fst (snd a) = fst (snd b)" using same by (simp add: entry_key_def)
  ultimately show "a = b" using ab by (meson distinct_map inj_onD)
qed

lemma same_score_sorted:
  "sorted (map entry_key (filter (\<lambda>e. snd (snd e) = k) (ranked_entries label_of items query)))"
proof -
  have "sorted_wrt (\<lambda>a b. fst (snd a) < fst (snd b)) (ranked_entries label_of items query)"
    using entries_indices [of label_of items query] strict_sorted_iff [of "[0..<length items]"]
    by (metis sorted_wrt_map sorted_wrt_upt)
  then have "sorted_wrt (\<lambda>a b. fst (snd a) < fst (snd b))
      (filter (\<lambda>e. snd (snd e) = k) (ranked_entries label_of items query))"
    by (rule sorted_wrt_filter)
  then show ?thesis
    unfolding sorted_map
    by (rule sorted_wrt_mono_rel [rotated]) (auto simp: entry_key_def)
qed

lemma mset_by_score:
  "(\<And>e. e \<in> set es \<Longrightarrow> snd (snd e) \<le> 3) \<Longrightarrow>
    mset (filter (\<lambda>e. 0 < snd (snd e)) es) =
    mset (concat (map (\<lambda>k. filter (\<lambda>e. snd (snd e) = k) es) [3, 2, 1 :: nat]))"
proof (induction es)
  case Nil
  then show ?case by simp
next
  case (Cons e es)
  have "snd (snd e) = 0 \<or> snd (snd e) = 1 \<or> snd (snd e) = 2 \<or> snd (snd e) = 3"
    using Cons.prems [of e] by auto
  then show ?case using Cons by (elim disjE) simp_all
qed

lemma sorted_by_score:
  "sorted (map entry_key (concat (map (\<lambda>k. filter (\<lambda>e. snd (snd e) = k)
    (ranked_entries label_of items query)) [3, 2, 1 :: nat])))"
  by (simp add: sorted_append same_score_sorted) (auto simp: entry_key_def)

text \<open>
  The ranking: the items that match at the start of a word, then those that match elsewhere, then those
  whose letters occur in order, each of these in the order of the source; what does not match is left out.
\<close>

theorem ranking_by_score:
  "filterByLabel label_of items query =
    concat (map (\<lambda>k. filter (\<lambda>item. lm_score (matchLabel (label_of item) query) = k) items) [3, 2, 1])"
proof -
  let ?es = "ranked_entries label_of items query"
  have "sort_key entry_key (filter (\<lambda>e. 0 < snd (snd e)) ?es) =
      concat (map (\<lambda>k. filter (\<lambda>e. snd (snd e) = k) ?es) [3, 2, 1])"
    by (rule sort_key_inj_key_eq) (rule mset_by_score entries_score key_inj sorted_by_score; assumption?)+
  moreover have "map fst (filter (\<lambda>e. snd (snd e) = k) ?es) =
      filter (\<lambda>item. lm_score (matchLabel (label_of item) query) = k) items" for k
    by (rule entries_items)
  ultimately show ?thesis
    by (simp add: filterByLabel_entries)
qed

end
