(* ===== verification/Inline_Edit.thy ===== *)
theory Inline_Edit
  imports Label_Search
begin

text \<open>
  Editing in place (\<open>ui-kit/src/components/Input/InlineInput.tsx\<close>): the cell at rest and its keys, the
  editor that lives while the parent says that the cell is edited, and how an edit is settled. The parent is
  the surroundings: it renders the cell with any properties at any time, and what it is told is the list of
  effects, in order; that an editor was mounted is in that list too. Focus and drawing are not modelled.
\<close>

section \<open>The cell\<close>

datatype edit_how = HowCaret | HowSelectAll | HowType

datatype save_status = SaveIdle | SavePending | SaveError | SaveConflict

record edit_start =
  es_how :: edit_how
  es_char :: "string option"

definition CARET :: edit_start where
  "CARET = \<lparr>es_how = HowCaret, es_char = None\<rparr>"

record inline_props =
  ip_value :: string
  ip_editing :: bool
  ip_status :: save_status
  ip_unsaved :: "string option"
  ip_onRetry :: bool
  ip_onResolve :: bool
  ip_validate :: "string \<Rightarrow> string option"
  ip_maxLength :: "nat option"
  ip_required :: bool
  ip_readOnly :: "string option"

datatype edit_problem = ProblemMessage string | TooLong nat nat

datatype inline_effect =
  AskedEdit edit_how "string option"
| AskedLeave
| Committed string "int option"
| Cancelled
| Retried
| Resolved
| EditorMounted

record inline_editor =
  ed_draft :: string
  ed_settled :: bool

record inline_cell =
  ic_props :: inline_props
  ic_start :: edit_start
  ic_problem :: "edit_problem option"
  ic_editingBefore :: bool
  ic_editor :: "inline_editor option"
  ic_out :: "inline_effect list"

definition tell :: "inline_effect list \<Rightarrow> inline_cell \<Rightarrow> inline_cell" where
  "tell es c = c\<lparr>ic_out := ic_out c @ es\<rparr>"

definition isTextKey :: "key_event \<Rightarrow> bool" where
  "isTextKey e \<longleftrightarrow> length (ke_key e) = 1 \<and> trim (ke_key e) \<noteq> [] \<and> \<not> ke_meta e \<and> \<not> ke_ctrl e \<and> \<not> ke_alt e"

definition requestEdit :: "edit_how \<Rightarrow> string option \<Rightarrow> inline_cell \<Rightarrow> inline_cell" where
  "requestEdit how ch c = tell [AskedEdit how ch] (c\<lparr>ic_start := \<lparr>es_how = how, es_char = ch\<rparr>\<rparr>)"

text \<open>A key on the cell at rest: what it does, and whether the press is taken.\<close>

definition cell_keydown :: "key_press \<Rightarrow> hotkeys_state \<Rightarrow> inline_cell \<Rightarrow> inline_cell \<times> bool" where
  "cell_keydown press hotkeys c =
    (let e = kp_event press; p = ic_props c in
     if ip_readOnly p \<noteq> None \<or> kp_prevented press \<or> ke_meta e \<or> ke_ctrl e \<or> ke_alt e then (c, False)
     else if ke_key e = ''Enter'' \<and> ip_status p = SaveError \<and> ip_onRetry p then (tell [Retried] c, True)
     else if ke_key e = ''Enter'' \<and> ip_status p = SaveConflict \<and> ip_onResolve p then (tell [Resolved] c, True)
     else if ke_key e = ''Enter'' \<or> ke_key e = ''F2'' then (requestEdit HowCaret None c, True)
     else if \<not> isTextKey e then (c, False)
     else if to_lower (ke_key e) = ''e'' \<and> \<not> ke_shift e then (requestEdit HowSelectAll None c, True)
     else if isAppHotkey e hotkeys then (c, False)
     else (requestEdit HowType (Some (ke_key e)) c, True))"

definition cell_doubleClick :: "inline_cell \<Rightarrow> inline_cell" where
  "cell_doubleClick c = (if ip_readOnly (ic_props c) = None then requestEdit HowCaret None c else c)"

text \<open>The buttons beside the cell, there only outside an edit.\<close>

definition cell_retry :: "inline_cell \<Rightarrow> inline_cell" where
  "cell_retry c =
    (let p = ic_props c in
     if \<not> ip_editing p \<and> ip_status p = SaveError \<and> ip_onRetry p then tell [Retried] c else c)"

definition cell_resolve :: "inline_cell \<Rightarrow> inline_cell" where
  "cell_resolve c =
    (let p = ic_props c in
     if \<not> ip_editing p \<and> ip_status p = SaveConflict \<and> ip_onResolve p then tell [Resolved] c else c)"

text \<open>The tint of another's edit: the key the cell was born with is not one.\<close>

definition remoteKey :: "string option \<Rightarrow> string option \<Rightarrow> string option" where
  "remoteKey firstRemoteKey now = (if now \<noteq> firstRemoteKey then now else None)"

text \<open>What a screen reader says of the cell; the words for the states are the messages'.\<close>

definition cellName :: "(save_status \<Rightarrow> string) \<Rightarrow> string option \<Rightarrow> string \<Rightarrow> inline_props \<Rightarrow> string" where
  "cellName spoken ariaLabel placeholder p =
    (let shown = (if ip_value p \<noteq> [] then ip_value p else placeholder);
         named = (if truthy ariaLabel then the ariaLabel @ '': '' @ shown else shown);
         spokenState = (if ip_status p = SaveIdle then [] else spoken (ip_status p))
     in join '', '' (filter (\<lambda>s. s \<noteq> []) [named, spokenState]))"

section \<open>The editor\<close>

text \<open>Over a failed save the edit starts from what did not save.\<close>

definition first_draft :: "edit_start \<Rightarrow> inline_props \<Rightarrow> string" where
  "first_draft start p =
    (if es_how start = HowType then (case es_char start of Some ch \<Rightarrow> ch | None \<Rightarrow> [])
     else (case ip_unsaved p of Some u \<Rightarrow> if ip_status p = SaveError then u else ip_value p | None \<Rightarrow> ip_value p))"

definition draft_problem :: "inline_props \<Rightarrow> string \<Rightarrow> edit_problem option" where
  "draft_problem p draft =
    (case ip_validate p draft of
      Some message \<Rightarrow> Some (ProblemMessage message)
    | None \<Rightarrow>
        (case ip_maxLength p of
          Some m \<Rightarrow> if m < length draft then Some (TooLong (length draft) m) else None
        | None \<Rightarrow> None))"

definition with_editor :: "inline_editor \<Rightarrow> inline_cell \<Rightarrow> inline_cell" where
  "with_editor ed c = c\<lparr>ic_editor := Some ed\<rparr>"

definition cancel_edit :: "inline_editor \<Rightarrow> inline_cell \<Rightarrow> inline_cell" where
  "cancel_edit ed c = tell [Cancelled, AskedLeave] (with_editor (ed\<lparr>ed_settled := True\<rparr>) c)"

text \<open>
  \<open>if (settled.current || problem) return\<close>: a message is a string, and an empty one is falsy.
\<close>

definition blocking :: "edit_problem option \<Rightarrow> bool" where
  "blocking problem \<longleftrightarrow> (case problem of None \<Rightarrow> False | Some (ProblemMessage m) \<Rightarrow> m \<noteq> [] | Some (TooLong _ _) \<Rightarrow> True)"

definition save_edit :: "int option \<Rightarrow> inline_editor \<Rightarrow> inline_cell \<Rightarrow> inline_cell" where
  "save_edit move ed c =
    (if ed_settled ed \<or> blocking (draft_problem (ic_props c) (ed_draft ed)) then c
     else if ip_required (ic_props c) \<and> trim (ed_draft ed) = [] then cancel_edit ed c
     else tell (Committed (ed_draft ed) move # (if move = None then [AskedLeave] else []))
       (with_editor (ed\<lparr>ed_settled := True\<rparr>) c))"

text \<open>The level of the Esc ladder: the press is always taken.\<close>

definition editor_escape :: "inline_editor \<Rightarrow> inline_cell \<Rightarrow> inline_cell" where
  "editor_escape ed c = (if ed_settled ed then c else cancel_edit ed c)"

record editor_key =
  ek_key :: string
  ek_shift :: bool
  ek_composing :: bool

definition editor_keydown :: "editor_key \<Rightarrow> inline_editor \<Rightarrow> inline_cell \<Rightarrow> inline_cell" where
  "editor_keydown k ed c =
    (if ek_composing k then c
     else if ek_key k = ''Enter'' then save_edit None ed c
     else if ek_key k = ''Tab'' then save_edit (Some (if ek_shift k then -1 else 1)) ed c
     else c)"

section \<open>Rendering\<close>

text \<open>The adjustment during render, the editor's mounting and unmounting, then its layout effect.\<close>

definition adjust_editing :: "inline_cell \<Rightarrow> inline_cell" where
  "adjust_editing c =
    (let editing = ip_editing (ic_props c) in
     if ic_editingBefore c = editing then c
     else if editing then c\<lparr>ic_editingBefore := True\<rparr>
     else c\<lparr>ic_editingBefore := False, ic_start := CARET, ic_problem := None\<rparr>)"

definition mount_editor :: "inline_cell \<Rightarrow> inline_cell" where
  "mount_editor c =
    (let p = ic_props c in
     if ip_editing p \<and> ip_readOnly p = None
     then (case ic_editor c of
        None \<Rightarrow> tell [EditorMounted] (with_editor \<lparr>ed_draft = first_draft (ic_start c) p, ed_settled = False\<rparr> c)
      | Some _ \<Rightarrow> c)
     else c\<lparr>ic_editor := None\<rparr>)"

definition report_problem :: "inline_cell \<Rightarrow> inline_cell" where
  "report_problem c =
    (case ic_editor c of
      None \<Rightarrow> c
    | Some ed \<Rightarrow> c\<lparr>ic_problem := draft_problem (ic_props c) (ed_draft ed)\<rparr>)"

definition render_cell :: "inline_cell \<Rightarrow> inline_cell" where
  "render_cell c = report_problem (mount_editor (adjust_editing c))"

definition new_cell :: "inline_props \<Rightarrow> inline_cell" where
  "new_cell p = render_cell \<lparr>ic_props = p, ic_start = CARET, ic_problem = None, ic_editingBefore = ip_editing p,
    ic_editor = None, ic_out = []\<rparr>"

datatype inline_event =
  ParentRenders inline_props
| CellKey key_press hotkeys_state
| CellDoubleClicked
| DraftTyped string
| EditorKey editor_key
| EditorBlurred
| EscapePressed
| RetryClicked
| ResolveClicked

definition inline_event :: "inline_event \<Rightarrow> inline_cell \<Rightarrow> inline_cell" where
  "inline_event e c =
    (case (e, ic_editor c) of
      (ParentRenders p, _) \<Rightarrow> c\<lparr>ic_props := p\<rparr>
    | (CellKey k hotkeys, None) \<Rightarrow> fst (cell_keydown k hotkeys c)
    | (CellDoubleClicked, None) \<Rightarrow> cell_doubleClick c
    | (DraftTyped draft, Some ed) \<Rightarrow> with_editor (ed\<lparr>ed_draft := draft\<rparr>) c
    | (EditorKey k, Some ed) \<Rightarrow> editor_keydown k ed c
    | (EditorBlurred, Some ed) \<Rightarrow> save_edit None ed c
    | (EscapePressed, Some ed) \<Rightarrow> editor_escape ed c
    | (RetryClicked, _) \<Rightarrow> cell_retry c
    | (ResolveClicked, _) \<Rightarrow> cell_resolve c
    | _ \<Rightarrow> c)"

definition inline_step :: "inline_cell \<Rightarrow> inline_event \<Rightarrow> inline_cell" where
  "inline_step c e = render_cell (inline_event e c)"

section \<open>An edit is settled once\<close>

text \<open>Read along what the parent was told: whether an edit is open, and that only an open one is settled.\<close>

definition opens :: "bool \<Rightarrow> inline_effect \<Rightarrow> bool" where
  "opens b e = (case e of EditorMounted \<Rightarrow> True | Committed _ _ \<Rightarrow> False | Cancelled \<Rightarrow> False | _ \<Rightarrow> b)"

definition settles :: "inline_effect \<Rightarrow> bool" where
  "settles e \<longleftrightarrow> (case e of Committed _ _ \<Rightarrow> True | Cancelled \<Rightarrow> True | _ \<Rightarrow> False)"

fun settles_once :: "bool \<Rightarrow> inline_effect list \<Rightarrow> bool" where
  "settles_once b [] = True"
| "settles_once b (e # es) = ((settles e \<longrightarrow> b) \<and> settles_once (opens b e) es)"

lemma settles_once_append: "settles_once b (xs @ ys) \<longleftrightarrow> settles_once b xs \<and> settles_once (foldl opens b xs) ys"
  by (induction xs arbitrary: b) auto

definition cell_ok :: "inline_cell \<Rightarrow> bool" where
  "cell_ok c \<longleftrightarrow>
    settles_once False (ic_out c) \<and>
    (\<forall>ed. ic_editor c = Some ed \<longrightarrow> \<not> ed_settled ed \<longrightarrow> foldl opens False (ic_out c))"

lemmas effect_defs = opens_def settles_def

lemma tell_ok:
  "cell_ok c \<Longrightarrow> \<forall>e\<in>set es. \<not> settles e \<Longrightarrow> cell_ok (tell es c)"
proof (induction es arbitrary: c)
  case (Cons e es)
  then have "cell_ok (tell [e] c)"
    by (auto simp: cell_ok_def tell_def settles_once_append effect_defs split: inline_effect.splits)
  with Cons.IH [of "tell [e] c"] Cons.prems show ?case by (simp add: tell_def)
qed (simp add: tell_def)

lemma requestEdit_ok: "cell_ok c \<Longrightarrow> cell_ok (requestEdit how ch c)"
  unfolding requestEdit_def by (rule tell_ok) (simp_all add: cell_ok_def effect_defs)

lemma cell_keydown_ok: "cell_ok c \<Longrightarrow> cell_ok (fst (cell_keydown k hotkeys c))"
  by (simp add: cell_keydown_def Let_def requestEdit_ok tell_ok effect_defs)

text \<open>Settling: the editor is settled from then on, and the edit was open.\<close>

lemma settle_ok:
  assumes "cell_ok c" and "ic_editor c = Some ed" and "\<not> ed_settled ed" and "settles e" and "\<forall>x\<in>set es. \<not> settles x"
  shows "cell_ok (tell (e # es) (with_editor (ed\<lparr>ed_settled := True\<rparr>) c))"
proof -
  have "foldl opens False (ic_out c)" using assms(1,2,3) by (simp add: cell_ok_def)
  then have "cell_ok (tell [e] (with_editor (ed\<lparr>ed_settled := True\<rparr>) c))"
    using assms(1) by (simp add: cell_ok_def tell_def with_editor_def settles_once_append)
  then have "cell_ok (tell es (tell [e] (with_editor (ed\<lparr>ed_settled := True\<rparr>) c)))"
    using assms(5) by (rule tell_ok)
  then show ?thesis by (simp add: tell_def)
qed

lemma cancel_ok: "cell_ok c \<Longrightarrow> ic_editor c = Some ed \<Longrightarrow> \<not> ed_settled ed \<Longrightarrow> cell_ok (cancel_edit ed c)"
  unfolding cancel_edit_def by (rule settle_ok) (simp_all add: effect_defs)

lemma save_ok: "cell_ok c \<Longrightarrow> ic_editor c = Some ed \<Longrightarrow> cell_ok (save_edit move ed c)"
  by (auto simp: save_edit_def cancel_ok effect_defs intro!: settle_ok)

lemma draft_ok: "cell_ok c \<Longrightarrow> ic_editor c = Some ed \<Longrightarrow> cell_ok (with_editor (ed\<lparr>ed_draft := d\<rparr>) c)"
  by (simp add: cell_ok_def with_editor_def)

lemma inline_event_ok: "cell_ok c \<Longrightarrow> cell_ok (inline_event e c)"
proof (cases e)
  case (ParentRenders p)
  assume "cell_ok c"
  then show ?thesis by (simp add: ParentRenders inline_event_def cell_ok_def)
qed (auto simp: inline_event_def cell_keydown_ok requestEdit_ok cell_doubleClick_def save_ok editor_keydown_def
      editor_escape_def cancel_ok draft_ok cell_retry_def cell_resolve_def Let_def tell_ok effect_defs split: option.split)

lemma render_cell_ok: "cell_ok c \<Longrightarrow> cell_ok (render_cell c)"
  by (auto simp: render_cell_def report_problem_def mount_editor_def adjust_editing_def cell_ok_def Let_def tell_def
    with_editor_def settles_once_append effect_defs split: option.splits)

interpretation cell: event_machine inline_step "\<lambda>_ _. True" cell_ok
  by unfold_locales (simp add: inline_step_def inline_event_ok render_cell_ok)

lemma new_cell_ok: "cell_ok (new_cell p)"
  unfolding new_cell_def by (rule render_cell_ok) (simp add: cell_ok_def)

lemma render_out: "ic_out (render_cell c) = ic_out c \<or> ic_out (render_cell c) = ic_out c @ [EditorMounted]"
  by (simp add: render_cell_def report_problem_def mount_editor_def adjust_editing_def Let_def tell_def with_editor_def
    split: option.split)

lemma committed_now:
  assumes "Committed draft move \<in> set (drop (length (ic_out c)) (ic_out (inline_step c e)))"
  shows "\<exists>ed. ic_editor c = Some ed \<and> \<not> ed_settled ed \<and> draft = ed_draft ed \<and>
    \<not> blocking (draft_problem (ic_props c) draft) \<and> \<not> (ip_required (ic_props c) \<and> trim draft = [])"
proof -
  have only: "Committed draft move \<notin> set (drop k [EditorMounted])" for k by (cases k) auto
  have "Committed draft move \<in> set (drop (length (ic_out c)) (ic_out (inline_event e c)))"
    using assms render_out [of "inline_event e c"] only by (auto simp: inline_step_def)
  then show ?thesis
    by (cases e; cases "ic_editor c")
       (auto simp: inline_event_def cell_keydown_def requestEdit_def cell_doubleClick_def editor_keydown_def save_edit_def
         editor_escape_def cancel_edit_def cell_retry_def cell_resolve_def tell_def with_editor_def Let_def split: if_splits)
qed

text \<open>
  C32: An edit is settled at most once, and only while it is open: along everything the parent is told,
  whatever the keys, blurs, presses of Esc and renders, every commit and every cancel comes after an editor was
  mounted with nothing settled since. And what is committed is the draft on screen, with no problem that blocks
  saving, and not blank where a value is required.
\<close>

theorem inline_edit_settles_once:
  "settles_once False (ic_out (foldl inline_step (new_cell p) es)) \<and>
   (\<forall>draft move. Committed draft move \<in> set (drop (length (ic_out (foldl inline_step (new_cell p) es)))
        (ic_out (inline_step (foldl inline_step (new_cell p) es) e))) \<longrightarrow>
      (\<exists>ed. ic_editor (foldl inline_step (new_cell p) es) = Some ed \<and> \<not> ed_settled ed \<and> draft = ed_draft ed \<and>
        \<not> blocking (draft_problem (ic_props (foldl inline_step (new_cell p) es)) draft) \<and>
        \<not> (ip_required (ic_props (foldl inline_step (new_cell p) es)) \<and> trim draft = [])))"
proof -
  have "admissible inline_step (\<lambda>_ _. True) c es" for c by (rule admissible_all)
  then have "cell_ok (foldl inline_step (new_cell p) es)" by (rule cell.run_inv [OF new_cell_ok])
  then show ?thesis using committed_now by (simp add: cell_ok_def)
qed

definition title_props :: inline_props where
  "title_props = \<lparr>ip_value = ''Old'', ip_editing = True, ip_status = SaveIdle, ip_unsaved = None, ip_onRetry = True,
    ip_onResolve = True, ip_validate = (\<lambda>_. None), ip_maxLength = Some 5, ip_required = True, ip_readOnly = None\<rparr>"

definition enter_key :: inline_event where
  "enter_key = EditorKey \<lparr>ek_key = ''Enter'', ek_shift = False, ek_composing = False\<rparr>"

text \<open>Too long at first, so Enter saves nothing; then Enter saves and the blur after it does not.\<close>

lemma title_run:
  "ic_out (foldl inline_step (new_cell title_props) [DraftTyped ''Longer'', enter_key, DraftTyped ''New'']) = [EditorMounted]"
  "ic_out (inline_step (foldl inline_step (new_cell title_props) [DraftTyped ''Longer'', enter_key, DraftTyped ''New'']) enter_key) =
    [EditorMounted, Committed ''New'' None, AskedLeave]"
  "ic_out (foldl inline_step (new_cell title_props)
    [DraftTyped ''Longer'', enter_key, DraftTyped ''New'', enter_key, EditorBlurred]) =
    [EditorMounted, Committed ''New'' None, AskedLeave]"
  by code_simp+

theorem inline_edit_settles_once_witness:
  "\<exists>ed. ic_editor (foldl inline_step (new_cell title_props) [DraftTyped ''Longer'', enter_key, DraftTyped ''New'']) = Some ed \<and>
    ed_draft ed = ''New''"
proof -
  let ?es = "[DraftTyped ''Longer'', enter_key, DraftTyped ''New'']"
  have "Committed ''New'' None \<in> set (drop (length (ic_out (foldl inline_step (new_cell title_props) ?es)))
      (ic_out (inline_step (foldl inline_step (new_cell title_props) ?es) enter_key)))"
    unfolding title_run by simp
  then show ?thesis
    using inline_edit_settles_once [of title_props ?es enter_key] by metis
qed

section \<open>Into and out of an edit\<close>

text \<open>Over a failed save nothing typed is lost, unless a typed character asked to replace it.\<close>

lemma failed_save_kept:
  "ip_status p = SaveError \<Longrightarrow> ip_unsaved p = Some u \<Longrightarrow> es_how start \<noteq> HowType \<Longrightarrow> first_draft start p = u"
  by (simp add: first_draft_def)

text \<open>After Tab the parent has the edit: nothing the user does in this editor tells it anything more.\<close>

lemma settled_is_silent:
  "ic_editor c = Some ed \<Longrightarrow> ed_settled ed \<Longrightarrow>
    save_edit move ed c = c \<and> editor_escape ed c = c \<and> editor_keydown k ed c = c"
  by (simp add: save_edit_def editor_escape_def editor_keydown_def)

text \<open>Esc leaves an edit, a problem or not: it is cancelled and the parent is asked to end it.\<close>

lemma escape_cancels:
  "ic_editor c = Some ed \<Longrightarrow> \<not> ed_settled ed \<Longrightarrow> ic_out (inline_event EscapePressed c) = ic_out c @ [Cancelled, AskedLeave]"
  by (simp add: inline_event_def editor_escape_def cancel_edit_def tell_def with_editor_def)

text \<open>
  How an edit was asked to begin is forgotten when an edit ends, not when the parent declines: asked by a typed
  letter and declined, the cell starts the next edit, begun by the parent, from that letter.
\<close>

lemma declined_letter_stays:
  assumes "ic_editor c = None" and "ic_start c = \<lparr>es_how = HowType, es_char = Some ch\<rparr>" and "\<not> ic_editingBefore c"
    and "ip_editing p" and "ip_readOnly p = None"
  shows "\<exists>ed. ic_editor (inline_step c (ParentRenders p)) = Some ed \<and> ed_draft ed = ch"
  using assms
  by (simp add: inline_step_def inline_event_def render_cell_def report_problem_def mount_editor_def adjust_editing_def
    Let_def tell_def with_editor_def first_draft_def)

end
