(* ===== verification/Form_Controls.thy ===== *)
theory Form_Controls
  imports Complex_Main Inline_Edit "HOL-Library.Word"
begin

unbundle bit_operations_syntax

text \<open>
  The small machines under the kit's controls: when a field shows its error and what its keys and blur
  commit (\<open>Input/useFieldError.ts\<close>, \<open>FieldInput.tsx\<close>, \<open>Textarea.tsx\<close>), the flag that waits before it shows
  (\<open>hooks/useDelayedFlag.ts\<close>), the segmented choice, the one working instance of a host, overlays one at a time
  and their exit (\<open>overlay\<close>), progress, and an avatar's tone, a hash of 32 bits. Time is a counter of
  milliseconds; a timer fires when an event says so, and not before it is due.
\<close>

section \<open>Fields\<close>

record field_error =
  fe_error :: bool
  fe_focused :: bool
  fe_visible :: bool

text \<open>The adjustments during render: first hidden, then shown.\<close>

definition render_error :: "field_error \<Rightarrow> field_error" where
  "render_error s =
    (let s' = (if \<not> fe_error s \<and> fe_visible s then s\<lparr>fe_visible := False\<rparr> else s)
     in if fe_error s' \<and> \<not> fe_visible s' \<and> \<not> fe_focused s' then s'\<lparr>fe_visible := True\<rparr> else s')"

definition new_field :: "bool \<Rightarrow> field_error" where
  "new_field error = render_error \<lparr>fe_error = error, fe_focused = False, fe_visible = error\<rparr>"

datatype field_event = ErrorIs bool | FieldFocused | FieldBlurred

definition field_step :: "field_error \<Rightarrow> field_event \<Rightarrow> field_error" where
  "field_step s e = render_error
    (case e of ErrorIs b \<Rightarrow> s\<lparr>fe_error := b\<rparr> | FieldFocused \<Rightarrow> s\<lparr>fe_focused := True\<rparr> | FieldBlurred \<Rightarrow> s\<lparr>fe_focused := False\<rparr>)"

datatype field_effect = ValueChanged string | FieldCommitted string

definition input_change :: "bool \<Rightarrow> string \<Rightarrow> field_effect list" where
  "input_change disabled v = (if disabled then [] else [ValueChanged v])"

definition input_keydown :: "editor_key \<Rightarrow> bool \<Rightarrow> string \<Rightarrow> field_effect list" where
  "input_keydown k prevented v =
    (if ek_key k = ''Enter'' \<and> \<not> ek_composing k \<and> \<not> prevented then [FieldCommitted v] else [])"

definition input_blur :: "bool \<Rightarrow> string \<Rightarrow> field_effect list" where
  "input_blur disabled v = (if disabled then [] else [FieldCommitted v])"

definition textarea_keydown :: "key_event \<Rightarrow> bool \<Rightarrow> string \<Rightarrow> field_effect list" where
  "textarea_keydown e prevented v =
    (if ke_key e = ''Enter'' \<and> (ke_meta e \<or> ke_ctrl e) \<and> \<not> prevented then [FieldCommitted v] else [])"

section \<open>A flag that waits\<close>

datatype flag_timer = ShowAt int | HideAt int

record delayed_flag =
  df_now :: int
  df_active :: bool
  df_visible :: bool
  df_shownAt :: "int option"
  df_timer :: "flag_timer option"

text \<open>The effect when \<open>active\<close> changed: its cleanup has cleared the timer before.\<close>

definition flag_effect :: "int \<Rightarrow> int \<Rightarrow> delayed_flag \<Rightarrow> delayed_flag" where
  "flag_effect delay minVisible s =
    (let s' = s\<lparr>df_timer := None\<rparr> in
     case (df_active s, df_shownAt s) of
       (True, Some _) \<Rightarrow> s'
     | (True, None) \<Rightarrow> s'\<lparr>df_timer := Some (ShowAt (df_now s + delay))\<rparr>
     | (False, Some t) \<Rightarrow> s'\<lparr>df_timer := Some (HideAt (df_now s + max 0 (minVisible - (df_now s - t))))\<rparr>
     | (False, None) \<Rightarrow> s')"

datatype flag_event = ActiveIs bool | TimePasses nat | FlagTimer

definition flag_step :: "int \<Rightarrow> int \<Rightarrow> delayed_flag \<Rightarrow> flag_event \<Rightarrow> delayed_flag" where
  "flag_step delay minVisible s e =
    (case e of
      ActiveIs b \<Rightarrow> if df_active s = b then s else flag_effect delay minVisible (s\<lparr>df_active := b\<rparr>)
    | TimePasses n \<Rightarrow> s\<lparr>df_now := df_now s + int n\<rparr>
    | FlagTimer \<Rightarrow>
        (case df_timer s of
          Some (ShowAt t) \<Rightarrow>
            if t \<le> df_now s then s\<lparr>df_timer := None, df_visible := True, df_shownAt := Some (df_now s)\<rparr> else s
        | Some (HideAt t) \<Rightarrow>
            if t \<le> df_now s then s\<lparr>df_timer := None, df_visible := False, df_shownAt := None\<rparr> else s
        | None \<Rightarrow> s))"

definition new_flag :: "int \<Rightarrow> int \<Rightarrow> bool \<Rightarrow> int \<Rightarrow> delayed_flag" where
  "new_flag delay minVisible active now = flag_effect delay minVisible
    \<lparr>df_now = now, df_active = active, df_visible = False, df_shownAt = None, df_timer = None\<rparr>"

section \<open>Choosing a segment\<close>

record segment_option =
  so_value :: string
  so_disabled :: "string option"

definition isAvailable :: "bool \<Rightarrow> segment_option \<Rightarrow> bool" where
  "isAvailable disabled opt \<longleftrightarrow> \<not> disabled \<and> so_disabled opt = None"

definition tabStop :: "bool \<Rightarrow> string \<Rightarrow> segment_option list \<Rightarrow> string option" where
  "tabStop disabled v options =
    (case find (\<lambda>opt. so_value opt = v) options of
      Some chosen \<Rightarrow>
        if isAvailable disabled chosen \<or> disabled then Some (so_value chosen)
        else map_option so_value (find (isAvailable disabled) options)
    | None \<Rightarrow> map_option so_value (find (isAvailable disabled) options))"

definition NEXT_KEYS :: "(string \<times> int) list" where
  "NEXT_KEYS = [(''ArrowRight'', 1), (''ArrowDown'', 1), (''ArrowLeft'', -1), (''ArrowUp'', -1)]"

text \<open>The segment a key goes to, and none when the key is not the group's.\<close>

definition segment_target :: "string \<Rightarrow> string \<Rightarrow> segment_option list \<Rightarrow> segment_option option" where
  "segment_target key v available =
    (if available = [] then None
     else (case map_of NEXT_KEYS key of
        Some step \<Rightarrow>
          (let from_index = (case find_index (\<lambda>opt. so_value opt = v) available of
                 Some i \<Rightarrow> int i | None \<Rightarrow> if step = 1 then -1 else 0);
               n = int (length available)
           in Some (available ! nat ((from_index + step + n) mod n)))
      | None \<Rightarrow>
          if key = ''Home'' then Some (hd available) else if key = ''End'' then Some (last available) else None))"

text \<open>What \<open>onValueChange\<close> is called with: nothing for the segment chosen already.\<close>

definition segment_keydown :: "bool \<Rightarrow> bool \<Rightarrow> string \<Rightarrow> string \<Rightarrow> segment_option list \<Rightarrow> string option" where
  "segment_keydown prevented disabled key v options =
    (if prevented then None
     else (case segment_target key v (filter (isAvailable disabled) options) of
        Some opt \<Rightarrow> if so_value opt = v then None else Some (so_value opt)
      | None \<Rightarrow> None))"

section \<open>Hosts and overlays\<close>

text \<open>\<open>useSingleInstance\<close>: the mounted instances of a name, in order; the first one works.\<close>

definition mount_instance :: "nat \<Rightarrow> nat list \<Rightarrow> nat list" where
  "mount_instance i instances = instances @ [i]"

definition unmount_instance :: "nat \<Rightarrow> nat list \<Rightarrow> nat list" where
  "unmount_instance i instances = filter (\<lambda>x. x \<noteq> i) instances"

definition works :: "nat list \<Rightarrow> nat \<Rightarrow> bool" where
  "works instances i \<longleftrightarrow> (case instances of [] \<Rightarrow> False | x # _ \<Rightarrow> x = i)"

text \<open>
  \<open>useExclusiveOverlay\<close>: the overlay that registered itself last, and those that are open. An overlay that is
  asked to close does, and its cleanup takes back only its own registration.
\<close>

record overlays =
  ov_active :: "nat option"
  ov_open :: "nat list"

definition overlay_closes :: "nat \<Rightarrow> overlays \<Rightarrow> overlays" where
  "overlay_closes i s =
    (if i \<in> set (ov_open s)
     then s\<lparr>ov_open := filter (\<lambda>x. x \<noteq> i) (ov_open s), ov_active := (if ov_active s = Some i then None else ov_active s)\<rparr>
     else s)"

definition overlay_opens :: "nat \<Rightarrow> overlays \<Rightarrow> overlays" where
  "overlay_opens i s =
    (if i \<in> set (ov_open s) then s
     else (let s1 = (case ov_active s of Some j \<Rightarrow> if j \<noteq> i then overlay_closes j s else s | None \<Rightarrow> s)
       in s1\<lparr>ov_open := ov_open s1 @ [i], ov_active := Some i\<rparr>))"

datatype overlay_event = OverlayOpens nat | OverlayCloses nat

definition overlay_step :: "overlays \<Rightarrow> overlay_event \<Rightarrow> overlays" where
  "overlay_step s e = (case e of OverlayOpens i \<Rightarrow> overlay_opens i s | OverlayCloses i \<Rightarrow> overlay_closes i s)"

text \<open>\<open>usePresence\<close>: mounted at once, unmounted when the exit animation has ended or there is none.\<close>

record presence =
  pr_open :: bool
  pr_mounted :: bool
  pr_waits :: bool

definition presence_render :: "int option \<Rightarrow> presence \<Rightarrow> presence" where
  "presence_render duration s =
    (let s1 = (if pr_open s \<and> \<not> pr_mounted s then s\<lparr>pr_mounted := True\<rparr> else s) in
     if pr_open s1 \<or> \<not> pr_mounted s1 then s1\<lparr>pr_waits := False\<rparr>
     else (case duration of
        Some d \<Rightarrow> if d = 0 then s1\<lparr>pr_mounted := False, pr_waits := False\<rparr> else s1\<lparr>pr_waits := True\<rparr>
      | None \<Rightarrow> s1\<lparr>pr_mounted := False, pr_waits := False\<rparr>))"

datatype presence_event = OpenIs bool "int option" | AnimationEnds bool | FallbackFires

text \<open>The flag of an animation's end says whether it is the overlay's own.\<close>

definition presence_step :: "presence \<Rightarrow> presence_event \<Rightarrow> presence" where
  "presence_step s e =
    (case e of
      OpenIs b duration \<Rightarrow> if pr_open s = b then s else presence_render duration (s\<lparr>pr_open := b\<rparr>)
    | AnimationEnds own \<Rightarrow> if pr_waits s \<and> own then s\<lparr>pr_mounted := False, pr_waits := False\<rparr> else s
    | FallbackFires \<Rightarrow> if pr_waits s then s\<lparr>pr_mounted := False, pr_waits := False\<rparr> else s)"

section \<open>Progress, presses, avatars\<close>

text \<open>What is drawn of a value that may be missing: whether it is known, the ratio, and whether it goes back.\<close>

record progress_view =
  pg_previous :: rat
  pg_shrinking :: bool

definition progress_ratio :: "rat option \<Rightarrow> rat" where
  "progress_ratio v = (case v of Some r \<Rightarrow> min 1 (max 0 r) | None \<Rightarrow> 0)"

definition progress_render :: "rat option \<Rightarrow> progress_view \<Rightarrow> progress_view" where
  "progress_render v s =
    (let ratio = progress_ratio v in
     if ratio \<noteq> pg_previous s then \<lparr>pg_previous = ratio, pg_shrinking = v \<noteq> None \<and> ratio < pg_previous s\<rparr> else s)"

text \<open>A press of a busy or disabled button is dropped: whether \<open>onClick\<close> is called.\<close>

definition button_click :: "bool \<Rightarrow> bool \<Rightarrow> bool" where
  "button_click loading disabled = (if loading \<or> disabled then False else True)"

datatype checked = Checked | Unchecked | Mixed

definition checkbox_change :: "bool \<Rightarrow> checked \<Rightarrow> bool option" where
  "checkbox_change disabled c = (if disabled then None else Some (c \<noteq> Checked))"

definition switch_change :: "bool \<Rightarrow> bool \<Rightarrow> bool option" where
  "switch_change disabled c = (if disabled then None else Some (\<not> c))"

datatype avatar_size = AvatarXs | AvatarSm | AvatarMd

datatype avatar_shape = AvatarCircle | AvatarSquare

text \<open>The letters of \<open>initialsOf\<close>, before they are put in upper case.\<close>

definition initials :: "string \<Rightarrow> avatar_size \<Rightarrow> avatar_shape \<Rightarrow> string" where
  "initials name s shape =
    (let ws = parts blank (trim name);
         letters = (if 1 < length ws then [hd (hd ws), hd (last ws)] else (case ws of [] \<Rightarrow> [] | w # _ \<Rightarrow> [hd w]))
     in if s = AvatarXs \<or> shape = AvatarSquare then take 1 letters else letters)"

text \<open>The hash in 32 bits, as \<open>|0\<close>, \<open><<\<close> and \<open>^\<close> keep it; the sum between them is a double.\<close>

definition tone_hash :: "string \<Rightarrow> 32 word" where
  "tone_hash key = foldl (\<lambda>hash c. (push_bit 5 hash + hash) XOR of_nat (char_code c)) 5381 key"

definition toneOf :: "string \<Rightarrow> int" where
  "toneOf key = \<bar>sint (tone_hash key)\<bar> mod 4 + 1"

definition stack_shown :: "nat \<Rightarrow> 'a list \<Rightarrow> 'a list \<times> 'a list" where
  "stack_shown m people = (take m people, drop m people)"

section \<open>When a field speaks up\<close>

lemma holds_since:
  assumes "v 0 \<longleftrightarrow> e 0 \<and> \<not> f 0" and "\<And>k. k < m \<Longrightarrow> v (Suc k) \<longleftrightarrow> e (Suc k) \<and> (v k \<or> \<not> f (Suc k))"
  shows "k \<le> m \<Longrightarrow> v k \<longleftrightarrow> (\<exists>n\<le>k. \<not> f n \<and> (\<forall>j. n \<le> j \<and> j \<le> k \<longrightarrow> e j))"
proof (induction k)
  case 0
  then show ?case using assms(1) by auto
next
  case (Suc k)
  then have "v (Suc k) \<longleftrightarrow> e (Suc k) \<and> ((\<exists>n\<le>k. \<not> f n \<and> (\<forall>j. n \<le> j \<and> j \<le> k \<longrightarrow> e j)) \<or> \<not> f (Suc k))"
    using assms(2) [of k] by simp
  also have "\<dots> \<longleftrightarrow> (\<exists>n\<le>Suc k. \<not> f n \<and> (\<forall>j. n \<le> j \<and> j \<le> Suc k \<longrightarrow> e j))"
  proof
    assume "e (Suc k) \<and> ((\<exists>n\<le>k. \<not> f n \<and> (\<forall>j. n \<le> j \<and> j \<le> k \<longrightarrow> e j)) \<or> \<not> f (Suc k))"
    then show "\<exists>n\<le>Suc k. \<not> f n \<and> (\<forall>j. n \<le> j \<and> j \<le> Suc k \<longrightarrow> e j)"
      by (elim conjE disjE) (auto simp: le_Suc_eq)
  next
    assume "\<exists>n\<le>Suc k. \<not> f n \<and> (\<forall>j. n \<le> j \<and> j \<le> Suc k \<longrightarrow> e j)"
    then obtain n where n: "n \<le> Suc k" "\<not> f n" "\<forall>j. n \<le> j \<and> j \<le> Suc k \<longrightarrow> e j" by blast
    then show "e (Suc k) \<and> ((\<exists>n\<le>k. \<not> f n \<and> (\<forall>j. n \<le> j \<and> j \<le> k \<longrightarrow> e j)) \<or> \<not> f (Suc k))"
      by (cases "n = Suc k") (simp_all, meson le_SucI le_Suc_eq)
  qed
  finally show ?case .
qed

lemma field_step_visible:
  "fe_visible (field_step s e) \<longleftrightarrow> fe_error (field_step s e) \<and> (fe_visible s \<or> \<not> fe_focused (field_step s e))"
  by (simp add: field_step_def render_error_def Let_def split: field_event.split)

text \<open>
  When a field shows its error, over any history of errors, focus and blur: exactly when there was a moment
  without focus at which there was an error, and there has been an error ever since. An error that arrives
  while typing waits for the blur; one on screen stays until it is cleared.
\<close>

theorem field_error_waits:
  "fe_visible (foldl field_step (new_field b) es) \<longleftrightarrow>
    (\<exists>n\<le>length es. \<not> fe_focused (foldl field_step (new_field b) (take n es)) \<and>
      (\<forall>k. n \<le> k \<and> k \<le> length es \<longrightarrow> fe_error (foldl field_step (new_field b) (take k es))))"
proof -
  let ?s = "\<lambda>k. foldl field_step (new_field b) (take k es)"
  have "fe_visible (?s (length es)) \<longleftrightarrow>
      (\<exists>n\<le>length es. \<not> fe_focused (?s n) \<and> (\<forall>j. n \<le> j \<and> j \<le> length es \<longrightarrow> fe_error (?s j)))"
  proof (rule holds_since [where m = "length es"])
    show "fe_visible (?s 0) \<longleftrightarrow> fe_error (?s 0) \<and> \<not> fe_focused (?s 0)"
      by (simp add: new_field_def render_error_def Let_def)
  next
    fix k
    assume "k < length es"
    then show "fe_visible (?s (Suc k)) \<longleftrightarrow>
        fe_error (?s (Suc k)) \<and> (fe_visible (?s k) \<or> \<not> fe_focused (?s (Suc k)))"
      by (simp add: take_Suc_conv_app_nth field_step_visible)
  qed simp
  then show ?thesis by simp
qed

section \<open>A flag neither flashes nor hurries\<close>

definition flag_at :: "int \<Rightarrow> int \<Rightarrow> bool \<Rightarrow> int \<Rightarrow> flag_event list \<Rightarrow> nat \<Rightarrow> delayed_flag" where
  "flag_at delay minVisible active now es k = foldl (flag_step delay minVisible) (new_flag delay minVisible active now) (take k es)"

text \<open>Up to the state \<open>k\<close>, something has held since the time \<open>t\<close>.\<close>

definition since :: "(nat \<Rightarrow> delayed_flag) \<Rightarrow> (delayed_flag \<Rightarrow> bool) \<Rightarrow> int \<Rightarrow> nat \<Rightarrow> bool" where
  "since s p t k \<longleftrightarrow> (\<exists>n\<le>k. df_now (s n) = t \<and> (\<forall>j. n \<le> j \<and> j \<le> k \<longrightarrow> p (s j)))"

lemma since_now: "p (s k) \<Longrightarrow> since s p (df_now (s k)) k"
  by (auto simp: since_def intro!: exI [of _ k])

lemma since_Suc: "since s p t k \<Longrightarrow> p (s (Suc k)) \<Longrightarrow> since s p t (Suc k)"
  unfolding since_def by (metis le_Suc_eq)

definition flag_ok :: "int \<Rightarrow> int \<Rightarrow> (nat \<Rightarrow> delayed_flag) \<Rightarrow> nat \<Rightarrow> bool" where
  "flag_ok delay minVisible s k \<longleftrightarrow>
    (df_visible (s k) \<longleftrightarrow> df_shownAt (s k) \<noteq> None) \<and>
    (case df_shownAt (s k) of Some t \<Rightarrow> since s df_visible t k | None \<Rightarrow> True) \<and>
    (case df_timer (s k) of
      Some (ShowAt t) \<Rightarrow> df_active (s k) \<and> df_shownAt (s k) = None \<and> since s df_active (t - delay) k
    | Some (HideAt t) \<Rightarrow> \<not> df_active (s k) \<and> (\<exists>t0. df_shownAt (s k) = Some t0 \<and> t0 + minVisible \<le> t)
    | None \<Rightarrow> True)"

lemma flag_effect_fields [simp]:
  "df_now (flag_effect d m s) = df_now s" "df_active (flag_effect d m s) = df_active s"
  "df_visible (flag_effect d m s) = df_visible s" "df_shownAt (flag_effect d m s) = df_shownAt s"
  by (simp_all add: flag_effect_def Let_def split: bool.split option.split)

lemma flag_ok_0: "s 0 = new_flag d m active now \<Longrightarrow> flag_ok d m s 0"
  by (auto simp: flag_ok_def new_flag_def flag_effect_def Let_def since_def split: bool.split)

lemma flag_ok_Suc:
  assumes step: "s (Suc k) = flag_step d m (s k) e" and ok: "flag_ok d m s k"
  shows "flag_ok d m s (Suc k)"
proof (cases e)
  case (ActiveIs b)
  show ?thesis
  proof (cases "df_active (s k) = b")
    case True
    then have "s (Suc k) = s k" using step ActiveIs by (simp add: flag_step_def)
    then show ?thesis using ok by (auto simp: flag_ok_def intro: since_Suc split: option.splits flag_timer.splits)
  next
    case False
    then have s': "s (Suc k) = flag_effect d m (s k\<lparr>df_active := b\<rparr>)" using step ActiveIs by (simp add: flag_step_def)
    then show ?thesis
      using ok since_now [of df_active s "Suc k"]
      by (cases b; cases "df_shownAt (s k)")
         (auto simp: flag_ok_def flag_effect_def Let_def intro: since_Suc)
  qed
next
  case (TimePasses n)
  then show ?thesis using ok step
    by (auto simp: flag_ok_def flag_step_def intro: since_Suc split: option.splits flag_timer.splits)
next
  case FlagTimer
  then show ?thesis using ok step since_now [of df_visible s "Suc k"]
    by (auto simp: flag_ok_def flag_step_def intro: since_Suc split: option.splits flag_timer.splits)
qed

lemma flag_at_Suc:
  "k < length es \<Longrightarrow> flag_at d m active now es (Suc k) = flag_step d m (flag_at d m active now es k) (es ! k)"
  by (simp add: flag_at_def take_Suc_conv_app_nth)

lemma flag_at_ok: "k \<le> length es \<Longrightarrow> flag_ok d m (flag_at d m active now es) k"
proof (induction k)
  case 0
  show ?case by (rule flag_ok_0) (simp add: flag_at_def)
next
  case (Suc k)
  have "flag_at d m active now es (Suc k) = flag_step d m (flag_at d m active now es k) (es ! k)"
    using Suc.prems by (intro flag_at_Suc) simp
  then show ?case by (rule flag_ok_Suc) (use Suc in simp)
qed

text \<open>
  A short wait never shows and what shows never flashes, over any history of starts, stops and time. In the
  step that shows the flag, it has been active without a break for at least the delay; in the step that hides
  it, it has been on screen without a break for at least the minimum, and is not active.
\<close>

theorem flag_never_flashes:
  assumes "k < length es"
  shows "(\<not> df_visible (flag_at d m active now es k) \<and> df_visible (flag_at d m active now es (Suc k)) \<longrightarrow>
      (\<exists>t. since (flag_at d m active now es) df_active t k \<and> t + d \<le> df_now (flag_at d m active now es k))) \<and>
    (df_visible (flag_at d m active now es k) \<and> \<not> df_visible (flag_at d m active now es (Suc k)) \<longrightarrow>
      \<not> df_active (flag_at d m active now es k) \<and>
      (\<exists>t. since (flag_at d m active now es) df_visible t k \<and> t + m \<le> df_now (flag_at d m active now es k)))"
proof -
  let ?s = "flag_at d m active now es"
  have ok: "flag_ok d m ?s k" using assms by (intro flag_at_ok) simp
  have step: "?s (Suc k) = flag_step d m (?s k) (es ! k)" using assms by (rule flag_at_Suc)
  have shown: "\<exists>t. since ?s df_active t k \<and> t + d \<le> df_now (?s k)"
    if "\<not> df_visible (?s k)" "df_visible (?s (Suc k))"
  proof -
    from that step obtain t where "df_timer (?s k) = Some (ShowAt t)" "t \<le> df_now (?s k)"
      by (auto simp: flag_step_def split: flag_event.splits option.splits flag_timer.splits if_splits)
    then show ?thesis using ok by (intro exI [of _ "t - d"]) (simp add: flag_ok_def)
  qed
  have hidden: "\<not> df_active (?s k) \<and> (\<exists>t. since ?s df_visible t k \<and> t + m \<le> df_now (?s k))"
    if "df_visible (?s k)" "\<not> df_visible (?s (Suc k))"
  proof -
    from that step obtain t where "df_timer (?s k) = Some (HideAt t)" "t \<le> df_now (?s k)"
      by (auto simp: flag_step_def split: flag_event.splits option.splits flag_timer.splits if_splits)
    then show ?thesis using ok by (auto simp: flag_ok_def)
  qed
  from shown hidden show ?thesis by blast
qed

definition slow_save :: "flag_event list" where
  "slow_save = [ActiveIs True, TimePasses 150, ActiveIs False, TimePasses 100, ActiveIs True, TimePasses 200, FlagTimer,
    ActiveIs False, TimePasses 100, FlagTimer, TimePasses 300, FlagTimer]"

lemma slow_save_shows:
  "map (\<lambda>k. df_visible (flag_at 200 400 False 0 slow_save k)) [6, 7, 10, 11, 12] = [False, True, True, True, False]"
  "length slow_save = 12" "df_now (flag_at 200 400 False 0 slow_save 6) = 450"
  by code_simp+

theorem flag_never_flashes_witness:
  "(\<exists>t. since (flag_at 200 400 False 0 slow_save) df_active t 6 \<and> t + 200 \<le> 450) \<and>
   (\<exists>t. since (flag_at 200 400 False 0 slow_save) df_visible t 11)"
proof -
  note shown = slow_save_shows(1) [simplified]
  have "6 < length slow_save" "11 < length slow_save" by (simp_all add: slow_save_shows(2))
  then show ?thesis
    using flag_never_flashes [of 6 slow_save 200 400 False 0] flag_never_flashes [of 11 slow_save 200 400 False 0] shown
    by (simp add: slow_save_shows(3)) blast
qed

section \<open>A stable tone\<close>

text \<open>\<open>ToInt32\<close>: what the bitwise operators of JavaScript read of a number.\<close>

definition toInt32 :: "int \<Rightarrow> int" where
  "toInt32 x = signed_take_bit 31 x"

text \<open>The sum of one turn, a double, and the turn: on numbers, as the language defines its operators.\<close>

definition tone_sum :: "int \<Rightarrow> int" where
  "tone_sum hash = toInt32 (hash * 32) + hash"

definition tone_turn :: "int \<Rightarrow> char \<Rightarrow> int" where
  "tone_turn hash c = toInt32 (toInt32 (tone_sum hash) XOR toInt32 (int (char_code c)))"

lemma toInt32_bounds: "- (2 ^ 31) \<le> toInt32 x \<and> toInt32 x < 2 ^ 31"
  using signed_take_bit_int_less_exp [of 31 x] signed_take_bit_int_greater_eq_minus_exp [of 31 x]
  by (simp add: toInt32_def)

lemma toInt32_sint: "toInt32 (sint (w :: 32 word)) = sint w"
  unfolding toInt32_def by transfer simp

lemma sint_xor: "sint (a XOR b :: 32 word) = sint a XOR sint b"
  by transfer (auto intro!: bit_eqI simp: bit_signed_take_bit_iff bit_xor_iff)

lemma sint_shift: "sint (push_bit 5 w :: 32 word) = toInt32 (sint w * 32)"
  by (simp add: push_bit_eq_mult sint_word_mult toInt32_def)

lemma sint_code: "sint (of_nat n :: 32 word) = toInt32 (int n)"
  unfolding toInt32_def by transfer simp

lemma tone_turn_word: "sint ((push_bit 5 w + w) XOR of_nat (char_code c) :: 32 word) = tone_turn (sint w) c"
proof -
  have add: "sint (push_bit 5 w + w) = toInt32 (tone_sum (sint w))"
    by (simp add: sint_word_add sint_shift tone_sum_def flip: toInt32_def)
  have "sint ((push_bit 5 w + w) XOR of_nat (char_code c) :: 32 word) =
      toInt32 (sint ((push_bit 5 w + w) XOR of_nat (char_code c) :: 32 word))"
    by (rule toInt32_sint [symmetric])
  then show ?thesis by (simp only: sint_xor add sint_code tone_turn_def)
qed

lemma foldl_tone: "sint (foldl (\<lambda>hash c. (push_bit 5 hash + hash) XOR of_nat (char_code c)) (w :: 32 word) key) =
    foldl tone_turn (sint w) key"
  by (induction key arbitrary: w) (simp_all add: tone_turn_word)

text \<open>
  The tone of an avatar. The 32-bit hash is what the expression of the code gives on JavaScript's numbers,
  where \<open><<\<close>, \<open>^\<close> and \<open>|0\<close> wrap and the sum between them does not; that sum stays far inside the integers a
  double holds exactly, so however long the id is nothing is rounded; and the tone is one of 1 to 4, even
  where the hash is the least of the 32-bit integers.
\<close>

theorem avatar_tone_exact:
  "sint (tone_hash key) = foldl tone_turn 5381 key \<and>
   \<bar>tone_sum (foldl tone_turn 5381 key)\<bar> < 2 ^ 53 \<and>
   1 \<le> toneOf key \<and> toneOf key \<le> 4"
proof -
  have hash: "sint (tone_hash key) = foldl tone_turn 5381 key"
    by (simp add: tone_hash_def foldl_tone)
  have "- (2 ^ 31) \<le> foldl tone_turn 5381 key \<and> foldl tone_turn 5381 key < 2 ^ 31"
    by (cases key rule: rev_cases) (simp_all add: tone_turn_def toInt32_bounds [simplified])
  then have "\<bar>tone_sum (foldl tone_turn 5381 key)\<bar> < 2 ^ 53"
    using toInt32_bounds [of "foldl tone_turn 5381 key * 32"] unfolding tone_sum_def abs_less_iff by auto
  then show ?thesis using hash by (simp add: toneOf_def)
qed

section \<open>Round the group\<close>

text \<open>A press of the key, the owner having taken the choice before.\<close>

definition press_segment :: "string \<Rightarrow> segment_option list \<Rightarrow> string \<Rightarrow> string" where
  "press_segment key options v =
    (case segment_keydown False False key v options of Some v' \<Rightarrow> v' | None \<Rightarrow> v)"

lemma find_index_value:
  assumes "distinct (map so_value xs)" and "i < length xs"
  shows "find_index (\<lambda>opt. so_value opt = so_value (xs ! i)) xs = Some i"
proof (cases "find_index (\<lambda>opt. so_value opt = so_value (xs ! i)) xs")
  case None
  then show ?thesis using assms(2) by (auto simp: find_index_None)
next
  case (Some j)
  from find_index_Some [OF Some] have j: "j < length xs" "so_value (xs ! j) = so_value (xs ! i)" by simp_all
  then have "map so_value xs ! j = map so_value xs ! i" using assms(2) by simp
  then have "j = i" using assms j by (simp add: nth_eq_iff_index_eq del: nth_map)
  with Some show ?thesis by simp
qed

lemma press_right:
  assumes "available = filter (isAvailable False) options" and "distinct (map so_value available)" and "i < length available"
  shows "press_segment ''ArrowRight'' options (so_value (available ! i)) =
    so_value (available ! ((i + 1) mod length available))"
proof -
  have "available \<noteq> []" using assms(3) by auto
  moreover have "nat ((int i + 1 + int (length available)) mod int (length available)) = (i + 1) mod length available"
    by (metis add.commute mod_add_self2 nat_int of_nat_1 of_nat_add of_nat_mod)
  ultimately show ?thesis
    using assms find_index_value [OF assms(2,3)]
    by (simp add: press_segment_def segment_keydown_def segment_target_def NEXT_KEYS_def Let_def)
qed

lemma press_left:
  assumes "available = filter (isAvailable False) options" and "distinct (map so_value available)" and "i < length available"
  shows "press_segment ''ArrowLeft'' options (so_value (available ! ((i + 1) mod length available))) =
    so_value (available ! i)"
proof -
  let ?n = "length available"
  have ne: "available \<noteq> []" and j: "(i + 1) mod ?n < ?n" using assms(3) by (auto intro: mod_less_divisor)
  have "nat ((int ((i + 1) mod ?n) - 1 + int ?n) mod int ?n) = i"
  proof (cases "i + 1 = ?n")
    case True
    then have "int ((i + 1) mod ?n) - 1 + int ?n = int i" by simp
    then show ?thesis using assms(3) by (simp flip: of_nat_mod)
  next
    case False
    then have "(i + 1) mod ?n = i + 1" using assms(3) by simp
    then have "int ((i + 1) mod ?n) - 1 + int ?n = int (i + ?n)" by simp
    then show ?thesis using assms(3) by (simp only: flip: of_nat_mod) simp
  qed
  then show ?thesis
    using assms(1) ne find_index_value [OF assms(2) j]
    by (simp add: press_segment_def segment_keydown_def segment_target_def NEXT_KEYS_def Let_def)
qed

text \<open>
  The arrows go round the segments that can be chosen, skipping the others: \<open>k\<close> presses of the right
  arrow from the segment \<open>i\<close> choose the one \<open>k\<close> places on, counted round the group, and the left arrow undoes
  the right one.
\<close>

theorem segments_go_round:
  assumes "available = filter (isAvailable False) options" and "distinct (map so_value available)" and "i < length available"
  shows "(press_segment ''ArrowRight'' options ^^ k) (so_value (available ! i)) =
      so_value (available ! ((i + k) mod length available)) \<and>
    press_segment ''ArrowLeft'' options (press_segment ''ArrowRight'' options (so_value (available ! i))) =
      so_value (available ! i)"
proof -
  have "0 < length available" using assms(3) by auto
  then have "(press_segment ''ArrowRight'' options ^^ k) (so_value (available ! i)) =
      so_value (available ! ((i + k) mod length available))"
  proof (induction k)
    case 0
    then show ?case using assms(3) by simp
  next
    case (Suc k)
    then show ?case
      using press_right [OF assms(1,2), of "(i + k) mod length available"] by (simp add: mod_simps)
  qed
  then show ?thesis using press_right [OF assms] press_left [OF assms] by simp
qed

definition view_options :: "segment_option list" where
  "view_options = [\<lparr>so_value = ''all'', so_disabled = None\<rparr>, \<lparr>so_value = ''unread'', so_disabled = Some ''soon''\<rparr>,
    \<lparr>so_value = ''archived'', so_disabled = None\<rparr>]"

lemma view_options_available:
  "filter (isAvailable False) view_options =
    [\<lparr>so_value = ''all'', so_disabled = None\<rparr>, \<lparr>so_value = ''archived'', so_disabled = None\<rparr>]"
  by (simp add: view_options_def isAvailable_def)

theorem segments_go_round_witness:
  "(press_segment ''ArrowRight'' view_options ^^ 9) ''all'' = ''archived''"
proof -
  have "(9::nat) mod Suc (Suc 0) = 1" by arith
  then show ?thesis using segments_go_round [OF refl, of view_options 0 9]
    by (simp add: view_options_available del: funpow.simps)
qed

section \<open>One at a time\<close>

interpretation instances: disposable_stack "\<lambda>s. s" mount_instance unmount_instance
  by unfold_locales (simp_all add: mount_instance_def unmount_instance_def)

text \<open>A second copy changes nothing while the first is there, and takes over when it goes.\<close>

lemma one_instance_works:
  "instances \<noteq> [] \<Longrightarrow> works (mount_instance i instances) = works instances"
  "distinct (i # js) \<Longrightarrow> js \<noteq> [] \<Longrightarrow> works (unmount_instance i (i # js)) (hd js)"
  by (auto simp: works_def mount_instance_def unmount_instance_def fun_eq_iff neq_Nil_conv split: list.split)

definition overlays_ok :: "overlays \<Rightarrow> bool" where
  "overlays_ok s \<longleftrightarrow> ov_open s = (case ov_active s of Some i \<Rightarrow> [i] | None \<Rightarrow> [])"

lemma overlay_closes_ok: "overlays_ok s \<Longrightarrow> overlays_ok (overlay_closes i s)"
  by (auto simp: overlays_ok_def overlay_closes_def split: option.splits)

lemma overlay_opens_ok: "overlays_ok s \<Longrightarrow> overlays_ok (overlay_opens i s)"
  by (auto simp: overlays_ok_def overlay_opens_def overlay_closes_def Let_def split: option.splits)

interpretation overlay: event_machine overlay_step "\<lambda>_ _. True" overlays_ok
  by unfold_locales (simp add: overlay_step_def overlay_closes_ok overlay_opens_ok split: overlay_event.split)

lemma overlays_one_at_a_time:
  "length (ov_open (foldl overlay_step \<lparr>ov_active = None, ov_open = []\<rparr> es)) \<le> 1"
proof -
  have "admissible overlay_step (\<lambda>_ _. True) s es" for s by (rule admissible_all)
  then have "overlays_ok (foldl overlay_step \<lparr>ov_active = None, ov_open = []\<rparr> es)"
    by (intro overlay.run_inv) (simp_all add: overlays_ok_def)
  then show ?thesis by (simp add: overlays_ok_def split: option.splits)
qed

text \<open>What is open is mounted, and what waits for its exit is closed and mounted.\<close>

definition presence_ok :: "presence \<Rightarrow> bool" where
  "presence_ok s \<longleftrightarrow> (pr_open s \<longrightarrow> pr_mounted s) \<and> (pr_waits s \<longleftrightarrow> \<not> pr_open s \<and> pr_mounted s)"

interpretation presence: event_machine presence_step "\<lambda>_ _. True" presence_ok
  by unfold_locales
    (auto simp: presence_ok_def presence_step_def presence_render_def Let_def split: presence_event.splits option.splits if_splits)

text \<open>A disabled field does not commit when it is left, but Enter commits it.\<close>

lemma disabled_field_commits:
  "input_blur True v = [] \<and> input_change True v = [] \<and>
   input_keydown \<lparr>ek_key = ''Enter'', ek_shift = False, ek_composing = False\<rparr> False v = [FieldCommitted v]"
  by (simp add: input_blur_def input_change_def input_keydown_def)

lemma stack_keeps_everyone: "fst (stack_shown m people) @ snd (stack_shown m people) = people \<and> length (fst (stack_shown m people)) \<le> m"
  by (simp add: stack_shown_def)

lemma progress_ratio_bounds: "0 \<le> progress_ratio v \<and> progress_ratio v \<le> 1"
  by (simp add: progress_ratio_def split: option.split)

end
