(* ===== verification/Notification_Time.thy ===== *)
theory Notification_Time
  imports Complex_Main Inbox_Grouping Form_Controls
begin

text \<open>
  A row of the Inbox (\<open>shared/ui/NotificationRow\<close>): its time in words (\<open>time.ts\<close>), the clock of minutes all rows share,
  and what the row shows of a notification (\<open>NotificationRow.tsx\<close>, \<open>pages/Inbox/ui/InboxRow.tsx\<close>). Instants are
  milliseconds; the local days are the calendar of \<open>Inbox_Grouping\<close> and its years a function; the texts \<open>Intl\<close>
  makes of a date are named by what they say. Titles and avatars are not modelled.
\<close>

section \<open>Time in words\<close>

definition MINUTE :: int where "MINUTE = 60000"
definition HOUR :: int where "HOUR = 60 * MINUTE"
definition DAY :: int where "DAY = 24 * HOUR"

text \<open>\<open>Math.round\<close>: to the nearest, a half up.\<close>

definition math_round :: "rat \<Rightarrow> int" where
  "math_round x = \<lfloor>x + 1 / 2\<rfloor>"

datatype short_time = MinutesShort int | HoursShort int | YesterdayShort | WeekdayOf int | MonthDayOf int | MonthDayYearOf int

datatype spoken_time = MinutesAgo int | HoursAgo int | YesterdaySpoken | DaysAgo int | SpokenAsShown

record notification_time =
  tm_short :: short_time
  tm_spoken :: spoken_time
  tm_full :: int

definition days_between :: "calendar \<Rightarrow> int \<Rightarrow> int \<Rightarrow> int" where
  "days_between c time now = math_round (of_int (startOfDay c now - startOfDay c time) / of_int DAY)"

definition formatNotificationTime :: "calendar \<Rightarrow> (int \<Rightarrow> int) \<Rightarrow> int \<Rightarrow> int \<Rightarrow> notification_time" where
  "formatNotificationTime c year time now =
    (let ago = max 0 (now - time); days = days_between c time now;
         (short, spoken) =
           (if ago < HOUR then (let minutes = max 1 (ago div MINUTE) in (MinutesShort minutes, MinutesAgo minutes))
            else if days = 0 then (let hours = ago div HOUR in (HoursShort hours, HoursAgo hours))
            else if days = 1 then (YesterdayShort, YesterdaySpoken)
            else if days < 7 then (WeekdayOf time, DaysAgo days)
            else (if year time = year now then MonthDayOf time else MonthDayYearOf time, SpokenAsShown))
     in \<lparr>tm_short = short, tm_spoken = spoken, tm_full = time\<rparr>)"

section \<open>The clock of minutes\<close>

text \<open>\<open>mc_timer\<close>: when the timer that is set is due.\<close>

record minute_clock =
  mc_now :: int
  mc_listeners :: "nat list"
  mc_timer :: "int option"

definition next_minute :: "int \<Rightarrow> int" where
  "next_minute t = t + (MINUTE - t mod MINUTE)"

definition tick :: "int \<Rightarrow> minute_clock \<Rightarrow> minute_clock" where
  "tick t s = s\<lparr>mc_now := t, mc_timer := Some (next_minute t)\<rparr>"

definition subscribe_clock :: "int \<Rightarrow> nat \<Rightarrow> minute_clock \<Rightarrow> minute_clock" where
  "subscribe_clock t l s =
    (let s1 = (if mc_listeners s = [] then s\<lparr>mc_now := t, mc_timer := Some (next_minute t)\<rparr> else s)
     in s1\<lparr>mc_listeners := (if l \<in> set (mc_listeners s1) then mc_listeners s1 else mc_listeners s1 @ [l])\<rparr>)"

definition unsubscribe_clock :: "nat \<Rightarrow> minute_clock \<Rightarrow> minute_clock" where
  "unsubscribe_clock l s =
    (let s1 = s\<lparr>mc_listeners := filter (\<lambda>x. x \<noteq> l) (mc_listeners s)\<rparr>
     in if mc_listeners s1 = [] then s1\<lparr>mc_timer := None\<rparr> else s1)"

text \<open>The page's events, with the time: a row comes or goes, or time passes and a timer that is due fires.\<close>

datatype clock_event = RowComes nat int | RowGoes nat | ClockTime int

definition clock_step :: "minute_clock \<Rightarrow> clock_event \<Rightarrow> minute_clock" where
  "clock_step s e =
    (case e of
      RowComes l t \<Rightarrow> subscribe_clock t l s
    | RowGoes l \<Rightarrow> unsubscribe_clock l s
    | ClockTime t \<Rightarrow> (case mc_timer s of Some due \<Rightarrow> if due \<le> t then tick t s else s | None \<Rightarrow> s))"

definition new_clock :: "int \<Rightarrow> minute_clock" where
  "new_clock t = \<lparr>mc_now = t, mc_listeners = [], mc_timer = None\<rparr>"

section \<open>The row\<close>

datatype row_button = MarkUnread | MarkRead | Unarchive | Archive

definition row_buttons :: "bool \<Rightarrow> bool \<Rightarrow> (row_button \<times> string \<times> string) list" where
  "row_buttons isRead isArchived =
    [if isRead then (MarkUnread, ''Mark as unread'', ''u'') else (MarkRead, ''Mark as read'', ''u''),
     if isArchived then (Unarchive, ''Unarchive'', ''e'') else (Archive, ''Archive'', ''e'')]"

text \<open>What a row shows: \<open>nr_link\<close> where it leads; \<open>nr_count\<close> the pill of folded events; \<open>nr_flash\<close> the key of the tint.\<close>

record notification_row =
  nr_link :: "string option"
  nr_index :: "nat option"
  nr_unread :: bool
  nr_count :: "nat option"
  nr_cursor :: bool
  nr_time :: notification_time
  nr_flash :: "nat option"
  nr_dimmed :: bool
  nr_buttons :: "(row_button \<times> string \<times> string) list"

text \<open>The row dims only while a change of it takes longer than \<open>inbox-pending-delay\<close>.\<close>

definition PENDING_DELAY_MS :: int where "PENDING_DELAY_MS = 1000"

definition pending_flag :: "bool \<Rightarrow> int \<Rightarrow> delayed_flag" where
  "pending_flag pending now = new_flag PENDING_DELAY_MS 0 pending now"

definition NotificationRow ::
  "string option \<Rightarrow> nat \<Rightarrow> notification_time \<Rightarrow> nat \<Rightarrow> bool \<Rightarrow> nat option \<Rightarrow> delayed_flag \<Rightarrow> bool \<Rightarrow>
    (row_button \<times> string \<times> string) list \<Rightarrow> notification_row" where
  "NotificationRow href index time events cursor tint pending unread buttons =
    \<lparr>nr_link = href, nr_index = Some index, nr_unread = unread, nr_count = (if 1 < events then Some events else None),
     nr_cursor = cursor, nr_time = time, nr_flash = tint, nr_dimmed = df_visible pending, nr_buttons = buttons\<rparr>"

text \<open>\<open>InboxRow\<close>: the place in the list counts from one; it leads nowhere yet and is never dimmed.\<close>

definition InboxRow ::
  "calendar \<Rightarrow> (int \<Rightarrow> int) \<Rightarrow> (string \<Rightarrow> int) \<Rightarrow> int \<Rightarrow> string option \<Rightarrow> (string \<rightharpoonup> nat) \<Rightarrow> notification \<Rightarrow> nat \<Rightarrow> notification_row" where
  "InboxRow c year ms now cursor flashes item index =
    NotificationRow None (index + 1) (formatNotificationTime c year (ms (nt_updatedAt item)) now) 1 (cursor = Some (nt_id item))
      (flashes (nt_id item)) (pending_flag False now) (nt_readAt item = None)
      (row_buttons (truthy (nt_readAt item)) (truthy (nt_archivedAt item)))"

section \<open>Local days\<close>

text \<open>
  What is relied on of a calendar: a day begins at its midnight; and the days between two dates are days of 24
  hours but for the changes of the clocks, which are less than half a day.
\<close>

definition day_borders :: "calendar \<Rightarrow> bool" where
  "day_borders c \<longleftrightarrow> (\<forall>t d. cal_midnight c d \<le> t \<longleftrightarrow> d \<le> cal_day c t) \<and> (\<forall>d. cal_day c (cal_midnight c d) = d)"

definition steady_days :: "calendar \<Rightarrow> int \<Rightarrow> int \<Rightarrow> bool" where
  "steady_days c t u \<longleftrightarrow> 2 * \<bar>startOfDay c u - startOfDay c t - DAY * (cal_day c u - cal_day c t)\<bar> < DAY"

lemma round_near: "x = of_int k + q \<Longrightarrow> - (1 / 2) \<le> q \<Longrightarrow> q < 1 / 2 \<Longrightarrow> math_round x = k"
  unfolding math_round_def by (intro floor_unique) simp_all

lemma days_exact:
  assumes "steady_days c t u"
  shows "days_between c t u = cal_day c u - cal_day c t"
proof -
  let ?k = "cal_day c u - cal_day c t" and ?x = "startOfDay c u - startOfDay c t"
  let ?r = "?x - DAY * ?k"
  have r: "2 * \<bar>?r\<bar> < DAY" using assms by (simp add: steady_days_def)
  have pos: "(0::rat) < of_int DAY" by (simp add: DAY_def HOUR_def MINUTE_def)
  have "(of_int ?x :: rat) / of_int DAY = of_int ?k + of_int ?r / of_int DAY"
    using pos by (simp add: field_simps)
  moreover have "- (1 / 2) \<le> (of_int ?r :: rat) / of_int DAY" "(of_int ?r :: rat) / of_int DAY < 1 / 2"
  proof -
    have "(of_int (- DAY) :: rat) \<le> of_int (2 * ?r)" "(of_int (2 * ?r) :: rat) < of_int DAY"
      using r unfolding of_int_le_iff of_int_less_iff by (auto simp: abs_if split: if_splits)
    then show "- (1 / 2) \<le> (of_int ?r :: rat) / of_int DAY" "(of_int ?r :: rat) / of_int DAY < 1 / 2"
      using pos by (simp_all add: field_simps)
  qed
  ultimately show ?thesis unfolding days_between_def by (rule round_near)
qed

lemma hours_ago: "HOUR \<le> now - time \<Longrightarrow> max 0 (now - time) = now - time \<and> \<not> now - time < HOUR"
  by (simp add: HOUR_def MINUTE_def)

text \<open>
  A row's time is by the user's local days: minutes within an hour, from one to 59; then hours of today, yesterday, the
  weekday up to six days back, and a date before that, with its year when it is another one.
\<close>

theorem row_time_by_local_days:
  assumes "steady_days c time now" and "t = formatNotificationTime c year time now" and "days = cal_day c now - cal_day c time"
  shows "now - time < HOUR \<Longrightarrow> \<exists>m. tm_short t = MinutesShort m \<and> 1 \<le> m \<and> m \<le> 59"
    and "HOUR \<le> now - time \<Longrightarrow> days = 0 \<Longrightarrow> \<exists>h. tm_short t = HoursShort h \<and> 1 \<le> h \<and> h * HOUR \<le> now - time \<and> now - time < (h + 1) * HOUR"
    and "HOUR \<le> now - time \<Longrightarrow> days = 1 \<Longrightarrow> tm_short t = YesterdayShort"
    and "HOUR \<le> now - time \<Longrightarrow> 2 \<le> days \<Longrightarrow> days \<le> 6 \<Longrightarrow> tm_short t = WeekdayOf time \<and> tm_spoken t = DaysAgo days"
    and "HOUR \<le> now - time \<Longrightarrow> 7 \<le> days \<Longrightarrow> tm_short t = (if year time = year now then MonthDayOf time else MonthDayYearOf time)"
proof -
  have d: "days_between c time now = days" using days_exact [OF assms(1)] assms(3) by simp
  show "now - time < HOUR \<Longrightarrow> \<exists>m. tm_short t = MinutesShort m \<and> 1 \<le> m \<and> m \<le> 59"
    by (auto simp: assms(2) formatNotificationTime_def Let_def HOUR_def MINUTE_def)
  assume "HOUR \<le> now - time"
  note h = hours_ago [OF this]
  have pos: "HOUR = 3600000" by (simp add: HOUR_def MINUTE_def)
  show "days = 0 \<Longrightarrow> \<exists>h. tm_short t = HoursShort h \<and> 1 \<le> h \<and> h * HOUR \<le> now - time \<and> now - time < (h + 1) * HOUR"
    using h by (simp add: assms(2) formatNotificationTime_def Let_def d pos) linarith
  show "days = 1 \<Longrightarrow> tm_short t = YesterdayShort"
    using h by (simp add: assms(2) formatNotificationTime_def Let_def d)
  show "2 \<le> days \<Longrightarrow> days \<le> 6 \<Longrightarrow> tm_short t = WeekdayOf time \<and> tm_spoken t = DaysAgo days"
    using h by (simp add: assms(2) formatNotificationTime_def Let_def d)
  show "7 \<le> days \<Longrightarrow> tm_short t = (if year time = year now then MonthDayOf time else MonthDayYearOf time)"
    using h by (simp add: assms(2) formatNotificationTime_def Let_def d)
qed

lemma group_days:
  assumes "day_borders c"
  shows "groupOf c time now ws = GrpToday \<longleftrightarrow> cal_day c now \<le> cal_day c time"
    and "groupOf c time now ws = GrpYesterday \<longleftrightarrow> cal_day c time = cal_day c now - 1"
    and "groupOf c time now ws = GrpWeek \<Longrightarrow> cal_day c time \<le> cal_day c now - 2 \<and> cal_day c now - 6 \<le> cal_day c time"
proof -
  have b: "cal_midnight c d \<le> t \<longleftrightarrow> d \<le> cal_day c t" and m: "cal_day c (cal_midnight c d) = d" for t d
    using assms by (auto simp: day_borders_def)
  show "groupOf c time now ws = GrpToday \<longleftrightarrow> cal_day c now \<le> cal_day c time"
    "groupOf c time now ws = GrpYesterday \<longleftrightarrow> cal_day c time = cal_day c now - 1"
    by (auto simp: groupOf_def startOfDay_def addDays_def b m Let_def)
  have "(x - y + 7) mod 7 \<le> (6::int)" for x y :: int using pos_mod_bound [of 7 "x - y + 7"] by linarith
  then show "groupOf c time now ws = GrpWeek \<Longrightarrow> cal_day c time \<le> cal_day c now - 2 \<and> cal_day c now - 6 \<le> cal_day c time"
    by (auto simp: groupOf_def startOfDay_def addDays_def b m Let_def split: if_splits)
qed

text \<open>
  The header a row stands under and its time agree: hours under Today and only there, Yesterday under Yesterday and only
  there, a weekday under This week.
\<close>

theorem header_and_time_agree:
  assumes "day_borders c" and "steady_days c time now" and "HOUR \<le> now - time"
    and "t = formatNotificationTime c year time now"
  shows "groupOf c time now ws = GrpToday \<longleftrightarrow> (\<exists>h. tm_short t = HoursShort h)"
    and "groupOf c time now ws = GrpYesterday \<longleftrightarrow> tm_short t = YesterdayShort"
    and "groupOf c time now ws = GrpWeek \<Longrightarrow> tm_short t = WeekdayOf time"
proof -
  have "d \<le> cal_day c time \<Longrightarrow> d \<le> cal_day c now" for d
    using assms(1,3) unfolding day_borders_def HOUR_def MINUTE_def by (smt (verit, best))
  then have le: "cal_day c time \<le> cal_day c now" by blast
  have short: "tm_short t = (let days = cal_day c now - cal_day c time in
      if days = 0 then HoursShort ((now - time) div HOUR) else if days = 1 then YesterdayShort
      else if days < 7 then WeekdayOf time else if year time = year now then MonthDayOf time else MonthDayYearOf time)"
    using hours_ago [OF assms(3)] by (simp add: assms(4) formatNotificationTime_def Let_def days_exact [OF assms(2)])
  show "groupOf c time now ws = GrpToday \<longleftrightarrow> (\<exists>h. tm_short t = HoursShort h)"
    "groupOf c time now ws = GrpYesterday \<longleftrightarrow> tm_short t = YesterdayShort"
    using le by (auto simp: group_days [OF assms(1)] short Let_def)
  show "groupOf c time now ws = GrpWeek \<Longrightarrow> tm_short t = WeekdayOf time"
  proof -
    assume "groupOf c time now ws = GrpWeek"
    from group_days(3) [OF assms(1) this] show ?thesis by (auto simp: short Let_def)
  qed
qed

section \<open>The clock is right to the minute\<close>

definition clock_ok :: "minute_clock \<Rightarrow> bool" where
  "clock_ok s \<longleftrightarrow> mc_timer s = (if mc_listeners s = [] then None else Some (next_minute (mc_now s)))"

interpretation minutes: event_machine clock_step "\<lambda>_ _. True" clock_ok
  by unfold_locales
    (auto simp: clock_ok_def clock_step_def subscribe_clock_def unsubscribe_clock_def tick_def Let_def
      split: clock_event.splits option.splits if_splits)

text \<open>
  However rows come and go: while there is one, the time all of them show is of the minute it is, for as long as no timer
  is overdue; and no timer runs without a row.
\<close>

theorem minute_clock_is_right:
  assumes "s = foldl clock_step (new_clock t0) es"
  shows "mc_listeners s = [] \<longleftrightarrow> mc_timer s = None"
    and "mc_timer s = Some due \<Longrightarrow> mc_now s \<le> t \<Longrightarrow> t < due \<Longrightarrow> t div MINUTE = mc_now s div MINUTE"
proof -
  have "admissible clock_step (\<lambda>_ _. True) (new_clock t0) es" by (rule admissible_all)
  then have ok: "clock_ok s" using minutes.run_inv [of "new_clock t0" es] assms by (simp add: clock_ok_def new_clock_def)
  then show "mc_listeners s = [] \<longleftrightarrow> mc_timer s = None" by (simp add: clock_ok_def)
  assume "mc_timer s = Some due" and t: "mc_now s \<le> t" "t < due"
  then have "due = next_minute (mc_now s)" using ok by (auto simp: clock_ok_def split: if_splits)
  then show "t div MINUTE = mc_now s div MINUTE" using t by (intro int_div_pos_eq [where r = "mc_now s mod MINUTE + (t - mc_now s)"]) (simp_all add: next_minute_def MINUTE_def)
qed

end
