(* ===== verification/Workspaces.thy ===== *)
theory Workspaces
  imports Prelude
begin

text \<open>
  Which workspace the app is in (\<open>shared/workspaces\<close>, \<open>app/WorkspaceEntry.tsx\<close>, the redirects of
  \<open>widgets/Layout/Layout.tsx\<close>). What the library of queries holds for a key is a snapshot: data, the time of
  it, an error; the machine below adds what is on its way, and follows the library where the code relies on
  it: a fetch that starts without data clears the error, an answer clears the flag, a query that becomes enabled is
  fetched. Paths are the router's: \<open>generatePath\<close> is a parameter. The browser's storage may throw.
\<close>

section \<open>The workspace to open\<close>

record workspace =
  wk_id :: string
  wk_slug :: string
  wk_name :: string
  wk_isPersonal :: bool
  wk_deletedAt :: "string option"

text \<open>\<open>st_throws\<close>: \<open>localStorage\<close> is off. The key is this one's only.\<close>

record last_storage =
  st_throws :: bool
  st_last :: "string option"

definition readLastWorkspaceId :: "last_storage \<Rightarrow> string option" where
  "readLastWorkspaceId st = (if st_throws st then None else st_last st)"

definition rememberWorkspace :: "string \<Rightarrow> last_storage \<Rightarrow> last_storage" where
  "rememberWorkspace i st = (if st_throws st then st else st\<lparr>st_last := Some i\<rparr>)"

definition live_workspaces :: "workspace list \<Rightarrow> workspace list" where
  "live_workspaces ws = filter (\<lambda>w. \<not> truthy (wk_deletedAt w)) ws"

definition pickWorkspace :: "workspace list \<Rightarrow> string option \<Rightarrow> workspace option" where
  "pickWorkspace ws lastId =
    (let live = live_workspaces ws in
     case find (\<lambda>w. Some (wk_id w) = lastId) live of
       Some w \<Rightarrow> Some w
     | None \<Rightarrow> (case find wk_isPersonal live of Some w \<Rightarrow> Some w | None \<Rightarrow> if live = [] then None else Some (hd live)))"

text \<open>The entry, \<open>/\<close>: the query's error comes before its data.\<close>

datatype entry_shown = EntryError | EntryBlank | EntryNowhere | EntryGo string

definition workspace_entry :: "bool \<Rightarrow> workspace list option \<Rightarrow> last_storage \<Rightarrow> entry_shown" where
  "workspace_entry isError data st =
    (if isError then EntryError
     else case data of
       None \<Rightarrow> EntryBlank
     | Some ws \<Rightarrow>
         (case pickWorkspace ws (readLastWorkspaceId st) of None \<Rightarrow> EntryNowhere | Some w \<Rightarrow> EntryGo (wk_slug w)))"

section \<open>The workspace of a slug\<close>

record list_query =
  lq_data :: "workspace list option"
  lq_at :: nat
  lq_isError :: bool

text \<open>The slug's answer is an id; the error is the status of the server's answer, if there was one.\<close>

record slug_query =
  sq_id :: "string option"
  sq_at :: nat
  sq_error :: "nat option option"

datatype retry_what = RetryList | RetrySlug

datatype resolved_ws = WsPending | WsFound workspace | WsMissing | WsError retry_what

definition from_list :: "string \<Rightarrow> list_query \<Rightarrow> workspace option" where
  "from_list slug l = (case lq_data l of None \<Rightarrow> None | Some ws \<Rightarrow> find (\<lambda>w. wk_slug w = slug) ws)"

definition slug_enabled :: "string \<Rightarrow> list_query \<Rightarrow> bool" where
  "slug_enabled slug l \<longleftrightarrow> lq_data l \<noteq> None \<and> from_list slug l = None"

definition by_id :: "list_query \<Rightarrow> slug_query \<Rightarrow> workspace option" where
  "by_id l q =
    (case (sq_id q, lq_data l) of (Some i, Some ws) \<Rightarrow> find (\<lambda>w. wk_id w = i) ws | _ \<Rightarrow> None)"

definition resolve_status :: "string \<Rightarrow> list_query \<Rightarrow> slug_query \<Rightarrow> resolved_ws" where
  "resolve_status slug l q =
    (case (case from_list slug l of Some w \<Rightarrow> Some w | None \<Rightarrow> by_id l q) of
      Some w \<Rightarrow> WsFound w
    | None \<Rightarrow>
        if sq_id q \<noteq> None \<and> sq_at q < lq_at l then WsMissing
        else if lq_isError l then WsError RetryList
        else (case sq_error q of
          Some status \<Rightarrow> if status = Some 404 then WsMissing else WsError RetrySlug
        | None \<Rightarrow> WsPending))"

text \<open>
  The hook at work for one slug. \<open>rv_enabled\<close> is whether the slug's query was enabled in the last render,
  \<open>rv_seen\<close> are the effect's dependencies of its last run, \<open>rv_left\<close> that the layout has gone to \<open>/\<close>
  because the workspace is missing.
\<close>

record resolver =
  rv_list :: list_query
  rv_slug :: slug_query
  rv_listBusy :: bool
  rv_slugBusy :: bool
  rv_enabled :: bool
  rv_seen :: "(string option \<times> workspace option) option"
  rv_left :: bool
  rv_now :: nat

definition fetch_list :: "resolver \<Rightarrow> resolver" where
  "fetch_list s = s\<lparr>rv_listBusy := True,
    rv_list := (rv_list s)\<lparr>lq_isError := lq_isError (rv_list s) \<and> lq_data (rv_list s) \<noteq> None\<rparr>\<rparr>"

definition fetch_slug :: "resolver \<Rightarrow> resolver" where
  "fetch_slug s = s\<lparr>rv_slugBusy := True,
    rv_slug := (rv_slug s)\<lparr>sq_error := if sq_id (rv_slug s) = None then None else sq_error (rv_slug s)\<rparr>\<rparr>"

definition enable_slug :: "string \<Rightarrow> resolver \<Rightarrow> resolver" where
  "enable_slug slug s =
    (let on = slug_enabled slug (rv_list s); s1 = s\<lparr>rv_enabled := on\<rparr>
     in if on \<and> \<not> rv_enabled s then fetch_slug s1 else s1)"

definition behind_effect :: "resolver \<Rightarrow> resolver" where
  "behind_effect s =
    (let deps = (sq_id (rv_slug s), by_id (rv_list s) (rv_slug s)); s1 = s\<lparr>rv_seen := Some deps\<rparr>
     in if rv_seen s \<noteq> Some deps \<and> fst deps \<noteq> None \<and> snd deps = None then fetch_list s1 else s1)"

text \<open>A render: the query's switch, the effect, and the layout's effect on a missing workspace.\<close>

definition rendered :: "string \<Rightarrow> resolver \<Rightarrow> resolver" where
  "rendered slug s =
    (let s1 = behind_effect (enable_slug slug s)
     in s1\<lparr>rv_left := resolve_status slug (rv_list s1) (rv_slug s1) = WsMissing\<rparr>)"

datatype ws_event =
  ListLoaded "workspace list" nat
| ListFailed
| ListAsked
| SlugResolved string nat
| SlugFailed "nat option"
| RetryPressed

definition ws_admissible :: "resolver \<Rightarrow> ws_event \<Rightarrow> bool" where
  "ws_admissible s e =
    (case e of
      ListLoaded _ t \<Rightarrow> rv_listBusy s \<and> rv_now s < t
    | ListFailed \<Rightarrow> rv_listBusy s
    | SlugResolved _ t \<Rightarrow> rv_slugBusy s \<and> rv_now s < t
    | SlugFailed _ \<Rightarrow> rv_slugBusy s
    | _ \<Rightarrow> True)"

definition ws_answer :: "string \<Rightarrow> resolver \<Rightarrow> ws_event \<Rightarrow> resolver" where
  "ws_answer slug s e =
    (case e of
      ListLoaded ws t \<Rightarrow>
        s\<lparr>rv_list := \<lparr>lq_data = Some ws, lq_at = t, lq_isError = False\<rparr>, rv_listBusy := False, rv_now := t\<rparr>
    | ListFailed \<Rightarrow> s\<lparr>rv_list := (rv_list s)\<lparr>lq_isError := True\<rparr>, rv_listBusy := False\<rparr>
    | ListAsked \<Rightarrow> fetch_list s
    | SlugResolved i t \<Rightarrow>
        s\<lparr>rv_slug := \<lparr>sq_id = Some i, sq_at = t, sq_error = None\<rparr>, rv_slugBusy := False, rv_now := t\<rparr>
    | SlugFailed status \<Rightarrow> s\<lparr>rv_slug := (rv_slug s)\<lparr>sq_error := Some status\<rparr>, rv_slugBusy := False\<rparr>
    | RetryPressed \<Rightarrow>
        (case resolve_status slug (rv_list s) (rv_slug s) of
          WsError RetryList \<Rightarrow> fetch_list s
        | WsError RetrySlug \<Rightarrow> fetch_slug s
        | _ \<Rightarrow> s))"

definition ws_step :: "string \<Rightarrow> resolver \<Rightarrow> ws_event \<Rightarrow> resolver" where
  "ws_step slug s e = (if rv_left s then s else rendered slug (ws_answer slug s e))"

text \<open>The first render: what the caches hold for the list and the slug; both of the past, the list on its way.\<close>

definition ws_start :: "string \<Rightarrow> list_query \<Rightarrow> slug_query \<Rightarrow> nat \<Rightarrow> resolver" where
  "ws_start slug l q now =
    rendered slug (fetch_list
      \<lparr>rv_list = l, rv_slug = q, rv_listBusy = False, rv_slugBusy = False, rv_enabled = False, rv_seen = None,
       rv_left = False, rv_now = now\<rparr>)"

definition ws_run :: "string \<Rightarrow> ws_event list \<Rightarrow> resolver \<Rightarrow> resolver" where
  "ws_run slug es s = foldl (ws_step slug) s es"

section \<open>The address\<close>

record address =
  ad_pathname :: string
  ad_search :: string
  ad_hash :: string

text \<open>\<open>base\<close> is the matched \<open>/{slug}\<close> as it is in the address, if the route matches.\<close>

definition replace_slug :: "(string \<Rightarrow> string) \<Rightarrow> string option \<Rightarrow> address \<Rightarrow> string \<Rightarrow> address option" where
  "replace_slug generatePath base location slug =
    (case base of
      None \<Rightarrow> None
    | Some b \<Rightarrow> Some (location\<lparr>ad_pathname := generatePath slug @ drop (length b) (ad_pathname location)\<rparr>))"

section \<open>The layout's effects\<close>

datatype layout_effect = PutSlug string | Remember string | NotAvailable | GoToEntry

definition workspace_of :: "resolved_ws \<Rightarrow> workspace option" where
  "workspace_of r = (case r of WsFound w \<Rightarrow> Some w | _ \<Rightarrow> None)"

text \<open>
  Each effect runs when what it depends on changed; \<open>prev\<close> is the last render's slug and answer, \<open>moved\<close> that the location
  changed since, which makes another \<open>replaceSlug\<close>.
\<close>

definition slug_effect :: "string \<Rightarrow> resolved_ws \<Rightarrow> layout_effect list" where
  "slug_effect slug r =
    (case workspace_of r of None \<Rightarrow> [] | Some w \<Rightarrow> if wk_slug w \<noteq> slug then [PutSlug (wk_slug w)] else [])"

definition layout_effects :: "(string \<times> resolved_ws) option \<Rightarrow> bool \<Rightarrow> string \<Rightarrow> resolved_ws \<Rightarrow> layout_effect list" where
  "layout_effects prev moved slug r =
    (let before = (case prev of None \<Rightarrow> None | Some (_, r0) \<Rightarrow> workspace_of r0);
         slug_deps = (\<lambda>s w. (map_option wk_slug w, s))
     in (if \<not> moved \<and> map_option (\<lambda>(s, r0). slug_deps s (workspace_of r0)) prev = Some (slug_deps slug (workspace_of r)) then []
         else slug_effect slug r) @
        (if map_option wk_id before = map_option wk_id (workspace_of r) then []
         else case workspace_of r of None \<Rightarrow> [] | Some w \<Rightarrow> [Remember (wk_id w)]) @
        (if r = WsMissing \<and> map_option snd prev \<noteq> Some WsMissing then [NotAvailable, GoToEntry] else []))"

section \<open>The workspace picked\<close>

lemma found_mem: "find P xs = Some x \<Longrightarrow> x \<in> set xs \<and> P x"
  by (auto simp: find_Some_iff in_set_conv_nth)

lemma pick_live: "pickWorkspace ws i = Some w \<Longrightarrow> w \<in> set ws \<and> \<not> truthy (wk_deletedAt w)"
proof -
  assume "pickWorkspace ws i = Some w"
  then have "w \<in> set (live_workspaces ws)"
    by (auto simp: pickWorkspace_def Let_def dest: found_mem split: option.splits if_splits)
  then show ?thesis by (simp add: live_workspaces_def)
qed

lemma pick_none: "pickWorkspace ws i = None \<longleftrightarrow> (\<forall>w\<in>set ws. truthy (wk_deletedAt w))"
  by (auto simp: pickWorkspace_def live_workspaces_def Let_def filter_empty_conv find_None_iff split: option.splits)

text \<open>What the user was in last is opened again, if it is still there; whatever the storage does, nothing breaks.\<close>

lemma pick_last:
  assumes "w \<in> set ws" and "\<not> truthy (wk_deletedAt w)" and "distinct (map wk_id ws)"
  shows "pickWorkspace ws (Some (wk_id w)) = Some w"
proof -
  have "w \<in> set (live_workspaces ws)" using assms by (simp add: live_workspaces_def)
  then obtain x where x: "find (\<lambda>v. Some (wk_id v) = Some (wk_id w)) (live_workspaces ws) = Some x"
    by (cases "find (\<lambda>v. Some (wk_id v) = Some (wk_id w)) (live_workspaces ws)") (auto simp: find_None_iff)
  then have "x \<in> set ws" "wk_id x = wk_id w" using found_mem [OF x] by (auto simp: live_workspaces_def)
  then have "x = w" using assms(1,3) by (auto simp: distinct_map inj_on_def)
  then show ?thesis using x by (simp add: pickWorkspace_def)
qed

lemma remembered: "readLastWorkspaceId (rememberWorkspace i st) = (if st_throws st then None else Some i)"
  by (simp add: readLastWorkspaceId_def rememberWorkspace_def)

section \<open>The workspace found\<close>

lemma by_slug:
  assumes "lq_data l = Some ws" and "distinct (map wk_slug ws)" and "w \<in> set ws"
  shows "from_list (wk_slug w) l = Some w"
proof -
  obtain x where x: "find (\<lambda>v. wk_slug v = wk_slug w) ws = Some x"
    using assms(3) by (cases "find (\<lambda>v. wk_slug v = wk_slug w) ws") (auto simp: find_None_iff)
  then have "x = w" using found_mem [OF x] assms(2,3) by (auto simp: distinct_map inj_on_def)
  then show ?thesis using x assms(1) by (simp add: from_list_def)
qed

lemma resolve_found:
  "resolve_status slug l q = WsFound w \<Longrightarrow>
    (\<exists>ws. lq_data l = Some ws \<and> w \<in> set ws) \<and> (wk_slug w = slug \<or> sq_id q = Some (wk_id w))"
  by (auto simp: resolve_status_def from_list_def by_id_def dest: found_mem split: option.splits if_splits)

lemma resolve_missing:
  "resolve_status slug l q = WsMissing \<Longrightarrow> from_list slug l = None \<and> by_id l q = None"
  by (auto simp: resolve_status_def split: option.splits if_splits)

text \<open>
  The redirects of the workspace's address settle. Over a list whose slugs are distinct: the workspace the entry
  opens is found by its slug, and is not a deleted one; and whatever slug the workspace was found by, the slug the
  layout puts in its place finds the same workspace, after which nothing is replaced any more.
\<close>

theorem workspace_redirects_settle:
  assumes "lq_data l = Some ws" and "distinct (map wk_slug ws)"
  shows "(\<forall>st slug q. workspace_entry (lq_isError l) (lq_data l) st = EntryGo slug \<longrightarrow>
      (\<exists>w\<in>set ws. \<not> truthy (wk_deletedAt w) \<and> pickWorkspace ws (readLastWorkspaceId st) = Some w \<and>
        resolve_status slug l q = WsFound w \<and> slug_effect slug (WsFound w) = [])) \<and>
    (\<forall>slug q w new q'. resolve_status slug l q = WsFound w \<and> PutSlug new \<in> set (slug_effect slug (WsFound w)) \<longrightarrow>
      resolve_status new l q' = WsFound w \<and> slug_effect new (WsFound w) = [])"
proof (intro conjI allI impI)
  fix st slug q
  assume "workspace_entry (lq_isError l) (lq_data l) st = EntryGo slug"
  then obtain w where w: "pickWorkspace ws (readLastWorkspaceId st) = Some w" "slug = wk_slug w"
    using assms(1) by (auto simp: workspace_entry_def split: if_splits option.splits)
  then have live: "w \<in> set ws" "\<not> truthy (wk_deletedAt w)" using pick_live by blast+
  then have "resolve_status slug l q = WsFound w" using by_slug [OF assms] w(2) by (simp add: resolve_status_def)
  then show "\<exists>w\<in>set ws. \<not> truthy (wk_deletedAt w) \<and> pickWorkspace ws (readLastWorkspaceId st) = Some w \<and>
        resolve_status slug l q = WsFound w \<and> slug_effect slug (WsFound w) = []"
    using w live by (intro bexI [of _ w]) (simp_all add: slug_effect_def workspace_of_def)
next
  fix slug q w new q'
  assume found: "resolve_status slug l q = WsFound w \<and> PutSlug new \<in> set (slug_effect slug (WsFound w))"
  then have new: "new = wk_slug w" by (auto simp: slug_effect_def workspace_of_def split: if_splits)
  have "w \<in> set ws" using found resolve_found assms(1) by fastforce
  then show "resolve_status new l q' = WsFound w" using by_slug [OF assms] new by (simp add: resolve_status_def)
  show "slug_effect new (WsFound w) = []" by (simp add: slug_effect_def workspace_of_def new)
qed

text \<open>The rest of the address is kept byte for byte.\<close>

lemma replace_slug_rest:
  assumes "ad_pathname a = b @ rest"
  shows "replace_slug g (Some b) a s = Some (a\<lparr>ad_pathname := g s @ rest\<rparr>)"
  using assms by (simp add: replace_slug_def)

definition two_workspaces :: "workspace list" where
  "two_workspaces =
    [\<lparr>wk_id = ''1'', wk_slug = ''gone'', wk_name = ''Gone'', wk_isPersonal = True, wk_deletedAt = Some ''2026''\<rparr>,
     \<lparr>wk_id = ''2'', wk_slug = ''team'', wk_name = ''Team'', wk_isPersonal = False, wk_deletedAt = None\<rparr>]"

definition old_slug_list :: list_query where
  "old_slug_list = \<lparr>lq_data = Some two_workspaces, lq_at = 3, lq_isError = False\<rparr>"

theorem workspace_redirects_settle_witness:
  "resolve_status ''team'' old_slug_list \<lparr>sq_id = None, sq_at = 0, sq_error = None\<rparr> = WsFound (two_workspaces ! 1) \<and>
   slug_effect ''team'' (WsFound (two_workspaces ! 1)) = []"
proof -
  have "lq_data old_slug_list = Some two_workspaces" "distinct (map wk_slug two_workspaces)" by code_simp+
  note settles = workspace_redirects_settle [OF this]
  have "resolve_status ''old'' old_slug_list \<lparr>sq_id = Some ''2'', sq_at = 1, sq_error = None\<rparr> = WsFound (two_workspaces ! 1) \<and>
      PutSlug ''team'' \<in> set (slug_effect ''old'' (WsFound (two_workspaces ! 1)))"
    by code_simp
  then show ?thesis using settles [THEN conjunct2] by blast
qed

section \<open>The hook never hangs\<close>

text \<open>What holds before a render, and after it while the layout is here.\<close>

definition ws_pre :: "string \<Rightarrow> resolver \<Rightarrow> bool" where
  "ws_pre slug s \<longleftrightarrow>
    (lq_data (rv_list s) = None \<and> \<not> lq_isError (rv_list s) \<longrightarrow> rv_listBusy s) \<and>
    (rv_enabled s \<and> sq_id (rv_slug s) = None \<and> sq_error (rv_slug s) = None \<longrightarrow> rv_slugBusy s) \<and>
    (rv_seen s = Some (sq_id (rv_slug s), None) \<and> sq_id (rv_slug s) \<noteq> None \<and> from_list slug (rv_list s) = None \<and>
      by_id (rv_list s) (rv_slug s) = None \<and> lq_at (rv_list s) \<le> sq_at (rv_slug s) \<longrightarrow>
      rv_listBusy s \<or> lq_isError (rv_list s)) \<and>
    lq_at (rv_list s) \<le> rv_now s \<and> sq_at (rv_slug s) \<le> rv_now s"

definition ws_ok :: "string \<Rightarrow> resolver \<Rightarrow> bool" where
  "ws_ok slug s \<longleftrightarrow>
    ws_pre slug s \<and>
    rv_left s = (resolve_status slug (rv_list s) (rv_slug s) = WsMissing) \<and>
    (\<not> rv_left s \<longrightarrow>
      rv_enabled s = slug_enabled slug (rv_list s) \<and>
      rv_seen s = Some (sq_id (rv_slug s), by_id (rv_list s) (rv_slug s)))"

lemma error_ids [simp]:
  "by_id l (q\<lparr>sq_error := e\<rparr>) = by_id l q"
  "by_id (l\<lparr>lq_isError := b\<rparr>) q = by_id l q"
  "from_list slug (l\<lparr>lq_isError := b\<rparr>) = from_list slug l"
  "slug_enabled slug (l\<lparr>lq_isError := b\<rparr>) = slug_enabled slug l"
  by (simp_all add: by_id_def from_list_def slug_enabled_def)

lemma by_id_None [simp]: "sq_id q = None \<Longrightarrow> by_id l q = None"
  by (simp add: by_id_def)

lemma enable_pre:
  "ws_pre slug s \<Longrightarrow> ws_pre slug (enable_slug slug s) \<and>
    rv_enabled (enable_slug slug s) = slug_enabled slug (rv_list (enable_slug slug s))"
  by (simp add: ws_pre_def enable_slug_def fetch_slug_def Let_def)

lemma behind_pre:
  "ws_pre slug s \<Longrightarrow> ws_pre slug (behind_effect s) \<and>
    rv_enabled (behind_effect s) = rv_enabled s \<and>
    slug_enabled slug (rv_list (behind_effect s)) = slug_enabled slug (rv_list s) \<and>
    rv_seen (behind_effect s) = Some (sq_id (rv_slug (behind_effect s)), by_id (rv_list (behind_effect s)) (rv_slug (behind_effect s)))"
  by (cases "by_id (rv_list s) (rv_slug s)") (simp_all add: ws_pre_def behind_effect_def fetch_list_def Let_def)

lemma rendered_ok:
  assumes "ws_pre slug s"
  shows "ws_ok slug (rendered slug s)"
proof -
  let ?s1 = "behind_effect (enable_slug slug s)"
  have "ws_pre slug ?s1" and "rv_enabled ?s1 = slug_enabled slug (rv_list ?s1)"
    and "rv_seen ?s1 = Some (sq_id (rv_slug ?s1), by_id (rv_list ?s1) (rv_slug ?s1))"
    using enable_pre [OF assms] behind_pre by blast+
  then show ?thesis by (simp add: rendered_def Let_def ws_ok_def ws_pre_def)
qed

lemma answer_pre:
  assumes "ws_ok slug s" and "\<not> rv_left s" and "ws_admissible s e"
  shows "ws_pre slug (ws_answer slug s e)"
proof (cases e)
  case (ListLoaded ws t)
  then show ?thesis using assms by (simp add: ws_ok_def ws_pre_def ws_answer_def ws_admissible_def)
next
  case ListFailed
  then show ?thesis using assms by (simp add: ws_ok_def ws_pre_def ws_answer_def ws_admissible_def)
next
  case ListAsked
  then show ?thesis using assms by (simp add: ws_ok_def ws_pre_def ws_answer_def fetch_list_def)
next
  case (SlugResolved i t)
  have old: "ws_pre slug s" "rv_seen s = Some (sq_id (rv_slug s), by_id (rv_list s) (rv_slug s))"
    "resolve_status slug (rv_list s) (rv_slug s) \<noteq> WsMissing" "sq_at (rv_slug s) \<le> rv_now s" "lq_at (rv_list s) \<le> rv_now s"
    using assms(1,2) by (simp_all add: ws_ok_def ws_pre_def)
  have "rv_listBusy s \<or> lq_isError (rv_list s)"
    if "rv_seen s = Some (Some i, None)" "from_list slug (rv_list s) = None"
  proof -
    have id: "sq_id (rv_slug s) = Some i" "by_id (rv_list s) (rv_slug s) = None" using that(1) old(2) by simp_all
    then have "lq_at (rv_list s) \<le> sq_at (rv_slug s)"
      using old(3) that(2) by (simp add: resolve_status_def split: if_splits)
    then show ?thesis using old(1,2) id that(2) by (simp add: ws_pre_def)
  qed
  then show ?thesis using SlugResolved assms old
    by (simp add: ws_pre_def ws_answer_def ws_admissible_def)
next
  case (SlugFailed status)
  then show ?thesis using assms by (simp add: ws_ok_def ws_pre_def ws_answer_def ws_admissible_def)
next
  case RetryPressed
  then show ?thesis using assms
    by (simp add: ws_ok_def ws_pre_def ws_answer_def fetch_list_def fetch_slug_def split: resolved_ws.split retry_what.split)
qed

interpretation resolver_keeps: event_machine "ws_step slug" ws_admissible "ws_ok slug" for slug
  by unfold_locales (auto simp: ws_step_def intro: rendered_ok answer_pre)

lemma start_ok:
  assumes "lq_at l \<le> now" and "sq_at q \<le> now"
  shows "ws_ok slug (ws_start slug l q now)"
  unfolding ws_start_def by (rule rendered_ok) (use assms in \<open>simp add: ws_pre_def fetch_list_def\<close>)

definition ws_status :: "string \<Rightarrow> resolver \<Rightarrow> resolved_ws" where
  "ws_status slug s = resolve_status slug (rv_list s) (rv_slug s)"

lemma pending_iff:
  "ws_status slug s = WsPending \<longleftrightarrow>
    from_list slug (rv_list s) = None \<and> by_id (rv_list s) (rv_slug s) = None \<and>
    (sq_id (rv_slug s) \<noteq> None \<longrightarrow> lq_at (rv_list s) \<le> sq_at (rv_slug s)) \<and>
    \<not> lq_isError (rv_list s) \<and> sq_error (rv_slug s) = None"
  by (cases "sq_id (rv_slug s)") (auto simp: ws_status_def resolve_status_def split: option.splits)

lemma pending_busy:
  assumes "ws_ok slug s" and "ws_status slug s = WsPending"
  shows "if lq_data (rv_list s) = None \<or> sq_id (rv_slug s) \<noteq> None then rv_listBusy s else rv_slugBusy s"
proof -
  have p: "from_list slug (rv_list s) = None" "by_id (rv_list s) (rv_slug s) = None"
      "sq_id (rv_slug s) \<noteq> None \<longrightarrow> lq_at (rv_list s) \<le> sq_at (rv_slug s)"
      "\<not> lq_isError (rv_list s)" "sq_error (rv_slug s) = None"
    using assms(2) by (simp_all add: pending_iff)
  have "resolve_status slug (rv_list s) (rv_slug s) \<noteq> WsMissing" using assms(2) by (simp add: ws_status_def)
  then have "ws_pre slug s" "rv_enabled s = slug_enabled slug (rv_list s)" "rv_seen s = Some (sq_id (rv_slug s), None)"
    using assms(1) p(2) by (simp_all add: ws_ok_def)
  then show ?thesis using p by (auto simp: ws_pre_def slug_enabled_def)
qed

text \<open>How many answers may still come before the hook has decided.\<close>

definition ws_rank :: "resolver \<Rightarrow> nat" where
  "ws_rank s =
    (if lq_data (rv_list s) = None then 3 + of_bool (rv_slugBusy s)
     else if sq_id (rv_slug s) = None then 2 + of_bool (rv_listBusy s)
     else 1 + of_bool (rv_slugBusy s))"

fun is_answer :: "ws_event \<Rightarrow> bool" where
  "is_answer (ListLoaded _ _) = True"
| "is_answer ListFailed = True"
| "is_answer (SlugResolved _ _) = True"
| "is_answer (SlugFailed _) = True"
| "is_answer _ = False"

lemma rendered_keeps:
  "lq_data (rv_list (rendered slug s)) = lq_data (rv_list s)"
  "sq_id (rv_slug (rendered slug s)) = sq_id (rv_slug s)"
  "sq_at (rv_slug (rendered slug s)) = sq_at (rv_slug s)"
  "lq_at (rv_list (rendered slug s)) = lq_at (rv_list s)"
  "from_list slug (rv_list (rendered slug s)) = from_list slug (rv_list s)"
  "by_id (rv_list (rendered slug s)) (rv_slug (rendered slug s)) = by_id (rv_list s) (rv_slug s)"
  by (simp_all add: rendered_def behind_effect_def enable_slug_def fetch_list_def fetch_slug_def Let_def)

lemma rendered_rest:
  "lq_data (rv_list s) \<noteq> None \<Longrightarrow> lq_isError (rv_list (rendered slug s)) = lq_isError (rv_list s)"
  "rv_enabled s = slug_enabled slug (rv_list s) \<Longrightarrow>
    rv_slugBusy (rendered slug s) = rv_slugBusy s \<and> sq_error (rv_slug (rendered slug s)) = sq_error (rv_slug s)"
  "sq_id (rv_slug s) = None \<Longrightarrow>
    rv_listBusy (rendered slug s) = rv_listBusy s \<and> lq_isError (rv_list (rendered slug s)) = lq_isError (rv_list s)"
  by (simp_all add: rendered_def behind_effect_def enable_slug_def fetch_list_def fetch_slug_def Let_def)

lemma rendered_idle:
  assumes "rv_enabled s = slug_enabled slug (rv_list s)"
    and "rv_seen s = Some (sq_id (rv_slug s), by_id (rv_list s) (rv_slug s))"
  shows "rv_list (rendered slug s) = rv_list s" and "rv_slug (rendered slug s) = rv_slug s"
  using assms by (simp_all add: rendered_def behind_effect_def enable_slug_def Let_def)

lemma rank_falls:
  assumes "ws_ok slug s" and "ws_status slug s = WsPending" and "ws_admissible s e" and "is_answer e"
    and "ws_status slug (ws_step slug s e) = WsPending"
  shows "ws_rank (ws_step slug s e) < ws_rank s"
proof -
  let ?a = "ws_answer slug s e"
  have "\<not> rv_left s" using assms(1,2) by (simp add: ws_ok_def ws_status_def)
  then have step: "ws_step slug s e = rendered slug ?a"
    and en: "rv_enabled s = slug_enabled slug (rv_list s)"
    and seen: "rv_seen s = Some (sq_id (rv_slug s), by_id (rv_list s) (rv_slug s))"
    and at: "sq_at (rv_slug s) \<le> rv_now s"
    using assms(1) by (simp_all add: ws_step_def ws_ok_def ws_pre_def)
  have pend: "ws_status slug (rendered slug ?a) = WsPending" using assms(5) step by simp
  show ?thesis
  proof (cases e)
    case (ListLoaded ws t)
    then have t: "rv_now s < t" "rv_listBusy s" using assms(3) by (simp_all add: ws_admissible_def)
    then have new: "sq_id (rv_slug s) = None"
      using pend at ListLoaded unfolding pending_iff rendered_keeps by (auto simp: ws_answer_def)
    then have "rv_listBusy (rendered slug ?a) = False" using rendered_rest(3) [of ?a slug] ListLoaded by (simp add: ws_answer_def)
    then show ?thesis using ListLoaded new t step by (simp add: ws_rank_def rendered_keeps ws_answer_def)
  next
    case ListFailed
    then show ?thesis using pend rendered_idle [of ?a slug] en seen by (simp add: pending_iff ws_answer_def)
  next
    case (SlugResolved i t)
    then have "rv_slugBusy s" using assms(3) by (simp add: ws_admissible_def)
    moreover have "rv_slugBusy (rendered slug ?a) = False"
      using rendered_rest(2) [of ?a slug] SlugResolved en by (simp add: ws_answer_def)
    ultimately show ?thesis using SlugResolved step by (simp add: ws_rank_def rendered_keeps ws_answer_def)
  next
    case (SlugFailed status)
    then show ?thesis using pend rendered_idle [of ?a slug] en seen by (simp add: pending_iff ws_answer_def)
  qed (use assms(4) in simp_all)
qed

lemma rank_pos: "0 < ws_rank s"
  by (simp add: ws_rank_def)

interpretation resolver: ranked_machine "ws_step slug" ws_admissible "ws_ok slug" "\<lambda>s. ws_status slug s = WsPending" is_answer ws_rank
  for slug
  by unfold_locales (auto intro: resolver_keeps.step_inv rank_pos rank_falls)


text \<open>A workspace joined since the list was fetched: the slug is asked for, the list is fetched again, and then it is there.\<close>

definition joined_since :: "ws_event list" where
  "joined_since = [ListLoaded [two_workspaces ! 0] 5, SlugResolved ''2'' 6, ListLoaded two_workspaces 7]"


end
