(* ===== verification/Menus.thy ===== *)
theory Menus
  imports Complex_Main Label_Search
begin

text \<open>
  Menus (\<open>ui-kit/src/components/Menu\<close>): the items as data (\<open>types.ts\<close>), the sections, hotkeys and filter of a
  panel (\<open>MenuContent.tsx\<close>), asynchronous items (\<open>useAsyncItems.ts\<close>), what a choice does (\<open>useMenuRoot.ts\<close>), and the
  requests of a context menu (\<open>ContextMenu.tsx\<close>). Zag's machine is outside: it says which item was chosen, when
  the menu opened and when it closed, and it closes when it is told to. What the parent's callbacks and an
  action returned is what the events carry.
\<close>

section \<open>Items\<close>

record action_item =
  ai_id :: string
  ai_label :: string
  ai_icon :: bool
  ai_keys :: "string option"
  ai_disabled :: "string option"
  ai_href :: "string option"
  ai_onSelect :: bool

record checkbox_item =
  ci_id :: string
  ci_label :: string
  ci_checked :: bool
  ci_keys :: "string option"
  ci_disabled :: "string option"

record radio_option =
  ro_value :: string
  ro_label :: string
  ro_icon :: bool
  ro_disabled :: "string option"
  ro_dot :: "string option"

record radio_group =
  rg_id :: string
  rg_label :: "string option"
  rg_value :: "string option"
  rg_options :: "radio_option list"
  rg_filterable :: bool

text \<open>A submenu has its id, its label, whether there is an icon, why it is disabled, and its items.\<close>

datatype menu_item =
  MenuAction action_item
| MenuCheckbox checkbox_item
| MenuRadioGroup radio_group
| MenuSubmenu string string bool "string option" "menu_item list"
| MenuSeparator
| MenuLabel string

section \<open>What a panel shows\<close>

record menu_section =
  se_label :: "string option"
  se_items :: "menu_item list"

text \<open>One turn of the loop: the sections so far, the last of which is the current one.\<close>

definition add_item :: "menu_section list \<Rightarrow> menu_item \<Rightarrow> menu_section list" where
  "add_item sections item =
    (let current = last sections in
     case item of
       MenuSeparator \<Rightarrow> sections @ [\<lparr>se_label = None, se_items = []\<rparr>]
     | MenuLabel label \<Rightarrow>
         if se_items current \<noteq> [] \<or> se_label current \<noteq> None
         then sections @ [\<lparr>se_label = Some label, se_items = []\<rparr>]
         else butlast sections @ [current\<lparr>se_label := Some label\<rparr>]
     | _ \<Rightarrow> butlast sections @ [current\<lparr>se_items := se_items current @ [item]\<rparr>])"

definition sectionsOf :: "menu_item list \<Rightarrow> menu_section list" where
  "sectionsOf items =
    filter (\<lambda>s. se_items s \<noteq> [] \<or> se_label s \<noteq> None) (foldl add_item [\<lparr>se_label = None, se_items = []\<rparr>] items)"

definition uses_slot :: "menu_item \<Rightarrow> bool" where
  "uses_slot item =
    (case item of MenuCheckbox _ \<Rightarrow> True | MenuAction a \<Rightarrow> ai_icon a | MenuSubmenu _ _ icon _ _ \<Rightarrow> icon
     | MenuRadioGroup _ \<Rightarrow> True | _ \<Rightarrow> False)"

definition needsSlot :: "menu_item list \<Rightarrow> bool" where
  "needsSlot items = list_ex uses_slot items"

definition hasOwnSigns :: "radio_group \<Rightarrow> bool" where
  "hasOwnSigns g = list_ex ro_icon (rg_options g)"

text \<open>The rows drawn at a depth: a submenu inside a submenu is ignored.\<close>

definition drawn_row :: "nat \<Rightarrow> menu_item \<Rightarrow> bool" where
  "drawn_row depth item =
    (case item of MenuSubmenu _ _ _ _ _ \<Rightarrow> depth = 0 | MenuSeparator \<Rightarrow> False | MenuLabel _ \<Rightarrow> False | _ \<Rightarrow> True)"

section \<open>The filter of a long choice\<close>

definition menu_filter_after :: nat where
  "menu_filter_after = 8"

definition filtering :: "radio_group \<Rightarrow> bool" where
  "filtering g \<longleftrightarrow> rg_filterable g \<and> menu_filter_after < length (rg_options g)"

definition radio_options :: "radio_group \<Rightarrow> string \<Rightarrow> radio_option list" where
  "radio_options g query = (if filtering g \<and> query \<noteq> [] then filterByLabel ro_label (rg_options g) query else rg_options g)"

text \<open>Typing: the option the cursor is put on, if any of them can be chosen.\<close>

definition filter_typed :: "radio_group \<Rightarrow> string \<Rightarrow> radio_option option" where
  "filter_typed g v =
    find (\<lambda>opt. ro_disabled opt = None) (if v \<noteq> [] then filterByLabel ro_label (rg_options g) v else rg_options g)"

section \<open>Keys\<close>

definition isTyping :: "key_event \<Rightarrow> bool" where
  "isTyping e \<longleftrightarrow> length (ke_key e) = 1 \<and> ke_key e \<noteq> '' '' \<and> \<not> ke_meta e \<and> \<not> ke_ctrl e \<and> \<not> ke_alt e"

definition item_has_keys :: "key_platform \<Rightarrow> key_event \<Rightarrow> menu_item \<Rightarrow> bool" where
  "item_has_keys platform e item =
    (case item of
      MenuAction a \<Rightarrow> (case ai_keys a of Some ks \<Rightarrow> ai_disabled a = None \<and> matchKeys ks e platform | None \<Rightarrow> False)
    | MenuCheckbox c \<Rightarrow> (case ci_keys c of Some ks \<Rightarrow> ci_disabled c = None \<and> matchKeys ks e platform | None \<Rightarrow> False)
    | _ \<Rightarrow> False)"

definition itemForKeys :: "key_platform \<Rightarrow> menu_item list \<Rightarrow> key_event \<Rightarrow> bool \<Rightarrow> menu_item option" where
  "itemForKeys platform items e editable = (if editable then None else find (item_has_keys platform e) items)"

section \<open>Asynchronous items\<close>

record async_item =
  as_busy :: bool
  as_error :: "string option"

definition IDLE :: async_item where
  "IDLE = \<lparr>as_busy = False, as_error = None\<rparr>"

datatype menu_reason = ErrorReason string | TextReason string | OtherReason string

text \<open>\<open>messageOf\<close>: an error's message, a string itself, and what \<open>String\<close> makes of another value.\<close>

definition messageOf :: "menu_reason \<Rightarrow> string" where
  "messageOf r = (case r of ErrorReason m \<Rightarrow> m | TextReason t \<Rightarrow> t | OtherReason t \<Rightarrow> t)"

text \<open>The items are the props of the last render; \<open>mn_open\<close> is \<open>openRef\<close>, which follows Zag's open state.\<close>

record menu_state =
  mn_items :: "menu_item list"
  mn_open :: bool
  mn_states :: "(string, async_item) js_map"
  mn_busy :: "string list"

definition stateOf :: "menu_state \<Rightarrow> string \<Rightarrow> async_item" where
  "stateOf s i = (case js_get (mn_states s) i of Some a \<Rightarrow> a | None \<Rightarrow> IDLE)"

datatype menu_effect =
  ActionCalled string
| CheckedChanged string bool
| MenuCloses
| FilterFocused

datatype action_result = ReturnedNow | ReturnedPromise | Threw

text \<open>\<open>run\<close>: whether the menu should close now; what the action throws leaves the handler.\<close>

definition run_item :: "action_item \<Rightarrow> action_result \<Rightarrow> menu_state \<Rightarrow> menu_state \<times> menu_effect list \<times> bool" where
  "run_item item result s =
    (let i = ai_id item; called = (if ai_onSelect item then [ActionCalled i] else []) in
     if i \<in> set (mn_busy s) then (s, [], False)
     else if \<not> ai_onSelect item \<or> result = ReturnedNow then (s, called, True)
     else if result = Threw then (s, called, False)
     else (s\<lparr>mn_busy := mn_busy s @ [i], mn_states := js_set i \<lparr>as_busy = True, as_error = None\<rparr> (mn_states s)\<rparr>, called, False))"

text \<open>\<open>setOpen\<close> of the asynchronous items.\<close>

definition items_setOpen :: "bool \<Rightarrow> menu_state \<Rightarrow> menu_state" where
  "items_setOpen b s =
    (let s1 = s\<lparr>mn_open := b\<rparr> in
     if b then s1\<lparr>mn_states := map (\<lambda>(i, a). (i, \<lparr>as_busy = True, as_error = None\<rparr>)) (filter (\<lambda>(i, a). as_busy a) (mn_states s))\<rparr>
     else s1)"

definition close_menu :: "menu_state \<Rightarrow> menu_state \<times> menu_effect list" where
  "close_menu s = (if mn_open s then (items_setOpen False s, [MenuCloses]) else (s, []))"

definition runAction :: "action_item \<Rightarrow> action_result \<Rightarrow> menu_state \<Rightarrow> menu_state \<times> menu_effect list" where
  "runAction item result s =
    (if ai_disabled item \<noteq> None \<or> ai_href item \<noteq> None then (s, [])
     else (case run_item item result s of
       (s', effects, True) \<Rightarrow> (case close_menu s' of (s'', closes) \<Rightarrow> (s'', effects @ closes))
     | (s', effects, False) \<Rightarrow> (s', effects)))"

definition action_settled :: "string \<Rightarrow> menu_reason option \<Rightarrow> menu_state \<Rightarrow> menu_state \<times> menu_effect list" where
  "action_settled i result s =
    (let s1 = s\<lparr>mn_busy := filter (\<lambda>x. x \<noteq> i) (mn_busy s)\<rparr> in
     case result of
       None \<Rightarrow> (let s2 = s1\<lparr>mn_states := js_set i IDLE (mn_states s)\<rparr> in if mn_open s then close_menu s2 else (s2, []))
     | Some reason \<Rightarrow>
         (s1\<lparr>mn_states := js_set i \<lparr>as_busy = False, as_error = (if mn_open s then Some (messageOf reason) else None)\<rparr>
           (mn_states s)\<rparr>, []))"

section \<open>What the menu is told\<close>

text \<open>The items of a level: the root's, or those of a submenu that can be opened.\<close>

definition submenu_of :: "string \<Rightarrow> menu_item \<Rightarrow> bool" where
  "submenu_of i item = (case item of MenuSubmenu j _ _ disabled _ \<Rightarrow> j = i \<and> disabled = None | _ \<Rightarrow> False)"

definition items_of :: "menu_item \<Rightarrow> menu_item list" where
  "items_of item = (case item of MenuSubmenu _ _ _ _ items \<Rightarrow> items | _ \<Rightarrow> [])"

definition level_items :: "string option \<Rightarrow> menu_item list \<Rightarrow> menu_item list" where
  "level_items level items =
    (case level of None \<Rightarrow> items
     | Some i \<Rightarrow> (case find (submenu_of i) items of Some item \<Rightarrow> items_of item | None \<Rightarrow> []))"

definition action_named :: "string \<Rightarrow> menu_item \<Rightarrow> bool" where
  "action_named i item = (case item of MenuAction a \<Rightarrow> ai_id a = i | _ \<Rightarrow> False)"

definition findAction :: "menu_item list \<Rightarrow> string \<Rightarrow> action_item option" where
  "findAction items i = (case find (action_named i) items of Some (MenuAction a) \<Rightarrow> Some a | _ \<Rightarrow> None)"

definition item_selected :: "string option \<Rightarrow> string \<Rightarrow> action_result \<Rightarrow> menu_state \<Rightarrow> menu_state \<times> menu_effect list" where
  "item_selected level i result s =
    (case findAction (level_items level (mn_items s)) i of Some a \<Rightarrow> runAction a result s | None \<Rightarrow> (s, []))"

definition has_filter_field :: "menu_item list \<Rightarrow> bool" where
  "has_filter_field items = list_ex (\<lambda>item. case item of MenuRadioGroup g \<Rightarrow> filtering g | _ \<Rightarrow> False) items"

text \<open>The handler of a panel, and whether the press was prevented: whether anyone else will act on it.\<close>

definition panel_keydown :: "key_platform \<Rightarrow> string option \<Rightarrow> key_event \<Rightarrow> bool \<Rightarrow> action_result \<Rightarrow> menu_state \<Rightarrow>
    (menu_state \<times> menu_effect list) \<times> bool" where
  "panel_keydown platform level e editable result s =
    (let items = level_items level (mn_items s) in
     case itemForKeys platform items e editable of
       None \<Rightarrow> ((s, if has_filter_field items \<and> isTyping e \<and> \<not> editable then [FilterFocused] else []), False)
     | Some (MenuCheckbox c) \<Rightarrow> ((s, [CheckedChanged (ci_id c) (\<not> ci_checked c)]), True)
     | Some (MenuAction a) \<Rightarrow> (runAction a result s, True)
     | Some _ \<Rightarrow> ((s, []), True))"

datatype menu_event =
  ItemsRendered "menu_item list"
| ZagOpened
| ZagClosed
| ItemSelected "string option" string action_result
| PanelKey "string option" key_event bool action_result
| ActionSettled string "menu_reason option"

definition menu_step :: "key_platform \<Rightarrow> menu_state \<Rightarrow> menu_event \<Rightarrow> menu_state \<times> menu_effect list" where
  "menu_step platform s ev =
    (case ev of
      ItemsRendered items \<Rightarrow> (s\<lparr>mn_items := items\<rparr>, [])
    | ZagOpened \<Rightarrow> (if mn_open s then s else items_setOpen True s, [])
    | ZagClosed \<Rightarrow> (if mn_open s then items_setOpen False s else s, [])
    | ItemSelected level i result \<Rightarrow> item_selected level i result s
    | PanelKey level e editable result \<Rightarrow> fst (panel_keydown platform level e editable result s)
    | ActionSettled i result \<Rightarrow> action_settled i result s)"

section \<open>The context menu\<close>

record open_request =
  or_x :: rat
  or_y :: rat
  or_keyboard :: bool
  or_element :: nat

record context_menu =
  cm_request :: "open_request option"
  cm_openedFrom :: "open_request option"

definition isMenuKey :: "key_event \<Rightarrow> bool" where
  "isMenuKey e \<longleftrightarrow> ke_key e = ''ContextMenu'' \<or> (ke_key e = ''F10'' \<and> ke_shift e)"

text \<open>The bottom-left corner of an element, whose rectangle is measured at that moment.\<close>

definition cornerOf :: "nat \<Rightarrow> rat \<Rightarrow> rat \<Rightarrow> open_request" where
  "cornerOf element left bottom = \<lparr>or_x = left, or_y = bottom, or_keyboard = True, or_element = element\<rparr>"

text \<open>A new request is rendered, and its effect opens the menu from it.\<close>

definition ask_menu :: "open_request \<Rightarrow> context_menu \<Rightarrow> context_menu" where
  "ask_menu r s = s\<lparr>cm_request := Some r, cm_openedFrom := Some r\<rparr>"

definition openAt :: "nat \<Rightarrow> rat \<Rightarrow> rat \<Rightarrow> nat option \<Rightarrow> context_menu \<Rightarrow> context_menu" where
  "openAt anchor left bottom returnFocusTo =
    ask_menu ((cornerOf anchor left bottom)\<lparr>or_element := (case returnFocusTo of Some x \<Rightarrow> x | None \<Rightarrow> anchor)\<rparr>)"

definition on_context_menu :: "bool \<Rightarrow> rat \<Rightarrow> rat \<Rightarrow> nat \<Rightarrow> context_menu \<Rightarrow> context_menu" where
  "on_context_menu prevented x y element s =
    (if prevented then s else ask_menu \<lparr>or_x = x, or_y = y, or_keyboard = False, or_element = element\<rparr> s)"

definition context_keydown :: "bool \<Rightarrow> key_event \<Rightarrow> nat \<Rightarrow> rat \<Rightarrow> rat \<Rightarrow> context_menu \<Rightarrow> context_menu" where
  "context_keydown prevented e element left bottom s =
    (if \<not> prevented \<and> isMenuKey e then ask_menu (cornerOf element left bottom) s else s)"

text \<open>\<open>onOpenChange\<close> when the menu closes: the element that gets the focus back.\<close>

definition focus_back :: "context_menu \<Rightarrow> nat option" where
  "focus_back s =
    (case cm_openedFrom s of Some r \<Rightarrow> if or_keyboard r then Some (or_element r) else None | None \<Rightarrow> None)"

section \<open>Nothing is lost between the separators\<close>

definition is_row :: "menu_item \<Rightarrow> bool" where
  "is_row item = (case item of MenuSeparator \<Rightarrow> False | MenuLabel _ \<Rightarrow> False | _ \<Rightarrow> True)"

definition label_in :: "menu_item \<Rightarrow> string option" where
  "label_in item = (case item of MenuLabel label \<Rightarrow> Some label | _ \<Rightarrow> None)"

lemma map_filter_append: "List.map_filter f (xs @ ys) = List.map_filter f xs @ List.map_filter f ys"
  by (simp add: List.map_filter_def)

lemma add_item_keeps:
  assumes "sections \<noteq> []"
  shows "add_item sections item \<noteq> []"
    and "concat (map se_items (add_item sections item)) = concat (map se_items sections) @ filter is_row [item]"
    and "List.map_filter se_label (add_item sections item) = List.map_filter se_label sections @ List.map_filter label_in [item]"
proof -
  obtain front current where s: "sections = front @ [current]" using assms by (cases sections rule: rev_cases) auto
  show "add_item sections item \<noteq> []"
    by (auto simp: add_item_def Let_def split: menu_item.split)
  show "concat (map se_items (add_item sections item)) = concat (map se_items sections) @ filter is_row [item]"
    by (simp add: s add_item_def Let_def is_row_def split: menu_item.split)
  show "List.map_filter se_label (add_item sections item) = List.map_filter se_label sections @ List.map_filter label_in [item]"
    by (simp add: s add_item_def Let_def label_in_def List.map_filter_def split: menu_item.split)
qed

lemma foldl_add_item_keeps:
  "sections \<noteq> [] \<Longrightarrow>
    concat (map se_items (foldl add_item sections items)) = concat (map se_items sections) @ filter is_row items \<and>
    List.map_filter se_label (foldl add_item sections items) =
      List.map_filter se_label sections @ List.map_filter label_in items"
proof (induction items arbitrary: sections)
  case Nil
  then show ?case by (simp add: List.map_filter_def)
next
  case (Cons item items)
  have "List.map_filter label_in (item # items) = List.map_filter label_in [item] @ List.map_filter label_in items"
    by (simp add: List.map_filter_def)
  moreover have "filter is_row (item # items) = filter is_row [item] @ filter is_row items" by simp
  ultimately show ?case
    using Cons.IH [OF add_item_keeps(1) [OF Cons.prems]] add_item_keeps(2,3) [OF Cons.prems, of item]
    by simp
qed

lemma filter_keeps_items:
  "(\<And>x. x \<in> set xs \<Longrightarrow> \<not> P x \<Longrightarrow> f x = []) \<Longrightarrow> concat (map f (filter P xs)) = concat (map f xs)"
  by (induction xs) auto

lemma filter_keeps_labels:
  "(\<And>x. x \<in> set xs \<Longrightarrow> \<not> P x \<Longrightarrow> f x = None) \<Longrightarrow> List.map_filter f (filter P xs) = List.map_filter f xs"
  by (induction xs) (auto simp: List.map_filter_def)

text \<open>The sections hold every row and every label of the menu, in order, and none of them is empty.\<close>

lemma sections_keep_everything:
  "concat (map se_items (sectionsOf items)) = filter is_row items"
  "List.map_filter se_label (sectionsOf items) = List.map_filter label_in items"
  "\<forall>s\<in>set (sectionsOf items). se_items s \<noteq> [] \<or> se_label s \<noteq> None"
proof -
  note all = foldl_add_item_keeps [of "[\<lparr>se_label = None, se_items = []\<rparr>]" items]
  show "concat (map se_items (sectionsOf items)) = filter is_row items"
    using all unfolding sectionsOf_def by (subst filter_keeps_items) simp_all
  show "List.map_filter se_label (sectionsOf items) = List.map_filter label_in items"
    using all unfolding sectionsOf_def by (subst filter_keeps_labels) (simp_all add: List.map_filter_def)
  show "\<forall>s\<in>set (sectionsOf items). se_items s \<noteq> [] \<or> se_label s \<noteq> None"
    by (simp add: sectionsOf_def)
qed

section \<open>One run at a time\<close>

text \<open>An event that starts an operation: the action of the item was called and returned a promise.\<close>

definition result_of :: "menu_event \<Rightarrow> action_result option" where
  "result_of ev = (case ev of ItemSelected _ _ r \<Rightarrow> Some r | PanelKey _ _ _ r \<Rightarrow> Some r | _ \<Rightarrow> None)"

definition starts_run :: "key_platform \<Rightarrow> string \<Rightarrow> menu_state \<Rightarrow> menu_event \<Rightarrow> bool" where
  "starts_run platform i s ev \<longleftrightarrow>
    ActionCalled i \<in> set (snd (menu_step platform s ev)) \<and> result_of ev = Some ReturnedPromise"

definition settles :: "string \<Rightarrow> menu_event \<Rightarrow> bool" where
  "settles i ev = (case ev of ActionSettled j _ \<Rightarrow> j = i | _ \<Rightarrow> False)"

lemma items_setOpen_fields [simp]: "mn_busy (items_setOpen b s) = mn_busy s" "mn_open (items_setOpen b s) = b"
  by (simp_all add: items_setOpen_def Let_def)

lemma close_menu_fields [simp]:
  "mn_busy (fst (close_menu s)) = mn_busy s" "mn_states (fst (close_menu s)) = mn_states s"
  "set (snd (close_menu s)) \<subseteq> {MenuCloses}"
  by (simp_all add: close_menu_def items_setOpen_def Let_def)

lemma close_menu_calls [simp]: "ActionCalled i \<notin> set (snd (close_menu s))"
  by (simp add: close_menu_def)

lemma runAction_busy:
  "i \<in> set (mn_busy (fst (runAction a r s))) \<longleftrightarrow>
    i \<in> set (mn_busy s) \<or> (ActionCalled i \<in> set (snd (runAction a r s)) \<and> r = ReturnedPromise)"
  "ActionCalled i \<in> set (snd (runAction a r s)) \<Longrightarrow> i \<notin> set (mn_busy s)"
  by (cases r; auto simp: runAction_def run_item_def Let_def split_beta split: bool.splits if_splits)+

lemma action_settled_busy:
  "mn_busy (fst (action_settled j r s)) = filter (\<lambda>x. x \<noteq> j) (mn_busy s)"
  "ActionCalled i \<notin> set (snd (action_settled j r s))"
  by (auto simp: action_settled_def Let_def split: option.split)

lemma item_selected_busy:
  "i \<in> set (mn_busy (fst (item_selected level j r s))) \<longleftrightarrow>
    i \<in> set (mn_busy s) \<or> (ActionCalled i \<in> set (snd (item_selected level j r s)) \<and> r = ReturnedPromise)"
  "ActionCalled i \<in> set (snd (item_selected level j r s)) \<Longrightarrow> i \<notin> set (mn_busy s)"
  by (auto simp: item_selected_def runAction_busy split: option.splits)

lemma panel_keydown_busy:
  "i \<in> set (mn_busy (fst (fst (panel_keydown p level e editable r s)))) \<longleftrightarrow>
    i \<in> set (mn_busy s) \<or> (ActionCalled i \<in> set (snd (fst (panel_keydown p level e editable r s))) \<and> r = ReturnedPromise)"
  "ActionCalled i \<in> set (snd (fst (panel_keydown p level e editable r s))) \<Longrightarrow> i \<notin> set (mn_busy s)"
  by (auto simp: panel_keydown_def Let_def runAction_busy split: option.splits menu_item.splits if_splits)

lemma menu_step_busy:
  "i \<in> set (mn_busy (fst (menu_step p s ev))) \<longleftrightarrow> starts_run p i s ev \<or> (i \<in> set (mn_busy s) \<and> \<not> settles i ev)"
  "ActionCalled i \<in> set (snd (menu_step p s ev)) \<Longrightarrow> i \<notin> set (mn_busy s)"
  by (cases ev; auto simp: menu_step_def starts_run_def settles_def result_of_def item_selected_busy panel_keydown_busy
      action_settled_busy)+

definition menu_at :: "key_platform \<Rightarrow> menu_state \<Rightarrow> menu_event list \<Rightarrow> nat \<Rightarrow> menu_state" where
  "menu_at p s es k = foldl (\<lambda>s ev. fst (menu_step p s ev)) s (take k es)"

lemma menu_at_Suc: "k < length es \<Longrightarrow> menu_at p s es (Suc k) = fst (menu_step p (menu_at p s es k) (es ! k))"
  by (simp add: menu_at_def take_Suc_conv_app_nth)

text \<open>A promise settles once, after its action was called.\<close>

definition menu_ok :: "key_platform \<Rightarrow> menu_state \<Rightarrow> menu_event list \<Rightarrow> bool" where
  "menu_ok p s es \<longleftrightarrow>
    list_all (\<lambda>k. case es ! k of ActionSettled i _ \<Rightarrow> i \<in> set (mn_busy (menu_at p s es k)) | _ \<Rightarrow> True) [0..<length es]"

definition runs_started :: "key_platform \<Rightarrow> string \<Rightarrow> menu_state \<Rightarrow> menu_event list \<Rightarrow> nat \<Rightarrow> nat" where
  "runs_started p i s es k = length (filter (\<lambda>n. starts_run p i (menu_at p s es n) (es ! n)) [0..<k])"

definition runs_settled :: "string \<Rightarrow> menu_event list \<Rightarrow> nat \<Rightarrow> nat" where
  "runs_settled i es k = length (filter (settles i) (take k es))"

definition new_menu :: "menu_item list \<Rightarrow> bool \<Rightarrow> menu_state" where
  "new_menu items b = \<lparr>mn_items = items, mn_open = b, mn_states = [], mn_busy = []\<rparr>"

lemma menu_ok_settles:
  "menu_ok p s es \<Longrightarrow> k < length es \<Longrightarrow> settles i (es ! k) \<Longrightarrow> i \<in> set (mn_busy (menu_at p s es k))"
  by (cases "es ! k") (auto simp: menu_ok_def list_all_iff settles_def dest!: bspec [of _ _ k])

lemma runs_balance:
  assumes "menu_ok p (new_menu items b) es"
  shows "k \<le> length es \<Longrightarrow> runs_started p i (new_menu items b) es k =
    runs_settled i es k + (if i \<in> set (mn_busy (menu_at p (new_menu items b) es k)) then 1 else 0)"
proof (induction k)
  case 0
  then show ?case by (simp add: runs_started_def runs_settled_def menu_at_def new_menu_def)
next
  case (Suc k)
  let ?s = "menu_at p (new_menu items b) es k"
  have "k < length es" using Suc.prems by simp
  note busy = menu_step_busy(1) [of i p ?s "es ! k"] and ok = menu_ok_settles [OF assms \<open>k < length es\<close>, of i]
  have no: "starts_run p i ?s (es ! k) \<Longrightarrow> i \<notin> set (mn_busy ?s) \<and> \<not> settles i (es ! k)"
    using menu_step_busy(2) [of i p ?s "es ! k"] ok by (auto simp: starts_run_def)
  show ?case using Suc \<open>k < length es\<close> busy ok no
    by (auto simp: runs_started_def runs_settled_def take_Suc_conv_app_nth menu_at_Suc)
qed

section \<open>What an item shows\<close>

lemma js_get_kept:
  "distinct (js_keys m) \<Longrightarrow> js_get (map (\<lambda>(k, v). (k, f v)) (filter (\<lambda>(k, v). P v) m)) k =
    (case js_get m k of Some v \<Rightarrow> if P v then Some (f v) else None | None \<Rightarrow> None)"
proof (induction m)
  case Nil
  then show ?case by simp
next
  case (Cons kv m)
  have "k \<notin> fst ` set m \<Longrightarrow> js_get m k = None" by (simp add: js_get_def map_of_eq_None_iff)
  with Cons show ?case by (cases kv) (auto simp: js_get_def js_keys_def)
qed

lemma js_keys_kept: "js_keys (map (\<lambda>(k, v). (k, f v)) (filter (\<lambda>(k, v). P v) m)) = map fst (filter (\<lambda>(k, v). P v) m)"
  by (induction m) (auto simp: js_keys_def)

definition states_ok :: "menu_state \<Rightarrow> bool" where
  "states_ok s \<longleftrightarrow> distinct (js_keys (mn_states s)) \<and> (\<forall>i. as_busy (stateOf s i) \<longleftrightarrow> i \<in> set (mn_busy s))"

lemma items_setOpen_states:
  assumes "distinct (js_keys (mn_states s))"
  shows "distinct (js_keys (mn_states (items_setOpen b s)))"
    and "stateOf (items_setOpen b s) i = (if b then \<lparr>as_busy = as_busy (stateOf s i), as_error = None\<rparr> else stateOf s i)"
proof -
  show "distinct (js_keys (mn_states (items_setOpen b s)))"
    using assms distinct_map_filter [of fst "mn_states s"]
    by (simp add: items_setOpen_def Let_def js_keys_kept) (simp add: js_keys_def)
  show "stateOf (items_setOpen b s) i = (if b then \<lparr>as_busy = as_busy (stateOf s i), as_error = None\<rparr> else stateOf s i)"
    using assms by (simp add: items_setOpen_def Let_def stateOf_def js_get_kept IDLE_def split: option.split)
qed

lemma close_menu_stateOf [simp]: "stateOf (fst (close_menu s)) i = stateOf s i"
  by (simp add: stateOf_def)

definition keeps_states :: "menu_state \<Rightarrow> menu_state \<Rightarrow> string \<Rightarrow> bool \<Rightarrow> bool" where
  "keeps_states s s' i started \<longleftrightarrow>
    distinct (js_keys (mn_states s')) \<and>
    stateOf s' i = (if started then \<lparr>as_busy = True, as_error = None\<rparr> else stateOf s i)"

lemma runAction_states:
  "distinct (js_keys (mn_states s)) \<Longrightarrow>
    keeps_states s (fst (runAction a r s)) i (ActionCalled i \<in> set (snd (runAction a r s)) \<and> r = ReturnedPromise)"
  by (cases r)
    (auto simp: runAction_def run_item_def Let_def keeps_states_def split_beta stateOf_def js.distinct_put split: bool.splits if_splits)

lemma keeps_states_same: "distinct (js_keys (mn_states s)) \<Longrightarrow> keeps_states s s i False"
  by (simp add: keeps_states_def)

lemma item_selected_states:
  "distinct (js_keys (mn_states s)) \<Longrightarrow>
    keeps_states s (fst (item_selected level j r s)) i (ActionCalled i \<in> set (snd (item_selected level j r s)) \<and> r = ReturnedPromise)"
  using runAction_states keeps_states_same by (auto simp: item_selected_def split: option.splits)

lemma panel_keydown_states:
  "distinct (js_keys (mn_states s)) \<Longrightarrow>
    keeps_states s (fst (fst (panel_keydown p level e editable r s))) i
      (ActionCalled i \<in> set (snd (fst (panel_keydown p level e editable r s))) \<and> r = ReturnedPromise)"
  using runAction_states keeps_states_same
  by (auto simp: panel_keydown_def Let_def split: option.splits menu_item.splits)

text \<open>What an event writes over the error of an item, if it writes one.\<close>

definition error_write :: "key_platform \<Rightarrow> string \<Rightarrow> menu_state \<Rightarrow> menu_event \<Rightarrow> string option option" where
  "error_write p i s ev =
    (if (ev = ZagOpened \<and> \<not> mn_open s) \<or> starts_run p i s ev then Some None
     else (case ev of
       ActionSettled j r \<Rightarrow>
         if j = i then Some (case r of Some reason \<Rightarrow> if mn_open s then Some (messageOf reason) else None | None \<Rightarrow> None)
         else None
     | _ \<Rightarrow> None))"

lemma menu_step_states:
  assumes "distinct (js_keys (mn_states s))"
  shows "distinct (js_keys (mn_states (fst (menu_step p s ev)))) \<and>
    as_error (stateOf (fst (menu_step p s ev)) i) =
      (case error_write p i s ev of Some w \<Rightarrow> w | None \<Rightarrow> as_error (stateOf s i)) \<and>
    (as_busy (stateOf (fst (menu_step p s ev)) i) \<longleftrightarrow>
      starts_run p i s ev \<or> (as_busy (stateOf s i) \<and> \<not> settles i ev))"
proof (cases ev)
  case (ItemSelected level j r)
  then show ?thesis using item_selected_states [OF assms, of level j r i]
    by (auto simp: menu_step_def starts_run_def settles_def result_of_def error_write_def keeps_states_def)
next
  case (PanelKey level e editable r)
  then show ?thesis using panel_keydown_states [OF assms, of p level e editable r i]
    by (auto simp: menu_step_def starts_run_def settles_def result_of_def error_write_def keeps_states_def)
next
  case (ActionSettled j r)
  then show ?thesis using assms
    by (simp add: menu_step_def action_settled_def Let_def starts_run_def result_of_def settles_def error_write_def stateOf_def
      IDLE_def js.distinct_put close_menu_def items_setOpen_def split: option.split)
qed (use assms items_setOpen_states [OF assms] in
  \<open>auto simp: menu_step_def starts_run_def settles_def result_of_def error_write_def stateOf_def\<close>)

lemma menu_at_states:
  assumes "k \<le> length es"
  shows "distinct (js_keys (mn_states (menu_at p (new_menu items b) es k)))"
  using assms
proof (induction k)
  case 0
  then show ?case by (simp add: menu_at_def new_menu_def)
next
  case (Suc k)
  then show ?case using menu_step_states [of "menu_at p (new_menu items b) es k"] by (simp add: menu_at_Suc)
qed

lemma shown_busy:
  "k \<le> length es \<Longrightarrow> as_busy (stateOf (menu_at p (new_menu items b) es k) i) \<longleftrightarrow>
    i \<in> set (mn_busy (menu_at p (new_menu items b) es k))"
proof (induction k)
  case 0
  then show ?case by (simp add: menu_at_def new_menu_def stateOf_def IDLE_def)
next
  case (Suc k)
  then show ?case
    using menu_step_states [OF menu_at_states [of k es p items b], of p "es ! k" i] menu_step_busy(1) by (simp add: menu_at_Suc)
qed

text \<open>
  C33: A menu's item runs once at a time. Over any history of renders, choices, hotkeys, openings, closings and
  answers, the item shows that it is busy exactly while one more of its runs was started than has settled,
  and its action is called only when none of them is left, through whichever level and in whichever way.
\<close>

theorem menu_item_runs_once:
  assumes "menu_ok p (new_menu items b) es" and "k < length es"
  shows "runs_started p i (new_menu items b) es k =
      runs_settled i es k + (if as_busy (stateOf (menu_at p (new_menu items b) es k) i) then 1 else 0) \<and>
    (ActionCalled i \<in> set (snd (menu_step p (menu_at p (new_menu items b) es k) (es ! k))) \<longrightarrow>
      runs_started p i (new_menu items b) es k = runs_settled i es k)"
proof -
  have "k \<le> length es" using assms(2) by simp
  note balance = runs_balance [OF assms(1) this, of i] and shown = shown_busy [OF this, of p items b i]
  show ?thesis
    using balance shown menu_step_busy(2) [of i p "menu_at p (new_menu items b) es k" "es ! k"] by auto
qed

definition archive_item :: action_item where
  "archive_item = \<lparr>ai_id = ''archive'', ai_label = ''Archive'', ai_icon = True, ai_keys = Some ''e'', ai_disabled = None,
    ai_href = None, ai_onSelect = True\<rparr>"

definition press_e :: key_event where
  "press_e = \<lparr>ke_key = ''e'', ke_code = Some ''KeyE'', ke_meta = False, ke_ctrl = False, ke_alt = False, ke_shift = False\<rparr>"

definition archive_twice :: "menu_event list" where
  "archive_twice = [ZagOpened, ItemSelected None ''archive'' ReturnedPromise, PanelKey None press_e False ReturnedPromise,
    ActionSettled ''archive'' (Some (ErrorReason ''offline'')), PanelKey None press_e False ReturnedPromise]"

theorem menu_item_runs_once_witness:
  "runs_started PlatformOther ''archive'' (new_menu [MenuAction archive_item] False) archive_twice 3 = 1 \<and>
   runs_settled ''archive'' archive_twice 3 = 0 \<and>
   runs_started PlatformOther ''archive'' (new_menu [MenuAction archive_item] False) archive_twice 4 =
    runs_settled ''archive'' archive_twice 4"
proof -
  have "menu_ok PlatformOther (new_menu [MenuAction archive_item] False) archive_twice" by code_simp
  moreover have "length archive_twice = 5" by (simp add: archive_twice_def)
  moreover have "as_busy (stateOf (menu_at PlatformOther (new_menu [MenuAction archive_item] False) archive_twice 3) ''archive'')"
    by code_simp
  moreover have "ActionCalled ''archive'' \<in> set (snd (menu_step PlatformOther
      (menu_at PlatformOther (new_menu [MenuAction archive_item] False) archive_twice 4) (archive_twice ! 4)))"
    by code_simp
  moreover have "runs_settled ''archive'' archive_twice 3 = 0" by code_simp
  ultimately show ?thesis
    using menu_item_runs_once [of PlatformOther "[MenuAction archive_item]" False archive_twice 3 "''archive''"]
      menu_item_runs_once [of PlatformOther "[MenuAction archive_item]" False archive_twice 4 "''archive''"]
    by simp
qed

text \<open>
  The error of an item: the last of its runs failed while the menu was open, and since then the menu has not
  been opened and the item has not been tried again.
\<close>

theorem menu_error_until_retried:
  assumes "k \<le> length es"
  shows "as_error (stateOf (menu_at p (new_menu items b) es k) i) = Some m \<longleftrightarrow>
    (\<exists>n<k. error_write p i (menu_at p (new_menu items b) es n) (es ! n) = Some (Some m) \<and>
      (\<forall>j. n < j \<and> j < k \<longrightarrow> error_write p i (menu_at p (new_menu items b) es j) (es ! j) = None))"
proof (rule last_write [where z = None and m = "length es", OF _ _ _ assms])
  show "as_error (stateOf (menu_at p (new_menu items b) es 0) i) = None"
    by (simp add: menu_at_def new_menu_def stateOf_def IDLE_def)
next
  fix k
  assume "k < length es"
  then show "as_error (stateOf (menu_at p (new_menu items b) es (Suc k)) i) =
      (case error_write p i (menu_at p (new_menu items b) es k) (es ! k) of
        Some x \<Rightarrow> x | None \<Rightarrow> as_error (stateOf (menu_at p (new_menu items b) es k) i))"
    using menu_step_states [OF menu_at_states [of k es p items b], of p "es ! k" i] by (simp add: menu_at_Suc)
qed simp

lemma menu_closed_error: "\<not> mn_open s \<Longrightarrow> as_error (stateOf (fst (action_settled i (Some r) s)) i) = None"
  by (simp add: action_settled_def Let_def stateOf_def)

text \<open>The success of an operation closes the menu that is open then, whichever it was when the operation began.\<close>

lemma success_closes_reopened:
  "mn_open s \<Longrightarrow> snd (menu_step p s (ActionSettled i None)) = [MenuCloses] \<and> \<not> mn_open (fst (menu_step p s (ActionSettled i None)))"
  by (simp add: menu_step_def action_settled_def Let_def close_menu_def)

text \<open>The hotkey of a link item is taken from everyone else, and opens nothing.\<close>

lemma link_hotkey_dead:
  assumes "itemForKeys p (level_items level (mn_items s)) e editable = Some (MenuAction a)" and "ai_href a \<noteq> None"
  shows "panel_keydown p level e editable r s = ((s, []), True)"
  using assms by (simp add: panel_keydown_def Let_def runAction_def)

section \<open>The filter's cursor\<close>

lemma find_first: "find P xs = Some x \<Longrightarrow> \<exists>before rest. xs = before @ x # rest \<and> P x \<and> (\<forall>y\<in>set before. \<not> P y)"
  unfolding find_Some_iff
proof (elim exE conjE)
  fix i
  assume "i < length xs" "P (xs ! i)" "x = xs ! i" "\<forall>j<i. \<not> P (xs ! j)"
  then show "\<exists>before rest. xs = before @ x # rest \<and> P x \<and> (\<forall>y\<in>set before. \<not> P y)"
    by (intro exI [of _ "take i xs"] exI [of _ "drop (Suc i) xs"]) (auto simp: id_take_nth_drop in_set_conv_nth)
qed

text \<open>Typing into the filter puts the cursor on the first row left that can be chosen.\<close>

lemma filter_cursor_first:
  assumes "filtering g" and "filter_typed g v = Some opt"
  shows "\<exists>before rest. radio_options g v = before @ opt # rest \<and> ro_disabled opt = None \<and>
    (\<forall>x\<in>set before. ro_disabled x \<noteq> None)"
proof -
  have "find (\<lambda>opt. ro_disabled opt = None) (radio_options g v) = Some opt"
    using assms by (simp add: filter_typed_def radio_options_def)
  then show ?thesis using find_first by fastforce
qed

section \<open>Where the focus goes back\<close>

lemma keyboard_menu_returns_focus:
  "isMenuKey e \<Longrightarrow> focus_back (context_keydown False e element left bottom s) = Some element"
  "focus_back (openAt anchor left bottom returnFocusTo s) = Some (case returnFocusTo of Some x \<Rightarrow> x | None \<Rightarrow> anchor)"
  "focus_back (on_context_menu False x y element s) = None"
  by (simp_all add: focus_back_def context_keydown_def openAt_def on_context_menu_def ask_menu_def cornerOf_def)

end
