(* ===== verification/Sidebar_View.thy ===== *)
theory Sidebar_View
  imports Menus Workspaces Upload_Types
begin

text \<open>
  The sidebar (\<open>widgets/Layout/Sidebar\<close>, \<open>shared/ui/NavItem\<close>) and what the layout gives it (\<open>widgets/Layout/Layout.tsx\<close>): the
  items of the workspace menu, counts and names, the focus that stays on what it was on when the sidebar
  collapses to the rail, and the keys. Icons and avatars are not modelled: \<open>ro_icon\<close> and \<open>ai_icon\<close> say whether there
  is one.
\<close>

section \<open>Counts\<close>

definition MAX_COUNT :: nat where
  "MAX_COUNT = 99"

definition countText :: "nat \<Rightarrow> string" where
  "countText n = (if MAX_COUNT < n then dec_digits MAX_COUNT @ ''+'' else dec_digits n)"

definition unreadText :: "nat \<Rightarrow> string" where
  "unreadText n = countText n @ '' unread''"

section \<open>The workspace menu\<close>

definition joinGroups :: "menu_item list list \<Rightarrow> menu_item list" where
  "joinGroups gs =
    (let full = filter (\<lambda>g. g \<noteq> []) gs
     in concat (map (\<lambda>(i, g). if i = 0 then g else MenuSeparator # g) (zip [0..<length full] full)))"

record sidebar_user =
  su_id :: string
  su_name :: string
  su_email :: "string option"
  su_avatarUrl :: "string option"

text \<open>\<open>sw_onOpenSettings\<close>, \<open>sw_onInvite\<close> and \<open>sw_onNewWorkspace\<close>: whether there is one.\<close>

record switcher =
  sw_workspace :: "workspace option"
  sw_workspaces :: "workspace list"
  sw_user :: sidebar_user
  sw_unread :: "(string, nat) js_map option"
  sw_canSettings :: bool
  sw_canInvite :: bool
  sw_onOpenSettings :: bool
  sw_onInvite :: bool
  sw_onNewWorkspace :: bool

definition switch_action :: "string \<Rightarrow> string \<Rightarrow> string option \<Rightarrow> menu_item" where
  "switch_action i label keys =
    MenuAction \<lparr>ai_id = i, ai_label = label, ai_icon = False, ai_keys = keys, ai_disabled = None, ai_href = None,
      ai_onSelect = True\<rparr>"

definition switch_option :: "switcher \<Rightarrow> workspace \<Rightarrow> workspace \<Rightarrow> radio_option" where
  "switch_option s current w =
    (let unread =
      (if wk_id w = wk_id current then 0
       else case sw_unread s of None \<Rightarrow> 0 | Some m \<Rightarrow> (case js_get m (wk_id w) of None \<Rightarrow> 0 | Some n \<Rightarrow> n))
     in \<lparr>ro_value = wk_id w, ro_label = wk_name w, ro_icon = True, ro_disabled = None,
         ro_dot = (if 0 < unread then Some (unreadText unread) else None)\<rparr>)"

definition switch_to :: "switcher \<Rightarrow> workspace \<Rightarrow> menu_item" where
  "switch_to s current =
    MenuRadioGroup \<lparr>rg_id = ''workspaces'', rg_label = Some ''Workspaces'', rg_value = Some (wk_id current),
      rg_options = map (switch_option s current) (sw_workspaces s), rg_filterable = True\<rparr>"

definition switcher_groups :: "switcher \<Rightarrow> workspace \<Rightarrow> menu_item list list" where
  "switcher_groups s current =
    [switch_to s current #
       (if sw_canSettings s \<and> sw_onNewWorkspace s then [switch_action ''new-workspace'' ''New workspace'' None] else []),
     (if sw_canSettings s \<and> sw_onOpenSettings s then [switch_action ''workspace-settings'' ''Workspace settings'' None] else []) @
     (if sw_canInvite s \<and> sw_onInvite s then [switch_action ''invite'' ''Invite members'' None] else []),
     [MenuLabel (su_name (sw_user s))] @
     (if sw_onOpenSettings s
      then [switch_action ''profile'' ''Profile'' None, switch_action ''preferences'' ''Preferences'' (Some ''g ,'')] else []) @
     [switch_action ''sign-out'' ''Sign out'' None]]"

definition switcher_items :: "switcher \<Rightarrow> workspace \<Rightarrow> menu_item list" where
  "switcher_items s current = joinGroups (switcher_groups s current)"

text \<open>While the workspace loads there is a skeleton and no menu.\<close>

definition switcher_menu :: "switcher \<Rightarrow> menu_item list option" where
  "switcher_menu s = map_option (switcher_items s) (sw_workspace s)"

section \<open>A row of the sidebar\<close>

record nav_item =
  nv_label :: string
  nv_count :: nat
  nv_dot :: bool

definition nav_name :: "nav_item \<Rightarrow> string option" where
  "nav_name n =
    (if 0 < nv_count n then Some (nv_label n @ '', '' @ dec_digits (nv_count n) @ '' unread'')
     else if nv_dot n then Some (nv_label n @ '', updated'') else None)"

text \<open>What marks it: on the rail a dot, in a row the count or a dot.\<close>

datatype nav_mark = NoMark | DotMark | CountMark string

definition nav_mark :: "bool \<Rightarrow> nav_item \<Rightarrow> nav_mark" where
  "nav_mark rail n =
    (if rail then (if 0 < nv_count n \<or> nv_dot n then DotMark else NoMark)
     else if 0 < nv_count n then CountMark (countText (nv_count n))
     else if nv_dot n then DotMark else NoMark)"

text \<open>The rail's tooltip; the middle dot is written as the separator between label and count.\<close>

definition nav_tooltip :: "string \<Rightarrow> nav_item \<Rightarrow> string" where
  "nav_tooltip middot n =
    (if 0 < nv_count n then nv_label n @ middot @ countText (nv_count n) @ '' unread'' else nv_label n)"

section \<open>Focus across collapsing\<close>

text \<open>An element by its \<open>href\<close> and \<open>data-sidebar-key\<close>; \<open>last_focus\<close> is the ref \<open>lastFocus\<close>.\<close>

record sidebar_element =
  sl_href :: "string option"
  sl_sidebarKey :: "string option"

definition keyOf :: "sidebar_element \<Rightarrow> string option" where
  "keyOf e = (case sl_href e of Some h \<Rightarrow> Some h | None \<Rightarrow> sl_sidebarKey e)"

record last_focus =
  lf_inside :: bool
  lf_key :: "string option"

definition no_focus :: last_focus where
  "no_focus = \<lparr>lf_inside = False, lf_key = None\<rparr>"

datatype sidebar_event = SidebarFocus sidebar_element | SidebarBlur bool

text \<open>A blur says whether focus goes on inside.\<close>

definition focus_step :: "last_focus \<Rightarrow> sidebar_event \<Rightarrow> last_focus" where
  "focus_step s e =
    (case e of
      SidebarFocus el \<Rightarrow> \<lparr>lf_inside = True, lf_key = keyOf el\<rparr>
    | SidebarBlur inside \<Rightarrow> if inside then s else no_focus)"

datatype refocus = FocusStays | FocusAt sidebar_element | FocusToggle

text \<open>The effect of another view: \<open>els\<close> are the elements now in the DOM in order, \<open>active\<close> whether focus is inside.\<close>

definition view_changed :: "sidebar_element list \<Rightarrow> bool \<Rightarrow> last_focus \<Rightarrow> refocus" where
  "view_changed els active s =
    (if \<not> lf_inside s \<or> active then FocusStays
     else case (if truthy (lf_key s)
                then find (\<lambda>e. keyOf e = lf_key s) (filter (\<lambda>e. sl_href e \<noteq> None \<or> sl_sidebarKey e \<noteq> None) els) else None) of
       Some e \<Rightarrow> FocusAt e
     | None \<Rightarrow> FocusToggle)"

section \<open>Keys\<close>

definition SIDEBAR_TOGGLE_KEYS :: string where
  "SIDEBAR_TOGGLE_KEYS = ''mod+'' @ [CHR 0x5C]"

definition INBOX_KEYS :: string where
  "INBOX_KEYS = ''g i''"

definition TOGGLE_WITH_META :: hotkey_handler_config where
  "TOGGLE_WITH_META = \<lparr>hk_key = [CHR 0x5C], hk_shift = False, hk_ctrl = False, hk_alt = False, hk_meta = True, hk_chord = None\<rparr>"

definition TOGGLE_WITH_CTRL :: hotkey_handler_config where
  "TOGGLE_WITH_CTRL = TOGGLE_WITH_META\<lparr>hk_meta := False, hk_ctrl := True\<rparr>"

definition OPEN_INBOX :: hotkey_handler_config where
  "OPEN_INBOX = \<lparr>hk_key = ''i'', hk_shift = False, hk_ctrl = False, hk_alt = False, hk_meta = False,
    hk_chord = Some \<lparr>hk_key = ''g'', hk_shift = False, hk_ctrl = False, hk_alt = False, hk_meta = False\<rparr>\<rparr>"

text \<open>\<open>useSidebarHotkeys\<close>: three registrations, numbered as the callers give them.\<close>

definition sidebar_hotkeys :: "nat \<Rightarrow> nat \<Rightarrow> nat \<Rightarrow> hotkeys_state \<Rightarrow> hotkeys_state" where
  "sidebar_hotkeys m c i s =
    registerHotkey (OneKey (getHotkeyCombinationString OPEN_INBOX)) i
      (registerHotkey (OneKey (getHotkeyCombinationString TOGGLE_WITH_CTRL)) c
        (registerHotkey (OneKey (getHotkeyCombinationString TOGGLE_WITH_META)) m s))"

section \<open>What the layout gives it\<close>

record profile =
  pf_sub :: "string option"
  pf_name :: "string option"
  pf_preferred_username :: "string option"
  pf_email :: "string option"
  pf_picture :: "string option"

definition signed_in_user :: "profile option \<Rightarrow> sidebar_user" where
  "signed_in_user p =
    (let get = (\<lambda>f. case p of None \<Rightarrow> None | Some q \<Rightarrow> f q);
         or = (\<lambda>a b. if truthy a then the a else b)
     in \<lparr>su_id = (case get pf_sub of None \<Rightarrow> '''' | Some i \<Rightarrow> i),
         su_name = or (get pf_name) (or (get pf_preferred_username) (or (get pf_email) ''Account'')),
         su_email = get pf_email, su_avatarUrl = get pf_picture\<rparr>)"

record inbox_summary =
  is_byWorkspace :: "(string, nat) js_map"
  is_accountUnread :: nat

record workspace_me =
  me_isOwner :: bool
  me_roles :: "string list"
  me_capabilities :: "(string, bool) js_map"

definition capability :: "workspace_me option \<Rightarrow> string \<Rightarrow> bool" where
  "capability me c = (case me of None \<Rightarrow> False | Some m \<Rightarrow> (case js_get (me_capabilities m) c of None \<Rightarrow> False | Some b \<Rightarrow> b))"

definition inbox_unread :: "inbox_summary option \<Rightarrow> string option \<Rightarrow> nat option" where
  "inbox_unread summary workspaceId =
    (case (summary, workspaceId) of
      (Some s, Some i) \<Rightarrow> Some ((case js_get (is_byWorkspace s) i of None \<Rightarrow> 0 | Some n \<Rightarrow> n) + is_accountUnread s)
    | _ \<Rightarrow> None)"

definition open_workspace :: "workspace list \<Rightarrow> string \<Rightarrow> string option" where
  "open_workspace ws i = map_option wk_slug (find (\<lambda>w. wk_id w = i) ws)"

definition layout_switcher ::
  "workspace option \<Rightarrow> workspace list \<Rightarrow> profile option \<Rightarrow> inbox_summary option \<Rightarrow> workspace_me option \<Rightarrow> switcher" where
  "layout_switcher w ws p summary me =
    \<lparr>sw_workspace = w, sw_workspaces = live_workspaces ws, sw_user = signed_in_user p,
     sw_unread = map_option is_byWorkspace summary,
     sw_canSettings = (case me of None \<Rightarrow> False | Some m \<Rightarrow> me_isOwner m \<or> me_roles m \<noteq> []),
     sw_canInvite = capability me ''members.invite'',
     sw_onOpenSettings = False, sw_onInvite = False, sw_onNewWorkspace = False\<rparr>"

datatype layout_shown = ShowOutlet | ShowWorkspaceError retry_what | ShowBlank

definition layout_canvas :: "resolved_ws \<Rightarrow> layout_shown" where
  "layout_canvas r =
    (case r of WsFound _ \<Rightarrow> ShowOutlet | WsError what \<Rightarrow> ShowWorkspaceError what | _ \<Rightarrow> ShowBlank)"

section \<open>The menu's sections\<close>

text \<open>A group of the menu: rows, with at most one label, at its head.\<close>

definition group_section :: "menu_item list \<Rightarrow> menu_section" where
  "group_section g =
    (case g of
      MenuLabel l # r \<Rightarrow> \<lparr>se_label = Some l, se_items = r\<rparr>
    | _ \<Rightarrow> \<lparr>se_label = None, se_items = g\<rparr>)"

definition group_ok :: "menu_item list \<Rightarrow> bool" where
  "group_ok g \<longleftrightarrow> list_all is_row (se_items (group_section g))"

lemma add_rows:
  "list_all is_row rows \<Longrightarrow>
    foldl add_item (acc @ [\<lparr>se_label = l, se_items = xs\<rparr>]) rows = acc @ [\<lparr>se_label = l, se_items = xs @ rows\<rparr>]"
proof (induction rows arbitrary: xs)
  case Nil
  then show ?case by simp
next
  case (Cons r rows)
  then have "add_item (acc @ [\<lparr>se_label = l, se_items = xs\<rparr>]) r = acc @ [\<lparr>se_label = l, se_items = xs @ [r]\<rparr>]"
    by (cases r) (simp_all add: add_item_def is_row_def Let_def)
  then show ?case using Cons by simp
qed

lemma add_group:
  assumes "group_ok g"
  shows "foldl add_item (acc @ [\<lparr>se_label = None, se_items = []\<rparr>]) g = acc @ [group_section g]"
proof (cases g)
  case Nil
  then show ?thesis by (simp add: group_section_def)
next
  case (Cons m r)
  show ?thesis
  proof (cases "\<exists>l. m = MenuLabel l")
    case True
    then obtain l where l: "m = MenuLabel l" by blast
    then have "list_all is_row r" using assms Cons by (simp add: group_ok_def group_section_def)
    then show ?thesis using add_rows [of r acc "Some l" "[]"] Cons l by (simp add: add_item_def group_section_def Let_def)
  next
    case False
    then have sec: "group_section g = \<lparr>se_label = None, se_items = g\<rparr>"
      using Cons by (cases m) (simp_all add: group_section_def)
    then have "list_all is_row g" using assms by (simp add: group_ok_def)
    then show ?thesis using add_rows [of g acc None "[]"] sec by simp
  qed
qed

lemma joinGroups_simps:
  "joinGroups [] = []"
  "joinGroups (g # gs) =
    (if g = [] then joinGroups gs else g @ concat (map (\<lambda>h. MenuSeparator # h) (filter (\<lambda>g. g \<noteq> []) gs)))"
proof -
  have tail: "concat (map (\<lambda>(i, g). if i = 0 then g else MenuSeparator # g) (zip [Suc k..<Suc k + length hs] hs)) =
      concat (map (\<lambda>h. MenuSeparator # h) hs)" for k and hs :: "menu_item list list"
  proof (induction hs arbitrary: k)
    case Nil
    then show ?case by simp
  next
    case (Cons h hs)
    have "[Suc k..<Suc k + length (h # hs)] = Suc k # [Suc (Suc k)..<Suc (Suc k) + length hs]"
      by (simp add: upt_rec)
    then show ?case using Cons.IH [of "Suc k"] by (simp del: upt_Suc)
  qed
  show "joinGroups [] = []" by (simp add: joinGroups_def)
  have "[0..<length (g # filter (\<lambda>g. g \<noteq> []) gs)] = 0 # [Suc 0..<Suc 0 + length (filter (\<lambda>g. g \<noteq> []) gs)]"
    by (simp add: upt_conv_Cons del: upt_Suc)
  then show "joinGroups (g # gs) =
      (if g = [] then joinGroups gs else g @ concat (map (\<lambda>h. MenuSeparator # h) (filter (\<lambda>g. g \<noteq> []) gs)))"
    using tail [of 0] by (simp add: joinGroups_def Let_def)
qed

lemma sections_of_rest:
  assumes "list_all group_ok gs"
  shows "foldl add_item (acc @ [s]) (concat (map (\<lambda>h. MenuSeparator # h) gs)) = acc @ s # map group_section gs"
  using assms
proof (induction gs arbitrary: acc s)
  case Nil
  then show ?case by simp
next
  case (Cons g gs)
  have "foldl add_item (acc @ [s]) (MenuSeparator # g) = (acc @ [s]) @ [group_section g]"
    using add_group [of g "acc @ [s]"] Cons.prems by (simp add: add_item_def Let_def)
  then show ?case using Cons.IH [of "acc @ [s]" "group_section g"] Cons.prems by simp
qed

text \<open>What is joined is taken apart again: the panel's sections are the groups, without the empty ones.\<close>

lemma joined_sections:
  assumes "list_all group_ok gs"
  shows "sectionsOf (joinGroups gs) = map group_section (filter (\<lambda>g. g \<noteq> []) gs)"
  using assms
proof (induction gs)
  case Nil
  then show ?case by (simp add: joinGroups_simps sectionsOf_def)
next
  case (Cons g gs)
  show ?case
  proof (cases "g = []")
    case True
    then show ?thesis using Cons by (simp add: joinGroups_simps)
  next
    case False
    have some: "h \<noteq> [] \<Longrightarrow> se_items (group_section h) \<noteq> [] \<or> se_label (group_section h) \<noteq> None" for h
      by (cases h) (auto simp: group_section_def split: menu_item.split)
    have rest: "list_all group_ok (filter (\<lambda>g. g \<noteq> []) gs)" using Cons.prems by (auto simp: list_all_iff)
    have "foldl add_item [\<lparr>se_label = None, se_items = []\<rparr>] (joinGroups (g # gs)) =
        group_section g # map group_section (filter (\<lambda>g. g \<noteq> []) gs)"
      using add_group [of g "[]"] sections_of_rest [OF rest, of "[]"] Cons.prems False by (simp add: joinGroups_simps)
    moreover have "filter (\<lambda>s. se_items s \<noteq> [] \<or> se_label s \<noteq> None) (map group_section (filter (\<lambda>g. g \<noteq> []) (g # gs))) =
        map group_section (filter (\<lambda>g. g \<noteq> []) (g # gs))"
      by (rule filter_True) (use some in auto)
    ultimately show ?thesis using False by (simp add: sectionsOf_def)
  qed
qed


lemma switcher_sections:
  "sectionsOf (switcher_items s w) = map group_section (filter (\<lambda>g. g \<noteq> []) (switcher_groups s w))"
proof -
  have "list_all group_ok (switcher_groups s w)"
    by (auto simp: switcher_groups_def group_ok_def group_section_def switch_action_def switch_to_def is_row_def)
  then show ?thesis unfolding switcher_items_def by (rule joined_sections)
qed

text \<open>The choice of workspaces is always there, and the way out is always the last row.\<close>

lemma switcher_ends:
  "hd (switcher_items s w) = switch_to s w"
  "last (switcher_items s w) = switch_action ''sign-out'' ''Sign out'' None"
  by (simp_all add: switcher_items_def switcher_groups_def joinGroups_simps)

section \<open>Switching opens the workspace\<close>

definition switch_options :: "switcher \<Rightarrow> workspace \<Rightarrow> radio_option list" where
  "switch_options s w = (case switch_to s w of MenuRadioGroup g \<Rightarrow> rg_options g | _ \<Rightarrow> [])"

lemma unread_dot:
  "ro_dot (switch_option s w v) \<noteq> None \<longleftrightarrow>
    wk_id v \<noteq> wk_id w \<and> (\<exists>m n. sw_unread s = Some m \<and> js_get m (wk_id v) = Some n \<and> 0 < n)"
  by (auto simp: switch_option_def Let_def split: option.splits)

text \<open>
  The workspace menu does what it shows. With the list the layout has, ids and slugs distinct: the menu offers
  exactly the workspaces that are not deleted, each once and in the order of the list; choosing one goes to its own
  slug, at which the layout finds that very workspace; and a dot stands at the others that have something unread,
  never at the current one.
\<close>

theorem workspace_menu_opens:
  assumes "lq_data l = Some ws" and "distinct (map wk_id ws)" and "distinct (map wk_slug ws)"
    and "s = layout_switcher (Some w) ws p summary me"
  shows "map ro_value (switch_options s w) = map wk_id (filter (\<lambda>v. \<not> truthy (wk_deletedAt v)) ws) \<and>
    (\<forall>opt\<in>set (switch_options s w). \<exists>v\<in>set ws. ro_value opt = wk_id v \<and> ro_label opt = wk_name v \<and>
      open_workspace ws (ro_value opt) = Some (wk_slug v) \<and> (\<forall>q. resolve_status (wk_slug v) l q = WsFound v) \<and>
      (ro_dot opt \<noteq> None \<longleftrightarrow>
        wk_id v \<noteq> wk_id w \<and> (\<exists>sm n. summary = Some sm \<and> js_get (is_byWorkspace sm) (wk_id v) = Some n \<and> 0 < n)))"
proof (intro conjI ballI)
  have opts: "switch_options s w = map (switch_option s w) (live_workspaces ws)"
    by (simp add: switch_options_def switch_to_def assms(4) layout_switcher_def)
  then show "map ro_value (switch_options s w) = map wk_id (filter (\<lambda>v. \<not> truthy (wk_deletedAt v)) ws)"
    by (simp add: live_workspaces_def switch_option_def Let_def)
  fix opt assume "opt \<in> set (switch_options s w)"
  then obtain v where v: "opt = switch_option s w v" "v \<in> set ws" using opts by (auto simp: live_workspaces_def)
  then have opt: "ro_value opt = wk_id v" "ro_label opt = wk_name v" by (simp_all add: switch_option_def Let_def)
  obtain x where x: "find (\<lambda>u. wk_id u = wk_id v) ws = Some x"
    using v(2) by (cases "find (\<lambda>u. wk_id u = wk_id v) ws") (auto simp: find_None_iff)
  then have "x = v" using found_mem [OF x] v(2) assms(2) by (auto simp: distinct_map inj_on_def)
  then have "open_workspace ws (ro_value opt) = Some (wk_slug v)" using x opt by (simp add: open_workspace_def)
  moreover have "resolve_status (wk_slug v) l q = WsFound v" for q
    using by_slug [OF assms(1,3) v(2)] by (simp add: resolve_status_def)
  moreover have "ro_dot opt \<noteq> None \<longleftrightarrow>
      wk_id v \<noteq> wk_id w \<and> (\<exists>sm n. summary = Some sm \<and> js_get (is_byWorkspace sm) (wk_id v) = Some n \<and> 0 < n)"
    unfolding v(1) unread_dot by (cases summary) (auto simp: assms(4) layout_switcher_def)
  ultimately show "\<exists>v\<in>set ws. ro_value opt = wk_id v \<and> ro_label opt = wk_name v \<and>
      open_workspace ws (ro_value opt) = Some (wk_slug v) \<and> (\<forall>q. resolve_status (wk_slug v) l q = WsFound v) \<and>
      (ro_dot opt \<noteq> None \<longleftrightarrow>
        wk_id v \<noteq> wk_id w \<and> (\<exists>sm n. summary = Some sm \<and> js_get (is_byWorkspace sm) (wk_id v) = Some n \<and> 0 < n))"
    using v(2) opt by blast
qed

definition menu_of_two :: switcher where
  "menu_of_two = layout_switcher (Some (two_workspaces ! 1)) two_workspaces None None None"

theorem workspace_menu_opens_witness:
  "map ro_value (switch_options menu_of_two (two_workspaces ! 1)) = [''2'']"
proof -
  have "lq_data old_slug_list = Some two_workspaces" "distinct (map wk_id two_workspaces)" "distinct (map wk_slug two_workspaces)"
    by code_simp+
  note opens = workspace_menu_opens [OF this menu_of_two_def, THEN conjunct1]
  have "map wk_id (filter (\<lambda>v. \<not> truthy (wk_deletedAt v)) two_workspaces) = [''2'']" by code_simp
  then show ?thesis using opens by simp
qed

section \<open>Counts stay short\<close>

lemma dec_digits_short: "n < 10 \<Longrightarrow> length (dec_digits n) = 1" "10 \<le> n \<Longrightarrow> n < 100 \<Longrightarrow> length (dec_digits n) = 2"
  by (simp_all add: dec_digits.simps)

lemma count_short: "length (countText n) \<le> 3"
proof -
  have "length (dec_digits n) \<le> 2" if "n < 100" using that dec_digits_short [of n] by (cases "n < 10") simp_all
  then show ?thesis using dec_digits_short(2) [of 99] by (auto simp: countText_def MAX_COUNT_def)
qed

text \<open>A row is marked on the rail exactly when it is marked in the full view, and then it says so.\<close>

lemma nav_marked: "nav_mark True n \<noteq> NoMark \<longleftrightarrow> nav_mark False n \<noteq> NoMark" "nav_mark True n \<noteq> NoMark \<longleftrightarrow> nav_name n \<noteq> None"
  by (simp_all add: nav_mark_def nav_name_def)

section \<open>Focus follows\<close>

definition focus_after :: "sidebar_event list \<Rightarrow> last_focus" where
  "focus_after es = foldl focus_step no_focus es"

lemma focus_after_snoc: "focus_after (es @ [e]) = focus_step (focus_after es) e"
  by (simp add: focus_after_def)

lemma focus_inside_kept: "list_all (\<lambda>e. e = SidebarBlur True) es \<Longrightarrow> foldl focus_step s es = s"
  by (induction es) (simp_all add: focus_step_def)

text \<open>
  Collapsing and expanding: focus that was in the sidebar and went with its element is put on the element with
  the same key in the other view, or on the toggle, which both views have; focus that was elsewhere is not taken.
\<close>

theorem sidebar_focus_follows:
  assumes "focus_after (before @ [SidebarFocus el] @ inner) = s" and "list_all (\<lambda>e. e = SidebarBlur True) inner"
  shows "view_changed els True s = FocusStays"
    and "truthy (keyOf el) \<Longrightarrow> e \<in> set els \<Longrightarrow> keyOf e = keyOf el \<Longrightarrow> \<exists>e'\<in>set els. keyOf e' = keyOf el \<and> view_changed els False s = FocusAt e'"
    and "\<forall>e\<in>set els. keyOf e \<noteq> keyOf el \<Longrightarrow> view_changed els False s = FocusToggle"
    and "view_changed els a (focus_step s (SidebarBlur False)) = FocusStays"
proof -
  have s: "s = \<lparr>lf_inside = True, lf_key = keyOf el\<rparr>"
    using assms focus_inside_kept [of inner] by (simp add: focus_after_def focus_step_def)
  show "view_changed els True s = FocusStays" by (simp add: view_changed_def)
  let ?shown = "filter (\<lambda>e. sl_href e \<noteq> None \<or> sl_sidebarKey e \<noteq> None) els"
  show "\<exists>e'\<in>set els. keyOf e' = keyOf el \<and> view_changed els False s = FocusAt e'"
    if key: "truthy (keyOf el)" and e: "e \<in> set els" "keyOf e = keyOf el"
  proof -
    have "keyOf e \<noteq> None" using e key by (cases "keyOf el") simp_all
    then have "e \<in> set ?shown" using e(1) by (auto simp: keyOf_def split: option.split_asm)
    then obtain e' where e': "find (\<lambda>e. keyOf e = keyOf el) ?shown = Some e'"
      using e(2) by (cases "find (\<lambda>e. keyOf e = keyOf el) ?shown") (auto simp: find_None_iff)
    then show ?thesis using found_mem [OF e'] key s by (intro bexI [of _ e']) (auto simp: view_changed_def)
  qed
  show "view_changed els False s = FocusToggle" if "\<forall>e\<in>set els. keyOf e \<noteq> keyOf el"
  proof -
    have "find (\<lambda>e. keyOf e = keyOf el) ?shown = None" using that by (auto simp: find_None_iff)
    then show ?thesis using s by (simp add: view_changed_def)
  qed
  show "view_changed els a (focus_step s (SidebarBlur False)) = FocusStays"
    by (simp add: view_changed_def focus_step_def no_focus_def)
qed

section \<open>The keys shown are the keys registered\<close>

lemma lower_backslash: "lower_char c = CHR 0x5C \<Longrightarrow> c = CHR 0x5C"
proof -
  assume "lower_char c = CHR 0x5C"
  then have "char_code (lower_char c) = 92" by (simp add: char_code_def)
  then have "char_code c = 92"
    by (auto simp: lower_char_def Let_def char_code_def split: if_split_asm)
  then have "char_of (char_code c) = (char_of (92 :: nat) :: char)" by simp
  moreover have "char_of (92 :: nat) = CHR 0x5C" by code_simp
  ultimately show ?thesis by (simp add: char_code_def)
qed

definition platform_toggle :: "key_platform \<Rightarrow> hotkey_handler_config" where
  "platform_toggle p = (if p = PlatformMac then TOGGLE_WITH_META else TOGGLE_WITH_CTRL)"

text \<open>Whatever key event matches the keys the button shows on a platform is the one its handler is registered for there.\<close>

lemma toggle_keys_registered:
  assumes "matchKeys SIDEBAR_TOGGLE_KEYS e p"
  shows "getEventHotkeyString e = getHotkeyCombinationString (platform_toggle p)"
proof -
  let ?flag = "if p = PlatformMac then FlagMeta else FlagCtrl"
  have "parseKeys SIDEBAR_TOGGLE_KEYS = [[''mod'', [CHR 0x5C]]]" by code_simp
  moreover have "foldl (wanted_token p) \<lparr>wk_flags = [], wk_key = None\<rparr> [''mod'', [CHR 0x5C]] =
      \<lparr>wk_flags = [?flag], wk_key = Some [CHR 0x5C]\<rparr>" by (cases p) code_simp+
  ultimately have keys: "to_lower (latinKey (ke_key e) (ke_code e)) = [CHR 0x5C]" "ke_meta e = (?flag = FlagMeta)"
      "ke_ctrl e = (?flag = FlagCtrl)" "\<not> ke_alt e"
    using assms by (simp_all add: matchKeys_def Let_def)
  then have "latinKey (ke_key e) (ke_code e) = [CHR 0x5C]" using lower_backslash by (auto simp: to_lower_def)
  moreover have "\<not> cased (CHR 0x5C)" "CHR 0x5C \<noteq> CHR '' ''" by code_simp+
  ultimately show ?thesis using keys
    by (cases p) (simp_all add: getEventHotkeyString_def parseEventToHotkey_def event_config_def normalizeStep_def
        getHotkeyCombinationString_def stepToString_def TOGGLE_WITH_META_def TOGGLE_WITH_CTRL_def platform_toggle_def
        applyLayerKeys_def Let_def hotkey_config.defs)
qed

lemma inbox_keys_registered:
  "parseKeys INBOX_KEYS = [[''g''], [''i'']]" "getHotkeyCombinationString OPEN_INBOX = ''g > i''"
  by code_simp+

end
