(* ===== verification/Page_Tree.thy ===== *)
theory Page_Tree
  imports Tree_Model
begin

text \<open>
  The pages of a workspace (\<open>shared/pages/tree.tsx\<close>, \<open>shared/pages/usePageActions.ts\<close>): the flat list the
  server gives, the tree the sidebar shows, and what can be done to a page, applied to the cached
  list at once. \<open>build\<close> recurses through the pages of a parent; the fuel is one more than there are
  pages, which is enough when no id comes twice, as shown below (a page on a cycle is under no
  root). A page's address is the router's, a parameter. What the server answers is an argument of the
  second half of an action; of the toasts the model keeps which and about what.
\<close>

section \<open>The list and the tree\<close>

record page =
  pa_id :: string
  pa_title :: string
  pa_parentId :: "string option"
  pa_shortId :: string
  pa_version :: nat

definition UNTITLED :: string where
  "UNTITLED = ''Untitled''"

definition titleOf :: "page \<Rightarrow> string" where
  "titleOf p = (if pa_title p = [] then UNTITLED else pa_title p)"

definition pages_under :: "page list \<Rightarrow> string option \<Rightarrow> page list" where
  "pages_under ps par = filter (\<lambda>p. pa_parentId p = par) ps"

definition all_some :: "'a option list \<Rightarrow> 'a list option" where
  "all_some xs = (if None \<in> set xs then None else Some (map the xs))"

fun build :: "nat \<Rightarrow> page list \<Rightarrow> (page \<Rightarrow> string) \<Rightarrow> string option \<Rightarrow> tree_node list option" where
  "build 0 ps href par = None"
| "build (Suc n) ps href par =
    all_some (map (\<lambda>p. map_option (\<lambda>children.
        TreeNode (pa_id p) (titleOf p) (children \<noteq> []) (Some children) (Some True) None
          (Some (href p)))
      (build n ps href (Some (pa_id p)))) (pages_under ps par))"

definition toTreeNodes :: "page list \<Rightarrow> (page \<Rightarrow> string) \<Rightarrow> tree_node list option" where
  "toTreeNodes ps href = build (Suc (length ps)) ps href None"

text \<open>\<open>byId\<close>: of two pages with one id the later one. A cycle has no end, so the path is an option.\<close>

definition page_by_id :: "page list \<Rightarrow> string \<Rightarrow> page option" where
  "page_by_id ps i = map_of (rev (map (\<lambda>p. (pa_id p, p)) ps)) i"

definition next_up :: "page list \<Rightarrow> page \<Rightarrow> page option" where
  "next_up ps p = (if truthy (pa_parentId p) then page_by_id ps (the (pa_parentId p)) else None)"

partial_function (option) path_loop :: "page list \<Rightarrow> page option \<Rightarrow> page list \<Rightarrow> page list option" where
  "path_loop ps cur path =
    (case cur of None \<Rightarrow> Some path | Some p \<Rightarrow> path_loop ps (next_up ps p) (p # path))"

definition pathTo :: "page list \<Rightarrow> string \<Rightarrow> page list option" where
  "pathTo ps i = path_loop ps (page_by_id ps i) []"

text \<open>The list with a page moved to an index among the children of a parent, counted without it.\<close>

definition movedIn :: "page list \<Rightarrow> string \<Rightarrow> string option \<Rightarrow> nat \<Rightarrow> page list" where
  "movedIn ps i par index =
    (case List.find (\<lambda>p. pa_id p = i) ps of
      None \<Rightarrow> ps
    | Some moved \<Rightarrow>
        (let rest = filter (\<lambda>p. pa_id p \<noteq> i) ps; siblings = pages_under rest par;
             position = (if index < length siblings
               then (case find_index (\<lambda>p. p = siblings ! index) rest of None \<Rightarrow> length rest | Some k \<Rightarrow> k)
               else length rest)
         in insert_at position (moved\<lparr>pa_parentId := par\<rparr>) rest))"

text \<open>\<open>subtreeOf\<close>: pages whose parent is in the set are added until a sweep adds none.\<close>

definition sweep :: "page list \<Rightarrow> string list \<Rightarrow> string list" where
  "sweep ps ids = foldl (\<lambda>is p.
      if truthy (pa_parentId p) \<and> the (pa_parentId p) \<in> set is \<and> pa_id p \<notin> set is then is @ [pa_id p] else is)
    ids ps"

lemma sweep_grows:
  "set ids \<subseteq> set (sweep ps ids) \<and> set (sweep ps ids) \<subseteq> set ids \<union> pa_id ` set ps \<and>
    length ids \<le> length (sweep ps ids) \<and> (distinct ids \<longrightarrow> distinct (sweep ps ids))"
  unfolding sweep_def
proof (induction ps arbitrary: ids)
  case (Cons p ps)
  let ?ids = "if truthy (pa_parentId p) \<and> the (pa_parentId p) \<in> set ids \<and> pa_id p \<notin> set ids then ids @ [pa_id p] else ids"
  show ?case using Cons.IH [of ?ids] by (auto split: if_splits)
qed simp

lemma sweep_same: "length (sweep ps ids) = length ids \<Longrightarrow> sweep ps ids = ids"
proof (induction ps arbitrary: ids)
  case (Cons p ps)
  let ?c = "truthy (pa_parentId p) \<and> the (pa_parentId p) \<in> set ids \<and> pa_id p \<notin> set ids"
  have s: "sweep (p # ps) ids = sweep ps (if ?c then ids @ [pa_id p] else ids)" by (simp add: sweep_def)
  have nc: "\<not> ?c" using Cons.prems sweep_grows [of "ids @ [pa_id p]" ps] unfolding s by (auto split: if_splits)
  have "sweep (p # ps) ids = sweep ps ids" unfolding s if_not_P [OF nc] ..
  then show ?case using Cons by simp
qed (simp add: sweep_def)

lemma sweep_new:
  assumes "length (sweep ps ids) \<noteq> length ids"
  shows "\<exists>x. x \<in> set (sweep ps ids) \<and> x \<notin> set ids \<and> x \<in> pa_id ` set ps"
  using assms
proof (induction ps arbitrary: ids)
  case (Cons p ps)
  let ?c = "truthy (pa_parentId p) \<and> the (pa_parentId p) \<in> set ids \<and> pa_id p \<notin> set ids"
  have s: "sweep (p # ps) ids = sweep ps (if ?c then ids @ [pa_id p] else ids)" by (simp add: sweep_def)
  show ?case
  proof (cases ?c)
    case True
    then show ?thesis using s sweep_grows [of "ids @ [pa_id p]" ps] by auto
  next
    case False
    then have "sweep (p # ps) ids = sweep ps ids" using s by (simp only: if_False)
    then show ?thesis using Cons by auto
  qed
qed (simp add: sweep_def)

function subtree_loop :: "page list \<Rightarrow> string list \<Rightarrow> string list" where
  "subtree_loop ps ids =
    (let ids' = sweep ps ids in if length ids' = length ids then ids' else subtree_loop ps ids')"
  by auto
termination
proof (relation "measure (\<lambda>(ps, ids). card (pa_id ` set ps - set ids))", goal_cases)
  case (2 ps ids ids')
  then obtain x where "x \<in> set ids'" "x \<notin> set ids" "x \<in> pa_id ` set ps" using sweep_new by blast
  moreover have "set ids \<subseteq> set ids'" using 2 sweep_grows by blast
  ultimately have "pa_id ` set ps - set ids' \<subset> pa_id ` set ps - set ids" by blast
  then show ?case by (simp add: psubset_card_mono)
qed simp

declare subtree_loop.simps [simp del]

definition subtreeOf :: "page list \<Rightarrow> string \<Rightarrow> string list" where
  "subtreeOf ps i = subtree_loop ps [i]"

section \<open>What can be done to pages\<close>

datatype page_toast = ToastError string | ToastNote string | ToastUndo string string

record page_cache =
  pc_tree :: "page list option"
  pc_fetches :: nat
  pc_toasts :: "page_toast list"

definition cached_tree :: "page_cache \<Rightarrow> page list" where
  "cached_tree c = (case pc_tree c of None \<Rightarrow> [] | Some ps \<Rightarrow> ps)"

definition find_page :: "page_cache \<Rightarrow> string \<Rightarrow> page option" where
  "find_page c i = List.find (\<lambda>p. pa_id p = i) (cached_tree c)"

definition setTree :: "(page list \<Rightarrow> page list) \<Rightarrow> page_cache \<Rightarrow> page_cache" where
  "setTree f c = c\<lparr>pc_tree := map_option f (pc_tree c)\<rparr>"

definition refresh :: "page_cache \<Rightarrow> page_cache" where
  "refresh c = c\<lparr>pc_fetches := Suc (pc_fetches c)\<rparr>"

definition page_toast :: "page_toast \<Rightarrow> page_cache \<Rightarrow> page_cache" where
  "page_toast t c = c\<lparr>pc_toasts := pc_toasts c @ [t]\<rparr>"

text \<open>\<open>settle\<close>: a failure is told, and the tree is fetched again either way.\<close>

definition settle_page :: "bool \<Rightarrow> string \<Rightarrow> page_cache \<Rightarrow> page_cache" where
  "settle_page ok failure c = refresh (if ok then c else page_toast (ToastError failure) c)"

definition create_settled :: "bool \<Rightarrow> page_cache \<Rightarrow> page_cache" where
  "create_settled ok c = (if ok then refresh c else c)"

definition rename_page :: "string \<Rightarrow> string \<Rightarrow> page_cache \<Rightarrow> page_cache" where
  "rename_page i title c =
    (case find_page c i of
      None \<Rightarrow> c
    | Some _ \<Rightarrow> setTree (map (\<lambda>p. if pa_id p = i then p\<lparr>pa_title := title\<rparr> else p)) c)"

definition move_page :: "string \<Rightarrow> string option \<Rightarrow> nat \<Rightarrow> page_cache \<Rightarrow> page_cache" where
  "move_page i par index c =
    (case find_page c i of None \<Rightarrow> c | Some _ \<Rightarrow> setTree (\<lambda>ps. movedIn ps i par index) c)"

definition restore_settled :: "bool \<Rightarrow> page_cache \<Rightarrow> page_cache" where
  "restore_settled toRoot c =
    (let c' = refresh c in if toRoot then page_toast (ToastNote ''Restored to the top level'') c' else c')"

definition remove_page :: "string \<Rightarrow> page_cache \<Rightarrow> page_cache" where
  "remove_page i c =
    (case find_page c i of
      None \<Rightarrow> c
    | Some _ \<Rightarrow> (let gone = subtreeOf (cached_tree c) i in setTree (filter (\<lambda>p. pa_id p \<notin> set gone)) c))"

definition remove_settled :: "page \<Rightarrow> bool \<Rightarrow> page_cache \<Rightarrow> page_cache" where
  "remove_settled p ok c =
    (if ok then page_toast (ToastUndo (pa_id p) (titleOf p)) (refresh c)
     else refresh (page_toast (ToastError (titleOf p)) c))"

section \<open>Ancestors\<close>

definition pages_ok :: "page list \<Rightarrow> bool" where
  "pages_ok ps \<longleftrightarrow> distinct (map pa_id ps) \<and> (\<forall>p\<in>set ps. pa_id p \<noteq> [])"

definition parent_of :: "page list \<Rightarrow> string \<Rightarrow> string option" where
  "parent_of ps i = Option.bind (page_by_id ps i) pa_parentId"

fun ancestor :: "page list \<Rightarrow> nat \<Rightarrow> string \<Rightarrow> string option" where
  "ancestor ps 0 i = Some i"
| "ancestor ps (Suc k) i = Option.bind (ancestor ps k i) (parent_of ps)"

text \<open>A page is rooted when climbing from it ends.\<close>

definition rooted :: "page list \<Rightarrow> string \<Rightarrow> bool" where
  "rooted ps i \<longleftrightarrow> (\<exists>k. ancestor ps k i = None)"

lemma page_by_id_iff:
  assumes "pages_ok ps"
  shows "page_by_id ps i = Some p \<longleftrightarrow> p \<in> set ps \<and> pa_id p = i"
proof -
  have "distinct (map fst (rev (map (\<lambda>p. (pa_id p, p)) ps)))"
    using assms by (simp add: pages_ok_def rev_map [symmetric] comp_def)
  then show ?thesis unfolding page_by_id_def by (auto simp: map_of_eq_Some_iff)
qed

lemma ancestor_add: "ancestor ps (k + m) i = Option.bind (ancestor ps k i) (ancestor ps m)"
proof (induction m)
  case 0
  show ?case by (cases "ancestor ps k i") simp_all
next
  case (Suc m)
  then show ?case by (cases "ancestor ps k i") simp_all
qed

lemma ancestor_None_mono: "ancestor ps k i = None \<Longrightarrow> k \<le> m \<Longrightarrow> ancestor ps m i = None"
  using ancestor_add [of ps k "m - k" i] by simp

lemma ancestor_cycle:
  assumes "ancestor ps (Suc k) i = Some i"
  shows "ancestor ps (n * Suc k) i = Some i"
proof (induction n)
  case (Suc n)
  have "ancestor ps (Suc k + n * Suc k) i = Some i" unfolding ancestor_add assms by (simp only: bind.simps Suc)
  then show ?case by (simp only: mult_Suc)
qed simp

lemma rooted_no_cycle:
  assumes "rooted ps i"
  shows "ancestor ps (Suc k) i \<noteq> Some i"
proof
  assume c: "ancestor ps (Suc k) i = Some i"
  obtain m where m: "ancestor ps m i = None" using assms by (auto simp: rooted_def)
  have "m \<le> m * Suc k" by simp
  with ancestor_None_mono [OF m] ancestor_cycle [OF c, of m] show False by simp
qed

lemma rooted_below:
  assumes "rooted ps a" and "ancestor ps k i = Some a"
  shows "rooted ps i"
proof -
  obtain m where "ancestor ps m a = None" using assms(1) by (auto simp: rooted_def)
  then have "ancestor ps (k + m) i = None" using assms(2) by (simp add: ancestor_add)
  then show ?thesis by (auto simp: rooted_def)
qed

lemma under_parent:
  assumes "pages_ok ps" and "p \<in> set (pages_under ps par)"
  shows "parent_of ps (pa_id p) = par"
proof -
  have "page_by_id ps (pa_id p) = Some p" using assms(2) page_by_id_iff [OF assms(1)] by (auto simp: pages_under_def)
  then show ?thesis using assms(2) by (simp add: pages_under_def parent_of_def)
qed

text \<open>The page a parent is: none is the root.\<close>

definition root_ok :: "page list \<Rightarrow> string option \<Rightarrow> bool" where
  "root_ok ps par \<longleftrightarrow> (case par of None \<Rightarrow> True | Some a \<Rightarrow> rooted ps a)"

lemma under_rooted:
  assumes "pages_ok ps" and "p \<in> set (pages_under ps par)" and "root_ok ps par"
  shows "rooted ps (pa_id p)"
proof (cases par)
  case None
  then have "ancestor ps 1 (pa_id p) = None" using under_parent [OF assms(1,2)] by simp
  then show ?thesis unfolding rooted_def by blast
next
  case (Some a)
  then have "ancestor ps 1 (pa_id p) = Some a" using under_parent [OF assms(1,2)] by simp
  moreover have "rooted ps a" using assms(3) Some by (simp add: root_ok_def)
  ultimately show ?thesis using rooted_below by blast
qed

section \<open>Building the tree\<close>

lemma all_some_None: "all_some xs = None \<longleftrightarrow> None \<in> set xs"
  by (simp add: all_some_def)

lemma all_some_Some: "all_some xs = Some ys \<longleftrightarrow> map Some ys = xs"
proof
  assume a: "all_some xs = Some ys"
  then have "None \<notin> set xs" "ys = map the xs" by (simp_all add: all_some_def split: if_splits)
  then show "map Some ys = xs" by (induction xs arbitrary: ys) auto
qed (auto simp: all_some_def comp_def)

lemma build_chain:
  "build n ps href (Some a) = None \<Longrightarrow> pages_ok ps \<Longrightarrow> a \<in> pa_id ` set ps \<Longrightarrow>
    \<exists>x. x \<in> pa_id ` set ps \<and> ancestor ps n x = Some a"
proof (induction n arbitrary: a)
  case 0
  then show ?case by (intro exI [of _ a]) simp
next
  case (Suc n)
  then obtain p where p: "p \<in> set (pages_under ps (Some a))" "build n ps href (Some (pa_id p)) = None"
    by (auto simp: all_some_None)
  then have "pa_id p \<in> pa_id ` set ps" by (simp add: pages_under_def)
  then obtain x where x: "x \<in> pa_id ` set ps" "ancestor ps n x = Some (pa_id p)"
    using Suc.IH [OF p(2) Suc.prems(2)] by blast
  then have "ancestor ps (Suc n) x = Some a" using under_parent [OF Suc.prems(2) p(1)] by simp
  then show ?case using x(1) by blast
qed

lemma parent_known:
  assumes "pages_ok ps" and "ancestor ps (Suc k) i = Some a"
  shows "\<exists>b. ancestor ps k i = Some b \<and> b \<in> pa_id ` set ps"
proof -
  obtain b where b: "ancestor ps k i = Some b" "parent_of ps b = Some a"
    using assms(2) by (cases "ancestor ps k i") auto
  then show ?thesis using page_by_id_iff [OF assms(1)] by (cases "page_by_id ps b") (auto simp: parent_of_def)
qed

lemma chain_length:
  assumes "pages_ok ps" and "rooted ps a" and "ancestor ps n x = Some a" and "a \<in> pa_id ` set ps"
  shows "Suc n \<le> length ps"
proof -
  let ?f = "\<lambda>k. the (ancestor ps k x)"
  have some: "\<exists>b. ancestor ps k x = Some b" if "k \<le> n" for k
    using that ancestor_None_mono [of ps k x n] assms(3) by (cases "ancestor ps k x") auto
  have "inj_on ?f {..n}"
  proof (rule linorder_inj_onI')
    fix k m assume km: "k \<in> {..n}" "m \<in> {..n}" "k < m"
    obtain b where b: "ancestor ps k x = Some b" using some [of k] km by auto
    obtain c where c: "ancestor ps m x = Some c" using some [of m] km by auto
    have bc: "ancestor ps (m - k) b = Some c" using ancestor_add [of ps k "m - k" x] b c km by simp
    have "ancestor ps (n - k) b = Some a" using ancestor_add [of ps k "n - k" x] b assms(3) km by simp
    then have "rooted ps b" using rooted_below [OF assms(2)] by blast
    then have "b \<noteq> c" using rooted_no_cycle [of ps b "m - k - 1"] bc km by (auto simp: Suc_diff_Suc)
    then show "?f k \<noteq> ?f m" using b c by simp
  qed
  then have "card (?f ` {..n}) = Suc n" by (simp add: card_image)
  moreover have "?f ` {..n} \<subseteq> pa_id ` set ps"
  proof
    fix y assume "y \<in> ?f ` {..n}"
    then obtain k where k: "k \<le> n" "y = ?f k" by auto
    show "y \<in> pa_id ` set ps"
    proof (cases "k = n")
      case True
      then show ?thesis using k assms(3,4) by simp
    next
      case False
      then obtain c where "ancestor ps (Suc k) x = Some c" using some [of "Suc k"] k by auto
      then show ?thesis using parent_known [OF assms(1), of k x c] k by auto
    qed
  qed
  moreover have "card (pa_id ` set ps) \<le> length ps"
    using card_image_le [of "set ps" pa_id] card_length [of ps] by simp
  ultimately show ?thesis by (metis card_mono finite_imageI finite_set order_trans)
qed

lemma toTreeNodes_ends:
  assumes "pages_ok ps"
  shows "\<exists>nodes. toTreeNodes ps href = Some nodes"
proof (rule ccontr)
  assume "\<nexists>nodes. toTreeNodes ps href = Some nodes"
  then have "build (Suc (length ps)) ps href None = None" by (simp add: toTreeNodes_def)
  then obtain p where p: "p \<in> set (pages_under ps None)" "build (length ps) ps href (Some (pa_id p)) = None"
    by (auto simp: all_some_None)
  have "pa_id p \<in> pa_id ` set ps" using p(1) by (simp add: pages_under_def)
  moreover obtain x where "ancestor ps (length ps) x = Some (pa_id p)"
    using build_chain [OF p(2) assms calculation] by blast
  ultimately have "Suc (length ps) \<le> length ps"
    using chain_length [OF assms under_rooted [OF assms p(1)]] by (simp add: root_ok_def)
  then show False by simp
qed

section \<open>The tree shows every page once\<close>

definition forest_ids :: "tree_node list \<Rightarrow> string list" where
  "forest_ids ns = map fst (places_of None 0 0 ns)"

definition node_children :: "tree_node \<Rightarrow> tree_node list" where
  "node_children n = (case tn_children n of None \<Rightarrow> [] | Some cs \<Rightarrow> cs)"

lemma places_ids: "map fst (places_of par d pos ns) = map fst (places_of par' d' pos' ns)"
proof (induction par d pos ns arbitrary: par' d' pos' rule: places_of.induct)
  case (2 par d pos i l h cs cc dis hr ns)
  have "map fst (case cs of None \<Rightarrow> [] | Some ks \<Rightarrow> places_of (Some i) (Suc d) 0 ks) =
      map fst (case cs of None \<Rightarrow> [] | Some ks \<Rightarrow> places_of (Some i) (Suc d') 0 ks)"
  proof (cases cs)
    case (Some ks)
    then show ?thesis using "2.IH"(1) [OF Some, of "Some i" "Suc d'" 0] by (simp only: option.case)
  qed simp
  moreover have "map fst (places_of par d (Suc pos) ns) = map fst (places_of par' d' (Suc pos') ns)"
    by (rule "2.IH"(2))
  ultimately show ?case by simp
qed simp

lemma forest_ids_concat: "forest_ids ns = concat (map (\<lambda>n. tn_id n # forest_ids (node_children n)) ns)"
proof (induction ns)
  case (Cons n ns)
  obtain i l h cs cc dis hr where n: "n = TreeNode i l h cs cc dis hr" by (cases n)
  have "map fst (places_of None 0 (Suc 0) ns) = forest_ids ns" unfolding forest_ids_def by (rule places_ids)
  moreover have "map fst (case cs of None \<Rightarrow> [] | Some ks \<Rightarrow> places_of (Some i) (Suc 0) 0 ks) = forest_ids (node_children n)"
    using n places_ids [of "Some i" "Suc 0" 0 "the cs" None 0 0] by (cases cs) (simp_all add: forest_ids_def node_children_def)
  ultimately show ?case using n Cons.IH by (simp add: forest_ids_def)
qed (simp add: forest_ids_def)

lemma distinct_concat_map:
  "distinct xs \<Longrightarrow> (\<And>x. x \<in> set xs \<Longrightarrow> distinct (f x)) \<Longrightarrow>
    (\<And>x y. x \<in> set xs \<Longrightarrow> y \<in> set xs \<Longrightarrow> x \<noteq> y \<Longrightarrow> set (f x) \<inter> set (f y) = {}) \<Longrightarrow> distinct (concat (map f xs))"
proof (induction xs)
  case (Cons x xs)
  have "set (f x) \<inter> set (f y) = {}" if "y \<in> set xs" for y
    using Cons.prems(1,3) that by (metis distinct.simps(2) list.set_intros)
  then have "set (f x) \<inter> set (concat (map f xs)) = {}" by auto
  then show ?case using Cons by simp
qed simp

lemma ancestor_first: "ancestor ps (Suc k) i = Option.bind (parent_of ps i) (ancestor ps k)"
  using ancestor_add [of ps 1 k i] by simp

lemma sibling_apart:
  assumes "pages_ok ps" and "root_ok ps par" and "p \<in> set (pages_under ps par)" and "q \<in> set (pages_under ps par)"
    and "ancestor ps j (pa_id p) = Some (pa_id q)"
  shows "pa_id p = pa_id q"
proof (cases j)
  case (Suc m)
  then obtain a where a: "par = Some a" "ancestor ps m a = Some (pa_id q)"
    using assms(5) ancestor_first [of ps m "pa_id p"] under_parent [OF assms(1,3)] by (cases par) auto
  then have "ancestor ps (Suc m) a = Some a" using under_parent [OF assms(1,4)] by simp
  then show ?thesis using rooted_no_cycle [of ps a m] assms(2) a(1) by (simp add: root_ok_def)
qed (use assms(5) in simp)

lemma build_nodes:
  assumes "build (Suc n) ps href par = Some ns"
  obtains ch where "\<And>p. p \<in> set (pages_under ps par) \<Longrightarrow> build n ps href (Some (pa_id p)) = Some (ch p)"
    "ns = map (\<lambda>p. TreeNode (pa_id p) (titleOf p) (ch p \<noteq> []) (Some (ch p)) (Some True) None (Some (href p))) (pages_under ps par)"
proof
  let ?b = "\<lambda>p. build n ps href (Some (pa_id p))"
  have eq: "map Some ns = map (\<lambda>p. map_option (\<lambda>c. TreeNode (pa_id p) (titleOf p) (c \<noteq> []) (Some c) (Some True) None (Some (href p))) (?b p))
      (pages_under ps par)"
    using assms unfolding build.simps all_some_Some .
  show some: "?b p = Some (the (?b p))" if "p \<in> set (pages_under ps par)" for p
  proof (cases "?b p")
    case None
    then have "None \<in> set (map Some ns)" unfolding eq using that by force
    then show ?thesis by auto
  qed simp
  have "map Some ns = map Some (map (\<lambda>p. TreeNode (pa_id p) (titleOf p) (the (?b p) \<noteq> []) (Some (the (?b p))) (Some True) None
      (Some (href p))) (pages_under ps par))"
    unfolding eq map_map by (rule map_cong [OF refl]) (subst some, simp_all)
  then show "ns = map (\<lambda>p. TreeNode (pa_id p) (titleOf p) (the (?b p) \<noteq> []) (Some (the (?b p))) (Some True) None
      (Some (href p))) (pages_under ps par)"
    by (rule map_injective) simp
qed

lemma distinct_pages_under: "pages_ok ps \<Longrightarrow> distinct (pages_under ps par)"
  by (simp add: pages_ok_def pages_under_def distinct_map)

lemma pages_id_inj: "pages_ok ps \<Longrightarrow> p \<in> set ps \<Longrightarrow> q \<in> set ps \<Longrightarrow> pa_id p = pa_id q \<Longrightarrow> p = q"
  by (auto simp: pages_ok_def distinct_map inj_on_def)

lemma build_ids:
  assumes "pages_ok ps"
  shows "build n ps href par = Some ns \<Longrightarrow> root_ok ps par \<Longrightarrow>
    distinct (forest_ids ns) \<and>
    (\<forall>x\<in>set (forest_ids ns). \<exists>k. \<exists>p\<in>set (pages_under ps par). ancestor ps k x = Some (pa_id p))"
proof (induction n arbitrary: par ns)
  case (Suc n)
  obtain ch where ch: "\<And>p. p \<in> set (pages_under ps par) \<Longrightarrow> build n ps href (Some (pa_id p)) = Some (ch p)"
    and ns: "ns = map (\<lambda>p. TreeNode (pa_id p) (titleOf p) (ch p \<noteq> []) (Some (ch p)) (Some True) None (Some (href p))) (pages_under ps par)"
    using build_nodes [OF Suc.prems(1)] by blast
  let ?ids = "\<lambda>p. pa_id p # forest_ids (ch p)"
  have ids: "forest_ids ns = concat (map ?ids (pages_under ps par))"
  proof -
    have "forest_ids ns = concat (map (\<lambda>n. tn_id n # forest_ids (node_children n)) ns)" by (rule forest_ids_concat)
    also have "\<dots> = concat (map ?ids (pages_under ps par))"
      unfolding ns map_map by (simp add: node_children_def comp_def)
    finally show ?thesis .
  qed
  have rooted: "root_ok ps (Some (pa_id p))" if "p \<in> set (pages_under ps par)" for p
    using under_rooted [OF assms that Suc.prems(2)] by (simp add: root_ok_def)
  have ih: "distinct (forest_ids (ch p))"
    "\<forall>x\<in>set (forest_ids (ch p)). \<exists>k. \<exists>q\<in>set (pages_under ps (Some (pa_id p))). ancestor ps k x = Some (pa_id q)"
    if "p \<in> set (pages_under ps par)" for p
    using Suc.IH [OF ch [OF that] rooted [OF that]] by blast+
  have below: "\<exists>k. ancestor ps (Suc k) x = Some (pa_id p)" if "p \<in> set (pages_under ps par)" "x \<in> set (forest_ids (ch p))" for p x
  proof -
    note m = that
    obtain k q where "q \<in> set (pages_under ps (Some (pa_id p)))" "ancestor ps k x = Some (pa_id q)"
      using ih(2) [OF m(1)] m(2) by blast
    then have "ancestor ps (Suc k) x = Some (pa_id p)" using under_parent [OF assms] by simp
    then show ?thesis by blast
  qed
  have at: "\<exists>k. ancestor ps k x = Some (pa_id p)" if "p \<in> set (pages_under ps par)" "x \<in> set (?ids p)" for p x
  proof (cases "x = pa_id p")
    case True
    then show ?thesis by (intro exI [of _ 0]) simp
  next
    case False
    then have "x \<in> set (forest_ids (ch p))" using that(2) by simp
    then show ?thesis using below [OF that(1)] by blast
  qed
  have "distinct (concat (map ?ids (pages_under ps par)))"
  proof (rule distinct_concat_map [OF distinct_pages_under [OF assms]])
    fix p assume p: "p \<in> set (pages_under ps par)"
    have "pa_id p \<notin> set (forest_ids (ch p))"
      using below [OF p, of "pa_id p"] rooted_no_cycle [of ps "pa_id p"] rooted [OF p] by (auto simp: root_ok_def)
    then show "distinct (?ids p)" using ih(1) [OF p] by simp
  next
    fix p q assume pq: "p \<in> set (pages_under ps par)" "q \<in> set (pages_under ps par)" "p \<noteq> q"
    show "set (?ids p) \<inter> set (?ids q) = {}"
    proof (rule ccontr)
      assume "set (?ids p) \<inter> set (?ids q) \<noteq> {}"
      then obtain x where "x \<in> set (?ids p)" "x \<in> set (?ids q)" by blast
      then obtain k m where km: "ancestor ps k x = Some (pa_id p)" "ancestor ps m x = Some (pa_id q)"
        using at pq by blast
      have "pa_id p = pa_id q"
      proof (cases "k \<le> m")
        case True
        then have "ancestor ps (m - k) (pa_id p) = Some (pa_id q)" using ancestor_add [of ps k "m - k" x] km by simp
        then show ?thesis by (rule sibling_apart [OF assms Suc.prems(2) pq(1,2)])
      next
        case False
        then have "ancestor ps (k - m) (pa_id q) = Some (pa_id p)" using ancestor_add [of ps m "k - m" x] km by simp
        then have "pa_id q = pa_id p" by (rule sibling_apart [OF assms Suc.prems(2) pq(2,1)])
        then show ?thesis by simp
      qed
      then show False using pages_id_inj [OF assms] pq by (auto simp: pages_under_def)
    qed
  qed
  moreover have "\<exists>k. \<exists>p\<in>set (pages_under ps par). ancestor ps k x = Some (pa_id p)"
    if m: "x \<in> set (concat (map ?ids (pages_under ps par)))" for x
  proof -
    obtain p where "p \<in> set (pages_under ps par)" "x \<in> set (?ids p)" using m unfolding set_concat set_map by blast
    then show ?thesis using at by blast
  qed
  ultimately show ?case unfolding ids by blast
qed simp

section \<open>The tree's children are the list's\<close>

definition built :: "page list \<Rightarrow> (page \<Rightarrow> string) \<Rightarrow> tree_node \<Rightarrow> bool" where
  "built ps href n \<longleftrightarrow> (\<exists>m cs. tn_children n = Some cs \<and> build m ps href (Some (tn_id n)) = Some cs)"

lemma build_built: "build n ps href par = Some ns \<Longrightarrow> x \<in> set ns \<Longrightarrow> built ps href x"
proof (cases n)
  case (Suc m)
  assume b: "build n ps href par = Some ns" and x: "x \<in> set ns"
  obtain ch where ch: "\<And>p. p \<in> set (pages_under ps par) \<Longrightarrow> build m ps href (Some (pa_id p)) = Some (ch p)"
    and ns: "ns = map (\<lambda>p. TreeNode (pa_id p) (titleOf p) (ch p \<noteq> []) (Some (ch p)) (Some True) None (Some (href p))) (pages_under ps par)"
    using build_nodes b Suc by blast
  show ?thesis using x ch unfolding ns built_def by fastforce
qed simp

lemma build_children_ids: "build n ps href par = Some ns \<Longrightarrow> map tn_id ns = map pa_id (pages_under ps par)"
proof (cases n)
  case (Suc m)
  assume b: "build n ps href par = Some ns"
  obtain ch where "ns = map (\<lambda>p. TreeNode (pa_id p) (titleOf p) (ch p \<noteq> []) (Some (ch p)) (Some True) None (Some (href p)))
      (pages_under ps par)"
    using build_nodes b Suc by blast
  then show ?thesis by (simp add: comp_def)
qed simp

lemma places_built:
  "\<forall>x\<in>set ns. built ps href x \<Longrightarrow> (j, q) \<in> set (places_of par d pos ns) \<Longrightarrow> built ps href (np_node q)"
proof (induction par d pos ns rule: places_of.induct)
  case (2 par d pos i l h cs cc dis hr ns)
  have b: "built ps href (TreeNode i l h cs cc dis hr)" using "2.prems"(1) by simp
  then have kids: "\<forall>x\<in>set ks. built ps href x" if "cs = Some ks" for ks
    using that build_built by (auto simp: built_def)
  consider "q = \<lparr>np_node = TreeNode i l h cs cc dis hr, np_parentId = par, np_index = pos, np_depth = d\<rparr>"
    | ks where "cs = Some ks" "(j, q) \<in> set (places_of (Some i) (Suc d) 0 ks)"
    | "(j, q) \<in> set (places_of par d (Suc pos) ns)"
    using "2.prems"(2) by (cases cs) auto
  then show ?case
  proof cases
    case 1
    then show ?thesis using b by simp
  next
    case (2 ks)
    show ?thesis by (rule "2.IH"(1) [OF 2(1) kids [OF 2(1)] 2(2)])
  next
    case 3
    show ?thesis by (rule "2.IH"(2) [OF _ 3]) (use "2.prems"(1) in simp)
  qed
qed simp

lemma tree_unique:
  assumes "pages_ok ps" and "toTreeNodes ps href = Some nodes"
  shows "unique_ids nodes"
proof -
  have b: "build (Suc (length ps)) ps href None = Some nodes" using assms(2) by (simp only: toTreeNodes_def)
  have "root_ok ps None" by (simp add: root_ok_def)
  then show ?thesis using build_ids [OF assms(1) b] unfolding unique_ids_def forest_ids_def by blast
qed

lemma sibling_pages:
  assumes "pages_ok ps" and "toTreeNodes ps href = Some nodes"
    and "par = None \<or> (\<exists>j. par = Some j \<and> js_has (indexTree nodes) j)"
  shows "sibling_ids nodes par = map pa_id (pages_under ps par)"
proof -
  have b: "build (Suc (length ps)) ps href None = Some nodes" using assms(2) by (simp only: toTreeNodes_def)
  from assms(3) show ?thesis
  proof (elim disjE exE conjE)
    assume "par = None"
    then show ?thesis using build_children_ids [OF b] by (simp add: sibling_ids_def childrenOf_def)
  next
    fix j assume j: "par = Some j" "js_has (indexTree nodes) j"
    then obtain q where q: "js_get (indexTree nodes) j = Some q" by (auto simp: js_has_def)
    have "(j, q) \<in> set (places_of None 0 0 nodes)" using q index_get [OF tree_unique [OF assms(1,2)]] by blast
    then have "built ps href (np_node q)" using places_built build_built [OF b] by blast
    moreover have "tn_id (np_node q) = j" using place_get [OF tree_unique [OF assms(1,2)] q] by blast
    ultimately obtain m cs where cs: "tn_children (np_node q) = Some cs" "build m ps href (Some j) = Some cs"
      unfolding built_def by metis
    then show ?thesis using build_children_ids [OF cs(2)] q j(1) by (simp add: sibling_ids_def childrenOf_def)
  qed
qed

section \<open>Moving a page\<close>

lemma filter_split_at:
  assumes "distinct xs"
  shows "i < length (filter P xs) \<Longrightarrow> find_index (\<lambda>x. x = filter P xs ! i) xs = Some k \<Longrightarrow>
    filter P (take k xs) = take i (filter P xs) \<and> filter P (drop k xs) = drop i (filter P xs)"
  using assms
proof (induction xs arbitrary: i k)
  case (Cons x xs)
  show ?case
  proof (cases "P x")
    case True
    show ?thesis
    proof (cases i)
      case 0
      then show ?thesis using Cons.prems True by simp
    next
      case (Suc m)
      have "filter P xs ! m \<in> set (filter P xs)" using Cons.prems(1) True Suc by (intro nth_mem) simp
      then have "filter P xs ! m \<noteq> x" using Cons.prems(3) by auto
      then obtain l where "find_index (\<lambda>y. y = filter P xs ! m) xs = Some l" "k = Suc l"
        using Cons.prems(2) True Suc by auto
      then show ?thesis using Cons.IH [of m l] Cons.prems True Suc by simp
    qed
  next
    case False
    have "filter P xs ! i \<in> set (filter P xs)" using Cons.prems(1) False by (intro nth_mem) simp
    then have "filter P xs ! i \<noteq> x" using Cons.prems(3) by auto
    then obtain l where "find_index (\<lambda>y. y = filter P xs ! i) xs = Some l" "k = Suc l"
      using Cons.prems(2) False by auto
    then show ?thesis using Cons.IH [of i l] Cons.prems False by simp
  qed
qed simp

lemma movedIn_form:
  assumes "i \<in> pa_id ` set ps"
  obtains moved position where "pa_id moved = i" "moved \<in> set ps"
    "movedIn ps i par index = insert_at position (moved\<lparr>pa_parentId := par\<rparr>) (filter (\<lambda>p. pa_id p \<noteq> i) ps)"
    "position = (let rest = filter (\<lambda>p. pa_id p \<noteq> i) ps; siblings = pages_under rest par in
       if index < length siblings
       then (case find_index (\<lambda>p. p = siblings ! index) rest of None \<Rightarrow> length rest | Some k \<Rightarrow> k)
       else length rest)"
proof -
  obtain moved where m: "List.find (\<lambda>p. pa_id p = i) ps = Some moved"
    using assms by (cases "List.find (\<lambda>p. pa_id p = i) ps") (auto simp: find_None_iff)
  then have "pa_id moved = i" "moved \<in> set ps" by (auto simp: find_Some_iff)
  then show ?thesis using that m by (simp add: movedIn_def Let_def)
qed

lemma pages_under_rest: "pages_under (filter (\<lambda>p. pa_id p \<noteq> i) ps) q = filter (\<lambda>p. pa_id p \<noteq> i) (pages_under ps q)"
  by (simp add: pages_under_def conj_commute)

lemma map_filter_id: "map pa_id (filter (\<lambda>p. pa_id p \<noteq> i) ps) = filter (\<lambda>x. x \<noteq> i) (map pa_id ps)"
  by (induction ps) auto

lemma movedIn_under:
  assumes "pages_ok ps" and "i \<in> pa_id ` set ps"
  shows "map pa_id (pages_under (movedIn ps i par index) q) =
    (let others = filter (\<lambda>x. x \<noteq> i) (map pa_id (pages_under ps q)) in
     if q = par then insert_at index i others else others)"
proof -
  obtain moved position where m: "pa_id moved = i" "moved \<in> set ps"
    "movedIn ps i par index = insert_at position (moved\<lparr>pa_parentId := par\<rparr>) (filter (\<lambda>p. pa_id p \<noteq> i) ps)"
    "position = (let rest = filter (\<lambda>p. pa_id p \<noteq> i) ps; siblings = pages_under rest par in
       if index < length siblings
       then (case find_index (\<lambda>p. p = siblings ! index) rest of None \<Rightarrow> length rest | Some k \<Rightarrow> k)
       else length rest)"
    using movedIn_form [OF assms(2)] by blast
  let ?rest = "filter (\<lambda>p. pa_id p \<noteq> i) ps"
  let ?new = "moved\<lparr>pa_parentId := par\<rparr>"
  have others: "map pa_id (pages_under ?rest q) = filter (\<lambda>x. x \<noteq> i) (map pa_id (pages_under ps q))" for q
    unfolding pages_under_rest by (rule map_filter_id)
  have under: "pages_under (movedIn ps i par index) q =
      pages_under (take position ?rest) q @ (if q = par then [?new] else []) @ pages_under (drop position ?rest) q"
    unfolding m(3) insert_at_def by (simp add: pages_under_def)
  show ?thesis
  proof (cases "q = par")
    case False
    have "pages_under (take position ?rest) q @ pages_under (drop position ?rest) q = pages_under ?rest q"
      unfolding pages_under_def filter_append [symmetric] by simp
    then show ?thesis using under others False by (simp add: Let_def)
  next
    case True
    have d: "distinct ?rest" using assms(1) by (simp add: pages_ok_def distinct_map)
    have "pages_under (take position ?rest) par = take index (pages_under ?rest par) \<and>
        pages_under (drop position ?rest) par = drop index (pages_under ?rest par)"
    proof (cases "index < length (pages_under ?rest par)")
      case True
      have "pages_under ?rest par ! index \<in> set ?rest" using nth_mem [OF True] by (simp add: pages_under_def)
      then obtain k where k: "find_index (\<lambda>p. p = pages_under ?rest par ! index) ?rest = Some k"
        using find_index_None [of "\<lambda>p. p = pages_under ?rest par ! index" ?rest]
        by (cases "find_index (\<lambda>p. p = pages_under ?rest par ! index) ?rest") auto
      then have "position = k" using m(4) True by (simp add: Let_def)
      then show ?thesis using filter_split_at [OF d] True k unfolding pages_under_def by blast
    next
      case False
      then have "position = length ?rest" using m(4) by (simp add: Let_def)
      then show ?thesis using False by (simp add: pages_under_def)
    qed
    then have "pages_under (movedIn ps i par index) q = insert_at index ?new (pages_under ?rest par)"
      using under True by (simp add: insert_at_def)
    then have "map pa_id (pages_under (movedIn ps i par index) q) = insert_at index i (map pa_id (pages_under ?rest par))"
      using m(1) by (simp add: insert_at_def take_map drop_map)
    then show ?thesis using others True by (simp add: Let_def)
  qed
qed

lemma movedIn_ok:
  assumes "pages_ok ps"
  shows "pages_ok (movedIn ps i par index)"
proof (cases "i \<in> pa_id ` set ps")
  case False
  then have "List.find (\<lambda>p. pa_id p = i) ps = None" by (auto simp: find_None_iff)
  then show ?thesis using assms by (simp add: movedIn_def)
next
  case True
  obtain moved position where m: "pa_id moved = i" "moved \<in> set ps"
    "movedIn ps i par index = insert_at position (moved\<lparr>pa_parentId := par\<rparr>) (filter (\<lambda>p. pa_id p \<noteq> i) ps)"
    using movedIn_form [OF True] by blast
  let ?rest = "filter (\<lambda>p. pa_id p \<noteq> i) ps"
  have "map pa_id (movedIn ps i par index) = insert_at position i (map pa_id ?rest)"
    unfolding m(3) using m(1) by (simp add: insert_at_def take_map drop_map)
  moreover have "distinct (map pa_id ?rest)" "i \<notin> set (map pa_id ?rest)"
    using assms by (auto simp: pages_ok_def distinct_map_filter)
  ultimately have "distinct (map pa_id (movedIn ps i par index))" by (simp only: distinct_insert_at) simp
  moreover have "set (movedIn ps i par index) \<subseteq> insert (moved\<lparr>pa_parentId := par\<rparr>) (set ps)"
    unfolding m(3) mset_insert_at by auto
  moreover have "pa_id (moved\<lparr>pa_parentId := par\<rparr>) \<noteq> []" using assms m(2) by (auto simp: pages_ok_def)
  ultimately show ?thesis using assms unfolding pages_ok_def by blast
qed

section \<open>Trashing a page\<close>

lemma truthy_parent: "truthy (pa_parentId p) \<Longrightarrow> pa_parentId p = Some (the (pa_parentId p))"
  by (cases "pa_parentId p") simp_all

lemma parent_of_page: "pages_ok ps \<Longrightarrow> p \<in> set ps \<Longrightarrow> parent_of ps (pa_id p) = pa_parentId p"
  using page_by_id_iff [of ps "pa_id p" p] by (simp add: parent_of_def)

lemma sweep_sound:
  assumes "pages_ok ps" and "\<forall>x\<in>set ids. \<exists>k. ancestor ps k x = Some i" and "set qs \<subseteq> set ps"
  shows "\<forall>x\<in>set (sweep qs ids). \<exists>k. ancestor ps k x = Some i"
  using assms(2,3) unfolding sweep_def
proof (induction qs arbitrary: ids)
  case (Cons p qs)
  let ?c = "truthy (pa_parentId p) \<and> the (pa_parentId p) \<in> set ids \<and> pa_id p \<notin> set ids"
  have "\<exists>k. ancestor ps k (pa_id p) = Some i" if c: ?c
  proof -
    obtain k where k: "ancestor ps k (the (pa_parentId p)) = Some i" using Cons.prems(1) c by blast
    have "parent_of ps (pa_id p) = Some (the (pa_parentId p))"
      using parent_of_page [OF assms(1), of p] truthy_parent [of p] c Cons.prems(2) by simp
    then have "ancestor ps (Suc k) (pa_id p) = Some i" unfolding ancestor_first using k by simp
    then show ?thesis by blast
  qed
  then have "\<forall>x\<in>set (if ?c then ids @ [pa_id p] else ids). \<exists>k. ancestor ps k x = Some i"
    using Cons.prems(1) by (auto split: if_splits)
  from Cons.IH [OF this] Cons.prems(2) show ?case by simp
qed simp

lemma sweep_added:
  "truthy (pa_parentId p) \<Longrightarrow> the (pa_parentId p) \<in> set ids \<Longrightarrow> p \<in> set ps \<Longrightarrow> pa_id p \<in> set (sweep ps ids)"
proof (induction ps arbitrary: ids)
  case (Cons q ps)
  let ?ids = "if truthy (pa_parentId q) \<and> the (pa_parentId q) \<in> set ids \<and> pa_id q \<notin> set ids then ids @ [pa_id q] else ids"
  have s: "sweep (q # ps) ids = sweep ps ?ids" by (simp add: sweep_def)
  show ?case
  proof (cases "p = q")
    case True
    then have "pa_id p \<in> set ?ids" using Cons.prems by auto
    then show ?thesis using s sweep_grows [of ?ids ps] by auto
  next
    case False
    then have "p \<in> set ps" using Cons.prems by simp
    moreover have "the (pa_parentId p) \<in> set ?ids" using Cons.prems by auto
    ultimately show ?thesis using s Cons.IH [of ?ids] Cons.prems(1) by simp
  qed
qed simp

lemma subtree_loop_sound:
  "pages_ok ps \<Longrightarrow> \<forall>x\<in>set ids. \<exists>k. ancestor ps k x = Some i \<Longrightarrow>
    \<forall>x\<in>set (subtree_loop ps ids). \<exists>k. ancestor ps k x = Some i"
proof (induction ps ids rule: subtree_loop.induct)
  case (1 ps ids)
  note swept = sweep_sound [OF "1.prems" subset_refl]
  show ?case
  proof (cases "length (sweep ps ids) = length ids")
    case True
    then show ?thesis using swept by (subst subtree_loop.simps) (simp add: Let_def)
  next
    case False
    have "\<forall>x\<in>set (subtree_loop ps (sweep ps ids)). \<exists>k. ancestor ps k x = Some i"
      by (rule "1.IH" [OF refl False "1.prems"(1) swept])
    then show ?thesis using False by (subst subtree_loop.simps) (simp add: Let_def)
  qed
qed

lemma subtree_loop_closed:
  "set ids \<subseteq> set (subtree_loop ps ids) \<and> sweep ps (subtree_loop ps ids) = subtree_loop ps ids"
proof (induction ps ids rule: subtree_loop.induct)
  case (1 ps ids)
  show ?case
  proof (cases "length (sweep ps ids) = length ids")
    case True
    then show ?thesis using sweep_same [OF True] by (subst (1 2 3) subtree_loop.simps) (simp add: Let_def)
  next
    case False
    then show ?thesis using "1.IH" [OF refl False] sweep_grows [of ids ps]
      by (subst (1 2 3) subtree_loop.simps) (auto simp: Let_def)
  qed
qed

lemma subtree_loop_complete:
  assumes "pages_ok ps" and "i \<noteq> []"
  shows "ancestor ps k x = Some i \<Longrightarrow> x \<in> set (subtreeOf ps i)"
proof (induction k arbitrary: x)
  case 0
  then show ?case using subtree_loop_closed [of "[i]" ps] by (simp add: subtreeOf_def)
next
  case (Suc k)
  obtain a where a: "parent_of ps x = Some a" "ancestor ps k a = Some i"
    using Suc.prems unfolding ancestor_first by (auto simp: bind_eq_Some_conv)
  obtain p where p: "page_by_id ps x = Some p" "pa_parentId p = Some a"
    using a(1) by (auto simp: parent_of_def bind_eq_Some_conv)
  have pin: "p \<in> set ps" "pa_id p = x" using p(1) page_by_id_iff [OF assms(1)] by auto
  have "a \<noteq> []"
  proof (cases k)
    case 0
    then show ?thesis using a(2) assms(2) by simp
  next
    case (Suc m)
    then have "parent_of ps a \<noteq> None" using a(2) unfolding Suc ancestor_first by (auto simp: bind_eq_Some_conv)
    then obtain q where "page_by_id ps a = Some q" by (cases "page_by_id ps a") (auto simp: parent_of_def)
    then show ?thesis using page_by_id_iff [OF assms(1)] assms(1) by (auto simp: pages_ok_def)
  qed
  then have "truthy (pa_parentId p)" "the (pa_parentId p) \<in> set (subtreeOf ps i)"
    using p(2) Suc.IH [OF a(2)] by simp_all
  then have "x \<in> set (sweep ps (subtreeOf ps i))" using sweep_added pin by blast
  then show ?case using subtree_loop_closed [of "[i]" ps] by (simp add: subtreeOf_def)
qed

section \<open>Properties\<close>

text \<open>
  C21: A page moved in the cached list stands, in the tree built again from that list, where the
  kit's tree puts a node dropped there: among the new parent's children at the given index,
  counted without it, and every other level of the tree keeps its children in their order. Both
  trees exist and neither has an id twice.
\<close>

theorem page_move_shows:
  assumes "pages_ok ps" and "d \<in> pa_id ` set ps" and "toTreeNodes ps href = Some nodes"
  shows "\<exists>nodes'. toTreeNodes (movedIn ps d par i) href = Some nodes' \<and> unique_ids nodes \<and> unique_ids nodes' \<and>
    (\<forall>q. q = None \<or> (\<exists>j. q = Some j \<and> js_has (indexTree nodes) j \<and> js_has (indexTree nodes') j) \<longrightarrow>
      sibling_ids nodes' q =
        (if q = par then moved_to nodes d par i else filter (\<lambda>x. x \<noteq> d) (sibling_ids nodes q)))"
proof -
  have ok: "pages_ok (movedIn ps d par i)" by (rule movedIn_ok [OF assms(1)])
  obtain nodes' where n: "toTreeNodes (movedIn ps d par i) href = Some nodes'" using toTreeNodes_ends [OF ok] by blast
  have "sibling_ids nodes' q =
      (if q = par then moved_to nodes d par i else filter (\<lambda>x. x \<noteq> d) (sibling_ids nodes q))"
    if q: "q = None \<or> (\<exists>j. q = Some j \<and> js_has (indexTree nodes) j \<and> js_has (indexTree nodes') j)" for q
  proof -
    have "sibling_ids nodes q = map pa_id (pages_under ps q)"
      by (rule sibling_pages [OF assms(1,3)]) (use q in blast)
    moreover have "sibling_ids nodes' q = map pa_id (pages_under (movedIn ps d par i) q)"
      by (rule sibling_pages [OF ok n]) (use q in blast)
    ultimately show ?thesis using movedIn_under [OF assms(1,2), of par i q] unfolding moved_to_def
      by (cases "q = par") (simp_all add: Let_def)
  qed
  then show ?thesis using n tree_unique [OF assms(1,3)] tree_unique [OF ok n] by blast
qed

definition a_page :: "string \<Rightarrow> string option \<Rightarrow> page" where
  "a_page i par = \<lparr>pa_id = i, pa_title = i, pa_parentId = par, pa_shortId = i, pa_version = 1\<rparr>"

definition some_pages :: "page list" where
  "some_pages = [a_page ''a'' None, a_page ''b'' (Some ''a''), a_page ''c'' (Some ''b''), a_page ''d'' None]"

lemma some_pages_ok: "pages_ok some_pages"
  by (simp add: some_pages_def a_page_def pages_ok_def)

theorem page_move_shows_witness:
  "\<exists>nodes'. toTreeNodes (movedIn some_pages ''c'' None 1) pa_shortId = Some nodes' \<and>
    sibling_ids nodes' None = [''a'', ''c'', ''d'']"
proof -
  obtain nodes where n: "toTreeNodes some_pages pa_shortId = Some nodes" using toTreeNodes_ends [OF some_pages_ok] by blast
  have "''c'' \<in> pa_id ` set some_pages" by (simp add: some_pages_def a_page_def)
  from page_move_shows [OF some_pages_ok this n, of None 1] obtain nodes' where
    m: "toTreeNodes (movedIn some_pages ''c'' None 1) pa_shortId = Some nodes'"
       "sibling_ids nodes' None = moved_to nodes ''c'' None 1" by (metis (full_types))
  have "sibling_ids nodes None = [''a'', ''d'']"
    using sibling_pages [OF some_pages_ok n, of None] by (simp add: some_pages_def a_page_def pages_under_def)
  then show ?thesis using m by (simp add: moved_to_def insert_at_def)
qed

text \<open>
  C22: What goes with a page to the trash is exactly the page and every page that has it among its
  ancestors, however deep, in whatever order the list has them and also when a parent refers to a
  cycle: the sweeps end, and they miss no descendant and take no other page.
\<close>

theorem subtree_is_descendants:
  assumes "pages_ok ps" and "i \<noteq> []"
  shows "x \<in> set (subtreeOf ps i) \<longleftrightarrow> (\<exists>k. ancestor ps k x = Some i)"
proof
  have "\<exists>k. ancestor ps k i = Some i" by (intro exI [of _ 0]) simp
  then have "\<forall>x\<in>set [i]. \<exists>k. ancestor ps k x = Some i" by simp
  from subtree_loop_sound [OF assms(1) this]
  show "x \<in> set (subtreeOf ps i) \<Longrightarrow> \<exists>k. ancestor ps k x = Some i" by (simp add: subtreeOf_def)
  show "\<exists>k. ancestor ps k x = Some i \<Longrightarrow> x \<in> set (subtreeOf ps i)" using subtree_loop_complete [OF assms] by blast
qed

theorem subtree_is_descendants_witness: "''c'' \<in> set (subtreeOf some_pages ''a'')"
proof -
  have "ancestor some_pages 2 ''c'' = Some ''a''"
    by (simp add: some_pages_def a_page_def parent_of_def page_by_id_def numeral_2_eq_2)
  then show ?thesis using subtree_is_descendants [OF some_pages_ok, of "''a''" "''c''"] by blast
qed

end
