(* ===== verification/Page_Screen.thy ===== *)
theory Page_Screen
  imports Page_Tree Label_Search
begin

text \<open>
  The page's screen: its title edited in place (\<open>pages/Page/PageTitle.tsx\<close>), what is shown for the query's answer
  (\<open>pages/Page/Page.tsx\<close>), the trail to it (\<open>widgets/Layout/PageCrumbs.tsx\<close>) and creating pages from the sidebar
  (\<open>widgets/Layout/Sidebar/PagesSection.tsx\<close>). Characters are those of Latin-1, as \<open>trim\<close> needs.
\<close>

section \<open>The title\<close>

text \<open>\<open>ti_title\<close> is the prop of the last render, \<open>ti_cancelled\<close> the flag of Esc.\<close>

record title_field =
  ti_title :: string
  ti_draft :: string
  ti_saved :: string
  ti_cancelled :: bool

definition new_title :: "string \<Rightarrow> title_field" where
  "new_title t = \<lparr>ti_title = t, ti_draft = t, ti_saved = t, ti_cancelled = False\<rparr>"

text \<open>The adjustment during render: the draft follows unless it holds an edit.\<close>

definition render_title :: "title_field \<Rightarrow> title_field" where
  "render_title s =
    (if ti_title s \<noteq> ti_saved s
     then s\<lparr>ti_saved := ti_title s, ti_draft := (if ti_draft s = ti_saved s then ti_title s else ti_draft s)\<rparr>
     else s)"

definition save_title :: "title_field \<Rightarrow> title_field \<times> string list" where
  "save_title s =
    (if ti_cancelled s then (s\<lparr>ti_cancelled := False\<rparr>, [])
     else (let v = trim (ti_draft s) in (s\<lparr>ti_draft := v\<rparr>, if v \<noteq> ti_saved s then [v] else [])))"

datatype title_event = TitleIs string | TitleTyped string | TitleBlurred | TitleKey string

text \<open>Enter and Esc leave the field, which saves; the result is what \<open>onSave\<close> is called with.\<close>

definition title_step :: "title_field \<Rightarrow> title_event \<Rightarrow> title_field \<times> string list" where
  "title_step s e =
    (case e of
      TitleIs t \<Rightarrow> (render_title (s\<lparr>ti_title := t\<rparr>), [])
    | TitleTyped v \<Rightarrow> (s\<lparr>ti_draft := v\<rparr>, [])
    | TitleBlurred \<Rightarrow> save_title s
    | TitleKey key \<Rightarrow>
        if key = ''Enter'' then save_title s
        else if key = ''Escape'' then save_title (s\<lparr>ti_cancelled := True, ti_draft := ti_saved s\<rparr>)
        else (s, []))"

section \<open>What the page shows\<close>

record page_answer =
  an_id :: string
  an_title :: string
  an_type :: string
  an_deletedAt :: "string option"
  an_deletedRoot :: "string option"

datatype page_query = QueryPending | QueryFailed "nat option" | QueryDone page_answer

datatype page_shown = ShowNothing | ShowMissing | ShowError | ShowTrashed string bool | ShowCanvas page_answer

text \<open>The error is the status of the server's answer, if there was one.\<close>

definition isNotFound :: "nat option \<Rightarrow> bool" where
  "isNotFound status \<longleftrightarrow> status = Some 404"

definition page_shown :: "page_query \<Rightarrow> page_shown" where
  "page_shown q =
    (case q of
      QueryPending \<Rightarrow> ShowNothing
    | QueryFailed status \<Rightarrow> if isNotFound status then ShowMissing else ShowError
    | QueryDone p \<Rightarrow>
        if truthy (an_deletedAt p)
        then (let root = (case an_deletedRoot p of Some r \<Rightarrow> r | None \<Rightarrow> an_id p) in ShowTrashed root (root \<noteq> an_id p))
        else ShowCanvas p)"

definition group_children :: "page list \<Rightarrow> page_answer \<Rightarrow> page list" where
  "group_children ps p = pages_under ps (Some (an_id p))"

text \<open>The trail: a page's title, and its short id where it is a link. The outer option is \<open>pathTo\<close>'s.\<close>

definition crumbs :: "page list \<Rightarrow> string \<Rightarrow> (string \<times> string option) list option" where
  "crumbs ps shortId =
    (case find (\<lambda>p. pa_shortId p = shortId) ps of
      None \<Rightarrow> Some []
    | Some p \<Rightarrow>
        map_option (\<lambda>path. map (\<lambda>(i, each). (titleOf each, if Suc i = length path then None else Some (pa_shortId each)))
            (zip [0..<length path] path))
          (pathTo ps (pa_id p)))"

section \<open>Creating pages\<close>

record pages_section =
  ps_expanded :: "string list"

datatype section_effect = PageOpened string | CreateFailed "string option"

definition open_in :: "string option \<Rightarrow> pages_section \<Rightarrow> pages_section" where
  "open_in parentId s =
    (if truthy parentId \<and> the parentId \<notin> set (ps_expanded s) then s\<lparr>ps_expanded := ps_expanded s @ [the parentId]\<rparr> else s)"

text \<open>The answer of \<open>create\<close>, the new page's short id; a failure offers to try again under the same parent.\<close>

definition create_answered :: "string option \<Rightarrow> string option \<Rightarrow> pages_section \<Rightarrow> pages_section \<times> section_effect list" where
  "create_answered parentId answer s =
    (case answer of
      Some shortId \<Rightarrow> (open_in parentId s, [PageOpened shortId])
    | None \<Rightarrow> (s, [CreateFailed parentId]))"

section \<open>What is saved\<close>

lemma last_dropWhile: "dropWhile P xs \<noteq> [] \<Longrightarrow> last (dropWhile P xs) = last xs"
  by (metis dropWhile_eq_drop last_drop not_less drop_all)

lemma trim_ends: "trim s \<noteq> [] \<Longrightarrow> \<not> blank (hd (trim s)) \<and> \<not> blank (last (trim s))"
proof -
  let ?a = "dropWhile blank s" and ?b = "dropWhile blank (rev (dropWhile blank s))"
  assume "trim s \<noteq> []"
  then have b: "?b \<noteq> []" by (simp add: trim_def)
  then have a: "?a \<noteq> []" by (cases "dropWhile blank s") simp_all
  have "hd (trim s) = hd ?a" using b a by (simp add: trim_def hd_rev last_dropWhile last_rev)
  moreover have "last (trim s) = hd ?b" using b by (simp add: trim_def last_rev)
  ultimately show ?thesis using hd_dropWhile [OF a] hd_dropWhile [OF b] by simp
qed

lemma trim_trim: "trim (trim s) = trim s"
proof (cases "trim s")
  case Nil
  moreover have "trim [] = []" by (simp add: trim_def)
  ultimately show ?thesis by simp
next
  case (Cons c cs)
  then have "trim s \<noteq> []" by simp
  then have "\<not> blank (hd (trim s))" "\<not> blank (hd (rev (trim s)))"
    using trim_ends [OF \<open>trim s \<noteq> []\<close>] by (simp_all add: hd_rev)
  then have "dropWhile blank (trim s) = trim s" "dropWhile blank (rev (trim s)) = rev (trim s)"
    by (simp_all add: dropWhile_eq_self_iff)
  then show ?thesis by (simp add: trim_def [of "trim s"])
qed

definition title_run :: "title_event list \<Rightarrow> title_field \<Rightarrow> title_field" where
  "title_run es s = foldl (\<lambda>s e. fst (title_step s e)) s es"

definition title_ok :: "title_field \<Rightarrow> bool" where
  "title_ok s \<longleftrightarrow> ti_saved s = ti_title s \<and> \<not> ti_cancelled s"

lemma title_step_ok: "title_ok s \<Longrightarrow> title_ok (fst (title_step s e))"
  by (simp add: title_ok_def title_step_def render_title_def save_title_def Let_def split: title_event.split)

interpretation title: event_machine "\<lambda>s e. fst (title_step s e)" "\<lambda>_ _. True" title_ok
  by unfold_locales (rule title_step_ok)

lemma title_run_ok: "title_ok (title_run es (new_title t))"
proof -
  have "admissible (\<lambda>s e. fst (title_step s e)) (\<lambda>_ _. True) s es" for s by (rule admissible_all)
  moreover have "title_ok (new_title t)" by (simp add: title_ok_def new_title_def)
  ultimately show ?thesis unfolding title_run_def by (intro title.run_inv)
qed

lemma saved_edit:
  assumes "ti_saved s = ti_title s" and "\<not> ti_cancelled s" and "(s', vs) = save_title s"
  shows "vs = (if trim (ti_draft s) \<noteq> ti_title s then [trim (ti_draft s)] else [])" and "ti_draft s' = trim (ti_draft s)"
    and "trim (trim (ti_draft s)) = trim (ti_draft s)"
  using assms by (simp_all add: save_title_def Let_def trim_trim)

text \<open>
  C37: The title's field saves edits and nothing else. After any history of renders, typing and keys: what is saved is
  the draft without its outer blanks, only when the field is left or Enter is pressed, and only when it is not
  the title already; Esc saves nothing and puts the title back; and a rename elsewhere shows unless the field
  holds an edit, which stays.
\<close>

theorem title_saves_edits_only:
  assumes "s = title_run es (new_title t)" and "title_step s e = (s', vs)"
  shows "(\<forall>v\<in>set vs. (e = TitleBlurred \<or> e = TitleKey ''Enter'') \<and> v = trim (ti_draft s) \<and> trim v = v \<and> v \<noteq> ti_title s \<and>
      ti_draft s' = v) \<and>
    ((e = TitleBlurred \<or> e = TitleKey ''Enter'') \<and> trim (ti_draft s) \<noteq> ti_title s \<longrightarrow> vs = [trim (ti_draft s)]) \<and>
    (e = TitleKey ''Escape'' \<longrightarrow> vs = [] \<and> ti_draft s' = ti_title s) \<and>
    (\<forall>w. e = TitleIs w \<longrightarrow> ti_draft s' = (if ti_draft s = ti_title s then w else ti_draft s))"
proof -
  have "title_ok s" using assms(1) title_run_ok by simp
  then have ok: "ti_saved s = ti_title s" "\<not> ti_cancelled s" by (simp_all add: title_ok_def)
  show ?thesis
  proof (cases e)
    case (TitleIs w)
    then have "vs = []" "s' = render_title (s\<lparr>ti_title := w\<rparr>)" using assms(2) by (simp_all add: title_step_def)
    then show ?thesis using TitleIs ok by (simp add: render_title_def)
  next
    case (TitleTyped w)
    then have "vs = []" using assms(2) by (simp add: title_step_def)
    then show ?thesis using TitleTyped by simp
  next
    case TitleBlurred
    then have "(s', vs) = save_title s" using assms(2) by (simp add: title_step_def)
    then show ?thesis using TitleBlurred saved_edit [OF ok, of s' vs] by simp
  next
    case (TitleKey key)
    show ?thesis
    proof (cases "key = ''Enter''")
      case True
      then have "(s', vs) = save_title s" using assms(2) TitleKey by (simp add: title_step_def)
      then show ?thesis using TitleKey True saved_edit [OF ok, of s' vs] by simp
    next
      case False
      then have "vs = []" "key = ''Escape'' \<longrightarrow> ti_draft s' = ti_saved s"
        using assms(2) TitleKey by (auto simp: title_step_def save_title_def split: if_split_asm)
      then show ?thesis using TitleKey False ok by simp
    qed
  qed
qed

definition rename_twice :: "title_event list" where
  "rename_twice = [TitleTyped '' Plans  '', TitleIs ''Plan'']"

theorem title_saves_edits_only_witness:
  "snd (title_step (title_run rename_twice (new_title ''Draft'')) (TitleKey ''Enter'')) = [''Plans'']"
proof -
  let ?s = "title_run rename_twice (new_title ''Draft'')"
  have v: "trim (ti_draft ?s) = ''Plans''" "trim (ti_draft ?s) \<noteq> ti_title ?s" by code_simp+
  have "TitleKey ''Enter'' = TitleKey ''Enter'' \<and> trim (ti_draft ?s) \<noteq> ti_title ?s \<longrightarrow>
      snd (title_step ?s (TitleKey ''Enter'')) = [trim (ti_draft ?s)]"
    using title_saves_edits_only [OF refl prod.collapse [symmetric], of rename_twice "''Draft''" "TitleKey ''Enter''"] by blast
  then show ?thesis using v by simp
qed

text \<open>A rename of a page the cached tree does not have changes nothing, sends nothing and says nothing.\<close>

lemma rename_lost: "find_page c i = None \<Longrightarrow> rename_page i v c = c"
  by (simp add: rename_page_def)

lemma rename_lost_unloaded: "pc_tree c = None \<Longrightarrow> rename_page i v c = c"
  by (rule rename_lost) (simp add: find_page_def cached_tree_def)

section \<open>The trail\<close>

text \<open>Over a list whose pages are all under a root the trail ends at the page itself, the only part without a link.\<close>

lemma crumbs_last:
  assumes "crumbs ps shortId = Some cs" and "cs \<noteq> []"
  shows "snd (last cs) = None" and "\<forall>c\<in>set (butlast cs). snd c \<noteq> None"
proof -
  obtain p where p: "find (\<lambda>p. pa_shortId p = shortId) ps = Some p"
    using assms by (cases "find (\<lambda>p. pa_shortId p = shortId) ps") (auto simp: crumbs_def)
  obtain path where path: "pathTo ps (pa_id p) = Some path" using assms(1) p by (auto simp: crumbs_def)
  have cs: "cs = map (\<lambda>(i, each). (titleOf each, if Suc i = length path then None else Some (pa_shortId each)))
      (zip [0..<length path] path)"
    using assms(1) p path by (simp add: crumbs_def)
  have len: "length cs = length path" by (simp add: cs)
  have at: "i < length path \<Longrightarrow> snd (cs ! i) = (if Suc i = length path then None else Some (pa_shortId (path ! i)))" for i
    by (simp add: cs)
  show "snd (last cs) = None" using at [of "length path - 1"] len assms(2) by (cases "length path") (simp_all add: last_conv_nth)
  show "\<forall>c\<in>set (butlast cs). snd c \<noteq> None"
  proof
    fix c assume "c \<in> set (butlast cs)"
    then obtain i where "i < length (butlast cs)" "c = butlast cs ! i" by (auto simp: in_set_conv_nth)
    then have "Suc i < length path" "c = cs ! i" by (simp_all add: len nth_butlast)
    then show "snd c \<noteq> None" using at [of i] by simp
  qed
qed

lemma create_opens:
  "snd (create_answered parentId (Some i) s) = [PageOpened i]"
  "truthy parentId \<Longrightarrow> the parentId \<in> set (ps_expanded (fst (create_answered parentId (Some i) s)))"
  "create_answered parentId None s = (s, [CreateFailed parentId])"
  by (auto simp: create_answered_def open_in_def)

end
