(* ===== verification/Tree_View.thy ===== *)
theory Tree_View
  imports Tree_Model
begin

text \<open>
  The tree as a component (\<open>ui-kit/src/components/Tree/Tree.tsx\<close>): its state between renders, the
  cursor derived from it, loading of children, and what the keyboard, the rows' controls and the
  handle do. What it tells the app or the browser (\<open>onMove\<close>, \<open>onRename\<close>, \<open>loadChildren\<close>, opening a
  page) is a list of effects; the expanded set is the app's, which keeps what it is given. Every
  operation that climbs the tree gives an option, as \<open>ancestorsOf\<close> does.
\<close>

section \<open>State\<close>

datatype load = LdPending | LdFailed | LdDone

record tree_props =
  tp_nodes :: "tree_node list"
  tp_activeId :: "string option"
  tp_loadChildren :: bool
  tp_onRename :: bool
  tp_onMove :: bool
  tp_actions :: bool
  tp_router :: bool

datatype tree_effect =
    EffLoad string
  | EffMove string "string option" nat
  | EffRename string string
  | EffNavigate string
  | EffNewTab string
  | EffAssign string
  | EffAnnounce string
  | EffMenu string
  | EffHandled

record tree_view =
  tv_expanded :: "string list"
  tv_loads :: "(string, load) js_map"
  tv_cursorId :: "string option"
  tv_renamingId :: "string option"
  tv_menuNodeId :: "string option"
  tv_reveal :: bool
  tv_lastCursorIndex :: nat
  tv_effects :: "tree_effect list"

definition new_view :: "tree_props \<Rightarrow> string list \<Rightarrow> tree_view" where
  "new_view p ex =
    \<lparr>tv_expanded = ex, tv_loads = [], tv_cursorId = tp_activeId p, tv_renamingId = None, tv_menuNodeId = None,
     tv_reveal = False, tv_lastCursorIndex = 0, tv_effects = []\<rparr>"

definition effect :: "tree_effect \<Rightarrow> tree_view \<Rightarrow> tree_view" where
  "effect e v = v\<lparr>tv_effects := tv_effects v @ [e]\<rparr>"

definition tv_index :: "tree_props \<Rightarrow> tree_index" where
  "tv_index p = indexTree (tp_nodes p)"

definition tv_rows :: "tree_props \<Rightarrow> tree_view \<Rightarrow> tree_row list" where
  "tv_rows p v = visibleRows (tp_nodes p) (\<lambda>i. i \<in> set (tv_expanded v))
    (\<lambda>i. if js_get (tv_loads v) i = Some LdFailed then Some LoadFailed else None)"

definition nodeRows :: "tree_props \<Rightarrow> tree_view \<Rightarrow> node_row list" where
  "nodeRows p v = node_rows (tv_rows p v)"

definition row_id :: "node_row \<Rightarrow> string" where
  "row_id r = tn_id (nr_node r)"

text \<open>\<open>rowById\<close>: of two rows with one id the later one.\<close>

definition rowById :: "tree_props \<Rightarrow> tree_view \<Rightarrow> string \<Rightarrow> node_row option" where
  "rowById p v i = map_of (rev (map (\<lambda>r. (row_id r, r)) (nodeRows p v))) i"

definition shown :: "tree_props \<Rightarrow> tree_view \<Rightarrow> string \<Rightarrow> bool" where
  "shown p v i \<longleftrightarrow> rowById p v i \<noteq> None"

section \<open>The cursor\<close>

text \<open>Hidden by a collapse: to the nearest visible ancestor; gone: to the row that took its place.\<close>

definition cursor_fallback :: "tree_props \<Rightarrow> tree_view \<Rightarrow> string option" where
  "cursor_fallback p v =
    (if tp_activeId p \<noteq> None \<and> shown p v (the (tp_activeId p)) then tp_activeId p
     else if nodeRows p v = [] then None
     else Some (row_id (nodeRows p v ! min (tv_lastCursorIndex v) (length (nodeRows p v) - 1))))"

definition cursor :: "tree_props \<Rightarrow> tree_view \<Rightarrow> string option option" where
  "cursor p v =
    (case tv_cursorId v of
      None \<Rightarrow> Some (cursor_fallback p v)
    | Some i \<Rightarrow>
        if shown p v i then Some (Some i)
        else map_option (\<lambda>as.
            (let a = List.find (shown p v) (rev as) in if truthy a then a else cursor_fallback p v))
          (ancestorsOf (tv_index p) i))"

text \<open>Adjusted during render: where the cursor stands.\<close>

definition render :: "tree_props \<Rightarrow> tree_view \<Rightarrow> tree_view option" where
  "render p v = map_option (\<lambda>c.
      (case find_index (\<lambda>r. Some (row_id r) = c) (nodeRows p v) of
        None \<Rightarrow> v
      | Some k \<Rightarrow> v\<lparr>tv_lastCursorIndex := k\<rparr>))
    (cursor p v)"

section \<open>Opening, loading, the open page\<close>

definition set_add :: "string \<Rightarrow> string list \<Rightarrow> string list" where
  "set_add i xs = (if i \<in> set xs then xs else xs @ [i])"

definition setOpen :: "string list \<Rightarrow> bool \<Rightarrow> tree_view \<Rightarrow> tree_view" where
  "setOpen ids opened v =
    v\<lparr>tv_expanded := fold (\<lambda>i xs. if opened then set_add i xs else filter (\<lambda>j. j \<noteq> i) xs) ids (tv_expanded v)\<rparr>"

text \<open>\<open>startLoads\<close>: lists that are in the data now are forgotten, lists on screen and missing are asked for.\<close>

definition forget_loaded :: "tree_props \<Rightarrow> (string, load) js_map \<Rightarrow> (string, load) js_map" where
  "forget_loaded p m =
    filter (\<lambda>(i, _). Option.bind (js_get (tv_index p) i) (tn_children \<circ> np_node) = None) m"

definition wants_load :: "tree_props \<Rightarrow> (string, load) js_map \<Rightarrow> node_row \<Rightarrow> bool" where
  "wants_load p loads r \<longleftrightarrow>
    nr_expanded r \<and> tn_children (nr_node r) = None \<and> \<not> js_has loads (row_id r) \<and> tp_loadChildren p"

definition startLoads :: "tree_props \<Rightarrow> tree_view \<Rightarrow> tree_view" where
  "startLoads p v =
    (let loads = tv_loads v; asked = filter (wants_load p loads) (nodeRows p v) in
     v\<lparr>tv_loads := fold (\<lambda>r. js_set (row_id r) LdPending) asked (forget_loaded p loads),
       tv_effects := tv_effects v @ map (\<lambda>r. EffLoad (row_id r)) asked\<rparr>)"

definition load_settled :: "string \<Rightarrow> bool \<Rightarrow> tree_view \<Rightarrow> tree_view" where
  "load_settled i ok v = v\<lparr>tv_loads := js_set i (if ok then LdDone else LdFailed) (tv_loads v)\<rparr>"

definition retryLoad :: "string \<Rightarrow> tree_view \<Rightarrow> tree_view" where
  "retryLoad i v = v\<lparr>tv_loads := js_del i (tv_loads v)\<rparr>"

definition open_closed :: "string list \<Rightarrow> tree_view \<Rightarrow> tree_view" where
  "open_closed ids v =
    (let closed = filter (\<lambda>i. i \<notin> set (tv_expanded v)) ids in if closed = [] then v else setOpen closed True v)"

definition openActivePath :: "tree_props \<Rightarrow> tree_view \<Rightarrow> tree_view option" where
  "openActivePath p v =
    (case tp_activeId p of
      None \<Rightarrow> Some v
    | Some i \<Rightarrow> map_option (\<lambda>as. open_closed as v) (ancestorsOf (tv_index p) i))"

definition active_changed :: "tree_props \<Rightarrow> bool \<Rightarrow> tree_view \<Rightarrow> tree_view" where
  "active_changed p focused v =
    (if tp_activeId p \<noteq> None \<and> \<not> focused then v\<lparr>tv_cursorId := tp_activeId p\<rparr> else v)"

section \<open>Actions\<close>

definition openNode :: "tree_props \<Rightarrow> tree_node \<Rightarrow> bool \<Rightarrow> tree_view \<Rightarrow> tree_view" where
  "openNode p n newTab v =
    (if \<not> truthy (tn_href n)
     then (if isExpandable n then setOpen [tn_id n] (tn_id n \<notin> set (tv_expanded v)) v else v)
     else (let href = the (tn_href n) in
       if newTab then effect (EffNewTab href) v
       else if tp_router p then effect (EffNavigate href) v else effect (EffAssign href) v))"

definition tv_move :: "tree_props \<Rightarrow> string \<Rightarrow> string option \<Rightarrow> nat \<Rightarrow> string option \<Rightarrow> tree_view \<Rightarrow> tree_view" where
  "tv_move p i par position expand v =
    (let v1 = (case expand of None \<Rightarrow> v | Some e \<Rightarrow> if e \<in> set (tv_expanded v) then v else setOpen [e] True v);
         v2 = (if tp_onMove p then effect (EffMove i par position) v1 else v1)
     in case js_get (tv_index p) i of
          None \<Rightarrow> v2
        | Some q \<Rightarrow> effect (EffAnnounce (tn_label (np_node q))) v2)"

definition drop_moved :: "tree_props \<Rightarrow> string \<Rightarrow> drop_target \<Rightarrow> tree_view \<Rightarrow> tree_view" where
  "drop_moved p i t v = tv_move p i (dt_parentId t) (dt_index t) (dt_onto t) v"

definition openMenu :: "tree_props \<Rightarrow> string \<Rightarrow> bool \<Rightarrow> tree_view \<Rightarrow> tree_view" where
  "openMenu p i anchored v =
    (if \<not> tp_actions p \<or> \<not> anchored then v else effect (EffMenu i) (v\<lparr>tv_menuNodeId := Some i\<rparr>))"

definition moveCursor :: "string option \<Rightarrow> tree_view \<Rightarrow> tree_view" where
  "moveCursor i v = (if i = None then v else v\<lparr>tv_reveal := True, tv_cursorId := i\<rparr>)"

text \<open>The rows' controls: a click (on its link or beside it), the chevron, \<dots>, the end of a rename.\<close>

definition row_click :: "tree_props \<Rightarrow> tree_node \<Rightarrow> bool \<Rightarrow> bool \<Rightarrow> tree_view \<Rightarrow> tree_view" where
  "row_click p n onLink newTab v =
    (let v' = v\<lparr>tv_cursorId := Some (tn_id n)\<rparr> in if onLink then v' else openNode p n newTab v')"

definition row_toggle :: "string \<Rightarrow> tree_view \<Rightarrow> tree_view" where
  "row_toggle i v = setOpen [i] (i \<notin> set (tv_expanded v)) (v\<lparr>tv_cursorId := Some i\<rparr>)"

definition row_more :: "tree_props \<Rightarrow> string \<Rightarrow> tree_view \<Rightarrow> tree_view" where
  "row_more p i v = openMenu p i True (v\<lparr>tv_cursorId := Some i\<rparr>)"

text \<open>The value of the field (none when given up) is trimmed by the browser's rule, a parameter.\<close>

definition renamed :: "(string \<Rightarrow> string) \<Rightarrow> tree_props \<Rightarrow> string \<Rightarrow> string option \<Rightarrow> tree_view \<Rightarrow> tree_view" where
  "renamed trim p i value v =
    (let v' = v\<lparr>tv_renamingId := None\<rparr>; label = map_option trim value in
     case js_get (tv_index p) i of
       None \<Rightarrow> v'
     | Some q \<Rightarrow>
         if truthy label \<and> the label \<noteq> tn_label (np_node q) \<and> tp_onRename p
         then effect (EffRename i (the label)) v' else v')"

definition canDrag :: "tree_node \<Rightarrow> tree_view \<Rightarrow> bool" where
  "canDrag n v \<longleftrightarrow> tn_disabledReason n = None \<and> tv_renamingId v \<noteq> Some (tn_id n)"

definition handle_rename :: "string \<Rightarrow> tree_view \<Rightarrow> tree_view" where
  "handle_rename i v = v\<lparr>tv_cursorId := Some i, tv_renamingId := Some i\<rparr>"

definition handle_reveal :: "tree_props \<Rightarrow> string option \<Rightarrow> tree_view \<Rightarrow> tree_view option" where
  "handle_reveal p given v =
    (case (if given = None then tp_activeId p else given) of
      None \<Rightarrow> Some v
    | Some i \<Rightarrow>
        if \<not> js_has (tv_index p) i then Some v
        else map_option (\<lambda>as. (open_closed as v)\<lparr>tv_cursorId := Some i, tv_reveal := True\<rparr>)
          (ancestorsOf (tv_index p) i))"

section \<open>The keyboard\<close>

record key_event =
  ke_key :: string
  ke_mod :: bool
  ke_alt :: bool
  ke_shift :: bool
  ke_own :: bool
  ke_composing :: bool
  ke_appHotkey :: bool

definition MOVE_KEYS :: "string \<Rightarrow> keyboard_move option" where
  "MOVE_KEYS = [''ArrowUp'' \<mapsto> MoveUp, ''ArrowDown'' \<mapsto> MoveDown, ''ArrowRight'' \<mapsto> MoveIn, ''ArrowLeft'' \<mapsto> MoveOut]"

definition isMenuKey :: "key_event \<Rightarrow> bool" where
  "isMenuKey e \<longleftrightarrow> ke_key e = ''ContextMenu'' \<or> ke_key e = ''F10'' \<and> ke_shift e"

definition id_at :: "node_row list \<Rightarrow> nat \<Rightarrow> string option" where
  "id_at rs k = (if k < length rs then Some (row_id (rs ! k)) else None)"

definition key_right :: "tree_props \<Rightarrow> node_row \<Rightarrow> nat \<Rightarrow> tree_view \<Rightarrow> tree_view" where
  "key_right p r position v =
    (let i = row_id r; rs = nodeRows p v in
     if \<not> isExpandable (nr_node r) then v
     else if \<not> nr_expanded r then setOpen [i] True v
     else if js_get (tv_loads v) i = Some LdFailed then retryLoad i v
     else if position + 1 < length rs \<and> nr_parentId (rs ! (position + 1)) = Some i
     then moveCursor (Some (row_id (rs ! (position + 1)))) v else v)"

definition key_left :: "node_row \<Rightarrow> tree_view \<Rightarrow> tree_view" where
  "key_left r v =
    (if nr_expanded r then setOpen [row_id r] False v
     else if nr_parentId r \<noteq> None then moveCursor (nr_parentId r) v else v)"

definition key_star :: "tree_props \<Rightarrow> node_row \<Rightarrow> tree_view \<Rightarrow> tree_view" where
  "key_star p r v =
    setOpen (map tn_id (filter isExpandable (childrenOf (tp_nodes p) (tv_index p) (nr_parentId r)))) True v"

definition key_move :: "tree_props \<Rightarrow> string \<Rightarrow> keyboard_move \<Rightarrow> tree_view \<Rightarrow> tree_view" where
  "key_move p i mv v =
    (case (if tp_onMove p then keyboardMove (tp_nodes p) (tv_index p) i mv else None) of
      None \<Rightarrow> v
    | Some t \<Rightarrow> tv_move p i (mt_parentId t) (mt_index t) (mt_expand t) (v\<lparr>tv_reveal := True\<rparr>))"

text \<open>The switch over a key without modifiers (\<open>Enter\<close> may have mod); \<open>''\<close> trims to nothing.\<close>

definition plain_key :: "(string \<Rightarrow> string) \<Rightarrow> tree_props \<Rightarrow> key_event \<Rightarrow> node_row \<Rightarrow> nat \<Rightarrow> tree_view \<Rightarrow> tree_view" where
  "plain_key lower p e r position v =
    (let k = ke_key e; rs = nodeRows p v; h = effect EffHandled v in
     if k = ''ArrowDown'' then moveCursor (id_at rs (min (length rs - 1) (position + 1))) h
     else if k = ''ArrowUp'' then moveCursor (id_at rs (position - 1)) h
     else if k = ''Home'' then moveCursor (id_at rs 0) h
     else if k = ''End'' then moveCursor (id_at rs (length rs - 1)) h
     else if k = ''ArrowRight'' then key_right p r position h
     else if k = ''ArrowLeft'' then key_left r h
     else if k = ''Enter'' then openNode p (nr_node r) (ke_mod e) h
     else if k = ''F2'' then
       (if tp_onRename p \<and> tn_disabledReason (nr_node r) = None then h\<lparr>tv_renamingId := Some (row_id r)\<rparr> else v)
     else if k = ''*'' then key_star p r h
     else if length k = 1 \<and> k \<noteq> '' '' \<and> \<not> ke_appHotkey e
     then moveCursor (nextByLetter lower (tv_rows p v) (Some (row_id r)) k) h
     else v)"

definition handle_key ::
  "(string \<Rightarrow> string) \<Rightarrow> tree_props \<Rightarrow> key_event \<Rightarrow> tree_view \<Rightarrow> tree_view option" where
  "handle_key lower p e v = map_option (\<lambda>c.
     (case Option.bind c (rowById p v) of
       None \<Rightarrow> v
     | Some r \<Rightarrow>
         (case find_index (\<lambda>x. x = r) (nodeRows p v) of
           None \<Rightarrow> v
         | Some position \<Rightarrow>
             if \<not> ke_own e \<or> ke_composing e then v
             else if isMenuKey e then
               (if tp_actions p then openMenu p (row_id r) True (effect EffHandled v) else v)
             else if ke_mod e \<and> MOVE_KEYS (ke_key e) \<noteq> None
             then key_move p (row_id r) (the (MOVE_KEYS (ke_key e))) (effect EffHandled v)
             else if ke_alt e \<or> ke_mod e \<and> ke_key e \<noteq> ''Enter'' then v
             else plain_key lower p e r position v)))
   (cursor p v)"

section \<open>What is on screen\<close>

lemma node_rows_mem: "r \<in> set (node_rows rs) \<longleftrightarrow> RowNode r \<in> set rs"
  by (induction rs) (auto simp: node_rows_def split: tree_row.splits)

lemma node_rows_simps [simp]:
  "node_rows [] = []" "node_rows (RowNode r # rs) = r # node_rows rs" "node_rows (RowNote k i n # rs) = node_rows rs"
  "node_rows (rs @ rs') = node_rows rs @ node_rows rs'"
  by (simp_all add: node_rows_def)

lemma node_rows_loads:
  "node_rows (visible_walk ex loads par d count pos ns) = node_rows (visible_walk ex loads' par d count pos ns)"
proof (induction ex loads par d count pos ns rule: visible_walk.induct)
  case (2 ex loads par d count pos i l h cs cc dis hr ns)
  show ?case
    using "2.IH"(1) [OF refl refl] "2.IH"(2) [OF refl refl]
    by (cases cs) (simp_all add: Let_def)
qed simp

lemma nodeRows_loads: "tv_expanded v = tv_expanded w \<Longrightarrow> nodeRows p v = nodeRows p w"
  unfolding nodeRows_def tv_rows_def visibleRows_def by simp (rule node_rows_loads)

lemma shown_iff: "shown p v i \<longleftrightarrow> (\<exists>r\<in>set (nodeRows p v). row_id r = i)"
  by (force simp: shown_def rowById_def map_of_eq_None_iff)

lemma find_rev_last:
  assumes "k < length as" and "P (as ! k)" and "\<forall>l<length as. k < l \<longrightarrow> \<not> P (as ! l)"
  shows "List.find P (rev as) = Some (as ! k)"
proof -
  have "rev as ! (length as - Suc k) = as ! k" using assms(1) by (simp add: rev_nth)
  moreover have "\<not> P (rev as ! j)" if "j < length as - Suc k" for j
    using assms that by (simp add: rev_nth)
  ultimately show ?thesis
    using assms(1,2) unfolding find_Some_iff by (intro exI [of _ "length as - Suc k"]) auto
qed

lemma cursor_fallback_shown:
  assumes "nodeRows p v \<noteq> []"
  shows "\<exists>r\<in>set (nodeRows p v). cursor_fallback p v = Some (row_id r)"
proof (cases "tp_activeId p \<noteq> None \<and> shown p v (the (tp_activeId p))")
  case True
  then show ?thesis by (auto simp: cursor_fallback_def shown_iff)
next
  case False
  have "min (tv_lastCursorIndex v) (length (nodeRows p v) - 1) < length (nodeRows p v)"
    using assms by (cases "nodeRows p v") (simp_all add: min_def)
  then show ?thesis using assms False by (auto simp: cursor_fallback_def)
qed

lemma climb_ends:
  assumes "unique_ids (tp_nodes p)"
  shows "\<exists>as. ancestorsOf (tv_index p) i = Some as"
proof (cases "js_get (tv_index p) i")
  case None
  then show ?thesis by (simp add: ancestorsOf_def parent_in_def)
next
  case (Some q)
  then show ?thesis using ancestors_end [OF assms] by (auto simp: tv_index_def)
qed

section \<open>Properties\<close>

text \<open>
  C29: The cursor is never lost: it is always computed (the climb ends), it stands on a row that is
  on screen whenever there is one, it is the node it was put on while that is on screen, and when
  that is hidden by a collapse it is its nearest ancestor that is on screen.
\<close>

theorem tree_cursor_never_lost:
  assumes "unique_ids (tp_nodes p)"
  shows "\<exists>c. cursor p v = Some c \<and>
    (nodeRows p v \<noteq> [] \<longrightarrow> (\<exists>r\<in>set (nodeRows p v). c = Some (row_id r))) \<and>
    (\<forall>i. tv_cursorId v = Some i \<and> shown p v i \<longrightarrow> c = Some i) \<and>
    (\<forall>i as k. tv_cursorId v = Some i \<and> \<not> shown p v i \<and> ancestorsOf (tv_index p) i = Some as \<and>
      k < length as \<and> shown p v (as ! k) \<and> as ! k \<noteq> [] \<and> (\<forall>l<length as. k < l \<longrightarrow> \<not> shown p v (as ! l)) \<longrightarrow>
      c = Some (as ! k))"
proof (cases "tv_cursorId v")
  case None
  then show ?thesis using cursor_fallback_shown [of p v] by (auto simp: cursor_def)
next
  case (Some i)
  obtain as where as: "ancestorsOf (tv_index p) i = Some as" using climb_ends [OF assms] by blast
  let ?a = "List.find (shown p v) (rev as)"
  let ?c = "if shown p v i then Some i else if truthy ?a then ?a else cursor_fallback p v"
  have "cursor p v = Some ?c" using Some as by (simp add: cursor_def Let_def)
  moreover have "\<exists>r\<in>set (nodeRows p v). ?c = Some (row_id r)" if "nodeRows p v \<noteq> []"
  proof (cases "shown p v i")
    case True
    then show ?thesis by (auto simp: shown_iff)
  next
    case False
    show ?thesis
    proof (cases "truthy ?a")
      case True
      then obtain a where "?a = Some a" "shown p v a" by (auto simp: truthy_def find_Some_iff split: option.splits)
      then show ?thesis using False True by (auto simp: shown_iff)
    qed (use False cursor_fallback_shown [OF that] in simp)
  qed
  moreover have "?c = Some (as ! k)"
    if "\<not> shown p v i" "k < length as" "shown p v (as ! k)" "as ! k \<noteq> []" "\<forall>l<length as. k < l \<longrightarrow> \<not> shown p v (as ! l)" for k
    using find_rev_last [OF that(2,3,5)] that by simp
  ultimately show ?thesis using Some as by (intro exI [of _ ?c]) simp
qed

definition small_props :: tree_props where
  "small_props = \<lparr>tp_nodes = small_tree, tp_activeId = None, tp_loadChildren = True, tp_onRename = True,
    tp_onMove = True, tp_actions = True, tp_router = True\<rparr>"

definition collapsed_view :: tree_view where
  "collapsed_view = (new_view small_props [])\<lparr>tv_cursorId := Some ''c''\<rparr>"

lemma small_rows: "map row_id (nodeRows small_props collapsed_view) = [''a'', ''e'']"
  by (simp add: nodeRows_def tv_rows_def small_props_def collapsed_view_def new_view_def small_tree_simps row_id_def)

theorem tree_cursor_never_lost_witness: "\<exists>i. cursor small_props collapsed_view = Some (Some i) \<and> i \<in> {''a'', ''e''}"
proof -
  have "unique_ids (tp_nodes small_props)" by (simp add: small_props_def small_tree_simps)
  then obtain c where "cursor small_props collapsed_view = Some c"
    "nodeRows small_props collapsed_view \<noteq> [] \<longrightarrow> (\<exists>r\<in>set (nodeRows small_props collapsed_view). c = Some (row_id r))"
    using tree_cursor_never_lost [of small_props collapsed_view] by blast
  moreover have "nodeRows small_props collapsed_view \<noteq> []" using small_rows by auto
  moreover have "row_id ` set (nodeRows small_props collapsed_view) = {''a'', ''e''}"
    using arg_cong [OF small_rows, of set] by simp
  ultimately show ?thesis by blast
qed

text \<open>
  Every list on screen that is missing is asked for, and no list is asked for twice: what was
  asked for is pending, and looking again without a change asks for nothing.
\<close>

theorem tree_loads_asked_once:
  assumes "unique_ids (tp_nodes p)" and "tp_loadChildren p"
  shows "(\<forall>r\<in>set (nodeRows p v). nr_expanded r \<and> tn_children (nr_node r) = None \<longrightarrow>
      js_has (tv_loads (startLoads p v)) (row_id r)) \<and>
    tv_effects (startLoads p (startLoads p v)) = tv_effects (startLoads p v)"
proof -
  let ?asked = "filter (wants_load p (tv_loads v)) (nodeRows p v)"
  have has_fold: "js_has (fold (\<lambda>r. js_set (row_id r) LdPending) rs m) i \<longleftrightarrow> i \<in> row_id ` set rs \<or> js_has m i" for rs m i
    by (induction rs arbitrary: m) auto
  have has_forget: "js_has (forget_loaded p m) (row_id r)"
    if "r \<in> set (nodeRows p v)" "tn_children (nr_node r) = None" "js_has m (row_id r)" for m r
  proof -
    have "js_get (tv_index p) (row_id r) =
        Some \<lparr>np_node = nr_node r, np_parentId = nr_parentId r, np_index = nr_index r, np_depth = nr_depth r\<rparr>"
      using that(1) row_get [OF assms(1)] unfolding nodeRows_def node_rows_mem tv_rows_def tv_index_def row_id_def by blast
    then show ?thesis using that(2,3) by (auto simp: js_has_keys js_keys_def forget_loaded_def)
  qed
  have loads: "js_has (tv_loads (startLoads p v)) (row_id r)"
    if "r \<in> set (nodeRows p v)" "nr_expanded r" "tn_children (nr_node r) = None" for r
  proof (cases "js_has (tv_loads v) (row_id r)")
    case True
    then show ?thesis using has_forget [OF that(1,3)] by (simp add: startLoads_def has_fold Let_def)
  next
    case False
    then have "r \<in> set ?asked" using that assms(2) by (simp add: wants_load_def)
    then show ?thesis by (auto simp: startLoads_def has_fold Let_def)
  qed
  have same: "nodeRows p (startLoads p v) = nodeRows p v"
    by (rule nodeRows_loads) (simp add: startLoads_def Let_def)
  have "filter (wants_load p (tv_loads (startLoads p v))) (nodeRows p (startLoads p v)) = []"
    unfolding same using loads by (auto simp: filter_empty_conv wants_load_def)
  then have "tv_effects (startLoads p (startLoads p v)) = tv_effects (startLoads p v)"
    by (simp add: startLoads_def [of p "startLoads p v"] Let_def)
  then show ?thesis using loads by blast
qed

definition lazy_props :: tree_props where
  "lazy_props = small_props\<lparr>tp_nodes := [TreeNode ''a'' ''a'' True None None None None]\<rparr>"

theorem tree_loads_asked_once_witness:
  "tv_effects (startLoads lazy_props (startLoads lazy_props (new_view lazy_props [''a'']))) = [EffLoad ''a'']"
  using tree_loads_asked_once [of lazy_props "new_view lazy_props [''a'']"]
  by (simp add: lazy_props_def small_props_def new_view_def small_tree_simps startLoads_def nodeRows_def tv_rows_def
      wants_load_def row_id_def js_has_def forget_loaded_def tv_index_def)

end
