(* ===== verification/Tooltips.thy ===== *)
theory Tooltips
  imports Complex_Main Label_Search
begin

text \<open>
  The app's single tooltip (\<open>ui-kit/src/components/Tooltip\<close>): what an element's attributes ask for
  (\<open>readTrigger.ts\<close>), the side and the point it is put at (\<open>placeTooltip.ts\<close>, over rational numbers), and the
  host (\<open>TooltipHost.tsx\<close>), a machine of the document's events. The document is a record of its elements; an
  event of the page's own changes brings the next one. The host writes one attribute, \<open>aria-describedby\<close>, and
  the page leaves that attribute alone.
\<close>

section \<open>Where it goes\<close>

record tip_size =
  sz_width :: rat
  sz_height :: rat

record dom_rect =
  rc_left :: rat
  rc_top :: rat
  rc_width :: rat
  rc_height :: rat

definition rc_right :: "dom_rect \<Rightarrow> rat" where
  "rc_right r = rc_left r + rc_width r"

definition rc_bottom :: "dom_rect \<Rightarrow> rat" where
  "rc_bottom r = rc_top r + rc_height r"

datatype tip_placement = TipTop | TipBottom | TipLeft | TipRight

fun OPPOSITE :: "tip_placement \<Rightarrow> tip_placement" where
  "OPPOSITE TipTop = TipBottom"
| "OPPOSITE TipBottom = TipTop"
| "OPPOSITE TipLeft = TipRight"
| "OPPOSITE TipRight = TipLeft"

definition placement_of :: "string \<Rightarrow> tip_placement option" where
  "placement_of v =
    (if v = ''top'' then Some TipTop else if v = ''bottom'' then Some TipBottom
     else if v = ''left'' then Some TipLeft else if v = ''right'' then Some TipRight else None)"

definition isVertical :: "tip_placement \<Rightarrow> bool" where
  "isVertical p \<longleftrightarrow> p = TipTop \<or> p = TipBottom"

definition clamp_between :: "rat \<Rightarrow> rat \<Rightarrow> rat \<Rightarrow> rat" where
  "clamp_between v lo hi = min (max v lo) hi"

definition room :: "tip_placement \<Rightarrow> dom_rect \<Rightarrow> tip_size \<Rightarrow> rat" where
  "room p trigger viewport =
    (case p of
      TipTop \<Rightarrow> rc_top trigger
    | TipBottom \<Rightarrow> sz_height viewport - rc_bottom trigger
    | TipLeft \<Rightarrow> rc_left trigger
    | TipRight \<Rightarrow> sz_width viewport - rc_right trigger)"

definition tip_need :: "tip_placement \<Rightarrow> tip_size \<Rightarrow> rat \<Rightarrow> rat \<Rightarrow> rat" where
  "tip_need p tip gap padding = (if isVertical p then sz_height tip else sz_width tip) + gap + padding"

definition tip_fits :: "tip_placement \<Rightarrow> dom_rect \<Rightarrow> tip_size \<Rightarrow> rat \<Rightarrow> rat \<Rightarrow> tip_size \<Rightarrow> bool" where
  "tip_fits p trigger tip gap padding viewport \<longleftrightarrow> tip_need p tip gap padding \<le> room p trigger viewport"

text \<open>\<open>Math.round\<close>: the nearest integer, halves upwards.\<close>

definition js_round :: "rat \<Rightarrow> int" where
  "js_round x = \<lfloor>x + 1 / 2\<rfloor>"

definition tip_side :: "dom_rect \<Rightarrow> tip_size \<Rightarrow> tip_placement \<Rightarrow> rat \<Rightarrow> rat \<Rightarrow> tip_size \<Rightarrow> tip_placement" where
  "tip_side trigger tip preferred gap padding viewport =
    (let opposite = OPPOSITE preferred; fits = (\<lambda>p. tip_fits p trigger tip gap padding viewport) in
     if fits preferred \<or> (\<not> fits opposite \<and> room opposite trigger viewport \<le> room preferred trigger viewport)
     then preferred else opposite)"

definition placeTooltip :: "dom_rect \<Rightarrow> tip_size \<Rightarrow> tip_placement \<Rightarrow> rat \<Rightarrow> rat \<Rightarrow> tip_size \<Rightarrow> int \<times> int \<times> tip_placement" where
  "placeTooltip trigger tip preferred gap padding viewport =
    (let placement = tip_side trigger tip preferred gap padding viewport;
         (x, y) =
           (if isVertical placement
            then (clamp_between (rc_left trigger + rc_width trigger / 2 - sz_width tip / 2) padding
                    (sz_width viewport - padding - sz_width tip),
                  if placement = TipTop then rc_top trigger - gap - sz_height tip else rc_bottom trigger + gap)
            else (if placement = TipLeft then rc_left trigger - gap - sz_width tip else rc_right trigger + gap,
                  clamp_between (rc_top trigger + rc_height trigger / 2 - sz_height tip / 2) padding
                    (sz_height viewport - padding - sz_height tip)))
     in (js_round x, js_round y, placement))"

section \<open>What a trigger asks for\<close>

record tip_element =
  te_tooltip :: "string option"
  te_reason :: "string option"
  te_keys :: "string option"
  te_placement :: "string option"
  te_overflow :: bool
  te_delay :: "string option"
  te_delay_number :: "rat option"
  te_scroll :: "rat \<times> rat"
  te_client :: "rat \<times> rat"
  te_text :: "string option"
  te_label :: "string option"
  te_expanded :: "string option"
  te_surface :: "string option"
  te_describedby :: "string option"
  te_connected :: bool
  te_ancestors :: "nat list"

text \<open>\<open>te_delay_number\<close> is what \<open>Number\<close> makes of the delay's attribute, if that is finite; \<open>te_ancestors\<close> are the
  element and what contains it, from the inside out.\<close>

record tip_content =
  tc_text :: string
  tc_keys :: "string option"
  tc_isReason :: bool
  tc_placement :: tip_placement
  tc_delay :: rat

definition tooltip_delay :: rat where
  "tooltip_delay = 400"

definition isTruncated :: "tip_element \<Rightarrow> bool" where
  "isTruncated e \<longleftrightarrow> fst (te_client e) < fst (te_scroll e) \<or> snd (te_client e) < snd (te_scroll e)"

definition readDelay :: "tip_element \<Rightarrow> rat" where
  "readDelay e =
    (if \<not> truthy (te_delay e) then tooltip_delay else (case te_delay_number e of Some d \<Rightarrow> d | None \<Rightarrow> tooltip_delay))"

definition text_or :: "string option \<Rightarrow> string" where
  "text_or t = (case t of Some s \<Rightarrow> s | None \<Rightarrow> [])"

definition readTrigger :: "tip_element \<Rightarrow> tip_content option" where
  "readTrigger e =
    (let placement = (case Option.bind (te_placement e) placement_of of Some p \<Rightarrow> p | None \<Rightarrow> TipTop);
         delay = readDelay e
     in if truthy (te_reason e)
        then Some \<lparr>tc_text = text_or (te_reason e), tc_keys = None, tc_isReason = True, tc_placement = placement, tc_delay = delay\<rparr>
        else if te_overflow e \<and> \<not> isTruncated e then None
        else (let shown = text_or (te_tooltip e);
                  txt = (if te_overflow e \<and> shown = [] then trim (text_or (te_text e)) else shown)
          in if txt = [] then None
             else Some \<lparr>tc_text = txt, tc_keys = (if truthy (te_keys e) then te_keys e else None), tc_isReason = False,
               tc_placement = placement, tc_delay = delay\<rparr>))"

section \<open>The document\<close>

record tip_document =
  td_el :: "nat \<Rightarrow> tip_element"
  td_layers :: "nat list"

definition contains :: "tip_document \<Rightarrow> nat \<Rightarrow> nat \<Rightarrow> bool" where
  "contains d x y \<longleftrightarrow> x \<in> set (te_ancestors (td_el d y))"

definition closestTrigger :: "tip_document \<Rightarrow> nat option \<Rightarrow> nat option" where
  "closestTrigger d target =
    Option.bind target (\<lambda>x. find (\<lambda>y. te_tooltip (td_el d y) \<noteq> None \<or> te_reason (td_el d y) \<noteq> None) (te_ancestors (td_el d x)))"

datatype surface_tone = ToneDefault | ToneInverse

definition surfaceOf :: "tip_document \<Rightarrow> nat \<Rightarrow> surface_tone" where
  "surfaceOf d x =
    (case find (\<lambda>y. te_surface (td_el d y) \<noteq> None) (te_ancestors (td_el d x)) of
      Some y \<Rightarrow> if te_surface (td_el d y) = Some ''inverse'' then ToneInverse else ToneDefault
    | None \<Rightarrow> ToneDefault)"

definition oppositeSurface :: "surface_tone \<Rightarrow> surface_tone" where
  "oppositeSurface t = (case t of ToneDefault \<Rightarrow> ToneInverse | ToneInverse \<Rightarrow> ToneDefault)"

definition topmostLayer :: "tip_document \<Rightarrow> nat option" where
  "topmostLayer d = (if td_layers d = [] then None else Some (last (td_layers d)))"

definition isUnderLayer :: "tip_document \<Rightarrow> nat \<Rightarrow> bool" where
  "isUnderLayer d x = (case topmostLayer d of Some l \<Rightarrow> \<not> contains d l x | None \<Rightarrow> False)"

definition isSilenced :: "tip_document \<Rightarrow> nat \<Rightarrow> bool" where
  "isSilenced d x \<longleftrightarrow> te_expanded (td_el d x) = Some ''true'' \<or> isUnderLayer d x"

definition TOOLTIP_ID :: string where
  "TOOLTIP_ID = ''tooltip''"

definition TOOLTIP_KEYS_ID :: string where
  "TOOLTIP_KEYS_ID = ''tooltip-keys''"

definition descriptionFor :: "tip_element \<Rightarrow> tip_content \<Rightarrow> string option" where
  "descriptionFor e c =
    (if tc_isReason c then Some TOOLTIP_ID
     else (let name = trim (case te_label e of Some l \<Rightarrow> l | None \<Rightarrow> text_or (te_text e)) in
       if tc_text c \<noteq> name then Some TOOLTIP_ID
       else if truthy (tc_keys c) then Some TOOLTIP_KEYS_ID else None))"

definition description_ids :: "tip_element \<Rightarrow> string list" where
  "description_ids e = parts blank (text_or (te_describedby e))"

definition toggled :: "string \<Rightarrow> bool \<Rightarrow> tip_element \<Rightarrow> tip_element" where
  "toggled i b e =
    (let ids = filter (\<lambda>w. w \<noteq> i) (description_ids e) @ (if b then [i] else [])
     in e\<lparr>te_describedby := (if ids = [] then None else Some (join '' '' ids))\<rparr>)"

definition toggleDescription :: "nat \<Rightarrow> string \<Rightarrow> bool \<Rightarrow> tip_document \<Rightarrow> tip_document" where
  "toggleDescription x i b d = d\<lparr>td_el := (td_el d)(x := toggled i b (td_el d x))\<rparr>"

section \<open>The host\<close>

datatype tip_source = Hover | Focus

record tip_view = tip_content +
  tv_trigger :: nat
  tv_tone :: surface_tone

text \<open>\<open>th_now\<close> is the clock of \<open>performance.now\<close>; \<open>th_timer\<close> is the trigger the timer will show, and when.\<close>

record tooltip_host =
  th_doc :: tip_document
  th_now :: rat
  th_active :: "(nat \<times> tip_source) option"
  th_visible :: bool
  th_timer :: "(nat \<times> rat) option"
  th_lastHiddenAt :: "rat option"
  th_suppressed :: "nat option"
  th_described :: "(nat \<times> string) option"
  th_view :: "tip_view option"

definition undescribe :: "tooltip_host \<Rightarrow> tooltip_host" where
  "undescribe s =
    (case th_described s of
      Some (x, i) \<Rightarrow> s\<lparr>th_doc := toggleDescription x i False (th_doc s), th_described := None\<rparr>
    | None \<Rightarrow> s)"

definition describe :: "nat \<Rightarrow> tip_content \<Rightarrow> tooltip_host \<Rightarrow> tooltip_host" where
  "describe x c s =
    (let s1 = undescribe s in
     case descriptionFor (td_el (th_doc s1) x) c of
       Some i \<Rightarrow> s1\<lparr>th_doc := toggleDescription x i True (th_doc s1), th_described := Some (x, i)\<rparr>
     | None \<Rightarrow> s1)"

definition hide_tip :: "tooltip_host \<Rightarrow> tooltip_host" where
  "hide_tip s =
    (let s1 = undescribe (s\<lparr>th_timer := None\<rparr>);
         s2 = (if th_visible s1 then s1\<lparr>th_lastHiddenAt := Some (th_now s1)\<rparr> else s1)
     in if th_active s2 \<noteq> None \<or> th_visible s2 then s2\<lparr>th_active := None, th_visible := False, th_view := None\<rparr> else s2)"

definition show_tip :: "nat \<Rightarrow> tip_source \<Rightarrow> tooltip_host \<Rightarrow> tooltip_host" where
  "show_tip x source s =
    (let s1 = s\<lparr>th_timer := None\<rparr>; e = td_el (th_doc s1) x in
     case (if te_connected e \<and> \<not> isSilenced (th_doc s1) x then readTrigger e else None) of
       None \<Rightarrow> hide_tip s1
     | Some c \<Rightarrow>
         (describe x c (s1\<lparr>th_active := Some (x, source), th_visible := True\<rparr>))
           \<lparr>th_view := Some (tip_content.extend c \<lparr>tv_trigger = x, tv_tone = oppositeSurface (surfaceOf (th_doc s1) x)\<rparr>)\<rparr>)"

definition tooltip_group_window :: rat where
  "tooltip_group_window = 300"

definition within_group :: "tooltip_host \<Rightarrow> bool" where
  "within_group s \<longleftrightarrow>
    th_visible s \<or> (case th_lastHiddenAt s of Some t \<Rightarrow> th_now s - t < tooltip_group_window | None \<Rightarrow> False)"

definition scheduleHover :: "nat \<Rightarrow> tooltip_host \<Rightarrow> tooltip_host" where
  "scheduleHover x s =
    (case readTrigger (td_el (th_doc s) x) of
      None \<Rightarrow> s
    | Some c \<Rightarrow>
        if isSilenced (th_doc s) x then s
        else (let s1 = s\<lparr>th_timer := None, th_active := Some (x, Hover)\<rparr> in
          if within_group s1 then show_tip x Hover s1
          else s1\<lparr>th_timer := Some (x, th_now s + max 0 (tc_delay c))\<rparr>))"

definition handlePointerOver :: "bool \<Rightarrow> nat option \<Rightarrow> tooltip_host \<Rightarrow> tooltip_host" where
  "handlePointerOver mouse target s =
    (if \<not> mouse then s
     else (case closestTrigger (th_doc s) target of
       None \<Rightarrow> s
     | Some x \<Rightarrow>
         if th_suppressed s = Some x then s
         else if map_option snd (th_active s) = Some Focus then s
         else if map_option fst (th_active s) = Some x then s
         else scheduleHover x s))"

text \<open>Whether the pointer or the focus goes to something inside an element.\<close>

definition goes_inside :: "tip_document \<Rightarrow> nat \<Rightarrow> nat option \<Rightarrow> bool" where
  "goes_inside d x related = (case related of Some y \<Rightarrow> contains d x y | None \<Rightarrow> False)"

definition handlePointerOut :: "bool \<Rightarrow> nat option \<Rightarrow> tooltip_host \<Rightarrow> tooltip_host" where
  "handlePointerOut mouse related s =
    (if \<not> mouse then s
     else (let s1 = (case th_suppressed s of
              Some y \<Rightarrow> if goes_inside (th_doc s) y related then s else s\<lparr>th_suppressed := None\<rparr> | None \<Rightarrow> s)
       in case th_active s1 of
            Some (x, Hover) \<Rightarrow> if goes_inside (th_doc s1) x related then s1 else hide_tip s1
          | _ \<Rightarrow> s1))"

definition handleFocusIn :: "nat option \<Rightarrow> bool \<Rightarrow> tooltip_host \<Rightarrow> tooltip_host" where
  "handleFocusIn target keyboard s =
    (case closestTrigger (th_doc s) target of
      Some x \<Rightarrow> if keyboard then show_tip x Focus s else s
    | None \<Rightarrow> s)"

definition handleFocusOut :: "nat option \<Rightarrow> tooltip_host \<Rightarrow> tooltip_host" where
  "handleFocusOut related s =
    (case th_active s of
      Some (x, Focus) \<Rightarrow> if goes_inside (th_doc s) x related then s else hide_tip s
    | _ \<Rightarrow> s)"

definition handlePointerDown :: "nat option \<Rightarrow> tooltip_host \<Rightarrow> tooltip_host" where
  "handlePointerDown target s = hide_tip (s\<lparr>th_suppressed := closestTrigger (th_doc s) target\<rparr>)"

definition tip_keydown :: "string \<Rightarrow> tooltip_host \<Rightarrow> tooltip_host" where
  "tip_keydown key s = (if key = ''Escape'' then hide_tip s else s)"

definition handleViewportChange :: "tooltip_host \<Rightarrow> tooltip_host" where
  "handleViewportChange s = (if th_active s \<noteq> None then hide_tip s else s)"

text \<open>
  \<open>{ ...current, ...content }\<close>: the content of a reason has no \<open>keys\<close> of its own, and that of a text no
  \<open>isReason\<close>, so those of the current view stay.
\<close>

definition merge_view :: "tip_content \<Rightarrow> tip_view \<Rightarrow> tip_view" where
  "merge_view c v = v
    \<lparr>tc_text := tc_text c, tc_keys := (if tc_isReason c then tc_keys v else tc_keys c),
     tc_isReason := (tc_isReason c \<or> tc_isReason v), tc_placement := tc_placement c, tc_delay := tc_delay c\<rparr>"

text \<open>The observer's batch, and whether there is a record of an attribute in it.\<close>

definition observed :: "bool \<Rightarrow> tooltip_host \<Rightarrow> tooltip_host" where
  "observed attributes s =
    (case th_active s of
      None \<Rightarrow> s
    | Some (x, _) \<Rightarrow>
        if \<not> te_connected (td_el (th_doc s) x) \<or> isSilenced (th_doc s) x then hide_tip s
        else if th_visible s \<and> attributes
        then (case readTrigger (td_el (th_doc s) x) of
          Some c \<Rightarrow> (describe x c s)\<lparr>th_view := map_option (merge_view c) (th_view s)\<rparr>
        | None \<Rightarrow> hide_tip s)
        else s)"

text \<open>
  The page changes the document; only while a tooltip is on screen is anything observed, and not every change is.
\<close>

definition page_changes :: "tip_document \<Rightarrow> tip_document \<Rightarrow> tip_document" where
  "page_changes d old = d\<lparr>td_el := (\<lambda>x. (td_el d x)\<lparr>te_describedby := te_describedby (td_el old x)\<rparr>)\<rparr>"

datatype tip_event =
  PointerOver bool "nat option"
| PointerOut bool "nat option"
| FocusIn "nat option" bool
| FocusOut "nat option"
| PointerDown "nat option"
| KeyDown string
| ViewportChange
| PageChanges tip_document bool bool
| ClockTicks nat
| ShowTimer

definition tip_step :: "tooltip_host \<Rightarrow> tip_event \<Rightarrow> tooltip_host" where
  "tip_step s ev =
    (case ev of
      PointerOver mouse target \<Rightarrow> handlePointerOver mouse target s
    | PointerOut mouse related \<Rightarrow> handlePointerOut mouse related s
    | FocusIn target keyboard \<Rightarrow> handleFocusIn target keyboard s
    | FocusOut related \<Rightarrow> handleFocusOut related s
    | PointerDown target \<Rightarrow> handlePointerDown target s
    | KeyDown key \<Rightarrow> tip_keydown key s
    | ViewportChange \<Rightarrow> handleViewportChange s
    | PageChanges d noticed attributes \<Rightarrow>
        (let s1 = s\<lparr>th_doc := page_changes d (th_doc s)\<rparr> in if th_visible s1 \<and> noticed then observed attributes s1 else s1)
    | ClockTicks n \<Rightarrow> s\<lparr>th_now := th_now s + of_nat n\<rparr>
    | ShowTimer \<Rightarrow>
        (case th_timer s of Some (x, t) \<Rightarrow> if t \<le> th_now s then show_tip x Hover s else s | None \<Rightarrow> s))"

definition new_host :: "tip_document \<Rightarrow> rat \<Rightarrow> tooltip_host" where
  "new_host d now = \<lparr>th_doc = d, th_now = now, th_active = None, th_visible = False, th_timer = None, th_lastHiddenAt = None,
    th_suppressed = None, th_described = None, th_view = None\<rparr>"

text \<open>The cleanup of the effect.\<close>

definition unmount_host :: "tooltip_host \<Rightarrow> tooltip_host" where
  "unmount_host s = (undescribe (s\<lparr>th_timer := None\<rparr>))\<lparr>th_view := None\<rparr>"

section \<open>The ids that describe an element\<close>

definition id_word :: "string \<Rightarrow> bool" where
  "id_word w \<longleftrightarrow> w \<noteq> [] \<and> (\<forall>c\<in>set w. \<not> blank c)"

lemma parts_id_words: "w \<in> set (parts blank s) \<Longrightarrow> id_word w"
  using split_by_words by (auto simp: parts_def id_word_def)

lemma split_by_word: "(\<forall>c\<in>set w. \<not> sep c) \<Longrightarrow> split_by sep w = [w]"
  by (induction w) simp_all

lemma split_by_sep: "(\<forall>c\<in>set w. \<not> sep c) \<Longrightarrow> sep b \<Longrightarrow> split_by sep (w @ b # rest) = w # split_by sep rest"
  by (induction w) simp_all

lemma parts_join: "(\<And>w. w \<in> set ws \<Longrightarrow> id_word w) \<Longrightarrow> parts blank (join '' '' ws) = ws"
proof (induction "'' ''" ws rule: join.induct)
  case (3 x y ys)
  have "\<forall>c\<in>set x. \<not> blank c" "x \<noteq> []" and IH: "parts blank (join '' '' (y # ys)) = y # ys"
    using 3(1) 3(2) [of x] 3(2) by (auto simp: id_word_def)
  moreover have "blank (CHR '' '')" by (simp add: blank_def char_code_def)
  ultimately have "parts blank (x @ '' '' @ join '' '' (y # ys)) = x # y # ys"
    by (simp add: parts_def split_by_sep del: join.simps)
  then show ?case by simp
qed (simp_all add: parts_def id_word_def split_by_word)

lemma describedby_ids: "description_ids (e\<lparr>te_describedby := t\<rparr>) = parts blank (text_or t)"
  by (simp add: description_ids_def)

lemma ids_toggled:
  assumes "id_word i"
  shows "description_ids (toggled i b e) = filter (\<lambda>w. w \<noteq> i) (description_ids e) @ (if b then [i] else [])"
proof -
  let ?ids = "filter (\<lambda>w. w \<noteq> i) (description_ids e) @ (if b then [i] else [])"
  have "w \<in> set ?ids \<Longrightarrow> id_word w" for w
    using assms parts_id_words by (auto simp: description_ids_def split: if_splits)
  then have "parts blank (join '' '' ?ids) = ?ids" by (rule parts_join)
  moreover have "description_ids (toggled i b e) = parts blank (join '' '' ?ids)"
    unfolding toggled_def Let_def describedby_ids by (cases "?ids = []") (simp_all only: if_False text_or_def join.simps option.case, simp_all)
  ultimately show ?thesis by simp
qed

definition tip_id :: "string \<Rightarrow> bool" where
  "tip_id w \<longleftrightarrow> w = TOOLTIP_ID \<or> w = TOOLTIP_KEYS_ID"

lemma tip_id_word: "tip_id w \<Longrightarrow> id_word w"
  by (auto simp: tip_id_def TOOLTIP_ID_def TOOLTIP_KEYS_ID_def id_word_def blank_def char_code_def)

definition own_ids :: "tip_document \<Rightarrow> nat \<Rightarrow> string list" where
  "own_ids d x = filter (\<lambda>w. \<not> tip_id w) (description_ids (td_el d x))"

definition tip_ids :: "tip_document \<Rightarrow> nat \<Rightarrow> string list" where
  "tip_ids d x = filter tip_id (description_ids (td_el d x))"

text \<open>The page's own ids are as they were, and only the described element has one of the tooltip's.\<close>

definition docs_ok :: "tip_document \<Rightarrow> tip_document \<Rightarrow> (nat \<times> string) option \<Rightarrow> bool" where
  "docs_ok d0 d described \<longleftrightarrow>
    (\<forall>x. own_ids d x = own_ids d0 x \<and>
      tip_ids d x = (case described of Some (y, i) \<Rightarrow> if y = x then [i] else [] | None \<Rightarrow> [])) \<and>
    (case described of Some (y, i) \<Rightarrow> tip_id i | None \<Rightarrow> True)"

lemma toggle_ids:
  assumes "tip_id i"
  shows "own_ids (toggleDescription y i b d) x = own_ids d x"
    and "tip_ids (toggleDescription y i b d) x =
      (if x = y then filter (\<lambda>w. w \<noteq> i) (tip_ids d x) @ (if b then [i] else []) else tip_ids d x)"
proof -
  have ids: "description_ids (td_el (toggleDescription y i b d) x) =
      (if x = y then filter (\<lambda>w. w \<noteq> i) (description_ids (td_el d x)) @ (if b then [i] else []) else description_ids (td_el d x))"
    using tip_id_word [OF assms] by (simp add: toggleDescription_def ids_toggled)
  have own: "filter (\<lambda>w. w \<noteq> i \<and> \<not> tip_id w) ws = filter (\<lambda>w. \<not> tip_id w) ws" for ws
    by (rule filter_cong) (use assms in auto)
  have swap: "filter (\<lambda>w. w \<noteq> i \<and> tip_id w) ws = filter (\<lambda>w. tip_id w \<and> w \<noteq> i) ws" for ws
    by (rule filter_cong) auto
  show "own_ids (toggleDescription y i b d) x = own_ids d x"
    using assms by (simp add: own_ids_def ids own)
  show "tip_ids (toggleDescription y i b d) x =
      (if x = y then filter (\<lambda>w. w \<noteq> i) (tip_ids d x) @ (if b then [i] else []) else tip_ids d x)"
    using assms by (simp add: tip_ids_def ids swap)
qed

lemma page_changes_ids [simp]:
  "own_ids (page_changes d old) x = own_ids old x" "tip_ids (page_changes d old) x = tip_ids old x"
  by (simp_all add: own_ids_def tip_ids_def page_changes_def description_ids_def)

lemma docs_ok_page_changes: "docs_ok d0 (page_changes d old) described \<longleftrightarrow> docs_ok d0 old described"
  by (simp add: docs_ok_def)

lemma undescribe_ok:
  assumes "docs_ok d0 (th_doc s) (th_described s)"
  shows "docs_ok d0 (th_doc (undescribe s)) None" "th_described (undescribe s) = None"
  using assms by (auto simp: docs_ok_def undescribe_def toggle_ids split: option.splits if_splits)

lemma descriptionFor_id: "descriptionFor e c = Some i \<Longrightarrow> tip_id i"
  by (auto simp: descriptionFor_def tip_id_def Let_def split: if_splits)

lemma describe_ok:
  assumes "docs_ok d0 (th_doc s) (th_described s)"
  shows "docs_ok d0 (th_doc (describe x c s)) (th_described (describe x c s))"
    and "th_described (describe x c s) = Some (y, i) \<Longrightarrow> y = x"
  using undescribe_ok [OF assms]
  by (auto simp: describe_def Let_def docs_ok_def toggle_ids dest: descriptionFor_id split: option.splits)

lemma undescribe_fields [simp]:
  "th_now (undescribe s) = th_now s" "th_active (undescribe s) = th_active s" "th_visible (undescribe s) = th_visible s"
  "th_timer (undescribe s) = th_timer s" "th_suppressed (undescribe s) = th_suppressed s" "th_view (undescribe s) = th_view s"
  by (simp_all add: undescribe_def split: option.split)

lemma describe_fields [simp]:
  "th_now (describe x c s) = th_now s" "th_active (describe x c s) = th_active s" "th_visible (describe x c s) = th_visible s"
  "th_timer (describe x c s) = th_timer s" "th_suppressed (describe x c s) = th_suppressed s" "th_view (describe x c s) = th_view s"
  by (simp_all add: describe_def Let_def split: option.split)

section \<open>The host stays sound\<close>

definition tip_ok :: "tip_document \<Rightarrow> tooltip_host \<Rightarrow> bool" where
  "tip_ok d0 s \<longleftrightarrow>
    docs_ok d0 (th_doc s) (th_described s) \<and>
    (th_visible s \<longleftrightarrow> th_view s \<noteq> None) \<and>
    (\<forall>v. th_view s = Some v \<longrightarrow> map_option fst (th_active s) = Some (tv_trigger v)) \<and>
    (\<forall>y i. th_described s = Some (y, i) \<longrightarrow> (\<exists>v. th_view s = Some v \<and> tv_trigger v = y)) \<and>
    (\<forall>y t. th_timer s = Some (y, t) \<longrightarrow> th_active s = Some (y, Hover) \<and> \<not> th_visible s) \<and>
    (th_active s \<noteq> None \<longrightarrow> th_visible s \<or> th_timer s \<noteq> None) \<and>
    (\<forall>y. th_active s = Some (y, Hover) \<longrightarrow> th_suppressed s \<noteq> Some y)"

definition tip_weak :: "tip_document \<Rightarrow> tooltip_host \<Rightarrow> bool" where
  "tip_weak d0 s \<longleftrightarrow> docs_ok d0 (th_doc s) (th_described s) \<and> (th_view s \<noteq> None \<longrightarrow> th_visible s)"

lemma tip_ok_weak: "tip_ok d0 s \<Longrightarrow> tip_weak d0 s"
  by (simp add: tip_ok_def tip_weak_def)

lemma hide_tip_ok: "tip_weak d0 s \<Longrightarrow> tip_ok d0 (hide_tip s)"
  using undescribe_ok [of d0 "s\<lparr>th_timer := None\<rparr>"]
  by (auto simp: tip_weak_def tip_ok_def hide_tip_def Let_def)


lemma hide_fields [simp]:
  "th_active (hide_tip s) = None" "th_visible (hide_tip s) = False" "th_timer (hide_tip s) = None"
  "th_suppressed (hide_tip s) = th_suppressed s"
  by (cases "th_active s"; simp add: hide_tip_def Let_def)+

lemma tv_trigger_new [simp]: "tv_trigger (tip_content.extend c \<lparr>tv_trigger = x, tv_tone = t\<rparr>) = x"
  by (simp add: tip_content.defs)

lemma tv_trigger_merge [simp]: "tv_trigger (merge_view c v) = tv_trigger v"
  by (simp add: merge_view_def)

lemma described_ok:
  assumes "docs_ok d0 (th_doc s) (th_described s)" and "th_active s = Some (x, source)" and "th_visible s" and "th_timer s = None"
    and "source = Hover \<Longrightarrow> th_suppressed s \<noteq> Some x" and "tv_trigger v = x"
  shows "tip_ok d0 ((describe x c s)\<lparr>th_view := Some v\<rparr>)"
  unfolding tip_ok_def using assms describe_ok [OF assms(1), where x = x and c = c] by auto

lemma show_tip_ok:
  assumes "tip_weak d0 s" and "source = Hover \<Longrightarrow> th_suppressed s \<noteq> Some x"
  shows "tip_ok d0 (show_tip x source s)"
proof -
  have "tip_ok d0 (hide_tip (s\<lparr>th_timer := None\<rparr>))"
    using assms(1) by (intro hide_tip_ok) (simp add: tip_weak_def)
  moreover have "tip_ok d0 ((describe x c (s\<lparr>th_timer := None, th_active := Some (x, source), th_visible := True\<rparr>))\<lparr>th_view := Some v\<rparr>)"
    if "tv_trigger v = x" for c v
    by (rule described_ok [where source = source]) (use assms that in \<open>simp_all add: tip_weak_def\<close>)
  ultimately show ?thesis by (simp add: show_tip_def Let_def split: option.split)
qed

lemma schedule_ok:
  assumes "tip_ok d0 s" and "th_suppressed s \<noteq> Some x"
  shows "tip_ok d0 (scheduleHover x s)"
proof -
  have "tip_ok d0 (show_tip x Hover (s\<lparr>th_timer := None, th_active := Some (x, Hover)\<rparr>))"
    using assms by (intro show_tip_ok) (simp_all add: tip_ok_def tip_weak_def)
  moreover have "tip_ok d0 (s\<lparr>th_active := Some (x, Hover), th_timer := Some (x, t)\<rparr>)" if "\<not> th_visible s" for t
    using assms that unfolding tip_ok_def by force
  ultimately show ?thesis
    using assms by (simp add: scheduleHover_def Let_def within_group_def split: option.split)
qed

lemma observed_ok:
  assumes "tip_ok d0 s"
  shows "tip_ok d0 (observed attributes s)"
proof (cases "th_active s")
  case None
  then show ?thesis using assms by (simp add: observed_def)
next
  case (Some a)
  obtain x source where a: "th_active s = Some (x, source)" using Some by (cases a) simp
  have hidden: "tip_ok d0 (hide_tip s)" using assms by (intro hide_tip_ok tip_ok_weak)
  have shown: "tip_ok d0 ((describe x c s)\<lparr>th_view := map_option (merge_view c) (th_view s)\<rparr>)" if vis: "th_visible s" for c
  proof -
    obtain v where v: "th_view s = Some v" "tv_trigger v = x" using assms a vis by (auto simp: tip_ok_def)
    have "th_timer s = None" using assms vis by (cases "th_timer s") (auto simp: tip_ok_def)
    then show ?thesis
      using assms a vis v by (simp, intro described_ok [where source = source]) (simp_all add: tip_ok_def)
  qed
  show ?thesis using a hidden shown assms by (simp add: observed_def split: option.split)
qed

text \<open>What the host's own fields do not show: the clock, the document's other attributes, and no suppression.\<close>

lemma tip_ok_same:
  assumes "tip_ok d0 s" and "docs_ok d0 (th_doc s') (th_described s)"
    and same: "th_described s' = th_described s" "th_visible s' = th_visible s" "th_view s' = th_view s"
      "th_timer s' = th_timer s" "th_active s' = th_active s"
    and less: "th_suppressed s' = th_suppressed s \<or> th_suppressed s' = None"
  shows "tip_ok d0 s'"
proof -
  have "th_active s' = Some (y, Hover) \<Longrightarrow> th_suppressed s' \<noteq> Some y" for y
    using assms(1) same(5) less unfolding tip_ok_def by auto
  then show ?thesis using assms(1,2) unfolding tip_ok_def same by (elim conjE, intro conjI) (assumption | simp)+
qed

lemma pointer_out_ok:
  assumes "tip_ok d0 s"
  shows "tip_ok d0 (handlePointerOut mouse related s)"
proof -
  have cleared: "tip_ok d0 (s\<lparr>th_suppressed := None\<rparr>)" by (rule tip_ok_same [OF assms]) (use assms in \<open>simp_all add: tip_ok_def\<close>)
  have "tip_ok d0 (hide_tip s)" "tip_ok d0 (hide_tip (s\<lparr>th_suppressed := None\<rparr>))"
    using assms cleared by (simp_all add: hide_tip_ok tip_ok_weak)
  then show ?thesis
    using assms cleared by (simp add: handlePointerOut_def Let_def split: option.split prod.split tip_source.split)
qed

lemma tip_ok_docs: "tip_ok d0 s \<Longrightarrow> docs_ok d0 (th_doc s) (th_described s)"
  by (simp add: tip_ok_def)

lemma page_change_ok: "tip_ok d0 s \<Longrightarrow> tip_ok d0 (s\<lparr>th_doc := page_changes d (th_doc s)\<rparr>)"
  by (rule tip_ok_same [where s = s]) (simp_all add: tip_ok_docs docs_ok_page_changes)

lemma timer_ok: "tip_ok d0 s \<Longrightarrow> th_timer s = Some (x, t) \<Longrightarrow> tip_ok d0 (show_tip x Hover s)"
  by (intro show_tip_ok) (auto simp: tip_ok_def tip_weak_def)

lemma tip_step_ok:
  assumes "tip_ok d0 s"
  shows "tip_ok d0 (tip_step s ev)"
proof -
  have hidden: "tip_ok d0 (hide_tip s)" using assms by (simp add: hide_tip_ok tip_ok_weak)
  show ?thesis
  proof (cases ev)
    case (PointerOver mouse target)
    then show ?thesis using assms schedule_ok by (auto simp: tip_step_def handlePointerOver_def split: option.split)
  next
    case (PointerOut mouse related)
    then show ?thesis using assms by (simp add: tip_step_def pointer_out_ok)
  next
    case (FocusIn target keyboard)
    then show ?thesis using assms by (auto simp: tip_step_def handleFocusIn_def tip_ok_weak intro!: show_tip_ok split: option.split)
  next
    case (FocusOut related)
    then show ?thesis using assms hidden
      by (simp add: tip_step_def handleFocusOut_def split: option.split prod.split tip_source.split)
  next
    case (PointerDown target)
    have "tip_weak d0 (s\<lparr>th_suppressed := closestTrigger (th_doc s) target\<rparr>)"
      using tip_ok_weak [OF assms] by (simp add: tip_weak_def)
    with PointerDown show ?thesis by (simp add: tip_step_def handlePointerDown_def hide_tip_ok)
  next
    case (PageChanges d noticed attributes)
    then show ?thesis using page_change_ok [OF assms] observed_ok by (simp add: tip_step_def Let_def)
  next
    case ShowTimer
    then show ?thesis using assms timer_ok by (auto simp: tip_step_def split: option.split)
  next
    case (ClockTicks n)
    then show ?thesis by (intro tip_ok_same [OF assms]) (use assms in \<open>simp_all add: tip_step_def tip_ok_def\<close>)
  qed (use assms hidden in \<open>simp_all add: tip_step_def tip_keydown_def handleViewportChange_def\<close>)
qed

interpretation tooltip: event_machine tip_step "\<lambda>_ _. True" "tip_ok d0" for d0
  by unfold_locales (rule tip_step_ok)

definition tip_run :: "tip_document \<Rightarrow> rat \<Rightarrow> tip_event list \<Rightarrow> tooltip_host" where
  "tip_run d now es = foldl tip_step (new_host d now) es"

lemma tip_run_ok:
  assumes "\<And>x. tip_ids d x = []"
  shows "tip_ok d (tip_run d now es)"
proof -
  have "tip_ok d (new_host d now)" using assms by (simp add: tip_ok_def new_host_def docs_ok_def)
  moreover have "admissible tip_step (\<lambda>_ _. True) s es" for s by (rule admissible_all)
  ultimately show ?thesis unfolding tip_run_def by (rule tooltip.run_inv)
qed

text \<open>
  The tooltip leaves no trace. Whatever the pointer, the focus, the keys, the clock and the page did, every element
  has the ids of its own that describe it, in their order; only the trigger of the tooltip on screen has one of
  the tooltip's ids besides, at most one; and after the host is gone nobody has.
\<close>

theorem tooltip_leaves_no_trace:
  assumes "\<And>x. tip_ids d x = []"
  shows "own_ids (th_doc (tip_run d now es)) x = description_ids (td_el d x) \<and>
    length (tip_ids (th_doc (tip_run d now es)) x) \<le> 1 \<and>
    (tip_ids (th_doc (tip_run d now es)) x \<noteq> [] \<longrightarrow>
      th_visible (tip_run d now es) \<and> map_option tv_trigger (th_view (tip_run d now es)) = Some x) \<and>
    description_ids (td_el (th_doc (unmount_host (tip_run d now es))) x) = description_ids (td_el d x)"
proof -
  let ?s = "tip_run d now es"
  have ok: "tip_ok d ?s" using assms by (rule tip_run_ok)
  then have docs: "docs_ok d (th_doc ?s) (th_described ?s)" by (simp add: tip_ok_def)
  have own: "own_ids d y = description_ids (td_el d y)" for y
    using assms [of y] by (auto simp: own_ids_def tip_ids_def filter_empty_conv filter_id_conv)
  have "docs_ok d (th_doc (unmount_host ?s)) None"
    using undescribe_ok [of d "?s\<lparr>th_timer := None\<rparr>"] docs by (simp add: unmount_host_def)
  then have "own_ids (th_doc (unmount_host ?s)) x = own_ids d x" "tip_ids (th_doc (unmount_host ?s)) x = []"
    by (simp_all add: docs_ok_def)
  then have "description_ids (td_el (th_doc (unmount_host ?s)) x) = description_ids (td_el d x)"
    using own by (auto simp: own_ids_def tip_ids_def filter_empty_conv filter_id_conv)
  moreover have "length (tip_ids (th_doc ?s) x) \<le> 1"
    using docs by (auto simp: docs_ok_def split: option.splits)
  moreover have "th_visible ?s \<and> map_option tv_trigger (th_view ?s) = Some x" if marked: "tip_ids (th_doc ?s) x \<noteq> []"
  proof -
    obtain i where "th_described ?s = Some (x, i)"
      using docs marked by (cases "th_described ?s") (auto simp: docs_ok_def dest!: spec [of _ x] split: if_splits)
    then show ?thesis using ok by (auto simp: tip_ok_def)
  qed
  ultimately show ?thesis using docs own by (simp add: docs_ok_def)
qed

definition plain_el :: "string option \<Rightarrow> string option \<Rightarrow> nat list \<Rightarrow> tip_element" where
  "plain_el tip described ancestors = \<lparr>te_tooltip = tip, te_reason = None, te_keys = Some ''c'', te_placement = None, te_overflow = False,
    te_delay = None, te_delay_number = None, te_scroll = (0, 0), te_client = (0, 0), te_text = Some ''Create'', te_label = None,
    te_expanded = None, te_surface = None, te_describedby = described, te_connected = True, te_ancestors = ancestors\<rparr>"

definition two_buttons :: tip_document where
  "two_buttons = \<lparr>td_el = (\<lambda>x. if x = 1 then plain_el (Some ''New page'') (Some ''  hint   error'') [1, 0]
      else if x = 2 then plain_el (Some ''Create'') None [2, 0] else plain_el None None [x]), td_layers = []\<rparr>"

definition pass_over :: "tip_event list" where
  "pass_over = [PointerOver True (Some 1), ClockTicks 399, ShowTimer, ClockTicks 1, ShowTimer]"

lemma two_buttons_bare: "tip_ids two_buttons x = []"
  by (simp add: tip_ids_def two_buttons_def plain_el_def description_ids_def text_or_def parts_def blank_def char_code_def
      tip_id_def TOOLTIP_ID_def TOOLTIP_KEYS_ID_def)

theorem tooltip_leaves_no_trace_witness:
  "description_ids (td_el (th_doc (tip_run two_buttons 0 pass_over)) 1) = [''hint'', ''error'', ''tooltip''] \<and>
   description_ids (td_el (th_doc (unmount_host (tip_run two_buttons 0 pass_over))) 1) = [''hint'', ''error'']"
proof -
  have "description_ids (td_el (th_doc (tip_run two_buttons 0 pass_over)) 1) = [''hint'', ''error'', ''tooltip'']" by code_simp
  moreover have "description_ids (td_el two_buttons 1) = [''hint'', ''error'']" by code_simp
  ultimately show ?thesis
    using tooltip_leaves_no_trace [of two_buttons 0 pass_over 1, OF two_buttons_bare] by simp
qed

section \<open>Who may speak\<close>

text \<open>A pressed trigger shows nothing to the pointer until it is left; a timer shows only what it was set for.\<close>

lemma pressed_stays_quiet:
  assumes "\<And>x. tip_ids d x = []" and "th_suppressed (tip_run d now es) = Some x"
  shows "th_active (tip_run d now es) \<noteq> Some (x, Hover)"
  using tip_run_ok [OF assms(1)] assms(2) unfolding tip_ok_def by auto

text \<open>A shown trigger that becomes disabled: its reason is shown with the hotkey of before.\<close>

definition disabled_button :: tip_document where
  "disabled_button = two_buttons\<lparr>td_el := (td_el two_buttons)(1 := (td_el two_buttons 1)\<lparr>te_reason := Some ''No access''\<rparr>)\<rparr>"

lemma reason_keeps_hotkey:
  "map_option (\<lambda>v. (tc_text v, tc_keys v)) (th_view (tip_run two_buttons 0 (pass_over @ [PageChanges disabled_button True True]))) =
    Some (''No access'', Some ''c'')"
  "map_option tc_keys (readTrigger (td_el disabled_button 1)) = Some None"
  by code_simp+

section \<open>On screen, beside its trigger\<close>

lemma round_bounds: "of_int (js_round x) \<le> x + 1 / 2" "x - 1 / 2 < of_int (js_round x)"
  by (simp_all add: js_round_def) linarith+

lemma round_ge: "of_int p \<le> x \<Longrightarrow> p \<le> js_round x"
  by (simp add: js_round_def le_floor_iff)

lemma round_le: "x \<le> of_int p \<Longrightarrow> js_round x \<le> p"
  unfolding js_round_def by (subst floor_le_iff) linarith

lemma clamp_bounds: "lo \<le> hi \<Longrightarrow> lo \<le> clamp_between v lo hi \<and> clamp_between v lo hi \<le> hi"
  by (simp add: clamp_between_def)

lemma side_fits:
  assumes "tip_fits preferred trigger tip gap padding viewport \<or> tip_fits (OPPOSITE preferred) trigger tip gap padding viewport"
  shows "tip_fits (tip_side trigger tip preferred gap padding viewport) trigger tip gap padding viewport"
  using assms by (auto simp: tip_side_def Let_def)

text \<open>A box of whole pixels and the window, and whether it touches a rectangle.\<close>

definition box_inside :: "int \<Rightarrow> int \<Rightarrow> tip_size \<Rightarrow> tip_size \<Rightarrow> bool" where
  "box_inside x y box viewport \<longleftrightarrow>
    0 \<le> x \<and> of_int x + sz_width box \<le> sz_width viewport \<and> 0 \<le> y \<and> of_int y + sz_height box \<le> sz_height viewport"

definition box_beside :: "int \<Rightarrow> int \<Rightarrow> tip_size \<Rightarrow> dom_rect \<Rightarrow> bool" where
  "box_beside x y box r \<longleftrightarrow>
    of_int x + sz_width box \<le> rc_left r \<or> rc_right r \<le> of_int x \<or>
    of_int y + sz_height box \<le> rc_top r \<or> rc_bottom r \<le> of_int y"

lemma cross_axis:
  assumes "0 \<le> p" and "2 * p + n \<le> w"
  shows "0 \<le> js_round (clamp_between v (of_int p) (of_int w - of_int p - of_int n)) \<and>
    of_int (js_round (clamp_between v (of_int p) (of_int w - of_int p - of_int n))) + (of_int n :: rat) \<le> of_int w"
proof -
  let ?x = "clamp_between v (of_int p) (of_int (w - p - n) :: rat)"
  have "of_int p \<le> ?x \<and> ?x \<le> of_int (w - p - n)"
    by (rule clamp_bounds) (use assms in simp)
  then have "p \<le> js_round ?x" "js_round ?x \<le> w - p - n" using round_ge round_le by blast+
  then have "0 \<le> js_round ?x" "js_round ?x + n \<le> w" using assms(1) by linarith+
  then have "0 \<le> js_round ?x \<and> of_int (js_round ?x + n) \<le> (of_int w :: rat)" by simp
  then show ?thesis by simp
qed

text \<open>Along the axis it hangs on: before its trigger, or after it.\<close>

lemma before_trigger:
  assumes "0 \<le> p" and "of_int n + gap + of_int p \<le> start" and "1 / 2 \<le> gap"
  shows "0 \<le> js_round (start - gap - of_int n) \<and> of_int (js_round (start - gap - of_int n)) + of_int n \<le> start"
proof -
  have "(0::rat) \<le> of_int p" using assms(1) by simp
  then have "0 \<le> start - gap - of_int n" using assms(2) by linarith
  then have "0 \<le> js_round (start - gap - of_int n)" by (intro round_ge) simp
  moreover have "of_int (js_round (start - gap - of_int n)) + of_int n \<le> start"
    using round_bounds(1) [of "start - gap - of_int n"] assms(3) by linarith
  ultimately show ?thesis by simp
qed

lemma after_trigger:
  assumes "0 \<le> p" and "of_int n + gap + of_int p \<le> of_int w - fin" and "1 / 2 \<le> gap" and "0 \<le> fin"
  shows "0 \<le> js_round (fin + gap) \<and> of_int (js_round (fin + gap)) + (of_int n :: rat) \<le> of_int w \<and> fin \<le> of_int (js_round (fin + gap))"
proof -
  have p: "(0::rat) \<le> of_int p" using assms(1) by simp
  have "fin + gap \<le> of_int (w - n)" using assms(2) p by simp
  then have "js_round (fin + gap) \<le> w - n" by (rule round_le)
  then have "js_round (fin + gap) + n \<le> w" by simp
  then have "of_int (js_round (fin + gap) + n) \<le> (of_int w :: rat)" by (simp only: of_int_le_iff)
  moreover have "0 \<le> js_round (fin + gap)" using assms by (intro round_ge) simp
  moreover have "fin \<le> of_int (js_round (fin + gap))" using round_bounds(2) [of "fin + gap"] assms(3) by linarith
  ultimately show ?thesis by simp
qed

text \<open>
  C34: The tooltip is on screen and beside its trigger. When the trigger is in the window, the window is wide and
  high enough for the tooltip and its padding, and there is room for it above or below (or left or right, as
  preferred), all of the tooltip is in the window, in whole pixels, and it does not cover the trigger.
\<close>

theorem tooltip_placed_on_screen:
  assumes whole: "tip = \<lparr>sz_width = of_int w, sz_height = of_int h\<rparr>" "viewport = \<lparr>sz_width = of_int vw, sz_height = of_int vh\<rparr>"
      "padding = of_int p" "0 \<le> p" "2 * p + w \<le> vw" "2 * p + h \<le> vh"
    and trigger: "0 \<le> rc_left trigger" "0 \<le> rc_top trigger" "rc_right trigger \<le> sz_width viewport"
      "rc_bottom trigger \<le> sz_height viewport" "0 \<le> rc_width trigger" "0 \<le> rc_height trigger" and gap: "1 / 2 \<le> gap"
    and fits: "tip_fits preferred trigger tip gap padding viewport \<or> tip_fits (OPPOSITE preferred) trigger tip gap padding viewport"
    and placed: "placeTooltip trigger tip preferred gap padding viewport = (x, y, side)"
  shows "box_inside x y tip viewport \<and> box_beside x y tip trigger"
proof -
  have side: "tip_fits side trigger tip gap padding viewport"
    using side_fits [OF fits] placed by (simp add: placeTooltip_def Let_def split_beta)
  note room = side [unfolded tip_fits_def tip_need_def room_def isVertical_def whole(1-3)]
  note xs = cross_axis [OF whole(4,5), of "rc_left trigger + rc_width trigger / 2 - of_int w / 2"]
  note ys = cross_axis [OF whole(4,6), of "rc_top trigger + rc_height trigger / 2 - of_int h / 2"]
  have in_window: "rc_left trigger \<le> of_int vw" "rc_top trigger \<le> of_int vh" "0 \<le> rc_right trigger" "0 \<le> rc_bottom trigger"
    using trigger whole(2) by (simp_all add: rc_right_def rc_bottom_def)
  note at = placed [unfolded placeTooltip_def Let_def whole(1-3), simplified]
  show ?thesis
  proof (cases side)
    case TipTop
    then show ?thesis using before_trigger [OF whole(4) _ gap, of h "rc_top trigger"] room at xs in_window whole(1,2)
      by (auto simp: box_inside_def box_beside_def isVertical_def split: if_splits)
  next
    case TipBottom
    then show ?thesis using after_trigger [OF whole(4) _ gap, of h vh "rc_bottom trigger"] room at xs in_window whole(1,2)
      by (auto simp: box_inside_def box_beside_def isVertical_def split: if_splits)
  next
    case TipLeft
    then show ?thesis using before_trigger [OF whole(4) _ gap, of w "rc_left trigger"] room at ys in_window whole(1,2)
      by (auto simp: box_inside_def box_beside_def isVertical_def split: if_splits)
  next
    case TipRight
    then show ?thesis using after_trigger [OF whole(4) _ gap, of w vw "rc_right trigger"] room at ys in_window whole(1,2)
      by (auto simp: box_inside_def box_beside_def isVertical_def split: if_splits)
  qed
qed

theorem tooltip_placed_on_screen_witness:
  "box_inside 8 68 \<lparr>sz_width = 120, sz_height = 28\<rparr> \<lparr>sz_width = 800, sz_height = 600\<rparr> \<and>
   box_beside 8 68 \<lparr>sz_width = 120, sz_height = 28\<rparr> \<lparr>rc_left = 10, rc_top = 30, rc_width = 60, rc_height = 32\<rparr>"
proof -
  have "placeTooltip \<lparr>rc_left = 10, rc_top = 30, rc_width = 60, rc_height = 32\<rparr> \<lparr>sz_width = 120, sz_height = 28\<rparr> TipTop 6 8
      \<lparr>sz_width = 800, sz_height = 600\<rparr> = (8, 68, TipBottom)"
    by (simp add: placeTooltip_def tip_side_def tip_fits_def tip_need_def room_def isVertical_def clamp_between_def rc_right_def
        rc_bottom_def js_round_def floor_eq_iff)
  then show ?thesis
    using tooltip_placed_on_screen [of "\<lparr>sz_width = 120, sz_height = 28\<rparr>" 120 28 "\<lparr>sz_width = 800, sz_height = 600\<rparr>" 800 600 8 8
        "\<lparr>rc_left = 10, rc_top = 30, rc_width = 60, rc_height = 32\<rparr>" 6 TipTop 8 68 TipBottom]
    by (simp add: rc_right_def rc_bottom_def tip_fits_def tip_need_def room_def isVertical_def)
qed

end
