(* ===== verification/Links.thy ===== *)
theory Links
  imports Tooltips
begin

text \<open>
  Links (\<open>ui-kit/src/components/Link\<close>, \<open>ui-kit/src/router/useLinkClick.ts\<close>, the link of \<open>components/Button\<close>) and the
  attributes that make an element a tooltip trigger (\<open>components/Tooltip/tooltipProps.ts\<close>). Who handles a click, the
  browser or the app's router; what a disabled link leaves of itself; what \<open>rel\<close> a new tab gets. The
  router's \<open>navigate\<close> is a call, its \<open>useHref\<close> a parameter, and what the caller's \<open>onClick\<close> does to the event is
  what it carries. Characters are those of Latin-1.
\<close>

section \<open>Addresses\<close>

definition scheme_char :: "char \<Rightarrow> bool" where
  "scheme_char c \<longleftrightarrow> ascii_letter c \<or> (48 \<le> char_code c \<and> char_code c \<le> 57) \<or> c \<in> {CHR ''+'', CHR ''-'', CHR ''.''}"

text \<open>\<open>/^([a-z][a-z\d+\-.]*:|\/\/)/i\<close>: a scheme, or two slashes.\<close>

definition has_scheme :: "string \<Rightarrow> bool" where
  "has_scheme h = (case h of
      c # rest \<Rightarrow> ascii_letter c \<and> (case dropWhile scheme_char rest of d # _ \<Rightarrow> d = CHR '':'' | [] \<Rightarrow> False)
    | [] \<Rightarrow> False)"

definition isExternalHref :: "string \<Rightarrow> bool" where
  "isExternalHref h \<longleftrightarrow> has_scheme h \<or> take 2 h = ''//''"

text \<open>The href put on the element: a router may map it; without one, or with none of its own, it stays.\<close>

definition useLinkHref :: "(string \<Rightarrow> string) option \<Rightarrow> string \<Rightarrow> string" where
  "useLinkHref useHref href =
    (let resolved = (case useHref of None \<Rightarrow> href | Some f \<Rightarrow> f href) in if isExternalHref href then href else resolved)"

section \<open>Clicks\<close>

record click_event =
  cl_prevented :: bool
  cl_button :: nat
  cl_meta :: bool
  cl_ctrl :: bool
  cl_shift :: bool
  cl_alt :: bool

text \<open>\<open>lo_download\<close>: whether there is one that is not \<open>false\<close>; \<open>lo_onClick\<close>: whether the caller's handler prevents the event.\<close>

record link_options =
  lo_href :: "string option"
  lo_target :: "string option"
  lo_download :: bool
  lo_onClick :: bool
  lo_replace :: bool
  lo_reloadDocument :: bool

definition isBrowserClick :: "click_event \<Rightarrow> link_options \<Rightarrow> bool" where
  "isBrowserClick e l \<longleftrightarrow>
    cl_prevented e \<or> cl_button e \<noteq> 0 \<or> cl_meta e \<or> cl_ctrl e \<or> cl_shift e \<or> cl_alt e \<or>
    \<not> truthy (lo_href l) \<or> take 1 (the (lo_href l)) = ''#'' \<or> isExternalHref (the (lo_href l)) \<or>
    (lo_target l \<noteq> None \<and> lo_target l \<noteq> Some ''_self'') \<or> lo_download l \<or> lo_reloadDocument l"

datatype link_effect = Navigate string bool

text \<open>The event after the handlers, and what was asked of the router. The caller's handler is first.\<close>

definition navigateOnClick :: "bool \<Rightarrow> click_event \<Rightarrow> link_options \<Rightarrow> click_event \<times> link_effect list" where
  "navigateOnClick router e l =
    (let e1 = (if lo_onClick l then e\<lparr>cl_prevented := True\<rparr> else e) in
     if \<not> router \<or> isBrowserClick e1 l then (e1, [])
     else (e1\<lparr>cl_prevented := True\<rparr>, [Navigate (the (lo_href l)) (lo_replace l)]))"

section \<open>The element\<close>

text \<open>A set in the order of insertion, as the tokens of \<open>rel\<close> are kept.\<close>

definition add_token :: "string list \<Rightarrow> string \<Rightarrow> string list" where
  "add_token ts t = (if t \<in> set ts then ts else ts @ [t])"

definition relFor :: "string option \<Rightarrow> string option \<Rightarrow> string option" where
  "relFor target rel =
    (if target \<noteq> Some ''_blank'' then rel
     else (let tokens = foldl add_token [] (case rel of None \<Rightarrow> [] | Some r \<Rightarrow> parts blank r)
       in Some (join '' '' (add_token (add_token tokens ''noopener'') ''noreferrer''))))"

record link_props =
  lk_href :: string
  lk_target :: "string option"
  lk_rel :: "string option"
  lk_replace :: bool
  lk_download :: bool
  lk_reloadDocument :: bool
  lk_disabled :: bool
  lk_disabledReason :: "string option"

text \<open>What the anchor gets: \<open>an_reason\<close> is the tooltip's reason, \<open>an_handler\<close> whether it has the click handler.\<close>

record anchor =
  an_href :: "string option"
  an_target :: "string option"
  an_rel :: "string option"
  an_download :: bool
  an_handler :: bool
  an_role :: "string option"
  an_tabIndex :: "int option"
  an_ariaDisabled :: bool
  an_reason :: "string option"

definition LinkBase :: "(string \<Rightarrow> string) option \<Rightarrow> link_props \<Rightarrow> anchor" where
  "LinkBase useHref p =
    (if lk_disabled p
     then \<lparr>an_href = None, an_target = None, an_rel = None, an_download = False, an_handler = False,
           an_role = Some ''link'', an_tabIndex = Some 0, an_ariaDisabled = True,
           an_reason = (if truthy (lk_disabledReason p) then lk_disabledReason p else None)\<rparr>
     else \<lparr>an_href = Some (useLinkHref useHref (lk_href p)), an_target = lk_target p, an_rel = relFor (lk_target p) (lk_rel p),
           an_download = lk_download p, an_handler = True, an_role = None, an_tabIndex = None, an_ariaDisabled = False,
           an_reason = None\<rparr>)"

text \<open>A click of the element: only a link that is not disabled has the handler.\<close>

definition click_link :: "bool \<Rightarrow> bool \<Rightarrow> click_event \<Rightarrow> link_props \<Rightarrow> click_event \<times> link_effect list" where
  "click_link router prevents e p =
    (if lk_disabled p then (e, [])
     else navigateOnClick router e \<lparr>lo_href = Some (lk_href p), lo_target = lk_target p, lo_download = lk_download p,
       lo_onClick = prevents, lo_replace = lk_replace p, lo_reloadDocument = lk_reloadDocument p\<rparr>)"

text \<open>\<open>Link\<close>: an external address opens a new tab unless the caller says where.\<close>

definition resolvedTarget :: "string \<Rightarrow> string option \<Rightarrow> string option" where
  "resolvedTarget href target = (case target of Some t \<Rightarrow> Some t | None \<Rightarrow> if isExternalHref href then Some ''_blank'' else None)"

definition opensNewTab :: "string \<Rightarrow> string option \<Rightarrow> bool" where
  "opensNewTab href target \<longleftrightarrow> resolvedTarget href target = Some ''_blank''"

text \<open>A button that is a link: busy or disabled it prevents the event, and so the navigation.\<close>

definition click_button_link :: "bool \<Rightarrow> bool \<Rightarrow> bool \<Rightarrow> click_event \<Rightarrow> link_props \<Rightarrow> click_event \<times> link_effect list" where
  "click_button_link router loading prevents e p = click_link router (loading \<or> lk_disabled p \<or> prevents) e p"

section \<open>The attributes of a tooltip\<close>

record tooltip_info =
  ti_text :: "string option"
  ti_overflow :: bool
  ti_reason :: "string option"
  ti_keys :: "string option"
  ti_placement :: "tip_placement option"
  ti_delay :: "rat option"

fun placement_name :: "tip_placement \<Rightarrow> string" where
  "placement_name TipTop = ''top''"
| "placement_name TipBottom = ''bottom''"
| "placement_name TipLeft = ''left''"
| "placement_name TipRight = ''right''"

text \<open>
  \<open>tooltipProps\<close> on an element that has none of these attributes; \<open>number\<close> writes a number as an attribute, which
  \<open>te_delay_number\<close> reads again.
\<close>

definition tooltipProps :: "(rat \<Rightarrow> string) \<Rightarrow> tooltip_info \<Rightarrow> tip_element \<Rightarrow> tip_element" where
  "tooltipProps number info el = el\<lparr>
    te_tooltip := (case ti_text info of Some t \<Rightarrow> Some t | None \<Rightarrow> if ti_overflow info then Some '''' else None),
    te_overflow := ti_overflow info,
    te_keys := ti_keys info,
    te_reason := ti_reason info,
    te_placement := map_option placement_name (ti_placement info),
    te_delay := map_option number (ti_delay info),
    te_delay_number := ti_delay info\<rparr>"

section \<open>New tabs\<close>

lemma add_tokens: "distinct ts \<Longrightarrow> distinct (foldl add_token ts xs) \<and> set (foldl add_token ts xs) = set ts \<union> set xs"
proof (induction xs arbitrary: ts)
  case Nil
  then show ?case by simp
next
  case (Cons x xs)
  have "distinct (add_token ts x)" "set (add_token ts x) = insert x (set ts)" using Cons.prems by (auto simp: add_token_def)
  then show ?case using Cons.IH [of "add_token ts x"] by simp
qed

lemma new_tab_words: "id_word ''noopener''" "id_word ''noreferrer''"
  by code_simp+

text \<open>
  What a new tab is told of its opener: the caller's words, each once, with \<open>noopener\<close> and \<open>noreferrer\<close> among them; a
  link that stays in its tab keeps its \<open>rel\<close> as it is.
\<close>

lemma rel_of_new_tab:
  obtains r where "relFor (Some ''_blank'') rel = Some r" and "distinct (parts blank r)"
    and "set (parts blank r) = set (parts blank (text_or rel)) \<union> {''noopener'', ''noreferrer''}"
proof -
  let ?given = "case rel of None \<Rightarrow> [] | Some r \<Rightarrow> parts blank r"
  let ?ts = "add_token (add_token (foldl add_token [] ?given) ''noopener'') ''noreferrer''"
  have given: "set ?given = set (parts blank (text_or rel))" by (cases rel) (simp_all add: text_or_def parts_def)
  have "?ts = foldl add_token [] (?given @ [''noopener'', ''noreferrer''])" by (simp only: foldl_append foldl.simps)
  then have ts: "distinct ?ts" "set ?ts = set ?given \<union> {''noopener'', ''noreferrer''}"
    using add_tokens [of "[]" "?given @ [''noopener'', ''noreferrer'']"]
    by (simp_all only: distinct.simps list.set set_append Un_empty_left simp_thms)
  have "id_word w" if "w \<in> set ?ts" for w
  proof -
    have "w \<in> set (parts blank (text_or rel)) \<or> w = ''noopener'' \<or> w = ''noreferrer''"
      using that unfolding ts(2) given by blast
    then show ?thesis using parts_id_words new_tab_words by blast
  qed
  then have words: "parts blank (join '' '' ?ts) = ?ts" by (rule parts_join)
  show thesis
  proof (rule that)
    show "relFor (Some ''_blank'') rel = Some (join '' '' ?ts)" by (simp only: relFor_def Let_def if_False simp_thms)
    show "distinct (parts blank (join '' '' ?ts))" unfolding words by (rule ts(1))
    show "set (parts blank (join '' '' ?ts)) = set (parts blank (text_or rel)) \<union> {''noopener'', ''noreferrer''}"
      unfolding words ts(2) given ..
  qed
qed

text \<open>
  A link to another site: its address is not touched by the router, it opens a new tab that knows nothing of this
  one, and no click of it, whatever the keys, goes to the router.
\<close>

theorem external_link_leaves:
  assumes "isExternalHref h" and "lk_target p = None" and "lk_href p = h" and "\<not> lk_disabled p"
    and "a = LinkBase useHref (p\<lparr>lk_target := resolvedTarget h (lk_target p)\<rparr>)"
  shows "an_href a = Some h" and "an_target a = Some ''_blank''"
    and "\<exists>r. an_rel a = Some r \<and> {''noopener'', ''noreferrer''} \<subseteq> set (parts blank r)"
    and "snd (click_link router prevents e p) = []"
proof -
  have target: "resolvedTarget h (lk_target p) = Some ''_blank''" using assms(1,2) by (simp add: resolvedTarget_def)
  then show "an_href a = Some h" "an_target a = Some ''_blank''"
    using assms by (simp_all add: LinkBase_def useLinkHref_def Let_def)
  have "an_rel a = relFor (Some ''_blank'') (lk_rel p)" using assms(4,5) target by (simp add: LinkBase_def)
  then show "\<exists>r. an_rel a = Some r \<and> {''noopener'', ''noreferrer''} \<subseteq> set (parts blank r)"
    by (metis Un_upper2 rel_of_new_tab)
  show "snd (click_link router prevents e p) = []"
    using assms(1,3,4) by (simp add: click_link_def navigateOnClick_def isBrowserClick_def Let_def)
qed

section \<open>Links of the app\<close>

definition plain_click :: "click_event \<Rightarrow> bool" where
  "plain_click e \<longleftrightarrow> \<not> cl_prevented e \<and> cl_button e = 0 \<and> \<not> cl_meta e \<and> \<not> cl_ctrl e \<and> \<not> cl_shift e \<and> \<not> cl_alt e"

lemma path_not_external: "p = CHR ''/'' # rest \<Longrightarrow> take 1 rest \<noteq> ''/'' \<Longrightarrow> \<not> isExternalHref p"
  by (cases rest) (auto simp: isExternalHref_def has_scheme_def ascii_letter_def char_code_def)

text \<open>
  A link to a page of the app: a plain click goes through the router, once and without a reload; a click that wants
  a tab, or one the caller or a busy button has stopped, does not; and a disabled one has no address to open.
\<close>

theorem page_link_navigates:
  assumes "lk_href p = CHR ''/'' # rest" and "take 1 rest \<noteq> ''/''" and "lk_target p = None" and "\<not> lk_download p"
    and "\<not> lk_reloadDocument p"
  shows "plain_click e \<Longrightarrow> \<not> lk_disabled p \<Longrightarrow>
      click_button_link True False False e p = (e\<lparr>cl_prevented := True\<rparr>, [Navigate (lk_href p) (lk_replace p)])"
    and "\<not> plain_click e \<or> loading \<or> prevents \<or> lk_disabled p \<Longrightarrow> snd (click_button_link router loading prevents e p) = []"
    and "loading \<Longrightarrow> \<not> lk_disabled p \<Longrightarrow> cl_prevented (fst (click_button_link router loading prevents e p))"
    and "an_href (LinkBase useHref p) = None \<longleftrightarrow> lk_disabled p"
proof -
  have inner: "\<not> isExternalHref (lk_href p)" using path_not_external assms(1,2) by simp
  show "plain_click e \<Longrightarrow> \<not> lk_disabled p \<Longrightarrow>
      click_button_link True False False e p = (e\<lparr>cl_prevented := True\<rparr>, [Navigate (lk_href p) (lk_replace p)])"
    using inner assms
    by (simp add: plain_click_def click_button_link_def click_link_def navigateOnClick_def isBrowserClick_def Let_def)
  show "\<not> plain_click e \<or> loading \<or> prevents \<or> lk_disabled p \<Longrightarrow> snd (click_button_link router loading prevents e p) = []"
    by (auto simp: plain_click_def click_button_link_def click_link_def navigateOnClick_def isBrowserClick_def Let_def)
  show "loading \<Longrightarrow> \<not> lk_disabled p \<Longrightarrow> cl_prevented (fst (click_button_link router loading prevents e p))"
    by (simp add: click_button_link_def click_link_def navigateOnClick_def isBrowserClick_def Let_def)
  show "an_href (LinkBase useHref p) = None \<longleftrightarrow> lk_disabled p" by (simp add: LinkBase_def)
qed

section \<open>Tooltips are what was asked for\<close>

lemma placement_named: "placement_of (placement_name p) = Some p"
  by (cases p) (simp_all add: placement_of_def)

text \<open>
  What is given to \<open>tooltipProps\<close> is what the host reads off the element: the reason alone where there is one, else
  the text with its keys, else the element's own text where it is cut off; the side and the delay asked for.
\<close>

theorem tooltip_props_round_trip:
  assumes "\<And>d. number d \<noteq> []" and "el = tooltipProps number info e"
    and "side = (case ti_placement info of Some p \<Rightarrow> p | None \<Rightarrow> TipTop)"
    and "wait = (case ti_delay info of Some d \<Rightarrow> d | None \<Rightarrow> tooltip_delay)"
  shows "ti_reason info = Some r \<Longrightarrow> r \<noteq> [] \<Longrightarrow>
      readTrigger el = Some \<lparr>tc_text = r, tc_keys = None, tc_isReason = True, tc_placement = side, tc_delay = wait\<rparr>"
    and "\<not> truthy (ti_reason info) \<Longrightarrow> \<not> ti_overflow info \<Longrightarrow> ti_text info = Some t \<Longrightarrow> t \<noteq> [] \<Longrightarrow> ti_keys info \<noteq> Some [] \<Longrightarrow>
      readTrigger el = Some \<lparr>tc_text = t, tc_keys = ti_keys info, tc_isReason = False, tc_placement = side, tc_delay = wait\<rparr>"
    and "\<not> truthy (ti_reason info) \<Longrightarrow> ti_overflow info \<Longrightarrow> readTrigger el =
      (let t = (case ti_text info of Some t \<Rightarrow> if t = [] then trim (text_or (te_text e)) else t | None \<Rightarrow> trim (text_or (te_text e)))
       in if isTruncated e \<and> t \<noteq> []
          then Some \<lparr>tc_text = t, tc_keys = (if truthy (ti_keys info) then ti_keys info else None), tc_isReason = False,
            tc_placement = side, tc_delay = wait\<rparr>
          else None)"
proof -
  have read: "(case Option.bind (te_placement el) placement_of of Some p \<Rightarrow> p | None \<Rightarrow> TipTop) = side" "readDelay el = wait"
    using assms by (cases "ti_placement info", simp_all add: tooltipProps_def placement_named)
      (cases "ti_delay info", simp_all add: readDelay_def tooltipProps_def)+
  have fields: "te_reason el = ti_reason info" "te_overflow el = ti_overflow info" "te_keys el = ti_keys info"
    "te_text el = te_text e" "isTruncated el = isTruncated e"
    "te_tooltip el = (case ti_text info of Some t \<Rightarrow> Some t | None \<Rightarrow> if ti_overflow info then Some '''' else None)"
    by (simp_all add: assms(2) tooltipProps_def isTruncated_def)
  show "ti_reason info = Some r \<Longrightarrow> r \<noteq> [] \<Longrightarrow>
      readTrigger el = Some \<lparr>tc_text = r, tc_keys = None, tc_isReason = True, tc_placement = side, tc_delay = wait\<rparr>"
    by (simp add: readTrigger_def read fields text_or_def Let_def)
  show "\<not> truthy (ti_reason info) \<Longrightarrow> \<not> ti_overflow info \<Longrightarrow> ti_text info = Some t \<Longrightarrow> t \<noteq> [] \<Longrightarrow> ti_keys info \<noteq> Some [] \<Longrightarrow>
      readTrigger el = Some \<lparr>tc_text = t, tc_keys = ti_keys info, tc_isReason = False, tc_placement = side, tc_delay = wait\<rparr>"
    by (cases "ti_keys info") (simp_all add: readTrigger_def read fields text_or_def Let_def)
  show "\<not> truthy (ti_reason info) \<Longrightarrow> ti_overflow info \<Longrightarrow> readTrigger el =
      (let t = (case ti_text info of Some t \<Rightarrow> if t = [] then trim (text_or (te_text e)) else t | None \<Rightarrow> trim (text_or (te_text e)))
       in if isTruncated e \<and> t \<noteq> []
          then Some \<lparr>tc_text = t, tc_keys = (if truthy (ti_keys info) then ti_keys info else None), tc_isReason = False,
            tc_placement = side, tc_delay = wait\<rparr>
          else None)"
    by (cases "ti_text info") (simp_all add: readTrigger_def read fields text_or_def Let_def)
qed

end
