(* ===== verification/Tree_Rows.thy ===== *)
theory Tree_Rows
  imports Tree_View Drag_Drop Links
begin

text \<open>
  A row of the tree (\<open>ui-kit/src/components/Tree/TreeRow.tsx\<close>) and what the tree gives it (\<open>Tree.tsx\<close>): the field a name is
  edited in, the places of a row and what a press of each asks of the tree, the one tooltip, what the row is to a drag.
  Names and counters are strings; icons are not modelled.
\<close>

section \<open>What the tree gives a row\<close>

text \<open>What the app says of a node besides: its error and its counter.\<close>

record node_extra =
  ne_error :: "string option"
  ne_meta :: "string option"

datatype drop_mark = DropInto | DropTop | DropBottom

record row_props =
  rp_row :: node_row
  rp_cursor :: bool
  rp_active :: bool
  rp_renaming :: bool
  rp_dragSource :: bool
  rp_drop :: "drop_mark option"
  rp_dropDepth :: "nat option"
  rp_canAdd :: bool
  rp_hasActions :: bool
  rp_liftable :: bool
  rp_droppable :: bool
  rp_dropMode :: row_mode
  rp_dropBlocked :: "instruction list"
  rp_path :: "string option"

definition tree_max_depth :: nat where
  "tree_max_depth = 6"

text \<open>The path of a deep row: its ancestors' names and its own.\<close>

definition path_of :: "tree_index \<Rightarrow> node_row \<Rightarrow> string option" where
  "path_of ix r =
    (if nr_depth r < tree_max_depth then None
     else map_option (\<lambda>as. join '' / '' (map (\<lambda>i. case js_get ix i of Some q \<Rightarrow> tn_label (np_node q) | None \<Rightarrow> []) (as @ [tn_id (nr_node r)])))
       (ancestorsOf ix (tn_id (nr_node r))))"

definition drop_of :: "drag_state option \<Rightarrow> string \<Rightarrow> drop_mark option \<times> nat option" where
  "drop_of drag i =
    (case Option.bind drag dg_target of
      None \<Rightarrow> (None, None)
    | Some t \<Rightarrow>
        if dt_rowId t \<noteq> i then (None, None)
        else (case dt_line t of
            Some (edge, depth) \<Rightarrow> (Some (if edge = EdgeTop then DropTop else DropBottom), Some depth)
          | None \<Rightarrow> (Some DropInto, None)))"

text \<open>\<open>adds\<close>, \<open>gives\<close>, \<open>takes\<close>: whether the app has \<open>onAdd\<close>, \<open>dragData\<close> and \<open>accept\<close>.\<close>

definition rowProps :: "tree_props \<Rightarrow> bool \<Rightarrow> bool \<Rightarrow> bool \<Rightarrow> tree_view \<Rightarrow> string option \<Rightarrow> drag_state option \<Rightarrow> node_row \<Rightarrow> row_props" where
  "rowProps p adds gives takes v cursor_id drag r =
    (let i = tn_id (nr_node r); (mark, depth) = drop_of drag i
     in \<lparr>rp_row = r, rp_cursor = (cursor_id = Some i), rp_active = (tp_activeId p = Some i), rp_renaming = (tv_renamingId v = Some i),
         rp_dragSource = (Option.bind drag dg_sourceId = Some i), rp_drop = mark, rp_dropDepth = depth,
         rp_canAdd = (adds \<and> canContain (nr_node r)), rp_hasActions = tp_actions p, rp_liftable = (tp_onMove p \<or> gives),
         rp_droppable = (tp_onMove p \<or> takes), rp_dropMode = rowMode r, rp_dropBlocked = blockedOn (tv_index p) r,
         rp_path = path_of (tv_index p) r\<rparr>)"

section \<open>The field of a name\<close>

text \<open>\<open>rf_out\<close>: what \<open>onDone\<close> was called with, the text or none, and whether by a key.\<close>

record rename_field =
  rf_draft :: string
  rf_done :: bool
  rf_out :: "(string option \<times> bool) list"

definition new_field :: "string \<Rightarrow> rename_field" where
  "new_field initial = \<lparr>rf_draft = initial, rf_done = False, rf_out = []\<rparr>"

definition finish_rename :: "string option \<Rightarrow> bool \<Rightarrow> rename_field \<Rightarrow> rename_field" where
  "finish_rename text_value byKey s =
    (if rf_done s then s else s\<lparr>rf_done := True, rf_out := rf_out s @ [(text_value, byKey)]\<rparr>)"

text \<open>A key while the input method composes is its own.\<close>

datatype field_event = FieldTyped string | FieldKey string bool | FieldLeft

definition field_step :: "rename_field \<Rightarrow> field_event \<Rightarrow> rename_field" where
  "field_step s e =
    (case e of
      FieldTyped t \<Rightarrow> s\<lparr>rf_draft := t\<rparr>
    | FieldKey key composing \<Rightarrow>
        if composing then s
        else if key = ''Enter'' then finish_rename (Some (rf_draft s)) True s
        else if key = ''Escape'' then finish_rename None True s
        else s
    | FieldLeft \<Rightarrow> finish_rename (Some (rf_draft s)) False s)"

text \<open>The tree hears each call of \<open>onDone\<close>.\<close>

definition tree_hears :: "(string \<Rightarrow> string) \<Rightarrow> tree_props \<Rightarrow> string \<Rightarrow> (string option \<times> bool) list \<Rightarrow> tree_view \<Rightarrow> tree_view" where
  "tree_hears trim_text p i calls v = foldl (\<lambda>v (t, _). renamed trim_text p i t v) v calls"

section \<open>The places of a row\<close>

datatype row_spot = SpotRow | SpotLink | SpotChevron | SpotField | SpotRetry | SpotAdd | SpotMore

definition show_actions :: "row_props \<Rightarrow> bool" where
  "show_actions p \<longleftrightarrow> (rp_canAdd p \<or> rp_hasActions p) \<and> \<not> rp_renaming p"

definition row_spots :: "node_extra \<Rightarrow> row_props \<Rightarrow> row_spot list" where
  "row_spots x p =
    [SpotRow, SpotChevron] @
    (if rp_renaming p then [SpotField] else if truthy (tn_href (nr_node (rp_row p))) then [SpotLink] else []) @
    (if truthy (ne_error x) \<and> \<not> rp_renaming p then [SpotRetry] else []) @
    (if show_actions p then (if rp_canAdd p then [SpotAdd] else []) @ (if rp_hasActions p then [SpotMore] else []) else [])"

text \<open>What a press of a place asks of the tree: a button's and the field's presses go no further than they.\<close>

datatype row_call = CallClick bool | CallToggle | CallAdd | CallMore | CallRetry

definition press_spot :: "row_spot \<Rightarrow> row_call list" where
  "press_spot spot =
    (case spot of
      SpotRow \<Rightarrow> [CallClick False] | SpotLink \<Rightarrow> [CallClick True] | SpotChevron \<Rightarrow> [CallToggle] | SpotField \<Rightarrow> []
    | SpotRetry \<Rightarrow> [CallRetry] | SpotAdd \<Rightarrow> [CallAdd] | SpotMore \<Rightarrow> [CallMore])"

text \<open>The tree's answer; adding and retrying are calls of the app only.\<close>

definition row_called :: "tree_props \<Rightarrow> tree_node \<Rightarrow> bool \<Rightarrow> row_call \<Rightarrow> tree_view \<Rightarrow> tree_view" where
  "row_called p n newTab c v =
    (case c of
      CallClick onLink \<Rightarrow> row_click p n onLink newTab v
    | CallToggle \<Rightarrow> row_toggle (tn_id n) v
    | CallMore \<Rightarrow> row_more p (tn_id n) v
    | _ \<Rightarrow> v)"

section \<open>What a row shows\<close>

text \<open>The tooltips of the row and of its name; \<open>treeNoAccess\<close> is the kit's message.\<close>

definition no_info :: tooltip_info where
  "no_info = \<lparr>ti_text = None, ti_overflow = False, ti_reason = None, ti_keys = None, ti_placement = None, ti_delay = None\<rparr>"

definition rowTooltip :: "node_extra \<Rightarrow> row_props \<Rightarrow> tooltip_info option" where
  "rowTooltip x p =
    (if truthy (ne_error x) then Some (no_info\<lparr>ti_text := ne_error x\<rparr>)
     else if tn_disabledReason (nr_node (rp_row p)) \<noteq> None then Some (no_info\<lparr>ti_reason := tn_disabledReason (nr_node (rp_row p))\<rparr>)
     else if truthy (rp_path p) then Some (no_info\<lparr>ti_text := rp_path p\<rparr>)
     else None)"

definition labelTooltip :: "node_extra \<Rightarrow> row_props \<Rightarrow> tooltip_info option" where
  "labelTooltip x p =
    (if truthy (ne_error x) \<or> tn_disabledReason (nr_node (rp_row p)) \<noteq> None \<or> truthy (rp_path p) then None
     else Some (no_info\<lparr>ti_overflow := True\<rparr>))"

definition row_meta :: "string \<Rightarrow> node_extra \<Rightarrow> row_props \<Rightarrow> string option" where
  "row_meta treeNoAccess x p =
    (let meta = (if tn_disabledReason (nr_node (rp_row p)) \<noteq> None then Some treeNoAccess else ne_meta x)
     in if truthy meta \<and> \<not> truthy (ne_error x) then meta else None)"

record row_aria =
  ra_level :: nat
  ra_posinset :: nat
  ra_setsize :: nat
  ra_expanded :: "bool option"
  ra_current :: bool
  ra_label :: string

definition row_says :: "row_props \<Rightarrow> row_aria" where
  "row_says p =
    (let r = rp_row p; n = nr_node r
     in \<lparr>ra_level = nr_depth r + 1, ra_posinset = nr_index r + 1, ra_setsize = nr_setSize r,
         ra_expanded = (if isExpandable n then Some (nr_expanded r) else None), ra_current = rp_active p, ra_label = tn_label n\<rparr>)"

section \<open>The row in a drag\<close>

text \<open>What is registered for the row; \<open>may_lift\<close> and \<open>may_take\<close> are what the tree answers at the time.\<close>

datatype row_registration = Lifts bool | Takes bool row_mode "instruction list" nat

definition canDropOn :: "bool \<Rightarrow> bool \<Rightarrow> bool \<Rightarrow> bool" where
  "canDropOn own moves accepts = (if own then moves else accepts)"

definition row_registered :: "tree_view \<Rightarrow> bool \<Rightarrow> row_props \<Rightarrow> row_registration list" where
  "row_registered v may_take p =
    (if rp_liftable p then [Lifts (canDrag (nr_node (rp_row p)) v)] else []) @
    (if rp_droppable p then [Takes may_take (rp_dropMode p) (rp_dropBlocked p) (nr_depth (rp_row p))] else [])"

text \<open>What other apps get of a row that is dragged out; \<open>absolute\<close> is the address made whole.\<close>

definition externalDataOf :: "(string \<Rightarrow> string) \<Rightarrow> string option \<Rightarrow> (string \<times> string) list" where
  "externalDataOf absolute href =
    (case href of None \<Rightarrow> [] | Some h \<Rightarrow> [(''text/uri-list'', absolute h), (''text/plain'', absolute h)])"

section \<open>A rename ends once\<close>

definition field_ok :: "rename_field \<Rightarrow> bool" where
  "field_ok s \<longleftrightarrow> (if rf_done s then \<exists>c. rf_out s = [c] \<and> (fst c = None \<longrightarrow> snd c) else rf_out s = [])"

interpretation rename_field: event_machine field_step "\<lambda>_ _. True" field_ok
  by unfold_locales (auto simp: field_ok_def field_step_def finish_rename_def split: field_event.splits)

text \<open>The tree's answer to one call: the field goes, and a new name that is not empty is told to the app.\<close>

lemma renamed_effects:
  "tv_effects (renamed trim_text p i t v) = tv_effects v @
    (case (t, js_get (tv_index p) i) of
      (Some x, Some q) \<Rightarrow> if trim_text x \<noteq> [] \<and> trim_text x \<noteq> tn_label (np_node q) \<and> tp_onRename p then [EffRename i (trim_text x)] else []
    | _ \<Rightarrow> [])"
  "tv_renamingId (renamed trim_text p i t v) = None"
  by (cases t; auto simp: renamed_def effect_def Let_def split: option.split)+

text \<open>
  Whatever is typed and pressed, in whatever order the keys and the loss of focus come, the field ends at most once; the
  app is told of at most one new name, never of an empty or an unchanged one, and not after Esc.
\<close>

theorem rename_ends_once:
  assumes "s = foldl field_step (new_field initial) es" and "v' = tree_hears trim_text p i (rf_out s) v"
  shows "length (rf_out s) \<le> 1" and "rf_out s \<noteq> [] \<Longrightarrow> tv_renamingId v' = None"
    and "tv_effects v' = tv_effects v \<or>
      (\<exists>x q. fst (hd (rf_out s)) = Some x \<and> js_get (tv_index p) i = Some q \<and> trim_text x \<noteq> [] \<and>
        trim_text x \<noteq> tn_label (np_node q) \<and> tv_effects v' = tv_effects v @ [EffRename i (trim_text x)])"
proof -
  have "admissible field_step (\<lambda>_ _. True) (new_field initial) es" by (rule admissible_all)
  moreover have "field_ok (new_field initial)" by (simp add: field_ok_def new_field_def)
  ultimately have ok: "field_ok s" using rename_field.run_inv assms(1) by blast
  then consider "rf_out s = []" | t k where "rf_out s = [(t, k)]" by (auto simp: field_ok_def split: if_splits)
  then show "length (rf_out s) \<le> 1" "rf_out s \<noteq> [] \<Longrightarrow> tv_renamingId v' = None"
    "tv_effects v' = tv_effects v \<or>
      (\<exists>x q. fst (hd (rf_out s)) = Some x \<and> js_get (tv_index p) i = Some q \<and> trim_text x \<noteq> [] \<and>
        trim_text x \<noteq> tn_label (np_node q) \<and> tv_effects v' = tv_effects v @ [EffRename i (trim_text x)])"
    by (cases; auto simp: assms(2) tree_hears_def renamed_effects split: option.splits)+
qed

lemma done_is_final: "rf_done s \<Longrightarrow> rf_out (foldl field_step s es) = rf_out s"
proof (induction es arbitrary: s)
  case (Cons e es)
  have "rf_done (field_step s e) \<and> rf_out (field_step s e) = rf_out s"
    using Cons.prems by (auto simp: field_step_def finish_rename_def split: field_event.split)
  then show ?case using Cons.IH by simp
qed simp

text \<open>Esc gives up for good: the focus that leaves with the field saves nothing.\<close>

theorem escape_saves_no_name:
  assumes "rf_done s = False" and "rf_out s = []"
  shows "rf_out (foldl field_step s (FieldKey ''Escape'' False # es)) = [(None, True)]"
    and "tv_effects (tree_hears trim_text p i [(None, True)] v) = tv_effects v"
proof -
  have "field_step s (FieldKey ''Escape'' False) = s\<lparr>rf_done := True, rf_out := [(None, True)]\<rparr>"
    using assms by (simp add: field_step_def finish_rename_def)
  then show "rf_out (foldl field_step s (FieldKey ''Escape'' False # es)) = [(None, True)]"
    using done_is_final [of "s\<lparr>rf_done := True, rf_out := [(None, True)]\<rparr>" es] by simp
  show "tv_effects (tree_hears trim_text p i [(None, True)] v) = tv_effects v" by (simp add: tree_hears_def renamed_effects)
qed

section \<open>One row, one tooltip, one call\<close>

text \<open>
  A row has one tooltip, its own or its name's; a press asks one thing of the tree, but for the field, whose presses are
  its own; and while a name is edited the row has neither a link nor buttons for actions.
\<close>

theorem row_asks_one_thing:
  assumes "spot \<in> set (row_spots x p)"
  shows "length (press_spot spot) = (if spot = SpotField then 0 else 1)"
    and "rp_renaming p \<Longrightarrow> spot \<in> {SpotRow, SpotChevron, SpotField}"
    and "spot = SpotField \<longleftrightarrow> rp_renaming p \<and> spot \<notin> {SpotRow, SpotChevron}"
    and "(rowTooltip x p = None) \<noteq> (labelTooltip x p = None)"
  using assms
  by (auto simp: press_spot_def row_spots_def show_actions_def rowTooltip_def labelTooltip_def split: row_spot.split if_splits)

text \<open>Only the row the drag points at is marked, and a row whose name is edited is not lifted.\<close>

lemma one_row_marked: "fst (drop_of drag i) \<noteq> None \<Longrightarrow> fst (drop_of drag j) \<noteq> None \<Longrightarrow> i = j"
  by (auto simp: drop_of_def split: option.splits if_splits)

lemma edited_row_stays:
  "r = rowProps p adds gives takes v c drag row \<Longrightarrow> rp_renaming r \<Longrightarrow> Lifts True \<notin> set (row_registered v may_take r)"
  by (auto simp: row_registered_def canDrag_def rowProps_def Let_def split: prod.splits if_splits)

end
