(* ===== verification/Undo_History.thy ===== *)
theory Undo_History
  imports Prelude "HOL-Library.Multiset"
begin

text \<open>
  The history of operations (\<open>ui-kit/src/interaction/undo/store.ts\<close>). An operation's functions are
  the app's: the model knows only whether a redo is there, and a label says how a started step
  ended. Between its start and its end an entry is out of both lists; a failed one is kept by the
  error toast, which may try it again. An id is \<open>op-n\<close> of the sequence.
\<close>

section \<open>State\<close>

datatype op_id = Op nat

record undo_entry =
  en_id :: op_id
  en_label :: string
  en_scope :: string
  en_redo :: bool

datatype undo_step = StepUndo | StepRedo

record undo_state =
  un_past :: "undo_entry list"
  un_future :: "undo_entry list"
  un_scope :: "string option"
  un_sequence :: nat
  un_running :: "(undo_entry \<times> undo_step) list"
  un_failed :: "(undo_entry \<times> undo_step) list"

definition UNDO_GLOBAL_SCOPE :: string where
  "UNDO_GLOBAL_SCOPE = ''global''"

definition UNDO_HISTORY_LIMIT :: nat where
  "UNDO_HISTORY_LIMIT = 100"

definition new_history :: undo_state where
  "new_history = \<lparr>un_past = [], un_future = [], un_scope = None, un_sequence = 0, un_running = [], un_failed = []\<rparr>"

section \<open>Operations\<close>

definition without_entry :: "undo_entry list \<Rightarrow> op_id \<Rightarrow> undo_entry list" where
  "without_entry es i = filter (\<lambda>e. en_id e \<noteq> i) es"

definition inReach :: "undo_entry \<Rightarrow> string option \<Rightarrow> bool" where
  "inReach e scope \<longleftrightarrow> scope = None \<or> en_scope e = UNDO_GLOBAL_SCOPE \<or> Some (en_scope e) = scope"

definition lastInReach :: "undo_entry list \<Rightarrow> string option \<Rightarrow> undo_entry option" where
  "lastInReach es scope = List.find (\<lambda>e. inReach e scope) (rev es)"

text \<open>\<open>slice(-n)\<close>.\<close>

definition keep_last :: "nat \<Rightarrow> 'a list \<Rightarrow> 'a list" where
  "keep_last n xs = drop (length xs - n) xs"

definition push_op :: "string \<Rightarrow> bool \<Rightarrow> string option \<Rightarrow> undo_state \<Rightarrow> undo_state" where
  "push_op label redo scope s =
    (let n = Suc (un_sequence s);
         e = \<lparr>en_id = Op n, en_label = label,
              en_scope = (case scope of Some x \<Rightarrow> x
                | None \<Rightarrow> (case un_scope s of Some x \<Rightarrow> x | None \<Rightarrow> UNDO_GLOBAL_SCOPE)),
              en_redo = redo\<rparr>
     in s\<lparr>un_sequence := n, un_past := keep_last UNDO_HISTORY_LIMIT (un_past s @ [e]),
          un_future := filter (\<lambda>x. en_scope x \<noteq> en_scope e) (un_future s)\<rparr>)"

definition setScope :: "string option \<Rightarrow> undo_state \<Rightarrow> undo_state" where
  "setScope scope s = s\<lparr>un_scope := scope\<rparr>"

definition next_op :: "undo_step \<Rightarrow> undo_state \<Rightarrow> undo_entry option" where
  "next_op st s =
    (case st of
      StepUndo \<Rightarrow> lastInReach (un_past s) (un_scope s)
    | StepRedo \<Rightarrow> lastInReach (filter en_redo (un_future s)) (un_scope s))"

definition has_op :: "op_id \<Rightarrow> undo_state \<Rightarrow> bool" where
  "has_op i s \<longleftrightarrow> (\<exists>e\<in>set (un_past s). en_id e = i)"

definition run_step :: "undo_entry \<Rightarrow> undo_step \<Rightarrow> undo_state \<Rightarrow> undo_state" where
  "run_step e st s = s\<lparr>un_running := un_running s @ [(e, st)]\<rparr>"

text \<open>\<open>undo\<close> of the last operation in reach, or of the one with an id; \<open>redo\<close> of the last undone.\<close>

definition undo_op :: "op_id option \<Rightarrow> undo_state \<Rightarrow> undo_state" where
  "undo_op i s =
    (case (case i of None \<Rightarrow> next_op StepUndo s | Some x \<Rightarrow> List.find (\<lambda>e. en_id e = x) (un_past s)) of
      None \<Rightarrow> s
    | Some e \<Rightarrow> run_step e StepUndo (s\<lparr>un_past := without_entry (un_past s) (en_id e)\<rparr>))"

definition redo_op :: "undo_state \<Rightarrow> undo_state" where
  "redo_op s =
    (case next_op StepRedo s of
      None \<Rightarrow> s
    | Some e \<Rightarrow> run_step e StepRedo (s\<lparr>un_future := without_entry (un_future s) (en_id e)\<rparr>))"

text \<open>\<open>retry\<close> of a failed step, and its end: done, the entry goes where the step leads.\<close>

definition retry_op :: "undo_entry \<Rightarrow> undo_step \<Rightarrow> undo_state \<Rightarrow> undo_state" where
  "retry_op e st s =
    (if (e, st) \<in> set (un_failed s) then run_step e st (s\<lparr>un_failed := remove1 (e, st) (un_failed s)\<rparr>) else s)"

definition step_done :: "undo_entry \<Rightarrow> undo_step \<Rightarrow> undo_state \<Rightarrow> undo_state" where
  "step_done e st s =
    (case st of
      StepUndo \<Rightarrow> if en_redo e then s\<lparr>un_future := without_entry (un_future s) (en_id e) @ [e]\<rparr> else s
    | StepRedo \<Rightarrow> s\<lparr>un_past := without_entry (un_past s) (en_id e) @ [e]\<rparr>)"

definition step_settled :: "undo_entry \<Rightarrow> undo_step \<Rightarrow> bool \<Rightarrow> undo_state \<Rightarrow> undo_state" where
  "step_settled e st ok s =
    (if (e, st) \<notin> set (un_running s) then s
     else (let s' = s\<lparr>un_running := remove1 (e, st) (un_running s)\<rparr> in
       if ok then step_done e st s' else s'\<lparr>un_failed := un_failed s @ [(e, st)]\<rparr>))"

definition remove_op :: "op_id \<Rightarrow> undo_state \<Rightarrow> undo_state" where
  "remove_op i s = s\<lparr>un_past := without_entry (un_past s) i, un_future := without_entry (un_future s) i\<rparr>"

definition clear_ops :: "undo_state \<Rightarrow> undo_state" where
  "clear_ops s = s\<lparr>un_past := [], un_future := []\<rparr>"

datatype undo_label =
    PushOp string bool "string option"
  | SetScope "string option"
  | UndoOp "op_id option"
  | RedoOp
  | RetryOp undo_entry undo_step
  | StepSettled undo_entry undo_step bool
  | RemoveOp op_id
  | ClearOps

fun history_step :: "undo_state \<Rightarrow> undo_label \<Rightarrow> undo_state" where
  "history_step s (PushOp l r sc) = push_op l r sc s"
| "history_step s (SetScope sc) = setScope sc s"
| "history_step s (UndoOp i) = undo_op i s"
| "history_step s RedoOp = redo_op s"
| "history_step s (RetryOp e st) = retry_op e st s"
| "history_step s (StepSettled e st ok) = step_settled e st ok s"
| "history_step s (RemoveOp i) = remove_op i s"
| "history_step s ClearOps = clear_ops s"

section \<open>Invariant\<close>

text \<open>Every operation is in one place: done, undone, being stepped, or failed and kept by a toast.\<close>

definition held_entries :: "undo_state \<Rightarrow> undo_entry list" where
  "held_entries s = un_past s @ un_future s @ map fst (un_running s) @ map fst (un_failed s)"

definition history_wf :: "undo_state \<Rightarrow> bool" where
  "history_wf s \<longleftrightarrow> distinct (map en_id (held_entries s)) \<and>
    (\<forall>e\<in>set (held_entries s). \<exists>n. en_id e = Op n \<and> n \<le> un_sequence s)"

lemmas history_defs = history_wf_def held_entries_def

lemma distinct_filter_ids: "distinct (map f xs) \<Longrightarrow> distinct (map f (filter P xs))"
  by (rule distinct_map_filter)

lemma set_keep_last: "set (keep_last n xs) \<subseteq> set xs"
  by (auto simp: keep_last_def dest: in_set_dropD)

lemma distinct_keep_last: "distinct (map f xs) \<Longrightarrow> distinct (map f (keep_last n xs))"
  unfolding keep_last_def drop_map [symmetric] by (rule distinct_drop)

lemma distinct_sub_mset:
  assumes "mset xs \<subseteq># mset ys" and "distinct ys"
  shows "distinct xs"
proof -
  have le: "count (mset xs) a \<le> (if a \<in> set ys then 1 else 0)" for a
    using assms mset_subset_eq_count [OF assms(1), of a] unfolding distinct_count_atmost_1 by metis
  have "count (mset xs) a = (if a \<in> set xs then 1 else 0)" for a
  proof (cases "a \<in> set xs")
    case True
    then have "1 \<le> count (mset xs) a" by (simp add: Suc_le_eq)
    with le [of a] True show ?thesis by (auto split: if_splits intro: le_antisym)
  next
    case False
    then show ?thesis by (simp add: count_mset_0_iff)
  qed
  then show ?thesis unfolding distinct_count_atmost_1 by blast
qed

text \<open>Taking entries out of the lists, or moving one among them, keeps the invariant.\<close>

lemma history_wf_mset:
  assumes "history_wf s" and "mset (held_entries t) \<subseteq># mset (held_entries s)" and "un_sequence s \<le> un_sequence t"
  shows "history_wf t"
proof -
  have "mset (map en_id (held_entries t)) \<subseteq># mset (map en_id (held_entries s))"
    using assms(2) by (simp add: image_mset_subseteq_mono)
  then have "distinct (map en_id (held_entries t))"
    using assms(1) unfolding history_wf_def by (blast intro: distinct_sub_mset)
  moreover have "set (held_entries t) \<subseteq> set (held_entries s)"
    using assms(2) by (metis set_mset_mono set_mset_mset)
  ultimately show ?thesis using assms(1,3) unfolding history_wf_def by (meson order_trans subset_iff)
qed

lemma lastInReach_Some:
  assumes "lastInReach es scope = Some e"
  shows "\<exists>xs ys. es = xs @ e # ys \<and> inReach e scope \<and> (\<forall>y\<in>set ys. \<not> inReach y scope)"
proof -
  obtain i where i: "i < length es" "inReach (rev es ! i) scope" "e = rev es ! i" "\<forall>j<i. \<not> inReach (rev es ! j) scope"
    using assms by (auto simp: lastInReach_def find_Some_iff)
  let ?k = "length es - Suc i"
  have e: "e = es ! ?k" using i by (simp add: rev_nth)
  have "es = take ?k es @ es ! ?k # drop (Suc ?k) es"
    using i(1) by (intro id_take_nth_drop) simp
  moreover have "\<not> inReach y scope" if y: "y \<in> set (drop (Suc ?k) es)" for y
  proof -
    obtain m where m: "m < length (drop (Suc ?k) es)" "y = drop (Suc ?k) es ! m" using y by (metis in_set_conv_nth)
    then have "y = es ! (Suc ?k + m)" by simp
    moreover have "es ! (Suc ?k + m) = rev es ! (length es - Suc (Suc ?k + m))" using m(1) by (simp add: rev_nth)
    moreover have "length es - Suc (Suc ?k + m) < i" using m(1) i(1) by simp
    ultimately show ?thesis using i(4) by metis
  qed
  ultimately show ?thesis using e i(2,3) by metis
qed

lemma mset_without: "mset (without_entry es i) \<subseteq># mset es"
  by (simp add: without_entry_def mset_filter)

lemma mset_without_mem:
  assumes "e \<in> set es"
  shows "add_mset e (mset (without_entry es (en_id e))) \<subseteq># mset es"
proof -
  have "mset es = mset (without_entry es (en_id e)) + mset (filter (\<lambda>x. en_id x = en_id e) es)"
    by (simp add: without_entry_def mset_filter multiset_partition [symmetric] add.commute)
  moreover have "{#e#} \<subseteq># mset (filter (\<lambda>x. en_id x = en_id e) es)"
    using assms by (simp add: single_subset_iff)
  ultimately show ?thesis by (metis add_mset_add_single subset_mset.add_left_mono)
qed

lemma new_history_wf: "history_wf new_history"
  by (simp add: history_defs new_history_def)

lemma mset_held: "mset (held_entries s) =
    mset (un_past s) + mset (un_future s) + mset (map fst (un_running s)) + mset (map fst (un_failed s))"
  by (simp add: held_entries_def)

lemma push_op_wf:
  assumes "history_wf s"
  shows "history_wf (push_op l r sc s)"
proof -
  define e where "e = \<lparr>en_id = Op (Suc (un_sequence s)), en_label = l,
    en_scope = (case sc of Some x \<Rightarrow> x | None \<Rightarrow> (case un_scope s of Some x \<Rightarrow> x | None \<Rightarrow> UNDO_GLOBAL_SCOPE)),
    en_redo = r\<rparr>"
  let ?t = "s\<lparr>un_sequence := Suc (un_sequence s), un_past := un_past s @ [e]\<rparr>"
  have eid: "en_id e = Op (Suc (un_sequence s))" by (simp add: e_def)
  have "\<exists>n. en_id x = Op n \<and> n \<le> un_sequence s" if "x \<in> set (held_entries s)" for x
    using assms that unfolding history_wf_def by blast
  then have new: "en_id e \<notin> en_id ` set (held_entries s)" unfolding eid by fastforce
  have held: "mset (held_entries ?t) = add_mset e (mset (held_entries s))" by (simp add: held_entries_def)
  have "mset (map en_id (held_entries ?t)) = mset (map en_id (e # held_entries s))" by (simp add: held)
  then have "distinct (map en_id (held_entries ?t)) = distinct (map en_id (e # held_entries s))"
    by (rule mset_eq_imp_distinct_iff)
  moreover have "\<exists>n. en_id x = Op n \<and> n \<le> Suc (un_sequence s)" if "x \<in> set (held_entries ?t)" for x
  proof -
    have "x = e \<or> x \<in> set (held_entries s)" using that held by (metis insert_iff set_mset_add_mset_insert set_mset_mset)
    then show ?thesis using assms eid unfolding history_wf_def by (metis le_SucI le_refl)
  qed
  ultimately have "history_wf ?t" using assms new unfolding history_wf_def by simp
  moreover have "mset (held_entries (push_op l r sc s)) \<subseteq># mset (held_entries ?t)"
  proof -
    have "mset (keep_last UNDO_HISTORY_LIMIT (un_past s @ [e])) \<subseteq># mset (un_past s @ [e])"
      unfolding keep_last_def by (metis append_take_drop_id mset_append mset_subset_eq_add_right)
    moreover have "mset (filter (\<lambda>x. en_scope x \<noteq> en_scope e) (un_future s)) \<subseteq># mset (un_future s)"
      by (simp add: mset_filter)
    moreover have "push_op l r sc s = ?t\<lparr>un_past := keep_last UNDO_HISTORY_LIMIT (un_past s @ [e]),
        un_future := filter (\<lambda>x. en_scope x \<noteq> en_scope e) (un_future s)\<rparr>"
      by (simp add: push_op_def Let_def e_def)
    ultimately show ?thesis unfolding mset_held by (simp only: undo_state.simps) (intro subset_mset.add_mono; simp)
  qed
  ultimately show ?thesis
    by (rule history_wf_mset) (simp add: push_op_def Let_def)
qed

lemma mset_remove1_pair:
  "x \<in> set xs \<Longrightarrow> add_mset (fst x) (mset (map fst (remove1 x xs))) = mset (map fst xs)"
  by (induction xs) (auto simp: add_mset_commute)

lemma find_mem: "List.find P xs = Some x \<Longrightarrow> x \<in> set xs"
  by (auto simp: find_Some_iff)

lemma take_out_wf:
  assumes "history_wf s" and "e \<in> set (un_past s)"
  shows "history_wf (run_step e st (s\<lparr>un_past := without_entry (un_past s) (en_id e)\<rparr>))"
  using mset_without_mem [OF assms(2)]
  by (intro history_wf_mset [OF assms(1)]) (simp_all add: mset_held run_step_def)

lemma take_back_wf:
  assumes "history_wf s" and "e \<in> set (un_future s)"
  shows "history_wf (run_step e st (s\<lparr>un_future := without_entry (un_future s) (en_id e)\<rparr>))"
  using mset_without_mem [OF assms(2)]
  by (intro history_wf_mset [OF assms(1)]) (simp_all add: mset_held run_step_def)

lemma next_op_mem:
  "next_op StepUndo s = Some e \<Longrightarrow> e \<in> set (un_past s)"
  "next_op StepRedo s = Some e \<Longrightarrow> e \<in> set (un_future s)"
proof -
  show "next_op StepUndo s = Some e \<Longrightarrow> e \<in> set (un_past s)"
    using lastInReach_Some [of "un_past s" "un_scope s" e] by (auto simp: next_op_def)
  assume "next_op StepRedo s = Some e"
  then obtain xs ys where eq: "filter en_redo (un_future s) = xs @ e # ys"
    using lastInReach_Some [of "filter en_redo (un_future s)" "un_scope s" e] by (auto simp: next_op_def)
  have "e \<in> set (filter en_redo (un_future s))" unfolding eq by simp
  then show "e \<in> set (un_future s)" by simp
qed

lemma undo_op_wf: "history_wf s \<Longrightarrow> history_wf (undo_op i s)"
  using take_out_wf next_op_mem(1) find_mem [of _ "un_past s"]
  by (cases i) (auto simp: undo_op_def split: option.splits)

lemma redo_op_wf: "history_wf s \<Longrightarrow> history_wf (redo_op s)"
  using take_back_wf next_op_mem(2) by (auto simp: redo_op_def split: option.splits)

lemma retry_op_wf:
  assumes "history_wf s"
  shows "history_wf (retry_op e st s)"
proof (cases "(e, st) \<in> set (un_failed s)")
  case True
  have "add_mset e (mset (map fst (remove1 (e, st) (un_failed s)))) = mset (map fst (un_failed s))"
    using mset_remove1_pair [OF True] by simp
  then have "mset (held_entries (retry_op e st s)) = mset (held_entries s)"
    using True by (simp add: retry_op_def mset_held run_step_def)
  then show ?thesis by (intro history_wf_mset [OF assms]) (simp_all add: retry_op_def run_step_def)
qed (simp add: retry_op_def assms)

lemma step_settled_wf:
  assumes "history_wf s"
  shows "history_wf (step_settled e st ok s)"
proof (cases "(e, st) \<in> set (un_running s)")
  case True
  let ?r = "remove1 (e, st) (un_running s)"
  have run: "mset (map fst (un_running s)) = add_mset e (mset (map fst ?r))"
    using mset_remove1_pair [OF True] by simp
  have "mset (held_entries (step_settled e st ok s)) \<subseteq># mset (held_entries s)"
  proof (cases ok)
    case False
    then show ?thesis using True run by (simp add: step_settled_def mset_held)
  next
    case ok: True
    show ?thesis
    proof (cases st)
      case StepUndo
      then show ?thesis
        using ok True run mset_without [of "un_future s" "en_id e"]
        by (simp add: step_settled_def step_done_def mset_held Let_def subset_mset.add_increasing)
    next
      case StepRedo
      then show ?thesis
        using ok True run mset_without [of "un_past s" "en_id e"]
        by (simp add: step_settled_def step_done_def mset_held Let_def)
    qed
  qed
  moreover have "un_sequence (step_settled e st ok s) = un_sequence s"
    by (simp add: step_settled_def step_done_def Let_def split: undo_step.splits)
  ultimately show ?thesis by (intro history_wf_mset [OF assms]) simp_all
qed (simp add: step_settled_def assms)

lemma remove_op_wf:
  assumes "history_wf s"
  shows "history_wf (remove_op i s)"
  using subset_mset.add_mono [OF mset_without mset_without, of "un_past s" i "un_future s" i]
  by (intro history_wf_mset [OF assms]) (simp_all add: mset_held remove_op_def)

lemma clear_ops_wf: "history_wf s \<Longrightarrow> history_wf (clear_ops s)"
  by (erule history_wf_mset) (simp_all add: mset_held clear_ops_def)

lemma set_scope_wf: "history_wf s \<Longrightarrow> history_wf (setScope sc s)"
  by (simp add: history_defs setScope_def)

lemma history_step_wf: "history_wf s \<Longrightarrow> history_wf (history_step s l)"
  by (cases l)
    (simp_all add: push_op_wf set_scope_wf undo_op_wf redo_op_wf retry_op_wf step_settled_wf remove_op_wf clear_ops_wf)

interpretation history: event_machine history_step "\<lambda>_ _. True" history_wf
  by unfold_locales (rule history_step_wf)

section \<open>Undo and redo\<close>

lemma without_absent: "i \<notin> en_id ` set es \<Longrightarrow> without_entry es i = es"
  unfolding without_entry_def filter_id_conv by (intro ballI notI) (metis imageI)

lemma held_ids:
  assumes "history_wf s" and "e \<in> set (un_past s)"
  shows "without_entry (un_future s) (en_id e) = un_future s" "(e, st) \<notin> set (un_running s)"
    "without_entry (without_entry (un_past s) (en_id e)) (en_id e) = without_entry (un_past s) (en_id e)"
proof -
  have d: "distinct (map en_id (un_past s @ un_future s @ map fst (un_running s) @ map fst (un_failed s)))"
    using assms(1) by (simp add: history_defs)
  have "en_id e \<in> en_id ` set (un_past s)" using assms(2) by simp
  then have out: "en_id e \<notin> en_id ` set (un_future s)" "en_id e \<notin> en_id ` fst ` set (un_running s)"
    using d by (simp_all add: image_image) blast+
  show "without_entry (un_future s) (en_id e) = un_future s"
    by (rule without_absent [OF out(1)])
  show "(e, st) \<notin> set (un_running s)" using out(2) by force
qed (simp add: without_entry_def)

lemma remove1_snoc: "x \<notin> set xs \<Longrightarrow> remove1 x (xs @ [x]) = xs"
  by (simp add: remove1_append)

lemma undo_settled:
  assumes "history_wf s" and "next_op StepUndo s = Some e" and "en_redo e"
  shows "step_settled e StepUndo True (undo_op None s) =
    s\<lparr>un_past := without_entry (un_past s) (en_id e), un_future := un_future s @ [e]\<rparr>"
  using held_ids [OF assms(1) next_op_mem(1) [OF assms(2)]] assms
  by (simp add: undo_op_def run_step_def step_settled_def step_done_def remove1_snoc Let_def)

lemma redo_last:
  assumes "en_redo e" and "inReach e (un_scope s)" and "un_future s = fs @ [e]" and "without_entry fs (en_id e) = fs"
    and "(e, StepRedo) \<notin> set (un_running s)"
  shows "next_op StepRedo s = Some e"
    and "step_settled e StepRedo True (redo_op s) = s\<lparr>un_past := without_entry (un_past s) (en_id e) @ [e], un_future := fs\<rparr>"
proof -
  show n: "next_op StepRedo s = Some e" using assms by (simp add: next_op_def lastInReach_def)
  show "step_settled e StepRedo True (redo_op s) = s\<lparr>un_past := without_entry (un_past s) (en_id e) @ [e], un_future := fs\<rparr>"
    using assms(3-5) n
    by (simp add: redo_op_def run_step_def step_settled_def step_done_def remove1_snoc Let_def without_entry_def)
qed

section \<open>Properties\<close>

text \<open>
  Whatever is done in any order, an operation is in the history at most once (done, undone,
  being stepped or kept by an error toast), and mod+Z takes the latest done operation that can be
  seen from where the app is and leaves every operation of another page alone.
\<close>

theorem undo_reaches_own_scope:
  assumes "s = foldl history_step new_history ls"
  shows "distinct (map en_id (held_entries s)) \<and>
    (\<forall>e. next_op StepUndo s = Some e \<longrightarrow>
      (\<exists>xs ys. un_past s = xs @ e # ys \<and> inReach e (un_scope s) \<and> (\<forall>y\<in>set ys. \<not> inReach y (un_scope s)) \<and>
        un_past (undo_op None s) = xs @ ys))"
proof -
  have wf: "history_wf s" unfolding assms by (rule history.run_inv [OF new_history_wf admissible_all])
  have "\<exists>xs ys. un_past s = xs @ e # ys \<and> inReach e (un_scope s) \<and> (\<forall>y\<in>set ys. \<not> inReach y (un_scope s)) \<and>
      un_past (undo_op None s) = xs @ ys" if "next_op StepUndo s = Some e" for e
  proof -
    have "lastInReach (un_past s) (un_scope s) = Some e" using that by (simp add: next_op_def)
    then obtain xs ys where xy: "un_past s = xs @ e # ys" "inReach e (un_scope s)" "\<forall>y\<in>set ys. \<not> inReach y (un_scope s)"
      using lastInReach_Some [of "un_past s" "un_scope s" e] by blast
    have "distinct (map en_id (un_past s))" using wf unfolding history_defs by (simp only: map_append distinct_append)
    then have "en_id e \<notin> en_id ` set xs" "en_id e \<notin> en_id ` set ys" unfolding xy(1) by simp_all
    then have "without_entry (xs @ e # ys) (en_id e) = xs @ ys"
      using without_absent by (simp add: without_entry_def)
    then have "un_past (undo_op None s) = xs @ ys" using that xy(1) by (simp add: undo_op_def run_step_def)
    then show ?thesis using xy by blast
  qed
  then show ?thesis using wf by (simp add: history_wf_def)
qed

definition two_pages :: undo_state where
  "two_pages = foldl history_step new_history
    [SetScope (Some ''a''), PushOp ''x'' True None, SetScope (Some ''b''), PushOp ''y'' True None, SetScope (Some ''a'')]"

theorem undo_reaches_own_scope_witness:
  "map en_label (un_past (undo_op None two_pages)) = [''y'']"
  using undo_reaches_own_scope [OF two_pages_def]
  by (simp add: two_pages_def new_history_def setScope_def push_op_def undo_op_def next_op_def lastInReach_def inReach_def
      keep_last_def UNDO_HISTORY_LIMIT_def UNDO_GLOBAL_SCOPE_def run_step_def without_entry_def Let_def)

text \<open>
  An undo that succeeds and the redo right after it give back what was: the operation is the
  last done one, everything else is where it was, and what could be redone before still can. An
  undo that fails leaves the history without the operation, so the next mod+Z takes another.
\<close>

theorem undo_redo_round_trip:
  assumes "history_wf s" and "next_op StepUndo s = Some e" and "en_redo e"
  shows "next_op StepRedo (step_settled e StepUndo True (undo_op None s)) = Some e \<and>
    step_settled e StepRedo True (redo_op (step_settled e StepUndo True (undo_op None s))) =
      s\<lparr>un_past := without_entry (un_past s) (en_id e) @ [e]\<rparr> \<and>
    \<not> has_op (en_id e) (step_settled e StepUndo False (undo_op None s)) \<and>
    un_future (step_settled e StepUndo False (undo_op None s)) = un_future s"
proof -
  let ?s1 = "s\<lparr>un_past := without_entry (un_past s) (en_id e), un_future := un_future s @ [e]\<rparr>"
  note held = held_ids [OF assms(1) next_op_mem(1) [OF assms(2)]]
  have reach: "inReach e (un_scope s)"
    using lastInReach_Some [of "un_past s" "un_scope s" e] assms(2) by (auto simp: next_op_def)
  have "next_op StepRedo ?s1 = Some e"
    "step_settled e StepRedo True (redo_op ?s1) = ?s1\<lparr>un_past := without_entry (un_past ?s1) (en_id e) @ [e], un_future := un_future s\<rparr>"
    using redo_last [of e ?s1 "un_future s"] assms(3) reach held by simp_all
  moreover have "\<not> has_op (en_id e) (step_settled e StepUndo False (undo_op None s))"
    "un_future (step_settled e StepUndo False (undo_op None s)) = un_future s"
    using assms(2) by (simp_all add: undo_op_def run_step_def step_settled_def has_op_def without_entry_def Let_def)
  ultimately show ?thesis using held(3) unfolding undo_settled [OF assms] by simp
qed

theorem undo_redo_round_trip_witness:
  "un_past (step_settled \<lparr>en_id = Op 1, en_label = ''x'', en_scope = ''a'', en_redo = True\<rparr> StepRedo True
      (redo_op (step_settled \<lparr>en_id = Op 1, en_label = ''x'', en_scope = ''a'', en_redo = True\<rparr> StepUndo True
        (undo_op None (new_history\<lparr>un_past := [\<lparr>en_id = Op 1, en_label = ''x'', en_scope = ''a'', en_redo = True\<rparr>],
          un_sequence := 1\<rparr>))))) =
    [\<lparr>en_id = Op 1, en_label = ''x'', en_scope = ''a'', en_redo = True\<rparr>]"
  using undo_redo_round_trip [of "new_history\<lparr>un_past := [\<lparr>en_id = Op 1, en_label = ''x'', en_scope = ''a'', en_redo = True\<rparr>],
      un_sequence := 1\<rparr>" "\<lparr>en_id = Op 1, en_label = ''x'', en_scope = ''a'', en_redo = True\<rparr>"]
  by (simp add: new_history_def history_defs next_op_def lastInReach_def inReach_def without_entry_def)

end
