(* ===== verification/Key_Hooks.thy ===== *)
theory Key_Hooks
  imports Keyboard
begin

text \<open>
  The hooks by which components hold their hotkeys and their levels of the Esc ladder
  (\<open>interaction/hotkeys/useRegisterHotkey.ts\<close>, \<open>interaction/escape/useEscapeStack.ts\<close>), over the registry and the ladder of
  \<open>Keyboard\<close>. A component is a number; callbacks and handlers are numbers too, a new one at any render. React's calls
  are the events: the first render and the ones after, and the end of the component.
\<close>

section \<open>What the hooks keep\<close>

text \<open>\<open>kc_registered\<close> is the registration the effect made; \<open>kc_latest\<close> the callback of the latest render.\<close>

record key_component =
  kc_combination :: string
  kc_registered :: nat
  kc_latest :: nat

record esc_component =
  ec_level :: "nat option"
  ec_latest :: nat

record hook_state =
  hk_store :: hotkeys_state
  hk_stack :: "nat list"
  hk_hotkeys :: "nat \<rightharpoonup> key_component"
  hk_escapes :: "nat \<rightharpoonup> esc_component"
  hk_fresh :: nat

definition no_components :: hook_state where
  "no_components = \<lparr>hk_store = \<lparr>hs_hotkeys = [], hs_activeChord = None\<rparr>, hk_stack = [], hk_hotkeys = Map.empty,
    hk_escapes = Map.empty, hk_fresh = 0\<rparr>"

section \<open>Hotkeys\<close>

text \<open>
  A render of the component \<open>c\<close>: the layout effect takes the callback; the effect runs at the first render and when the
  combination is another, after the disposer of the one before.
\<close>

definition useRegisterHotkey :: "nat \<Rightarrow> hotkey_handler_config \<Rightarrow> nat \<Rightarrow> hook_state \<Rightarrow> hook_state" where
  "useRegisterHotkey c config callback s =
    (let combination = getHotkeyCombinationString config;
         new_key = \<lparr>kc_combination = combination, kc_registered = hk_fresh s, kc_latest = callback\<rparr>
     in case hk_hotkeys s c of
       None \<Rightarrow>
         s\<lparr>hk_store := registerHotkey (OneKey combination) (hk_fresh s) (hk_store s), hk_hotkeys := (hk_hotkeys s)(c \<mapsto> new_key),
           hk_fresh := Suc (hk_fresh s)\<rparr>
     | Some k \<Rightarrow>
         if kc_combination k = combination then s\<lparr>hk_hotkeys := (hk_hotkeys s)(c \<mapsto> k\<lparr>kc_latest := callback\<rparr>)\<rparr>
         else s\<lparr>hk_store := registerHotkey (OneKey combination) (hk_fresh s)
                  (unregisterHotkey (OneKey (kc_combination k)) (Some (kc_registered k)) (hk_store s)),
                hk_hotkeys := (hk_hotkeys s)(c \<mapsto> new_key), hk_fresh := Suc (hk_fresh s)\<rparr>)"

definition hotkey_unmount :: "nat \<Rightarrow> hook_state \<Rightarrow> hook_state" where
  "hotkey_unmount c s =
    (case hk_hotkeys s c of
      None \<Rightarrow> s
    | Some k \<Rightarrow> s\<lparr>hk_store := unregisterHotkey (OneKey (kc_combination k)) (Some (kc_registered k)) (hk_store s),
        hk_hotkeys := (hk_hotkeys s)(c := None)\<rparr>)"

section \<open>Levels of the ladder\<close>

definition useEscapeStack :: "nat \<Rightarrow> bool \<Rightarrow> nat \<Rightarrow> hook_state \<Rightarrow> hook_state" where
  "useEscapeStack c enabled handler s =
    (let level = (case hk_escapes s c of None \<Rightarrow> None | Some e \<Rightarrow> ec_level e)
     in case (level, enabled) of
       (None, True) \<Rightarrow>
         s\<lparr>hk_stack := push_escape (hk_fresh s) (hk_stack s),
           hk_escapes := (hk_escapes s)(c \<mapsto> \<lparr>ec_level = Some (hk_fresh s), ec_latest = handler\<rparr>), hk_fresh := Suc (hk_fresh s)\<rparr>
     | (Some l, False) \<Rightarrow>
         s\<lparr>hk_stack := dispose_escape l (hk_stack s), hk_escapes := (hk_escapes s)(c \<mapsto> \<lparr>ec_level = None, ec_latest = handler\<rparr>)\<rparr>
     | _ \<Rightarrow> s\<lparr>hk_escapes := (hk_escapes s)(c \<mapsto> \<lparr>ec_level = level, ec_latest = handler\<rparr>)\<rparr>)"

definition escape_unmount :: "nat \<Rightarrow> hook_state \<Rightarrow> hook_state" where
  "escape_unmount c s =
    s\<lparr>hk_stack := (case hk_escapes s c of
        Some e \<Rightarrow> (case ec_level e of Some l \<Rightarrow> dispose_escape l (hk_stack s) | None \<Rightarrow> hk_stack s)
      | None \<Rightarrow> hk_stack s),
      hk_escapes := (hk_escapes s)(c := None)\<rparr>"

datatype hook_event = HotkeyRendered nat hotkey_handler_config nat | HotkeyUnmounted nat
  | EscapeRendered nat bool nat | EscapeUnmounted nat

fun hook_step :: "hook_state \<Rightarrow> hook_event \<Rightarrow> hook_state" where
  "hook_step s (HotkeyRendered c config callback) = useRegisterHotkey c config callback s"
| "hook_step s (HotkeyUnmounted c) = hotkey_unmount c s"
| "hook_step s (EscapeRendered c enabled handler) = useEscapeStack c enabled handler s"
| "hook_step s (EscapeUnmounted c) = escape_unmount c s"

section \<open>Who holds what\<close>

text \<open>
  What is promised, of components only: a component holds its combination from the render that took it, behind those
  that held theirs; a render with the same combination leaves it where it is. The same of the levels of the ladder.
\<close>

definition taken :: "nat \<Rightarrow> string \<Rightarrow> (nat \<times> string) list \<Rightarrow> (nat \<times> string) list" where
  "taken c combination hs = (if (c, combination) \<in> set hs then hs else filter (\<lambda>h. fst h \<noteq> c) hs @ [(c, combination)])"

fun holders_step :: "(nat \<times> string) list \<Rightarrow> hook_event \<Rightarrow> (nat \<times> string) list" where
  "holders_step hs (HotkeyRendered c config _) = taken c (getHotkeyCombinationString config) hs"
| "holders_step hs (HotkeyUnmounted c) = filter (\<lambda>h. fst h \<noteq> c) hs"
| "holders_step hs _ = hs"

fun levels_step :: "nat list \<Rightarrow> hook_event \<Rightarrow> nat list" where
  "levels_step ls (EscapeRendered c enabled _) =
    (if enabled then (if c \<in> set ls then ls else ls @ [c]) else filter (\<lambda>d. d \<noteq> c) ls)"
| "levels_step ls (EscapeUnmounted c) = filter (\<lambda>d. d \<noteq> c) ls"
| "levels_step ls _ = ls"

text \<open>The callback a component's hotkey calls, the handler its level calls: those of its latest render.\<close>

fun latest_step :: "(nat \<rightharpoonup> nat) \<times> (nat \<rightharpoonup> nat) \<Rightarrow> hook_event \<Rightarrow> (nat \<rightharpoonup> nat) \<times> (nat \<rightharpoonup> nat)" where
  "latest_step (ks, es) (HotkeyRendered c _ callback) = (ks(c \<mapsto> callback), es)"
| "latest_step (ks, es) (HotkeyUnmounted c) = (ks(c := None), es)"
| "latest_step (ks, es) (EscapeRendered c _ handler) = (ks, es(c \<mapsto> handler))"
| "latest_step (ks, es) (EscapeUnmounted c) = (ks, es(c := None))"

definition reg_of :: "hook_state \<Rightarrow> nat \<Rightarrow> nat" where
  "reg_of s c = (case hk_hotkeys s c of Some k \<Rightarrow> kc_registered k | None \<Rightarrow> 0)"

definition level_of :: "hook_state \<Rightarrow> nat \<Rightarrow> nat option" where
  "level_of s c = (case hk_escapes s c of Some e \<Rightarrow> ec_level e | None \<Rightarrow> None)"

definition keys_held :: "hook_state \<Rightarrow> (nat \<times> string) list \<Rightarrow> bool" where
  "keys_held s hs \<longleftrightarrow>
    distinct (map fst hs) \<and>
    (\<forall>c comb. (c, comb) \<in> set hs \<longleftrightarrow> (\<exists>k. hk_hotkeys s c = Some k \<and> kc_combination k = comb)) \<and>
    (\<forall>h \<in> set hs. reg_of s (fst h) < hk_fresh s) \<and> inj_on (reg_of s) (fst ` set hs) \<and>
    (\<forall>comb. registrations comb (hk_store s) = map (reg_of s \<circ> fst) (filter (\<lambda>h. snd h = comb) hs))"

definition levels_held :: "hook_state \<Rightarrow> nat list \<Rightarrow> bool" where
  "levels_held s ls \<longleftrightarrow>
    distinct ls \<and> (\<forall>c. c \<in> set ls \<longleftrightarrow> level_of s c \<noteq> None) \<and> (\<forall>l \<in> set (hk_stack s). l < hk_fresh s) \<and>
    distinct (hk_stack s) \<and> map (level_of s) ls = map Some (hk_stack s)"

lemma keys_held_same:
  assumes "keys_held s hs" and "hk_store s' = hk_store s" "hk_hotkeys s' = hk_hotkeys s" "hk_fresh s \<le> hk_fresh s'"
  shows "keys_held s' hs"
proof -
  have "reg_of s' = reg_of s" using assms(3) by (simp add: reg_of_def fun_eq_iff)
  then show ?thesis using assms unfolding keys_held_def by (auto dest: less_le_trans)
qed

lemma levels_held_same:
  assumes "levels_held s ls" and "hk_stack s' = hk_stack s" "hk_escapes s' = hk_escapes s" "hk_fresh s \<le> hk_fresh s'"
  shows "levels_held s' ls"
proof -
  have "level_of s' = level_of s" using assms(3) by (simp add: level_of_def fun_eq_iff)
  then show ?thesis using assms unfolding levels_held_def by (auto dest: less_le_trans)
qed

text \<open>A registration is taken out: what is left is what the others hold.\<close>

lemma filter_regs:
  assumes "\<And>h. h \<in> set hs \<Longrightarrow> r (fst h) = r c \<longleftrightarrow> fst h = c"
  shows "filter (\<lambda>x. x \<noteq> r c) (map (r \<circ> fst) (filter P hs)) = map (r \<circ> fst) (filter P (filter (\<lambda>h. fst h \<noteq> c) hs))"
  using assms by (induction hs) auto

lemma without_combination:
  assumes "keys_held s hs" and "hk_hotkeys s c = Some k"
  shows "registrations comb (unregisterHotkey (OneKey (kc_combination k)) (Some (kc_registered k)) (hk_store s)) =
    map (reg_of s \<circ> fst) (filter (\<lambda>h. snd h = comb) (filter (\<lambda>h. fst h \<noteq> c) hs))"
proof -
  have c: "(c, kc_combination k) \<in> set hs" and r: "reg_of s c = kc_registered k"
    using assms by (auto simp: keys_held_def reg_of_def)
  have inj: "reg_of s (fst h) = reg_of s c \<longleftrightarrow> fst h = c" if "h \<in> set hs" for h
  proof (rule inj_on_eq_iff)
    show "inj_on (reg_of s) (fst ` set hs)" using assms(1) by (simp add: keys_held_def)
    show "fst h \<in> fst ` set hs" "c \<in> fst ` set hs" using that c by force+
  qed
  have regs: "registrations comb (hk_store s) = map (reg_of s \<circ> fst) (filter (\<lambda>h. snd h = comb) hs)"
    using assms(1) by (simp add: keys_held_def)
  have only: "filter (\<lambda>h. snd h = comb) (filter (\<lambda>h. fst h \<noteq> c) hs) = filter (\<lambda>h. snd h = comb) hs" if "comb \<noteq> kc_combination k"
  proof -
    have "snd h = kc_combination k" if "h \<in> set hs" "fst h = c" for h
      using that assms unfolding keys_held_def by (metis option.inject prod.collapse)
    then show ?thesis using that by (auto intro!: filter_cong)
  qed
  show ?thesis
    using filter_regs [of hs "reg_of s" c "\<lambda>h. snd h = comb", OF inj] only r regs
    by (cases "comb = kc_combination k") (auto simp: registrations_unregister normalizeHotkey_def)
qed

lemma held_key:
  assumes "keys_held s hs" and "hs0 = filter (\<lambda>h. fst h \<noteq> c) hs"
    and "\<And>comb. registrations comb st = map (reg_of s \<circ> fst) (filter (\<lambda>h. snd h = comb) hs0)"
    and "s' = s\<lparr>hk_store := registerHotkey (OneKey combination) (hk_fresh s) st,
      hk_hotkeys := (hk_hotkeys s)(c \<mapsto> \<lparr>kc_combination = combination, kc_registered = hk_fresh s, kc_latest = callback\<rparr>),
      hk_fresh := Suc (hk_fresh s)\<rparr>"
  shows "keys_held s' (hs0 @ [(c, combination)])"
proof -
  have reg: "reg_of s' d = (if d = c then hk_fresh s else reg_of s d)" for d by (simp add: reg_of_def assms(4))
  have old: "reg_of s (fst h) < hk_fresh s" if "h \<in> set hs" for h using assms(1) that by (simp add: keys_held_def)
  have same: "map (reg_of s' \<circ> fst) (filter P hs0) = map (reg_of s \<circ> fst) (filter P hs0)" for P
    by (auto simp: reg assms(2))
  have "distinct (map fst (hs0 @ [(c, combination)]))"
    using assms(1) by (auto simp: keys_held_def assms(2) intro: distinct_map_filter)
  moreover have "(d, comb) \<in> set (hs0 @ [(c, combination)]) \<longleftrightarrow> (\<exists>k. hk_hotkeys s' d = Some k \<and> kc_combination k = comb)" for d comb
    using assms(1) by (auto simp: keys_held_def assms(2,4))
  moreover have "\<forall>h \<in> set (hs0 @ [(c, combination)]). reg_of s' (fst h) < hk_fresh s'"
  proof -
    have "hk_fresh s' = Suc (hk_fresh s)" by (simp add: assms(4))
    then show ?thesis using old by (auto simp: reg assms(2) less_Suc_eq)
  qed
  moreover have "inj_on (reg_of s') (fst ` set (hs0 @ [(c, combination)]))"
  proof -
    have "inj_on (reg_of s) (fst ` set hs0)"
      using assms(1) unfolding keys_held_def assms(2) by (auto elim: inj_on_subset)
    then have "inj_on (reg_of s') (fst ` set hs0)" using assms(2) by (auto simp: inj_on_def reg)
    moreover have "reg_of s' c \<notin> reg_of s' ` fst ` set hs0" using old assms(2) by (force simp: reg)
    ultimately show ?thesis by (auto simp: inj_on_insert)
  qed
  moreover have "registrations comb (hk_store s') = map (reg_of s' \<circ> fst) (filter (\<lambda>h. snd h = comb) (hs0 @ [(c, combination)]))" for comb
  proof -
    have "hk_store s' = registerHotkey (OneKey combination) (hk_fresh s) st" by (simp add: assms(4))
    moreover have "registrations comb st = map (reg_of s' \<circ> fst) (filter (\<lambda>h. snd h = comb) hs0)"
      unfolding same by (rule assms(3))
    ultimately show ?thesis by (cases "comb = combination") (auto simp: registrations_register normalizeHotkey_def reg)
  qed
  ultimately show ?thesis by (simp add: keys_held_def)
qed

lemma useRegisterHotkey_held:
  assumes "keys_held s hs"
  shows "keys_held (useRegisterHotkey c config callback s) (taken c (getHotkeyCombinationString config) hs)"
proof (cases "hk_hotkeys s c")
  case None
  then have none: "\<forall>h \<in> set hs. fst h \<noteq> c" using assms by (auto simp: keys_held_def)
  then have all: "filter (\<lambda>h. fst h \<noteq> c) hs = hs" by (simp add: filter_id_conv)
  have "registrations comb (hk_store s) = map (reg_of s \<circ> fst) (filter (\<lambda>h. snd h = comb) hs)" for comb
    using assms by (simp add: keys_held_def)
  then have "keys_held (useRegisterHotkey c config callback s) (hs @ [(c, getHotkeyCombinationString config)])"
    using held_key [OF assms all [symmetric]] None by (simp add: useRegisterHotkey_def Let_def)
  moreover have "(c, getHotkeyCombinationString config) \<notin> set hs" using none by auto
  ultimately show ?thesis by (simp add: taken_def all)
next
  case (Some k)
  then have mem: "(c, comb) \<in> set hs \<longleftrightarrow> comb = kc_combination k" for comb using assms by (auto simp: keys_held_def)
  show ?thesis
  proof (cases "kc_combination k = getHotkeyCombinationString config")
    case True
    let ?s' = "s\<lparr>hk_hotkeys := (hk_hotkeys s)(c \<mapsto> k\<lparr>kc_latest := callback\<rparr>)\<rparr>"
    have "reg_of ?s' = reg_of s" by (auto simp: reg_of_def Some fun_eq_iff)
    then have "keys_held ?s' hs" using assms Some unfolding keys_held_def by auto
    then show ?thesis using True Some mem by (simp add: useRegisterHotkey_def taken_def Let_def)
  next
    case False
    then show ?thesis using held_key [OF assms refl without_combination [OF assms Some] refl] Some mem
      by (simp add: useRegisterHotkey_def taken_def Let_def)
  qed
qed

lemma hotkey_unmount_held: "keys_held s hs \<Longrightarrow> keys_held (hotkey_unmount c s) (filter (\<lambda>h. fst h \<noteq> c) hs)"
proof -
  assume held: "keys_held s hs"
  show ?thesis
  proof (cases "hk_hotkeys s c")
    case None
    then have "filter (\<lambda>h. fst h \<noteq> c) hs = hs" using held by (auto simp: keys_held_def filter_id_conv)
    then show ?thesis using held None by (simp add: hotkey_unmount_def)
  next
    case (Some k)
    let ?hs = "filter (\<lambda>h. fst h \<noteq> c) hs" and ?s' = "hotkey_unmount c s"
    have reg: "reg_of ?s' d = reg_of s d" if "d \<noteq> c" for d using that Some by (simp add: hotkey_unmount_def reg_of_def)
    have same: "map (reg_of ?s' \<circ> fst) (filter P ?hs) = map (reg_of s \<circ> fst) (filter P ?hs)" for P by (auto simp: reg)
    have "inj_on (reg_of s) (fst ` set ?hs)" using held by (auto simp: keys_held_def elim: inj_on_subset)
    then have "inj_on (reg_of ?s') (fst ` set ?hs)" by (auto simp: inj_on_def reg)
    moreover have "registrations comb (hk_store ?s') = map (reg_of ?s' \<circ> fst) (filter (\<lambda>h. snd h = comb) ?hs)" for comb
      unfolding same using without_combination [OF held Some, of comb] Some by (simp add: hotkey_unmount_def)
    moreover have "hk_hotkeys ?s' d = (if d = c then None else hk_hotkeys s d)" "hk_fresh ?s' = hk_fresh s" for d
      using Some by (simp_all add: hotkey_unmount_def)
    ultimately show ?thesis using held reg unfolding keys_held_def by (auto intro: distinct_map_filter)
  qed
qed

lemma push_level:
  assumes "levels_held s ls" and "c \<notin> set ls"
    and "s' = s\<lparr>hk_stack := push_escape (hk_fresh s) (hk_stack s),
      hk_escapes := (hk_escapes s)(c \<mapsto> \<lparr>ec_level = Some (hk_fresh s), ec_latest = handler\<rparr>), hk_fresh := Suc (hk_fresh s)\<rparr>"
  shows "levels_held s' (ls @ [c])"
proof -
  have level: "level_of s' d = (if d = c then Some (hk_fresh s) else level_of s d)" for d by (simp add: assms(3) level_of_def)
  have "map (level_of s') ls = map (level_of s) ls" using assms(2) by (auto simp: level)
  also have "\<dots> = map Some (hk_stack s)" using assms(1) by (simp add: levels_held_def)
  finally have "map (level_of s') ls = map Some (hk_stack s)" .
  moreover have "hk_stack s' = hk_stack s @ [hk_fresh s]" "hk_fresh s' = Suc (hk_fresh s)"
    by (simp_all add: assms(3) push_escape_def)
  ultimately show ?thesis using assms(1,2) by (auto simp: levels_held_def level less_Suc_eq)
qed

lemma drop_level:
  assumes "levels_held s ls" and "level_of s c = Some l" and "level_of s' = (level_of s)(c := None)"
    and "hk_stack s' = dispose_escape l (hk_stack s)" and "hk_fresh s' = hk_fresh s"
  shows "levels_held s' (filter (\<lambda>d. d \<noteq> c) ls)"
proof -
  have eq: "map (level_of s) ls = map Some (hk_stack s)" and d: "distinct ls" "distinct (hk_stack s)" "c \<in> set ls"
    using assms(1,2) by (auto simp: levels_held_def)
  have "level_of s x = Some l \<longleftrightarrow> x = c" if "x \<in> set ls" for x
  proof -
    have "distinct (map (level_of s) ls)" unfolding eq using d(2) by (simp add: distinct_map)
    then show ?thesis using that d(3) assms(2) by (metis distinct_map inj_onD)
  qed
  then have "map (level_of s) (filter (\<lambda>d. d \<noteq> c) ls) = filter (\<lambda>x. x \<noteq> Some l) (map (level_of s) ls)"
    by (auto simp: filter_map comp_def intro!: arg_cong [where f = "map (level_of s)"] filter_cong)
  also have "\<dots> = map Some (filter (\<lambda>x. x \<noteq> l) (hk_stack s))" unfolding eq by (simp add: filter_map comp_def)
  finally have "map (level_of s') (filter (\<lambda>d. d \<noteq> c) ls) = map Some (hk_stack s')"
    by (simp add: assms(3,4) dispose_escape_def)
  then show ?thesis using assms d by (auto simp: levels_held_def dispose_escape_def)
qed

lemma useEscapeStack_held: "levels_held s ls \<Longrightarrow> levels_held (useEscapeStack c enabled handler s) (levels_step ls (EscapeRendered c enabled handler))"
proof -
  assume held: "levels_held s ls"
  have lv: "(case hk_escapes s c of None \<Rightarrow> None | Some e \<Rightarrow> ec_level e) = level_of s c" by (simp add: level_of_def)
  have mem: "c \<in> set ls \<longleftrightarrow> level_of s c \<noteq> None" using held by (simp add: levels_held_def)
  have same: "levels_held s' ls" if "s' = s\<lparr>hk_escapes := (hk_escapes s)(c \<mapsto> \<lparr>ec_level = level_of s c, ec_latest = handler\<rparr>)\<rparr>" for s'
  proof -
    have "level_of s' = level_of s" by (auto simp: that level_of_def fun_eq_iff)
    then show ?thesis using held by (simp add: levels_held_def that)
  qed
  show ?thesis
  proof (cases "level_of s c")
    case None
    then have "c \<notin> set ls" using mem by simp
    moreover from this have "filter (\<lambda>d. d \<noteq> c) ls = ls" by (auto simp: filter_id_conv)
    moreover have "levels_held (useEscapeStack c True handler s) (ls @ [c])"
      by (rule push_level [OF held \<open>c \<notin> set ls\<close>]) (simp add: useEscapeStack_def lv None)
    moreover have "levels_held (useEscapeStack c False handler s) ls"
      by (rule same) (simp add: useEscapeStack_def lv None)
    ultimately show ?thesis by (cases enabled) simp_all
  next
    case (Some l)
    then have "c \<in> set ls" using mem by simp
    moreover have "levels_held (useEscapeStack c False handler s) (filter (\<lambda>d. d \<noteq> c) ls)"
    proof (rule drop_level [OF held Some])
      have s': "useEscapeStack c False handler s = s\<lparr>hk_stack := dispose_escape l (hk_stack s),
          hk_escapes := (hk_escapes s)(c \<mapsto> \<lparr>ec_level = None, ec_latest = handler\<rparr>)\<rparr>"
        by (simp add: useEscapeStack_def lv Some)
      show "level_of (useEscapeStack c False handler s) = (level_of s)(c := None)"
        by (simp add: s' level_of_def fun_eq_iff)
      show "hk_stack (useEscapeStack c False handler s) = dispose_escape l (hk_stack s)"
        "hk_fresh (useEscapeStack c False handler s) = hk_fresh s" by (simp_all add: s')
    qed
    moreover have "levels_held (useEscapeStack c True handler s) ls"
      by (rule same) (simp add: useEscapeStack_def lv Some)
    ultimately show ?thesis by (cases enabled) simp_all
  qed
qed

lemma escape_unmount_held: "levels_held s ls \<Longrightarrow> levels_held (escape_unmount c s) (filter (\<lambda>d. d \<noteq> c) ls)"
proof -
  assume held: "levels_held s ls"
  show ?thesis
  proof (cases "level_of s c")
    case None
    then have "filter (\<lambda>d. d \<noteq> c) ls = ls" using held by (auto simp: levels_held_def filter_id_conv)
    moreover have "level_of (escape_unmount c s) = level_of s" using None by (auto simp: escape_unmount_def level_of_def fun_eq_iff)
    moreover have "hk_stack (escape_unmount c s) = hk_stack s" "hk_fresh (escape_unmount c s) = hk_fresh s"
      using None by (auto simp: escape_unmount_def level_of_def split: option.splits)
    ultimately show ?thesis using held by (simp add: levels_held_def)
  next
    case (Some l)
    show ?thesis
      by (rule drop_level [OF held Some]) (use Some in \<open>auto simp: escape_unmount_def level_of_def fun_eq_iff split: option.splits\<close>)
  qed
qed

lemma hook_step_held:
  assumes "keys_held s hs" and "levels_held s ls"
  shows "keys_held (hook_step s e) (holders_step hs e)" and "levels_held (hook_step s e) (levels_step ls e)"
proof -
  show "keys_held (hook_step s e) (holders_step hs e)"
    by (cases e) (auto simp: useRegisterHotkey_held hotkey_unmount_held assms useEscapeStack_def escape_unmount_def Let_def
        intro!: keys_held_same [OF assms(1)] split: option.splits bool.splits)
  show "levels_held (hook_step s e) (levels_step ls e)"
    using useEscapeStack_held [OF assms(2)] escape_unmount_held [OF assms(2)]
    by (cases e) (auto simp: useRegisterHotkey_def hotkey_unmount_def Let_def
        intro!: levels_held_same [OF assms(2)] split: option.splits if_splits simp del: levels_step.simps(1))
qed

definition latest_kept :: "hook_state \<Rightarrow> (nat \<rightharpoonup> nat) \<times> (nat \<rightharpoonup> nat) \<Rightarrow> bool" where
  "latest_kept s l \<longleftrightarrow> (\<forall>c. map_option kc_latest (hk_hotkeys s c) = fst l c \<and> map_option ec_latest (hk_escapes s c) = snd l c)"

lemma hook_step_latest: "latest_kept s l \<Longrightarrow> latest_kept (hook_step s e) (latest_step l e)"
  by (cases l; cases e)
    (auto simp: latest_kept_def useRegisterHotkey_def hotkey_unmount_def useEscapeStack_def escape_unmount_def Let_def split: option.splits bool.splits)

text \<open>The hooks beside what is promised of them, moving together.\<close>

type_synonym hook_run = "hook_state \<times> (nat \<times> string) list \<times> nat list \<times> ((nat \<rightharpoonup> nat) \<times> (nat \<rightharpoonup> nat))"

definition both_step :: "hook_run \<Rightarrow> hook_event \<Rightarrow> hook_run" where
  "both_step = (\<lambda>(s, hs, ls, l) e. (hook_step s e, holders_step hs e, levels_step ls e, latest_step l e))"

definition both_agree :: "hook_run \<Rightarrow> bool" where
  "both_agree = (\<lambda>(s, hs, ls, l). keys_held s hs \<and> levels_held s ls \<and> latest_kept s l)"

interpretation hooks: event_machine both_step "\<lambda>_ _. True" both_agree
  by unfold_locales (auto simp: both_step_def both_agree_def hook_step_held hook_step_latest)

lemma both_runs:
  "foldl both_step (s, hs, ls, l) es = (foldl hook_step s es, foldl holders_step hs es, foldl levels_step ls es, foldl latest_step l es)"
  by (induction es arbitrary: s hs ls l) (simp_all add: both_step_def)

lemma hooks_agree:
  "keys_held (foldl hook_step no_components es) (foldl holders_step [] es) \<and>
    levels_held (foldl hook_step no_components es) (foldl levels_step [] es) \<and>
    latest_kept (foldl hook_step no_components es) (foldl latest_step (Map.empty, Map.empty) es)"
proof -
  have "both_agree (no_components, [], [], (Map.empty, Map.empty))"
    by (simp add: both_agree_def keys_held_def levels_held_def latest_kept_def no_components_def registrations_def level_of_def)
  then have "both_agree (foldl both_step (no_components, [], [], (Map.empty, Map.empty)) es)"
    by (rule hooks.run_inv) (simp add: admissible_all)
  then show ?thesis by (simp add: both_runs both_agree_def)
qed

text \<open>
  However components come, render and go, a combination belongs to the one that took it last of those that have it,
  with the callback of its latest render, and to none when none has it: a render with the same combination moves
  nothing.
\<close>

theorem hotkey_is_the_last_holders:
  assumes "s = foldl hook_step no_components es"
    and "holders = filter (\<lambda>h. snd h = combination) (foldl holders_step [] es)"
  shows "holders = [] \<Longrightarrow> getHotkeyHandler (OneKey combination) (hk_store s) = None"
    and "holders \<noteq> [] \<Longrightarrow> \<exists>k. hk_hotkeys s (fst (last holders)) = Some k \<and>
      getHotkeyHandler (OneKey combination) (hk_store s) = Some (kc_registered k) \<and>
      Some (kc_latest k) = fst (foldl latest_step (Map.empty, Map.empty) es) (fst (last holders))"
proof -
  note agree = hooks_agree [of es, folded assms(1)]
  have regs: "registrations combination (hk_store s) = map (reg_of s \<circ> fst) holders"
    using agree by (simp add: keys_held_def assms(2))
  then show "holders = [] \<Longrightarrow> getHotkeyHandler (OneKey combination) (hk_store s) = None"
    by (simp add: getHotkeyHandler_def normalizeHotkey_def)
  assume some: "holders \<noteq> []"
  then have "last holders \<in> set holders" by simp
  then have "last holders \<in> set (foldl holders_step [] es)" by (simp add: assms(2))
  then have "(fst (last holders), snd (last holders)) \<in> set (foldl holders_step [] es)" by (simp only: prod.collapse)
  then obtain k where k: "hk_hotkeys s (fst (last holders)) = Some k" using agree unfolding keys_held_def by blast
  moreover have "getHotkeyHandler (OneKey combination) (hk_store s) = Some (kc_registered k)"
    using some k by (simp add: getHotkeyHandler_def normalizeHotkey_def regs last_map reg_of_def)
  moreover have "Some (kc_latest k) = fst (foldl latest_step (Map.empty, Map.empty) es) (fst (last holders))"
    using agree k unfolding latest_kept_def by (metis option.map(2))
  ultimately show "\<exists>k. hk_hotkeys s (fst (last holders)) = Some k \<and>
      getHotkeyHandler (OneKey combination) (hk_store s) = Some (kc_registered k) \<and>
      Some (kc_latest k) = fst (foldl latest_step (Map.empty, Map.empty) es) (fst (last holders))" by blast
qed

lemma ladder_map: "ladder takes (map f cs) = (map f (fst (ladder (takes \<circ> f) cs)), snd (ladder (takes \<circ> f) cs))"
  by (induction cs) (auto simp: Let_def split: prod.splits)

text \<open>
  Esc asks the enabled components from the one enabled last down to the first that takes the press; a level that is
  rendered again keeps its place.
\<close>

theorem escape_asks_in_order:
  assumes "s = foldl hook_step no_components es" and "levels = foldl levels_step [] es"
  shows "handleEscape takes (hk_stack s) =
    (let (asked, taken) = ladder (\<lambda>c. takes (the (level_of s c))) (rev levels) in (map (the \<circ> level_of s) asked, taken))"
proof -
  have "map (level_of s) levels = map Some (hk_stack s)" using hooks_agree [of es] by (simp add: assms levels_held_def)
  then have "map the (map (level_of s) levels) = hk_stack s" by simp
  then have "rev (hk_stack s) = map (the \<circ> level_of s) (rev levels)" by (metis map_map rev_map)
  then show ?thesis by (simp add: handleEscape_def ladder_map comp_def split_beta)
qed

end
