(* ===== verification/Key_Notation.thy ===== *)
theory Key_Notation
  imports Sidebar_View Inbox_Screen
begin

text \<open>
  How keys are shown (\<open>Kbd/formatKeys.ts\<close>, \<open>Kbd/Kbd.tsx\<close>, \<open>utils/platform.ts\<close>). What is written is a notation of
  Latin-1 characters; what is drawn or spoken has a few more signs (arrows, the modifiers of a Mac, two capitals
  outside Latin-1). The tables are read by their own names, not by those every JavaScript object has
  (\<open>constructor\<close>, \<open>__proto__\<close>).
\<close>

section \<open>Keys as they are shown\<close>

datatype key_sign = Printed char | CommandSign | ControlSign | OptionSign | ShiftSign
  | UpSign | DownSign | LeftSign | RightSign | CapitalMu | CapitalYDiaeresis | SequenceSign | NarrowSpace

type_synonym key_text = "key_sign list"

definition printed :: "string \<Rightarrow> key_text" where
  "printed s = map Printed s"

record formatted_key =
  fk_label :: key_text
  fk_spoken :: key_text

definition key_named :: "key_text \<Rightarrow> string \<Rightarrow> formatted_key" where
  "key_named label spoken = \<lparr>fk_label = label, fk_spoken = printed spoken\<rparr>"

fun MODIFIERS :: "key_platform \<Rightarrow> (string \<times> formatted_key) list" where
  "MODIFIERS PlatformMac =
    [(''mod'', key_named [CommandSign] ''Command''), (''meta'', key_named [CommandSign] ''Command''),
     (''cmd'', key_named [CommandSign] ''Command''), (''ctrl'', key_named [ControlSign] ''Control''),
     (''alt'', key_named [OptionSign] ''Option''), (''option'', key_named [OptionSign] ''Option''),
     (''shift'', key_named [ShiftSign] ''Shift'')]"
| "MODIFIERS PlatformOther =
    [(''mod'', key_named (printed ''Ctrl'') ''Ctrl''), (''meta'', key_named (printed ''Win'') ''Windows''),
     (''cmd'', key_named (printed ''Ctrl'') ''Ctrl''), (''ctrl'', key_named (printed ''Ctrl'') ''Ctrl''),
     (''alt'', key_named (printed ''Alt'') ''Alt''), (''option'', key_named (printed ''Alt'') ''Alt''),
     (''shift'', key_named (printed ''Shift'') ''Shift'')]"

definition NAMED_KEYS :: "(string \<times> formatted_key) list" where
  "NAMED_KEYS =
    [(''esc'', key_named (printed ''Esc'') ''Escape''), (''escape'', key_named (printed ''Esc'') ''Escape''),
     (''enter'', key_named (printed ''Enter'') ''Enter''), (''return'', key_named (printed ''Enter'') ''Enter''),
     (''space'', key_named (printed ''Space'') ''Space''), (''tab'', key_named (printed ''Tab'') ''Tab''),
     (''backspace'', key_named (printed ''Backspace'') ''Backspace''), (''delete'', key_named (printed ''Del'') ''Delete''),
     (''del'', key_named (printed ''Del'') ''Delete''), (''up'', key_named [UpSign] ''Up arrow''),
     (''arrowup'', key_named [UpSign] ''Up arrow''), (''down'', key_named [DownSign] ''Down arrow''),
     (''arrowdown'', key_named [DownSign] ''Down arrow''), (''left'', key_named [LeftSign] ''Left arrow''),
     (''arrowleft'', key_named [LeftSign] ''Left arrow''), (''right'', key_named [RightSign] ''Right arrow''),
     (''arrowright'', key_named [RightSign] ''Right arrow''), (''home'', key_named (printed ''Home'') ''Home''),
     (''end'', key_named (printed ''End'') ''End''), (''pageup'', key_named (printed ''PgUp'') ''Page up''),
     (''pagedown'', key_named (printed ''PgDn'') ''Page down''), (''plus'', key_named (printed ''+'') ''Plus'')]"

text \<open>\<open>toUpperCase\<close> of a Latin-1 character: two of them have their capital elsewhere, and sharp s becomes two letters.\<close>

definition upper_char :: "char \<Rightarrow> key_text" where
  "upper_char c = (let n = char_code c in
    if 97 \<le> n \<and> n \<le> 122 \<or> 224 \<le> n \<and> n \<noteq> 247 \<and> n \<noteq> 255 then [Printed (char_of (n - 32))]
    else if n = 255 then [CapitalYDiaeresis]
    else if n = 181 then [CapitalMu]
    else if n = 223 then printed ''SS''
    else [Printed c])"

fun capitalize :: "string \<Rightarrow> key_text" where
  "capitalize [] = []"
| "capitalize (c # cs) = upper_char c @ printed cs"

definition formatKey :: "key_platform \<Rightarrow> string \<Rightarrow> formatted_key" where
  "formatKey platform key =
    (case map_of (MODIFIERS platform) key of
      Some m \<Rightarrow> m
    | None \<Rightarrow> (case map_of NAMED_KEYS key of
        Some n \<Rightarrow> n
      | None \<Rightarrow>
          (let label = (case key of [c] \<Rightarrow> upper_char c | _ \<Rightarrow> capitalize key)
           in \<lparr>fk_label = label, fk_spoken = label\<rparr>)))"

definition formatKeys :: "string \<Rightarrow> key_platform \<Rightarrow> formatted_key list list" where
  "formatKeys keys platform = map (map (formatKey platform)) (parseKeys keys)"

section \<open>Texts\<close>

definition INLINE_SEQUENCE_SEPARATOR :: key_text where
  "INLINE_SEQUENCE_SEPARATOR = [NarrowSpace, SequenceSign, NarrowSpace]"

fun join_texts :: "key_text \<Rightarrow> key_text list \<Rightarrow> key_text" where
  "join_texts sep [] = []"
| "join_texts sep [t] = t"
| "join_texts sep (t # u # ts) = t @ sep @ join_texts sep (u # ts)"

definition stepToInlineText :: "formatted_key list \<Rightarrow> key_text" where
  "stepToInlineText step = concat (map fk_label step)"

definition toInlineText :: "formatted_key list list \<Rightarrow> key_text" where
  "toInlineText steps = join_texts INLINE_SEQUENCE_SEPARATOR (map stepToInlineText steps)"

definition toSpokenText :: "string \<Rightarrow> formatted_key list list \<Rightarrow> key_text" where
  "toSpokenText then_label steps =
    join_texts (printed '' '' @ printed then_label @ printed '' '')
      (map (\<lambda>step. join_texts (printed ''+'') (map fk_spoken step)) steps)"

definition KBD_THEN_LABEL :: string where
  "KBD_THEN_LABEL = ''then''"

text \<open>What \<open>Kbd\<close> draws: a text, or caps with the word between the steps; and what it says.\<close>

datatype kbd_piece = Cap key_text | ThenWord | InlineText key_text

record kbd_view =
  kv_spoken :: key_text
  kv_pieces :: "kbd_piece list"

fun key_caps :: "formatted_key list list \<Rightarrow> kbd_piece list" where
  "key_caps [] = []"
| "key_caps [step] = map (\<lambda>k. Cap (fk_label k)) step"
| "key_caps (step # more_steps) = map (\<lambda>k. Cap (fk_label k)) step @ ThenWord # key_caps more_steps"

definition Kbd :: "key_platform \<Rightarrow> bool \<Rightarrow> string \<Rightarrow> kbd_view" where
  "Kbd platform inline keys =
    (let steps = formatKeys keys platform
     in \<lparr>kv_spoken = toSpokenText KBD_THEN_LABEL steps,
         kv_pieces = (if inline then [InlineText (toInlineText steps)] else key_caps steps)\<rparr>)"

section \<open>The platform\<close>

definition has_word :: "string \<Rightarrow> string \<Rightarrow> bool" where
  "has_word w s \<longleftrightarrow> list_ex (\<lambda>i. take (length w) (drop i s) = w) [0..<Suc (length s)]"

text \<open>The navigator: none on a server; \<open>userAgentData.platform\<close>, when the browser has it, before \<open>platform\<close>.\<close>

definition detectPlatform :: "(string option \<times> string option) option \<Rightarrow> key_platform" where
  "detectPlatform nav =
    (case nav of
      None \<Rightarrow> PlatformOther
    | Some (agent, platform) \<Rightarrow>
        (let p = to_lower (if truthy agent then the agent else if truthy platform then the platform else [])
         in if list_ex (\<lambda>w. has_word w p) [''mac'', ''iphone'', ''ipad'', ''ipod''] then PlatformMac else PlatformOther))"

section \<open>Shown alike, the same key\<close>

text \<open>What a token means to a press (\<open>matchKeys\<close>): a modifier, or the name of a key.\<close>

definition token_meaning :: "key_platform \<Rightarrow> string \<Rightarrow> key_flag + string" where
  "token_meaning platform token =
    (case flagOf token platform of
      Some f \<Rightarrow> Inl f
    | None \<Rightarrow> Inr (case map_of KEY_ALIASES token of None \<Rightarrow> token | Some a \<Rightarrow> a))"

definition known_tokens :: "string list" where
  "known_tokens = ''+'' # map fst (MODIFIERS PlatformMac) @ map fst NAMED_KEYS"

fun pairs_agree :: "(key_text \<times> (key_flag + string)) list \<Rightarrow> bool" where
  "pairs_agree [] = True"
| "pairs_agree (x # xs) = (list_all (\<lambda>y. (fst x = fst y) = (snd x = snd y)) xs \<and> pairs_agree xs)"

lemma pairs_agreeD: "pairs_agree xs \<Longrightarrow> x \<in> set xs \<Longrightarrow> y \<in> set xs \<Longrightarrow> (fst x = fst y) = (snd x = snd y)"
  by (induction xs) (auto simp: list_all_iff)

lemma known_pairs: "pairs_agree (map (\<lambda>t. (fk_label (formatKey p t), token_meaning p t)) known_tokens)"
  by (cases p; simp only:; code_simp)

lemma known_tokens_told:
  assumes "t \<in> set known_tokens" and "u \<in> set known_tokens"
  shows "fk_label (formatKey p t) = fk_label (formatKey p u) \<longleftrightarrow> token_meaning p t = token_meaning p u"
  using pairs_agreeD [OF known_pairs [of p], of "(fk_label (formatKey p t), token_meaning p t)"
      "(fk_label (formatKey p u), token_meaning p u)"] assms by auto

text \<open>A sign in lower case, so that what is drawn gives back what was written.\<close>

fun sign_lower :: "key_sign \<Rightarrow> char" where
  "sign_lower (Printed c) = lower_char c"
| "sign_lower CapitalMu = CHR 0xB5"
| "sign_lower CapitalYDiaeresis = CHR 0xFF"
| "sign_lower _ = CHR 0x00"

fun label_known :: "key_platform \<Rightarrow> string list \<Rightarrow> key_text \<Rightarrow> string \<Rightarrow> bool" where
  "label_known p known l w \<longleftrightarrow>
    take 2 l \<noteq> printed ''SS'' \<and> (w \<in> set known \<or> w = ''win'' \<and> p = PlatformOther \<or> capitalize w \<noteq> l)"

fun labels_known :: "key_platform \<Rightarrow> string list \<Rightarrow> key_text list \<Rightarrow> bool" where
  "labels_known p known [] = True"
| "labels_known p known (l # ls) = (label_known p known l (map sign_lower l) \<and> labels_known p known ls)"

lemma labels_knownD: "labels_known p known ls \<Longrightarrow> l \<in> set ls \<Longrightarrow> label_known p known l (map sign_lower l)"
  by (induction ls) auto

lemma known_labels: "labels_known p known_tokens (map (fk_label \<circ> formatKey p) known_tokens)"
  by (cases p; simp only:; code_simp)

lemma known_meanings:
  "\<forall>t \<in> set known_tokens. case token_meaning p t of Inl _ \<Rightarrow> True | Inr k \<Rightarrow> k \<in> set known_tokens \<or> k = '' ''"
  by (cases p; simp only:; code_simp)

text \<open>What \<open>parseKeys\<close> gives: no capitals, no blanks.\<close>

definition written_token :: "string \<Rightarrow> bool" where
  "written_token t \<longleftrightarrow> t \<noteq> [] \<and> to_lower t = t \<and> (\<forall>c \<in> set t. \<not> blank c)"

lemma char_code_of: "char_code (char_of (n::nat)) = n mod 256"
  by (simp add: char_code_def)

lemma char_code_eq: "char_code c = char_code d \<Longrightarrow> c = d"
  by (simp add: char_code_def)

lemma char_code_less: "char_code c < 256"
  by (simp add: char_code_def)

lemma lower_char_code:
  "char_code (lower_char c) =
    (let n = char_code c in if 65 \<le> n \<and> n \<le> 90 \<or> 192 \<le> n \<and> n \<le> 222 \<and> n \<noteq> 215 then n + 32 else n)"
  by (auto simp: lower_char_def Let_def char_code_of)

lemma lower_again: "lower_char (lower_char c) = lower_char c"
proof -
  let ?n = "char_code (lower_char c)"
  have "\<not> (65 \<le> ?n \<and> ?n \<le> 90 \<or> 192 \<le> ?n \<and> ?n \<le> 222 \<and> ?n \<noteq> 215)" by (auto simp: lower_char_code Let_def)
  then show ?thesis by (simp only: lower_char_def [of "lower_char c"] Let_def if_False)
qed

lemma blank_lower: "blank (lower_char c) \<longleftrightarrow> blank c"
  by (auto simp: blank_def lower_char_code Let_def)

lemma parts_sub: "w \<in> set (parts sep s) \<Longrightarrow> w \<noteq> [] \<and> set w \<subseteq> set s"
proof -
  have "w \<in> set (split_by sep s) \<Longrightarrow> set w \<subseteq> set s"
    by (induction s arbitrary: w) (fastforce split: if_splits list.splits)+
  then show "w \<in> set (parts sep s) \<Longrightarrow> w \<noteq> [] \<and> set w \<subseteq> set s" by (auto simp: parts_def)
qed

lemma parse_step_sub: "t \<in> set (parse_step s) \<Longrightarrow> t \<noteq> [] \<and> set t \<subseteq> set (to_lower s)"
proof -
  let ?l = "to_lower s" and ?plus = "\<lambda>c. c = CHR ''+''"
  assume t: "t \<in> set (parse_step s)"
  have sub: "u \<in> set (parts ?plus (take n ?l)) \<Longrightarrow> u \<noteq> [] \<and> set u \<subseteq> set ?l" for u n
    using parts_sub [of u ?plus "take n ?l"] set_take_subset [of n ?l] by blast
  have plus: "drop n ?l = ''++'' \<Longrightarrow> CHR ''+'' \<in> set ?l" for n
    using set_drop_subset [of n ?l] by auto
  consider "?l = ''+''" "t = ''+''" | "drop (length ?l - 2) ?l = ''++''" "t = ''+''"
    | n where "t \<in> set (parts ?plus (take n ?l))"
    using t take_all [of ?l "length ?l"] by (auto simp: parse_step_def Let_def split: if_splits simp del: take_all take_all_iff) metis+
  then show ?thesis by cases (use sub plus in auto)
qed

lemma parsed_tokens:
  assumes "step \<in> set (parseKeys keys)" and "t \<in> set step"
  shows "written_token t"
proof -
  obtain s where s: "s \<in> set (parts blank keys)" "t \<in> set (parse_step s)"
    using assms by (auto simp: parseKeys_def)
  then have t: "t \<noteq> []" "set t \<subseteq> set (to_lower s)" using parse_step_sub by blast+
  have "lower_char c = c" if "c \<in> set t" for c using that t(2) lower_again by (auto simp: to_lower_def)
  then have "to_lower t = t" by (simp add: to_lower_def map_idI)
  moreover have "\<not> blank c" if "c \<in> set t" for c
    using that t(2) split_by_words [of blank keys] s(1) blank_lower by (auto simp: to_lower_def parts_def)
  ultimately show ?thesis using t(1) by (simp add: written_token_def)
qed

lemma upper_lower:
  assumes "lower_char c = c"
  shows "upper_char c = printed ''SS'' \<or> (\<exists>s. upper_char c = [s] \<and> sign_lower s = c)"
proof -
  have "lower_char (char_of (char_code c - 32)) = c"
    if "97 \<le> char_code c \<and> char_code c \<le> 122 \<or> 224 \<le> char_code c \<and> char_code c \<noteq> 247 \<and> char_code c \<noteq> 255"
    using that char_code_less [of c] by (intro char_code_eq) (auto simp: lower_char_code char_code_of Let_def)
  moreover have "char_code c = 255 \<Longrightarrow> c = CHR 0xFF" "char_code c = 181 \<Longrightarrow> c = CHR 0xB5"
    by (intro char_code_eq, simp add: char_code_def)+
  ultimately show ?thesis using assms by (auto simp: upper_char_def Let_def)
qed

lemma known_keys: "set (map fst (MODIFIERS p)) \<subseteq> set known_tokens" "set (map fst NAMED_KEYS) \<subseteq> set known_tokens"
  by (cases p) (simp_all add: known_tokens_def NAMED_KEYS_def)

lemma other_label: "t \<notin> set known_tokens \<Longrightarrow> fk_label (formatKey p t) = capitalize t"
proof -
  assume t: "t \<notin> set known_tokens"
  have "map_of (MODIFIERS p) t = None" "map_of NAMED_KEYS t = None"
    using t known_keys by (auto simp: map_of_eq_None_iff)
  then show ?thesis by (simp add: formatKey_def Let_def printed_def split: list.splits)
qed

lemma printed_lower: "to_lower s = s \<Longrightarrow> map sign_lower (printed s) = s"
  by (simp add: printed_def to_lower_def comp_def)

lemma capital_back:
  assumes "written_token t"
  shows "take 2 (capitalize t) = printed ''SS'' \<or> map sign_lower (capitalize t) = t"
proof (cases t)
  case (Cons c cs)
  then have "lower_char c = c" "to_lower cs = cs" using assms by (auto simp: written_token_def to_lower_def)
  then show ?thesis using upper_lower [of c] printed_lower [of cs] Cons by (auto simp: printed_def)
qed simp

lemma sharp_s: "upper_char c = printed ''SS'' \<longleftrightarrow> char_code c = 223"
  by (auto simp: upper_char_def Let_def printed_def)

lemma capitalize_inj:
  assumes "written_token t" and "written_token u" and "capitalize t = capitalize u"
  shows "t = u"
proof -
  have no_S: "CHR ''S'' \<notin> set w" if "to_lower w = w" for w
  proof
    assume "CHR ''S'' \<in> set w"
    then have "lower_char (CHR ''S'') = CHR ''S''" using that map_eq_conv [of lower_char w "\<lambda>c. c"] by (simp add: to_lower_def)
    moreover have "lower_char (CHR ''S'') \<noteq> CHR ''S''" by code_simp
    ultimately show False by simp
  qed
  obtain c cs d ds where tu: "t = c # cs" "u = d # ds" using assms(1,2) by (cases t; cases u) (auto simp: written_token_def)
  then have low: "lower_char c = c" "lower_char d = d" "to_lower cs = cs" "to_lower ds = ds"
    using assms(1,2) by (auto simp: written_token_def to_lower_def)
  have eq: "upper_char c @ printed cs = upper_char d @ printed ds" using assms(3) tu by simp
  have other: "\<not> (upper_char x = printed ''SS'' \<and> upper_char y = [s] \<and> upper_char x @ printed xs = upper_char y @ printed ys)"
    if "to_lower ys = ys" for x y s xs ys
    using no_S [OF that] by (cases ys) (auto simp: printed_def)
  consider "upper_char c = printed ''SS''" "upper_char d = printed ''SS''"
    | s r where "upper_char c = [s]" "sign_lower s = c" "upper_char d = [r]" "sign_lower r = d"
    using upper_lower low other eq by metis
  then show ?thesis
  proof cases
    case 1
    then have "c = d" using sharp_s by (metis char_code_eq)
    then show ?thesis using eq tu printed_lower low by (metis same_append_eq)
  next
    case 2
    then show ?thesis using eq tu printed_lower low by (metis append_Cons append_Nil list.inject)
  qed
qed

lemma other_meaning: "t \<notin> set known_tokens \<Longrightarrow> token_meaning p t = Inr t"
proof -
  assume t: "t \<notin> set known_tokens"
  have "set (map fst KEY_ALIASES) \<subseteq> set known_tokens" by (simp add: KEY_ALIASES_def known_tokens_def NAMED_KEYS_def)
  then have "map_of KEY_ALIASES t = None" using t by (auto simp: map_of_eq_None_iff)
  moreover have "flagOf t p = None" using t by (auto simp: flagOf_def known_tokens_def)
  ultimately show ?thesis by (simp add: token_meaning_def)
qed

lemma known_apart:
  assumes "t \<in> set known_tokens" and "written_token u" and "u \<notin> set known_tokens" and "u \<noteq> ''win'' \<or> p = PlatformMac"
  shows "fk_label (formatKey p t) \<noteq> fk_label (formatKey p u)" and "token_meaning p t \<noteq> token_meaning p u"
proof -
  have known: "label_known p known_tokens (fk_label (formatKey p t)) (map sign_lower (fk_label (formatKey p t)))"
    by (rule labels_knownD [OF known_labels]) (use assms(1) in auto)
  show "fk_label (formatKey p t) \<noteq> fk_label (formatKey p u)"
  proof
    assume eq: "fk_label (formatKey p t) = fk_label (formatKey p u)"
    then have "fk_label (formatKey p t) = capitalize u" using other_label [OF assms(3)] by simp
    then have "label_known p known_tokens (capitalize u) (map sign_lower (capitalize u))" using known by simp
    moreover from this have "map sign_lower (capitalize u) = u" using capital_back [OF assms(2)] by simp
    ultimately have "label_known p known_tokens (capitalize u) u" by simp
    then show False using assms(3,4) by auto
  qed
  have "u \<noteq> '' ''" using assms(2) by (auto simp: written_token_def blank_def char_code_def)
  then show "token_meaning p t \<noteq> token_meaning p u"
    using known_meanings [of p] assms(1,3) other_meaning [OF assms(3)] by (auto split: sum.splits)
qed

text \<open>
  Of the keys anyone can write, two are shown alike exactly when a press takes them for the same key: nothing on
  screen promises a key that does something else. The one name left out is \<open>win\<close>, which off a Mac looks like the
  modifier \<open>meta\<close> and is none.
\<close>

theorem shown_alike_same_key:
  assumes "step \<in> set (parseKeys keys)" and "t \<in> set step" and "step' \<in> set (parseKeys keys')" and "u \<in> set step'"
    and "''win'' \<notin> {t, u} \<or> p = PlatformMac"
  shows "fk_label (formatKey p t) = fk_label (formatKey p u) \<longleftrightarrow> token_meaning p t = token_meaning p u"
proof -
  have w: "written_token t" "written_token u" using parsed_tokens assms(1-4) by blast+
  consider "t \<in> set known_tokens" "u \<in> set known_tokens" | "t \<in> set known_tokens" "u \<notin> set known_tokens"
    | "t \<notin> set known_tokens" "u \<in> set known_tokens" | "t \<notin> set known_tokens" "u \<notin> set known_tokens" by blast
  then show ?thesis
  proof cases
    case 1
    then show ?thesis by (rule known_tokens_told)
  next
    case 2
    have "u \<noteq> ''win'' \<or> p = PlatformMac" using assms(5) by blast
    then show ?thesis using known_apart [OF 2(1) w(2) 2(2)] by blast
  next
    case 3
    have "t \<noteq> ''win'' \<or> p = PlatformMac" using assms(5) by blast
    then show ?thesis using known_apart [OF 3(2) w(1) 3(1)] by metis
  next
    case 4
    then show ?thesis using capitalize_inj [OF w] by (auto simp: other_label other_meaning)
  qed
qed

lemma win_is_no_modifier:
  "fk_label (formatKey PlatformOther ''win'') = fk_label (formatKey PlatformOther ''meta'')"
  "token_meaning PlatformOther ''win'' \<noteq> token_meaning PlatformOther ''meta''"
  by code_simp+

section \<open>A sequence is told from a combination\<close>

definition plain_text :: "key_text \<Rightarrow> bool" where
  "plain_text t \<longleftrightarrow> t \<noteq> [] \<and> NarrowSpace \<notin> set t"

lemma join_texts_split:
  assumes "NarrowSpace \<notin> set t"
  shows "takeWhile (\<lambda>s. s \<noteq> NarrowSpace) (join_texts INLINE_SEQUENCE_SEPARATOR (t # ts)) = t"
    and "drop (length t) (join_texts INLINE_SEQUENCE_SEPARATOR (t # ts)) =
      (if ts = [] then [] else INLINE_SEQUENCE_SEPARATOR @ join_texts INLINE_SEQUENCE_SEPARATOR ts)"
proof -
  have all: "takeWhile (\<lambda>s. s \<noteq> NarrowSpace) (t @ r) = t @ takeWhile (\<lambda>s. s \<noteq> NarrowSpace) r" for r
    using assms by (induction t) auto
  show "takeWhile (\<lambda>s. s \<noteq> NarrowSpace) (join_texts INLINE_SEQUENCE_SEPARATOR (t # ts)) = t"
    using all [of "[]"] all [of "INLINE_SEQUENCE_SEPARATOR @ join_texts INLINE_SEQUENCE_SEPARATOR ts"]
    by (cases ts) (auto simp: INLINE_SEQUENCE_SEPARATOR_def)
  show "drop (length t) (join_texts INLINE_SEQUENCE_SEPARATOR (t # ts)) =
      (if ts = [] then [] else INLINE_SEQUENCE_SEPARATOR @ join_texts INLINE_SEQUENCE_SEPARATOR ts)"
    by (cases ts) auto
qed

lemma join_texts_inj:
  "(\<And>t. t \<in> set ts \<union> set us \<Longrightarrow> plain_text t) \<Longrightarrow>
    join_texts INLINE_SEQUENCE_SEPARATOR ts = join_texts INLINE_SEQUENCE_SEPARATOR us \<Longrightarrow> ts = us"
proof (induction ts arbitrary: us)
  case Nil
  then show ?case by (cases us rule: remdups_adj.cases) (auto simp: plain_text_def)
next
  case (Cons t ts)
  from Cons.prems obtain u us' where us: "us = u # us'" by (cases us; cases ts) (auto simp: plain_text_def)
  have free: "NarrowSpace \<notin> set t" "NarrowSpace \<notin> set u" using Cons.prems(1) us by (auto simp: plain_text_def)
  have eq: "join_texts INLINE_SEQUENCE_SEPARATOR (t # ts) = join_texts INLINE_SEQUENCE_SEPARATOR (u # us')"
    using Cons.prems(2) us by simp
  have "t = u" using join_texts_split(1) [OF free(1), of ts] join_texts_split(1) [OF free(2), of us'] eq by simp
  moreover have "ts = us'"
  proof (rule Cons.IH)
    show "join_texts INLINE_SEQUENCE_SEPARATOR ts = join_texts INLINE_SEQUENCE_SEPARATOR us'"
      using join_texts_split(2) [OF free(1), of ts] join_texts_split(2) [OF free(2), of us'] eq \<open>t = u\<close>
      by (auto split: if_splits simp: INLINE_SEQUENCE_SEPARATOR_def)
  qed (use Cons.prems(1) us in auto)
  ultimately show ?case using us by simp
qed

lemma label_plain:
  assumes "written_token t"
  shows "plain_text (fk_label (formatKey p t))"
proof (cases "t \<in> set known_tokens")
  case True
  have "list_all plain_text (map (fk_label \<circ> formatKey p) known_tokens)"
    by (cases p; simp only: plain_text_def; code_simp)
  then show ?thesis using True by (auto simp: list_all_iff)
next
  case False
  obtain c cs where t: "t = c # cs" using assms by (cases t) (auto simp: written_token_def)
  have "plain_text (capitalize t)"
    by (simp add: t plain_text_def upper_char_def printed_def Let_def image_iff)
  then show ?thesis using other_label [OF False] by simp
qed

lemma step_text_plain:
  assumes "text \<in> set (map stepToInlineText (formatKeys keys p))"
  shows "plain_text text"
proof -
  obtain step where s: "step \<in> set (parseKeys keys)" "text = stepToInlineText (map (formatKey p) step)"
    using assms by (auto simp: formatKeys_def)
  have "plain_text (fk_label (formatKey p t))" if "t \<in> set step" for t
    using label_plain parsed_tokens s(1) that by blast
  moreover have "step \<noteq> []" using s(1) by (simp add: parseKeys_def)
  ultimately show ?thesis unfolding s(2) stepToInlineText_def plain_text_def by (cases step) auto
qed

text \<open>
  The text of a notation inside a button or a menu tells its steps: what is drawn alike has the same steps, drawn
  alike, so that keys one after another are never taken for keys together.
\<close>

theorem inline_text_tells_steps:
  "toInlineText (formatKeys keys p) = toInlineText (formatKeys keys' p) \<longleftrightarrow>
    map stepToInlineText (formatKeys keys p) = map stepToInlineText (formatKeys keys' p)"
  unfolding toInlineText_def by (rule iffI, rule join_texts_inj) (use step_text_plain in auto)

text \<open>
  The sidebar writes the sequence of the inbox as the kit does, with a space; the keys of the inbox's own views are
  written as the hotkeys are registered, and so each is drawn as one key of three signs.
\<close>

theorem view_keys_drawn_as_one:
  "kv_pieces (Kbd p False INBOX_KEYS) = [Cap (printed ''G''), ThenWord, Cap (printed ''I'')]"
  "\<exists>l. kv_pieces (Kbd p False (VIEW_KEYS v)) = [Cap l] \<and> length l = 3"
  "kv_pieces (Kbd p True (VIEW_KEYS ViewAll)) = [InlineText (printed ''G>a'')]"
proof -
  show "kv_pieces (Kbd p False INBOX_KEYS) = [Cap (printed ''G''), ThenWord, Cap (printed ''I'')]"
    by (cases p; simp only:; code_simp)
  show "kv_pieces (Kbd p True (VIEW_KEYS ViewAll)) = [InlineText (printed ''G>a'')]"
    by (cases p; simp only:; code_simp)
  have "kv_pieces (Kbd p False (VIEW_KEYS v)) = [Cap (printed (case v of ViewAll \<Rightarrow> ''G>a'' | ViewUnread \<Rightarrow> ''G>u'' | ViewArchived \<Rightarrow> ''G>e''))]"
    by (cases p; cases v; simp only:; code_simp)
  then show "\<exists>l. kv_pieces (Kbd p False (VIEW_KEYS v)) = [Cap l] \<and> length l = 3"
    by (cases v) (simp_all add: printed_def)
qed

end
