(* ===== verification/Toasts.thy ===== *)
theory Toasts
  imports Undo_History Keyboard
begin

text \<open>
  The toasts (\<open>ui-kit/src/components/Toast\<close>): the store with its one action toast, the toast that
  waits behind an error and the notification's lane; a toast's time on screen; what the host does
  with the undo history and the keyboard. What the app's policy says and what the clock reads are
  arguments. An app callback is kept as the knowledge that it is there. How toasts are drawn is not
  modelled.
\<close>

section \<open>Toasts\<close>

datatype toast_retry = NoRetry | AppRetry | RetryStep undo_entry undo_step

datatype action_toast =
  UndoToast (at_key: nat) (at_message: string) (at_detail: "string option") (at_op: op_id)
| ProgressToast (at_key: nat) (at_message: string) (at_done: nat) (at_total: "nat option") (at_cancel: bool)
| ErrorToast (at_key: nat) (at_message: string) (at_detail: "string option") (at_retry: toast_retry) (at_secondary: bool)
| NoteToast (at_key: nat) (at_message: string)

record notification =
  nt_id :: string
  nt_subjectId :: "string option"
  nt_announcement :: string

record notice_toast =
  no_key :: nat
  no_notification :: notification
  no_more :: nat

record toast_state =
  tt_action :: "action_toast option"
  tt_waiting :: "action_toast option"
  tt_notice :: "notice_toast option"
  tt_withdrawn :: bool
  tt_lastNoticeAt :: "int option"
  tt_area :: "nat option"
  tt_sequence :: nat
  tt_history :: undo_state

definition new_toasts :: toast_state where
  "new_toasts = \<lparr>tt_action = None, tt_waiting = None, tt_notice = None, tt_withdrawn = False, tt_lastNoticeAt = None,
    tt_area = None, tt_sequence = 0, tt_history = new_history\<rparr>"

definition is_error :: "action_toast option \<Rightarrow> bool" where
  "is_error t \<longleftrightarrow> (case t of Some (ErrorToast _ _ _ _ _) \<Rightarrow> True | _ \<Rightarrow> False)"

definition has_key :: "nat \<Rightarrow> action_toast option \<Rightarrow> bool" where
  "has_key k t \<longleftrightarrow> (case t of None \<Rightarrow> False | Some x \<Rightarrow> at_key x = k)"

definition show_toast :: "action_toast \<Rightarrow> toast_state \<Rightarrow> toast_state" where
  "show_toast item s =
    (if is_error (tt_action s) \<and> \<not> is_error (Some item) then s\<lparr>tt_waiting := Some item\<rparr> else s\<lparr>tt_action := Some item\<rparr>)"

definition patch_toast :: "nat \<Rightarrow> (action_toast \<Rightarrow> action_toast) \<Rightarrow> toast_state \<Rightarrow> toast_state" where
  "patch_toast k f s =
    s\<lparr>tt_action := (if has_key k (tt_action s) then map_option f (tt_action s) else tt_action s),
      tt_waiting := (if has_key k (tt_waiting s) then map_option f (tt_waiting s) else tt_waiting s)\<rparr>"

definition close_toast :: "nat \<Rightarrow> toast_state \<Rightarrow> toast_state" where
  "close_toast k s =
    (if has_key k (tt_action s) then s\<lparr>tt_action := tt_waiting s, tt_waiting := None\<rparr>
     else if has_key k (tt_waiting s) then s\<lparr>tt_waiting := None\<rparr> else s)"

definition nextKey :: "toast_state \<Rightarrow> nat \<times> toast_state" where
  "nextKey s = (Suc (tt_sequence s), s\<lparr>tt_sequence := Suc (tt_sequence s)\<rparr>)"

text \<open>What a result offers: an operation of the history, or one to record there now.\<close>

datatype undo_source = HasOp op_id | NewOp bool

record undo_options =
  uo_message :: string
  uo_detail :: "string option"
  uo_source :: undo_source

definition opOf :: "undo_options \<Rightarrow> toast_state \<Rightarrow> op_id \<times> toast_state" where
  "opOf opts s =
    (case uo_source opts of
      HasOp i \<Rightarrow> (i, s)
    | NewOp redo \<Rightarrow>
        (let h = push_op (uo_message opts) redo None (tt_history s) in (Op (un_sequence h), s\<lparr>tt_history := h\<rparr>)))"

definition undoItem :: "nat \<Rightarrow> undo_options \<Rightarrow> toast_state \<Rightarrow> action_toast \<times> toast_state" where
  "undoItem k opts s = (let (i, s') = opOf opts s in (UndoToast k (uo_message opts) (uo_detail opts) i, s'))"

record error_options =
  eo_message :: string
  eo_detail :: "string option"
  eo_retry :: toast_retry
  eo_secondary :: bool

definition errorItem :: "nat \<Rightarrow> error_options \<Rightarrow> action_toast" where
  "errorItem k opts = ErrorToast k (eo_message opts) (eo_detail opts) (eo_retry opts) (eo_secondary opts)"

section \<open>What the app calls\<close>

definition toast_undo :: "undo_options \<Rightarrow> toast_state \<Rightarrow> op_id \<times> toast_state" where
  "toast_undo opts s =
    (let (k, s1) = nextKey s; (item, s2) = undoItem k opts s1 in (at_op item, show_toast item s2))"

definition toast_progress :: "string \<Rightarrow> nat option \<Rightarrow> bool \<Rightarrow> toast_state \<Rightarrow> nat \<times> toast_state" where
  "toast_progress message steps cancel s =
    (let (k, s1) = nextKey s in (k, show_toast (ProgressToast k message 0 steps cancel) s1))"

definition progress_update :: "nat \<Rightarrow> nat \<Rightarrow> string option \<Rightarrow> toast_state \<Rightarrow> toast_state" where
  "progress_update k done message s =
    patch_toast k (\<lambda>item. case item of
        ProgressToast k' m d t c \<Rightarrow> ProgressToast k' (case message of None \<Rightarrow> m | Some m' \<Rightarrow> m') done t c
      | _ \<Rightarrow> item) s"

definition progress_succeed :: "nat \<Rightarrow> undo_options option \<Rightarrow> toast_state \<Rightarrow> op_id option \<times> toast_state" where
  "progress_succeed k options s =
    (case options of
      None \<Rightarrow> (None, close_toast k s)
    | Some opts \<Rightarrow> (let (item, s') = undoItem k opts s in (Some (at_op item), patch_toast k (\<lambda>_. item) s')))"

definition progress_fail :: "nat \<Rightarrow> error_options \<Rightarrow> toast_state \<Rightarrow> toast_state" where
  "progress_fail k opts s = patch_toast k (\<lambda>_. errorItem k opts) s"

definition toast_error :: "error_options \<Rightarrow> toast_state \<Rightarrow> nat \<times> toast_state" where
  "toast_error opts s = (let (k, s1) = nextKey s in (k, show_toast (errorItem k opts) s1))"

definition toast_note :: "string \<Rightarrow> toast_state \<Rightarrow> toast_state" where
  "toast_note message s = (let (k, s1) = nextKey s in show_toast (NoteToast k message) s1)"

section \<open>Notifications\<close>

record notify_context =
  nc_allowed :: bool
  nc_tabVisible :: bool
  nc_showing :: bool
  nc_duplicate :: bool
  nc_now :: int
  nc_lastShownAt :: "int option"
  nc_gap :: int

datatype notify_decision = NotifyShow | NotifyMore | NotifySkip

definition shouldNotify :: "notify_context \<Rightarrow> notify_decision" where
  "shouldNotify c =
    (if \<not> nc_allowed c \<or> \<not> nc_tabVisible c \<or> nc_duplicate c then NotifySkip
     else if nc_showing c then NotifyMore
     else if (case nc_lastShownAt c of None \<Rightarrow> False | Some t \<Rightarrow> nc_now c - t < nc_gap c) then NotifySkip
     else NotifyShow)"

definition notify_gap :: int where
  "notify_gap = 30000"

text \<open>The clock is read twice: for the decision and for the time remembered.\<close>

definition toast_notify :: "notification \<Rightarrow> bool \<Rightarrow> bool \<Rightarrow> int \<Rightarrow> int \<Rightarrow> toast_state \<Rightarrow> toast_state" where
  "toast_notify n allowed tabVisible now shownAt s =
    (case shouldNotify \<lparr>nc_allowed = allowed, nc_tabVisible = tabVisible, nc_showing = tt_notice s \<noteq> None,
        nc_duplicate = (case tt_notice s of None \<Rightarrow> False | Some t \<Rightarrow> nt_id (no_notification t) = nt_id n),
        nc_now = now, nc_lastShownAt = tt_lastNoticeAt s, nc_gap = notify_gap\<rparr> of
      NotifyShow \<Rightarrow>
        (let (k, s1) = nextKey s
         in s1\<lparr>tt_notice := Some \<lparr>no_key = k, no_notification = n, no_more = 0\<rparr>, tt_withdrawn := False,
               tt_lastNoticeAt := Some shownAt\<rparr>)
    | NotifyMore \<Rightarrow> s\<lparr>tt_notice := map_option (\<lambda>t. t\<lparr>no_more := Suc (no_more t)\<rparr>) (tt_notice s)\<rparr>
    | NotifySkip \<Rightarrow> s)"

definition toast_withdraw :: "string \<Rightarrow> toast_state \<Rightarrow> toast_state" where
  "toast_withdraw subject s =
    (if (case tt_notice s of None \<Rightarrow> False | Some t \<Rightarrow> nt_subjectId (no_notification t) = Some subject)
     then s\<lparr>tt_notice := None, tt_withdrawn := True\<rparr> else s)"

definition closeNotice :: "toast_state \<Rightarrow> toast_state" where
  "closeNotice s = s\<lparr>tt_notice := None, tt_withdrawn := False\<rparr>"

section \<open>A toast's time on screen\<close>

definition lifetimeOf :: "action_toast \<Rightarrow> int option" where
  "lifetimeOf item = (case item of UndoToast _ _ _ _ \<Rightarrow> Some 8000 | NoteToast _ _ \<Rightarrow> Some 3000 | _ \<Rightarrow> None)"

text \<open>The refs of \<open>useLifetime\<close>, and the timer its effect has set: how long, and since when.\<close>

record lifetime =
  lt_remaining :: "int option"
  lt_forDuration :: "int option"
  lt_timer :: "(int \<times> int) option"

definition lifetime_effect :: "int option \<Rightarrow> bool \<Rightarrow> int \<Rightarrow> lifetime \<Rightarrow> lifetime" where
  "lifetime_effect duration paused now l =
    (let l1 = (if lt_forDuration l \<noteq> duration then l\<lparr>lt_forDuration := duration, lt_remaining := duration\<rparr> else l)
     in (case lt_remaining l1 of
          None \<Rightarrow> l1
        | Some left \<Rightarrow> if paused then l1 else l1\<lparr>lt_timer := Some (left, now)\<rparr>))"

definition lifetime_cleanup :: "int \<Rightarrow> lifetime \<Rightarrow> lifetime" where
  "lifetime_cleanup now l =
    (case lt_timer l of
      None \<Rightarrow> l
    | Some (left, startedAt) \<Rightarrow> l\<lparr>lt_timer := None, lt_remaining := Some (max 0 (left - (now - startedAt)))\<rparr>)"

section \<open>The host\<close>

text \<open>\<open>useRunUndo\<close>: undo or redo started from a toast or the keyboard, and the end of a step.\<close>

definition run_undo :: "bool \<Rightarrow> op_id option \<Rightarrow> toast_state \<Rightarrow> toast_state" where
  "run_undo redo i s =
    (let h = tt_history s; step = (if redo then StepRedo else StepUndo);
         entry = (case i of Some x \<Rightarrow> List.find (\<lambda>e. en_id e = x) (un_past h) | None \<Rightarrow> next_op step h)
     in (case entry of
          None \<Rightarrow> s
        | Some e \<Rightarrow> s\<lparr>tt_history := (if redo then redo_op h else undo_op (Some (en_id e)) h)\<rparr>))"

definition undo_ended :: "(string \<Rightarrow> string) \<Rightarrow> undo_entry \<Rightarrow> undo_step \<Rightarrow> bool \<Rightarrow> toast_state \<Rightarrow> toast_state" where
  "undo_ended undoFailed e step ok s =
    (let s' = s\<lparr>tt_history := step_settled e step ok (tt_history s)\<rparr>
     in if ok then s'
        else snd (toast_error \<lparr>eo_message = undoFailed (en_label e), eo_detail = None, eo_retry = RetryStep e step,
          eo_secondary = False\<rparr> s'))"

text \<open>The Retry button of an error toast: the toast goes first.\<close>

definition click_retry :: "toast_state \<Rightarrow> toast_state" where
  "click_retry s =
    (case tt_action s of
      Some (ErrorToast k m d (RetryStep e step) c) \<Rightarrow>
        (let s' = close_toast k s in s'\<lparr>tt_history := retry_op e step (tt_history s')\<rparr>)
    | Some (ErrorToast k m d AppRetry c) \<Rightarrow> close_toast k s
    | _ \<Rightarrow> s)"

text \<open>The effect of the action lane: an undo toast whose operation is gone from the history closes.\<close>

definition lane_effect :: "toast_state \<Rightarrow> toast_state" where
  "lane_effect s =
    (case tt_action s of
      Some (UndoToast k m d i) \<Rightarrow> if has_op i (tt_history s) then s else close_toast k s
    | _ \<Rightarrow> s)"

datatype f8_focus = F8Nothing | F8Toast nat bool | F8Back

text \<open>F8 among \<open>n\<close> toasts on screen: the first remembers where focus came from, past the last it goes back.\<close>

definition f8_key :: "nat \<Rightarrow> nat option \<Rightarrow> f8_focus" where
  "f8_key n focused =
    (if n = 0 then F8Nothing
     else (case focused of
        None \<Rightarrow> F8Toast 0 True
      | Some i \<Rightarrow> if int i < int n - 1 then F8Toast (i + 1) False else F8Back))"

definition is_f8 :: "key_event \<Rightarrow> bool" where
  "is_f8 e \<longleftrightarrow> ke_key e = ''F8'' \<and> \<not> ke_meta e \<and> \<not> ke_ctrl e \<and> \<not> ke_alt e \<and> \<not> ke_shift e"

definition toast_keydown ::
  "key_platform \<Rightarrow> nat \<Rightarrow> nat option \<Rightarrow> bool \<Rightarrow> key_press \<Rightarrow> toast_state \<Rightarrow> toast_state \<times> f8_focus \<times> bool" where
  "toast_keydown platform n focused repeat e s =
    (if kp_prevented e \<or> repeat then (s, F8Nothing, False)
     else if is_f8 (kp_event e) then (s, f8_key n focused, n \<noteq> 0)
     else if kp_typing e then (s, F8Nothing, False)
     else (let redo = matchKeys ''mod+shift+z'' (kp_event e) platform
           in if redo \<or> matchKeys ''mod+z'' (kp_event e) platform then (run_undo redo None s, F8Nothing, True)
              else (s, F8Nothing, False)))"

text \<open>What is said aloud: a toast once per stage, a notification once.\<close>

datatype toast_kind = KindUndo | KindProgress | KindError | KindNote

definition kind_of :: "action_toast \<Rightarrow> toast_kind" where
  "kind_of t = (case t of UndoToast _ _ _ _ \<Rightarrow> KindUndo | ProgressToast _ _ _ _ _ \<Rightarrow> KindProgress
    | ErrorToast _ _ _ _ _ \<Rightarrow> KindError | NoteToast _ _ \<Rightarrow> KindNote)"

record announcer =
  an_polite :: "nat \<times> string"
  an_assertive :: "nat \<times> string"
  an_heardStage :: "(nat \<times> toast_kind) option"
  an_heardNotice :: "nat option"

definition toast_text :: "action_toast \<Rightarrow> string" where
  "toast_text t =
    (let detail = (case t of UndoToast _ _ d _ \<Rightarrow> d | ErrorToast _ _ d _ _ \<Rightarrow> d | _ \<Rightarrow> None)
     in join ''. '' (filter (\<lambda>x. x \<noteq> []) [at_message t, case detail of None \<Rightarrow> [] | Some d \<Rightarrow> d]))"

definition say_action :: "action_toast option \<Rightarrow> announcer \<Rightarrow> announcer" where
  "say_action action a =
    (let stage = map_option (\<lambda>t. (at_key t, kind_of t)) action
     in if an_heardStage a = stage then a
        else (let a' = a\<lparr>an_heardStage := stage\<rparr>
              in (case action of
                   None \<Rightarrow> a'
                 | Some t \<Rightarrow>
                     if is_error action then a'\<lparr>an_assertive := (Suc (fst (an_assertive a')), toast_text t)\<rparr>
                     else a'\<lparr>an_polite := (Suc (fst (an_polite a')), toast_text t)\<rparr>)))"

definition say_notice :: "notice_toast option \<Rightarrow> announcer \<Rightarrow> announcer" where
  "say_notice notice a =
    (let key = map_option no_key notice
     in if an_heardNotice a = key then a
        else (let a' = a\<lparr>an_heardNotice := key\<rparr>
              in (case notice of
                   None \<Rightarrow> a'
                 | Some n \<Rightarrow> a'\<lparr>an_polite := (Suc (fst (an_polite a')), nt_announcement (no_notification n))\<rparr>)))"

definition announce :: "toast_state \<Rightarrow> announcer \<Rightarrow> announcer" where
  "announce s a = say_notice (tt_notice s) (say_action (tt_action s) a)"

text \<open>\<open>useToastArea\<close>: the last one to come has the area; one that goes takes only its own away.\<close>

definition take_area :: "nat \<Rightarrow> toast_state \<Rightarrow> toast_state" where
  "take_area element s = s\<lparr>tt_area := Some element\<rparr>"

definition leave_area :: "nat \<Rightarrow> toast_state \<Rightarrow> toast_state" where
  "leave_area element s = (if tt_area s = Some element then s\<lparr>tt_area := None\<rparr> else s)"

section \<open>The lane\<close>

datatype toast_event =
  TUndo undo_options | TProgress string "nat option" bool | TUpdate nat nat "string option"
| TSucceed nat "undo_options option" | TFail nat error_options | TError error_options | TNote string | TClose nat
| TNotify notification bool bool int int | TWithdraw string | TCloseNotice
| TEnded undo_entry undo_step bool | TLane

fun toast_step :: "toast_state \<Rightarrow> toast_event \<Rightarrow> toast_state" where
  "toast_step s (TUndo opts) = snd (toast_undo opts s)"
| "toast_step s (TProgress m n c) = snd (toast_progress m n c s)"
| "toast_step s (TUpdate k n m) = progress_update k n m s"
| "toast_step s (TSucceed k opts) = snd (progress_succeed k opts s)"
| "toast_step s (TFail k opts) = progress_fail k opts s"
| "toast_step s (TError opts) = snd (toast_error opts s)"
| "toast_step s (TNote m) = toast_note m s"
| "toast_step s (TClose k) = close_toast k s"
| "toast_step s (TNotify n a v t u) = toast_notify n a v t u s"
| "toast_step s (TWithdraw i) = toast_withdraw i s"
| "toast_step s TCloseNotice = closeNotice s"
| "toast_step s (TEnded e st ok) = undo_ended (\<lambda>x. x) e st ok s"
| "toast_step s TLane = lane_effect s"

definition is_progress :: "action_toast option \<Rightarrow> bool" where
  "is_progress t \<longleftrightarrow> (case t of Some (ProgressToast _ _ _ _ _) \<Rightarrow> True | _ \<Rightarrow> False)"

text \<open>The handle of a progress ends once: its toast, where it still is, is the progress.\<close>

definition running :: "nat \<Rightarrow> toast_state \<Rightarrow> bool" where
  "running k s \<longleftrightarrow> (has_key k (tt_action s) \<longrightarrow> is_progress (tt_action s)) \<and> (has_key k (tt_waiting s) \<longrightarrow> is_progress (tt_waiting s))"

fun toast_ok :: "toast_state \<Rightarrow> toast_event \<Rightarrow> bool" where
  "toast_ok s (TSucceed k opts) = running k s"
| "toast_ok s (TFail k opts) = running k s"
| "toast_ok s e = True"

definition lane_ok :: "toast_state \<Rightarrow> bool" where
  "lane_ok s \<longleftrightarrow> (tt_waiting s \<noteq> None \<longrightarrow> is_error (tt_action s)) \<and>
    (\<forall>t. tt_action s = Some t \<longrightarrow> at_key t \<le> tt_sequence s) \<and>
    (\<forall>t. tt_waiting s = Some t \<longrightarrow> at_key t \<le> tt_sequence s \<and> \<not> has_key (at_key t) (tt_action s))"

text \<open>A toast in the lane is left alone, or replaced, or the lane is of the same shape.\<close>

definition same_lane :: "toast_state \<Rightarrow> toast_state \<Rightarrow> bool" where
  "same_lane s s' \<longleftrightarrow> tt_action s' = tt_action s \<and> tt_waiting s' = tt_waiting s \<and> tt_sequence s \<le> tt_sequence s'"

lemma same_lane_ok: "same_lane s s' \<Longrightarrow> lane_ok s \<Longrightarrow> lane_ok s'"
  by (auto simp: same_lane_def lane_ok_def intro: le_trans)

lemma show_ok:
  assumes "lane_ok s" and "same_lane s s'" and "at_key item = Suc (tt_sequence s)" and "tt_sequence s' = Suc (tt_sequence s)"
  shows "lane_ok (show_toast item s')"
    and "is_error (tt_action s) \<Longrightarrow> \<not> is_error (Some item) \<Longrightarrow> tt_action (show_toast item s') = tt_action s"
    and "is_error (Some item) \<Longrightarrow> tt_action (show_toast item s') = Some item"
  using assms by (auto simp: lane_ok_def same_lane_def show_toast_def has_key_def split: option.splits)

lemma opOf_lane: "same_lane s (snd (opOf opts s)) \<and> tt_sequence (snd (opOf opts s)) = tt_sequence s"
  by (simp add: opOf_def same_lane_def Let_def split: undo_source.split)

lemma undoItem_lane:
  "undoItem k opts s = (item, s') \<Longrightarrow> same_lane s s' \<and> tt_sequence s' = tt_sequence s \<and> at_key item = k \<and>
    \<not> is_error (Some item) \<and> \<not> is_progress (Some item)"
  using opOf_lane [of s opts] by (auto simp: undoItem_def is_error_def is_progress_def split: prod.splits)

lemma patch_ok:
  assumes "lane_ok s" and "\<And>t. has_key k (Some t) \<Longrightarrow> at_key (f t) = k"
    and "\<And>t. tt_action s = Some t \<Longrightarrow> at_key t = k \<Longrightarrow> is_error (Some t) \<Longrightarrow> is_error (Some (f t))"
  shows "lane_ok (patch_toast k f s)"
  using assms by (auto simp: lane_ok_def patch_toast_def has_key_def split: option.splits)

lemma patch_error:
  assumes "is_error (tt_action s)" and "\<And>t. tt_action s = Some t \<Longrightarrow> at_key t = k \<Longrightarrow> f t = t"
  shows "tt_action (patch_toast k f s) = tt_action s"
  using assms by (cases "tt_action s") (auto simp: patch_toast_def has_key_def)

lemma close_ok: "lane_ok s \<Longrightarrow> lane_ok (close_toast k s)"
  by (auto simp: lane_ok_def close_toast_def has_key_def split: option.splits)

lemma running_error: "running k s \<Longrightarrow> is_error (tt_action s) \<Longrightarrow> \<not> has_key k (tt_action s)"
  by (auto simp: running_def is_error_def is_progress_def split: option.splits action_toast.splits)

lemma notice_lane: "same_lane s (toast_notify n a v t u s)" "same_lane s (toast_withdraw i s)" "same_lane s (closeNotice s)"
  by (simp_all add: same_lane_def toast_notify_def toast_withdraw_def closeNotice_def nextKey_def split: notify_decision.split)

lemma history_lane: "same_lane s (s\<lparr>tt_history := h\<rparr>)"
  by (simp add: same_lane_def)

lemma error_shows:
  assumes "lane_ok s" and "same_lane s s'" and "tt_sequence s' = tt_sequence s"
  shows "lane_ok (snd (toast_error opts s'))"
    and "is_error (tt_action (snd (toast_error opts s'))) \<and> has_key (Suc (tt_sequence s)) (tt_action (snd (toast_error opts s')))"
proof -
  let ?s = "s'\<lparr>tt_sequence := Suc (tt_sequence s')\<rparr>" and ?i = "errorItem (Suc (tt_sequence s)) opts"
  have l: "same_lane s ?s" "tt_sequence ?s = Suc (tt_sequence s)" "at_key ?i = Suc (tt_sequence s)" "is_error (Some ?i)"
    using assms(2,3) by (simp_all add: same_lane_def errorItem_def is_error_def)
  have e: "snd (toast_error opts s') = show_toast ?i ?s" using assms(3) by (simp add: toast_error_def nextKey_def)
  show "lane_ok (snd (toast_error opts s'))" unfolding e by (rule show_ok(1) [OF assms(1) l(1,3,2)])
  have "tt_action (show_toast ?i ?s) = Some ?i" by (rule show_ok(3) [OF assms(1) l(1,3,2,4)])
  then show "is_error (tt_action (snd (toast_error opts s'))) \<and> has_key (Suc (tt_sequence s)) (tt_action (snd (toast_error opts s')))"
    unfolding e using l by (simp add: has_key_def)
qed

lemma shown_new:
  assumes "lane_ok s" and "\<not> is_error (Some item)" and "at_key item = Suc (tt_sequence s)"
    and "same_lane (s\<lparr>tt_sequence := Suc (tt_sequence s)\<rparr>) s'" and "tt_sequence s' = Suc (tt_sequence s)"
  shows "lane_ok (show_toast item s') \<and> (is_error (tt_action s) \<longrightarrow> tt_action (show_toast item s') = tt_action s)"
proof -
  have "same_lane s s'" using assms(4) by (simp add: same_lane_def)
  then show ?thesis using show_ok(1,2) [OF assms(1) _ assms(3,5)] assms(2) by blast
qed

text \<open>One event: the lane stays well formed, and an error goes only by its close or to a newer error.\<close>

definition error_stays :: "toast_state \<Rightarrow> toast_event \<Rightarrow> bool" where
  "error_stays s e \<longleftrightarrow> is_error (tt_action s) \<longrightarrow>
    tt_action (toast_step s e) = tt_action s \<or>
    (\<exists>k. e = TClose k \<and> has_key k (tt_action s) \<and> tt_action (toast_step s e) = tt_waiting s) \<or>
    is_error (tt_action (toast_step s e)) \<and> has_key (Suc (tt_sequence s)) (tt_action (toast_step s e))"

lemma toast_step_lane:
  assumes "lane_ok s" and "toast_ok s e"
  shows "lane_ok (toast_step s e) \<and> error_stays s e"
proof (cases e)
  case (TUndo opts)
  obtain item s2 where i: "undoItem (Suc (tt_sequence s)) opts (s\<lparr>tt_sequence := Suc (tt_sequence s)\<rparr>) = (item, s2)" by fastforce
  then have "toast_step s e = show_toast item s2" using TUndo by (simp add: toast_undo_def nextKey_def)
  then show ?thesis using shown_new [OF assms(1), of item s2] undoItem_lane [OF i] by (simp add: error_stays_def)
next
  case (TProgress m n c)
  then show ?thesis using shown_new [OF assms(1), of "ProgressToast (Suc (tt_sequence s)) m 0 n c" "s\<lparr>tt_sequence := Suc (tt_sequence s)\<rparr>"]
    by (simp add: error_stays_def toast_progress_def nextKey_def is_error_def same_lane_def)
next
  case (TNote m)
  then show ?thesis using shown_new [OF assms(1), of "NoteToast (Suc (tt_sequence s)) m" "s\<lparr>tt_sequence := Suc (tt_sequence s)\<rparr>"]
    by (simp add: error_stays_def toast_note_def nextKey_def is_error_def same_lane_def)
next
  case (TUpdate k n m)
  let ?f = "\<lambda>item. case item of ProgressToast k' m' d t c \<Rightarrow> ProgressToast k' (case m of None \<Rightarrow> m' | Some m'' \<Rightarrow> m'') n t c | _ \<Rightarrow> item"
  have "lane_ok (patch_toast k ?f s)"
    by (rule patch_ok [OF assms(1)]) (auto simp: has_key_def is_error_def split: action_toast.splits)
  moreover have "tt_action (patch_toast k ?f s) = tt_action s" if "is_error (tt_action s)"
    by (rule patch_error [OF that]) (use that in \<open>auto simp: is_error_def split: action_toast.splits\<close>)
  ultimately show ?thesis using TUpdate by (simp add: error_stays_def progress_update_def)
next
  case (TSucceed k opts)
  then have r: "running k s" using assms(2) by simp
  show ?thesis
  proof (cases opts)
    case None
    then show ?thesis using TSucceed close_ok [OF assms(1)] running_error [OF r]
      by (auto simp: error_stays_def progress_succeed_def close_toast_def)
  next
    case (Some opt)
    obtain item s2 where i: "undoItem k opt s = (item, s2)" by fastforce
    note lane = undoItem_lane [OF i]
    have ok2: "lane_ok s2" using same_lane_ok lane assms(1) by blast
    have nk: "\<not> has_key k (tt_action s2)" if "is_error (tt_action s2)"
      using running_error [OF r] lane that by (simp add: same_lane_def)
    have "lane_ok (patch_toast k (\<lambda>_. item) s2)"
      by (rule patch_ok [OF ok2]) (use lane nk in \<open>auto simp: has_key_def\<close>)
    moreover have "tt_action (patch_toast k (\<lambda>_. item) s2) = tt_action s" if "is_error (tt_action s)"
      using nk lane that by (simp add: patch_toast_def same_lane_def)
    ultimately show ?thesis using TSucceed Some i by (simp add: error_stays_def progress_succeed_def)
  qed
next
  case (TFail k opts)
  then have r: "running k s" using assms(2) by simp
  have "lane_ok (progress_fail k opts s)" unfolding progress_fail_def
    by (rule patch_ok [OF assms(1)]) (simp_all add: errorItem_def is_error_def)
  moreover have "tt_action (progress_fail k opts s) = tt_action s" if "is_error (tt_action s)"
    using running_error [OF r that] by (simp add: progress_fail_def patch_toast_def)
  ultimately show ?thesis using TFail by (simp add: error_stays_def)
next
  case (TError opts)
  then show ?thesis using error_shows [OF assms(1), of s opts] by (simp add: error_stays_def same_lane_def)
next
  case (TClose k)
  then show ?thesis using close_ok [OF assms(1), of k] by (auto simp: error_stays_def close_toast_def)
next
  case (TNotify n a v t u)
  then show ?thesis using notice_lane(1) [of s n a v t u] same_lane_ok [OF _ assms(1)] by (simp add: error_stays_def same_lane_def)
next
  case (TWithdraw i)
  then show ?thesis using notice_lane(2) [of s i] same_lane_ok [OF _ assms(1)] by (simp add: error_stays_def same_lane_def)
next
  case TCloseNotice
  then show ?thesis using notice_lane(3) [of s] same_lane_ok [OF _ assms(1)] by (simp add: error_stays_def same_lane_def)
next
  case (TEnded en st ok)
  let ?s = "s\<lparr>tt_history := step_settled en st ok (tt_history s)\<rparr>"
  have l: "same_lane s ?s" by (rule history_lane)
  show ?thesis
  proof (cases ok)
    case True
    then show ?thesis using TEnded same_lane_ok [OF l assms(1)] by (simp add: error_stays_def undo_ended_def Let_def)
  next
    case False
    then show ?thesis using TEnded error_shows [OF assms(1) l] by (simp add: error_stays_def undo_ended_def Let_def)
  qed
next
  case TLane
  then show ?thesis using close_ok [OF assms(1)] assms(1)
    by (auto simp: error_stays_def lane_effect_def is_error_def split: option.splits action_toast.splits)
qed

interpretation lane: event_machine toast_step toast_ok lane_ok
  by unfold_locales (blast dest: toast_step_lane)

section \<open>Time\<close>

text \<open>Between two notifications that are shown there is the gap, unless nothing was shown before.\<close>

lemma notices_apart:
  assumes "tt_notice (toast_notify n a v now shownAt s) \<noteq> None" and "tt_notice s = None" and "tt_lastNoticeAt s = Some t"
  shows "30000 \<le> now - t"
  using assms by (auto simp: toast_notify_def shouldNotify_def notify_gap_def nextKey_def split: if_splits)

lemma notice_counts_more:
  assumes "tt_notice s = Some t" and "nt_id n \<noteq> nt_id (no_notification t)"
  shows "toast_notify n True True now shownAt s = s\<lparr>tt_notice := Some (t\<lparr>no_more := Suc (no_more t)\<rparr>)\<rparr>"
  using assms by (simp add: toast_notify_def shouldNotify_def)

text \<open>Only the time a toast was seen counts: after it was seen for some stretches, the rest is left.\<close>

fun seen_for :: "int option \<Rightarrow> lifetime \<Rightarrow> (int \<times> int) list \<Rightarrow> lifetime" where
  "seen_for d l [] = l"
| "seen_for d l ((a, b) # ss) = seen_for d (lifetime_cleanup b (lifetime_effect d False a l)) ss"

lemma seen_time_counts:
  assumes "lt_forDuration l = Some d" and "lt_remaining l = Some r" and "lt_timer l = None"
    and "\<forall>(a, b)\<in>set ss. a \<le> b" and "sum_list (map (\<lambda>(a, b). b - a) ss) \<le> r"
  shows "lt_remaining (seen_for (Some d) l ss) = Some (r - sum_list (map (\<lambda>(a, b). b - a) ss))"
  using assms
proof (induction ss arbitrary: l r)
  case (Cons s ss)
  obtain a b where s: "s = (a, b)" by (cases s)
  let ?l = "lifetime_cleanup b (lifetime_effect (Some d) False a l)"
  have pos: "0 \<le> sum_list (map (\<lambda>(a, b). b - a) ss)"
    using Cons.prems(4) by (intro sum_list_nonneg) auto
  have "lt_forDuration ?l = Some d" "lt_remaining ?l = Some (r - (b - a))" "lt_timer ?l = None"
    using Cons.prems(1-5) pos s by (simp_all add: lifetime_effect_def lifetime_cleanup_def Let_def)
  then show ?case using Cons.IH [of ?l "r - (b - a)"] Cons.prems(4,5) s by simp
qed simp

text \<open>A paused toast keeps what it has left.\<close>

lemma paused_time_stands: "lt_forDuration l = d \<Longrightarrow> lt_timer l = None \<Longrightarrow>
    lifetime_cleanup b (lifetime_effect d True a l) = l"
  by (auto simp: lifetime_effect_def lifetime_cleanup_def Let_def split: option.split)

section \<open>Properties\<close>

text \<open>
  C25: An error toast is never pushed out: whatever comes in whatever order, as long as a progress
  ends once, an error on screen is left as it is, or gives way to a newer error, or is closed, and
  then the toast that waited behind it is shown; and nothing waits unless an error is on screen.
\<close>

theorem toast_error_waits_for_decision:
  assumes "admissible toast_step toast_ok new_toasts es" and "s = foldl toast_step new_toasts es" and "toast_ok s e"
  shows "(tt_waiting s \<noteq> None \<longrightarrow> is_error (tt_action s)) \<and> error_stays s e"
proof -
  have "lane_ok new_toasts" by (simp add: lane_ok_def new_toasts_def)
  from lane.run_inv [OF this assms(1)] have ok: "lane_ok s" using assms(2) by simp
  then show ?thesis using toast_step_lane [OF ok assms(3)] by (simp add: lane_ok_def)
qed

definition some_error :: error_options where
  "some_error = \<lparr>eo_message = ''no'', eo_detail = None, eo_retry = NoRetry, eo_secondary = False\<rparr>"

theorem toast_error_waits_for_decision_witness:
  "tt_action (foldl toast_step new_toasts [TError some_error, TNote ''a'', TClose 1]) = Some (NoteToast 2 ''a'')"
proof -
  have "error_stays (foldl toast_step new_toasts [TError some_error, TNote ''a'']) (TClose 1)"
    using toast_error_waits_for_decision [of "[TError some_error, TNote ''a'']"
        "foldl toast_step new_toasts [TError some_error, TNote ''a'']" "TClose 1"] by simp
  then show ?thesis
    by (simp add: error_stays_def toast_error_def toast_note_def nextKey_def show_toast_def errorItem_def some_error_def
        new_toasts_def is_error_def has_key_def close_toast_def)
qed

end
