(* ===== verification/Toast_View.thy ===== *)
theory Toast_View
  imports Toasts Form_Controls
begin

text \<open>
  The toasts on screen (\<open>components/Toast/ToastHost.tsx\<close>) over the store of \<open>Toasts\<close>: the two lanes with the toast that
  fades out, what pauses a toast, its buttons and keys, and where the focus is before and after. An element of the
  app is a number; a toast's own elements are its parts. Time is what the events say: a timer that is set fires, an
  exit animation ends. React does not report the blur of an element it takes away, and the body does not take
  focus.
\<close>

section \<open>What is on screen\<close>

datatype toast_part = PartRoot | PartUndo | PartRetry | PartSecondary | PartCancel | PartClose | PartOpen

definition parts_of :: "action_toast \<Rightarrow> toast_part list" where
  "parts_of item = PartRoot # (case item of
      UndoToast _ _ _ _ \<Rightarrow> [PartUndo, PartClose]
    | ErrorToast _ _ _ retry secondary \<Rightarrow>
        (if retry \<noteq> NoRetry then [PartRetry] else []) @ (if secondary then [PartSecondary] else []) @ [PartClose]
    | ProgressToast _ _ _ _ cancel \<Rightarrow> if cancel then [PartCancel] else []
    | NoteToast _ _ \<Rightarrow> [])"

definition notice_parts :: "toast_part list" where
  "notice_parts = [PartRoot, PartOpen, PartClose]"

datatype focus_place = OnBody | OnElement nat | InAction nat toast_part | InNotice nat toast_part

definition in_action :: "focus_place \<Rightarrow> bool" where
  "in_action p \<longleftrightarrow> (case p of InAction _ _ \<Rightarrow> True | _ \<Rightarrow> False)"

definition in_notice :: "focus_place \<Rightarrow> bool" where
  "in_notice p \<longleftrightarrow> (case p of InNotice _ _ \<Rightarrow> True | _ \<Rightarrow> False)"

text \<open>The state of \<open>usePause\<close>; it is of one toast's component and starts again with another.\<close>

record pause =
  pa_hovered :: bool
  pa_focused :: bool

definition no_pause :: pause where
  "no_pause = \<lparr>pa_hovered = False, pa_focused = False\<rparr>"

record 'i toast_lane =
  ln_last :: "'i option"
  ln_presence :: presence
  ln_key :: "nat option"
  ln_pause :: pause

definition new_lane :: "'i toast_lane" where
  "new_lane = \<lparr>ln_last = None, ln_presence = \<lparr>pr_open = False, pr_mounted = False, pr_waits = False\<rparr>, ln_key = None,
    ln_pause = no_pause\<rparr>"

text \<open>\<open>useLane\<close>: what is current, or the last one while it fades out; a withdrawn one goes at once.\<close>

definition lane_item :: "'i option \<Rightarrow> bool \<Rightarrow> 'i toast_lane \<Rightarrow> 'i option" where
  "lane_item current instant l =
    (case current of Some i \<Rightarrow> Some i | None \<Rightarrow> if pr_mounted (ln_presence l) \<and> \<not> instant then ln_last l else None)"

definition useLane :: "int option \<Rightarrow> ('i \<Rightarrow> nat) \<Rightarrow> 'i option \<Rightarrow> bool \<Rightarrow> 'i toast_lane \<Rightarrow> 'i toast_lane" where
  "useLane exit_ms key_of current instant l =
    (let l1 = l\<lparr>ln_last := (if current = None then ln_last l else current),
               ln_presence := presence_step (ln_presence l) (OpenIs (current \<noteq> None) (if instant then None else exit_ms))\<rparr>;
         k = map_option key_of (lane_item current instant l1)
     in l1\<lparr>ln_key := k, ln_pause := (if k = ln_key l then ln_pause l else no_pause)\<rparr>)"

text \<open>\<open>ht_calls\<close>: what was called of the app; \<open>ht_return\<close> is \<open>returnFocusTo\<close>; \<open>ht_elements\<close> those in the document.\<close>

datatype toast_call = RetryCalled nat | SecondaryCalled nat | CancelCalled nat | NotificationOpened notification

record toast_host =
  ht_store :: toast_state
  ht_action :: "action_toast toast_lane"
  ht_notice :: "notice_toast toast_lane"
  ht_hidden :: bool
  ht_focus :: focus_place
  ht_return :: "focus_place option"
  ht_elements :: "nat list"
  ht_calls :: "toast_call list"

definition action_item :: "toast_host \<Rightarrow> action_toast option" where
  "action_item s = lane_item (tt_action (ht_store s)) False (ht_action s)"

definition notice_item :: "toast_host \<Rightarrow> notice_toast option" where
  "notice_item s = lane_item (tt_notice (ht_store s)) (tt_withdrawn (ht_store s)) (ht_notice s)"

definition on_screen :: "toast_host \<Rightarrow> focus_place \<Rightarrow> bool" where
  "on_screen s p =
    (case p of
      OnBody \<Rightarrow> True
    | OnElement n \<Rightarrow> n \<in> set (ht_elements s)
    | InAction k part \<Rightarrow> (case action_item s of Some i \<Rightarrow> at_key i = k \<and> part \<in> set (parts_of i) | None \<Rightarrow> False)
    | InNotice k part \<Rightarrow> (case notice_item s of Some i \<Rightarrow> no_key i = k \<and> part \<in> set notice_parts | None \<Rightarrow> False))"

section \<open>Focus\<close>

text \<open>The focus moves: a toast that gets it hears \<open>onFocus\<close>, one that loses it to elsewhere \<open>onBlur\<close>.\<close>

definition focus_flag :: "bool \<Rightarrow> bool \<Rightarrow> pause \<Rightarrow> pause" where
  "focus_flag was is_now p = (if is_now then p\<lparr>pa_focused := True\<rparr> else if was then p\<lparr>pa_focused := False\<rparr> else p)"

definition move_focus :: "focus_place \<Rightarrow> toast_host \<Rightarrow> toast_host" where
  "move_focus p s =
    s\<lparr>ht_focus := p,
      ht_action := (ht_action s)\<lparr>ln_pause := focus_flag (in_action (ht_focus s)) (in_action p) (ln_pause (ht_action s))\<rparr>,
      ht_notice := (ht_notice s)\<lparr>ln_pause := focus_flag (in_notice (ht_focus s)) (in_notice p) (ln_pause (ht_notice s))\<rparr>\<rparr>"

text \<open>\<open>element.focus()\<close>: nothing for the body, and nothing for what is no longer in the document.\<close>

definition call_focus :: "focus_place \<Rightarrow> toast_host \<Rightarrow> toast_host" where
  "call_focus p s = (if p = OnBody \<or> \<not> on_screen s p then s else move_focus p s)"

definition giveFocusBack :: "toast_host \<Rightarrow> toast_host" where
  "giveFocusBack s =
    (let s1 = s\<lparr>ht_return := None\<rparr> in case ht_return s of None \<Rightarrow> s1 | Some p \<Rightarrow> call_focus p s1)"

definition closeFrom :: "bool \<Rightarrow> (toast_state \<Rightarrow> toast_state) \<Rightarrow> toast_host \<Rightarrow> toast_host" where
  "closeFrom hadFocus close s = (let s1 = s\<lparr>ht_store := close (ht_store s)\<rparr> in if hadFocus then giveFocusBack s1 else s1)"

section \<open>The action toast\<close>

definition paused :: "toast_host \<Rightarrow> pause \<Rightarrow> bool" where
  "paused s p \<longleftrightarrow> ht_hidden s \<or> pa_hovered p \<or> pa_focused p"

definition call_app :: "toast_call \<Rightarrow> toast_host \<Rightarrow> toast_host" where
  "call_app c s = s\<lparr>ht_calls := ht_calls s @ [c]\<rparr>"

definition close_action :: "action_toast \<Rightarrow> toast_host \<Rightarrow> toast_host" where
  "close_action item s = closeFrom (in_action (ht_focus s)) (close_toast (at_key item)) s"

definition press_action :: "toast_part \<Rightarrow> toast_host \<Rightarrow> toast_host" where
  "press_action part s =
    (case action_item s of
      None \<Rightarrow> s
    | Some item \<Rightarrow>
        (if part \<notin> set (parts_of item) then s
         else (case part of
            PartUndo \<Rightarrow> (let s1 = closeFrom (in_action (ht_focus s)) (\<lambda>t. t) s
              in s1\<lparr>ht_store := run_undo False (Some (at_op item)) (ht_store s1)\<rparr>)
          | PartRetry \<Rightarrow> (let s1 = close_action item s
              in case at_retry item of
                RetryStep e step \<Rightarrow> s1\<lparr>ht_store := (ht_store s1)\<lparr>tt_history := retry_op e step (tt_history (ht_store s1))\<rparr>\<rparr>
              | _ \<Rightarrow> call_app (RetryCalled (at_key item)) s1)
          | PartSecondary \<Rightarrow> call_app (SecondaryCalled (at_key item)) s
          | PartCancel \<Rightarrow> call_app (CancelCalled (at_key item)) (close_action item s)
          | PartClose \<Rightarrow> close_action item s
          | _ \<Rightarrow> s)))"

definition escape_action :: "toast_host \<Rightarrow> toast_host" where
  "escape_action s =
    (case action_item s of
      None \<Rightarrow> s
    | Some item \<Rightarrow> if kind_of item = KindProgress then giveFocusBack s else close_action item s)"

text \<open>Its timer is set while it is shown, has a lifetime and is not paused; at its end it is closed.\<close>

definition action_expires :: "toast_host \<Rightarrow> toast_host" where
  "action_expires s =
    (case tt_action (ht_store s) of
      Some item \<Rightarrow> if lifetimeOf item \<noteq> None \<and> \<not> paused s (ln_pause (ht_action s))
        then s\<lparr>ht_store := close_toast (at_key item) (ht_store s)\<rparr> else s
    | None \<Rightarrow> s)"

section \<open>The notification\<close>

definition close_notice :: "toast_host \<Rightarrow> toast_host" where
  "close_notice s = closeFrom (in_notice (ht_focus s)) closeNotice s"

definition open_notice :: "notice_toast \<Rightarrow> toast_host \<Rightarrow> toast_host" where
  "open_notice item s = call_app (NotificationOpened (no_notification item)) (close_notice s)"

text \<open>A press anywhere on it opens it, but for the one of its button that closes it.\<close>

definition press_notice :: "toast_part \<Rightarrow> toast_host \<Rightarrow> toast_host" where
  "press_notice part s =
    (case notice_item s of
      None \<Rightarrow> s
    | Some item \<Rightarrow> if part = PartClose then close_notice s else if part \<in> set notice_parts then open_notice item s else s)"

definition notice_keydown :: "string \<Rightarrow> toast_part \<Rightarrow> toast_host \<Rightarrow> toast_host" where
  "notice_keydown key part s =
    (case notice_item s of
      None \<Rightarrow> s
    | Some item \<Rightarrow>
        if key = ''Escape'' then close_notice s
        else if key = ''Enter'' \<and> part = PartRoot then open_notice item s
        else s)"

definition notice_expires :: "toast_host \<Rightarrow> toast_host" where
  "notice_expires s =
    (if tt_notice (ht_store s) \<noteq> None \<and> \<not> paused s (ln_pause (ht_notice s))
     then s\<lparr>ht_store := closeNotice (ht_store s)\<rparr> else s)"

section \<open>The host\<close>

text \<open>The toasts F8 goes through, in the order of the document: those that are not fading out.\<close>

definition f8_toasts :: "toast_host \<Rightarrow> focus_place list" where
  "f8_toasts s =
    (case tt_notice (ht_store s) of Some n \<Rightarrow> [InNotice (no_key n) PartRoot] | None \<Rightarrow> []) @
    (case tt_action (ht_store s) of Some a \<Rightarrow> [InAction (at_key a) PartRoot] | None \<Rightarrow> [])"

definition same_toast :: "focus_place \<Rightarrow> focus_place \<Rightarrow> bool" where
  "same_toast p q \<longleftrightarrow> (case (p, q) of (InAction k _, InAction l _) \<Rightarrow> k = l | (InNotice k _, InNotice l _) \<Rightarrow> k = l | _ \<Rightarrow> False)"

definition host_keydown :: "key_platform \<Rightarrow> bool \<Rightarrow> key_press \<Rightarrow> toast_host \<Rightarrow> toast_host" where
  "host_keydown platform repeat e s =
    (let toasts = f8_toasts s;
         (store, f8, _) = toast_keydown platform (length toasts) (find_index (\<lambda>t. same_toast t (ht_focus s)) toasts) repeat e (ht_store s);
         s1 = s\<lparr>ht_store := store\<rparr>
     in case f8 of
       F8Nothing \<Rightarrow> s1
     | F8Toast i remember \<Rightarrow> call_focus (toasts ! i) (if remember then s1\<lparr>ht_return := Some (ht_focus s)\<rparr> else s1)
     | F8Back \<Rightarrow> giveFocusBack s1)"

text \<open>An exit ends with its animation, or with the timer behind it.\<close>

datatype host_event =
  StoreChanged toast_event | FocusMoved focus_place | ElementGone nat | ActionHovered bool | NoticeHovered bool
| TabHidden bool | ActionTime | NoticeTime | ActionExit | NoticeExit
| ActionPressed toast_part | NoticePressed toast_part | ToastKey string | HostKey key_platform bool key_press

definition handle_host :: "host_event \<Rightarrow> toast_host \<Rightarrow> toast_host" where
  "handle_host e s =
    (case e of
      StoreChanged t \<Rightarrow> s\<lparr>ht_store := toast_step (ht_store s) t\<rparr>
    | FocusMoved p \<Rightarrow> if on_screen s p then move_focus p s else s
    | ElementGone n \<Rightarrow> s\<lparr>ht_elements := filter (\<lambda>m. m \<noteq> n) (ht_elements s)\<rparr>
    | ActionHovered b \<Rightarrow> s\<lparr>ht_action := (ht_action s)\<lparr>ln_pause := (ln_pause (ht_action s))\<lparr>pa_hovered := b\<rparr>\<rparr>\<rparr>
    | NoticeHovered b \<Rightarrow> s\<lparr>ht_notice := (ht_notice s)\<lparr>ln_pause := (ln_pause (ht_notice s))\<lparr>pa_hovered := b\<rparr>\<rparr>\<rparr>
    | TabHidden b \<Rightarrow> s\<lparr>ht_hidden := b\<rparr>
    | ActionTime \<Rightarrow> action_expires s
    | NoticeTime \<Rightarrow> notice_expires s
    | ActionExit \<Rightarrow> s\<lparr>ht_action := (ht_action s)\<lparr>ln_presence := presence_step (ln_presence (ht_action s)) FallbackFires\<rparr>\<rparr>
    | NoticeExit \<Rightarrow> s\<lparr>ht_notice := (ht_notice s)\<lparr>ln_presence := presence_step (ln_presence (ht_notice s)) FallbackFires\<rparr>\<rparr>
    | ActionPressed part \<Rightarrow> press_action part s
    | NoticePressed part \<Rightarrow> press_notice part s
    | ToastKey key \<Rightarrow> (case ht_focus s of
        InAction _ _ \<Rightarrow> if key = ''Escape'' then escape_action s else s
      | InNotice _ part \<Rightarrow> notice_keydown key part s
      | _ \<Rightarrow> s)
    | HostKey platform repeat e \<Rightarrow> host_keydown platform repeat e s)"

text \<open>Both lanes render; what had focus and is gone leaves it to the body.\<close>

definition render_lanes :: "int option \<Rightarrow> toast_host \<Rightarrow> toast_host" where
  "render_lanes exit_ms s =
    (let s1 = s\<lparr>ht_action := useLane exit_ms at_key (tt_action (ht_store s)) False (ht_action s),
               ht_notice := useLane exit_ms no_key (tt_notice (ht_store s)) (tt_withdrawn (ht_store s)) (ht_notice s)\<rparr>
     in if on_screen s1 (ht_focus s1) then s1 else s1\<lparr>ht_focus := OnBody\<rparr>)"

text \<open>After an event: a render, the effect of the action lane, and the render it asks for.\<close>

definition host_step :: "int option \<Rightarrow> toast_host \<Rightarrow> host_event \<Rightarrow> toast_host" where
  "host_step exit_ms s e =
    (let s1 = render_lanes exit_ms (handle_host e s)
     in render_lanes exit_ms (s1\<lparr>ht_store := lane_effect (ht_store s1)\<rparr>))"

definition new_host :: "nat list \<Rightarrow> focus_place \<Rightarrow> toast_host" where
  "new_host elements focus = \<lparr>ht_store = new_toasts, ht_action = new_lane, ht_notice = new_lane, ht_hidden = False,
    ht_focus = focus, ht_return = None, ht_elements = elements, ht_calls = []\<rparr>"

section \<open>Surfaces\<close>

datatype surface_tone = DefaultTone | InverseTone

definition oppositeSurface :: "surface_tone \<Rightarrow> surface_tone" where
  "oppositeSurface t = (if t = InverseTone then DefaultTone else InverseTone)"

text \<open>The area's nearest \<open>data-surface\<close>, when there is an area and it is one of the two.\<close>

definition surfaceOf :: "string option \<Rightarrow> surface_tone option" where
  "surfaceOf v = (if v = Some ''inverse'' then Some InverseTone else if v = Some ''default'' then Some DefaultTone else None)"

definition toast_tone :: "string option \<Rightarrow> surface_tone \<Rightarrow> surface_tone" where
  "toast_tone area_surface host_surface =
    oppositeSurface (case surfaceOf area_surface of Some t \<Rightarrow> t | None \<Rightarrow> host_surface)"

section \<open>Toasts take no focus\<close>

definition in_toast :: "focus_place \<Rightarrow> bool" where
  "in_toast p \<longleftrightarrow> in_action p \<or> in_notice p"

lemma in_toast_simps [simp]:
  "\<not> in_toast OnBody" "\<not> in_toast (OnElement n)" "in_toast (InAction k a)" "in_toast (InNotice k a)"
  "\<not> in_action OnBody" "\<not> in_action (OnElement n)" "in_action (InAction k a)" "\<not> in_action (InNotice k a)"
  "\<not> in_notice OnBody" "\<not> in_notice (OnElement n)" "\<not> in_notice (InAction k a)" "in_notice (InNotice k a)"
  by (simp_all add: in_toast_def in_action_def in_notice_def)

lemma render_fields:
  "ht_elements (render_lanes d s) = ht_elements s" "ht_return (render_lanes d s) = ht_return s" "ht_store (render_lanes d s) = ht_store s"
  "ht_focus (render_lanes d s) = ht_focus s \<or> ht_focus (render_lanes d s) = OnBody"
  by (simp_all add: render_lanes_def Let_def)

lemma render_keeps_element:
  "ht_focus s = OnElement n \<Longrightarrow> n \<in> set (ht_elements s) \<Longrightarrow> ht_focus (render_lanes d s) = OnElement n"
  by (simp add: render_lanes_def Let_def on_screen_def)

lemma step_fields:
  "ht_elements (host_step d s e) = ht_elements (handle_host e s)" "ht_return (host_step d s e) = ht_return (handle_host e s)"
  "ht_focus (host_step d s e) = ht_focus (handle_host e s) \<or> ht_focus (host_step d s e) = OnBody"
  using render_fields(4) [of d "handle_host e s"]
    render_fields(4) [of d "render_lanes d (handle_host e s)\<lparr>ht_store := lane_effect (ht_store (render_lanes d (handle_host e s)))\<rparr>"]
  by (auto simp: host_step_def Let_def render_fields(1-3))

lemma step_keeps_element:
  "ht_focus (handle_host e s) = OnElement n \<Longrightarrow> n \<in> set (ht_elements (handle_host e s)) \<Longrightarrow> ht_focus (host_step d s e) = OnElement n"
  by (simp add: host_step_def Let_def render_keeps_element render_fields)

lemma close_outside: "closeFrom False close s = s\<lparr>ht_store := close (ht_store s)\<rparr>"
  by (simp add: closeFrom_def)

text \<open>Nothing but F8 and the user brings focus into a toast.\<close>

definition brings_focus :: "nat \<Rightarrow> host_event \<Rightarrow> bool" where
  "brings_focus n e \<longleftrightarrow> (case e of FocusMoved _ \<Rightarrow> True | ElementGone m \<Rightarrow> m = n | HostKey _ _ k \<Rightarrow> is_f8 (kp_event k) | _ \<Rightarrow> False)"

lemma toast_keydown_f8:
  "fst (snd (toast_keydown platform m i r e t)) = F8Nothing \<or>
    is_f8 (kp_event e) \<and> fst (snd (toast_keydown platform m i r e t)) = f8_key m i"
  by (simp add: toast_keydown_def Let_def)

lemma quiet_handle:
  assumes "ht_focus s = OnElement n" and "n \<in> set (ht_elements s)" and "\<not> brings_focus n e"
  shows "ht_focus (handle_host e s) = OnElement n \<and> n \<in> set (ht_elements (handle_host e s))"
proof (cases e)
  case (HostKey platform r k)
  then have k: "\<not> is_f8 (kp_event k)" using assms(3) by (simp add: brings_focus_def)
  then have "fst (snd (toast_keydown platform m i r k t)) = F8Nothing" for m i t using toast_keydown_f8 by blast
  then show ?thesis using assms HostKey by (simp add: handle_host_def host_keydown_def Let_def split_beta)
next
  case (ActionPressed part)
  then show ?thesis using assms
    by (cases part) (auto simp: handle_host_def press_action_def close_action_def close_outside call_app_def Let_def
        split: option.split toast_retry.split)
qed (use assms in \<open>auto simp: brings_focus_def handle_host_def action_expires_def notice_expires_def press_notice_def
    close_notice_def open_notice_def close_outside call_app_def split: option.split\<close>)

theorem toasts_never_take_focus:
  assumes "ht_focus s = OnElement n" and "n \<in> set (ht_elements s)" and "list_all (\<lambda>e. \<not> brings_focus n e) es"
  shows "ht_focus (foldl (host_step d) s es) = OnElement n"
  using assms
proof (induction es arbitrary: s)
  case (Cons e es)
  then have h: "ht_focus (handle_host e s) = OnElement n \<and> n \<in> set (ht_elements (handle_host e s))"
    using quiet_handle by simp
  then show ?case using Cons.IH [of "host_step d s e"] Cons.prems(3) step_keeps_element by (simp add: step_fields(1))
qed simp

section \<open>F8 borrows the focus\<close>

text \<open>A place in a toast that is shown and not fading out.\<close>

definition current_part :: "toast_host \<Rightarrow> focus_place \<Rightarrow> bool" where
  "current_part s p =
    (case p of
      InAction k part \<Rightarrow> (case tt_action (ht_store s) of Some i \<Rightarrow> at_key i = k \<and> part \<in> set (parts_of i) | None \<Rightarrow> False)
    | InNotice k part \<Rightarrow> (case tt_notice (ht_store s) of Some i \<Rightarrow> no_key i = k \<and> part \<in> set notice_parts | None \<Rightarrow> False)
    | _ \<Rightarrow> False)"

definition on_loan :: "nat \<Rightarrow> toast_host \<Rightarrow> bool" where
  "on_loan n s \<longleftrightarrow> n \<in> set (ht_elements s) \<and>
    (ht_focus s = OnElement n \<or> in_toast (ht_focus s) \<and> ht_return s = Some (OnElement n))"

definition tracked :: "nat \<Rightarrow> toast_host \<Rightarrow> bool" where
  "tracked n s \<longleftrightarrow> on_loan n s \<and> (in_toast (ht_focus s) \<longrightarrow> current_part s (ht_focus s))"

text \<open>
  The user moves focus by F8 and among the parts of toasts; the element stays; and nobody else takes away the toast
  that has the focus.
\<close>

definition loan_ok :: "int option \<Rightarrow> nat \<Rightarrow> toast_host \<Rightarrow> host_event \<Rightarrow> bool" where
  "loan_ok d n s e \<longleftrightarrow>
    (case e of FocusMoved p \<Rightarrow> in_toast (ht_focus s) \<and> current_part s p | ElementGone m \<Rightarrow> m \<noteq> n | _ \<Rightarrow> True) \<and>
    (in_toast (ht_focus (handle_host e s)) \<longrightarrow>
      ht_focus (host_step d s e) \<noteq> OnBody \<and> current_part (host_step d s e) (ht_focus (host_step d s e)))"

lemma give_back: "on_loan n s \<Longrightarrow> in_toast (ht_focus s) \<Longrightarrow>
    ht_focus (giveFocusBack s) = OnElement n \<and> ht_elements (giveFocusBack s) = ht_elements s"
  by (auto simp: on_loan_def giveFocusBack_def call_focus_def on_screen_def move_focus_def Let_def)

lemma on_loan_store: "on_loan n (s\<lparr>ht_store := t\<rparr>) = on_loan n s"
  by (simp add: on_loan_def)

lemma on_loan_call: "on_loan n (call_app c s) = on_loan n s"
  by (simp add: on_loan_def call_app_def)

lemma close_loan:
  assumes "on_loan n s" and "hadFocus \<longrightarrow> in_toast (ht_focus s)"
  shows "on_loan n (closeFrom hadFocus close s)"
  using give_back [of n "s\<lparr>ht_store := close (ht_store s)\<rparr>"] assms
  by (auto simp: closeFrom_def Let_def on_loan_store) (auto simp: on_loan_def)

lemma in_toastI: "in_action p \<Longrightarrow> in_toast p" "in_notice p \<Longrightarrow> in_toast p"
  by (simp_all add: in_toast_def)

lemma press_action_loan: "on_loan n s \<Longrightarrow> on_loan n (press_action part s)"
proof -
  assume loan: "on_loan n s"
  have c: "on_loan n (closeFrom (in_action (ht_focus s)) f s)" for f using close_loan [OF loan] in_toastI(1) by blast
  show ?thesis using c loan
    by (auto simp: press_action_def close_action_def on_loan_store on_loan_call Let_def split: option.split toast_part.split toast_retry.split)
qed

lemma close_notice_loan: "on_loan n s \<Longrightarrow> on_loan n (close_notice s)"
  unfolding close_notice_def by (rule close_loan) (simp_all add: in_toastI)

lemma press_notice_loan: "on_loan n s \<Longrightarrow> on_loan n (press_notice part s)"
  by (auto simp: press_notice_def open_notice_def on_loan_call close_notice_loan split: option.split)

lemma f8_toasts_in: "t \<in> set (f8_toasts s) \<Longrightarrow> in_toast t"
  by (auto simp: f8_toasts_def split: option.splits)

lemma f8_focus_in:
  assumes "f8_key (length ts) i = F8Toast k remember" and "i \<noteq> None \<longrightarrow> the i < length ts"
  shows "k < length ts" and "remember \<longleftrightarrow> i = None"
  using assms by (auto simp: f8_key_def split: if_splits option.splits)

lemma focused_index:
  assumes "in_toast (ht_focus s)" and "current_part s (ht_focus s)"
  shows "find_index (\<lambda>t. same_toast t (ht_focus s)) (f8_toasts s) \<noteq> None"
proof -
  have "\<exists>t \<in> set (f8_toasts s). same_toast t (ht_focus s)"
    using assms by (cases "ht_focus s") (auto simp: current_part_def f8_toasts_def same_toast_def split: option.splits)
  then show ?thesis by (auto simp: find_index_None)
qed

lemma index_focused: "find_index (\<lambda>t. same_toast t (ht_focus s)) ts \<noteq> None \<Longrightarrow> in_toast (ht_focus s)"
proof -
  have "same_toast t p \<Longrightarrow> in_toast p" for t p by (cases t; cases p) (simp_all add: same_toast_def)
  then show "find_index (\<lambda>t. same_toast t (ht_focus s)) ts \<noteq> None \<Longrightarrow> in_toast (ht_focus s)"
    by (auto simp: find_index_None)
qed

lemma host_keydown_loan:
  assumes "tracked n s"
  shows "on_loan n (host_keydown platform r k s)"
proof -
  let ?i = "find_index (\<lambda>t. same_toast t (ht_focus s)) (f8_toasts s)"
  let ?t = "toast_keydown platform (length (f8_toasts s)) ?i r k (ht_store s)" and ?ts = "f8_toasts s"
  have loan: "on_loan n s" using assms by (simp add: tracked_def)
  have first: "on_loan n (call_focus (?ts ! j) (if remember then s\<lparr>ht_store := fst ?t, ht_return := Some (ht_focus s)\<rparr> else s\<lparr>ht_store := fst ?t\<rparr>))"
    if "f8_key (length ?ts) ?i = F8Toast j remember" for j remember
  proof -
    have i: "?i \<noteq> None \<longrightarrow> the ?i < length ?ts" using find_index_Some by (metis option.exhaust_sel)
    have "in_toast (?ts ! j)" using f8_focus_in(1) [OF that i] f8_toasts_in by (meson nth_mem)
    moreover have "remember \<Longrightarrow> ht_focus s = OnElement n"
      using f8_focus_in(2) [OF that i] focused_index [of s] assms loan by (auto simp: tracked_def on_loan_def)
    moreover have "\<not> remember \<Longrightarrow> in_toast (ht_focus s)" using f8_focus_in(2) [OF that i] index_focused by blast
    ultimately show ?thesis using loan by (auto simp: call_focus_def move_focus_def on_loan_def)
  qed
  have given_back: "on_loan n (giveFocusBack (s\<lparr>ht_store := fst ?t\<rparr>))" if "f8_key (length ?ts) ?i = F8Back"
  proof -
    have "?i \<noteq> None" using that by (auto simp: f8_key_def split: if_splits option.splits)
    then have "in_toast (ht_focus s)" by (rule index_focused)
    then show ?thesis using give_back [of n "s\<lparr>ht_store := fst ?t\<rparr>"] loan by (simp add: on_loan_store) (simp add: on_loan_def)
  qed
  have f8: "fst (snd ?t) = F8Nothing \<or> fst (snd ?t) = f8_key (length ?ts) ?i" using toast_keydown_f8 by blast
  have "on_loan n (case fst (snd ?t) of F8Nothing \<Rightarrow> s\<lparr>ht_store := fst ?t\<rparr>
      | F8Toast j remember \<Rightarrow> call_focus (?ts ! j) (if remember then s\<lparr>ht_store := fst ?t, ht_return := Some (ht_focus s)\<rparr> else s\<lparr>ht_store := fst ?t\<rparr>)
      | F8Back \<Rightarrow> giveFocusBack (s\<lparr>ht_store := fst ?t\<rparr>))"
  proof (cases "fst (snd ?t)")
    case F8Nothing
    then show ?thesis using loan by (simp add: on_loan_store)
  next
    case (F8Toast j remember)
    then have "f8_key (length ?ts) ?i = F8Toast j remember" using f8 by simp
    then show ?thesis unfolding F8Toast f8_focus.case by (rule first)
  next
    case F8Back
    then have "f8_key (length ?ts) ?i = F8Back" using f8 by simp
    then show ?thesis unfolding F8Back f8_focus.case by (rule given_back)
  qed
  then show ?thesis by (simp add: host_keydown_def Let_def split_beta)
qed

lemma toast_key_loan: "on_loan n s \<Longrightarrow> on_loan n (handle_host (ToastKey key) s)"
proof -
  assume loan: "on_loan n s"
  have "on_loan n (escape_action s)" if "in_toast (ht_focus s)"
    using close_loan [OF loan, of "in_action (ht_focus s)"] give_back [OF loan that] loan in_toastI
    by (auto simp: escape_action_def close_action_def split: option.split) (simp add: on_loan_def)
  then show ?thesis using loan close_notice_loan [OF loan]
    by (auto simp: handle_host_def notice_keydown_def open_notice_def on_loan_call split: focus_place.split option.split)
qed

lemma handle_loan:
  assumes "tracked n s" and "loan_ok d n s e"
  shows "on_loan n (handle_host e s)"
proof -
  have loan: "on_loan n s" using assms(1) by (simp add: tracked_def)
  show ?thesis
  proof (cases e)
    case (HostKey platform r k)
    then show ?thesis using host_keydown_loan [OF assms(1)] by (simp add: handle_host_def)
  next
    case (ToastKey key)
    then show ?thesis using toast_key_loan [OF loan] by simp
  next
    case (FocusMoved p)
    then have "in_toast (ht_focus s)" "in_toast p"
      using assms(2) by (auto simp: loan_ok_def current_part_def split: focus_place.splits)
    then show ?thesis using loan FocusMoved by (auto simp: handle_host_def on_loan_def move_focus_def)
  qed (use loan assms(2) press_action_loan [OF loan] press_notice_loan [OF loan] in
      \<open>auto simp: handle_host_def on_loan_def loan_ok_def action_expires_def notice_expires_def split: option.split\<close>)
qed

lemma step_tracked:
  assumes "tracked n s" and "loan_ok d n s e"
  shows "tracked n (host_step d s e)"
proof -
  have loan: "on_loan n (handle_host e s)" by (rule handle_loan [OF assms])
  show ?thesis
  proof (cases "in_toast (ht_focus (handle_host e s))")
    case True
    then have "ht_focus (host_step d s e) = ht_focus (handle_host e s)" "current_part (host_step d s e) (ht_focus (host_step d s e))"
      using assms(2) step_fields(3) [of d s e] by (auto simp: loan_ok_def)
    then show ?thesis using loan True by (auto simp: tracked_def on_loan_def step_fields(1,2))
  next
    case False
    then have "ht_focus (handle_host e s) = OnElement n" "n \<in> set (ht_elements (handle_host e s))"
      using loan by (auto simp: on_loan_def)
    then show ?thesis using step_keeps_element by (simp add: tracked_def on_loan_def step_fields(1))
  qed
qed

interpretation loan: event_machine "host_step d" "loan_ok d n" "tracked n" for d n
  by unfold_locales (rule step_tracked)


definition f8_press :: host_event where
  "f8_press = HostKey PlatformOther False \<lparr>kp_event = \<lparr>ke_key = ''F8'', ke_code = None, ke_meta = False, ke_ctrl = False, ke_alt = False,
    ke_shift = False\<rparr>, kp_typing = False, kp_prevented = False, kp_now = 0\<rparr>"

definition undo_press :: host_event where
  "undo_press = HostKey PlatformOther False \<lparr>kp_event = \<lparr>ke_key = ''z'', ke_code = None, ke_meta = False, ke_ctrl = True, ke_alt = False,
    ke_shift = False\<rparr>, kp_typing = False, kp_prevented = False, kp_now = 0\<rparr>"

definition archived :: undo_options where
  "archived = \<lparr>uo_message = ''Archived'', uo_detail = None, uo_source = NewOp True\<rparr>"

definition borrowed :: "host_event list" where
  "borrowed = [StoreChanged (TUndo archived), f8_press, ActionHovered True, ActionTime]"

definition borrowed_host :: toast_host where
  "borrowed_host = foldl (host_step (Some 120)) (new_host [1] (OnElement 1)) borrowed"

lemma borrowed_admissible: "admissible (host_step (Some 120)) (loan_ok (Some 120) 1) (new_host [1] (OnElement 1)) borrowed"
  by code_simp


section \<open>Where the focus is lost\<close>

text \<open>The undo toast with the focus goes because mod+Z undid its operation: the focus goes with it.\<close>

lemma undone_by_keys_drops_focus:
  "ht_focus (foldl (host_step (Some 120)) (new_host [1] (OnElement 1))
    [StoreChanged (TUndo archived), f8_press, undo_press, ActionExit]) = OnBody"
  by code_simp

text \<open>F8 with the focus on the body: there is nothing to give it back to, and neither Esc nor F8 leaves a progress.\<close>

lemma f8_from_body_stays:
  "ht_focus (foldl (host_step (Some 120)) (new_host [1] OnBody)
    [StoreChanged (TProgress ''Importing'' None False), f8_press, ToastKey ''Escape'', f8_press, ToastKey ''Escape'']) = InAction 1 PartRoot"
  by code_simp

text \<open>The element F8 came from is remembered after the user has gone elsewhere: a toast closed later sends the focus there.\<close>

lemma old_element_gets_focus:
  "ht_focus (foldl (host_step (Some 120)) (new_host [1, 2] (OnElement 1))
    [StoreChanged (TUndo archived), f8_press, FocusMoved (OnElement 2), StoreChanged (TUndo archived),
     FocusMoved (InAction 2 PartClose), ActionPressed PartClose]) = OnElement 1"
  by code_simp

text \<open>A progress ends while its Cancel button has the focus: the undo toast in its place never runs out.\<close>

lemma cancel_focus_stops_the_time:
  fixes s :: toast_host
  assumes "s = foldl (host_step (Some 120)) (new_host [1] (OnElement 1))
    [StoreChanged (TProgress ''Importing'' None True), FocusMoved (InAction 1 PartCancel), StoreChanged (TSucceed 1 (Some archived)),
     FocusMoved (OnElement 1)]"
  shows "ht_focus s = OnElement 1" and "tt_action (ht_store (host_step (Some 120) s ActionTime)) = Some (UndoToast 1 ''Archived'' None (Op 1))"
  unfolding assms by code_simp+

end
