(* ===== verification/Command_Palette.thy ===== *)
theory Command_Palette
  imports Label_Search
begin

text \<open>
  The command palette (\<open>ui-kit/src/components/CommandPalette\<close>) in the app's single layer
  (\<open>interaction/layers\<close>): the sources and the "Create" rows the screens register, the search that is
  begun anew for every query, and the palette's handlers. A source is the box it was registered
  with (a number) and what the box holds now. What a source answers is a parameter: items at once, or a
  promise, whose answer an event brings later. Of an item the model keeps what decides something;
  what is called when it is chosen is an effect. Overlays other than layers are not modelled.
\<close>

section \<open>Sources and items\<close>

datatype palette_source =
  Source (so_id: string) (so_title: string) (so_prefix: "string option") (so_search: nat)

datatype palette_item =
  Item (pi_id: string) (pi_label: string) (pi_disabledReason: "string option") (pi_href: "string option")
    (pi_confirm: bool) (pi_next: "palette_source option") (pi_onSelect: bool)

record palette_env =
  pe_search :: "nat \<Rightarrow> string \<Rightarrow> bool \<Rightarrow> palette_item list option"
  pe_create :: "nat \<Rightarrow> string \<Rightarrow> palette_item list"
  pe_router :: bool
  pe_platform :: key_platform

record palette_store =
  ps_sources :: "nat list"
  ps_create :: "nat option"

definition addSource :: "nat \<Rightarrow> palette_store \<Rightarrow> palette_store" where
  "addSource e s = s\<lparr>ps_sources := ps_sources s @ [e]\<rparr>"

definition removeSource :: "nat \<Rightarrow> palette_store \<Rightarrow> palette_store" where
  "removeSource e s = s\<lparr>ps_sources := filter (\<lambda>x. x \<noteq> e) (ps_sources s)\<rparr>"

definition setCreate :: "nat option \<Rightarrow> palette_store \<Rightarrow> palette_store" where
  "setCreate c s = s\<lparr>ps_create := c\<rparr>"

text \<open>The screen that registered the "Create" rows goes: only its own are taken back.\<close>

definition dropCreate :: "nat \<Rightarrow> palette_store \<Rightarrow> palette_store" where
  "dropCreate c s = (if ps_create s = Some c then setCreate None s else s)"

section \<open>The layer\<close>

datatype layer = PaletteLayer "string option" | OtherLayer nat

record layer_state =
  ls_layer :: "layer option"
  ls_openedBy :: "nat option"

definition openLayer :: "layer \<Rightarrow> nat option \<Rightarrow> layer_state \<Rightarrow> layer_state" where
  "openLayer content active s =
    \<lparr>ls_layer = Some content, ls_openedBy = (if ls_layer s = None then active else ls_openedBy s)\<rparr>"

text \<open>The state, and the element focused.\<close>

definition closeLayer :: "layer_state \<Rightarrow> layer_state \<times> nat option" where
  "closeLayer s = (s\<lparr>ls_layer := None, ls_openedBy := None\<rparr>, ls_openedBy s)"

definition isPaletteOpen :: "layer_state \<Rightarrow> bool" where
  "isPaletteOpen s \<longleftrightarrow> (case ls_layer s of Some (PaletteLayer _) \<Rightarrow> True | _ \<Rightarrow> False)"

section \<open>The search\<close>

text \<open>\<open>sr_pending\<close> are the sources that promised: a promise is its place in this list.\<close>

record search_run =
  sr_key :: string
  sr_sync :: "(string, palette_item list) js_map"
  sr_pending :: "string list"

text \<open>The runs begun so far: the last is the one on screen, the others are aborted.\<close>

record search_state =
  se_runs :: "search_run list"
  se_lateKey :: string
  se_lateItems :: "(string, palette_item list) js_map"

record search_group =
  sg_source :: palette_source
  sg_items :: "palette_item list"

definition NUL :: char where
  "NUL = CHR 0x00"

definition search_key :: "palette_source list \<Rightarrow> string \<Rightarrow> bool \<Rightarrow> string" where
  "search_key sources query scoped =
    join ''|'' (map so_id sources) @ NUL # (if scoped then ''true'' else ''false'') @ NUL # query"

definition begin_run :: "palette_env \<Rightarrow> palette_source list \<Rightarrow> string \<Rightarrow> bool \<Rightarrow> search_run" where
  "begin_run env sources query scoped =
    foldl (\<lambda>r source. case pe_search env (so_search source) query scoped of
        Some items \<Rightarrow> r\<lparr>sr_sync := js_set (so_id source) items (sr_sync r)\<rparr>
      | None \<Rightarrow> r\<lparr>sr_pending := sr_pending r @ [so_id source]\<rparr>)
      \<lparr>sr_key = search_key sources query scoped, sr_sync = [], sr_pending = []\<rparr> sources"

definition new_search :: "palette_env \<Rightarrow> palette_source list \<Rightarrow> string \<Rightarrow> bool \<Rightarrow> search_state" where
  "new_search env sources query scoped =
    \<lparr>se_runs = [begin_run env sources query scoped], se_lateKey = [], se_lateItems = []\<rparr>"

text \<open>A new run only for a new key; the effect's cleanup aborts the one before.\<close>

definition render_search ::
  "palette_env \<Rightarrow> palette_source list \<Rightarrow> string \<Rightarrow> bool \<Rightarrow> search_state \<Rightarrow> search_state" where
  "render_search env sources query scoped s =
    (if sr_key (last (se_runs s)) \<noteq> search_key sources query scoped
     then s\<lparr>se_runs := se_runs s @ [begin_run env sources query scoped]\<rparr> else s)"

text \<open>The promise \<open>i\<close> of the run \<open>r\<close> is kept: ignored when the run is aborted.\<close>

definition source_answered :: "nat \<Rightarrow> nat \<Rightarrow> palette_item list \<Rightarrow> search_state \<Rightarrow> search_state" where
  "source_answered r i items s =
    (if Suc r \<noteq> length (se_runs s) \<or> length (sr_pending (se_runs s ! r)) \<le> i then s
     else (let run = se_runs s ! r
       in s\<lparr>se_lateKey := sr_key run,
            se_lateItems := js_set (sr_pending run ! i) items
              (if se_lateKey s = sr_key run then se_lateItems s else [])\<rparr>))"

definition source_items :: "palette_source list \<Rightarrow> string \<Rightarrow> bool \<Rightarrow> search_state \<Rightarrow> palette_source \<Rightarrow> palette_item list" where
  "source_items sources query scoped s source =
    (case js_get (sr_sync (last (se_runs s))) (so_id source) of
      Some items \<Rightarrow> items
    | None \<Rightarrow>
        (case (if se_lateKey s = search_key sources query scoped then js_get (se_lateItems s) (so_id source) else None) of
          Some items \<Rightarrow> items | None \<Rightarrow> []))"

definition search_groups :: "palette_source list \<Rightarrow> string \<Rightarrow> bool \<Rightarrow> nat \<Rightarrow> search_state \<Rightarrow> search_group list" where
  "search_groups sources query scoped limit s =
    filter (\<lambda>g. sg_items g \<noteq> [])
      (map (\<lambda>source. \<lparr>sg_source = source, sg_items = take limit (source_items sources query scoped s source)\<rparr>) sources)"

section \<open>The palette\<close>

definition MIXED_LIMIT :: nat where
  "MIXED_LIMIT = 5"

definition SCOPED_LIMIT :: nat where
  "SCOPED_LIMIT = 50"

definition CREATE_SOURCE_ID :: string where
  "CREATE_SOURCE_ID = NUL # ''create''"

record palette_view =
  pv_query :: string
  pv_scope :: "palette_source option"
  pv_steps :: "palette_source list"
  pv_confirming :: "palette_item option"
  pv_confirmCursor :: nat
  pv_cursor :: nat
  pv_search :: search_state

datatype palette_effect =
  FocusReturned nat
| OpenedTab string
| Navigated string
| Assigned string
| Selected palette_item

text \<open>The store, what the registered boxes hold, the layer, the palette while it is mounted, what it did.\<close>

record palette_app =
  pp_store :: palette_store
  pp_box :: "nat \<Rightarrow> palette_source"
  pp_layer :: layer_state
  pp_view :: "palette_view option"
  pp_effects :: "palette_effect list"

definition registered :: "palette_app \<Rightarrow> palette_source list" where
  "registered a = map (pp_box a) (ps_sources (pp_store a))"

definition starts_with :: "string \<Rightarrow> string \<Rightarrow> bool" where
  "starts_with value p \<longleftrightarrow> take (length p) value = p"

definition splitPrefix :: "string \<Rightarrow> palette_source list \<Rightarrow> palette_source option \<times> string" where
  "splitPrefix value sources =
    (case find (\<lambda>source. truthy (so_prefix source) \<and> starts_with value (the (so_prefix source))) sources of
      Some source \<Rightarrow> (Some source, drop (length (the (so_prefix source))) value)
    | None \<Rightarrow> (None, value))"

definition narrowed :: "palette_view \<Rightarrow> palette_source option" where
  "narrowed v = (if pv_steps v \<noteq> [] then Some (last (pv_steps v)) else pv_scope v)"

definition active_sources :: "palette_app \<Rightarrow> palette_view \<Rightarrow> palette_source list" where
  "active_sources a v = (case narrowed v of Some source \<Rightarrow> [source] | None \<Rightarrow> registered a)"

definition palette_groups :: "palette_app \<Rightarrow> palette_view \<Rightarrow> search_group list" where
  "palette_groups a v =
    search_groups (active_sources a v) (pv_query v) (narrowed v \<noteq> None)
      (if narrowed v \<noteq> None then SCOPED_LIMIT else MIXED_LIMIT) (pv_search v)"

definition createItems :: "palette_env \<Rightarrow> palette_app \<Rightarrow> palette_view \<Rightarrow> palette_item list" where
  "createItems env a v =
    (if narrowed v = None \<and> trim (pv_query v) \<noteq> []
     then (case ps_create (pp_store a) of Some c \<Rightarrow> pe_create env c (trim (pv_query v)) | None \<Rightarrow> []) else [])"

definition allGroups :: "palette_env \<Rightarrow> palette_app \<Rightarrow> palette_view \<Rightarrow> search_group list" where
  "allGroups env a v =
    palette_groups a v @
    (if createItems env a v \<noteq> []
     then [\<lparr>sg_source = Source CREATE_SOURCE_ID ''Create'' None 0, sg_items = createItems env a v\<rparr>] else [])"

definition palette_rows :: "palette_env \<Rightarrow> palette_app \<Rightarrow> palette_view \<Rightarrow> palette_item list" where
  "palette_rows env a v = concat (map sg_items (allGroups env a v))"

definition selectable :: "palette_env \<Rightarrow> palette_app \<Rightarrow> palette_view \<Rightarrow> palette_item list" where
  "selectable env a v = filter (\<lambda>item. pi_disabledReason item = None) (palette_rows env a v)"

text \<open>The place among the selectable rows of the row under the cursor.\<close>

definition current_row :: "palette_env \<Rightarrow> palette_app \<Rightarrow> palette_view \<Rightarrow> nat option" where
  "current_row env a v =
    (let count = length (selectable env a v)
     in if 0 < count then Some (min (pv_cursor v) (count - 1)) else None)"

section \<open>What the user does\<close>

definition show_view :: "palette_view \<Rightarrow> palette_app \<Rightarrow> palette_app" where
  "show_view v a = a\<lparr>pp_view := Some v\<rparr>"

definition palette_effects :: "palette_effect list \<Rightarrow> palette_app \<Rightarrow> palette_app" where
  "palette_effects es a = a\<lparr>pp_effects := pp_effects a @ es\<rparr>"

definition palette_render :: "palette_env \<Rightarrow> palette_app \<Rightarrow> palette_app" where
  "palette_render env a =
    (case pp_view a of
      None \<Rightarrow> a
    | Some v \<Rightarrow> show_view (v\<lparr>pv_search :=
        render_search env (active_sources a v) (pv_query v) (narrowed v \<noteq> None) (pv_search v)\<rparr>) a)"

definition close_app_layer :: "palette_app \<Rightarrow> palette_app" where
  "close_app_layer a =
    (let (l, focused) = closeLayer (pp_layer a)
     in palette_effects (case focused of Some e \<Rightarrow> [FocusReturned e] | None \<Rightarrow> []) (a\<lparr>pp_layer := l, pp_view := None\<rparr>))"

definition mount_palette :: "palette_env \<Rightarrow> string option \<Rightarrow> palette_app \<Rightarrow> palette_view" where
  "mount_palette env initialQuery a =
    (let (scope, query) = splitPrefix (case initialQuery of Some q \<Rightarrow> q | None \<Rightarrow> []) (registered a);
         sources = (case scope of Some source \<Rightarrow> [source] | None \<Rightarrow> registered a)
     in \<lparr>pv_query = query, pv_scope = scope, pv_steps = [], pv_confirming = None, pv_confirmCursor = 0, pv_cursor = 0,
         pv_search = new_search env sources query (scope \<noteq> None)\<rparr>)"

definition palette_open :: "palette_env \<Rightarrow> string option \<Rightarrow> nat option \<Rightarrow> palette_app \<Rightarrow> palette_app" where
  "palette_open env initialQuery active a =
    (if isPaletteOpen (pp_layer a) then a
     else show_view (mount_palette env initialQuery a)
       (a\<lparr>pp_layer := openLayer (PaletteLayer initialQuery) active (pp_layer a)\<rparr>))"

definition palette_close :: "palette_app \<Rightarrow> palette_app" where
  "palette_close a = (if isPaletteOpen (pp_layer a) then close_app_layer a else a)"

definition palette_toggle :: "palette_env \<Rightarrow> nat option \<Rightarrow> palette_app \<Rightarrow> palette_app" where
  "palette_toggle env active a =
    (if isPaletteOpen (pp_layer a) then palette_close a else palette_open env None active a)"

definition PALETTE_KEYS :: string where
  "PALETTE_KEYS = ''mod+k''"

text \<open>The listener of the whole app; the flag says that the press is a repetition of a held key.\<close>

definition listenPalette :: "palette_env \<Rightarrow> key_press \<Rightarrow> bool \<Rightarrow> nat option \<Rightarrow> palette_app \<Rightarrow> palette_app" where
  "listenPalette env e held active a =
    (if kp_prevented e \<or> held \<or> \<not> matchKeys PALETTE_KEYS (kp_event e) (pe_platform env) then a
     else palette_toggle env active a)"

definition changeQuery :: "string \<Rightarrow> palette_app \<Rightarrow> palette_view \<Rightarrow> palette_view" where
  "changeQuery value a v =
    (let (scope, query) = (if narrowed v \<noteq> None then (None, value) else splitPrefix value (registered a))
     in v\<lparr>pv_scope := (case scope of Some source \<Rightarrow> Some source | None \<Rightarrow> pv_scope v),
          pv_query := query, pv_cursor := 0\<rparr>)"

definition chosen_effects :: "palette_env \<Rightarrow> palette_item \<Rightarrow> bool \<Rightarrow> palette_effect list" where
  "chosen_effects env item newTab =
    (if truthy (pi_href item)
     then [if newTab then OpenedTab (the (pi_href item))
           else if pe_router env then Navigated (the (pi_href item)) else Assigned (the (pi_href item))]
     else []) @
    (if pi_onSelect item then [Selected item] else [])"

definition run_item :: "palette_env \<Rightarrow> palette_item \<Rightarrow> bool \<Rightarrow> palette_view \<Rightarrow> palette_app \<Rightarrow> palette_app" where
  "run_item env item newTab v a =
    (if pi_disabledReason item \<noteq> None then a
     else if pi_confirm item \<and> pv_confirming v = None
     then show_view (v\<lparr>pv_confirming := Some item, pv_confirmCursor := 0\<rparr>) a
     else (case pi_next item of
        Some source \<Rightarrow> show_view (v\<lparr>pv_steps := pv_steps v @ [source], pv_scope := None, pv_query := [], pv_cursor := 0\<rparr>) a
      | None \<Rightarrow> palette_effects (chosen_effects env item newTab) (close_app_layer a)))"

definition palette_back :: "palette_view \<Rightarrow> palette_app \<Rightarrow> palette_app" where
  "palette_back v a = show_view (v\<lparr>pv_confirming := None\<rparr>) a"

record palette_key =
  pk_key :: string
  pk_newTab :: bool
  pk_composing :: bool

text \<open>While the palette asks: the answer under the cursor, or back.\<close>

definition confirm_keydown :: "palette_env \<Rightarrow> string \<Rightarrow> palette_item \<Rightarrow> palette_view \<Rightarrow> palette_app \<Rightarrow> palette_app \<times> bool" where
  "confirm_keydown env key item v a =
    (if key = ''ArrowDown'' \<or> key = ''ArrowUp''
     then (show_view (v\<lparr>pv_confirmCursor := (if pv_confirmCursor v = 0 then 1 else 0)\<rparr>) a, True)
     else if key = ''Enter''
     then (if pv_confirmCursor v = 1 then run_item env item False v a else palette_back v a, True)
     else if key = ''Escape'' then (palette_back v a, True)
     else (a, key = ''Tab''))"

definition moved_cursor :: "bool \<Rightarrow> nat \<Rightarrow> nat \<Rightarrow> nat" where
  "moved_cursor down index many = (if down then index + 1 + many else index + many - 1) mod many"

definition list_keydown :: "palette_env \<Rightarrow> palette_key \<Rightarrow> palette_view \<Rightarrow> palette_app \<Rightarrow> palette_app \<times> bool" where
  "list_keydown env k v a =
    (let key = pk_key k;
         rows = selectable env a v;
         many = length rows;
         index = (case current_row env a v of Some i \<Rightarrow> i | None \<Rightarrow> 0)
     in if key = ''ArrowDown'' \<or> key = ''ArrowUp''
        then (if 0 < many then show_view (v\<lparr>pv_cursor := moved_cursor (key = ''ArrowDown'') index many\<rparr>) a else a, True)
        else if key = ''Home'' then (show_view (v\<lparr>pv_cursor := 0\<rparr>) a, True)
        else if key = ''End'' then (show_view (v\<lparr>pv_cursor := many - 1\<rparr>) a, True)
        else if key = ''Enter''
        then (case current_row env a v of Some i \<Rightarrow> run_item env (rows ! i) (pk_newTab k) v a | None \<Rightarrow> a, True)
        else if key = ''Escape''
        then (if pv_query v \<noteq> [] \<or> pv_scope v \<noteq> None
              then (show_view (v\<lparr>pv_query := [], pv_scope := None, pv_cursor := 0\<rparr>) a, True) else (a, False))
        else if key = ''Backspace''
        then (if pv_query v = [] \<and> (pv_scope v \<noteq> None \<or> pv_steps v \<noteq> [])
              then (show_view ((if pv_scope v \<noteq> None then v\<lparr>pv_scope := None\<rparr>
                                else v\<lparr>pv_steps := butlast (pv_steps v)\<rparr>)\<lparr>pv_cursor := 0\<rparr>) a, True)
              else (a, False))
        else (a, key = ''Tab''))"

definition palette_keydown :: "palette_env \<Rightarrow> palette_key \<Rightarrow> palette_view \<Rightarrow> palette_app \<Rightarrow> palette_app \<times> bool" where
  "palette_keydown env k v a =
    (if pk_composing k then (a, False)
     else (case pv_confirming v of
        Some item \<Rightarrow> confirm_keydown env (pk_key k) item v a
      | None \<Rightarrow> list_keydown env k v a))"

text \<open>A key the palette leaves: Esc goes on to the ladder, where the layer's own level closes it.\<close>

definition press_palette :: "palette_env \<Rightarrow> palette_key \<Rightarrow> palette_view \<Rightarrow> palette_app \<Rightarrow> palette_app" where
  "press_palette env k v a =
    (let (a', prevented) = palette_keydown env k v a
     in if \<not> prevented \<and> pk_key k = ''Escape'' then close_app_layer a' else a')"

text \<open>\<open>selectable.indexOf(row)\<close> of the row the pointer is over.\<close>

definition hover_row :: "palette_env \<Rightarrow> nat \<Rightarrow> palette_view \<Rightarrow> palette_app \<Rightarrow> palette_app" where
  "hover_row env i v a =
    (let rows = palette_rows env a v;
         place = length (filter (\<lambda>item. pi_disabledReason item = None) (take i rows))
     in if i < length rows \<and> pi_disabledReason (rows ! i) = None \<and> current_row env a v \<noteq> Some place
        then show_view (v\<lparr>pv_cursor := place\<rparr>) a else a)"

definition click_row :: "palette_env \<Rightarrow> nat \<Rightarrow> bool \<Rightarrow> palette_view \<Rightarrow> palette_app \<Rightarrow> palette_app" where
  "click_row env i newTab v a =
    (let rows = palette_rows env a v in if i < length rows then run_item env (rows ! i) newTab v a else a)"

definition click_confirm :: "palette_env \<Rightarrow> nat \<Rightarrow> palette_item \<Rightarrow> palette_view \<Rightarrow> palette_app \<Rightarrow> palette_app" where
  "click_confirm env i item v a = (if i = 1 then run_item env item False v a else palette_back v a)"

section \<open>Events\<close>

datatype palette_event =
  SourceAdded nat
| SourceRemoved nat
| BoxRefreshed nat palette_source
| CreateSet "nat option"
| CreateDropped nat
| PaletteOpened "string option" "nat option"
| PaletteClosed
| OtherOpened nat "nat option"
| AppKey key_press bool "nat option"
| QueryTyped string
| PaletteKey palette_key
| RowHovered nat
| RowClicked nat bool
| ConfirmHovered nat
| ConfirmClicked nat
| ScrimPressed
| SourceAnswered nat nat "palette_item list"

text \<open>What reaches the palette while it is mounted: its list or its question, never both.\<close>

definition view_event :: "palette_env \<Rightarrow> palette_event \<Rightarrow> palette_view \<Rightarrow> palette_app \<Rightarrow> palette_app" where
  "view_event env e v a =
    (case e of
      QueryTyped value \<Rightarrow> if pv_confirming v = None then show_view (changeQuery value a v) a else a
    | PaletteKey k \<Rightarrow> press_palette env k v a
    | RowHovered i \<Rightarrow> if pv_confirming v = None then hover_row env i v a else a
    | RowClicked i newTab \<Rightarrow> if pv_confirming v = None then click_row env i newTab v a else a
    | ConfirmHovered i \<Rightarrow> if pv_confirming v \<noteq> None \<and> i < 2 then show_view (v\<lparr>pv_confirmCursor := i\<rparr>) a else a
    | ConfirmClicked i \<Rightarrow> (case pv_confirming v of Some item \<Rightarrow> if i < 2 then click_confirm env i item v a else a | None \<Rightarrow> a)
    | ScrimPressed \<Rightarrow> close_app_layer a
    | SourceAnswered r i items \<Rightarrow> show_view (v\<lparr>pv_search := source_answered r i items (pv_search v)\<rparr>) a
    | _ \<Rightarrow> a)"

definition app_event :: "palette_env \<Rightarrow> palette_event \<Rightarrow> palette_app \<Rightarrow> palette_app" where
  "app_event env e a =
    (case e of
      SourceAdded n \<Rightarrow> a\<lparr>pp_store := addSource n (pp_store a)\<rparr>
    | SourceRemoved n \<Rightarrow> a\<lparr>pp_store := removeSource n (pp_store a)\<rparr>
    | BoxRefreshed n source \<Rightarrow> a\<lparr>pp_box := (pp_box a)(n := source)\<rparr>
    | CreateSet c \<Rightarrow> a\<lparr>pp_store := setCreate c (pp_store a)\<rparr>
    | CreateDropped c \<Rightarrow> a\<lparr>pp_store := dropCreate c (pp_store a)\<rparr>
    | PaletteOpened q active \<Rightarrow> palette_open env q active a
    | PaletteClosed \<Rightarrow> palette_close a
    | OtherOpened n active \<Rightarrow> a\<lparr>pp_layer := openLayer (OtherLayer n) active (pp_layer a), pp_view := None\<rparr>
    | AppKey k held active \<Rightarrow> listenPalette env k held active a
    | _ \<Rightarrow> (case pp_view a of Some v \<Rightarrow> view_event env e v a | None \<Rightarrow> a))"

definition palette_step :: "palette_env \<Rightarrow> palette_app \<Rightarrow> palette_event \<Rightarrow> palette_app" where
  "palette_step env a e = palette_render env (app_event env e a)"

section \<open>What registers is taken back\<close>

interpretation palette_sources: disposable_stack ps_sources addSource removeSource
  by unfold_locales (simp_all add: addSource_def removeSource_def)

lemma screen_comes_and_goes:
  "n \<notin> set (ps_sources s) \<Longrightarrow> ps_sources (removeSource n (addSource n s)) = ps_sources s"
  by (rule palette_sources.dispose_push)

section \<open>Keys of a search\<close>

lemma split_at_mark:
  "us @ z # vs = us' @ z # vs' \<Longrightarrow> z \<notin> set us \<Longrightarrow> z \<notin> set us' \<Longrightarrow> us = us' \<and> vs = vs'"
proof (induction us arbitrary: us')
  case Nil
  then show ?case by (cases us') auto
next
  case (Cons u us)
  then show ?case by (cases us') auto
qed

lemma search_key_query:
  assumes same: "search_key xs q scoped = search_key ys q' scoped'"
    and "NUL \<notin> set (join ''|'' (map so_id xs))" and "NUL \<notin> set (join ''|'' (map so_id ys))"
  shows "q = q' \<and> scoped = scoped' \<and> join ''|'' (map so_id xs) = join ''|'' (map so_id ys)"
proof -
  have word: "NUL \<notin> set (if b then ''true'' else ''false'')" for b :: bool
    by (simp add: NUL_def)
  note parts = split_at_mark [OF same [unfolded search_key_def] assms(2,3)]
  have "(if scoped then ''true'' else ''false'') = (if scoped' then ''true'' else ''false'') \<and> q = q'"
    using parts by (intro split_at_mark [OF _ word word]) simp
  then show ?thesis using parts by (auto split: if_splits)
qed

section \<open>What is on screen answers the query\<close>

definition answers_to :: "(string \<Rightarrow> palette_item list \<Rightarrow> bool) \<Rightarrow> search_state \<Rightarrow> bool" where
  "answers_to good s \<longleftrightarrow>
    se_runs s \<noteq> [] \<and>
    (\<forall>r\<in>set (se_runs s). \<forall>(i, items)\<in>set (sr_sync r). good (sr_key r) items) \<and>
    (\<forall>(i, items)\<in>set (se_lateItems s). good (se_lateKey s) items)"

text \<open>The sources answer for the key they were asked for, at once or later.\<close>

definition sync_good :: "palette_env \<Rightarrow> (string \<Rightarrow> palette_item list \<Rightarrow> bool) \<Rightarrow> bool" where
  "sync_good env good \<longleftrightarrow>
    (\<forall>sources source q scoped items. source \<in> set sources \<longrightarrow> pe_search env (so_search source) q scoped = Some items \<longrightarrow>
      good (search_key sources q scoped) items)"

definition late_good :: "(string \<Rightarrow> palette_item list \<Rightarrow> bool) \<Rightarrow> palette_app \<Rightarrow> palette_event \<Rightarrow> bool" where
  "late_good good a e \<longleftrightarrow>
    (case (e, pp_view a) of
      (SourceAnswered r i items, Some v) \<Rightarrow>
        r < length (se_runs (pv_search v)) \<longrightarrow> good (sr_key (se_runs (pv_search v) ! r)) items
    | _ \<Rightarrow> True)"

lemma begin_run_good:
  assumes "sync_good env good"
  shows "sr_key (begin_run env sources q scoped) = search_key sources q scoped \<and>
    (\<forall>(i, items)\<in>set (sr_sync (begin_run env sources q scoped)). good (search_key sources q scoped) items)"
proof -
  let ?f = "\<lambda>r source. case pe_search env (so_search source) q scoped of
        Some items \<Rightarrow> r\<lparr>sr_sync := js_set (so_id source) items (sr_sync r)\<rparr>
      | None \<Rightarrow> r\<lparr>sr_pending := sr_pending r @ [so_id source]\<rparr>"
  let ?ok = "\<lambda>r :: search_run. sr_key r = search_key sources q scoped \<and>
      (\<forall>(i, items)\<in>set (sr_sync r). good (search_key sources q scoped) items)"
  have one: "?ok r \<Longrightarrow> source \<in> set sources \<Longrightarrow> ?ok (?f r source)" for r source
    using assms by (auto simp: sync_good_def split: option.splits dest!: js_set_memD)
  show ?thesis unfolding begin_run_def by (rule foldl_keeps [where P = ?ok]) (simp, rule one)
qed

lemma new_search_good: "sync_good env good \<Longrightarrow> answers_to good (new_search env sources q scoped)"
  using begin_run_good [of env good sources q scoped] by (simp add: answers_to_def new_search_def)

lemma render_search_good:
  assumes "sync_good env good" and "answers_to good s"
  shows "answers_to good (render_search env sources q scoped s) \<and>
    sr_key (last (se_runs (render_search env sources q scoped s))) = search_key sources q scoped"
  using assms begin_run_good [OF assms(1), of sources q scoped] by (simp add: answers_to_def render_search_def)

lemma source_answered_good:
  assumes "answers_to good s" and "r < length (se_runs s) \<longrightarrow> good (sr_key (se_runs s ! r)) items"
  shows "answers_to good (source_answered r i items s)"
proof -
  show ?thesis using assms
    by (auto simp: answers_to_def source_answered_def Let_def dest!: js_set_memD split: if_splits)
qed

lemma source_items_good:
  assumes "answers_to good s" and "sr_key (last (se_runs s)) = search_key sources q scoped"
    and "source_items sources q scoped s source \<noteq> []"
  shows "good (search_key sources q scoped) (source_items sources q scoped s source)"
proof -
  have "last (se_runs s) \<in> set (se_runs s)" using assms(1) by (simp add: answers_to_def)
  then show ?thesis using assms
    by (fastforce simp: answers_to_def source_items_def split: option.splits if_splits dest!: js_get_SomeD)
qed

definition view_ok :: "(string \<Rightarrow> palette_item list \<Rightarrow> bool) \<Rightarrow> palette_view \<Rightarrow> bool" where
  "view_ok good v \<longleftrightarrow>
    answers_to good (pv_search v) \<and>
    (\<forall>item. pv_confirming v = Some item \<longrightarrow> pi_disabledReason item = None \<and> pi_confirm item)"

definition palette_ok :: "(string \<Rightarrow> palette_item list \<Rightarrow> bool) \<Rightarrow> palette_app \<Rightarrow> bool" where
  "palette_ok good a \<longleftrightarrow>
    (case pp_view a of None \<Rightarrow> \<not> isPaletteOpen (pp_layer a) | Some v \<Rightarrow> isPaletteOpen (pp_layer a) \<and> view_ok good v)"

definition on_screen :: "palette_app \<Rightarrow> bool" where
  "on_screen a \<longleftrightarrow> (\<forall>v. pp_view a = Some v \<longrightarrow>
    sr_key (last (se_runs (pv_search v))) = search_key (active_sources a v) (pv_query v) (narrowed v \<noteq> None))"

lemma close_layer_ok: "palette_ok good (close_app_layer a)"
  by (simp add: palette_ok_def close_app_layer_def closeLayer_def isPaletteOpen_def palette_effects_def Let_def)

lemma close_layer_none: "ls_layer (pp_layer (close_app_layer a)) = None \<and> pp_view (close_app_layer a) = None"
  by (simp add: close_app_layer_def closeLayer_def palette_effects_def Let_def)

lemma effects_ok [simp]: "palette_ok good (palette_effects es a) = palette_ok good a"
  by (simp add: palette_ok_def palette_effects_def split: option.split)

lemma show_view_ok: "palette_ok good a \<Longrightarrow> pp_view a = Some v \<Longrightarrow> view_ok good v' \<Longrightarrow> palette_ok good (show_view v' a)"
  by (simp add: palette_ok_def show_view_def)

lemma ok_viewD: "palette_ok good a \<Longrightarrow> pp_view a = Some v \<Longrightarrow> view_ok good v"
  by (simp add: palette_ok_def)

lemma view_ok_update:
  "view_ok good v \<Longrightarrow> pv_search v' = pv_search v \<Longrightarrow> pv_confirming v' = pv_confirming v \<or> pv_confirming v' = None \<Longrightarrow>
    view_ok good v'"
  by (auto simp: view_ok_def)

lemma run_item_ok:
  assumes "palette_ok good a" and "pp_view a = Some v"
  shows "palette_ok good (run_item env item newTab v a)"
proof -
  have "view_ok good (v\<lparr>pv_confirming := Some item, pv_confirmCursor := 0\<rparr>)"
    if "pi_disabledReason item = None" "pi_confirm item"
    using that ok_viewD [OF assms] by (simp add: view_ok_def)
  moreover have "view_ok good (v\<lparr>pv_steps := ss, pv_scope := None, pv_query := [], pv_cursor := 0\<rparr>)" for ss
    using ok_viewD [OF assms] by (rule view_ok_update) simp_all
  ultimately show ?thesis
    using assms by (auto simp: run_item_def close_layer_ok intro: show_view_ok split: option.split)
qed

lemma back_ok: "palette_ok good a \<Longrightarrow> pp_view a = Some v \<Longrightarrow> palette_ok good (palette_back v a)"
  unfolding palette_back_def by (rule show_view_ok, assumption+, rule view_ok_update [OF ok_viewD], assumption+) simp_all

lemma same_search_ok:
  "palette_ok good a \<Longrightarrow> pp_view a = Some v \<Longrightarrow> pv_search v' = pv_search v \<Longrightarrow>
    pv_confirming v' = pv_confirming v \<Longrightarrow> palette_ok good (show_view v' a)"
  by (rule show_view_ok, assumption+, rule view_ok_update [OF ok_viewD], assumption+) simp_all

lemma keydown_ok:
  assumes "palette_ok good a" and "pp_view a = Some v"
  shows "palette_ok good (fst (palette_keydown env k v a))"
proof -
  note kept = same_search_ok [OF assms] run_item_ok [OF assms] back_ok [OF assms]
  have "palette_ok good (fst (confirm_keydown env key item v a))" for key item
    using kept assms(1) by (simp add: confirm_keydown_def)
  moreover have "palette_ok good (fst (list_keydown env k v a))"
    using kept assms(1) by (simp add: list_keydown_def Let_def split: option.split)
  ultimately show ?thesis
    using assms(1) by (simp add: palette_keydown_def split: option.split)
qed

lemma press_ok: "palette_ok good a \<Longrightarrow> pp_view a = Some v \<Longrightarrow> palette_ok good (press_palette env k v a)"
  using keydown_ok [of good a v env k] by (simp add: press_palette_def Let_def case_prod_beta close_layer_ok)

lemma view_event_ok:
  assumes "palette_ok good a" and "pp_view a = Some v" and "late_good good a e"
  shows "palette_ok good (view_event env e v a)"
proof -
  note kept = same_search_ok [OF assms(1,2)] run_item_ok [OF assms(1,2)] back_ok [OF assms(1,2)]
    press_ok [OF assms(1,2)] close_layer_ok
  have "palette_ok good (show_view (v\<lparr>pv_search := source_answered r i items (pv_search v)\<rparr>) a)"
    if "e = SourceAnswered r i items" for r i items
    using assms that source_answered_good [of good "pv_search v" r items i] ok_viewD [OF assms(1,2)]
    by (intro show_view_ok) (simp_all add: view_ok_def late_good_def)
  moreover have "palette_ok good (show_view (changeQuery value a v) a)" for "value"
    by (rule kept(1)) (simp_all add: changeQuery_def case_prod_beta Let_def)
  ultimately show ?thesis
    using kept assms(1)
    by (cases e) (simp_all add: view_event_def hover_row_def click_row_def click_confirm_def Let_def split: option.split)
qed

lemma mount_ok: "sync_good env good \<Longrightarrow> view_ok good (mount_palette env q a)"
  by (simp add: mount_palette_def view_ok_def new_search_good case_prod_beta Let_def)

lemma open_ok: "sync_good env good \<Longrightarrow> palette_ok good a \<Longrightarrow> palette_ok good (palette_open env q active a)"
  using mount_ok [of env good q a]
  by (simp add: palette_open_def show_view_def palette_ok_def openLayer_def isPaletteOpen_def)

lemma close_palette_ok: "palette_ok good a \<Longrightarrow> palette_ok good (palette_close a)"
  by (simp add: palette_close_def close_layer_ok)

lemma toggle_ok: "sync_good env good \<Longrightarrow> palette_ok good a \<Longrightarrow> palette_ok good (palette_toggle env active a)"
  by (simp add: palette_toggle_def open_ok close_palette_ok)

lemma app_event_ok:
  assumes "sync_good env good" and "palette_ok good a" and "late_good good a e"
  shows "palette_ok good (app_event env e a)"
proof -
  have "palette_ok good (case pp_view a of Some v \<Rightarrow> view_event env e v a | None \<Rightarrow> a)"
    using assms by (simp add: view_event_ok split: option.split)
  moreover have "palette_ok good (a\<lparr>pp_store := st\<rparr>) = palette_ok good a"
    and "palette_ok good (a\<lparr>pp_box := b\<rparr>) = palette_ok good a"
    and "palette_ok good (a\<lparr>pp_layer := openLayer (OtherLayer n) x l, pp_view := None\<rparr>)" for st b n x l
    by (simp_all add: palette_ok_def openLayer_def isPaletteOpen_def split: option.split)
  ultimately show ?thesis
    using assms(2) open_ok [OF assms(1,2)] toggle_ok [OF assms(1,2)] close_palette_ok [OF assms(2)]
    by (cases e; hypsubst) (simp_all add: app_event_def listenPalette_def)
qed

lemma render_ok:
  assumes "sync_good env good" and "palette_ok good a"
  shows "palette_ok good (palette_render env a) \<and> on_screen (palette_render env a)"
proof (cases "pp_view a")
  case None
  then show ?thesis using assms(2) by (simp add: palette_render_def on_screen_def)
next
  case (Some v)
  let ?s = "render_search env (active_sources a v) (pv_query v) (narrowed v \<noteq> None) (pv_search v)"
  note view = ok_viewD [OF assms(2) Some]
  then have new: "answers_to good ?s"
    "sr_key (last (se_runs ?s)) = search_key (active_sources a v) (pv_query v) (narrowed v \<noteq> None)"
    using render_search_good [OF assms(1)] by (simp_all add: view_ok_def)
  have same: "narrowed (v\<lparr>pv_search := s\<rparr>) = narrowed v" for s by (simp add: narrowed_def)
  have "active_sources (show_view w a) (v\<lparr>pv_search := s\<rparr>) = active_sources a v" for w s
    by (simp add: active_sources_def same registered_def show_view_def split: option.split)
  then have "on_screen (palette_render env a)"
    using Some new(2) by (simp add: palette_render_def on_screen_def show_view_def same)
  moreover have "palette_ok good (palette_render env a)"
    using Some new(1) view assms(2) by (simp add: palette_render_def show_view_ok view_ok_def)
  ultimately show ?thesis by simp
qed

definition palette_inv :: "palette_env \<Rightarrow> (string \<Rightarrow> palette_item list \<Rightarrow> bool) \<Rightarrow> palette_app \<Rightarrow> bool" where
  "palette_inv env good a \<longleftrightarrow> sync_good env good \<and> palette_ok good a \<and> on_screen a"

interpretation palette: event_machine "palette_step env" "late_good good" "palette_inv env good" for env good
  by unfold_locales (use render_ok [OF _ app_event_ok] in \<open>auto simp: palette_inv_def palette_step_def\<close>)

definition new_palette_app :: "(nat \<Rightarrow> palette_source) \<Rightarrow> palette_app" where
  "new_palette_app box =
    \<lparr>pp_store = \<lparr>ps_sources = [], ps_create = None\<rparr>, pp_box = box, pp_layer = \<lparr>ls_layer = None, ls_openedBy = None\<rparr>,
     pp_view = None, pp_effects = []\<rparr>"

lemma new_palette_inv: "sync_good env good \<Longrightarrow> palette_inv env good (new_palette_app box)"
  by (simp add: palette_inv_def palette_ok_def on_screen_def new_palette_app_def isPaletteOpen_def)

lemma groups_good:
  assumes "palette_inv env good a" and "pp_view a = Some v" and "g \<in> set (palette_groups a v)"
  shows "\<exists>items. good (search_key (active_sources a v) (pv_query v) (narrowed v \<noteq> None)) items \<and>
    sg_items g = take (if narrowed v \<noteq> None then SCOPED_LIMIT else MIXED_LIMIT) items"
proof -
  have ok: "answers_to good (pv_search v)" 
    "sr_key (last (se_runs (pv_search v))) = search_key (active_sources a v) (pv_query v) (narrowed v \<noteq> None)"
    using assms(1,2) by (auto simp: palette_inv_def palette_ok_def view_ok_def on_screen_def)
  obtain source where "sg_items g \<noteq> []" and "sg_items g = take (if narrowed v \<noteq> None then SCOPED_LIMIT else MIXED_LIMIT)
      (source_items (active_sources a v) (pv_query v) (narrowed v \<noteq> None) (pv_search v) source)"
    using assms(3) by (auto simp: palette_groups_def search_groups_def)
  then show ?thesis using source_items_good [OF ok] by (metis take_Nil)
qed

lemma any_events_admissible: "admissible (palette_step env) (late_good (\<lambda>_ _. True)) a es"
  by (induction es arbitrary: a) (simp_all add: late_good_def split: palette_event.split option.split)

lemma reachable_ok: "palette_ok (\<lambda>_ _. True) (foldl (palette_step env) (new_palette_app box) es)"
  using palette.run_inv [OF new_palette_inv any_events_admissible] by (simp add: palette_inv_def sync_good_def)

text \<open>
  C31: Every group on screen answers what is typed now. Whatever the screens register and the user does, the
  items of a group are the first of what a source answered for the key of the search on screen: the
  active sources, whether the search is narrowed, and the query. An answer that comes after the query
  changed is never shown for another query.
\<close>

theorem palette_shows_this_query:
  assumes "sync_good env good"
    and "admissible (palette_step env) (late_good good) (new_palette_app box) es"
    and "pp_view (foldl (palette_step env) (new_palette_app box) es) = Some v"
    and "g \<in> set (palette_groups (foldl (palette_step env) (new_palette_app box) es) v)"
  shows "\<exists>items. good (search_key (active_sources (foldl (palette_step env) (new_palette_app box) es) v)
        (pv_query v) (narrowed v \<noteq> None)) items \<and>
      sg_items g = take (if narrowed v \<noteq> None then SCOPED_LIMIT else MIXED_LIMIT) items"
  using palette.run_inv [OF new_palette_inv [OF assms(1)] assms(2)] assms(3,4) by (rule groups_good)

definition echo_env :: palette_env where
  "echo_env = \<lparr>pe_search = (\<lambda>n q _. if n = 0 then Some [Item ''now'' q None None False None True] else None),
    pe_create = (\<lambda>_ _. []), pe_router = True, pe_platform = PlatformOther\<rparr>"

definition echoes :: "string \<Rightarrow> palette_item list \<Rightarrow> bool" where
  "echoes key items \<longleftrightarrow> list_all (\<lambda>item. drop (length key - Suc (length (pi_label item))) key = NUL # pi_label item) items"

definition late_item :: "string \<Rightarrow> palette_item" where
  "late_item q = Item ''late'' q None None False None True"

definition echo_box :: "nat \<Rightarrow> palette_source" where
  "echo_box n = (if n = 0 then Source ''c'' ''Cache'' None 0 else Source ''s'' ''Server'' None 1)"

text \<open>The answer for "a" comes twice: once in time, once when "ab" is typed already.\<close>

definition echo_events :: "palette_event list" where
  "echo_events = [SourceAdded 0, SourceAdded 1, PaletteOpened None None, QueryTyped ''a'',
    SourceAnswered 1 0 [late_item ''a''], QueryTyped ''ab'', SourceAnswered 1 0 [late_item ''a''],
    SourceAnswered 2 0 [late_item ''ab'']]"

lemma echo_sync: "sync_good echo_env echoes"
  by (auto simp: sync_good_def echo_env_def echoes_def search_key_def split: if_splits)

definition echo_app :: palette_app where
  "echo_app = foldl (palette_step echo_env) (new_palette_app echo_box) echo_events"

lemma echo_runs:
  "admissible (palette_step echo_env) (late_good echoes) (new_palette_app echo_box) echo_events"
  by code_simp

lemma echo_view: "map sg_items (palette_groups echo_app (the (pp_view echo_app))) =
    [[Item ''now'' ''ab'' None None False None True], [late_item ''ab'']]" "pp_view echo_app \<noteq> None"
  by code_simp+

theorem palette_shows_this_query_witness:
  "\<exists>items. echoes (search_key (active_sources echo_app (the (pp_view echo_app)))
        (pv_query (the (pp_view echo_app))) (narrowed (the (pp_view echo_app)) \<noteq> None)) items \<and>
      [late_item ''ab''] = take (if narrowed (the (pp_view echo_app)) \<noteq> None then SCOPED_LIMIT else MIXED_LIMIT) items"
proof -
  let ?gs = "palette_groups echo_app (the (pp_view echo_app))"
  have "length (map sg_items ?gs) = 2" "map sg_items ?gs ! 1 = [late_item ''ab'']"
    unfolding echo_view(1) by simp_all
  then have len: "1 < length ?gs" and items: "sg_items (?gs ! 1) = [late_item ''ab'']" by simp_all
  obtain v where v: "pp_view echo_app = Some v" using echo_view(2) by blast
  show ?thesis
    using palette_shows_this_query [OF echo_sync echo_runs v [unfolded echo_app_def], of "?gs ! 1"] len items v
    by (simp add: echo_app_def [symmetric])
qed

section \<open>What a choice does\<close>

text \<open>From one state to the next the palette only gives focus back, or an item's action runs as it closes.\<close>

definition quiet :: "palette_app \<Rightarrow> palette_app \<Rightarrow> bool" where
  "quiet a a' \<longleftrightarrow> (\<exists>f. pp_effects a' = pp_effects a @ map FocusReturned f)"

definition chose :: "palette_env \<Rightarrow> palette_item \<Rightarrow> palette_app \<Rightarrow> palette_app \<Rightarrow> bool" where
  "chose env item a a' \<longleftrightarrow>
    pi_disabledReason item = None \<and> pi_next item = None \<and> ls_layer (pp_layer a') = None \<and> pp_view a' = None \<and>
    (\<exists>f newTab. pp_effects a' = pp_effects a @ map FocusReturned f @ chosen_effects env item newTab)"

lemma quiet_same_app [simp]: "quiet a a"
  by (auto simp: quiet_def intro: exI [of _ "[]"])

lemma quiet_show [simp]: "quiet a (show_view v b) = quiet a b"
  by (simp add: quiet_def show_view_def)

lemma quiet_fields [simp]:
  "quiet a (b\<lparr>pp_store := st\<rparr>) = quiet a b" "quiet a (b\<lparr>pp_box := bx\<rparr>) = quiet a b"
  "quiet a (b\<lparr>pp_layer := l\<rparr>) = quiet a b" "quiet a (b\<lparr>pp_view := w\<rparr>) = quiet a b"
  by (simp_all add: quiet_def)

lemma close_effects: "\<exists>f. pp_effects (close_app_layer a) = pp_effects a @ map FocusReturned f"
proof (cases "ls_openedBy (pp_layer a)")
  case None
  then show ?thesis by (auto simp: close_app_layer_def closeLayer_def palette_effects_def intro: exI [of _ "[]"])
next
  case (Some e)
  then show ?thesis by (auto simp: close_app_layer_def closeLayer_def palette_effects_def intro: exI [of _ "[e]"])
qed

lemma quiet_close [simp]: "quiet a (close_app_layer a)"
  using close_effects by (simp add: quiet_def)

lemma quiet_palette_open [simp]: "quiet a (palette_open env q active a)"
  by (simp add: palette_open_def)

lemma quiet_palette_close [simp]: "quiet a (palette_close a)"
  by (simp add: palette_close_def)

lemma quiet_back [simp]: "quiet a (palette_back v a)"
  by (simp add: palette_back_def)

lemma chose_close:
  "pi_disabledReason item = None \<Longrightarrow> pi_next item = None \<Longrightarrow>
    chose env item a (palette_effects (chosen_effects env item newTab) (close_app_layer a))"
  using close_effects [of a] close_layer_none [of a] by (fastforce simp: chose_def palette_effects_def)

lemma run_item_effects:
  "quiet a (run_item env item newTab v a) \<or>
    chose env item a (run_item env item newTab v a) \<and> (pi_confirm item \<longrightarrow> pv_confirming v \<noteq> None)"
  using chose_close [of item env a newTab] by (auto simp: run_item_def split: option.split)

text \<open>The item was chosen: in the list, or by the answer to the question it asks.\<close>

definition was_chosen :: "palette_env \<Rightarrow> palette_app \<Rightarrow> palette_view \<Rightarrow> palette_event \<Rightarrow> palette_item \<Rightarrow> bool" where
  "was_chosen env a v e item \<longleftrightarrow>
    (if pv_confirming v = None then \<not> pi_confirm item \<and> item \<in> set (palette_rows env a v)
     else pv_confirming v = Some item \<and>
       (e = ConfirmClicked 1 \<or> (\<exists>k. e = PaletteKey k \<and> pk_key k = ''Enter'' \<and> pv_confirmCursor v = 1)))"

lemma current_in_rows: "current_row env a v = Some i \<Longrightarrow> selectable env a v ! i \<in> set (palette_rows env a v)"
proof -
  assume "current_row env a v = Some i"
  then have "i < length (selectable env a v)" by (auto simp: current_row_def Let_def simp del: length_greater_0_conv split: if_splits)
  then have "selectable env a v ! i \<in> set (selectable env a v)" by simp
  then show ?thesis by (auto simp: selectable_def)
qed

definition decided :: "palette_env \<Rightarrow> palette_app \<Rightarrow> palette_view \<Rightarrow> palette_event \<Rightarrow> palette_app \<Rightarrow> bool" where
  "decided env a v e a' \<longleftrightarrow> quiet a a' \<or> (\<exists>item. chose env item a a' \<and> was_chosen env a v e item)"

lemma decided_quiet: "quiet a a' \<Longrightarrow> decided env a v e a'"
  by (simp add: decided_def)

lemma run_row_decided:
  "pv_confirming v = None \<Longrightarrow> item \<in> set (palette_rows env a v) \<Longrightarrow> decided env a v e (run_item env item newTab v a)"
  using run_item_effects [of a env item newTab v] by (auto simp: decided_def was_chosen_def)

lemma run_confirmed_decided:
  "pv_confirming v = Some item \<Longrightarrow>
    e = ConfirmClicked 1 \<or> (\<exists>k. e = PaletteKey k \<and> pk_key k = ''Enter'' \<and> pv_confirmCursor v = 1) \<Longrightarrow>
    decided env a v e (run_item env item newTab v a)"
  using run_item_effects [of a env item newTab v] by (auto simp: decided_def was_chosen_def)

lemma list_keydown_decided:
  "pv_confirming v = None \<Longrightarrow> decided env a v e (fst (list_keydown env k v a))"
  by (auto simp: list_keydown_def Let_def current_in_rows decided_quiet run_row_decided split: option.split)

lemma confirm_keydown_decided:
  "pv_confirming v = Some item \<Longrightarrow> e = PaletteKey k \<Longrightarrow> decided env a v e (fst (confirm_keydown env (pk_key k) item v a))"
  by (auto simp: confirm_keydown_def decided_quiet run_confirmed_decided)

lemma escape_unprevented:
  "pk_key k = ''Escape'' \<Longrightarrow> snd (palette_keydown env k v a) = False \<Longrightarrow> fst (palette_keydown env k v a) = a"
  by (simp add: palette_keydown_def list_keydown_def confirm_keydown_def Let_def split: option.splits if_splits)

lemma keydown_decided: "decided env a v (PaletteKey k) (fst (palette_keydown env k v a))"
  by (simp add: palette_keydown_def list_keydown_decided confirm_keydown_decided decided_quiet split: option.split)

lemma press_decided: "decided env a v (PaletteKey k) (press_palette env k v a)"
proof (cases "pk_key k = ''Escape'' \<and> \<not> snd (palette_keydown env k v a)")
  case True
  then show ?thesis
    using escape_unprevented [of k env v a] by (simp add: press_palette_def Let_def case_prod_beta decided_quiet)
next
  case False
  then have "press_palette env k v a = fst (palette_keydown env k v a)"
    by (auto simp: press_palette_def Let_def case_prod_beta)
  then show ?thesis using keydown_decided by simp
qed

lemma view_event_decided: "decided env a v e (view_event env e v a)"
proof (cases e)
  case (PaletteKey k)
  then show ?thesis using press_decided by (simp add: view_event_def)
next
  case (RowClicked i newTab)
  then show ?thesis by (simp add: view_event_def click_row_def Let_def decided_quiet run_row_decided)
next
  case (ConfirmClicked i)
  then show ?thesis
    by (auto simp: view_event_def click_confirm_def decided_quiet run_confirmed_decided split: option.split)
qed (simp_all add: view_event_def hover_row_def Let_def decided_quiet)

lemma app_event_decided:
  "quiet a (app_event env e a) \<or> (\<exists>v. pp_view a = Some v \<and> decided env a v e (app_event env e a))"
  using view_event_decided [of env a _ e]
  by (cases e; cases "pp_view a") (simp_all add: app_event_def listenPalette_def palette_toggle_def)

lemma render_effects [simp]: "pp_effects (palette_render env a) = pp_effects a"
  "pp_layer (palette_render env a) = pp_layer a"
  by (simp_all add: palette_render_def show_view_def split: option.split)

text \<open>
  Nothing happens that was not chosen. If a step opens a page or calls an item's action, the item is not
  disabled, has no second step, and was chosen: as a row of the list, and then it asks for no confirmation, or
  by the confirming answer to its question (Enter on it, or a click). The layer is closed by then, so
  the action runs with focus back where it was.
\<close>

theorem palette_runs_only_chosen:
  assumes "x \<in> set (drop (length (pp_effects a)) (pp_effects (palette_step env a e)))"
    and "\<forall>el. x \<noteq> FocusReturned el"
  shows "\<exists>v item newTab. pp_view a = Some v \<and> was_chosen env a v e item \<and> pi_disabledReason item = None \<and>
    pi_next item = None \<and> x \<in> set (chosen_effects env item newTab) \<and>
    ls_layer (pp_layer (palette_step env a e)) = None"
proof -
  have "\<not> quiet a (app_event env e a)"
    using assms by (auto simp: quiet_def palette_step_def)
  then obtain v item where v: "pp_view a = Some v" and item: "chose env item a (app_event env e a)"
    and was: "was_chosen env a v e item"
    using app_event_decided [of a env e] by (auto simp: decided_def)
  from item assms obtain newTab where "x \<in> set (chosen_effects env item newTab)"
    by (auto simp: chose_def palette_step_def)
  with v was item show ?thesis by (auto simp: chose_def palette_step_def)
qed

definition delete_item :: palette_item where
  "delete_item = Item ''d'' ''Delete'' None None True None True"

definition delete_env :: palette_env where
  "delete_env = \<lparr>pe_search = (\<lambda>_ _ _. Some [delete_item]), pe_create = (\<lambda>_ _. []), pe_router = True,
    pe_platform = PlatformOther\<rparr>"

definition palette_press :: "string \<Rightarrow> palette_event" where
  "palette_press key = PaletteKey \<lparr>pk_key = key, pk_newTab = False, pk_composing = False\<rparr>"

definition asked_delete :: palette_app where
  "asked_delete = foldl (palette_step delete_env) (new_palette_app (\<lambda>_. Source ''c'' ''Commands'' None 0))
    [SourceAdded 0, PaletteOpened None (Some 7), palette_press ''Enter'', palette_press ''ArrowDown'']"

lemma delete_effects: "pp_effects asked_delete = []"
  "pp_effects (palette_step delete_env asked_delete (palette_press ''Enter'')) = [FocusReturned 7, Selected delete_item]"
  by code_simp+

theorem palette_runs_only_chosen_witness:
  "\<exists>v item newTab. pp_view asked_delete = Some v \<and>
    was_chosen delete_env asked_delete v (palette_press ''Enter'') item \<and> pi_disabledReason item = None \<and>
    pi_next item = None \<and> Selected delete_item \<in> set (chosen_effects delete_env item newTab) \<and>
    ls_layer (pp_layer (palette_step delete_env asked_delete (palette_press ''Enter''))) = None"
  by (rule palette_runs_only_chosen) (simp_all add: delete_effects)

section \<open>Out of the palette\<close>

lemma press_escape:
  assumes "pp_view a = Some v"
  shows "pp_view (palette_step env a (palette_press ''Escape'')) = None \<or>
    (\<exists>v'. pp_view (palette_step env a (palette_press ''Escape'')) = Some v' \<and> pv_confirming v' = None \<and>
      (pv_confirming v \<noteq> None \<or> pv_query v' = [] \<and> pv_scope v' = None \<and> (pv_query v \<noteq> [] \<or> pv_scope v \<noteq> None)))"
  using assms close_layer_none [of a]
  by (cases "pv_confirming v")
     (auto simp: palette_step_def palette_press_def app_event_def view_event_def press_palette_def palette_keydown_def
       confirm_keydown_def list_keydown_def palette_back_def show_view_def palette_render_def Let_def)

lemma closed_press: "pp_view a = None \<Longrightarrow> pp_view (palette_step env a (palette_press key)) = None"
  by (simp add: palette_step_def palette_press_def app_event_def palette_render_def)

lemma three_escapes: "pp_view (foldl (palette_step env) a (replicate 3 (palette_press ''Escape''))) = None"
proof -
  let ?s = "\<lambda>a. palette_step env a (palette_press ''Escape'')"
  have one: "pp_view (?s a) = None \<or> (\<exists>v. pp_view (?s a) = Some v \<and> pv_confirming v = None)" for a
    using press_escape [of a _ env] closed_press [of a env] by (cases "pp_view a") blast+
  have two: "pp_view (?s (?s a)) = None \<or>
      (\<exists>v. pp_view (?s (?s a)) = Some v \<and> pv_confirming v = None \<and> pv_query v = [] \<and> pv_scope v = None)"
    using one [of a] press_escape [of "?s a" _ env] closed_press [of "?s a" env] by metis
  have "pp_view (?s (?s (?s a))) = None"
    using two press_escape [of "?s (?s a)" _ env] closed_press [of "?s (?s a)" env] by metis
  then show ?thesis by (simp add: numeral_3_eq_3)
qed

text \<open>
  The palette can always be left: from any state that can arise, three presses of Esc close it. The first
  leaves the question that is asked, the second clears the field and what it is narrowed to, and the one with
  nothing to clear goes on to the Esc ladder, which closes the layer.
\<close>

theorem palette_escapes_close:
  "\<not> isPaletteOpen (pp_layer (foldl (palette_step env) (foldl (palette_step env) (new_palette_app box) es)
    (replicate 3 (palette_press ''Escape''))))"
proof -
  let ?es = "es @ replicate 3 (palette_press ''Escape'')"
  have "palette_ok (\<lambda>_ _. True) (foldl (palette_step env) (new_palette_app box) ?es)"
    by (rule reachable_ok)
  moreover have "pp_view (foldl (palette_step env) (new_palette_app box) ?es) = None"
    unfolding foldl_append by (rule three_escapes)
  ultimately show ?thesis by (simp add: palette_ok_def foldl_append)
qed

text \<open>
  An item may ask for a confirmation and have a second step. Confirming it opens the step, but the question
  stays on screen over it, and confirming again opens the step a second time.
\<close>

lemma confirmed_step_stays:
  assumes "pi_disabledReason item = None" and "pi_next item = Some source"
    and "pp_view a = Some v" and "pv_confirming v = Some item"
  shows "\<exists>v'. pp_view (palette_step env a (ConfirmClicked 1)) = Some v' \<and>
    pv_steps v' = pv_steps v @ [source] \<and> pv_confirming v' = Some item"
  using assms
  by (simp add: palette_step_def app_event_def view_event_def click_confirm_def run_item_def palette_render_def
    show_view_def)

end
