(* ===== verification/Realtime_Socket.thy ===== *)
theory Realtime_Socket
  imports Prelude
begin

text \<open>
  The app's socket (\<open>app/socket/socket.ts\<close>, \<open>app/socket/store.ts\<close>) and the signals that come over
  it (\<open>shared/realtime\<close>). Who wants a channel outlives the socket; the channels live on one socket
  only. The \<open>Set\<close> of a channel's subscribers is an object that disposers keep, so sets are numbered
  and live in a store; subscriptions, sockets and channels are numbered as well. Phoenix is not in
  the repository: the calls made to it are kept in order, the number \<open>channel.on\<close> answers with is a
  parameter of the calls made so far, and whether a channel has joined is an argument.
\<close>

section \<open>The state\<close>

datatype socket_status = SockConnected | SockConnecting | SockDisconnected

record subscription =
  sb_channel :: string
  sb_type :: string
  sb_onJoin :: bool
  sb_onError :: bool
  sb_ref :: "nat option"

datatype phoenix_call =
  SockConnect nat | SockDisconnect nat | ChanOpen nat string | ChanOn nat string nat nat | ChanJoin nat |
  ChanOff nat string nat | ChanLeave nat

datatype told = ToldJoin nat | ToldError nat

record socket_state =
  sk_socket :: "nat option"
  sk_sockets :: nat
  sk_status :: socket_status
  sk_token :: string
  sk_subscriptions :: "(string, nat) js_map"
  sk_sets :: "nat \<Rightarrow> nat list"
  sk_setCount :: nat
  sk_subs :: "nat \<Rightarrow> subscription"
  sk_subCount :: nat
  sk_channels :: "(string, nat) js_map"
  sk_channelCount :: nat
  sk_calls :: "phoenix_call list"
  sk_told :: "told list"

definition new_sockets :: socket_state where
  "new_sockets = \<lparr>sk_socket = None, sk_sockets = 0, sk_status = SockDisconnected, sk_token = [], sk_subscriptions = [],
    sk_sets = (\<lambda>_. []), sk_setCount = 0,
    sk_subs = (\<lambda>_. \<lparr>sb_channel = [], sb_type = [], sb_onJoin = False, sb_onError = False, sb_ref = None\<rparr>),
    sk_subCount = 0, sk_channels = [], sk_channelCount = 0, sk_calls = [], sk_told = []\<rparr>"

type_synonym on_result = "nat \<Rightarrow> phoenix_call list \<Rightarrow> nat"

section \<open>Channels\<close>

definition phoenix :: "phoenix_call \<Rightarrow> socket_state \<Rightarrow> socket_state" where
  "phoenix c s = s\<lparr>sk_calls := sk_calls s @ [c]\<rparr>"

definition bind_sub :: "on_result \<Rightarrow> nat \<Rightarrow> nat \<Rightarrow> socket_state \<Rightarrow> socket_state" where
  "bind_sub refs c k s =
    (let r = refs c (sk_calls s); sub = sk_subs s k
     in (phoenix (ChanOn c (sb_type sub) k r) s)\<lparr>sk_subs := (sk_subs s)(k := sub\<lparr>sb_ref := Some r\<rparr>)\<rparr>)"

definition wanted_by :: "socket_state \<Rightarrow> string \<Rightarrow> nat list" where
  "wanted_by s i = (case js_get (sk_subscriptions s) i of None \<Rightarrow> [] | Some w \<Rightarrow> sk_sets s w)"

definition open_channel :: "on_result \<Rightarrow> string \<Rightarrow> socket_state \<Rightarrow> socket_state" where
  "open_channel refs i s =
    (if sk_socket s = None \<or> js_has (sk_channels s) i \<or> wanted_by s i = [] then s
     else (let c = sk_channelCount s;
               s1 = (phoenix (ChanOpen c i) s)\<lparr>sk_channels := js_set i c (sk_channels s), sk_channelCount := Suc c\<rparr>
           in phoenix (ChanJoin c) (fold (bind_sub refs c) (wanted_by s i) s1)))"

text \<open>The answers of a channel go to who wants it when they come.\<close>

definition channel_joined :: "string \<Rightarrow> socket_state \<Rightarrow> socket_state" where
  "channel_joined i s = s\<lparr>sk_told := sk_told s @ map ToldJoin (filter (\<lambda>k. sb_onJoin (sk_subs s k)) (wanted_by s i))\<rparr>"

definition channel_error :: "string \<Rightarrow> socket_state \<Rightarrow> socket_state" where
  "channel_error i s = s\<lparr>sk_told := sk_told s @ map ToldError (filter (\<lambda>k. sb_onError (sk_subs s k)) (wanted_by s i))\<rparr>"

section \<open>The socket\<close>

definition init_socket :: "on_result \<Rightarrow> socket_state \<Rightarrow> socket_state" where
  "init_socket refs s =
    (if sk_socket s \<noteq> None then s
     else (let k = sk_sockets s;
               s1 = (phoenix (SockConnect k) s)\<lparr>sk_status := SockConnecting, sk_socket := Some k, sk_sockets := Suc k\<rparr>
           in fold (open_channel refs) (js_keys (sk_subscriptions s)) s1))"

definition socket_opened :: "nat \<Rightarrow> socket_state \<Rightarrow> socket_state" where
  "socket_opened k s = (if sk_socket s = Some k then s\<lparr>sk_status := SockConnected\<rparr> else s)"

definition socket_lost :: "nat \<Rightarrow> socket_state \<Rightarrow> socket_state" where
  "socket_lost k s = (if sk_socket s = Some k then s\<lparr>sk_status := SockConnecting\<rparr> else s)"

definition disconnect :: "socket_state \<Rightarrow> socket_state" where
  "disconnect s =
    (case sk_socket s of
      None \<Rightarrow> s
    | Some k \<Rightarrow> (phoenix (SockDisconnect k) s)\<lparr>sk_channels := [], sk_socket := None, sk_status := SockDisconnected\<rparr>)"

section \<open>Subscribing\<close>

definition set_for :: "string \<Rightarrow> socket_state \<Rightarrow> nat" where
  "set_for i s = (case js_get (sk_subscriptions s) i of Some w \<Rightarrow> w | None \<Rightarrow> sk_setCount s)"

definition add_wanted :: "subscription \<Rightarrow> socket_state \<Rightarrow> socket_state" where
  "add_wanted sub s =
    (let k = sk_subCount s; i = sb_channel sub; w = set_for i s
     in s\<lparr>sk_subs := (sk_subs s)(k := sub), sk_subCount := Suc k, sk_sets := (sk_sets s)(w := sk_sets s w @ [k]),
          sk_setCount := (if js_has (sk_subscriptions s) i then sk_setCount s else Suc (sk_setCount s)),
          sk_subscriptions := js_set i w (sk_subscriptions s)\<rparr>)"

definition subscribeToChannel ::
  "on_result \<Rightarrow> string \<Rightarrow> string \<Rightarrow> bool \<Rightarrow> bool \<Rightarrow> bool \<Rightarrow> socket_state \<Rightarrow> socket_state" where
  "subscribeToChannel refs i type onJoin onError joined s =
    (let sub = \<lparr>sb_channel = i, sb_type = type, sb_onJoin = onJoin, sb_onError = onError, sb_ref = None\<rparr>;
         k = sk_subCount s; s1 = add_wanted sub s
     in (case js_get (sk_channels s) i of
          None \<Rightarrow> open_channel refs i s1
        | Some c \<Rightarrow>
            (let s2 = bind_sub refs c k s1
             in if joined \<and> onJoin then s2\<lparr>sk_told := sk_told s2 @ [ToldJoin k]\<rparr> else s2)))"

text \<open>The disposer of subscription \<open>k\<close>, which has kept the set object \<open>w\<close> it was put into.\<close>

definition unsubscribe :: "nat \<Rightarrow> nat \<Rightarrow> socket_state \<Rightarrow> socket_state" where
  "unsubscribe w k s =
    (let sub = sk_subs s k; i = sb_channel sub; rest = filter (\<lambda>x. x \<noteq> k) (sk_sets s w);
         s1 = s\<lparr>sk_sets := (sk_sets s)(w := rest)\<rparr>; live = js_get (sk_channels s) i;
         s2 = (case (live, sb_ref sub) of (Some c, Some r) \<Rightarrow> phoenix (ChanOff c (sb_type sub) r) s1 | _ \<Rightarrow> s1)
     in if rest \<noteq> [] then s2
        else (let s3 = s2\<lparr>sk_subscriptions := js_del i (sk_subscriptions s2)\<rparr>
              in (case live of
                   None \<Rightarrow> s3
                 | Some c \<Rightarrow> (phoenix (ChanLeave c) s3)\<lparr>sk_channels := js_del i (sk_channels s3)\<rparr>)))"

section \<open>Following the session\<close>

record session_user =
  su_token :: string
  su_expired :: bool

definition sync :: "on_result \<Rightarrow> bool \<Rightarrow> session_user option \<Rightarrow> socket_state \<Rightarrow> socket_state" where
  "sync refs stopped user s =
    (if stopped then s
     else (case user of
        Some u \<Rightarrow> if su_expired u then disconnect (s\<lparr>sk_token := []\<rparr>) else init_socket refs (s\<lparr>sk_token := su_token u\<rparr>)
      | None \<Rightarrow> disconnect (s\<lparr>sk_token := []\<rparr>)))"

datatype socket_event =
  EvSubscribe string string bool bool bool
| EvUnsubscribe nat nat
| EvUser "session_user option"
| EvStop
| EvOpened nat
| EvLost nat
| EvJoined string
| EvChannelError string

text \<open>One run of \<open>startRealtime\<close>: its \<open>stopped\<close> flag and the module's state.\<close>

fun socket_step :: "on_result \<Rightarrow> bool \<times> socket_state \<Rightarrow> socket_event \<Rightarrow> bool \<times> socket_state" where
  "socket_step refs (stopped, s) (EvSubscribe i type oj oe joined) = (stopped, subscribeToChannel refs i type oj oe joined s)"
| "socket_step refs (stopped, s) (EvUnsubscribe w k) = (stopped, unsubscribe w k s)"
| "socket_step refs (stopped, s) (EvUser u) = (stopped, sync refs stopped u s)"
| "socket_step refs (stopped, s) EvStop = (True, disconnect s)"
| "socket_step refs (stopped, s) (EvOpened k) = (stopped, socket_opened k s)"
| "socket_step refs (stopped, s) (EvLost k) = (stopped, socket_lost k s)"
| "socket_step refs (stopped, s) (EvJoined i) = (stopped, channel_joined i s)"
| "socket_step refs (stopped, s) (EvChannelError i) = (stopped, channel_error i s)"

section \<open>What Phoenix has bound\<close>

text \<open>
  As Phoenix documents it: \<open>on\<close> binds and answers with a number no other binding of the channel
  has, \<open>off\<close> takes away the bindings of that event with that number.
\<close>

definition bound_after :: "nat \<Rightarrow> (nat \<times> string \<times> nat) list \<Rightarrow> phoenix_call \<Rightarrow> (nat \<times> string \<times> nat) list" where
  "bound_after c b call =
    (case call of
      ChanOn c' t k r \<Rightarrow> if c' = c then b @ [(r, t, k)] else b
    | ChanOff c' t r \<Rightarrow> if c' = c then filter (\<lambda>(r', t', k). \<not> (r' = r \<and> t' = t)) b else b
    | _ \<Rightarrow> b)"

definition bound :: "nat \<Rightarrow> phoenix_call list \<Rightarrow> (nat \<times> string \<times> nat) list" where
  "bound c calls = foldl (bound_after c) [] calls"

definition fresh_refs :: "on_result \<Rightarrow> bool" where
  "fresh_refs refs \<longleftrightarrow> (\<forall>c calls t k r. ChanOn c t k r \<in> set calls \<longrightarrow> refs c calls \<noteq> r)"

section \<open>The invariant\<close>

definition entry :: "socket_state \<Rightarrow> nat \<Rightarrow> nat \<times> string \<times> nat" where
  "entry s k = (the (sb_ref (sk_subs s k)), sb_type (sk_subs s k), k)"

text \<open>Who wants what: every set is some channel's, with the subscriptions of that channel only.\<close>

definition wanted_ok :: "socket_state \<Rightarrow> bool" where
  "wanted_ok s \<longleftrightarrow>
    (\<forall>i w. js_get (sk_subscriptions s) i = Some w \<longrightarrow> sk_sets s w \<noteq> [] \<and> w < sk_setCount s) \<and>
    (\<forall>w. distinct (sk_sets s w)) \<and>
    (\<forall>w k. k \<in> set (sk_sets s w) \<longrightarrow> k < sk_subCount s) \<and>
    (\<forall>w k i. k \<in> set (sk_sets s w) \<longrightarrow>
      (js_get (sk_subscriptions s) i = Some w \<longleftrightarrow> i = sb_channel (sk_subs s k)))"

text \<open>The channels: open exactly while there is a socket and someone wants them, and everyone bound.\<close>

definition open_ok :: "socket_state \<Rightarrow> string \<Rightarrow> bool" where
  "open_ok s i \<longleftrightarrow> js_has (sk_channels s) i = (sk_socket s \<noteq> None \<and> wanted_by s i \<noteq> [])"

definition bound_ok :: "socket_state \<Rightarrow> bool" where
  "bound_ok s \<longleftrightarrow>
    (\<forall>i c. js_get (sk_channels s) i = Some c \<longrightarrow> c < sk_channelCount s \<and>
      bound c (sk_calls s) = map (entry s) (wanted_by s i) \<and> distinct (map fst (bound c (sk_calls s))) \<and>
      (\<forall>k\<in>set (wanted_by s i). sb_ref (sk_subs s k) \<noteq> None)) \<and>
    (\<forall>i j c. js_get (sk_channels s) i = Some c \<and> js_get (sk_channels s) j = Some c \<longrightarrow> i = j) \<and>
    (\<forall>c t k r. ChanOn c t k r \<in> set (sk_calls s) \<longrightarrow> c < sk_channelCount s)"

definition sockets_ok :: "socket_state \<Rightarrow> bool" where
  "sockets_ok s \<longleftrightarrow> wanted_ok s \<and> (\<forall>i. open_ok s i) \<and> bound_ok s \<and>
    (sk_status s = SockDisconnected \<longleftrightarrow> sk_socket s = None)"

lemma bound_append: "bound c (calls @ [call]) = bound_after c (bound c calls) call"
  by (simp add: bound_def)

lemma bound_call: "(r, t, k) \<in> set (bound c calls) \<Longrightarrow> ChanOn c t k r \<in> set calls"
proof (induction calls rule: rev_induct)
  case (snoc call calls)
  then show ?case by (auto simp: bound_append bound_after_def split: phoenix_call.splits if_splits)
qed (simp add: bound_def)

lemma bound_none: "(\<And>t k r. ChanOn c t k r \<notin> set calls) \<Longrightarrow> bound c calls = []"
  by (cases "bound c calls") (auto dest: bound_call [of _ _ _ c calls] simp: prod_eq_iff, metis bound_call list.set_intros(1) prod.collapse)

lemma wanted_channel:
  "wanted_ok s \<Longrightarrow> k \<in> set (wanted_by s i) \<Longrightarrow> sb_channel (sk_subs s k) = i \<and> k < sk_subCount s"
  unfolding wanted_ok_def wanted_by_def by (cases "js_get (sk_subscriptions s) i") auto

lemma wanted_distinct: "wanted_ok s \<Longrightarrow> distinct (wanted_by s i)"
  by (auto simp: wanted_ok_def wanted_by_def split: option.splits)

lemma wanted_none: "wanted_ok s \<Longrightarrow> wanted_by s i = [] \<longleftrightarrow> js_get (sk_subscriptions s) i = None"
  by (auto simp: wanted_ok_def wanted_by_def split: option.splits)

section \<open>Binding\<close>

text \<open>The parts of the state that binding leaves alone.\<close>

definition same_wanted :: "socket_state \<Rightarrow> socket_state \<Rightarrow> bool" where
  "same_wanted s s' \<longleftrightarrow> sk_subscriptions s' = sk_subscriptions s \<and> sk_sets s' = sk_sets s \<and>
    sk_setCount s' = sk_setCount s \<and> sk_subCount s' = sk_subCount s \<and>
    (\<forall>k. sb_channel (sk_subs s' k) = sb_channel (sk_subs s k) \<and> sb_type (sk_subs s' k) = sb_type (sk_subs s k))"

lemma same_wanted_refl: "same_wanted s s"
  by (simp add: same_wanted_def)

lemma same_wanted_trans: "same_wanted s t \<Longrightarrow> same_wanted t u \<Longrightarrow> same_wanted s u"
  by (simp add: same_wanted_def)

lemma same_wanted_by: "same_wanted s s' \<Longrightarrow> wanted_by s' i = wanted_by s i"
  by (simp add: same_wanted_def wanted_by_def split: option.split)

lemma same_wanted_ok: "same_wanted s s' \<Longrightarrow> wanted_ok s' = wanted_ok s"
  by (simp add: same_wanted_def wanted_ok_def)

definition bind_only :: "nat \<Rightarrow> nat set \<Rightarrow> socket_state \<Rightarrow> socket_state \<Rightarrow> bool" where
  "bind_only c ks s s' \<longleftrightarrow> same_wanted s s' \<and> sk_socket s' = sk_socket s \<and> sk_status s' = sk_status s \<and>
    sk_channels s' = sk_channels s \<and> sk_channelCount s' = sk_channelCount s \<and>
    (\<forall>k. k \<notin> ks \<longrightarrow> sk_subs s' k = sk_subs s k) \<and> (\<forall>k\<in>ks. sb_ref (sk_subs s' k) \<noteq> None) \<and>
    (\<forall>d. d \<noteq> c \<longrightarrow> bound d (sk_calls s') = bound d (sk_calls s)) \<and>
    (\<forall>d t k r. ChanOn d t k r \<in> set (sk_calls s') \<longrightarrow> d = c \<or> ChanOn d t k r \<in> set (sk_calls s))"

lemma bind_one:
  assumes "fresh_refs refs"
  shows "bind_only c {k} s (bind_sub refs c k s)"
    and "bound c (sk_calls (bind_sub refs c k s)) = bound c (sk_calls s) @ [entry (bind_sub refs c k s) k]"
    and "distinct (map fst (bound c (sk_calls s))) \<Longrightarrow> distinct (map fst (bound c (sk_calls (bind_sub refs c k s))))"
proof -
  let ?r = "refs c (sk_calls s)"
  show "bind_only c {k} s (bind_sub refs c k s)"
    by (auto simp: bind_only_def same_wanted_def bind_sub_def Let_def phoenix_def bound_append bound_after_def)
  show b: "bound c (sk_calls (bind_sub refs c k s)) = bound c (sk_calls s) @ [entry (bind_sub refs c k s) k]"
    by (simp add: bind_sub_def Let_def phoenix_def bound_append bound_after_def entry_def)
  have "?r \<notin> fst ` set (bound c (sk_calls s))"
    using assms bound_call unfolding fresh_refs_def by (metis (no_types, lifting) imageE prod.exhaust_sel)
  moreover have "fst (entry (bind_sub refs c k s) k) = ?r" by (simp add: entry_def bind_sub_def Let_def phoenix_def)
  ultimately show "distinct (map fst (bound c (sk_calls s))) \<Longrightarrow> distinct (map fst (bound c (sk_calls (bind_sub refs c k s))))"
    unfolding b by simp
qed

lemma bind_only_trans:
  assumes "bind_only c A s t" and "bind_only c B t u"
  shows "bind_only c (A \<union> B) s u"
proof -
  note st = assms(1) [unfolded bind_only_def] and tu = assms(2) [unfolded bind_only_def]
  have "same_wanted s u" using same_wanted_trans st tu by blast
  moreover have "sk_socket u = sk_socket s" "sk_status u = sk_status s" "sk_channels u = sk_channels s"
    "sk_channelCount u = sk_channelCount s" using st tu by simp_all
  moreover have "\<forall>k. k \<notin> A \<union> B \<longrightarrow> sk_subs u k = sk_subs s k" using st tu by simp
  moreover have "sb_ref (sk_subs u k) \<noteq> None" if "k \<in> A \<union> B" for k
  proof (cases "k \<in> B")
    case False
    then have "sk_subs u k = sk_subs t k" "k \<in> A" using tu that by blast+
    then show ?thesis using st by simp
  qed (use tu in blast)
  moreover have "\<forall>d. d \<noteq> c \<longrightarrow> bound d (sk_calls u) = bound d (sk_calls s)" using st tu by simp
  moreover have "\<forall>d t' k r. ChanOn d t' k r \<in> set (sk_calls u) \<longrightarrow> d = c \<or> ChanOn d t' k r \<in> set (sk_calls s)"
    using st tu by blast
  ultimately show ?thesis unfolding bind_only_def by blast
qed

lemma bind_all:
  assumes "fresh_refs refs"
  shows "distinct ks \<Longrightarrow> s' = fold (bind_sub refs c) ks s \<Longrightarrow>
    bind_only c (set ks) s s' \<and> bound c (sk_calls s') = bound c (sk_calls s) @ map (entry s') ks \<and>
    (distinct (map fst (bound c (sk_calls s))) \<longrightarrow> distinct (map fst (bound c (sk_calls s'))))"
proof (induction ks arbitrary: s)
  case Nil
  then show ?case by (simp add: bind_only_def same_wanted_refl)
next
  case (Cons k ks)
  let ?t = "bind_sub refs c k s"
  note one = bind_one [OF assms, where c = c and k = k and s = s]
  have d: "distinct ks" "s' = fold (bind_sub refs c) ks ?t" using Cons.prems by simp_all
  have ih: "bind_only c (set ks) ?t s'" "bound c (sk_calls s') = bound c (sk_calls ?t) @ map (entry s') ks"
    "distinct (map fst (bound c (sk_calls ?t))) \<longrightarrow> distinct (map fst (bound c (sk_calls s')))"
    using Cons.IH [of ?t, OF d] by blast+
  have "sk_subs s' k = sk_subs ?t k" using ih(1) Cons.prems(1) by (auto simp: bind_only_def)
  then have "entry s' k = entry ?t k" by (simp add: entry_def)
  then have "bound c (sk_calls s') = bound c (sk_calls s) @ map (entry s') (k # ks)"
    unfolding ih(2) one(2) by simp
  moreover have "bind_only c (set (k # ks)) s s'" using bind_only_trans [OF one(1) ih(1)] by simp
  ultimately show ?case using ih(3) one(3) by blast
qed

lemma bound_quiet:
  "bound c (calls @ [SockConnect n]) = bound c calls" "bound c (calls @ [SockDisconnect n]) = bound c calls"
  "bound c (calls @ [ChanOpen d i]) = bound c calls" "bound c (calls @ [ChanJoin d]) = bound c calls"
  "bound c (calls @ [ChanLeave d]) = bound c calls"
  by (simp_all add: bound_append bound_after_def)

lemma same_entry: "sk_subs s' k = sk_subs s k \<Longrightarrow> entry s' k = entry s k"
  by (simp add: entry_def)

lemma open_channel_frame:
  assumes "fresh_refs refs" and "wanted_ok s"
  shows "same_wanted s (open_channel refs i s) \<and> sk_socket (open_channel refs i s) = sk_socket s \<and>
    sk_status (open_channel refs i s) = sk_status s \<and>
    (\<forall>j. js_has (sk_channels (open_channel refs i s)) j \<longleftrightarrow>
      js_has (sk_channels s) j \<or> j = i \<and> sk_socket s \<noteq> None \<and> wanted_by s i \<noteq> []) \<and>
    (bound_ok s \<longrightarrow> bound_ok (open_channel refs i s))"
proof (cases "sk_socket s = None \<or> js_has (sk_channels s) i \<or> wanted_by s i = []")
  case True
  then show ?thesis by (auto simp: open_channel_def same_wanted_refl)
next
  case False
  define c where "c = sk_channelCount s"
  define s1 where "s1 = (phoenix (ChanOpen c i) s)\<lparr>sk_channels := js_set i c (sk_channels s), sk_channelCount := Suc c\<rparr>"
  define t where "t = fold (bind_sub refs c) (wanted_by s i) s1"
  have s': "open_channel refs i s = phoenix (ChanJoin c) t"
    unfolding open_channel_def if_not_P [OF False] Let_def c_def s1_def t_def ..
  have w1: "same_wanted s s1" by (simp add: s1_def phoenix_def same_wanted_def)
  have dist: "distinct (wanted_by s i)" by (rule wanted_distinct [OF assms(2)])
  note all = bind_all [OF assms(1) dist t_def]
  have only: "bind_only c (set (wanted_by s i)) s1 t" using all by blast
  have "same_wanted s1 t" using only by (simp only: bind_only_def)
  moreover have "same_wanted t (phoenix (ChanJoin c) t)" by (simp add: same_wanted_def phoenix_def)
  ultimately have w: "same_wanted s (phoenix (ChanJoin c) t)" using same_wanted_trans w1 by blast
  have chans: "sk_channels t = js_set i c (sk_channels s)" "sk_channelCount t = Suc c" "sk_socket t = sk_socket s"
    "sk_status t = sk_status s" using only by (simp_all add: bind_only_def s1_def phoenix_def)
  have "bound_ok (phoenix (ChanJoin c) t)" if ok: "bound_ok s"
  proof -
    have old: "bound d (sk_calls s1) = bound d (sk_calls s)" for d
      by (simp add: s1_def phoenix_def bound_quiet)
    have none: "bound c (sk_calls s) = []" using bound_none ok unfolding bound_ok_def c_def by blast
    have calls: "bound d (sk_calls (phoenix (ChanJoin c) t)) = bound d (sk_calls t)" for d
      by (simp add: phoenix_def bound_quiet)
    have ent: "entry (phoenix (ChanJoin c) t) = entry t" by (rule ext) (simp add: entry_def phoenix_def)
    have wt: "wanted_by (phoenix (ChanJoin c) t) j = wanted_by s j" for j by (rule same_wanted_by [OF w])
    have none1: "bound c (sk_calls s1) = []" unfolding old by (rule none)
    have one: "bound c (sk_calls t) = map (entry t) (wanted_by s i)" using all none1 by simp
    have "distinct (map fst (bound c (sk_calls s1)))" unfolding none1 by simp
    then have two: "distinct (map fst (bound c (sk_calls t)))" using all by blast
    have refs_i: "\<forall>k\<in>set (wanted_by s i). sb_ref (sk_subs t k) \<noteq> None" using only by (simp add: bind_only_def)
    have others: "d < sk_channelCount s \<and> bound d (sk_calls t) = map (entry t) (wanted_by s j) \<and>
        distinct (map fst (bound d (sk_calls t))) \<and> (\<forall>k\<in>set (wanted_by s j). sb_ref (sk_subs t k) \<noteq> None)"
      if j: "j \<noteq> i" and d: "js_get (sk_channels s) j = Some d" for j d
    proof -
      have o: "d < sk_channelCount s" "bound d (sk_calls s) = map (entry s) (wanted_by s j)"
        "distinct (map fst (bound d (sk_calls s)))" "\<forall>k\<in>set (wanted_by s j). sb_ref (sk_subs s k) \<noteq> None"
        using ok d unfolding bound_ok_def by blast+
      have same: "sk_subs t k = sk_subs s k" if "k \<in> set (wanted_by s j)" for k
      proof -
        have "k \<notin> set (wanted_by s i)" using wanted_channel [OF assms(2)] that j by blast
        then have "sk_subs t k = sk_subs s1 k" using only unfolding bind_only_def by blast
        then show ?thesis by (simp add: s1_def phoenix_def)
      qed
      have "bound d (sk_calls t) = bound d (sk_calls s)"
        using only o(1) unfolding bind_only_def old c_def by (metis less_irrefl)
      moreover have "map (entry t) (wanted_by s j) = map (entry s) (wanted_by s j)"
        using same by (simp add: entry_def)
      ultimately show ?thesis using o same by simp
    qed
    have subs: "sk_subs (phoenix (ChanJoin c) t) = sk_subs t" by (simp add: phoenix_def)
    have fields: "sk_channels (phoenix (ChanJoin c) t) = js_set i c (sk_channels s)"
      "sk_channelCount (phoenix (ChanJoin c) t) = Suc (sk_channelCount s)"
      using chans by (simp_all add: phoenix_def c_def)
    have "d < Suc (sk_channelCount s) \<and> bound d (sk_calls t) = map (entry t) (wanted_by s j) \<and>
        distinct (map fst (bound d (sk_calls t))) \<and> (\<forall>k\<in>set (wanted_by s j). sb_ref (sk_subs t k) \<noteq> None)"
      if "js_get (js_set i c (sk_channels s)) j = Some d" for j d
    proof (cases "j = i")
      case True
      then show ?thesis using that one two refs_i by (simp add: c_def)
    next
      case False
      then have "js_get (sk_channels s) j = Some d" using that by simp
      then show ?thesis using others [OF False] less_SucI by blast
    qed
    moreover have "j = k" if "js_get (js_set i c (sk_channels s)) j = Some d" "js_get (js_set i c (sk_channels s)) k = Some d" for j k d
    proof -
      have "js_get (sk_channels s) l \<noteq> Some c" for l using ok unfolding bound_ok_def c_def by (metis less_irrefl)
      then show ?thesis using that ok unfolding bound_ok_def by (auto split: if_splits)
    qed
    moreover have "d < Suc (sk_channelCount s)" if "ChanOn d ty k r \<in> set (sk_calls t)" for d ty k r
    proof -
      have "d = c \<or> ChanOn d ty k r \<in> set (sk_calls s1)" using only that unfolding bind_only_def by blast
      then have "d = c \<or> ChanOn d ty k r \<in> set (sk_calls s)" by (simp add: s1_def phoenix_def)
      then show ?thesis using ok unfolding bound_ok_def c_def by (metis less_SucI lessI)
    qed
    moreover have "ChanOn d ty k r \<in> set (sk_calls (phoenix (ChanJoin c) t)) \<Longrightarrow> ChanOn d ty k r \<in> set (sk_calls t)" for d ty k r
      by (simp add: phoenix_def)
    ultimately show ?thesis unfolding bound_ok_def fields calls ent wt subs by blast
  qed
  then show ?thesis unfolding s' using w chans False by (auto simp: phoenix_def)
qed

section \<open>The invariant is kept\<close>

lemma open_all:
  assumes "fresh_refs refs"
  shows "wanted_ok s \<Longrightarrow> s' = fold (open_channel refs) is s \<Longrightarrow>
    same_wanted s s' \<and> sk_socket s' = sk_socket s \<and> sk_status s' = sk_status s \<and>
    (\<forall>j. js_has (sk_channels s') j \<longleftrightarrow>
      js_has (sk_channels s) j \<or> j \<in> set is \<and> sk_socket s \<noteq> None \<and> wanted_by s j \<noteq> []) \<and>
    (bound_ok s \<longrightarrow> bound_ok s')"
proof (induction "is" arbitrary: s)
  case Nil
  then show ?case by (simp add: same_wanted_refl)
next
  case (Cons i "is")
  let ?t = "open_channel refs i s"
  note one = open_channel_frame [OF assms Cons.prems(1), of i]
  then have w: "same_wanted s ?t" by blast
  have "wanted_ok ?t" using Cons.prems(1) same_wanted_ok [OF w] by simp
  moreover have "s' = fold (open_channel refs) is ?t" using Cons.prems(2) by simp
  ultimately have ih: "same_wanted ?t s' \<and> sk_socket s' = sk_socket ?t \<and> sk_status s' = sk_status ?t \<and>
    (\<forall>j. js_has (sk_channels s') j \<longleftrightarrow>
      js_has (sk_channels ?t) j \<or> j \<in> set is \<and> sk_socket ?t \<noteq> None \<and> wanted_by ?t j \<noteq> []) \<and>
    (bound_ok ?t \<longrightarrow> bound_ok s')" by (rule Cons.IH)
  have "same_wanted s s'" using same_wanted_trans w ih by blast
  moreover have "wanted_by ?t j = wanted_by s j" for j by (rule same_wanted_by [OF w])
  ultimately show ?case using ih one by (metis list.set_intros set_ConsD)
qed

text \<open>What an operation that touches neither the wishes nor the channels keeps.\<close>

definition untouched :: "socket_state \<Rightarrow> socket_state \<Rightarrow> bool" where
  "untouched s s' \<longleftrightarrow> sk_subscriptions s' = sk_subscriptions s \<and> sk_sets s' = sk_sets s \<and>
    sk_setCount s' = sk_setCount s \<and> sk_subCount s' = sk_subCount s \<and> sk_subs s' = sk_subs s \<and>
    sk_channels s' = sk_channels s \<and> sk_channelCount s' = sk_channelCount s"

lemma untouched_wanted: "untouched s s' \<Longrightarrow> wanted_ok s' = wanted_ok s \<and> wanted_by s' i = wanted_by s i"
  by (simp add: untouched_def wanted_ok_def wanted_by_def split: option.split)

lemma untouched_bound:
  assumes "untouched s s'" and "\<And>c. bound c (sk_calls s') = bound c (sk_calls s)"
    and "\<And>c t k r. ChanOn c t k r \<in> set (sk_calls s') \<Longrightarrow> ChanOn c t k r \<in> set (sk_calls s)"
  shows "bound_ok s \<Longrightarrow> bound_ok s'"
proof -
  have "entry s' = entry s" by (rule ext) (use assms(1) in \<open>simp add: entry_def untouched_def\<close>)
  moreover have "wanted_by s' = wanted_by s" by (rule ext) (use assms(1) untouched_wanted in blast)
  ultimately show "bound_ok s \<Longrightarrow> bound_ok s'"
    using assms unfolding bound_ok_def untouched_def by metis
qed

lemma disconnect_ok: "sockets_ok s \<Longrightarrow> sockets_ok (disconnect s)"
proof (cases "sk_socket s")
  case (Some k)
  assume ok: "sockets_ok s"
  let ?s = "(phoenix (SockDisconnect k) s)\<lparr>sk_channels := [], sk_socket := None, sk_status := SockDisconnected\<rparr>"
  have "wanted_ok ?s" using ok by (simp add: sockets_ok_def wanted_ok_def phoenix_def)
  moreover have "bound_ok ?s" using ok by (simp add: sockets_ok_def bound_ok_def phoenix_def)
  moreover have "open_ok ?s i" for i by (simp add: open_ok_def)
  ultimately show ?thesis using Some by (simp add: disconnect_def sockets_ok_def)
qed (simp add: disconnect_def)

lemma token_ok: "sockets_ok s \<Longrightarrow> sockets_ok (s\<lparr>sk_token := t\<rparr>)"
proof -
  assume ok: "sockets_ok s"
  have u: "untouched s (s\<lparr>sk_token := t\<rparr>)" by (simp add: untouched_def)
  have "bound_ok (s\<lparr>sk_token := t\<rparr>)" by (rule untouched_bound [OF u]) (use ok in \<open>simp_all add: sockets_ok_def\<close>)
  then show ?thesis using ok untouched_wanted [OF u] by (simp add: sockets_ok_def open_ok_def)
qed

lemma told_ok: "sockets_ok s \<Longrightarrow> sockets_ok (s\<lparr>sk_told := t\<rparr>)"
proof -
  assume ok: "sockets_ok s"
  have u: "untouched s (s\<lparr>sk_told := t\<rparr>)" by (simp add: untouched_def)
  have "bound_ok (s\<lparr>sk_told := t\<rparr>)" by (rule untouched_bound [OF u]) (use ok in \<open>simp_all add: sockets_ok_def\<close>)
  then show ?thesis using ok untouched_wanted [OF u] by (simp add: sockets_ok_def open_ok_def)
qed

lemma status_ok: "sockets_ok s \<Longrightarrow> sk_socket s \<noteq> None \<Longrightarrow> t \<noteq> SockDisconnected \<Longrightarrow> sockets_ok (s\<lparr>sk_status := t\<rparr>)"
proof -
  assume ok: "sockets_ok s" "sk_socket s \<noteq> None" "t \<noteq> SockDisconnected"
  have u: "untouched s (s\<lparr>sk_status := t\<rparr>)" by (simp add: untouched_def)
  have "bound_ok (s\<lparr>sk_status := t\<rparr>)" by (rule untouched_bound [OF u]) (use ok in \<open>simp_all add: sockets_ok_def\<close>)
  then show ?thesis using ok untouched_wanted [OF u] by (simp add: sockets_ok_def open_ok_def)
qed

lemma init_ok:
  assumes "fresh_refs refs" and ok: "sockets_ok s"
  shows "sockets_ok (init_socket refs s)"
proof (cases "sk_socket s")
  case None
  let ?k = "sk_sockets s"
  let ?s = "(phoenix (SockConnect ?k) s)\<lparr>sk_status := SockConnecting, sk_socket := Some ?k, sk_sockets := Suc ?k\<rparr>"
  have init: "init_socket refs s = fold (open_channel refs) (js_keys (sk_subscriptions s)) ?s"
    using None by (simp add: init_socket_def Let_def)
  have u: "untouched s ?s" by (simp add: untouched_def phoenix_def)
  have w: "wanted_ok ?s" using ok untouched_wanted [OF u] by (simp add: sockets_ok_def)
  have b: "bound_ok ?s"
    by (rule untouched_bound [OF u]) (use ok in \<open>auto simp: sockets_ok_def phoenix_def bound_quiet\<close>)
  have none: "\<not> js_has (sk_channels ?s) i" for i
    using ok None by (simp add: sockets_ok_def open_ok_def phoenix_def)
  note all = open_all [OF assms(1) w init]
  then have sw: "same_wanted ?s (init_socket refs s)" by blast
  have "open_ok (init_socket refs s) i" for i
  proof -
    have "i \<in> set (js_keys (sk_subscriptions s))" if "wanted_by ?s i \<noteq> []"
      using that wanted_none [OF w, of i] js.get_keys [of "sk_subscriptions s" i] by (simp add: phoenix_def)
    moreover have "sk_socket (init_socket refs s) \<noteq> None" "sk_socket ?s \<noteq> None" using all by simp_all
    ultimately show ?thesis using all none same_wanted_by [OF sw, of i] unfolding open_ok_def by metis
  qed
  moreover have "wanted_ok (init_socket refs s)" using w same_wanted_ok [OF sw] by simp
  moreover have "bound_ok (init_socket refs s)" using all b by blast
  moreover have "sk_status (init_socket refs s) = SockConnecting" "sk_socket (init_socket refs s) \<noteq> None"
    using all by simp_all
  ultimately show ?thesis unfolding sockets_ok_def by (metis option.distinct(1) socket_status.distinct(5))
qed (use ok in \<open>simp add: init_socket_def\<close>)

lemma wanted_after_add:
  assumes "wanted_ok s" and "s' = add_wanted sub s"
  shows "wanted_by s' i = (if i = sb_channel sub then wanted_by s i @ [sk_subCount s] else wanted_by s i)"
    and "wanted_ok s'"
proof -
  let ?k = "sk_subCount s" and ?i = "sb_channel sub" and ?w = "set_for (sb_channel sub) s"
  have old: "js_get (sk_subscriptions s) j = Some w \<Longrightarrow> sk_sets s w \<noteq> [] \<and> w < sk_setCount s"
    "distinct (sk_sets s w)" "k \<in> set (sk_sets s w) \<Longrightarrow> k < ?k"
    "k \<in> set (sk_sets s w) \<Longrightarrow> js_get (sk_subscriptions s) j = Some w \<longleftrightarrow> j = sb_channel (sk_subs s k)" for j w k
    using assms(1) unfolding wanted_ok_def by blast+
  have fresh: "sk_sets s (sk_setCount s) = []"
  proof (rule ccontr)
    assume "sk_sets s (sk_setCount s) \<noteq> []"
    then obtain k where "k \<in> set (sk_sets s (sk_setCount s))" by (meson last_in_set)
    then have "js_get (sk_subscriptions s) (sb_channel (sk_subs s k)) = Some (sk_setCount s)" using old(4) by blast
    then show False using old(1) by blast
  qed
  have other: "j = ?i" if "js_get (sk_subscriptions s) j = Some ?w" for j
  proof (cases "js_get (sk_subscriptions s) ?i")
    case None
    then show ?thesis using that old(1) [of j "sk_setCount s"] by (simp add: set_for_def)
  next
    case (Some w)
    then have "?w = w" by (simp add: set_for_def)
    moreover obtain k where "k \<in> set (sk_sets s w)" using old(1) [OF Some] by (meson last_in_set)
    ultimately show ?thesis using that Some old(4) by simp
  qed
  have f: "sk_subs s' = (sk_subs s)(?k := sub)" "sk_subCount s' = Suc ?k"
    "sk_sets s' = (sk_sets s)(?w := sk_sets s ?w @ [?k])" "sk_subscriptions s' = js_set ?i ?w (sk_subscriptions s)"
    "sk_setCount s' = (if js_has (sk_subscriptions s) ?i then sk_setCount s else Suc (sk_setCount s))"
    unfolding assms(2) add_wanted_def Let_def by simp_all
  have wanted_w: "wanted_by s ?i = sk_sets s ?w"
    using fresh by (simp add: wanted_by_def set_for_def split: option.split)
  show "wanted_by s' i = (if i = ?i then wanted_by s i @ [?k] else wanted_by s i)"
  proof (cases "i = ?i")
    case True
    then show ?thesis using wanted_w by (simp add: wanted_by_def f)
  next
    case False
    then have "js_get (sk_subscriptions s) i \<noteq> Some ?w" using other by blast
    then show ?thesis using False by (simp add: wanted_by_def f split: option.split)
  qed
  have "sk_sets s' w \<noteq> [] \<and> w < sk_setCount s'" if g: "js_get (sk_subscriptions s') j = Some w" for j w
  proof (cases "j = ?i")
    case True
    then have "w = ?w" using g by (simp add: f)
    moreover have "?w < sk_setCount s'" using old(1) by (auto simp: f set_for_def js_has_def split: option.split)
    ultimately show ?thesis by (simp add: f)
  next
    case False
    then show ?thesis using g old(1) [of j w] by (auto simp: f)
  qed
  moreover have "distinct (sk_sets s' w)" for w using old(2,3) by (auto simp: f)
  moreover have "k < sk_subCount s'" if "k \<in> set (sk_sets s' w)" for k w
    using that old(3) [of k w] by (auto simp: f less_SucI split: if_splits)
  moreover have "js_get (sk_subscriptions s') j = Some w \<longleftrightarrow> j = sb_channel (sk_subs s' k)"
    if m: "k \<in> set (sk_sets s' w)" for k w j
  proof (cases "k = ?k")
    case True
    then have "w = ?w" using m old(3) [of ?k w] by (auto simp: f split: if_splits)
    then show ?thesis using True other by (auto simp: f)
  next
    case False
    then have m': "k \<in> set (sk_sets s w)" using m by (auto simp: f split: if_splits)
    then have ch: "js_get (sk_subscriptions s) (sb_channel (sk_subs s k)) = Some w" using old(4) by blast
    have g: "js_get (sk_subscriptions s') j = (if j = ?i then Some ?w else js_get (sk_subscriptions s) j)" by (simp add: f)
    have c: "sk_subs s' k = sk_subs s k" using False by (simp add: f)
    show ?thesis
    proof (cases "w = ?w")
      case True
      then have "sb_channel (sk_subs s k) = ?i" using other ch by metis
      then show ?thesis unfolding g c using True other by metis
    next
      case w: False
      have "set_for ?i s = w" if "sb_channel (sk_subs s k) = ?i" using ch that by (simp add: set_for_def)
      then have "sb_channel (sk_subs s k) \<noteq> ?i" using w by blast
      then show ?thesis unfolding g c using w old(4) [OF m', of j] by auto
    qed
  qed
  ultimately show "wanted_ok s'" unfolding wanted_ok_def by blast
qed

definition chan_ok :: "socket_state \<Rightarrow> string \<Rightarrow> nat \<Rightarrow> bool" where
  "chan_ok s i c \<longleftrightarrow> c < sk_channelCount s \<and> bound c (sk_calls s) = map (entry s) (wanted_by s i) \<and>
    distinct (map fst (bound c (sk_calls s))) \<and> (\<forall>k\<in>set (wanted_by s i). sb_ref (sk_subs s k) \<noteq> None)"

lemma bound_ok_chan: "bound_ok s \<longleftrightarrow>
    (\<forall>i c. js_get (sk_channels s) i = Some c \<longrightarrow> chan_ok s i c) \<and>
    (\<forall>i j c. js_get (sk_channels s) i = Some c \<and> js_get (sk_channels s) j = Some c \<longrightarrow> i = j) \<and>
    (\<forall>c t k r. ChanOn c t k r \<in> set (sk_calls s) \<longrightarrow> c < sk_channelCount s)"
  unfolding bound_ok_def chan_ok_def by simp

lemma chan_ok_same:
  assumes "chan_ok s i c" and "wanted_by s' i = wanted_by s i"
    and "\<And>k. k \<in> set (wanted_by s i) \<Longrightarrow> sk_subs s' k = sk_subs s k"
    and "bound c (sk_calls s') = bound c (sk_calls s)" and "sk_channelCount s' = sk_channelCount s"
  shows "chan_ok s' i c"
proof -
  have "map (entry s') (wanted_by s i) = map (entry s) (wanted_by s i)" using assms(3) by (simp add: entry_def)
  then show ?thesis using assms unfolding chan_ok_def by auto
qed

lemma subscribe_ok:
  assumes "fresh_refs refs" and ok: "sockets_ok s"
  shows "sockets_ok (subscribeToChannel refs i type oj oe joined s)"
proof -
  define sub where "sub = \<lparr>sb_channel = i, sb_type = type, sb_onJoin = oj, sb_onError = oe, sb_ref = None\<rparr>"
  define k where "k = sk_subCount s"
  define s1 where "s1 = add_wanted sub s"
  have w: "wanted_ok s" and o: "\<And>j. open_ok s j" and b: "bound_ok s" and st: "sk_status s = SockDisconnected \<longleftrightarrow> sk_socket s = None"
    using ok unfolding sockets_ok_def by blast+
  have w1: "wanted_ok s1" by (rule wanted_after_add(2) [OF w s1_def])
  have by1: "wanted_by s1 j = (if j = i then wanted_by s i @ [k] else wanted_by s j)" for j
    using wanted_after_add(1) [OF w s1_def, of j] by (simp add: sub_def k_def)
  have f: "sk_subs s1 = (sk_subs s)(k := sub)" "sk_channels s1 = sk_channels s" "sk_channelCount s1 = sk_channelCount s"
    "sk_calls s1 = sk_calls s" "sk_socket s1 = sk_socket s" "sk_status s1 = sk_status s"
    unfolding s1_def add_wanted_def Let_def k_def by simp_all
  have old: "sk_subs s1 x = sk_subs s x" if "x \<in> set (wanted_by s j)" for x j
    using wanted_channel [OF w that] by (simp add: f k_def)
  have others: "chan_ok s1 j d" if "js_get (sk_channels s) j = Some d" "j \<noteq> i" for j d
  proof (rule chan_ok_same [of s])
    show "chan_ok s j d" using b that(1) unfolding bound_ok_chan by blast
  qed (use that old in \<open>simp_all add: by1 f\<close>)
  show ?thesis
  proof (cases "js_get (sk_channels s) i")
    case None
    have eq: "subscribeToChannel refs i type oj oe joined s = open_channel refs i s1"
      using None f(2) by (simp add: subscribeToChannel_def Let_def s1_def sub_def)
    have "bound_ok s1" unfolding bound_ok_chan f using others None b unfolding bound_ok_chan by (metis option.distinct(1))
    then have b': "bound_ok (open_channel refs i s1)" using open_channel_frame [OF assms(1) w1] by blast
    note frame = open_channel_frame [OF assms(1) w1, of i]
    then have sw: "same_wanted s1 (open_channel refs i s1)" by blast
    have "open_ok (open_channel refs i s1) j" for j
    proof -
      have "js_has (sk_channels (open_channel refs i s1)) j \<longleftrightarrow>
          js_has (sk_channels s) j \<or> j = i \<and> sk_socket s \<noteq> None" using frame by1 f by simp
      moreover have "wanted_by (open_channel refs i s1) j = wanted_by s1 j" by (rule same_wanted_by [OF sw])
      moreover have "sk_socket (open_channel refs i s1) = sk_socket s" using frame f by simp
      ultimately show ?thesis using o [of j] None by1 [of j] by (auto simp: open_ok_def js_has_def)
    qed
    moreover have "wanted_ok (open_channel refs i s1)" using w1 same_wanted_ok [OF sw] by simp
    moreover have "sk_status (open_channel refs i s1) = sk_status s" "sk_socket (open_channel refs i s1) = sk_socket s"
      using frame f by simp_all
    ultimately show ?thesis unfolding eq sockets_ok_def using b' st by metis
  next
    case (Some c)
    define s2 where "s2 = bind_sub refs c k s1"
    have "sockets_ok s2"
    proof -
      note one = bind_one [OF assms(1), where c = c and k = k and s = s1, folded s2_def]
      note only = one(1) [unfolded bind_only_def]
      then have sw: "same_wanted s1 s2" by blast
      have by2: "wanted_by s2 j = wanted_by s1 j" for j by (rule same_wanted_by [OF sw])
      have c: "chan_ok s i c" using b Some unfolding bound_ok_chan by blast
      have old2: "sk_subs s2 x = sk_subs s x" if "x \<in> set (wanted_by s j)" for x j
        using only old that wanted_channel [OF w that] by (auto simp: k_def)
      have "map (entry s2) (wanted_by s i) = map (entry s) (wanted_by s i)" using old2 by (simp add: entry_def)
      then have "bound c (sk_calls s2) = map (entry s2) (wanted_by s2 i)"
        using one(2) c by (simp add: by2 by1 f chan_ok_def)
      moreover have "distinct (map fst (bound c (sk_calls s2)))" using one(3) c unfolding chan_ok_def f by blast
      moreover have "sb_ref (sk_subs s2 x) \<noteq> None" if "x \<in> set (wanted_by s2 i)" for x
        using that old2 c only by (auto simp: by2 by1 chan_ok_def)
      moreover have "c < sk_channelCount s2" using c only f by (simp add: chan_ok_def)
      ultimately have mine: "chan_ok s2 i c" unfolding chan_ok_def by blast
      have "chan_ok s2 j d" if g: "js_get (sk_channels s2) j = Some d" for j d
      proof (cases "j = i")
        case True
        then show ?thesis using mine g Some only f by simp
      next
        case False
        have gs: "js_get (sk_channels s) j = Some d" using g only f by simp
        have "d \<noteq> c" using b gs Some False unfolding bound_ok_chan by blast
        show ?thesis
        proof (rule chan_ok_same [OF others [OF gs False]])
          show "wanted_by s2 j = wanted_by s1 j" by (rule by2)
          show "sk_subs s2 x = sk_subs s1 x" if "x \<in> set (wanted_by s1 j)" for x
            using that old old2 False by (simp add: by1)
          show "bound d (sk_calls s2) = bound d (sk_calls s1)" using only \<open>d \<noteq> c\<close> by blast
          show "sk_channelCount s2 = sk_channelCount s1" using only by blast
        qed
      qed
      moreover have "j = j'" if "js_get (sk_channels s2) j = Some d" "js_get (sk_channels s2) j' = Some d" for j j' d
        using that b only f unfolding bound_ok_chan by metis
      moreover have "d < sk_channelCount s2" if "ChanOn d t x r \<in> set (sk_calls s2)" for d t x r
      proof -
        have "d = c \<or> ChanOn d t x r \<in> set (sk_calls s)" using that only f by metis
        then show ?thesis using b c only f unfolding bound_ok_chan chan_ok_def by metis
      qed
      ultimately have "bound_ok s2" unfolding bound_ok_chan by blast
      moreover have "open_ok s2 j" for j
        using o [of j] only f by2 [of j] by1 [of j] Some by (auto simp: open_ok_def js_has_def)
      moreover have "wanted_ok s2" using w1 same_wanted_ok [OF sw] by simp
      moreover have "sk_status s2 = sk_status s" "sk_socket s2 = sk_socket s" using only f by simp_all
      ultimately show ?thesis unfolding sockets_ok_def using st by metis
    qed
    moreover have "subscribeToChannel refs i type oj oe joined s =
        (if joined \<and> oj then s2\<lparr>sk_told := sk_told s2 @ [ToldJoin k]\<rparr> else s2)"
      using Some f(2) by (simp add: subscribeToChannel_def Let_def s1_def sub_def s2_def k_def)
    ultimately show ?thesis using told_ok by presburger
  qed
qed

text \<open>A disposer may be called while its subscription is in its set: once.\<close>

lemma wanted_after_remove:
  assumes "wanted_ok s" and k: "k \<in> set (sk_sets s w)" and i: "i = sb_channel (sk_subs s k)"
    and rest: "rest = filter (\<lambda>x. x \<noteq> k) (sk_sets s w)"
    and f: "sk_sets s' = (sk_sets s)(w := rest)" "sk_subs s' = sk_subs s" "sk_setCount s' = sk_setCount s"
      "sk_subCount s' = sk_subCount s"
      "sk_subscriptions s' = (if rest = [] then js_del i (sk_subscriptions s) else sk_subscriptions s)"
  shows "wanted_ok s'" and "wanted_by s i = sk_sets s w"
    and "wanted_by s' j = (if j = i then rest else wanted_by s j)"
proof -
  have old: "js_get (sk_subscriptions s) j = Some v \<Longrightarrow> sk_sets s v \<noteq> [] \<and> v < sk_setCount s"
    "distinct (sk_sets s v)" "x \<in> set (sk_sets s v) \<Longrightarrow> x < sk_subCount s"
    "x \<in> set (sk_sets s v) \<Longrightarrow> js_get (sk_subscriptions s) j = Some v \<longleftrightarrow> j = sb_channel (sk_subs s x)" for j v x
    using assms(1) unfolding wanted_ok_def by blast+
  have w: "js_get (sk_subscriptions s) i = Some w" using old(4) [OF k] i by blast
  then show own: "wanted_by s i = sk_sets s w" by (simp add: wanted_by_def)
  have only: "j = i" if "js_get (sk_subscriptions s) j = Some w" for j using old(4) [OF k] i that by blast
  have get: "js_get (sk_subscriptions s') j = (if rest = [] \<and> j = i then None else js_get (sk_subscriptions s) j)" for j
    by (simp add: f)
  show "wanted_by s' j = (if j = i then rest else wanted_by s j)"
  proof (cases "j = i")
    case True
    then show ?thesis using w by (simp add: wanted_by_def get f(1))
  next
    case False
    then have "js_get (sk_subscriptions s) j \<noteq> Some w" using only by blast
    then show ?thesis using False by (simp add: wanted_by_def get f(1) split: option.split)
  qed
  have "sk_sets s' v \<noteq> [] \<and> v < sk_setCount s'" if g: "js_get (sk_subscriptions s') j = Some v" for j v
  proof (cases "v = w")
    case True
    then have "j = i" using g only unfolding get by (simp split: if_splits)
    then have "rest \<noteq> []" using g unfolding get by (simp split: if_splits)
    then show ?thesis using True old(1) [OF w] by (simp add: f)
  next
    case False
    then show ?thesis using g old(1) [of j v] unfolding get by (simp add: f split: if_splits)
  qed
  moreover have "distinct (sk_sets s' v)" for v using old(2) by (simp add: f rest)
  moreover have m: "x \<in> set (sk_sets s v)" if "x \<in> set (sk_sets s' v)" for x v
    using that by (auto simp: f rest split: if_splits)
  moreover have "js_get (sk_subscriptions s') j = Some v \<longleftrightarrow> j = sb_channel (sk_subs s' x)"
    if x: "x \<in> set (sk_sets s' v)" for x v j
  proof -
    have "js_get (sk_subscriptions s) j = Some v \<longleftrightarrow> j = sb_channel (sk_subs s x)" using old(4) m [OF x] by blast
    moreover have "rest \<noteq> []" if "v = w" using x that by (auto simp: f)
    moreover have "sb_channel (sk_subs s x) \<noteq> i" if "v \<noteq> w" using old(4) [OF m [OF x], of i] w that by auto
    ultimately show ?thesis unfolding get f(2) by auto
  qed
  ultimately show "wanted_ok s'" using old(3) unfolding wanted_ok_def f(4) by blast
qed

lemma off_bound:
  assumes "distinct (map fst (map (entry s) ks))" and "k \<in> set ks" and "sb_ref (sk_subs s k) = Some r"
  shows "filter (\<lambda>(r', t', x). \<not> (r' = r \<and> t' = sb_type (sk_subs s k))) (map (entry s) ks) =
    map (entry s) (filter (\<lambda>x. x \<noteq> k) ks)"
proof -
  have "inj_on (fst \<circ> entry s) (set ks)" using assms(1) unfolding map_map distinct_map by blast
  then have "fst (entry s x) = r \<longleftrightarrow> x = k" if "x \<in> set ks" for x
    using that assms(2,3) unfolding inj_on_def by (metis comp_apply entry_def fst_conv option.sel)
  then have "(case entry s x of (r', t', y) \<Rightarrow> \<not> (r' = r \<and> t' = sb_type (sk_subs s k))) \<longleftrightarrow> x \<noteq> k" if "x \<in> set ks" for x
    using that by (auto simp: entry_def)
  then have "filter (\<lambda>x. case entry s x of (r', t', y) \<Rightarrow> \<not> (r' = r \<and> t' = sb_type (sk_subs s k))) ks =
      filter (\<lambda>x. x \<noteq> k) ks" by (rule filter_cong [OF refl])
  then show ?thesis by (simp add: filter_map comp_def)
qed

lemma off_calls:
  "ChanOn d t x n \<notin> set ((case (l, rf) of (Some c, Some r) \<Rightarrow> [ChanOff c ty r] | _ \<Rightarrow> []) @
    (if b then (case l of None \<Rightarrow> [] | Some c \<Rightarrow> [ChanLeave c]) else []))"
proof -
  have "ChanOn d t x n \<notin> set (case (l, rf) of (Some c, Some r) \<Rightarrow> [ChanOff c ty r] | _ \<Rightarrow> [])"
    by (simp split: option.split)
  moreover have "ChanOn d t x n \<notin> set (if b then (case l of None \<Rightarrow> [] | Some c \<Rightarrow> [ChanLeave c]) else [])"
    by (cases b) (simp_all split: option.split)
  ultimately show ?thesis unfolding set_append Un_iff by blast
qed

lemma unsubscribe_ok:
  assumes ok: "sockets_ok s" and k: "k \<in> set (sk_sets s w)"
  shows "sockets_ok (unsubscribe w k s)"
proof -
  define i where "i = sb_channel (sk_subs s k)"
  define rest where "rest = filter (\<lambda>x. x \<noteq> k) (sk_sets s w)"
  define s' where "s' = unsubscribe w k s"
  define live where "live = js_get (sk_channels s) i"
  have wo: "wanted_ok s" and o: "\<And>j. open_ok s j" and b: "bound_ok s" and st: "sk_status s = SockDisconnected \<longleftrightarrow> sk_socket s = None"
    using ok unfolding sockets_ok_def by blast+
  have f: "sk_sets s' = (sk_sets s)(w := rest)" "sk_subs s' = sk_subs s" "sk_setCount s' = sk_setCount s"
    "sk_subCount s' = sk_subCount s"
    "sk_subscriptions s' = (if rest = [] then js_del i (sk_subscriptions s) else sk_subscriptions s)"
    "sk_socket s' = sk_socket s" "sk_status s' = sk_status s" "sk_channelCount s' = sk_channelCount s"
    "sk_channels s' = (if rest = [] \<and> live \<noteq> None then js_del i (sk_channels s) else sk_channels s)"
    unfolding s'_def unsubscribe_def Let_def i_def rest_def live_def
    by (simp_all add: phoenix_def split: option.split)
  note removed = wanted_after_remove [OF wo k i_def rest_def f(1-5)]
  obtain calls where calls: "sk_calls s' = sk_calls s @ calls"
    "calls = (case (live, sb_ref (sk_subs s k)) of (Some c, Some r) \<Rightarrow> [ChanOff c (sb_type (sk_subs s k)) r] | _ \<Rightarrow> []) @
      (if rest = [] then (case live of None \<Rightarrow> [] | Some c \<Rightarrow> [ChanLeave c]) else [])"
  proof
    show "sk_calls s' = sk_calls s @ ((case (live, sb_ref (sk_subs s k)) of (Some c, Some r) \<Rightarrow> [ChanOff c (sb_type (sk_subs s k)) r] | _ \<Rightarrow> []) @
      (if rest = [] then (case live of None \<Rightarrow> [] | Some c \<Rightarrow> [ChanLeave c]) else []))"
      unfolding s'_def unsubscribe_def Let_def i_def rest_def live_def by (simp add: phoenix_def split: option.split)
  qed simp
  have get: "js_get (sk_channels s') j = (if rest = [] \<and> j = i then None else js_get (sk_channels s) j)" for j
    by (auto simp: f live_def)
  have chan: "chan_ok s' j c" if g: "js_get (sk_channels s') j = Some c" for j c
  proof -
    have gs: "js_get (sk_channels s) j = Some c" "\<not> (rest = [] \<and> j = i)" using g unfolding get by (simp_all split: if_splits)
    have c: "chan_ok s j c" using b gs(1) unfolding bound_ok_chan by blast
    show ?thesis
    proof (cases "j = i")
      case False
      have "live \<noteq> Some c" using b gs(1) False unfolding bound_ok_chan live_def by blast
      then have "bound c (sk_calls s') = bound c (sk_calls s)"
        unfolding calls by (auto simp: bound_def bound_after_def split: option.split)
      then show ?thesis using chan_ok_same [OF c] removed(3) [of j] False f by simp
    next
      case True
      have live: "live = Some c" and ne: "rest \<noteq> []" using gs True by (simp_all add: live_def)
      have own: "wanted_by s i = sk_sets s w" by (rule removed(2))
      obtain r where r: "sb_ref (sk_subs s k) = Some r" using c k True own by (auto simp: chan_ok_def)
      have bs: "bound c (sk_calls s) = map (entry s) (sk_sets s w)" using c own True by (simp add: chan_ok_def)
      have d: "distinct (map fst (map (entry s) (sk_sets s w)))" using c unfolding chan_ok_def bs by blast
      have "sk_calls s' = sk_calls s @ [ChanOff c (sb_type (sk_subs s k)) r]" using calls live r ne by simp
      then have "bound c (sk_calls s') = map (entry s) rest"
        using off_bound [OF d k r] by (simp add: bound_append bound_after_def bs rest_def)
      moreover have "entry s' = entry s" by (rule ext) (simp add: entry_def f)
      moreover have "distinct (map fst (map (entry s) rest))"
        using d unfolding rest_def map_map by (rule distinct_map_filter)
      ultimately show ?thesis using c removed(3) [of i] own True by (auto simp: chan_ok_def f rest_def)
    qed
  qed
  moreover have "j = j'" if "js_get (sk_channels s') j = Some d" "js_get (sk_channels s') j' = Some d" for j j' d
    using that b unfolding bound_ok_chan get by (metis option.distinct(1))
  moreover have "d < sk_channelCount s'" if "ChanOn d t x r \<in> set (sk_calls s')" for d t x r
  proof -
    have "ChanOn d t x r \<notin> set calls"
      unfolding calls(2) by (rule off_calls)
    then have "ChanOn d t x r \<in> set (sk_calls s)" using that unfolding calls(1) by simp
    then show ?thesis using b f unfolding bound_ok_chan by metis
  qed
  ultimately have "bound_ok s'" unfolding bound_ok_chan by blast
  moreover have "open_ok s' j" for j
  proof (cases "j = i")
    case True
    then show ?thesis using o [of i] removed(2) removed(3) [of i] k by (auto simp: open_ok_def js_has_def get f live_def)
  next
    case False
    then show ?thesis using o [of j] removed(3) [of j] by (simp add: open_ok_def js_has_def get f)
  qed
  moreover have "sk_status s' = SockDisconnected \<longleftrightarrow> sk_socket s' = None" using st f by simp
  ultimately have "sockets_ok s'" unfolding sockets_ok_def using removed(1) by blast
  then show ?thesis by (simp only: s'_def)
qed

section \<open>Properties\<close>

fun socket_ok :: "bool \<times> socket_state \<Rightarrow> socket_event \<Rightarrow> bool" where
  "socket_ok (stopped, s) (EvUnsubscribe w k) \<longleftrightarrow> k \<in> set (sk_sets s w)"
| "socket_ok p _ \<longleftrightarrow> True"

lemma socket_step_ok:
  assumes "fresh_refs refs" and "sockets_ok (snd p)" and "socket_ok p e"
  shows "sockets_ok (snd (socket_step refs p e))"
proof -
  obtain stopped s where p: "p = (stopped, s)" by (cases p)
  have ok: "sockets_ok s" using assms(2) p by simp
  have lost: "sockets_ok (sync refs stopped u s)" for u
    using ok disconnect_ok token_ok init_ok [OF assms(1)] by (auto simp: sync_def split: option.split)
  show ?thesis
  proof (cases e)
    case (EvUnsubscribe w k)
    then show ?thesis using unsubscribe_ok [OF ok] assms(3) p by simp
  qed (use p ok subscribe_ok [OF assms(1) ok] lost disconnect_ok told_ok status_ok in
      \<open>auto simp: socket_opened_def socket_lost_def channel_joined_def channel_error_def\<close>)
qed

interpretation realtime: event_machine "socket_step refs" socket_ok "\<lambda>p. fresh_refs refs \<and> sockets_ok (snd p)"
  for refs
  by unfold_locales (blast intro: socket_step_ok)

lemma new_sockets_ok: "sockets_ok new_sockets"
  by (simp add: new_sockets_def sockets_ok_def wanted_ok_def open_ok_def bound_ok_def wanted_by_def)


text \<open>Numbers counted per channel, as Phoenix counts them.\<close>

definition counted :: on_result where
  "counted c calls = Suc (foldl max 0 (map (\<lambda>call. case call of ChanOn c' t k r \<Rightarrow> if c' = c then r else 0 | _ \<Rightarrow> 0) calls))"

lemma foldl_max_ge: "a \<le> foldl max a (xs :: nat list) \<and> (x \<in> set xs \<longrightarrow> x \<le> foldl max a xs)"
proof (induction xs arbitrary: a)
  case (Cons y ys)
  show ?case using Cons.IH [of "max a y"] by auto
qed simp

lemma counted_fresh: "fresh_refs counted"
proof -
  have "counted c calls \<noteq> r" if m: "ChanOn c t k r \<in> set calls" for c calls t k r
  proof -
    have "r \<in> set (map (\<lambda>call. case call of ChanOn c' t k r \<Rightarrow> if c' = c then r else 0 | _ \<Rightarrow> 0) calls)"
      using m by (force simp: image_iff)
    then show ?thesis using foldl_max_ge unfolding counted_def by (metis Suc_n_not_le_n)
  qed
  then show ?thesis unfolding fresh_refs_def by blast
qed

definition some_session :: "socket_event list" where
  "some_session =
    [EvSubscribe ''notifications'' ''data.changed'' True False False, EvUser (Some \<lparr>su_token = ''t'', su_expired = False\<rparr>),
     EvOpened 0, EvSubscribe ''notifications'' ''inbox.updated'' False False True, EvUser None,
     EvUser (Some \<lparr>su_token = ''u'', su_expired = False\<rparr>), EvUnsubscribe 0 0]"

lemmas socket_run = some_session_def new_sockets_def subscribeToChannel_def add_wanted_def set_for_def open_channel_def
  wanted_by_def sync_def init_socket_def bind_sub_def phoenix_def disconnect_def socket_opened_def unsubscribe_def
  Let_def js_has_def js_keys_def js_set_def js_get_def


section \<open>Stale data\<close>

text \<open>
  Tags, and what a signal does: the tags wait for a timer that is set once, and the flush
  invalidates every query carrying one of them. \<open>CLIENT_ID\<close> is drawn when the page loads.
\<close>

definition workspace_tag :: "string \<Rightarrow> string" where
  "workspace_tag i = ''workspace:'' @ i"

definition workspaces_tag :: string where
  "workspaces_tag = ''workspaces''"

definition tree_tag :: "string \<Rightarrow> string" where
  "tree_tag i = ''tree:'' @ i"

definition page_tag :: "string \<Rightarrow> string" where
  "page_tag i = ''page:'' @ i"

record data_query =
  dq_tags :: "string list option"
  dq_workspaceId :: "string option"

definition tagsOf :: "data_query \<Rightarrow> string list" where
  "tagsOf q = (case dq_tags q of None \<Rightarrow> [] | Some ts \<Rightarrow> ts)"

record data_changed =
  dc_tags :: "string list"
  dc_origin :: "string option"

datatype invalidation = StaleTags "string list" | StaleWorkspace string

record stale_state =
  ss_pending :: "string list"
  ss_timer :: bool
  ss_invalidated :: "invalidation list"

definition invalidates :: "invalidation \<Rightarrow> data_query \<Rightarrow> bool" where
  "invalidates stale q =
    (case stale of
      StaleTags ts \<Rightarrow> list_ex (\<lambda>t. t \<in> set ts) (tagsOf q)
    | StaleWorkspace w \<Rightarrow> dq_workspaceId q = Some w)"

definition flush_tags :: "stale_state \<Rightarrow> stale_state" where
  "flush_tags s = s\<lparr>ss_timer := False, ss_pending := [], ss_invalidated := ss_invalidated s @ [StaleTags (ss_pending s)]\<rparr>"

definition invalidateTags :: "string list \<Rightarrow> stale_state \<Rightarrow> stale_state" where
  "invalidateTags ts s = s\<lparr>ss_pending := fold List.insert ts (ss_pending s), ss_timer := True\<rparr>"

definition receiveDataChanged :: "string \<Rightarrow> data_changed \<Rightarrow> stale_state \<Rightarrow> stale_state" where
  "receiveDataChanged CLIENT_ID signal s =
    (if dc_origin signal = Some CLIENT_ID then s else invalidateTags (dc_tags signal) s)"

definition invalidateWorkspace :: "string \<Rightarrow> stale_state \<Rightarrow> stale_state" where
  "invalidateWorkspace w s = s\<lparr>ss_invalidated := ss_invalidated s @ [StaleWorkspace w]\<rparr>"

text \<open>The two \<open>onJoin\<close> of \<open>useDataRealtime\<close>, each with its own \<open>joinedBefore\<close>.\<close>

definition own_joined :: "bool \<times> stale_state \<Rightarrow> bool \<times> stale_state" where
  "own_joined p = (True, if fst p then invalidateTags [workspaces_tag] (snd p) else snd p)"

definition workspace_joined :: "string \<Rightarrow> bool \<times> stale_state \<Rightarrow> bool \<times> stale_state" where
  "workspace_joined w p = (True, if fst p then invalidateWorkspace w (snd p) else snd p)"

lemma set_fold_insert: "set (fold List.insert ts xs) = set ts \<union> set xs"
  by (induction ts arbitrary: xs) auto

text \<open>
  A signal of another tab is never lost: its tags wait with a timer running, and the flush takes
  all that wait, so every query carrying one of them is fetched again.
\<close>

lemma signal_refetched:
  assumes "dc_origin signal \<noteq> Some me" and "t \<in> set (dc_tags signal)" and "t \<in> set (tagsOf q)"
    and "s' = receiveDataChanged me signal s"
  shows "ss_timer s'" and "invalidates (last (ss_invalidated (flush_tags (invalidateTags others s')))) q"
proof -
  show "ss_timer s'" using assms(1,4) by (simp add: receiveDataChanged_def invalidateTags_def)
  have "t \<in> set (ss_pending s')" using assms(1,2,4) by (simp add: receiveDataChanged_def invalidateTags_def set_fold_insert)
  then have "t \<in> set (ss_pending (invalidateTags others s'))" by (simp add: invalidateTags_def set_fold_insert)
  then show "invalidates (last (ss_invalidated (flush_tags (invalidateTags others s')))) q"
    using assms(3) by (auto simp: flush_tags_def invalidates_def list_ex_iff)
qed

lemma own_echo_skipped: "dc_origin signal = Some me \<Longrightarrow> receiveDataChanged me signal s = s"
  by (simp add: receiveDataChanged_def)

end
