(* ===== verification/App_Shell.thy ===== *)
theory App_Shell
  imports Prelude Complex_Main
begin

text \<open>
  The application frame (\<open>ui-kit/src/components/AppShell\<close>, \<open>components/Resizer\<close>): what the frame shows
  for a width (\<open>resolveShell\<close>), the store of its state with the preferences kept in the browser, and
  the border that is dragged. Widths are rational numbers: the finite numbers of JavaScript; what is
  not one is \<open>NotFinite\<close>. The token values are those of \<open>tokens.generated.ts\<close>. Focus and scroll
  positions are in \<open>Shell_Frame\<close>; the styles written to the DOM are not modelled.
\<close>

section \<open>The layout\<close>

record shell_prefs =
  sp_sidebarWidth :: rat
  sp_sidebarCollapsed :: bool
  sp_panelWidth :: rat

datatype sidebar_mode = SidebarExpanded | SidebarCollapsed | SidebarAutoCollapsed

datatype panel_mode = PanelClosed | PanelDocked | PanelOverlay

record shell_layout =
  sl_sidebar :: sidebar_mode
  sl_sidebarPx :: rat
  sl_panel :: panel_mode
  sl_panelPx :: rat
  sl_canvasPx :: rat

definition BP_SIDEBAR :: rat where "BP_SIDEBAR = 1100"
definition BP_PANEL :: rat where "BP_PANEL = 900"
definition HYSTERESIS :: rat where "HYSTERESIS = 16"
definition OVERLAY_GUTTER :: rat where "OVERLAY_GUTTER = 24"

definition raw_sidebar_width :: rat where "raw_sidebar_width = 260"
definition raw_sidebar_min :: rat where "raw_sidebar_min = 200"
definition raw_sidebar_max :: rat where "raw_sidebar_max = 420"
definition raw_sidebar_snap :: rat where "raw_sidebar_snap = 140"
definition raw_sidebar_collapsed :: rat where "raw_sidebar_collapsed = 48"
definition raw_panel_width :: rat where "raw_panel_width = 420"
definition raw_panel_min :: rat where "raw_panel_min = 360"
definition raw_panel_max :: rat where "raw_panel_max = 640"
definition raw_canvas_min :: rat where "raw_canvas_min = 480"

lemmas shell_sizes = BP_SIDEBAR_def BP_PANEL_def HYSTERESIS_def OVERLAY_GUTTER_def raw_sidebar_width_def raw_sidebar_min_def
  raw_sidebar_max_def raw_sidebar_snap_def raw_sidebar_collapsed_def raw_panel_width_def raw_panel_min_def raw_panel_max_def
  raw_canvas_min_def

definition DEFAULT_PREFS :: shell_prefs where
  "DEFAULT_PREFS = \<lparr>sp_sidebarWidth = raw_sidebar_width, sp_sidebarCollapsed = False, sp_panelWidth = raw_panel_width\<rparr>"

definition clamp_width :: "rat \<Rightarrow> rat \<Rightarrow> rat \<Rightarrow> rat" where
  "clamp_width v lo hi = min hi (max lo v)"

datatype js_number = Num rat | NotFinite

text \<open>\<open>Partial<ShellPrefs>\<close>: a field may be missing, and what came from storage may be no number.\<close>

record partial_prefs =
  pp_sidebarWidth :: "js_number option"
  pp_sidebarCollapsed :: "bool option"
  pp_panelWidth :: "js_number option"

definition clampPrefs :: "partial_prefs \<Rightarrow> shell_prefs" where
  "clampPrefs p =
    \<lparr>sp_sidebarWidth = (case pp_sidebarWidth p of Some (Num x) \<Rightarrow> clamp_width x raw_sidebar_min raw_sidebar_max
       | _ \<Rightarrow> sp_sidebarWidth DEFAULT_PREFS),
     sp_sidebarCollapsed = (case pp_sidebarCollapsed p of Some b \<Rightarrow> b | None \<Rightarrow> sp_sidebarCollapsed DEFAULT_PREFS),
     sp_panelWidth = (case pp_panelWidth p of Some (Num x) \<Rightarrow> clamp_width x raw_panel_min raw_panel_max
       | _ \<Rightarrow> sp_panelWidth DEFAULT_PREFS)\<rparr>"

definition resolveShell :: "rat \<Rightarrow> shell_prefs \<Rightarrow> bool \<Rightarrow> shell_layout option \<Rightarrow> shell_layout" where
  "resolveShell vw prefs panelOpen previous =
    (let sidebarThreshold = (if map_option sl_sidebar previous = Some SidebarAutoCollapsed then BP_SIDEBAR + HYSTERESIS else BP_SIDEBAR);
         sidebar = (if vw < sidebarThreshold then SidebarAutoCollapsed
           else if sp_sidebarCollapsed prefs then SidebarCollapsed else SidebarExpanded);
         sidebarPx = (if sidebar = SidebarExpanded then sp_sidebarWidth prefs else raw_sidebar_collapsed)
     in if \<not> panelOpen
        then \<lparr>sl_sidebar = sidebar, sl_sidebarPx = sidebarPx, sl_panel = PanelClosed, sl_panelPx = 0, sl_canvasPx = vw - sidebarPx\<rparr>
        else (let panelThreshold = (if map_option sl_panel previous = Some PanelOverlay then BP_PANEL + HYSTERESIS else BP_PANEL);
                  room = vw - sidebarPx - raw_canvas_min
              in if panelThreshold \<le> vw \<and> raw_panel_min \<le> room
                 then (let panelPx = min (sp_panelWidth prefs) room
                       in \<lparr>sl_sidebar = sidebar, sl_sidebarPx = sidebarPx, sl_panel = PanelDocked, sl_panelPx = panelPx,
                           sl_canvasPx = vw - sidebarPx - panelPx\<rparr>)
                 else (let panelPx = max 0 (min (sp_panelWidth prefs) (vw - sidebarPx - OVERLAY_GUTTER))
                       in \<lparr>sl_sidebar = sidebar, sl_sidebarPx = sidebarPx, sl_panel = PanelOverlay, sl_panelPx = panelPx,
                           sl_canvasPx = vw - sidebarPx\<rparr>)))"

definition panelMaxFor :: "rat \<Rightarrow> shell_layout \<Rightarrow> rat" where
  "panelMaxFor vw l =
    (if sl_panel l = PanelOverlay
     then max raw_panel_min (min raw_panel_max (vw - sl_sidebarPx l - OVERLAY_GUTTER))
     else max raw_panel_min (min raw_panel_max (vw - sl_sidebarPx l - raw_canvas_min)))"

section \<open>The store\<close>

text \<open>What the browser keeps: nothing, something that cannot be read, or a version and preferences.\<close>

datatype shell_storage = StorageEmpty | StorageBroken | Stored "nat option" partial_prefs

definition VERSION :: nat where "VERSION = 1"

definition readPrefs :: "shell_storage \<Rightarrow> shell_prefs" where
  "readPrefs st =
    (case st of Stored v p \<Rightarrow> if v = Some VERSION then clampPrefs p else DEFAULT_PREFS | _ \<Rightarrow> DEFAULT_PREFS)"

definition all_prefs :: "shell_prefs \<Rightarrow> partial_prefs" where
  "all_prefs p = \<lparr>pp_sidebarWidth = Some (Num (sp_sidebarWidth p)), pp_sidebarCollapsed = Some (sp_sidebarCollapsed p),
    pp_panelWidth = Some (Num (sp_panelWidth p))\<rparr>"

text \<open>Whether the browser takes the write is an argument.\<close>

definition writePrefs :: "bool \<Rightarrow> shell_prefs \<Rightarrow> shell_storage \<Rightarrow> shell_storage" where
  "writePrefs writable p st = (if writable then Stored (Some VERSION) (all_prefs p) else st)"

record shell_state =
  sh_prefs :: shell_prefs
  sh_vw :: rat
  sh_panelOpen :: bool
  sh_peek :: bool
  sh_peekTarget :: "string option"
  sh_layout :: shell_layout
  sh_storage :: shell_storage

definition initialWidth :: "rat option \<Rightarrow> rat" where
  "initialWidth window = (case window of Some w \<Rightarrow> if 0 < w then w else 1280 | None \<Rightarrow> 1280)"

definition new_shell :: "rat option \<Rightarrow> shell_storage \<Rightarrow> shell_state" where
  "new_shell window st =
    (let prefs = readPrefs st; vw = initialWidth window
     in \<lparr>sh_prefs = prefs, sh_vw = vw, sh_panelOpen = False, sh_peek = False, sh_peekTarget = None,
         sh_layout = resolveShell vw prefs False None, sh_storage = st\<rparr>)"

definition peekFor :: "shell_state \<Rightarrow> shell_state" where
  "peekFor s = (if sl_sidebar (sh_layout s) = SidebarExpanded then s\<lparr>sh_peek := False, sh_peekTarget := None\<rparr> else s)"

definition relayout :: "shell_state \<Rightarrow> shell_layout" where
  "relayout s = resolveShell (sh_vw s) (sh_prefs s) (sh_panelOpen s) (Some (sh_layout s))"

definition setViewport :: "rat \<Rightarrow> shell_state \<Rightarrow> shell_state" where
  "setViewport vw s =
    (if vw = sh_vw s then s else (let s' = s\<lparr>sh_vw := vw\<rparr> in peekFor (s'\<lparr>sh_layout := relayout s'\<rparr>)))"

definition setPanelOpen :: "bool \<Rightarrow> shell_state \<Rightarrow> shell_state" where
  "setPanelOpen b s =
    (if b = sh_panelOpen s then s else (let s' = s\<lparr>sh_panelOpen := b\<rparr> in s'\<lparr>sh_layout := relayout s'\<rparr>))"

definition syncPrefs :: "shell_prefs \<Rightarrow> shell_state \<Rightarrow> shell_state" where
  "syncPrefs p s = (let s' = s\<lparr>sh_prefs := p\<rparr> in peekFor (s'\<lparr>sh_layout := relayout s'\<rparr>))"

definition merge_prefs :: "shell_prefs \<Rightarrow> partial_prefs \<Rightarrow> partial_prefs" where
  "merge_prefs p patch =
    \<lparr>pp_sidebarWidth = (case pp_sidebarWidth patch of None \<Rightarrow> Some (Num (sp_sidebarWidth p)) | x \<Rightarrow> x),
     pp_sidebarCollapsed = (case pp_sidebarCollapsed patch of None \<Rightarrow> Some (sp_sidebarCollapsed p) | x \<Rightarrow> x),
     pp_panelWidth = (case pp_panelWidth patch of None \<Rightarrow> Some (Num (sp_panelWidth p)) | x \<Rightarrow> x)\<rparr>"

definition commitPrefs :: "bool \<Rightarrow> partial_prefs \<Rightarrow> shell_state \<Rightarrow> shell_state" where
  "commitPrefs writable patch s =
    (let p = clampPrefs (merge_prefs (sh_prefs s) patch); s' = syncPrefs p s
     in s'\<lparr>sh_storage := writePrefs writable p (sh_storage s')\<rparr>)"

definition setPeek :: "bool \<Rightarrow> shell_state \<Rightarrow> shell_state" where
  "setPeek b s =
    (if b then s\<lparr>sh_peek := (sl_sidebar (sh_layout s) \<noteq> SidebarExpanded)\<rparr> else s\<lparr>sh_peek := False, sh_peekTarget := None\<rparr>)"

definition openPeek :: "string option \<Rightarrow> shell_state \<Rightarrow> shell_state" where
  "openPeek target s =
    (if sl_sidebar (sh_layout s) \<noteq> SidebarExpanded then s\<lparr>sh_peek := True, sh_peekTarget := target\<rparr> else s)"

definition no_patch :: partial_prefs where
  "no_patch = \<lparr>pp_sidebarWidth = None, pp_sidebarCollapsed = None, pp_panelWidth = None\<rparr>"

definition toggleSidebar :: "bool \<Rightarrow> shell_state \<Rightarrow> shell_state" where
  "toggleSidebar writable s =
    (if sl_sidebar (sh_layout s) = SidebarAutoCollapsed then setPeek (\<not> sh_peek s) s
     else commitPrefs writable (no_patch\<lparr>pp_sidebarCollapsed := Some (\<not> sp_sidebarCollapsed (sh_prefs s))\<rparr>) s)"

definition sidebarView_full :: "shell_state \<Rightarrow> bool" where
  "sidebarView_full s \<longleftrightarrow> sl_sidebar (sh_layout s) = SidebarExpanded \<or> sh_peek s"

definition resetWidths :: "bool \<Rightarrow> shell_state \<Rightarrow> shell_state" where
  "resetWidths writable s = commitPrefs writable (no_patch\<lparr>pp_sidebarWidth := Some (Num (sp_sidebarWidth DEFAULT_PREFS)),
    pp_panelWidth := Some (Num (sp_panelWidth DEFAULT_PREFS))\<rparr>) s"

section \<open>The frame\<close>

text \<open>\<open>measure\<close>: the frame's width, rounded; a frame that is not laid out keeps the last.\<close>

definition measure_frame :: "rat \<Rightarrow> shell_state \<Rightarrow> shell_state" where
  "measure_frame width s = (if 0 < width then setViewport (of_int \<lfloor>width + 1 / 2\<rfloor>) s else s)"

text \<open>The layout of a render: the store learns about the panel in an effect.\<close>

definition render_layout :: "bool \<Rightarrow> shell_state \<Rightarrow> shell_layout" where
  "render_layout panelOpen s =
    (if sh_panelOpen s = panelOpen then sh_layout s
     else resolveShell (sh_vw s) (sh_prefs s) panelOpen (Some (sh_layout s)))"

text \<open>A gesture's draft of the preferences, and the handlers the borders call.\<close>

type_synonym frame = "shell_prefs option \<times> shell_state"

definition live_draft :: "(shell_prefs \<Rightarrow> shell_prefs) \<Rightarrow> frame \<Rightarrow> frame" where
  "live_draft patch f = (Some (patch (case fst f of None \<Rightarrow> sh_prefs (snd f) | Some d \<Rightarrow> d)), snd f)"

definition painted :: "bool \<Rightarrow> frame \<Rightarrow> shell_layout" where
  "painted panelOpen f =
    (let layout = render_layout panelOpen (snd f)
     in (case fst f of None \<Rightarrow> layout | Some d \<Rightarrow> resolveShell (sh_vw (snd f)) d panelOpen (Some layout)))"

definition snapSidebar :: "bool \<Rightarrow> frame \<Rightarrow> frame" where
  "snapSidebar collapsed f =
    (let (d, s) = live_draft (\<lambda>p. p\<lparr>sp_sidebarCollapsed := collapsed\<rparr>) f
     in (d, syncPrefs ((sh_prefs s)\<lparr>sp_sidebarCollapsed := collapsed\<rparr>) s))"

definition commitSidebar :: "bool \<Rightarrow> rat \<Rightarrow> frame \<Rightarrow> frame" where
  "commitSidebar writable px f =
    (let collapsed = (case fst f of None \<Rightarrow> sp_sidebarCollapsed (sh_prefs (snd f)) | Some d \<Rightarrow> sp_sidebarCollapsed d)
     in (None, commitPrefs writable
          (if collapsed then no_patch\<lparr>pp_sidebarCollapsed := Some True\<rparr>
           else no_patch\<lparr>pp_sidebarCollapsed := Some False, pp_sidebarWidth := Some (Num px)\<rparr>) (snd f)))"

definition commitPanel :: "bool \<Rightarrow> rat \<Rightarrow> frame \<Rightarrow> frame" where
  "commitPanel writable px f = (None, commitPrefs writable (no_patch\<lparr>pp_panelWidth := Some (Num px)\<rparr>) (snd f))"

text \<open>Esc: the peek, then the panel, if the app lets Esc close it; whether the press was taken.\<close>

definition frame_escape :: "bool \<Rightarrow> bool \<Rightarrow> shell_state \<Rightarrow> shell_state \<times> bool \<times> bool" where
  "frame_escape panelOpen closable s =
    (if sh_peek s then (setPeek False s, False, True)
     else if panelOpen \<and> closable then (s, True, True)
     else (s, False, False))"

section \<open>The border that is dragged\<close>

record resizer_props =
  rp_sidebar :: bool
  rp_value :: rat
  rp_min :: rat
  rp_max :: rat
  rp_default :: rat
  rp_snapBelow :: "rat option"
  rp_collapsed :: bool

record resizer_gesture =
  rg_startX :: rat
  rg_base :: rat
  rg_width :: rat
  rg_snapped :: bool

text \<open>What a border tells its frame: a live width, a finished one, or a snap.\<close>

datatype resizer_call = CallLive rat | CallCommit rat | CallSnap bool

record resizer_state =
  rz_gesture :: "resizer_gesture option"
  rz_frame :: bool
  rz_pendingX :: rat
  rz_keyWidth :: "rat option"
  rz_dragging :: bool
  rz_atLimit :: bool

definition new_resizer :: resizer_state where
  "new_resizer = \<lparr>rz_gesture = None, rz_frame = False, rz_pendingX = 0, rz_keyWidth = None, rz_dragging = False, rz_atLimit = False\<rparr>"

definition direction :: "resizer_props \<Rightarrow> rat" where
  "direction p = (if rp_sidebar p then 1 else - 1)"

definition reach :: "resizer_props \<Rightarrow> rat \<Rightarrow> resizer_state \<Rightarrow> resizer_state \<times> resizer_call list" where
  "reach p rawWidth s =
    (case rz_gesture s of
      None \<Rightarrow> (s, [])
    | Some g \<Rightarrow>
        (let snapped = (case rp_snapBelow p of None \<Rightarrow> False | Some b \<Rightarrow> rawWidth < b);
             snap = (if snapped \<noteq> rg_snapped g then [CallSnap snapped] else []);
             width = (if snapped then rg_width g else clamp_width rawWidth (rp_min p) (rp_max p));
             live = (if snapped then [] else [CallLive width])
         in (s\<lparr>rz_gesture := Some (g\<lparr>rg_snapped := snapped, rg_width := width\<rparr>),
               rz_atLimit := (\<not> snapped \<and> (rawWidth < rp_min p \<or> rp_max p < rawWidth))\<rparr>, snap @ live)))"

definition pointer_down :: "resizer_props \<Rightarrow> bool \<Rightarrow> rat \<Rightarrow> resizer_state \<Rightarrow> resizer_state" where
  "pointer_down p main clientX s =
    (if \<not> main then s
     else s\<lparr>rz_gesture := Some \<lparr>rg_startX = clientX, rg_base = rp_value p, rg_width = rp_value p, rg_snapped = rp_collapsed p\<rparr>,
       rz_dragging := True\<rparr>)"

definition pointer_move :: "rat \<Rightarrow> resizer_state \<Rightarrow> resizer_state" where
  "pointer_move clientX s = (if rz_gesture s = None then s else s\<lparr>rz_pendingX := clientX, rz_frame := True\<rparr>)"

text \<open>The animation frame a move asked for.\<close>

definition pointer_frame :: "resizer_props \<Rightarrow> resizer_state \<Rightarrow> resizer_state \<times> resizer_call list" where
  "pointer_frame p s =
    (if \<not> rz_frame s then (s, [])
     else (let s' = s\<lparr>rz_frame := False\<rparr>
           in (case rz_gesture s of
                None \<Rightarrow> (s', [])
              | Some g \<Rightarrow> reach p (rg_base g + (rz_pendingX s - rg_startX g) * direction p) s')))"

definition endGesture :: "resizer_props \<Rightarrow> rat \<Rightarrow> resizer_state \<Rightarrow> resizer_state \<times> resizer_call list" where
  "endGesture p clientX s =
    (case rz_gesture s of
      None \<Rightarrow> (s, [])
    | Some g \<Rightarrow>
        (let (s1, calls) = (if rz_frame s
               then reach p (rg_base g + (clientX - rg_startX g) * direction p) (s\<lparr>rz_frame := False\<rparr>) else (s, []));
             width = (case rz_gesture s1 of None \<Rightarrow> rg_width g | Some g1 \<Rightarrow> rg_width g1)
         in (s1\<lparr>rz_gesture := None, rz_dragging := False, rz_atLimit := False\<rparr>, calls @ [CallCommit width])))"

definition reset_width :: "resizer_props \<Rightarrow> resizer_call list" where
  "reset_width p = (if rp_collapsed p then [CallSnap False] else []) @ [CallLive (rp_default p), CallCommit (rp_default p)]"

datatype resizer_key = KeyRight | KeyLeft | KeyHome | KeyEnd | KeyEnter | KeyOther

definition key_width :: "resizer_props \<Rightarrow> bool \<Rightarrow> resizer_key \<Rightarrow> resizer_state \<Rightarrow> rat" where
  "key_width p shift k s =
    (let by = (if shift then 64 else 16) * direction p;
         start = (case rz_keyWidth s of None \<Rightarrow> rp_value p | Some w \<Rightarrow> w)
     in (case k of
          KeyRight \<Rightarrow> if rp_collapsed p \<and> rp_sidebar p then rp_min p else start + by
        | KeyLeft \<Rightarrow> start - by
        | KeyHome \<Rightarrow> rp_min p
        | _ \<Rightarrow> rp_max p))"

definition resizer_keydown :: "resizer_props \<Rightarrow> bool \<Rightarrow> resizer_key \<Rightarrow> resizer_state \<Rightarrow> resizer_state \<times> resizer_call list" where
  "resizer_keydown p shift k s =
    (if k = KeyOther then (s, [])
     else if k = KeyEnter then (s, reset_width p)
     else (let width = key_width p shift k s
           in if rp_snapBelow p \<noteq> None \<and> width < rp_min p \<and> \<not> rp_collapsed p
              then (s\<lparr>rz_keyWidth := None\<rparr>, [CallSnap True, CallCommit (rp_value p)])
              else if rp_collapsed p \<and> width < rp_min p then (s, [])
              else (let w = clamp_width width (rp_min p) (rp_max p)
                    in (s\<lparr>rz_atLimit := (width < rp_min p \<or> rp_max p < width), rz_keyWidth := Some w\<rparr>,
                        (if rp_collapsed p then [CallSnap False] else []) @ [CallLive w]))))"

definition resizer_keyup :: "resizer_state \<Rightarrow> resizer_state \<times> resizer_call list" where
  "resizer_keyup s =
    (case rz_keyWidth s of
      None \<Rightarrow> (s, [])
    | Some w \<Rightarrow> (s\<lparr>rz_keyWidth := None, rz_atLimit := False\<rparr>, [CallCommit w]))"

text \<open>The two borders of the frame, and what the frame does with what they tell.\<close>

definition sidebar_border :: "shell_layout \<Rightarrow> resizer_props" where
  "sidebar_border l = \<lparr>rp_sidebar = True,
    rp_value = (if sl_sidebar l \<noteq> SidebarExpanded then raw_sidebar_collapsed else sl_sidebarPx l),
    rp_min = raw_sidebar_min, rp_max = raw_sidebar_max, rp_default = raw_sidebar_width, rp_snapBelow = Some raw_sidebar_snap,
    rp_collapsed = (sl_sidebar l \<noteq> SidebarExpanded)\<rparr>"

definition panel_border :: "rat \<Rightarrow> shell_layout \<Rightarrow> resizer_props" where
  "panel_border vw l = \<lparr>rp_sidebar = False, rp_value = sl_panelPx l, rp_min = raw_panel_min, rp_max = panelMaxFor vw l,
    rp_default = raw_panel_width, rp_snapBelow = None, rp_collapsed = False\<rparr>"

fun sidebar_call :: "bool \<Rightarrow> frame \<Rightarrow> resizer_call \<Rightarrow> frame" where
  "sidebar_call writable f (CallLive px) = live_draft (\<lambda>p. p\<lparr>sp_sidebarWidth := px\<rparr>) f"
| "sidebar_call writable f (CallCommit px) = commitSidebar writable px f"
| "sidebar_call writable f (CallSnap b) = snapSidebar b f"

fun panel_call :: "bool \<Rightarrow> frame \<Rightarrow> resizer_call \<Rightarrow> frame" where
  "panel_call writable f (CallLive px) = live_draft (\<lambda>p. p\<lparr>sp_panelWidth := px\<rparr>) f"
| "panel_call writable f (CallCommit px) = commitPanel writable px f"
| "panel_call writable f (CallSnap b) = f"

section \<open>The state is always sound\<close>

definition prefs_ok :: "shell_prefs \<Rightarrow> bool" where
  "prefs_ok p \<longleftrightarrow> raw_sidebar_min \<le> sp_sidebarWidth p \<and> sp_sidebarWidth p \<le> raw_sidebar_max \<and>
    raw_panel_min \<le> sp_panelWidth p \<and> sp_panelWidth p \<le> raw_panel_max"

definition shell_ok :: "shell_state \<Rightarrow> bool" where
  "shell_ok s \<longleftrightarrow> prefs_ok (sh_prefs s) \<and> relayout s = sh_layout s \<and>
    (sh_peek s \<longrightarrow> sl_sidebar (sh_layout s) \<noteq> SidebarExpanded)"

definition layout_fits :: "rat \<Rightarrow> shell_prefs \<Rightarrow> bool \<Rightarrow> shell_layout \<Rightarrow> bool" where
  "layout_fits vw p isOpen l \<longleftrightarrow>
    (sl_panel l = PanelClosed \<longleftrightarrow> \<not> isOpen) \<and>
    sl_sidebarPx l = (if sl_sidebar l = SidebarExpanded then sp_sidebarWidth p else raw_sidebar_collapsed) \<and>
    0 \<le> sl_panelPx l \<and> sl_panelPx l \<le> sp_panelWidth p \<and>
    (sl_panel l = PanelDocked \<longrightarrow> raw_panel_min \<le> sl_panelPx l \<and> raw_canvas_min \<le> sl_canvasPx l \<and>
      sl_sidebarPx l + sl_panelPx l + sl_canvasPx l = vw) \<and>
    (sl_panel l \<noteq> PanelDocked \<longrightarrow> sl_sidebarPx l + sl_canvasPx l = vw)"

lemma clamp_width_in: "lo \<le> hi \<Longrightarrow> lo \<le> clamp_width x lo hi \<and> clamp_width x lo hi \<le> hi"
  by (auto simp: clamp_width_def)

lemma clamp_width_id: "lo \<le> x \<Longrightarrow> x \<le> hi \<Longrightarrow> clamp_width x lo hi = x"
  by (auto simp: clamp_width_def)

lemma clampPrefs_ok: "prefs_ok (clampPrefs p)"
  using clamp_width_in [of raw_sidebar_min raw_sidebar_max] clamp_width_in [of raw_panel_min raw_panel_max]
  by (auto simp: prefs_ok_def clampPrefs_def DEFAULT_PREFS_def shell_sizes split: option.split js_number.split)

lemma readPrefs_ok: "prefs_ok (readPrefs st)"
  using clampPrefs_ok by (auto simp: readPrefs_def prefs_ok_def DEFAULT_PREFS_def shell_sizes split: shell_storage.split)

text \<open>What was written is read back as it was, in this tab and in another.\<close>

lemma read_written: "prefs_ok p \<Longrightarrow> readPrefs (writePrefs True p st) = p"
  by (simp add: readPrefs_def writePrefs_def clampPrefs_def all_prefs_def prefs_ok_def clamp_width_id VERSION_def)

text \<open>The two decisions of a layout, apart from what came before: the sidebar's mode and the docking.\<close>

definition sidebar_for :: "rat \<Rightarrow> shell_prefs \<Rightarrow> bool \<Rightarrow> sidebar_mode" where
  "sidebar_for vw p auto =
    (if vw < (if auto then BP_SIDEBAR + HYSTERESIS else BP_SIDEBAR) then SidebarAutoCollapsed
     else if sp_sidebarCollapsed p then SidebarCollapsed else SidebarExpanded)"

definition sidebar_px :: "shell_prefs \<Rightarrow> sidebar_mode \<Rightarrow> rat" where
  "sidebar_px p sb = (if sb = SidebarExpanded then sp_sidebarWidth p else raw_sidebar_collapsed)"

definition docks :: "rat \<Rightarrow> rat \<Rightarrow> bool \<Rightarrow> bool" where
  "docks vw px over \<longleftrightarrow> (if over then BP_PANEL + HYSTERESIS else BP_PANEL) \<le> vw \<and> raw_panel_min \<le> vw - px - raw_canvas_min"

definition layout_of :: "rat \<Rightarrow> shell_prefs \<Rightarrow> bool \<Rightarrow> sidebar_mode \<Rightarrow> bool \<Rightarrow> shell_layout" where
  "layout_of vw p isOpen sb docked =
    (let px = sidebar_px p sb in
     if \<not> isOpen then \<lparr>sl_sidebar = sb, sl_sidebarPx = px, sl_panel = PanelClosed, sl_panelPx = 0, sl_canvasPx = vw - px\<rparr>
     else if docked then (let w = min (sp_panelWidth p) (vw - px - raw_canvas_min) in
       \<lparr>sl_sidebar = sb, sl_sidebarPx = px, sl_panel = PanelDocked, sl_panelPx = w, sl_canvasPx = vw - px - w\<rparr>)
     else \<lparr>sl_sidebar = sb, sl_sidebarPx = px, sl_panel = PanelOverlay,
       sl_panelPx = max 0 (min (sp_panelWidth p) (vw - px - OVERLAY_GUTTER)), sl_canvasPx = vw - px\<rparr>)"

lemma resolve_parts:
  "resolveShell vw p isOpen prev =
    (let sb = sidebar_for vw p (map_option sl_sidebar prev = Some SidebarAutoCollapsed)
     in layout_of vw p isOpen sb (docks vw (sidebar_px p sb) (map_option sl_panel prev = Some PanelOverlay)))"
  unfolding resolveShell_def Let_def sidebar_for_def sidebar_px_def docks_def layout_of_def by simp

lemma layout_of_parts:
  "sl_sidebar (layout_of vw p isOpen sb d) = sb"
  "sl_panel (layout_of vw p isOpen sb d) = (if \<not> isOpen then PanelClosed else if d then PanelDocked else PanelOverlay)"
  by (simp_all add: layout_of_def Let_def)

lemma sidebar_for_again: "sidebar_for vw p (sidebar_for vw p auto = SidebarAutoCollapsed) = sidebar_for vw p auto"
  by (simp add: sidebar_for_def shell_sizes)

lemma docks_again: "isOpen \<Longrightarrow> docks vw px (\<not> docks vw px over) = docks vw px over"
  by (auto simp: docks_def shell_sizes)

lemma resolve_again: "resolveShell vw p isOpen (Some (resolveShell vw p isOpen prev)) = resolveShell vw p isOpen prev"
proof -
  let ?sb = "sidebar_for vw p (map_option sl_sidebar prev = Some SidebarAutoCollapsed)"
  let ?d = "docks vw (sidebar_px p ?sb) (map_option sl_panel prev = Some PanelOverlay)"
  let ?l = "layout_of vw p isOpen ?sb ?d"
  have l: "resolveShell vw p isOpen prev = ?l" by (simp only: resolve_parts Let_def)
  have sb: "sidebar_for vw p (map_option sl_sidebar (Some ?l) = Some SidebarAutoCollapsed) = ?sb"
    using sidebar_for_again by (simp add: layout_of_parts)
  have "layout_of vw p isOpen ?sb (docks vw (sidebar_px p ?sb) (map_option sl_panel (Some ?l) = Some PanelOverlay)) = ?l"
  proof (cases isOpen)
    case True
    then have "(map_option sl_panel (Some ?l) = Some PanelOverlay) = (\<not> ?d)" by (simp add: layout_of_parts)
    then show ?thesis using docks_again [OF True] by simp
  qed (simp add: layout_of_def)
  then show ?thesis unfolding l using sb by (simp only: resolve_parts Let_def)
qed

lemma layout_of_fits:
  assumes "prefs_ok p" and "d \<Longrightarrow> raw_panel_min \<le> vw - sidebar_px p sb - raw_canvas_min"
  shows "layout_fits vw p isOpen (layout_of vw p isOpen sb d)"
proof -
  have pw: "0 \<le> sp_panelWidth p" "raw_panel_min \<le> sp_panelWidth p" using assms(1) by (simp_all add: prefs_ok_def shell_sizes)
  consider "\<not> isOpen" | "isOpen" "d" | "isOpen" "\<not> d" by blast
  then show ?thesis
  proof cases
    case 1
    then show ?thesis using pw by (simp add: layout_fits_def layout_of_def sidebar_px_def Let_def)
  next
    case 2
    let ?w = "min (sp_panelWidth p) (vw - sidebar_px p sb - raw_canvas_min)"
    have "raw_panel_min \<le> ?w" "?w \<le> sp_panelWidth p" "?w \<le> vw - sidebar_px p sb - raw_canvas_min"
      using pw(2) assms(2) [OF 2(2)] by simp_all
    moreover have "0 \<le> raw_panel_min" by (simp add: shell_sizes)
    ultimately have "0 \<le> ?w" "raw_canvas_min \<le> vw - sidebar_px p sb - ?w" by linarith+
    then show ?thesis using 2 \<open>raw_panel_min \<le> ?w\<close> \<open>?w \<le> sp_panelWidth p\<close>
      by (simp add: layout_fits_def layout_of_def sidebar_px_def Let_def)
  next
    case 3
    then show ?thesis using pw by (simp add: layout_fits_def layout_of_def sidebar_px_def Let_def)
  qed
qed

lemma resolve_fits: "prefs_ok p \<Longrightarrow> layout_fits vw p isOpen (resolveShell vw p isOpen prev)"
  unfolding resolve_parts Let_def by (rule layout_of_fits) (simp_all add: docks_def)

text \<open>Away from the thresholds what came before does not matter.\<close>

lemma resolve_settled:
  assumes "\<not> (BP_SIDEBAR \<le> vw \<and> vw < BP_SIDEBAR + HYSTERESIS)" and "\<not> (BP_PANEL \<le> vw \<and> vw < BP_PANEL + HYSTERESIS)"
  shows "resolveShell vw p isOpen prev = resolveShell vw p isOpen None"
proof -
  have s: "sidebar_for vw p auto = sidebar_for vw p auto'" for auto auto'
    using assms(1) by (auto simp: sidebar_for_def shell_sizes)
  have d: "docks vw px over = docks vw px over'" for px over over'
    using assms(2) by (auto simp: docks_def shell_sizes)
  show ?thesis unfolding resolve_parts Let_def
    unfolding s [of "map_option sl_sidebar prev = Some SidebarAutoCollapsed" "map_option sl_sidebar (None :: shell_layout option) = Some SidebarAutoCollapsed"]
    by (rule arg_cong [where f = "layout_of vw p isOpen _"], rule d)
qed

text \<open>Between them nothing flips: a sidebar the window collapsed stays so until it is well past the threshold.\<close>

lemma resolve_hysteresis:
  assumes "sl_sidebar prev = SidebarAutoCollapsed" and "vw < BP_SIDEBAR + HYSTERESIS"
  shows "sl_sidebar (resolveShell vw p isOpen (Some prev)) = SidebarAutoCollapsed"
  using assms by (simp add: resolveShell_def Let_def)

lemma sidebar_any_panel: "sl_sidebar (resolveShell vw p isOpen prev) = sl_sidebar (resolveShell vw p isOpen' prev)"
  by (simp add: resolveShell_def Let_def)

lemma peekFor_ok:
  assumes "prefs_ok (sh_prefs s)" and "sh_layout s = relayout s'" and "sh_vw s = sh_vw s'" and "sh_prefs s = sh_prefs s'"
    and "sh_panelOpen s = sh_panelOpen s'"
  shows "shell_ok (peekFor s)"
proof -
  have "relayout s = sh_layout s" using assms(2-5) resolve_again by (simp add: relayout_def)
  then show ?thesis using assms(1) by (simp add: shell_ok_def peekFor_def relayout_def)
qed

lemma syncPrefs_ok: "prefs_ok p \<Longrightarrow> shell_ok (syncPrefs p s)"
  unfolding syncPrefs_def Let_def by (rule peekFor_ok [where s' = "s\<lparr>sh_prefs := p\<rparr>"]) simp_all

lemma setViewport_ok: "shell_ok s \<Longrightarrow> shell_ok (setViewport vw s)"
  unfolding setViewport_def Let_def
  by (simp, intro impI peekFor_ok [where s' = "s\<lparr>sh_vw := vw\<rparr>"]) (simp_all add: shell_ok_def)

lemma setPanelOpen_ok:
  assumes "shell_ok s"
  shows "shell_ok (setPanelOpen b s)"
proof -
  let ?l = "resolveShell (sh_vw s) (sh_prefs s) b (Some (sh_layout s))"
  have "sl_sidebar ?l = sl_sidebar (sh_layout s)"
    using assms sidebar_any_panel unfolding shell_ok_def relayout_def by metis
  then have "sh_peek s \<longrightarrow> sl_sidebar ?l \<noteq> SidebarExpanded" using assms by (simp add: shell_ok_def)
  then show ?thesis using assms resolve_again [of "sh_vw s" "sh_prefs s" b "Some (sh_layout s)"]
    by (cases "b = sh_panelOpen s") (simp_all add: shell_ok_def setPanelOpen_def Let_def relayout_def)
qed

lemma commitPrefs_ok: "shell_ok (commitPrefs writable patch s)"
proof -
  have "shell_ok (s\<lparr>sh_storage := st\<rparr>) = shell_ok s" for s st by (simp add: shell_ok_def relayout_def)
  then show ?thesis using syncPrefs_ok [OF clampPrefs_ok] by (simp add: commitPrefs_def Let_def)
qed

lemma setPeek_ok: "shell_ok s \<Longrightarrow> shell_ok (setPeek b s)" and openPeek_ok: "shell_ok s \<Longrightarrow> shell_ok (openPeek t s)"
  by (auto simp: shell_ok_def setPeek_def openPeek_def relayout_def)

datatype shell_event =
  ShMeasure rat | ShPanel bool | ShCommit bool partial_prefs | ShSync shell_storage | ShSnap bool | ShPeek bool |
  ShOpenPeek "string option" | ShToggle bool | ShReset bool

fun shell_step :: "shell_state \<Rightarrow> shell_event \<Rightarrow> shell_state" where
  "shell_step s (ShMeasure w) = measure_frame w s"
| "shell_step s (ShPanel b) = setPanelOpen b s"
| "shell_step s (ShCommit w patch) = commitPrefs w patch s"
| "shell_step s (ShSync st) = syncPrefs (readPrefs st) (s\<lparr>sh_storage := st\<rparr>)"
| "shell_step s (ShSnap b) = syncPrefs ((sh_prefs s)\<lparr>sp_sidebarCollapsed := b\<rparr>) s"
| "shell_step s (ShPeek b) = setPeek b s"
| "shell_step s (ShOpenPeek t) = openPeek t s"
| "shell_step s (ShToggle w) = toggleSidebar w s"
| "shell_step s (ShReset w) = resetWidths w s"

lemma shell_step_ok: "shell_ok s \<Longrightarrow> shell_ok (shell_step s e)"
proof (cases e)
  case (ShSnap b)
  assume "shell_ok s"
  then have "prefs_ok ((sh_prefs s)\<lparr>sp_sidebarCollapsed := b\<rparr>)" by (simp add: shell_ok_def prefs_ok_def)
  then show ?thesis using ShSnap syncPrefs_ok by simp
qed (auto simp: measure_frame_def toggleSidebar_def resetWidths_def setViewport_ok setPanelOpen_ok commitPrefs_ok
    syncPrefs_ok readPrefs_ok setPeek_ok openPeek_ok)

interpretation shell: event_machine shell_step "\<lambda>s e. True" shell_ok
  by unfold_locales (rule shell_step_ok)

section \<open>Properties\<close>

text \<open>
  C26: Whatever the window, the user and another tab do: the preferences are within their limits,
  the widths fill the frame, a docked panel leaves the canvas its minimum and never gets narrower
  than its own, a peek is open only over a collapsed sidebar, laying the frame out again changes
  nothing, and away from the two thresholds the layout is that of a fresh start, so a window
  narrowed and widened back shows what it showed.
\<close>

theorem shell_always_sound:
  assumes "s = foldl shell_step (new_shell window st) es"
  shows "prefs_ok (sh_prefs s) \<and> layout_fits (sh_vw s) (sh_prefs s) (sh_panelOpen s) (sh_layout s) \<and>
    (sh_peek s \<longrightarrow> sl_sidebar (sh_layout s) \<noteq> SidebarExpanded) \<and> relayout s = sh_layout s \<and>
    (\<not> (BP_SIDEBAR \<le> sh_vw s \<and> sh_vw s < BP_SIDEBAR + HYSTERESIS) \<and> \<not> (BP_PANEL \<le> sh_vw s \<and> sh_vw s < BP_PANEL + HYSTERESIS) \<longrightarrow>
      sh_layout s = resolveShell (sh_vw s) (sh_prefs s) (sh_panelOpen s) None)"
proof -
  have "shell_ok (new_shell window st)"
    using readPrefs_ok resolve_again by (simp add: new_shell_def shell_ok_def relayout_def Let_def)
  moreover have "admissible shell_step (\<lambda>s e. True) t es" for t by (rule admissible_all)
  ultimately have ok: "shell_ok s" using shell.run_inv assms by blast
  then have fixed: "sh_layout s = resolveShell (sh_vw s) (sh_prefs s) (sh_panelOpen s) (Some (sh_layout s))"
    by (simp add: shell_ok_def relayout_def)
  have "layout_fits (sh_vw s) (sh_prefs s) (sh_panelOpen s) (sh_layout s)"
    using resolve_fits fixed ok by (metis shell_ok_def)
  then show ?thesis using ok fixed resolve_settled unfolding shell_ok_def by metis
qed

theorem shell_always_sound_witness:
  "sl_panel (sh_layout (foldl shell_step (new_shell (Some 1000) StorageEmpty) [ShPanel True, ShMeasure 1400])) \<noteq> PanelClosed"
proof -
  let ?s = "foldl shell_step (new_shell (Some 1000) StorageEmpty) [ShPanel True, ShMeasure 1400]"
  have "layout_fits (sh_vw ?s) (sh_prefs ?s) (sh_panelOpen ?s) (sh_layout ?s)"
    using shell_always_sound [OF refl] by blast
  moreover have "sh_panelOpen ?s"
    by (simp add: new_shell_def measure_frame_def setViewport_def setPanelOpen_def peekFor_def Let_def)
  ultimately show ?thesis unfolding layout_fits_def by blast
qed

end
