(* ===== verification/Shell_Frame.thy ===== *)
theory Shell_Frame
  imports App_Shell Form_Controls
begin

text \<open>
  The rest of the application frame (\<open>ui-kit/src/components/AppShell/AppShell.tsx\<close>): the scroll of the canvas by route,
  the focus that comes back when the peek or the panel closes, the panel that fades out. Where focus is,
  is one of the frame's parts; elements outside it are numbers. An event says what the browser does: focus
  on a part that goes out of the DOM is on the body, and a position scrolled to is kept within the content.
\<close>

section \<open>The canvas and its scroll\<close>

text \<open>
  \<open>cs_key\<close> is the \<open>scrollKey\<close> of the last render, \<open>cs_top\<close> the ref \<open>scrollTop\<close>, \<open>cs_canvas\<close> the element's own position,
  \<open>cs_max\<close> the most its content allows, \<open>cs_positions\<close> the map of the module.
\<close>

record canvas_scroll =
  cs_key :: "string option"
  cs_top :: int
  cs_canvas :: int
  cs_max :: int
  cs_positions :: "(string, int) js_map"

definition new_canvas :: "(string, int) js_map \<Rightarrow> canvas_scroll" where
  "new_canvas positions = \<lparr>cs_key = None, cs_top = 0, cs_canvas = 0, cs_max = 0, cs_positions = positions\<rparr>"

definition in_content :: "int \<Rightarrow> int \<Rightarrow> int" where
  "in_content m y = max 0 (min m y)"

text \<open>The effect's cleanup and the effect, of another key or of the unmount (\<open>None\<close>).\<close>

definition scroll_cleanup :: "canvas_scroll \<Rightarrow> canvas_scroll" where
  "scroll_cleanup s = (case cs_key s of None \<Rightarrow> s | Some k \<Rightarrow> s\<lparr>cs_positions := js_set k (cs_top s) (cs_positions s)\<rparr>)"

definition scroll_effect :: "string option \<Rightarrow> canvas_scroll \<Rightarrow> canvas_scroll" where
  "scroll_effect key s =
    (case key of
      None \<Rightarrow> s\<lparr>cs_key := None\<rparr>
    | Some k \<Rightarrow>
        (let y = in_content (cs_max s) (case js_get (cs_positions s) k of Some y \<Rightarrow> y | None \<Rightarrow> 0)
         in s\<lparr>cs_key := Some k, cs_canvas := y, cs_top := y\<rparr>))"

datatype scroll_event = RouteIs "string option" int | CanvasScrolled int

text \<open>A render with a key and its content's most; whether the peek is closed (it is a navigation) is \<open>route_closes_peek\<close>.\<close>

definition scroll_step :: "canvas_scroll \<Rightarrow> scroll_event \<Rightarrow> canvas_scroll" where
  "scroll_step s e =
    (case e of
      RouteIs key m \<Rightarrow>
        (let s1 = s\<lparr>cs_max := m\<rparr> in if key = cs_key s then s1 else scroll_effect key (scroll_cleanup s1))
    | CanvasScrolled y \<Rightarrow> (let z = in_content (cs_max s) y in s\<lparr>cs_canvas := z, cs_top := z\<rparr>))"

definition route_closes_peek :: "canvas_scroll \<Rightarrow> string option \<Rightarrow> shell_state \<Rightarrow> shell_state" where
  "route_closes_peek s key sh = (if key \<noteq> cs_key s \<and> key \<noteq> None then setPeek False sh else sh)"

section \<open>Where focus is\<close>

datatype frame_place = OnBody | OnCanvas | InSidebar nat | InPanel nat | OnPanelBorder | Outside nat

text \<open>\<open>ff_active\<close> is the document's active element; \<open>ff_beforePeek\<close> and \<open>ff_inPanel\<close> are the refs.\<close>

record frame_focus =
  ff_active :: frame_place
  ff_peek :: bool
  ff_panelOpen :: bool
  ff_beforePeek :: "frame_place option"
  ff_inPanel :: bool

definition new_focus :: frame_focus where
  "new_focus = \<lparr>ff_active = OnBody, ff_peek = False, ff_panelOpen = False, ff_beforePeek = None, ff_inPanel = False\<rparr>"

fun in_sidebar :: "frame_place \<Rightarrow> bool" where
  "in_sidebar (InSidebar _) = True"
| "in_sidebar _ = False"

fun in_panel :: "frame_place \<Rightarrow> bool" where
  "in_panel (InPanel _) = True"
| "in_panel _ = False"

text \<open>The listener of \<open>focusin\<close>: the panel's border counts as the panel. The body gets no such event.\<close>

definition track_focus :: "frame_place \<Rightarrow> frame_focus \<Rightarrow> frame_focus" where
  "track_focus p s =
    (if p = OnBody then s\<lparr>ff_active := OnBody\<rparr>
     else s\<lparr>ff_active := p, ff_inPanel := (in_panel p \<or> p = OnPanelBorder)\<rparr>)"

text \<open>The effect of the peek; \<open>gone\<close> are the places that are no longer in the DOM.\<close>

definition peek_effect :: "(frame_place \<Rightarrow> bool) \<Rightarrow> bool \<Rightarrow> frame_focus \<Rightarrow> frame_focus" where
  "peek_effect gone peek s =
    (if peek then s\<lparr>ff_peek := True, ff_beforePeek := Some (ff_active s)\<rparr>
     else (let s1 = (case ff_beforePeek s of
         Some p \<Rightarrow>
           if (ff_active s = OnBody \<or> in_sidebar (ff_active s)) \<and> \<not> gone p \<and> p \<noteq> OnBody then track_focus p s else s
       | None \<Rightarrow> s)
       in s1\<lparr>ff_peek := False, ff_beforePeek := None\<rparr>))"

definition panel_effect :: "bool \<Rightarrow> frame_focus \<Rightarrow> frame_focus" where
  "panel_effect isOpen s =
    (let s1 = s\<lparr>ff_panelOpen := isOpen\<rparr> in
     if isOpen \<or> \<not> ff_inPanel s1 then s1
     else (let s2 = s1\<lparr>ff_inPanel := False\<rparr>
       in if ff_active s2 = OnBody \<or> in_panel (ff_active s2) then track_focus OnCanvas s2 else s2))"

text \<open>
  What happens: focus moves; the peek opens or closes, with the places that left the DOM with it and the element of the
  sidebar that the sidebar's own effect, which runs first, gave focus to; the panel opens, or closes, \<open>fades\<close> if
  it was an overlay, whose content stays for the exit. The border goes either way.
\<close>

datatype frame_event = FocusMoves frame_place | PeekOpens "frame_place list" "nat option" | PeekCloses "frame_place list" "nat option" | PanelOpens | PanelCloses bool

definition drop_gone :: "(frame_place \<Rightarrow> bool) \<Rightarrow> frame_focus \<Rightarrow> frame_focus" where
  "drop_gone gone s = (if gone (ff_active s) then s\<lparr>ff_active := OnBody\<rparr> else s)"

definition sidebar_swapped :: "frame_place list \<Rightarrow> nat option \<Rightarrow> frame_focus \<Rightarrow> frame_focus" where
  "sidebar_swapped ps refocus s =
    (let s1 = drop_gone (\<lambda>p. p \<in> set ps) s in (case refocus of None \<Rightarrow> s1 | Some i \<Rightarrow> track_focus (InSidebar i) s1))"

definition frame_step :: "frame_focus \<Rightarrow> frame_event \<Rightarrow> frame_focus" where
  "frame_step s e =
    (case e of
      FocusMoves p \<Rightarrow> track_focus p s
    | PeekOpens ps r \<Rightarrow> if ff_peek s then s else peek_effect (\<lambda>_. False) True (sidebar_swapped ps r s)
    | PeekCloses ps r \<Rightarrow> if ff_peek s then peek_effect (\<lambda>p. p \<in> set ps) False (sidebar_swapped ps r s) else s
    | PanelOpens \<Rightarrow> if ff_panelOpen s then s else panel_effect True s
    | PanelCloses fades \<Rightarrow>
        if ff_panelOpen s
        then panel_effect False (drop_gone (\<lambda>p. p = OnPanelBorder \<or> (in_panel p \<and> \<not> fades)) s)
        else s)"

text \<open>A press outside the sidebar closes the peek; the press itself goes on.\<close>

definition pointer_outside :: "bool \<Rightarrow> shell_state \<Rightarrow> shell_state" where
  "pointer_outside inSidebar s = (if sh_peek s \<and> \<not> inSidebar then setPeek False s else s)"

section \<open>The panel on screen\<close>

text \<open>\<open>pn_kept\<close> is the content of \<open>KeptPanel\<close>, a number; \<open>pn_presence\<close> is the presence of the panel.\<close>

record panel_view =
  pn_content :: "nat option"
  pn_kept :: "nat option"
  pn_wasOverlay :: bool
  pn_presence :: presence

definition panel_render :: "nat option \<Rightarrow> panel_mode \<Rightarrow> int option \<Rightarrow> panel_view \<Rightarrow> panel_view" where
  "panel_render panel mode duration v =
    (let isOpen = panel \<noteq> None; isOverlay = (mode = PanelOverlay) in
     v\<lparr>pn_content := panel,
       pn_kept := (if isOpen then panel else pn_kept v),
       pn_wasOverlay := (if isOpen then isOverlay else pn_wasOverlay v),
       pn_presence := presence_step (pn_presence v) (OpenIs isOpen duration)\<rparr>)"

definition showPanel :: "panel_view \<Rightarrow> bool" where
  "showPanel v \<longleftrightarrow> pn_content v \<noteq> None \<or> (pr_mounted (pn_presence v) \<and> pn_wasOverlay v)"

definition panelMode :: "panel_mode \<Rightarrow> panel_view \<Rightarrow> panel_mode" where
  "panelMode mode v = (if pn_content v \<noteq> None then mode else PanelOverlay)"

definition panel_shown :: "panel_view \<Rightarrow> nat option" where
  "panel_shown v = (if \<not> showPanel v then None else if pn_content v \<noteq> None then pn_content v else pn_kept v)"

section \<open>What the sidebar is\<close>

definition peeking :: "shell_layout \<Rightarrow> bool \<Rightarrow> bool" where
  "peeking layout peek \<longleftrightarrow> peek \<and> sl_sidebar layout \<noteq> SidebarExpanded"

definition on_rail :: "shell_layout \<Rightarrow> bool \<Rightarrow> bool" where
  "on_rail layout peek \<longleftrightarrow> sl_sidebar layout \<noteq> SidebarExpanded \<and> \<not> peeking layout peek"

definition sidebar_resizable :: "shell_layout \<Rightarrow> bool \<Rightarrow> bool" where
  "sidebar_resizable layout peek \<longleftrightarrow> sl_sidebar layout \<noteq> SidebarAutoCollapsed \<and> \<not> peeking layout peek"

section \<open>The scroll comes back\<close>

definition not_to :: "string \<Rightarrow> scroll_event \<Rightarrow> bool" where
  "not_to k e \<longleftrightarrow> (case e of RouteIs key _ \<Rightarrow> key \<noteq> Some k | CanvasScrolled _ \<Rightarrow> True)"

definition kept_for :: "string \<Rightarrow> int \<Rightarrow> canvas_scroll \<Rightarrow> bool" where
  "kept_for k y s \<longleftrightarrow> cs_key s \<noteq> Some k \<and> js_get (cs_positions s) k = Some y"

lemma kept_step: "kept_for k y s \<Longrightarrow> not_to k e \<Longrightarrow> kept_for k y (scroll_step s e)"
  by (auto simp: kept_for_def not_to_def scroll_step_def scroll_effect_def scroll_cleanup_def Let_def
      split: scroll_event.splits option.splits)

interpretation scroll: event_machine scroll_step "\<lambda>_. not_to k" "kept_for k y" for k y
  by unfold_locales (rule kept_step)

lemma scroll_in_content: "cs_top (scroll_step s (CanvasScrolled y)) = in_content (cs_max s) y"
  by (simp add: scroll_step_def Let_def)

text \<open>
  Leaving a route and coming back, wherever one went in between: the canvas is where it was when the route was
  left, or as near as its content goes; a route never opened starts at the top.
\<close>

theorem canvas_scroll_returns:
  assumes "cs_key s = Some k" and "key \<noteq> Some k" and "list_all (not_to k) es"
  shows "cs_canvas (scroll_step (foldl scroll_step s (RouteIs key m # es)) (RouteIs (Some k) n)) = in_content n (cs_top s)"
    and "js_get (cs_positions s') i = None \<Longrightarrow> cs_key s' = None \<Longrightarrow> 0 \<le> n \<Longrightarrow> cs_canvas (scroll_step s' (RouteIs (Some i) n)) = 0"
proof -
  let ?s1 = "scroll_step s (RouteIs key m)"
  have "kept_for k (cs_top s) ?s1"
    using assms(1,2) by (auto simp: kept_for_def scroll_step_def scroll_effect_def scroll_cleanup_def Let_def split: option.splits)
  then have "kept_for k (cs_top s) (foldl scroll_step ?s1 es)" by (rule scroll.run_inv [OF _ admissible_list_all [OF assms(3)]])
  then show "cs_canvas (scroll_step (foldl scroll_step s (RouteIs key m # es)) (RouteIs (Some k) n)) = in_content n (cs_top s)"
    by (auto simp: kept_for_def scroll_step_def scroll_effect_def scroll_cleanup_def Let_def split: option.splits)
  show "js_get (cs_positions s') i = None \<Longrightarrow> cs_key s' = None \<Longrightarrow> 0 \<le> n \<Longrightarrow> cs_canvas (scroll_step s' (RouteIs (Some i) n)) = 0"
    by (simp add: scroll_step_def scroll_effect_def scroll_cleanup_def in_content_def Let_def)
qed

text \<open>A page whose content is not there yet when it is opened forgets where it was: what is kept is what its content allowed.\<close>

lemma short_content_forgets:
  assumes "cs_key s \<noteq> Some k" and "key \<noteq> Some k"
  shows "js_get (cs_positions (scroll_step (scroll_step s (RouteIs (Some k) 0)) (RouteIs key m))) k = Some 0"
  using assms by (auto simp: scroll_step_def scroll_effect_def scroll_cleanup_def in_content_def Let_def split: option.splits)

section \<open>Focus comes back\<close>

definition focus_ok :: "frame_focus \<Rightarrow> bool" where
  "focus_ok s \<longleftrightarrow> (in_panel (ff_active s) \<or> ff_active s = OnPanelBorder \<longrightarrow> ff_inPanel s) \<and> (ff_beforePeek s \<noteq> None \<longleftrightarrow> ff_peek s)"

lemma track_focus_ok [simp]: "focus_ok s \<Longrightarrow> focus_ok (track_focus p s)"
  by (simp add: focus_ok_def track_focus_def)

lemma track_focus_fields [simp]:
  "ff_active (track_focus p s) = p" "ff_beforePeek (track_focus p s) = ff_beforePeek s" "ff_peek (track_focus p s) = ff_peek s"
  "ff_panelOpen (track_focus p s) = ff_panelOpen s"
  by (simp_all add: track_focus_def)

lemma drop_gone_ok [simp]: "focus_ok s \<Longrightarrow> focus_ok (drop_gone gone s)"
  by (simp add: focus_ok_def drop_gone_def)

lemma drop_gone_fields [simp]:
  "ff_active (drop_gone gone s) = (if gone (ff_active s) then OnBody else ff_active s)" "ff_inPanel (drop_gone gone s) = ff_inPanel s"
  "ff_beforePeek (drop_gone gone s) = ff_beforePeek s" "ff_peek (drop_gone gone s) = ff_peek s"
  by (simp_all add: drop_gone_def)

lemma swapped_ok [simp]: "focus_ok s \<Longrightarrow> focus_ok (sidebar_swapped ps r s)"
  by (simp add: sidebar_swapped_def Let_def split: option.split)

lemma swapped_fields [simp]:
  "ff_beforePeek (sidebar_swapped ps r s) = ff_beforePeek s" "ff_peek (sidebar_swapped ps r s) = ff_peek s"
  by (simp_all add: sidebar_swapped_def Let_def split: option.split)

lemma peek_effect_ok: "focus_ok s \<Longrightarrow> focus_ok (peek_effect gone b s)"
  by (auto simp: peek_effect_def focus_ok_def track_focus_def Let_def split: option.split)

lemma panel_effect_ok: "focus_ok s \<Longrightarrow> b \<or> ff_active s \<noteq> OnPanelBorder \<Longrightarrow> focus_ok (panel_effect b s)"
  by (auto simp: panel_effect_def focus_ok_def track_focus_def Let_def)

lemma frame_step_ok: "focus_ok s \<Longrightarrow> focus_ok (frame_step s e)"
  by (cases e) (simp_all add: frame_step_def peek_effect_ok panel_effect_ok)

interpretation frame: event_machine frame_step "\<lambda>_ _. True" focus_ok
  by unfold_locales (rule frame_step_ok)

definition frame_run :: "frame_event list \<Rightarrow> frame_focus" where
  "frame_run es = foldl frame_step new_focus es"

lemma frame_run_ok: "focus_ok (frame_run es)"
proof -
  have "admissible frame_step (\<lambda>_ _. True) s es" for s by (rule admissible_all)
  then show ?thesis unfolding frame_run_def by (intro frame.run_inv) (simp_all add: focus_ok_def new_focus_def)
qed

definition in_sidebar_event :: "frame_event \<Rightarrow> bool" where
  "in_sidebar_event e \<longleftrightarrow> (case e of FocusMoves p \<Rightarrow> in_sidebar p | _ \<Rightarrow> False)"

lemma sidebar_moves_keep:
  "list_all in_sidebar_event es \<Longrightarrow>
    ff_beforePeek (foldl frame_step s es) = ff_beforePeek s \<and> ff_peek (foldl frame_step s es) = ff_peek s \<and>
    (es \<noteq> [] \<longrightarrow> in_sidebar (ff_active (foldl frame_step s es)))"
proof (induction es arbitrary: s)
  case Nil
  then show ?case by simp
next
  case (Cons e es)
  then obtain p where p: "e = FocusMoves p" "in_sidebar p" by (cases e) (simp_all add: in_sidebar_event_def)
  then have step: "frame_step s e = track_focus p s" by (simp add: frame_step_def)
  show ?case using Cons.IH [of "track_focus p s"] Cons.prems p(2) by (cases "es = []") (simp_all add: step)
qed

text \<open>
  Focus comes back in the frame. After any history: when the panel closes, focus that was in it or on its border
  is on the canvas, whether it goes at once or fades out, and focus elsewhere stays; when the peek closes after
  focus went into the sidebar and stayed there, focus is where it was before the peek opened, if that is still
  there, and focus that is anywhere else stays.
\<close>

theorem frame_focus_returns:
  assumes "s = frame_run es"
  shows "(ff_panelOpen s \<longrightarrow> (let s' = frame_step s (PanelCloses fades) in
      (in_panel (ff_active s) \<or> ff_active s = OnPanelBorder \<longrightarrow> ff_active s' = OnCanvas) \<and>
      (\<not> in_panel (ff_active s) \<and> ff_active s \<notin> {OnPanelBorder, OnBody} \<longrightarrow> ff_active s' = ff_active s))) \<and>
    (\<not> ff_peek s \<and> ff_active s \<notin> set ps \<union> set qs \<union> {OnBody} \<and> \<not> in_panel (ff_active s) \<and>
      list_all in_sidebar_event moves \<and> moves \<noteq> [] \<longrightarrow>
      ff_active (frame_step (foldl frame_step (frame_step s (PeekOpens ps None)) moves) (PeekCloses qs r)) = ff_active s) \<and>
    (ff_peek s \<and> \<not> in_sidebar (ff_active s) \<and> ff_active s \<notin> set ps \<union> {OnBody} \<longrightarrow>
      ff_active (frame_step s (PeekCloses ps None)) = ff_active s)"
proof (intro conjI impI)
  have ok: "focus_ok s" using assms frame_run_ok by simp
  assume "ff_panelOpen s"
  then show "let s' = frame_step s (PanelCloses fades) in
      (in_panel (ff_active s) \<or> ff_active s = OnPanelBorder \<longrightarrow> ff_active s' = OnCanvas) \<and>
      (\<not> in_panel (ff_active s) \<and> ff_active s \<notin> {OnPanelBorder, OnBody} \<longrightarrow> ff_active s' = ff_active s)"
    using ok by (auto simp: frame_step_def panel_effect_def focus_ok_def drop_gone_def Let_def)
next
  assume a: "\<not> ff_peek s \<and> ff_active s \<notin> set ps \<union> set qs \<union> {OnBody} \<and> \<not> in_panel (ff_active s) \<and>
      list_all in_sidebar_event moves \<and> moves \<noteq> []"
  let ?s1 = "frame_step s (PeekOpens ps None)"
  let ?s2 = "foldl frame_step ?s1 moves"
  have "ff_peek ?s1" "ff_beforePeek ?s1 = Some (ff_active s)"
    using a by (simp_all add: frame_step_def peek_effect_def sidebar_swapped_def)
  then have s2: "ff_peek ?s2" "ff_beforePeek ?s2 = Some (ff_active s)" "in_sidebar (ff_active ?s2)"
    using sidebar_moves_keep [of moves ?s1] a by simp_all
  then have "ff_active (sidebar_swapped qs r ?s2) = OnBody \<or> in_sidebar (ff_active (sidebar_swapped qs r ?s2))"
    by (simp add: sidebar_swapped_def Let_def split: option.split)
  then show "ff_active (frame_step ?s2 (PeekCloses qs r)) = ff_active s"
    using s2 a by (auto simp: frame_step_def peek_effect_def Let_def)
next
  assume "ff_peek s \<and> \<not> in_sidebar (ff_active s) \<and> ff_active s \<notin> set ps \<union> {OnBody}"
  then show "ff_active (frame_step s (PeekCloses ps None)) = ff_active s"
    by (auto simp: frame_step_def peek_effect_def sidebar_swapped_def Let_def split: option.split)
qed

text \<open>The frame gives the router's key only if the app does: without one nothing is remembered and no navigation closes the peek.\<close>

lemma no_key_no_memory:
  "route_closes_peek s None sh = sh"
  "cs_key s = None \<Longrightarrow> cs_positions (scroll_step s (RouteIs None m)) = cs_positions s"
  by (simp_all add: route_closes_peek_def scroll_step_def Let_def)

section \<open>The panel that goes\<close>

definition panel_frames :: "panel_view \<Rightarrow> bool" where
  "panel_frames v \<longleftrightarrow> presence_ok (pn_presence v) \<and> pr_open (pn_presence v) = (pn_content v \<noteq> None)"

lemma panel_render_frames: "panel_frames v \<Longrightarrow> panel_frames (panel_render p m d v)"
  using presence.step_inv [of "pn_presence v" "OpenIs (p \<noteq> None) d"]
  by (auto simp: panel_frames_def panel_render_def presence_step_def presence_render_def Let_def split: option.split)

text \<open>
  A docked panel goes at once. An overlay stays for its exit, with the content it had last, and goes when its
  animation or the timer behind it ends; whatever opens in between is shown at once.
\<close>

theorem panel_leaves_right:
  assumes "panel_frames v" and "v1 = panel_render (Some c) mode d1 v" and "v2 = panel_render None mode' d2 v1"
  shows "panel_shown v1 = Some c \<and> panelMode mode v1 = mode" and "mode \<noteq> PanelOverlay \<Longrightarrow> panel_shown v2 = None"
    and "mode = PanelOverlay \<Longrightarrow> d2 = Some n \<Longrightarrow> n \<noteq> 0 \<Longrightarrow> panel_shown v2 = Some c \<and> panelMode mode' v2 = PanelOverlay"
    and "mode = PanelOverlay \<Longrightarrow> d2 = None \<or> d2 = Some 0 \<Longrightarrow> panel_shown v2 = None"
    and "e \<in> {AnimationEnds True, FallbackFires} \<Longrightarrow> panel_shown (v2\<lparr>pn_presence := presence_step (pn_presence v2) e\<rparr>) = None"
    and "panel_shown (panel_render (Some c') mode'' d3 v2) = Some c'"
proof -
  have v1: "pn_content v1 = Some c" "pn_kept v1 = Some c" "pn_wasOverlay v1 = (mode = PanelOverlay)" "panel_frames v1"
    using panel_render_frames [OF assms(1), of "Some c" mode d1] by (simp_all add: assms(2) panel_render_def Let_def)
  then have pres: "pr_open (pn_presence v1)" "pr_mounted (pn_presence v1)" by (simp_all add: panel_frames_def presence_ok_def)
  have v2: "pn_content v2 = None" "pn_kept v2 = Some c" "pn_wasOverlay v2 = (mode = PanelOverlay)"
    "pn_presence v2 = presence_render d2 ((pn_presence v1)\<lparr>pr_open := False\<rparr>)"
    using v1 pres by (simp_all add: assms(3) panel_render_def presence_step_def Let_def)
  show "panel_shown v1 = Some c \<and> panelMode mode v1 = mode" using v1 by (simp add: panel_shown_def showPanel_def panelMode_def)
  show "mode \<noteq> PanelOverlay \<Longrightarrow> panel_shown v2 = None" using v2 by (simp add: panel_shown_def showPanel_def)
  show "mode = PanelOverlay \<Longrightarrow> d2 = Some n \<Longrightarrow> n \<noteq> 0 \<Longrightarrow> panel_shown v2 = Some c \<and> panelMode mode' v2 = PanelOverlay"
    using v2 pres by (simp add: panel_shown_def showPanel_def panelMode_def presence_render_def Let_def)
  show "mode = PanelOverlay \<Longrightarrow> d2 = None \<or> d2 = Some 0 \<Longrightarrow> panel_shown v2 = None"
    using v2 pres by (auto simp: panel_shown_def showPanel_def presence_render_def Let_def)
  have "\<not> pr_mounted (presence_step (pn_presence v2) e)" if "e \<in> {AnimationEnds True, FallbackFires}"
    using that v2(4) pres by (auto simp: presence_step_def presence_render_def Let_def split: option.split)
  then show "e \<in> {AnimationEnds True, FallbackFires} \<Longrightarrow> panel_shown (v2\<lparr>pn_presence := presence_step (pn_presence v2) e\<rparr>) = None"
    using v2 by (simp add: panel_shown_def showPanel_def)
  show "panel_shown (panel_render (Some c') mode'' d3 v2) = Some c'" by (simp add: panel_shown_def showPanel_def panel_render_def Let_def)
qed

text \<open>The sidebar draws itself full exactly where the store says so, and its border is there to drag when it is not over the canvas.\<close>

lemma rail_is_view: "on_rail (sh_layout s) (sh_peek s) \<longleftrightarrow> \<not> sidebarView_full s"
  by (auto simp: on_rail_def peeking_def sidebarView_full_def)

lemma peek_escape_first: "sh_peek s \<Longrightarrow> frame_escape p c s = (setPeek False s, False, True)"
  by (simp add: frame_escape_def)

end
