(* ===== verification/Auth_Callback.thy ===== *)
theory Auth_Callback
  imports Prelude "HOL-Library.Sublist"
begin

text \<open>
  Signing in (\<open>apps/frontend/src/app/auth\<close>): where it may return to, why it failed, and the callback
  screen, whose asynchronous functions are cut at their awaits: a task is what waits, a step resumes
  one with the answer it waited for, whether the browser is online and the time. authentik, the
  session storage's other keys and main-service are what the answers carry. The words on the
  screens are not modelled, nor how they are drawn.
\<close>

section \<open>Where to return to\<close>

text \<open>\<open>/^\/(?![/\\])/\<close>: a slash, and after it neither a slash nor a backslash.\<close>

definition app_path :: "string \<Rightarrow> bool" where
  "app_path p = (case p of
      c # rest \<Rightarrow> c = CHR ''/'' \<and> (case rest of [] \<Rightarrow> True | d # _ \<Rightarrow> d \<noteq> CHR ''/'' \<and> d \<noteq> CHR 0x5C)
    | [] \<Rightarrow> False)"

definition returnPathOf :: "string option \<Rightarrow> string" where
  "returnPathOf returnTo = (case returnTo of Some p \<Rightarrow> if app_path p then p else ''/'' | None \<Rightarrow> ''/'')"

record session_tab =
  st_returnTo :: "string option"
  st_selectAccount :: bool
  st_silentRetryAt :: "int option"

datatype auth_call =
  SignInRedirect string bool | SignOutRedirect "string option" | LeaveTo string | RemoveUser | SilentRetry int

text \<open>\<open>startSignIn\<close> and \<open>switchAccount\<close>: what they keep in the tab and what they ask of the library.\<close>

definition startSignIn :: "string \<Rightarrow> bool \<Rightarrow> session_tab \<Rightarrow> session_tab \<times> auth_call" where
  "startSignIn returnTo selectAccount t =
    (let path = returnPathOf (Some returnTo) in (t\<lparr>st_returnTo := Some path\<rparr>, SignInRedirect path selectAccount))"

definition pendingReturnTo :: "session_tab \<Rightarrow> string" where
  "pendingReturnTo t = returnPathOf (st_returnTo t)"

definition switchAccount :: "string option \<Rightarrow> session_tab \<Rightarrow> session_tab \<times> auth_call" where
  "switchAccount hint t = (t\<lparr>st_selectAccount := True\<rparr>, SignOutRedirect hint)"

definition takeSelectAccount :: "session_tab \<Rightarrow> bool \<times> session_tab" where
  "takeSelectAccount t = (st_selectAccount t, t\<lparr>st_selectAccount := False\<rparr>)"

record oidc_user =
  ou_token :: string
  ou_expired :: bool
  ou_idToken :: "string option"
  ou_email :: "string option"
  ou_returnTo :: "string option"

text \<open>\<open>getAccessToken\<close>: the user is the stored one, or the one a forced renewal brought.\<close>

definition getAccessToken :: "oidc_user option \<Rightarrow> string + string" where
  "getAccessToken user =
    (case user of
      Some u \<Rightarrow> if ou_expired u then Inl ''Not signed in'' else Inr (ou_token u)
    | None \<Rightarrow> Inl ''Not signed in'')"

section \<open>Why it failed\<close>

datatype auth_code =
  AuthCancelled | AuthStateMismatch | AuthNotAllowed | AuthTokenFailed | AuthIdpError | AuthTimedOut |
  AuthApiUnavailable | AuthOffline | AuthMisconfigured

record auth_error =
  ae_code :: auth_code
  ae_description :: "string option"
  ae_email :: "string option"
  ae_silentRetry :: bool

text \<open>
  What may be thrown: the callback's timeout, the provider's answer, a failed \<open>/me\<close>, a failed
  fetch, any other error, and a value that is no error, by its text.
\<close>

datatype cause =
  CauseTimeout | CauseResponse "string option" "string option" string | CauseMe "nat option" |
  CauseType string | CauseError string | CauseOther string

fun nat_text :: "nat \<Rightarrow> string" where
  "nat_text n = (if n < 10 then [char_of (48 + n)] else nat_text (n div 10) @ [char_of (48 + n mod 10)])"

declare nat_text.simps [simp del]

definition me_message :: "nat option \<Rightarrow> string" where
  "me_message status = (case status of None \<Rightarrow> ''GET /me got no response'' | Some n \<Rightarrow> ''GET /me answered '' @ nat_text n)"

text \<open>The message of an \<open>Error\<close>; none for a value that is not one.\<close>

definition message_of :: "cause \<Rightarrow> string option" where
  "message_of c = (case c of
      CauseTimeout \<Rightarrow> Some ''Sign-in timed out'' | CauseResponse _ _ m \<Rightarrow> Some m | CauseMe n \<Rightarrow> Some (me_message n)
    | CauseType m \<Rightarrow> Some m | CauseError m \<Rightarrow> Some m | CauseOther _ \<Rightarrow> None)"

definition text_of :: "cause \<Rightarrow> string" where
  "text_of c = (case c of CauseOther t \<Rightarrow> t | _ \<Rightarrow> the (message_of c))"

definition says :: "cause \<Rightarrow> string \<Rightarrow> bool" where
  "says c part = (case message_of c of None \<Rightarrow> False | Some m \<Rightarrow> sublist part m)"

definition MISCONFIGURED :: "string list" where
  "MISCONFIGURED = [''invalid_client'', ''unauthorized_client'', ''invalid_request'', ''unsupported_response_type'']"

definition simple_error :: "auth_code \<Rightarrow> auth_error" where
  "simple_error code = \<lparr>ae_code = code, ae_description = None, ae_email = None, ae_silentRetry = False\<rparr>"

definition NO_STATE :: string where
  "NO_STATE = ''No matching state found in storage''"

definition NO_AUTHORITY :: string where
  "NO_AUTHORITY = ''No authority or metadataUrl configured''"

definition callbackError :: "cause \<Rightarrow> bool \<Rightarrow> auth_error" where
  "callbackError c online =
    (case c of
      CauseTimeout \<Rightarrow> simple_error AuthTimedOut
    | CauseResponse err description _ \<Rightarrow>
        if err = Some ''access_denied'' then simple_error AuthCancelled
        else if err = Some ''invalid_grant'' then (simple_error AuthTokenFailed)\<lparr>ae_description := description, ae_silentRetry := True\<rparr>
        else if (\<exists>e\<in>set MISCONFIGURED. err = Some e) then (simple_error AuthMisconfigured)\<lparr>ae_description := description\<rparr>
        else (simple_error AuthIdpError)\<lparr>ae_description := (case description of None \<Rightarrow> err | d \<Rightarrow> d)\<rparr>
    | _ \<Rightarrow>
        if says c NO_STATE then (simple_error AuthStateMismatch)\<lparr>ae_silentRetry := True\<rparr>
        else if says c NO_AUTHORITY then (simple_error AuthMisconfigured)\<lparr>ae_description := message_of c\<rparr>
        else (case c of
            CauseType m \<Rightarrow> if online then (simple_error AuthMisconfigured)\<lparr>ae_description := Some m\<rparr> else simple_error AuthOffline
          | _ \<Rightarrow> (simple_error AuthTokenFailed)\<lparr>ae_description := Some (text_of c)\<rparr>))"

definition meError :: "cause \<Rightarrow> string option \<Rightarrow> bool \<Rightarrow> auth_error" where
  "meError c email online =
    (let unavailable = (simple_error AuthApiUnavailable)\<lparr>ae_description := Some (text_of c)\<rparr>
     in (case c of
          CauseMe status \<Rightarrow>
            if status = Some 403 then (simple_error AuthNotAllowed)\<lparr>ae_email := email\<rparr>
            else if status = Some 401 then (simple_error AuthTokenFailed)\<lparr>ae_description := Some ''GET /me answered 401''\<rparr>
            else if status = None \<and> \<not> online then simple_error AuthOffline
            else unavailable
        | _ \<Rightarrow> unavailable))"

text \<open>\<open>fetchMe\<close>: what a failed request becomes. An abort is the caller's own.\<close>

datatype me_failure = MeAborted cause | MeNotAxios cause | MeAxios "nat option"

definition fetch_failure :: "me_failure \<Rightarrow> cause" where
  "fetch_failure f = (case f of MeAborted c \<Rightarrow> c | MeNotAxios c \<Rightarrow> c | MeAxios status \<Rightarrow> CauseMe status)"

text \<open>Of an error's screen: its tone, its action and whether the details are shown.\<close>

datatype mark_tone = ToneDanger | ToneAccent | ToneNeutral

record error_screen =
  es_tone :: mark_tone
  es_action :: "string option"
  es_details :: bool

definition ERROR_SCREENS :: "auth_code \<Rightarrow> error_screen" where
  "ERROR_SCREENS code = (case code of
      AuthCancelled \<Rightarrow> \<lparr>es_tone = ToneNeutral, es_action = Some ''Try again'', es_details = False\<rparr>
    | AuthStateMismatch \<Rightarrow> \<lparr>es_tone = ToneAccent, es_action = Some ''Sign in again'', es_details = True\<rparr>
    | AuthNotAllowed \<Rightarrow> \<lparr>es_tone = ToneDanger, es_action = Some ''Use another account'', es_details = True\<rparr>
    | AuthTokenFailed \<Rightarrow> \<lparr>es_tone = ToneDanger, es_action = Some ''Try again'', es_details = True\<rparr>
    | AuthIdpError \<Rightarrow> \<lparr>es_tone = ToneDanger, es_action = Some ''Try again'', es_details = True\<rparr>
    | AuthTimedOut \<Rightarrow> \<lparr>es_tone = ToneDanger, es_action = Some ''Try again'', es_details = True\<rparr>
    | AuthApiUnavailable \<Rightarrow> \<lparr>es_tone = ToneDanger, es_action = Some ''Retry'', es_details = True\<rparr>
    | AuthOffline \<Rightarrow> \<lparr>es_tone = ToneNeutral, es_action = None, es_details = False\<rparr>
    | AuthMisconfigured \<Rightarrow> \<lparr>es_tone = ToneDanger, es_action = None, es_details = True\<rparr>)"

section \<open>The callback screen\<close>

definition CODE_LIFETIME_MS :: int where "CODE_LIFETIME_MS = 60000"
definition SILENT_RETRY_WINDOW_MS :: int where "SILENT_RETRY_WINDOW_MS = 300000"
definition SPINNER_MIN_MS :: int where "SPINNER_MIN_MS = 400"

definition ME_RETRY_DELAYS_MS :: "int list" where
  "ME_RETRY_DELAYS_MS = [2000, 4000, 8000]"

text \<open>What waits, with the variables it goes on with.\<close>

datatype cb_task =
  AwaitOnlineStart bool nat          \<comment> \<open>offline before the exchange\<close>
| AwaitSignIn bool nat               \<comment> \<open>the token exchange\<close>
| AwaitSession bool nat auth_error   \<comment> \<open>is there a session already?\<close>
| AwaitOnlineAgain bool              \<comment> \<open>offline during the exchange\<close>
| AwaitMe oidc_user nat nat          \<comment> \<open>GET /me, its attempt and its retry\<close>
| AwaitOnlineMe oidc_user nat nat
| AwaitPause oidc_user nat nat
| AwaitRemove auth_error
| AwaitLeave string                  \<comment> \<open>the spinner's minimum\<close>
| AwaitRedirect                      \<comment> \<open>authentik's answer to a redirect\<close>

record cb_state =
  cb_attempt :: nat
  cb_error :: "auth_error option"
  cb_returnTo :: string
  cb_signedIn :: "oidc_user option"
  cb_hint :: "string option"
  cb_loadedAt :: int
  cb_spinnerAt :: "int option"
  cb_tab :: session_tab
  cb_tasks :: "cb_task list"
  cb_calls :: "auth_call list"

record cb_env =
  ce_online :: bool
  ce_now :: int

definition wait_for :: "cb_task \<Rightarrow> cb_state \<Rightarrow> cb_state" where
  "wait_for t s = s\<lparr>cb_tasks := cb_tasks s @ [t]\<rparr>"

definition call_lib :: "auth_call \<Rightarrow> cb_state \<Rightarrow> cb_state" where
  "call_lib c s = s\<lparr>cb_calls := cb_calls s @ [c]\<rparr>"

definition setError :: "auth_error option \<Rightarrow> cb_state \<Rightarrow> cb_state" where
  "setError e s = s\<lparr>cb_error := e\<rparr>"

definition takeSilentRetry :: "int \<Rightarrow> cb_state \<Rightarrow> bool \<times> cb_state" where
  "takeSilentRetry now s =
    (let at' = (case st_silentRetryAt (cb_tab s) of None \<Rightarrow> 0 | Some t \<Rightarrow> t)
     in if now - at' < SILENT_RETRY_WINDOW_MS then (False, s)
        else (True, call_lib (SilentRetry now) (s\<lparr>cb_tab := (cb_tab s)\<lparr>st_silentRetryAt := Some now\<rparr>\<rparr>)))"

definition leave_screen :: "string \<Rightarrow> int \<Rightarrow> cb_state \<Rightarrow> cb_state" where
  "leave_screen path now s =
    (case cb_spinnerAt s of
      Some shown \<Rightarrow> if now - shown < SPINNER_MIN_MS then wait_for (AwaitLeave path) s else call_lib (LeaveTo path) s
    | None \<Rightarrow> call_lib (LeaveTo path) s)"

definition restart :: "cb_state \<Rightarrow> cb_state" where
  "restart s =
    (let (tab, call) = startSignIn (cb_returnTo s) False (cb_tab s)
     in wait_for AwaitRedirect (call_lib call (s\<lparr>cb_attempt := Suc (cb_attempt s), cb_tab := tab\<rparr>)))"

definition start_me :: "oidc_user \<Rightarrow> nat \<Rightarrow> nat \<Rightarrow> cb_state \<Rightarrow> cb_state" where
  "start_me user current retry s = wait_for (AwaitMe user current retry) s"

text \<open>\<open>loadMe\<close> after \<open>GET /me\<close> has answered or failed.\<close>

definition me_answered :: "oidc_user \<Rightarrow> nat \<Rightarrow> nat \<Rightarrow> cause option \<Rightarrow> cb_env \<Rightarrow> cb_state \<Rightarrow> cb_state" where
  "me_answered user current retry failed env s =
    (case failed of
      None \<Rightarrow> if current = cb_attempt s then leave_screen (returnPathOf (ou_returnTo user)) (ce_now env) s else s
    | Some c \<Rightarrow>
        if current \<noteq> cb_attempt s then s
        else (let failure = meError c (ou_email user) (ce_online env)
              in if ae_code failure = AuthOffline then wait_for (AwaitOnlineMe user current retry) (setError (Some failure) s)
                 else if ae_code failure = AuthApiUnavailable \<and> retry < length ME_RETRY_DELAYS_MS
                 then wait_for (AwaitPause user current retry) s
                 else if ae_code failure = AuthNotAllowed \<or> ae_code failure = AuthTokenFailed
                 then wait_for (AwaitRemove failure) (call_lib RemoveUser (s\<lparr>cb_hint := ou_idToken user\<rparr>))
                 else setError (Some failure) s))"

text \<open>\<open>complete\<close>: the exchange starts once the browser is online; \<open>params\<close> is \<open>hasAuthParams(url)\<close>.\<close>

definition complete :: "bool \<Rightarrow> cb_env \<Rightarrow> cb_state \<Rightarrow> cb_state" where
  "complete params env s =
    (let current = Suc (cb_attempt s); s1 = s\<lparr>cb_attempt := current\<rparr>
     in if ce_online env then wait_for (AwaitSignIn params current) s1
        else wait_for (AwaitOnlineStart params current) (setError (Some (simple_error AuthOffline)) s1))"

definition after_session :: "bool \<Rightarrow> auth_error \<Rightarrow> cb_env \<Rightarrow> cb_state \<Rightarrow> cb_state" where
  "after_session params failure env s =
    (let (taken, s1) = (if ae_silentRetry failure then takeSilentRetry (ce_now env) s else (False, s))
     in if taken then restart s1
        else if ae_code failure = AuthOffline then wait_for (AwaitOnlineAgain params) (setError (Some failure) s1)
        else setError (Some failure) s1)"

datatype sign_in_answer = SignedIn oidc_user | SignInFailed cause

text \<open>A callback without its parameters throws before the library is asked.\<close>

definition sign_in_answered :: "bool \<Rightarrow> nat \<Rightarrow> sign_in_answer \<Rightarrow> cb_env \<Rightarrow> cb_state \<Rightarrow> cb_state" where
  "sign_in_answered params current answer env s =
    (case (if params then answer else SignInFailed (CauseError NO_STATE)) of
      SignInFailed c \<Rightarrow>
        if current \<noteq> cb_attempt s then s
        else (let failure = callbackError c (ce_online env)
              in if ae_code failure = AuthStateMismatch then wait_for (AwaitSession params current failure) s
                 else after_session params failure env s)
    | SignedIn user \<Rightarrow>
        if current \<noteq> cb_attempt s then s
        else start_me user current 0 (s\<lparr>cb_returnTo := returnPathOf (ou_returnTo user), cb_signedIn := Some user\<rparr>))"

definition session_answered :: "bool \<Rightarrow> auth_error \<Rightarrow> oidc_user option \<Rightarrow> cb_env \<Rightarrow> cb_state \<Rightarrow> cb_state" where
  "session_answered params failure existing env s =
    (case existing of
      Some u \<Rightarrow> if \<not> ou_expired u then leave_screen (cb_returnTo s) (ce_now env) s else after_session params failure env s
    | None \<Rightarrow> after_session params failure env s)"

definition online_at_start :: "bool \<Rightarrow> nat \<Rightarrow> cb_env \<Rightarrow> cb_state \<Rightarrow> cb_state" where
  "online_at_start params current env s =
    (if CODE_LIFETIME_MS < ce_now env - cb_loadedAt s then restart s
     else wait_for (AwaitSignIn params current) (setError None s))"

definition online_again :: "bool \<Rightarrow> cb_env \<Rightarrow> cb_state \<Rightarrow> cb_state" where
  "online_again params env s =
    (let s1 = setError None s
     in if CODE_LIFETIME_MS < ce_now env - cb_loadedAt s1 then restart s1 else complete params env s1)"

text \<open>The answers a task may get, and the step that resumes it.\<close>

datatype cb_answer =
  AnsSignIn sign_in_answer | AnsSession "oidc_user option" | AnsMe "me_failure option" | AnsDone | AnsFailed cause

definition resume :: "cb_task \<Rightarrow> cb_answer \<Rightarrow> cb_env \<Rightarrow> cb_state \<Rightarrow> cb_state" where
  "resume t a env s =
    (case (t, a) of
      (AwaitOnlineStart params current, AnsDone) \<Rightarrow> online_at_start params current env s
    | (AwaitSignIn params current, AnsSignIn x) \<Rightarrow> sign_in_answered params current x env s
    | (AwaitSession params current failure, AnsSession u) \<Rightarrow> session_answered params failure u env s
    | (AwaitOnlineAgain params, AnsDone) \<Rightarrow> online_again params env s
    | (AwaitMe user current retry, AnsMe f) \<Rightarrow> me_answered user current retry (map_option fetch_failure f) env s
    | (AwaitOnlineMe user current retry, AnsDone) \<Rightarrow> start_me user current (Suc retry) (setError None s)
    | (AwaitPause user current retry, AnsDone) \<Rightarrow>
        if current \<noteq> cb_attempt s then s else start_me user current (Suc retry) s
    | (AwaitRemove failure, AnsDone) \<Rightarrow> setError (Some failure) s
    | (AwaitLeave path, AnsDone) \<Rightarrow> call_lib (LeaveTo path) s
    | (AwaitRedirect, AnsFailed c) \<Rightarrow> setError (Some (callbackError c (ce_online env))) s
    | _ \<Rightarrow> s)"

definition onAction :: "cb_state \<Rightarrow> cb_state" where
  "onAction s =
    (case cb_error s of
      None \<Rightarrow> s
    | Some e \<Rightarrow>
        (case ae_code e of
          AuthNotAllowed \<Rightarrow>
            (let (tab, call) = switchAccount (cb_hint s) (cb_tab s) in wait_for AwaitRedirect (call_lib call (s\<lparr>cb_tab := tab\<rparr>)))
        | AuthApiUnavailable \<Rightarrow>
            (case cb_signedIn s of
              None \<Rightarrow> s
            | Some user \<Rightarrow>
                (let s1 = setError None s; current = Suc (cb_attempt s1)
                 in start_me user current 0 (s1\<lparr>cb_attempt := current\<rparr>)))
        | _ \<Rightarrow> restart s))"

definition load_callback :: "bool \<Rightarrow> cb_env \<Rightarrow> session_tab \<Rightarrow> cb_state" where
  "load_callback params env tab =
    complete params env \<lparr>cb_attempt = 0, cb_error = None, cb_returnTo = pendingReturnTo tab, cb_signedIn = None,
      cb_hint = None, cb_loadedAt = ce_now env, cb_spinnerAt = None, cb_tab = tab, cb_tasks = [], cb_calls = []\<rparr>"

datatype cb_event = CbResume nat cb_answer cb_env | CbAction | CbStartOver | CbSpinner "int option"

fun cb_step :: "cb_state \<Rightarrow> cb_event \<Rightarrow> cb_state" where
  "cb_step s (CbResume n a env) =
    (if n < length (cb_tasks s)
     then resume (cb_tasks s ! n) a env (s\<lparr>cb_tasks := remove_at n (cb_tasks s)\<rparr>) else s)"
| "cb_step s CbAction = onAction s"
| "cb_step s CbStartOver = restart s"
| "cb_step s (CbSpinner t) = s\<lparr>cb_spinnerAt := t\<rparr>"

section \<open>The login screen and the guard\<close>

record login_state =
  lg_tab :: session_tab
  lg_error :: "auth_error option"
  lg_calls :: "auth_call list"

definition login_signIn :: "string \<Rightarrow> bool \<Rightarrow> login_state \<Rightarrow> login_state" where
  "login_signIn returnTo selectAccount s =
    (let (tab, call) = startSignIn returnTo selectAccount (lg_tab s)
     in s\<lparr>lg_error := None, lg_tab := tab, lg_calls := lg_calls s @ [call]\<rparr>)"

text \<open>The effect of the login screen; \<open>user\<close> is what \<open>getUser\<close> answers when it is asked.\<close>

definition login_start :: "string option \<Rightarrow> oidc_user option \<Rightarrow> login_state \<Rightarrow> login_state" where
  "login_start param user s =
    (let returnTo = returnPathOf param; (selectAccount, tab) = takeSelectAccount (lg_tab s);
         known = (if selectAccount then None else user); s1 = s\<lparr>lg_tab := tab\<rparr>
     in (case known of
          Some u \<Rightarrow> if \<not> ou_expired u then s1\<lparr>lg_calls := lg_calls s1 @ [LeaveTo returnTo]\<rparr> else login_signIn returnTo selectAccount s1
        | None \<Rightarrow> login_signIn returnTo selectAccount s1))"

definition login_failed :: "cause \<Rightarrow> bool \<Rightarrow> login_state \<Rightarrow> login_state" where
  "login_failed c online s = s\<lparr>lg_error := Some (callbackError c online)\<rparr>"

datatype guard_shows = GuardWait | GuardLogin string | GuardApp

definition RequireAuth :: "bool \<Rightarrow> bool \<Rightarrow> string \<Rightarrow> string \<Rightarrow> string \<Rightarrow> guard_shows" where
  "RequireAuth isLoading isAuthenticated pathname search hash =
    (if isLoading then GuardWait else if \<not> isAuthenticated then GuardLogin (pathname @ search @ hash) else GuardApp)"

section \<open>What a sign-in may do\<close>

lemma returnPathOf_app: "app_path (returnPathOf x)"
  by (simp add: returnPathOf_def app_path_def split: option.split)

definition silent_times :: "auth_call list \<Rightarrow> int list" where
  "silent_times calls = concat (map (\<lambda>c. case c of SilentRetry t \<Rightarrow> [t] | _ \<Rightarrow> []) calls)"

fun apart :: "int \<Rightarrow> int list \<Rightarrow> bool" where
  "apart d [] = True"
| "apart d [x] = True"
| "apart d (x # y # ys) = (x + d \<le> y \<and> apart d (y # ys))"

lemma apart_snoc: "apart d (xs @ [y]) \<longleftrightarrow> apart d xs \<and> (xs \<noteq> [] \<longrightarrow> last xs + d \<le> y)"
proof (induction xs)
  case (Cons x xs)
  then show ?case by (cases xs) auto
qed simp

lemma silent_snoc:
  "silent_times (calls @ [SilentRetry t]) = silent_times calls @ [t]"
  "(\<And>t. c \<noteq> SilentRetry t) \<Longrightarrow> silent_times (calls @ [c]) = silent_times calls"
  by (simp_all add: silent_times_def split: auth_call.split)

definition call_inside :: "auth_call \<Rightarrow> bool" where
  "call_inside c \<longleftrightarrow> (case c of LeaveTo p \<Rightarrow> app_path p | SignInRedirect p _ \<Rightarrow> app_path p | _ \<Rightarrow> True)"

definition task_ok :: "auth_call list \<Rightarrow> cb_task \<Rightarrow> bool" where
  "task_ok calls t \<longleftrightarrow> (case t of
      AwaitLeave p \<Rightarrow> app_path p
    | AwaitRemove _ \<Rightarrow> RemoveUser \<in> set calls
    | AwaitSession _ _ e \<Rightarrow> ae_code e \<noteq> AuthNotAllowed
    | _ \<Rightarrow> True)"

definition refused :: "auth_error option \<Rightarrow> bool" where
  "refused e \<longleftrightarrow> (case e of None \<Rightarrow> False | Some x \<Rightarrow> ae_code x = AuthNotAllowed)"

definition cb_ok :: "cb_state \<Rightarrow> bool" where
  "cb_ok s \<longleftrightarrow> app_path (cb_returnTo s) \<and> (\<forall>c\<in>set (cb_calls s). call_inside c) \<and>
    (\<forall>t\<in>set (cb_tasks s). task_ok (cb_calls s) t) \<and> (refused (cb_error s) \<longrightarrow> RemoveUser \<in> set (cb_calls s)) \<and>
    apart SILENT_RETRY_WINDOW_MS (silent_times (cb_calls s)) \<and>
    (silent_times (cb_calls s) \<noteq> [] \<longrightarrow> st_silentRetryAt (cb_tab s) = Some (last (silent_times (cb_calls s))))"

lemma callbackError_code: "ae_code (callbackError c online) \<noteq> AuthNotAllowed"
  by (simp add: callbackError_def simple_error_def split: cause.split)

lemma task_ok_more: "task_ok calls t \<Longrightarrow> task_ok (calls @ [c]) t"
  by (auto simp: task_ok_def split: cb_task.splits)

lemma wait_for_ok: "cb_ok s \<Longrightarrow> task_ok (cb_calls s) t \<Longrightarrow> cb_ok (wait_for t s)"
  by (auto simp: cb_ok_def wait_for_def)

lemma call_lib_ok: "cb_ok s \<Longrightarrow> call_inside c \<Longrightarrow> (\<And>t. c \<noteq> SilentRetry t) \<Longrightarrow> cb_ok (call_lib c s)"
  using task_ok_more silent_snoc(2) [of c] by (auto simp: cb_ok_def call_lib_def)

lemma setError_ok: "cb_ok s \<Longrightarrow> (refused e \<Longrightarrow> RemoveUser \<in> set (cb_calls s)) \<Longrightarrow> cb_ok (setError e s)"
  by (auto simp: cb_ok_def setError_def)

lemma same_log_ok:
  assumes "cb_ok s" and "cb_calls s' = cb_calls s" and "set (cb_tasks s') \<subseteq> set (cb_tasks s)" and "cb_error s' = cb_error s"
    and "app_path (cb_returnTo s')" and "st_silentRetryAt (cb_tab s') = st_silentRetryAt (cb_tab s)"
  shows "cb_ok s'"
  using assms by (auto simp: cb_ok_def)

lemma leave_ok: "cb_ok s \<Longrightarrow> app_path p \<Longrightarrow> cb_ok (leave_screen p now s)"
  by (auto simp: leave_screen_def task_ok_def call_inside_def intro!: wait_for_ok call_lib_ok split: option.split)

lemma restart_ok:
  assumes "cb_ok s"
  shows "cb_ok (restart s)"
proof -
  let ?p = "returnPathOf (Some (cb_returnTo s))"
  let ?s = "s\<lparr>cb_attempt := Suc (cb_attempt s), cb_tab := (cb_tab s)\<lparr>st_returnTo := Some ?p\<rparr>\<rparr>"
  have "cb_ok ?s" by (rule same_log_ok [OF assms]) (use assms in \<open>simp_all add: cb_ok_def\<close>)
  then have "cb_ok (call_lib (SignInRedirect ?p False) ?s)"
    by (rule call_lib_ok) (simp_all add: call_inside_def returnPathOf_app)
  then show ?thesis by (simp add: restart_def startSignIn_def Let_def wait_for_ok task_ok_def)
qed

lemma silent_ok:
  assumes "cb_ok s" and "takeSilentRetry now s = (taken, s')"
  shows "cb_ok s'"
proof (cases taken)
  case False
  then show ?thesis using assms by (auto simp: takeSilentRetry_def Let_def split: if_splits)
next
  case True
  let ?at = "case st_silentRetryAt (cb_tab s) of None \<Rightarrow> 0 | Some t \<Rightarrow> t"
  have s': "s' = call_lib (SilentRetry now) (s\<lparr>cb_tab := (cb_tab s)\<lparr>st_silentRetryAt := Some now\<rparr>\<rparr>)"
    and far: "SILENT_RETRY_WINDOW_MS \<le> now - ?at"
    using assms(2) True by (auto simp: takeSilentRetry_def Let_def split: if_splits)
  have "apart SILENT_RETRY_WINDOW_MS (silent_times (cb_calls s) @ [now])"
    using assms(1) far by (auto simp: apart_snoc cb_ok_def)
  then show ?thesis using assms(1) task_ok_more
    by (auto simp: s' cb_ok_def call_lib_def silent_snoc(1) call_inside_def)
qed

lemma after_session_ok:
  assumes "cb_ok s" and "ae_code failure \<noteq> AuthNotAllowed"
  shows "cb_ok (after_session params failure env s)"
proof -
  obtain taken s1 where t: "(if ae_silentRetry failure then takeSilentRetry (ce_now env) s else (False, s)) = (taken, s1)"
    by (metis surj_pair)
  have ok: "cb_ok s1" using silent_ok [OF assms(1)] t assms(1) by (metis Pair_inject)
  have "cb_ok (setError (Some failure) s1)" by (rule setError_ok [OF ok]) (use assms(2) in \<open>simp add: refused_def\<close>)
  then show ?thesis using ok restart_ok unfolding after_session_def t by (simp add: wait_for_ok task_ok_def)
qed

lemma attempt_ok: "cb_ok s \<Longrightarrow> cb_ok (s\<lparr>cb_attempt := n\<rparr>)"
  by (rule same_log_ok) (simp_all add: cb_ok_def)

lemma complete_ok: "cb_ok s \<Longrightarrow> cb_ok (complete params env s)"
  by (auto simp: complete_def Let_def task_ok_def refused_def simple_error_def intro!: wait_for_ok setError_ok attempt_ok)

lemma me_answered_ok:
  assumes "cb_ok s"
  shows "cb_ok (me_answered user current retry failed env s)"
proof (cases failed)
  case None
  then show ?thesis using assms leave_ok returnPathOf_app by (simp add: me_answered_def)
next
  case (Some c)
  let ?f = "meError c (ou_email user) (ce_online env)"
  have "cb_ok (s\<lparr>cb_hint := ou_idToken user\<rparr>)" by (rule same_log_ok [OF assms]) (use assms in \<open>simp_all add: cb_ok_def\<close>)
  then have removed: "cb_ok (wait_for (AwaitRemove ?f) (call_lib RemoveUser (s\<lparr>cb_hint := ou_idToken user\<rparr>)))"
    by (intro wait_for_ok call_lib_ok) (simp_all add: call_inside_def task_ok_def call_lib_def)
  show ?thesis
  proof (cases "ae_code ?f = AuthNotAllowed")
    case True
    then show ?thesis using Some removed assms by (simp add: me_answered_def Let_def)
  next
    case False
    then have "cb_ok (setError (Some ?f) s)" by (intro setError_ok [OF assms]) (simp add: refused_def)
    then show ?thesis using Some removed assms by (auto simp: me_answered_def Let_def task_ok_def intro!: wait_for_ok)
  qed
qed

lemma sign_in_answered_ok:
  assumes "cb_ok s"
  shows "cb_ok (sign_in_answered params current answer env s)"
proof (cases "if params then answer else SignInFailed (CauseError NO_STATE)")
  case (SignedIn user)
  have "cb_ok (s\<lparr>cb_returnTo := returnPathOf (ou_returnTo user), cb_signedIn := Some user\<rparr>)"
    by (rule same_log_ok [OF assms]) (simp_all add: returnPathOf_app)
  then show ?thesis using assms unfolding sign_in_answered_def SignedIn
    by (simp add: start_me_def wait_for_ok task_ok_def)
next
  case (SignInFailed c)
  then show ?thesis using assms after_session_ok [OF assms callbackError_code] unfolding sign_in_answered_def SignInFailed
    by (auto simp: Let_def task_ok_def callbackError_code intro!: wait_for_ok)
qed

lemma resume_ok:
  assumes ok: "cb_ok s" and t: "task_ok (cb_calls s) t"
  shows "cb_ok (resume t a env s)"
proof -
  have none: "cb_ok (setError None s)" by (rule setError_ok [OF ok]) (simp add: refused_def)
  show ?thesis
  proof (cases t)
    case (AwaitOnlineStart params current)
    then show ?thesis using ok none restart_ok [OF ok]
      by (auto simp: resume_def online_at_start_def task_ok_def intro!: wait_for_ok split: cb_answer.split)
  next
    case (AwaitSignIn params current)
    then show ?thesis using ok sign_in_answered_ok [OF ok] by (simp add: resume_def split: cb_answer.split)
  next
    case (AwaitSession params current failure)
    then have "cb_ok (after_session params failure env s)" using after_session_ok [OF ok] t by (simp add: task_ok_def)
    moreover have "cb_ok (leave_screen (cb_returnTo s) (ce_now env) s)"
      by (rule leave_ok [OF ok]) (use ok in \<open>simp add: cb_ok_def\<close>)
    ultimately show ?thesis using AwaitSession ok
      by (auto simp: resume_def session_answered_def split: cb_answer.split option.split)
  next
    case (AwaitOnlineAgain params)
    then show ?thesis using ok none restart_ok [OF none] complete_ok [OF none]
      by (auto simp: resume_def online_again_def Let_def split: cb_answer.split)
  next
    case (AwaitMe user current retry)
    then show ?thesis using ok me_answered_ok [OF ok] by (simp add: resume_def split: cb_answer.split)
  next
    case (AwaitOnlineMe user current retry)
    then show ?thesis using ok none by (auto simp: resume_def start_me_def task_ok_def intro!: wait_for_ok split: cb_answer.split)
  next
    case (AwaitPause user current retry)
    then show ?thesis using ok by (auto simp: resume_def start_me_def task_ok_def intro!: wait_for_ok split: cb_answer.split)
  next
    case (AwaitRemove failure)
    then have "cb_ok (setError (Some failure) s)" using t by (intro setError_ok [OF ok]) (simp add: task_ok_def)
    then show ?thesis using AwaitRemove ok by (simp add: resume_def split: cb_answer.split)
  next
    case (AwaitLeave p)
    then have "cb_ok (call_lib (LeaveTo p) s)" using t by (intro call_lib_ok [OF ok]) (simp_all add: task_ok_def call_inside_def)
    then show ?thesis using AwaitLeave ok by (simp add: resume_def split: cb_answer.split)
  next
    case AwaitRedirect
    have "cb_ok (setError (Some (callbackError c (ce_online env))) s)" for c
      by (rule setError_ok [OF ok]) (simp add: refused_def callbackError_code)
    then show ?thesis using AwaitRedirect ok by (simp add: resume_def split: cb_answer.split)
  qed
qed

lemma onAction_ok:
  assumes ok: "cb_ok s"
  shows "cb_ok (onAction s)"
proof -
  have none: "cb_ok (setError None s)" by (rule setError_ok [OF ok]) (simp add: refused_def)
  let ?s = "s\<lparr>cb_tab := (cb_tab s)\<lparr>st_selectAccount := True\<rparr>\<rparr>"
  have "cb_ok ?s" by (rule same_log_ok [OF ok]) (use ok in \<open>simp_all add: cb_ok_def\<close>)
  then have "cb_ok (wait_for AwaitRedirect (call_lib (SignOutRedirect (cb_hint s)) ?s))"
    by (intro wait_for_ok call_lib_ok) (simp_all add: call_inside_def task_ok_def)
  moreover have "cb_ok (start_me user n 0 ((setError None s)\<lparr>cb_attempt := n\<rparr>))" for user n
    using attempt_ok [OF none] by (simp add: start_me_def wait_for_ok task_ok_def)
  ultimately show ?thesis using ok restart_ok [OF ok]
    by (simp add: onAction_def switchAccount_def Let_def split: option.split auth_code.split)
qed

lemma cb_step_ok: "cb_ok s \<Longrightarrow> cb_ok (cb_step s e)"
proof (cases e)
  case (CbResume n a env)
  assume ok: "cb_ok s"
  have sub: "set (remove_at n (cb_tasks s)) \<subseteq> set (cb_tasks s)"
    unfolding remove_at_def by (auto dest: in_set_takeD in_set_dropD)
  have "cb_ok (s\<lparr>cb_tasks := remove_at n (cb_tasks s)\<rparr>)"
    by (rule same_log_ok [OF ok]) (use ok sub in \<open>simp_all add: cb_ok_def\<close>)
  moreover have "task_ok (cb_calls s) (cb_tasks s ! n)" if "n < length (cb_tasks s)"
    using ok that by (simp add: cb_ok_def)
  ultimately show ?thesis using CbResume ok by (simp add: resume_ok)
next
  case (CbSpinner t)
  assume "cb_ok s"
  then show ?thesis using CbSpinner by (simp add: cb_ok_def)
qed (auto intro: onAction_ok restart_ok)

interpretation callback: event_machine cb_step "\<lambda>s e. True" cb_ok
  by unfold_locales (rule cb_step_ok)

section \<open>Properties\<close>

lemma load_ok: "cb_ok (load_callback params env tab)"
  unfolding load_callback_def
  by (rule complete_ok) (simp add: cb_ok_def pendingReturnTo_def returnPathOf_app silent_times_def refused_def)


definition a_user :: oidc_user where
  "a_user = \<lparr>ou_token = ''t'', ou_expired = False, ou_idToken = None, ou_email = None, ou_returnTo = Some ''/verso/inbox''\<rparr>"

definition a_tab :: session_tab where
  "a_tab = \<lparr>st_returnTo = Some ''/verso'', st_selectAccount = False, st_silentRetryAt = None\<rparr>"

definition online_at :: "int \<Rightarrow> cb_env" where
  "online_at t = \<lparr>ce_online = True, ce_now = t\<rparr>"

definition good_sign_in :: "cb_event list" where
  "good_sign_in = [CbResume 0 (AnsSignIn (SignedIn a_user)) (online_at 1000000), CbResume 0 (AnsMe None) (online_at 1000100)]"

lemmas callback_run = load_callback_def complete_def wait_for_def resume_def sign_in_answered_def start_me_def
  me_answered_def leave_screen_def call_lib_def remove_at_def Let_def online_at_def a_user_def a_tab_def


text \<open>
  What is asked of \<open>/me\<close>: an answer that may be tried again is tried again after a pause for as long
  as the pauses last, and a wait for the network uses one of them up as well.
\<close>

lemma me_tried_again:
  assumes "current = cb_attempt s" and "ae_code (meError c (ou_email user) (ce_online env)) = AuthApiUnavailable"
  shows "me_answered user current retry (Some c) env s =
    (if retry < 3 then wait_for (AwaitPause user current retry) s
     else setError (Some (meError c (ou_email user) (ce_online env))) s)"
  using assms by (simp add: me_answered_def Let_def ME_RETRY_DELAYS_MS_def)

lemma network_wait_uses_a_retry:
  "resume (AwaitOnlineMe user current retry) AnsDone env s = start_me user current (Suc retry) (setError None s)"
  by (simp add: resume_def)

text \<open>
  The answer to \<open>is there a session\<close> is not checked against the attempt: after Start over, an abandoned
  attempt that finds a session still leaves for its page, while the new sign-in is on its way.
\<close>

lemma abandoned_attempt_leaves:
  assumes "\<not> ou_expired u" and "cb_spinnerAt s = None"
  shows "LeaveTo (cb_returnTo s) \<in> set (cb_calls (resume (AwaitSession params current failure) (AnsSession (Some u)) env (restart s)))"
  using assms by (simp add: resume_def session_answered_def leave_screen_def call_lib_def restart_def startSignIn_def
      wait_for_def Let_def)

text \<open>A path of the app may still leave it: the browser drops the tab, and reads two slashes.\<close>

lemma app_path_with_tab: "app_path (''/'' @ [CHR 0x09] @ ''/evil.example'')"
  by (simp add: app_path_def)

end
