(* ===== verification/Sign_In_View.thy ===== *)
theory Sign_In_View
  imports Auth_Callback Keyboard
begin

text \<open>
  The screens of a sign-in (\<open>apps/frontend/src/app/auth\<close>): the timeline of the callback's wait around the machine of
  \<open>Auth_Callback\<close> (\<open>CallbackScreen.tsx\<close>), the error's screen with its Enter key and the details it copies
  (\<open>AuthErrorView.tsx\<close>), and the name of the account (\<open>AccountMenu.tsx\<close>). What the clock reads is what the events
  say; an id and a date are arguments, as the texts the platform makes of them.
\<close>

section \<open>The wait\<close>

datatype wait_stage = StageBlank | StageSpinner | StageHint | StageSlow

definition SPINNER_DELAY_MS :: int where "SPINNER_DELAY_MS = 200"
definition HINT_AFTER_MS :: int where "HINT_AFTER_MS = 1000"
definition SLOW_AFTER_MS :: int where "SLOW_AFTER_MS = 4000"

text \<open>\<open>sp_timers\<close>: when the timers that are set are due, and the stage they bring; \<open>sp_since\<close>: when they were set.\<close>

record sign_in_page =
  sp_cb :: cb_state
  sp_stage :: wait_stage
  sp_timers :: "(int \<times> wait_stage) list"
  sp_since :: int
  sp_now :: int

definition timeline :: "int \<Rightarrow> (int \<times> wait_stage) list" where
  "timeline since = [(since + SPINNER_DELAY_MS, StageSpinner), (since + HINT_AFTER_MS, StageHint), (since + SLOW_AFTER_MS, StageSlow)]"

text \<open>The effect of \<open>error\<close>: its timers when the screen waits, and its cleanup when the wait ends.\<close>

definition wait_effect :: "int \<Rightarrow> cb_state \<Rightarrow> sign_in_page \<Rightarrow> sign_in_page" where
  "wait_effect now cb s =
    (let before = cb_error (sp_cb s) in
     if before = None \<and> cb_error cb \<noteq> None
     then s\<lparr>sp_cb := cb_step cb (CbSpinner None), sp_stage := StageBlank, sp_timers := [], sp_now := now\<rparr>
     else if before \<noteq> None \<and> cb_error cb = None
     then s\<lparr>sp_cb := cb, sp_timers := timeline now, sp_since := now, sp_now := now\<rparr>
     else s\<lparr>sp_cb := cb, sp_now := now\<rparr>)"

definition timer_fires :: "int \<Rightarrow> sign_in_page \<Rightarrow> sign_in_page" where
  "timer_fires now s =
    (case sp_timers s of
      [] \<Rightarrow> s\<lparr>sp_now := now\<rparr>
    | (due, stage) # rest \<Rightarrow>
        if now < due then s\<lparr>sp_now := now\<rparr>
        else s\<lparr>sp_cb := (if stage = StageSpinner then cb_step (sp_cb s) (CbSpinner (Some now)) else sp_cb s),
               sp_stage := stage, sp_timers := rest, sp_now := now\<rparr>)"

text \<open>What is on the screen: the error with its action; nothing; or the spinner, its hint, and Start over.\<close>

datatype sign_in_shows = ShowsError auth_error | ShowsBlank | ShowsSpinner bool bool

definition sign_in_screen :: "sign_in_page \<Rightarrow> sign_in_shows" where
  "sign_in_screen s =
    (case cb_error (sp_cb s) of
      Some e \<Rightarrow> ShowsError e
    | None \<Rightarrow> if sp_stage s = StageBlank then ShowsBlank
        else ShowsSpinner (sp_stage s \<noteq> StageSpinner) (sp_stage s = StageSlow))"

datatype page_event = PageAnswer nat cb_answer cb_env | PageTimer int | PageAction int | PageStartOver int

definition sign_in_step :: "sign_in_page \<Rightarrow> page_event \<Rightarrow> sign_in_page" where
  "sign_in_step s e =
    (case e of
      PageAnswer n a env \<Rightarrow> wait_effect (ce_now env) (cb_step (sp_cb s) (CbResume n a env)) s
    | PageTimer now \<Rightarrow> timer_fires now s
    | PageAction now \<Rightarrow> wait_effect now (cb_step (sp_cb s) CbAction) s
    | PageStartOver now \<Rightarrow>
        if sign_in_screen s = ShowsSpinner True True then wait_effect now (cb_step (sp_cb s) CbStartOver) s else s)"

text \<open>\<open>hasAuthParams\<close>, of the parameters of the callback's address; and the page as it loads.\<close>

definition hasAuthParams :: "(string \<times> string) list \<Rightarrow> bool" where
  "hasAuthParams params \<longleftrightarrow>
    (let has = (\<lambda>k. k \<in> set (map fst params)) in has ''state'' \<and> (has ''code'' \<or> has ''error''))"

definition load_page :: "(string \<times> string) list \<Rightarrow> cb_env \<Rightarrow> session_tab \<Rightarrow> sign_in_page" where
  "load_page params env tab =
    (let cb = load_callback (hasAuthParams params) env tab; now = ce_now env
     in \<lparr>sp_cb = cb, sp_stage = StageBlank, sp_timers = (if cb_error cb = None then timeline now else []),
         sp_since = now, sp_now = now\<rparr>)"

text \<open>The short id: of a UUID's text, without its dashes.\<close>

definition newRequestId :: "string \<Rightarrow> string" where
  "newRequestId uuid = take 8 (filter (\<lambda>c. c \<noteq> CHR ''-'') uuid)"

section \<open>The error's screen\<close>

fun code_text :: "auth_code \<Rightarrow> string" where
  "code_text AuthCancelled = ''auth.cancelled''"
| "code_text AuthStateMismatch = ''auth.state_mismatch''"
| "code_text AuthNotAllowed = ''auth.not_allowed''"
| "code_text AuthTokenFailed = ''auth.token_failed''"
| "code_text AuthIdpError = ''auth.idp_error''"
| "code_text AuthTimedOut = ''auth.timeout''"
| "code_text AuthApiUnavailable = ''auth.api_unavailable''"
| "code_text AuthOffline = ''auth.offline''"
| "code_text AuthMisconfigured = ''auth.misconfigured''"

record page_location =
  pl_origin :: string
  pl_pathname :: string
  pl_search :: string

definition detailsText :: "auth_error \<Rightarrow> string \<Rightarrow> string \<Rightarrow> page_location \<Rightarrow> string list" where
  "detailsText e requestId date l =
    filter (\<lambda>line. line \<noteq> [])
      [code_text (ae_code e), ''req '' @ requestId, date, pl_origin l @ pl_pathname l, case ae_description e of None \<Rightarrow> [] | Some d \<Rightarrow> d]"

definition copied_text :: "auth_error \<Rightarrow> string \<Rightarrow> string \<Rightarrow> page_location \<Rightarrow> string" where
  "copied_text e requestId date l = join [CHR 0x0A] (detailsText e requestId date l)"

text \<open>A press of Enter: what the window's handler and the button under it, if any, do.\<close>

datatype enter_target = OnPage | OnActionButton | OnCopyButton

record error_view =
  ev_actions :: nat
  ev_copies :: nat

definition window_enter :: "auth_error \<Rightarrow> bool \<Rightarrow> enter_target \<Rightarrow> nat" where
  "window_enter e repeat target =
    (if es_action (ERROR_SCREENS (ae_code e)) = None then 0
     else if repeat \<or> target \<noteq> OnPage then 0 else 1)"

definition button_enter :: "enter_target \<Rightarrow> error_view" where
  "button_enter target = \<lparr>ev_actions = (if target = OnActionButton then 1 else 0), ev_copies = (if target = OnCopyButton then 1 else 0)\<rparr>"

definition press_enter :: "auth_error \<Rightarrow> bool \<Rightarrow> enter_target \<Rightarrow> error_view" where
  "press_enter e repeat target =
    (let b = button_enter target in b\<lparr>ev_actions := ev_actions b + window_enter e repeat target\<rparr>)"

text \<open>Which of its parts can have the focus: the two buttons are there only when the screen has them.\<close>

definition on_error_screen :: "auth_error \<Rightarrow> enter_target \<Rightarrow> bool" where
  "on_error_screen e target =
    (case target of
      OnPage \<Rightarrow> True
    | OnActionButton \<Rightarrow> es_action (ERROR_SCREENS (ae_code e)) \<noteq> None
    | OnCopyButton \<Rightarrow> es_details (ERROR_SCREENS (ae_code e)))"

text \<open>Who was refused, where the text of the screen names an account.\<close>

definition refused_name :: "auth_error \<Rightarrow> string option" where
  "refused_name e =
    (if ae_code e = AuthNotAllowed then Some (if truthy (ae_email e) then the (ae_email e) else ''This account'') else None)"

definition account_name :: "string option \<Rightarrow> string option \<Rightarrow> string option \<Rightarrow> string" where
  "account_name name username email =
    (if truthy name then the name else if truthy username then the username else if truthy email then the email else ''Account'')"

section \<open>A wait shows in time\<close>

definition stages :: "wait_stage list" where
  "stages = [StageBlank, StageSpinner, StageHint, StageSlow]"

definition page_ok :: "sign_in_page \<Rightarrow> bool" where
  "page_ok s \<longleftrightarrow>
    (case cb_error (sp_cb s) of
      Some e \<Rightarrow> sp_stage s = StageBlank \<and> sp_timers s = [] \<and> cb_spinnerAt (sp_cb s) = None
    | None \<Rightarrow> \<exists>k \<le> 3. sp_timers s = drop k (timeline (sp_since s)) \<and> sp_stage s = stages ! k \<and>
        (if k = 0 then cb_spinnerAt (sp_cb s) = None
         else sp_since s + [200, 1000, 4000] ! (k - 1) \<le> sp_now s \<and>
           (\<exists>t. cb_spinnerAt (sp_cb s) = Some t \<and> sp_since s + 200 \<le> t \<and> t \<le> sp_now s)))"

definition event_time :: "page_event \<Rightarrow> int" where
  "event_time e = (case e of PageAnswer _ _ env \<Rightarrow> ce_now env | PageTimer now \<Rightarrow> now | PageAction now \<Rightarrow> now | PageStartOver now \<Rightarrow> now)"

text \<open>Time does not go back.\<close>

definition in_time :: "sign_in_page \<Rightarrow> page_event \<Rightarrow> bool" where
  "in_time s e \<longleftrightarrow> sp_now s \<le> event_time e"

lemma resume_spinner: "cb_spinnerAt (resume t a env s) = cb_spinnerAt s"
  by (cases t; cases a)
    (auto simp: resume_def online_at_start_def restart_def startSignIn_def wait_for_def call_lib_def setError_def
      sign_in_answered_def session_answered_def after_session_def takeSilentRetry_def leave_screen_def start_me_def me_answered_def
      online_again_def complete_def Let_def split: option.split sign_in_answer.split prod.split)

lemma step_spinner:
  "cb_spinnerAt (cb_step s (CbResume n a env)) = cb_spinnerAt s" "cb_spinnerAt (cb_step s CbAction) = cb_spinnerAt s"
  "cb_spinnerAt (cb_step s CbStartOver) = cb_spinnerAt s"
  by (auto simp: resume_spinner onAction_def switchAccount_def restart_def startSignIn_def start_me_def wait_for_def call_lib_def
      setError_def Let_def split: option.split auth_code.split prod.split)

lemma effect_ok:
  assumes "page_ok s" and "cb_spinnerAt cb = cb_spinnerAt (sp_cb s)" and "sp_now s \<le> now"
  shows "page_ok (wait_effect now cb s)"
proof (cases "cb_error (sp_cb s)")
  case None
  then obtain k where k: "k \<le> 3" "sp_timers s = drop k (timeline (sp_since s))" "sp_stage s = stages ! k"
    "if k = 0 then cb_spinnerAt (sp_cb s) = None
     else sp_since s + [200, 1000, 4000] ! (k - 1) \<le> sp_now s \<and> (\<exists>t. cb_spinnerAt (sp_cb s) = Some t \<and> sp_since s + 200 \<le> t \<and> t \<le> sp_now s)"
    using assms(1) by (auto simp: page_ok_def)
  show ?thesis
  proof (cases "cb_error cb")
    case None
    then have w: "wait_effect now cb s = s\<lparr>sp_cb := cb, sp_now := now\<rparr>" using \<open>cb_error (sp_cb s) = None\<close> by (simp add: wait_effect_def)
    show ?thesis unfolding w page_ok_def using k None assms(2,3) by (auto intro!: exI [of _ k] split: if_splits)
  qed (use \<open>cb_error (sp_cb s) = None\<close> in \<open>auto simp: wait_effect_def page_ok_def\<close>)
next
  case (Some e)
  then have blank: "sp_stage s = StageBlank" "sp_timers s = []" "cb_spinnerAt (sp_cb s) = None" using assms(1) by (auto simp: page_ok_def)
  show ?thesis
  proof (cases "cb_error cb")
    case None
    then show ?thesis using Some blank assms(2) unfolding page_ok_def
      by (auto simp: wait_effect_def stages_def intro!: exI [of _ 0])
  qed (use Some blank assms(2) in \<open>auto simp: wait_effect_def page_ok_def\<close>)
qed

lemma drop_timeline:
  "k \<le> 3 \<Longrightarrow> drop k (timeline since) = (due, stage) # rest \<Longrightarrow>
    k < 3 \<and> due = since + [200, 1000, 4000] ! k \<and> stage = stages ! Suc k \<and> rest = drop (Suc k) (timeline since) \<and>
    (stage = StageSpinner \<longleftrightarrow> k = 0)"
  by (cases k; cases "k - 1"; cases "k - 2")
    (auto simp: timeline_def stages_def SPINNER_DELAY_MS_def HINT_AFTER_MS_def SLOW_AFTER_MS_def numeral_2_eq_2 numeral_3_eq_3 le_Suc_eq)

lemma wait_timer_ok:
  assumes "page_ok s" and "sp_now s \<le> now"
  shows "page_ok (timer_fires now s)"
proof (cases "cb_error (sp_cb s)")
  case (Some e)
  then show ?thesis using assms by (simp add: page_ok_def timer_fires_def)
next
  case None
  then obtain k where k: "k \<le> 3" "sp_timers s = drop k (timeline (sp_since s))" "sp_stage s = stages ! k"
    "if k = 0 then cb_spinnerAt (sp_cb s) = None
     else sp_since s + [200, 1000, 4000] ! (k - 1) \<le> sp_now s \<and> (\<exists>t. cb_spinnerAt (sp_cb s) = Some t \<and> sp_since s + 200 \<le> t \<and> t \<le> sp_now s)"
    using assms(1) by (auto simp: page_ok_def)
  have stay: "page_ok (s\<lparr>sp_now := now\<rparr>)" unfolding page_ok_def using k None assms(2) by (auto intro!: exI [of _ k] split: if_splits)
  show ?thesis
  proof (cases "sp_timers s")
    case Nil
    then show ?thesis using stay by (simp add: timer_fires_def)
  next
    case (Cons d rest)
    obtain due stage where d: "d = (due, stage)" by (cases d)
    note t = drop_timeline [OF k(1), of "sp_since s" due stage rest]
    show ?thesis
    proof (cases "now < due")
      case True
      then show ?thesis using stay Cons d by (simp add: timer_fires_def)
    next
      case False
      have t: "k < 3" "due = sp_since s + [200, 1000, 4000] ! k" "stage = stages ! Suc k" "rest = drop (Suc k) (timeline (sp_since s))"
        "stage = StageSpinner \<longleftrightarrow> k = 0"
        using drop_timeline [OF k(1), of "sp_since s" due stage rest] k(2) Cons d by auto
      let ?cb = "if stage = StageSpinner then cb_step (sp_cb s) (CbSpinner (Some now)) else sp_cb s"
      have fired: "timer_fires now s = s\<lparr>sp_cb := ?cb, sp_stage := stage, sp_timers := rest, sp_now := now\<rparr>"
        using Cons d False by (simp add: timer_fires_def)
      have shown: "\<exists>t. cb_spinnerAt ?cb = Some t \<and> sp_since s + 200 \<le> t \<and> t \<le> now"
        using k(4) t(2,5) False assms(2) by (cases "k = 0") auto
      have none: "cb_error ?cb = None" using None by simp
      obtain cb where cb: "cb = ?cb" by simp
      have "page_ok (s\<lparr>sp_cb := cb, sp_stage := stage, sp_timers := rest, sp_now := now\<rparr>)"
        unfolding page_ok_def using t(1-4) False shown [folded cb] none [folded cb] by (auto intro!: exI [of _ "Suc k"])
      then show ?thesis unfolding fired cb .
    qed
  qed
qed

lemma sign_in_step_ok: "page_ok s \<Longrightarrow> in_time s e \<Longrightarrow> page_ok (sign_in_step s e)"
  by (cases e) (auto simp: sign_in_step_def in_time_def event_time_def simp del: cb_step.simps intro!: effect_ok wait_timer_ok step_spinner)

interpretation wait_screen: event_machine sign_in_step in_time page_ok
  by unfold_locales (rule sign_in_step_ok)

lemma load_spinner: "cb_spinnerAt (load_callback params env tab) = None"
  by (simp add: load_callback_def complete_def wait_for_def setError_def Let_def)

lemma load_page_ok: "page_ok (load_page params env tab)"
  by (auto simp: load_page_def page_ok_def load_spinner stages_def Let_def intro: exI [of _ 0])

text \<open>
  While a sign-in waits, the screen tells how long: with no error shown and no timer overdue, the spinner is there from
  200 ms of the wait on, its words from a second on and Start over from four; an error has the screen to itself, and
  the wait after it begins blank again.
\<close>

theorem wait_shows_in_time:
  assumes "admissible sign_in_step in_time (load_page params env tab) es" and "s = foldl sign_in_step (load_page params env tab) es"
  shows "cb_error (sp_cb s) = Some e \<Longrightarrow> sign_in_screen s = ShowsError e \<and> sp_timers s = [] \<and> sp_stage s = StageBlank"
    and "cb_error (sp_cb s) = None \<Longrightarrow> \<forall>d \<in> set (sp_timers s). sp_now s < fst d \<Longrightarrow>
      sign_in_screen s = (let elapsed = sp_now s - sp_since s in
        if elapsed < 200 then ShowsBlank else ShowsSpinner (1000 \<le> elapsed) (4000 \<le> elapsed))"
proof -
  have ok: "page_ok s" using wait_screen.run_inv [OF load_page_ok] assms by blast
  then show "cb_error (sp_cb s) = Some e \<Longrightarrow> sign_in_screen s = ShowsError e \<and> sp_timers s = [] \<and> sp_stage s = StageBlank"
    by (simp add: page_ok_def sign_in_screen_def)
  assume none: "cb_error (sp_cb s) = None" and due: "\<forall>d \<in> set (sp_timers s). sp_now s < fst d"
  then obtain k where k: "k \<le> 3" "sp_timers s = drop k (timeline (sp_since s))" "sp_stage s = stages ! k"
    "k \<noteq> 0 \<longrightarrow> sp_since s + [200, 1000, 4000] ! (k - 1) \<le> sp_now s"
    using ok by (auto simp: page_ok_def split: if_splits)
  then consider "k = 0" | "k = 1" | "k = 2" | "k = 3" by linarith
  then show "sign_in_screen s = (let elapsed = sp_now s - sp_since s in
        if elapsed < 200 then ShowsBlank else ShowsSpinner (1000 \<le> elapsed) (4000 \<le> elapsed))"
    using k due none
    by cases (auto simp: sign_in_screen_def stages_def timeline_def SPINNER_DELAY_MS_def HINT_AFTER_MS_def SLOW_AFTER_MS_def Let_def
        numeral_2_eq_2 numeral_3_eq_3)
qed

text \<open>The page only drives the callback's machine: each of its runs is one of that machine.\<close>

theorem page_runs_callback:
  "\<exists>es'. sp_cb (foldl sign_in_step (load_page params env tab) es) = foldl cb_step (load_callback (hasAuthParams params) env tab) es'"
proof (induction es rule: rev_induct)
  case Nil
  show ?case by (rule exI [of _ "[]"]) (simp add: load_page_def Let_def)
next
  case (snoc e es)
  let ?s = "foldl sign_in_step (load_page params env tab) es"
  have effect: "\<exists>fs. sp_cb (wait_effect now (cb_step (sp_cb ?s) c) ?s) = foldl cb_step (sp_cb ?s) fs" for now c
    by (cases "sp_cb (wait_effect now (cb_step (sp_cb ?s) c) ?s) = cb_step (sp_cb ?s) c")
      (rule exI [of _ "[c]"], simp, rule exI [of _ "[c, CbSpinner None]"], simp add: wait_effect_def Let_def split: if_splits)
  have timer: "\<exists>fs. sp_cb (timer_fires now ?s) = foldl cb_step (sp_cb ?s) fs" for now
    by (auto simp: timer_fires_def simp del: cb_step.simps split: list.split intro: exI [of _ "[]"] exI [of _ "[CbSpinner (Some now)]"])
  have "\<exists>fs. sp_cb (sign_in_step ?s e) = foldl cb_step (sp_cb ?s) fs"
    using effect timer by (cases e) (auto simp: sign_in_step_def simp del: cb_step.simps intro: exI [of _ "[]"])
  then show ?case using snoc.IH by (metis foldl_Cons foldl_Nil foldl_append)
qed

section \<open>The error's screen\<close>

text \<open>
  Enter does one thing: the action of the error, wherever the focus is, or the copy when that button has it; nothing
  twice, and nothing where the screen offers nothing.
\<close>

theorem enter_acts_once:
  assumes "on_error_screen e target"
  shows "ev_actions (press_enter e False target) + ev_copies (press_enter e False target) =
      (if target = OnCopyButton \<or> es_action (ERROR_SCREENS (ae_code e)) \<noteq> None then 1 else 0)"
    and "ev_actions (press_enter e False target) \<noteq> 0 \<Longrightarrow> es_action (ERROR_SCREENS (ae_code e)) \<noteq> None"
  using assms by (cases target; auto simp: press_enter_def button_enter_def window_enter_def on_error_screen_def Let_def split: if_splits)+

text \<open>
  What is copied says the error's code, the request, the time and the page, and the provider's words when there are
  any; nothing of the address's query, where the one-time code is.
\<close>

theorem details_have_no_query:
  assumes "requestId = newRequestId uuid" and "date \<noteq> []" and "pl_origin l \<noteq> []"
  shows "copied_text e requestId date l = copied_text e requestId date (l\<lparr>pl_search := q\<rparr>)"
    and "detailsText e requestId date l = [code_text (ae_code e), ''req '' @ requestId, date, pl_origin l @ pl_pathname l] @
      (if truthy (ae_description e) then [the (ae_description e)] else [])"
    and "length requestId \<le> 8 \<and> CHR ''-'' \<notin> set requestId"
proof -
  show "copied_text e requestId date l = copied_text e requestId date (l\<lparr>pl_search := q\<rparr>)"
    by (simp add: copied_text_def detailsText_def)
  have "code_text c \<noteq> []" for c by (cases c) simp_all
  then show "detailsText e requestId date l = [code_text (ae_code e), ''req '' @ requestId, date, pl_origin l @ pl_pathname l] @
      (if truthy (ae_description e) then [the (ae_description e)] else [])"
    using assms(2,3) by (cases "ae_description e") (simp_all add: detailsText_def truthy_def)
  show "length requestId \<le> 8 \<and> CHR ''-'' \<notin> set requestId"
    using in_set_takeD assms(1) by (fastforce simp: newRequestId_def)
qed

lemma account_named: "account_name n u m \<noteq> []"
  by (cases n; cases u; cases m) (auto simp: account_name_def)

end
