(* ===== verification/Spec2Isabelle.thy ===== *)
theory Spec2Isabelle
  imports
    Prelude
    Upload_System File_Hashing Storage_Double
    Inbox_Grouping Inbox_Screen Inbox_Paging Notification_Time
    Workspaces Sidebar_View Page_Tree Page_Screen Tree_View Drag_Drop Tree_Rows View_State
    Undo_History Keyboard Key_Hooks Key_Notation Toasts Toast_View
    Command_Palette Menus Tooltips Links Form_Controls
    Realtime_Socket
    App_Shell Shell_Frame
    Auth_Callback Sign_In_View
begin

text \<open>
  The frontend of the task manager: a React app (\<open>src/apps/frontend\<close>) over a kit of components
  (\<open>src/packages/frontend/ui-kit\<close>) and a library that uploads files from a web worker
  (\<open>src/packages/frontend/uploader\<close>). What carries state and decides something is modelled; what
  draws is not. A React hook or component is the state it keeps between renders and one function for
  each handler, effect or callback; a \<open>useSyncExternalStore\<close> store is a record. An asynchronous
  function is cut at its awaits: what it waits for is part of the state, and the answer is what a label
  carries. So every interleaving of the code is a list of labels, and what is proved of all lists
  holds of all interleavings.

  \<^bold>\<open>Shared.\<close>
  \<open>Prelude\<close>: JavaScript's optional strings, a \<open>Map\<close> in insertion order (\<open>js_map\<close>), moving within an
  array; the interfaces. \<open>keyed_store\<close> and \<open>ordered_store\<close> are what a map promises (interpreted on
  \<open>js_map\<close> and on search parameters), \<open>reorderable\<close> is a queue whose members are moved (the worker's and the
  page's upload queue), \<open>event_machine\<close> is a machine whose steps keep an invariant (most of
  them below), \<open>disposable_stack\<close> is a registry where a registration gives the function that undoes it
  (the Esc ladder and the hotkeys).

  \<^bold>\<open>Uploads\<close> (\<open>uploader/src\<close>). The page's \<open>Uploader\<close> posts to a worker; there the host starts a runner
  for an upload, which drives the upload's state machine by hashing, opening a transaction, sending
  chunks and polling, and posts snapshots back.
  \<^item> \<open>Upload_Types\<close>: \<open>types.ts\<close>, \<open>errors.ts\<close>, \<open>api/src/errors.ts\<close>: data, and what a thrown value is.
  \<^item> \<open>Upload_Machine\<close>: \<open>machine/upload-machine.ts\<close>: \<open>transition\<close>. Runs stay inside the diagram of the file
    (\<open>edge\<close>, a simulation), the context holds what its step needs, every live upload can still finish.
  \<^item> \<open>Upload_Retry\<close>: \<open>worker/retry.ts\<close>: \<open>withRetry\<close> ends, with what the first successful or final try gave.
  \<^item> \<open>File_Hashing\<close>: \<open>hasher/file-hashing.ts\<close>: a hash interrupted any number of times is the hash of the file.
  \<^item> \<open>Chunk_Upload\<close>: \<open>uploadChunks\<close>: the lanes; the chunks make up the file, progress adds up and never
    passes the size, the pool resolves exactly when all chunks are there.
  \<^item> \<open>Upload_Runner\<close>: \<open>worker/upload-runner.ts\<close>, \<open>worker/storage.ts\<close>: pause, resume, retry, cancel, dispose,
    the loop of steps; what it reports fits its state, answers to abandoned steps change nothing, an
    upload that should run is driven, a vanished transaction is replaced a bounded number of times.
  \<^item> \<open>Storage_Double\<close>: \<open>testing/fake-storage.ts\<close>: the storage the uploader is tested against. Blobs are kept under
    their hash and no slot leaks; behind the lanes of \<open>Chunk_Upload\<close>, a chunked upload arrives in any order of answers.
  \<^item> \<open>Upload_Messages\<close>, \<open>Upload_Host\<close>: \<open>worker/messages.ts\<close>, \<open>worker/upload-host.ts\<close>: the scheduler never
    exceeds its slots, the throttle never loses the last word, one token request is under way at a time.
  \<^item> \<open>Uploader_Client\<close>: \<open>client/uploader.ts\<close>: the list is the queue, each promise is settled once.
  \<^item> \<open>Upload_System\<close>: page and worker together: the page has every upload of the worker; and the one
    sequence in which a removed upload comes back.

  \<^bold>\<open>Inbox\<close> (\<open>apps/frontend/src/shared/inbox\<close>, \<open>pages/Inbox\<close>). The query cache is patched at once by an
  action, by the socket's \<open>inbox.updated\<close>, and rolled back when the request fails.
  \<^item> \<open>Inbox_Cache\<close>: \<open>cache.ts\<close>, \<open>sortDate.ts\<close>, \<open>remoteFlash.ts\<close>, \<open>hooks/useNotificationQueries.ts\<close>: a notification is
    placed once and in order, the counts are exact, a failed action leaves no trace, an update never
    overrides an action in flight; and what a rollback loses.
  \<^item> \<open>Inbox_Grouping\<close>: \<open>utils/grouping.ts\<close>, \<open>utils/cursor.ts\<close>: sections, and where the highlight goes.
  \<^item> \<open>Inbox_Screen\<close>: \<open>Inbox.tsx\<close>, \<open>ui\<close>, \<open>hooks/useRegisterKeyboardHandlers.ts\<close>: the cursor is always on a row of the list, and
    archiving keeps its place.
  \<^item> \<open>Inbox_Paging\<close>: \<open>InboxListFooter.tsx\<close>, \<open>InboxList.tsx\<close>: the end of the list is asked for or the footer offers Retry, as
    long as no length comes back; two tabs of one length show that it is needed.
  \<^item> \<open>Notification_Time\<close>: \<open>shared/ui/NotificationRow\<close>: a row's time is by local days and agrees with the header it stands
    under; the clock the rows share is right to the minute.

  \<^bold>\<open>Pages\<close> (\<open>apps/frontend/src/shared/pages\<close>, \<open>ui-kit/src/components/Tree\<close>).
  \<^item> \<open>Tree_Model\<close>: \<open>Tree/model.ts\<close>, \<open>Tree/types.ts\<close>: index, rows on screen, keyboard moves, drops: a move lands where it
    was shown. Climbing to the root is an option, since a cycle would never end; it ends for every
    index of a tree whose ids are unique.
  \<^item> \<open>Tree_View\<close>: \<open>Tree/Tree.tsx\<close>: the component's handlers; the cursor is always on a row.
  \<^item> \<open>Drag_Drop\<close>: \<open>Tree/useTreeDnd.ts\<close>, \<open>VirtualList\<close>: a drop does what the drag showed, a row lands beside the line, and
    over a tree whose ids are unique no drag hangs.
  \<^item> \<open>Tree_Rows\<close>: \<open>Tree/TreeRow.tsx\<close>: a rename ends once, a row asks one thing of a press, and one row is marked.
  \<^item> \<open>Page_Tree\<close>: \<open>shared/pages/tree.tsx\<close>, \<open>usePageActions.ts\<close>: the flat list and its tree, the optimistic actions. A
    move in the list is the move in the tree (a refinement); the pages archived with a page are its
    descendants. \<open>build\<close> runs on fuel, one more than there are pages, which is enough for
    every list without a repeated id (\<open>toTreeNodes_ends\<close>).
  \<^item> \<open>Page_Screen\<close>: \<open>pages/Page\<close>, \<open>PageCrumbs.tsx\<close>, \<open>PagesSection.tsx\<close>: the title's field saves edits and nothing else; the
    trail ends at the page.
  \<^item> \<open>View_State\<close>: \<open>shared/utils/view-state\<close>, \<open>shared/hooks/useSearchParam.ts\<close>: what is written to the address is read back.

  \<^bold>\<open>Workspaces.\<close> \<open>Workspaces\<close>: \<open>shared/workspaces\<close>, \<open>app/WorkspaceEntry.tsx\<close>, the redirects of \<open>widgets/Layout\<close>: the
  workspace of an address is decided after four answers at the latest and never waits for a request that was
  not sent; the redirects settle.
  \<open>Sidebar_View\<close>: \<open>widgets/Layout\<close>, \<open>shared/ui/NavItem\<close>: choosing a workspace in the menu opens that one, the menu's
  sections are its groups, focus follows across collapsing, the keys shown are those registered.

  \<^bold>\<open>The kit's stores\<close> (\<open>ui-kit/src/interaction\<close>, \<open>ui-kit/src/components\<close>).
  \<^item> \<open>Undo_History\<close>: \<open>undo/store.ts\<close>: undo takes the last operation in reach; undo and redo are inverse.
  \<^item> \<open>Keyboard\<close>: \<open>interaction/hotkeys\<close>, \<open>interaction/escape\<close>, \<open>components/Kbd\<close>, \<open>utils/latinKey.ts\<close>: a sequence fires
    exactly when its keys come in time, a combination is the same as its written form. Characters are those of
    Latin-1.
  \<^item> \<open>Key_Hooks\<close>: \<open>useRegisterHotkey.ts\<close>, \<open>useEscapeStack.ts\<close>: however components render, come and go, a key and the ladder
    belong to those who took them last (a simulation).
  \<^item> \<open>Key_Notation\<close>: \<open>components/Kbd\<close>: keys drawn alike are the same key to a press, the steps of a sequence are told apart.
  \<^item> \<open>Toasts\<close>: \<open>components/Toast\<close>, over the history and the keyboard: an error stays until it is decided.
  \<^item> \<open>Toast_View\<close>: \<open>ToastHost.tsx\<close>: toasts take no focus, and F8 only borrows it.
  \<^item> \<open>Label_Search\<close>, \<open>Command_Palette\<close>: \<open>components/CommandPalette\<close>, \<open>interaction/layers\<close>: the score of a label is what
    its reference says and the ranking follows it; the groups on screen answer what is typed now, nothing
    runs that was not chosen, three presses of Esc always leave.
  \<^item> \<open>Inline_Edit\<close>: \<open>components/Input/InlineInput.tsx\<close>: an edit is settled at most once, with a draft that may be saved.
  \<^item> \<open>Form_Controls\<close>: \<open>components/Input\<close>, \<open>Segmented\<close>, \<open>Avatar\<close> and others, \<open>hooks\<close>, \<open>overlay\<close>: a field's error waits
    for the blur, a spinner neither flashes nor hurries, arrows go round a group, overlays are open one at a time,
    a tone is computed without rounding.
  \<^item> \<open>Menus\<close>: \<open>components/Menu\<close>: an item runs once at a time and its error stays until the next try or opening; the
    sections hold every row and label.
  \<^item> \<open>Tooltips\<close>: \<open>components/Tooltip\<close>: whatever happens, the elements keep their own descriptions; the tooltip is placed
    on the screen and beside its trigger.
  \<^item> \<open>Links\<close>: \<open>components/Link\<close>, \<open>router\<close>, \<open>components/Button\<close>: a click goes to the router or to the browser, a new
    tab knows nothing of this one, a tooltip shows what \<open>tooltipProps\<close> was given.
  \<^item> \<open>App_Shell\<close>: \<open>components/AppShell\<close>, \<open>components/Resizer\<close>: the widths are sound after every gesture, for all
    rational widths and whatever the browser's storage held.
  \<^item> \<open>Shell_Frame\<close>: \<open>AppShell.tsx\<close>: the canvas is where it was when a route is opened again, focus comes back when the peek or
    the panel closes, a panel leaves with its content.

  \<^bold>\<open>The app's connections.\<close>
  \<^item> \<open>Realtime_Socket\<close>: \<open>app/socket\<close>, \<open>shared/realtime\<close>: the channels that are open are those someone wants,
    across sign-outs and reconnections.
  \<^item> \<open>Auth_Callback\<close>: \<open>app/auth\<close>: the callback's attempts and retries; it leaves only for a path of the app.
  \<^item> \<open>Sign_In_View\<close>: \<open>CallbackScreen.tsx\<close>, \<open>AuthErrorView.tsx\<close>: the wait shows how long it is, Enter acts once.

  \<^bold>\<open>Parameters and what is assumed of them.\<close> The BLAKE3 module is a record of functions that promises to be
  incremental; the retry jitter is a number; storage-service, main-service and authentik are what the labels
  carry; the numbers Phoenix answers \<open>on\<close> with are a function that never gives the same one twice
  (\<open>fresh_refs\<close>); the calendar of the user's time zone, the parsing of dates, the router's addresses and the toast
  policy are functions. Each property with such an assumption has a witness that gives a concrete one.

  \<^bold>\<open>Not modelled.\<close> What is drawn, styled or measured, and the texts on screen (much of \<open>ui-kit\<close> and the
  \<open>ui\<close> folders of the app); the generated API clients and design tokens; the entry points that connect the parts
  (\<open>upload.worker.ts\<close>, \<open>app.tsx\<close>, \<open>router.tsx\<close>); stories and tests (the storage double is modelled); the services in Rust and Elixir.
\<close>

end
